(* ===== verification/Prelude.thy ===== *)
theory Prelude
  imports Main "HOL-Library.Word"
begin

text \<open>
  Shared vocabulary of the development: the flag arithmetic of the C code on 32-bit
  words, the value type of computations that an \<open>assert\<close> or \<open>abort()\<close> may cut short,
  the errno values of the supported platform (Linux), and generic lemmas on lists that
  several components use.
\<close>

unbundle bit_operations_syntax

named_theorems flag_simps \<open>bit-mask arithmetic of the handle flags\<close>
named_theorems queue_simps \<open>facts on queues and lists of identifiers\<close>

type_synonym uint32 = "32 word"
type_synonym uint64 = "64 word"

section \<open>Flags\<close>

text \<open>The code sets a flag with \<open>|=\<close>, clears it with \<open>&= ~\<close> and tests it with \<open>&\<close>.\<close>

definition flag_on :: "uint32 \<Rightarrow> uint32 \<Rightarrow> bool" where
  "flag_on f m \<longleftrightarrow> f AND m \<noteq> 0"

definition flag_set :: "uint32 \<Rightarrow> uint32 \<Rightarrow> uint32" where
  "flag_set f m = f OR m"

definition flag_clr :: "uint32 \<Rightarrow> uint32 \<Rightarrow> uint32" where
  "flag_clr f m = f AND NOT m"

lemma flag_on_set [flag_simps]: "flag_on (flag_set f m) k \<longleftrightarrow> flag_on f k \<or> flag_on m k"
proof -
  have "(f OR m) AND k = (f AND k) OR (m AND k)"
    by (rule bit.conj_disj_distrib2)
  then show ?thesis
    by (auto simp: flag_on_def flag_set_def or_eq_0_iff)
qed

lemma flag_on_clr_disjoint [flag_simps]:
  assumes "\<not> flag_on m k"
  shows "flag_on (flag_clr f m) k = flag_on f k"
proof -
  have "(f AND NOT m) AND k = f AND k"
  proof (rule bit_word_eqI)
    fix n
    assume "n < LENGTH(32)"
    have "\<not> bit (m AND k) n" using assms by (simp add: flag_on_def)
    then show "bit ((f AND NOT m) AND k) n = bit (f AND k) n"
      using \<open>n < LENGTH(32)\<close> by (auto simp: bit_simps)
  qed
  then show ?thesis by (simp add: flag_on_def flag_clr_def)
qed

lemma flag_on_clr_same [flag_simps]: "\<not> flag_on (flag_clr f m) m"
  by (simp add: flag_on_def flag_clr_def ac_simps)

lemma flag_on_zero [flag_simps]: "\<not> flag_on 0 k" "\<not> flag_on f 0"
  by (simp_all add: flag_on_def)

lemma flag_on_numeral [flag_simps]:
  "flag_on (numeral a) (numeral b) \<longleftrightarrow> (numeral a :: uint32) AND numeral b \<noteq> 0"
  "flag_on 1 (numeral b) \<longleftrightarrow> (1 :: uint32) AND numeral b \<noteq> 0"
  "flag_on (numeral a) 1 \<longleftrightarrow> (numeral a :: uint32) AND 1 \<noteq> 0"
  "flag_on 1 1"
  by (simp_all add: flag_on_def)

section \<open>Signed readings\<close>

lemma sint_shift: "sint (w :: 'a::len word) = (uint w + 2 ^ (LENGTH('a) - 1)) mod 2 ^ LENGTH('a) - 2 ^ (LENGTH('a) - 1)"
  by (simp add: sint_uint signed_take_bit_eq_take_bit_shift take_bit_eq_mod)

lemma sint_small:
  fixes w :: "'a::len word"
  assumes "uint w < 2 ^ (LENGTH('a) - 1)"
  shows "sint w = uint w"
proof -
  have "(2::int) ^ LENGTH('a) = 2 * 2 ^ (LENGTH('a) - 1)"
    by (metis One_nat_def Suc_pred len_gt_0 power_Suc)
  moreover have "0 \<le> uint w" by simp
  ultimately show ?thesis using assms by (simp add: sint_shift)
qed

lemma sint_large:
  fixes w :: "'a::len word"
  assumes "2 ^ (LENGTH('a) - 1) \<le> uint w"
  shows "sint w = uint w - 2 ^ LENGTH('a)"
proof -
  have e: "(2::int) ^ LENGTH('a) = 2 * 2 ^ (LENGTH('a) - 1)"
    by (metis One_nat_def Suc_pred len_gt_0 power_Suc)
  moreover have lt: "uint w < 2 ^ LENGTH('a)" by simp
  moreover have "(uint w + 2 ^ (LENGTH('a) - 1)) mod 2 ^ LENGTH('a) = uint w + 2 ^ (LENGTH('a) - 1) - 2 ^ LENGTH('a)"
    using assms lt e by (subst mod_pos_geq) auto
  ultimately show ?thesis by (simp add: sint_shift)
qed

lemma sint_nonneg_iff: "0 \<le> sint (w :: 'a::len word) \<longleftrightarrow> uint w < 2 ^ (LENGTH('a) - 1)"
proof (cases "uint w < 2 ^ (LENGTH('a) - 1)")
  case True
  then show ?thesis by (simp add: sint_small)
next
  case False
  have "uint w < 2 ^ LENGTH('a)" by simp
  moreover have "sint w = uint w - 2 ^ LENGTH('a)" using False by (simp add: sint_large)
  ultimately have "sint w < 0" by linarith
  with False show ?thesis by simp
qed

section \<open>Outcomes\<close>

text \<open>
  A C function returns, or stops the process in a failed \<open>assert\<close> or in \<open>abort()\<close>
  (\<open>Abort\<close>), or needs an answer of the kernel that the script of kernel answers of the
  model does not hold (\<open>Starve\<close>; the call is still waiting).
\<close>

datatype 'a outcome = Ret (ret_val: 'a) | Abort | Starve

primrec obind :: "'a outcome \<Rightarrow> ('a \<Rightarrow> 'b outcome) \<Rightarrow> 'b outcome" where
  "obind (Ret x) f = f x"
| "obind Abort f = Abort"
| "obind Starve f = Starve"

definition assert_that :: "bool \<Rightarrow> 'a outcome \<Rightarrow> 'a outcome" where
  "assert_that b k = (if b then k else Abort)"

lemma assert_that_simps [simp]:
  "assert_that True k = k"
  "assert_that False k = Abort"
  "assert_that b k = Ret x \<longleftrightarrow> b \<and> k = Ret x"
  by (simp_all add: assert_that_def)

text \<open>A partial pointer operation: \<open>None\<close> is the dereference of \<open>NULL\<close>, which stops the process.\<close>

primrec ptr_ok :: "'a option \<Rightarrow> 'a outcome" where
  "ptr_ok None = Abort"
| "ptr_ok (Some x) = Ret x"

lemma ptr_ok_Ret [simp]: "ptr_ok m = Ret x \<longleftrightarrow> m = Some x"
  by (cases m) simp_all

lemma obind_Ret [simp]: "obind m Ret = m"
  by (cases m) simp_all

lemma obind_eq_Ret: "obind m f = Ret y \<longleftrightarrow> (\<exists>x. m = Ret x \<and> f x = Ret y)"
  by (cases m) simp_all

lemma obind_assoc: "obind (obind m f) g = obind m (\<lambda>x. obind (f x) g)"
  by (cases m) simp_all

text \<open>A loop of the code may also run forever: \<open>None\<close>.\<close>

type_synonym 'a run = "'a outcome option"

definition rbind :: "'a run \<Rightarrow> ('a \<Rightarrow> 'b run) \<Rightarrow> 'b run" where
  "rbind m f = (case m of None \<Rightarrow> None | Some r \<Rightarrow>
     (case r of Ret x \<Rightarrow> f x | Abort \<Rightarrow> Some Abort | Starve \<Rightarrow> Some Starve))"

lemma rbind_simps [simp]:
  "rbind None f = None" "rbind (Some (Ret x)) f = f x"
  "rbind (Some Abort) f = Some Abort" "rbind (Some Starve) f = Some Starve"
  by (simp_all add: rbind_def)

lemma rbind_eq_Ret: "rbind m f = Some (Ret y) \<longleftrightarrow> (\<exists>x. m = Some (Ret x) \<and> f x = Some (Ret y))"
  by (auto simp: rbind_def split: option.splits outcome.splits)

lemma rbind_mono [partial_function_mono]:
  assumes "mono_option B" and "\<And>y. mono_option (\<lambda>f. C y f)"
  shows "mono_option (\<lambda>f. rbind (B f) (\<lambda>y. C y f))"
proof -
  have eq: "rbind m g = Option.bind m (\<lambda>r. case r of Ret x \<Rightarrow> g x | Abort \<Rightarrow> Some Abort | Starve \<Rightarrow> Some Starve)" 
    for m :: "'c run" and g :: "'c \<Rightarrow> 'd run"
    by (simp add: rbind_def split: option.splits)
  have "mono_option (\<lambda>f. case r of Ret x \<Rightarrow> C x f | Abort \<Rightarrow> Some Abort | Starve \<Rightarrow> Some Starve)" for r
    using assms(2) by (cases r) (simp_all add: monotone_def fun_ord_def flat_ord_def)
  from bind_mono [OF assms(1) this] show ?thesis by (simp only: eq)
qed

section \<open>Error numbers\<close>

text \<open>
  The values of the C library's \<open>errno\<close> macros on Linux (\<open>EWOULDBLOCK\<close> is \<open>EAGAIN\<close>
  there, and \<open>ENOTEMPTY\<close> differs from \<open>EEXIST\<close>), and the two \<open>getaddrinfo\<close> results
  that the code names.
\<close>

abbreviation (input) "EPERM \<equiv> (1 :: int)"
abbreviation (input) "ENOENT \<equiv> (2 :: int)"
abbreviation (input) "ESRCH \<equiv> (3 :: int)"
abbreviation (input) "EINTR \<equiv> (4 :: int)"
abbreviation (input) "EIO \<equiv> (5 :: int)"
abbreviation (input) "EBADF \<equiv> (9 :: int)"
abbreviation (input) "ECHILD \<equiv> (10 :: int)"
abbreviation (input) "EAGAIN \<equiv> (11 :: int)"
abbreviation (input) "ENOMEM \<equiv> (12 :: int)"
abbreviation (input) "EACCES \<equiv> (13 :: int)"
abbreviation (input) "EFAULT \<equiv> (14 :: int)"
abbreviation (input) "EBUSY \<equiv> (16 :: int)"
abbreviation (input) "EEXIST \<equiv> (17 :: int)"
abbreviation (input) "EXDEV \<equiv> (18 :: int)"
abbreviation (input) "ENODEV \<equiv> (19 :: int)"
abbreviation (input) "ENOTDIR \<equiv> (20 :: int)"
abbreviation (input) "EISDIR \<equiv> (21 :: int)"
abbreviation (input) "EINVAL \<equiv> (22 :: int)"
abbreviation (input) "ENFILE \<equiv> (23 :: int)"
abbreviation (input) "EMFILE \<equiv> (24 :: int)"
abbreviation (input) "ENOSPC \<equiv> (28 :: int)"
abbreviation (input) "ESPIPE \<equiv> (29 :: int)"
abbreviation (input) "EROFS \<equiv> (30 :: int)"
abbreviation (input) "EPIPE \<equiv> (32 :: int)"
abbreviation (input) "ENAMETOOLONG \<equiv> (36 :: int)"
abbreviation (input) "ENOSYS \<equiv> (38 :: int)"
abbreviation (input) "ENOTEMPTY \<equiv> (39 :: int)"
abbreviation (input) "ELOOP \<equiv> (40 :: int)"
abbreviation (input) "ENOTSOCK \<equiv> (88 :: int)"
abbreviation (input) "EMSGSIZE \<equiv> (90 :: int)"
abbreviation (input) "EOPNOTSUPP \<equiv> (95 :: int)"
abbreviation (input) "EAFNOSUPPORT \<equiv> (97 :: int)"
abbreviation (input) "EADDRINUSE \<equiv> (98 :: int)"
abbreviation (input) "EADDRNOTAVAIL \<equiv> (99 :: int)"
abbreviation (input) "ENETUNREACH \<equiv> (101 :: int)"
abbreviation (input) "ECONNABORTED \<equiv> (103 :: int)"
abbreviation (input) "ECONNRESET \<equiv> (104 :: int)"
abbreviation (input) "ENOTCONN \<equiv> (107 :: int)"
abbreviation (input) "ETIMEDOUT \<equiv> (110 :: int)"
abbreviation (input) "ECONNREFUSED \<equiv> (111 :: int)"
abbreviation (input) "EHOSTUNREACH \<equiv> (113 :: int)"
abbreviation (input) "EALREADY \<equiv> (114 :: int)"
abbreviation (input) "EINPROGRESS \<equiv> (115 :: int)"
abbreviation (input) "EDQUOT \<equiv> (122 :: int)"
abbreviation (input) "EAI_NONAME \<equiv> (- 2 :: int)"
abbreviation (input) "EAI_NODATA \<equiv> (- 5 :: int)"

section \<open>Lists of identifiers\<close>

lemma set_remove1_distinct [queue_simps]: "distinct xs \<Longrightarrow> set (remove1 x xs) = set xs - {x}"
  by (rule set_remove1_eq)

lemma remove1_append_mid [queue_simps]:
  "x \<notin> set xs \<Longrightarrow> remove1 x (xs @ x # ys) = xs @ ys"
  by (simp add: remove1_append)

lemma distinct_snoc [queue_simps]: "distinct (xs @ [x]) \<longleftrightarrow> distinct xs \<and> x \<notin> set xs"
  by auto

lemma hd_in_set_ne [intro]: "xs \<noteq> [] \<Longrightarrow> hd xs \<in> set xs"
  by (rule hd_in_set)

lemma find_append:
  "find P (xs @ ys) = (case find P xs of None \<Rightarrow> find P ys | Some x \<Rightarrow> Some x)"
  by (induction xs) auto

lemma remove1_hd [queue_simps]: "xs \<noteq> [] \<Longrightarrow> remove1 (hd xs) xs = tl xs"
  by (cases xs) simp_all

end
