(* ===== verification/NgxQueue.thy ===== *)
theory NgxQueue
  imports Prelude
begin

text \<open>
  The intrusive circular doubly linked queue of \<open>include/uv-private/ngx-queue.h\<close>, at the
  level of its \<open>prev\<close> and \<open>next\<close> pointers, and its refinement to lists: every other
  component of the development keeps its queues as lists, which this theory justifies.
\<close>

section \<open>The macros\<close>

text \<open>A queue link and a queue head are both an \<open>ngx_queue_t\<close>, named by its address.\<close>

record 'a ngx_heap =
  q_prev :: "'a \<Rightarrow> 'a"
  q_next :: "'a \<Rightarrow> 'a"

definition set_prev :: "'a \<Rightarrow> 'a \<Rightarrow> 'a ngx_heap \<Rightarrow> 'a ngx_heap" where
  "set_prev q p m = m\<lparr>q_prev := (q_prev m)(q := p)\<rparr>"

definition set_next :: "'a \<Rightarrow> 'a \<Rightarrow> 'a ngx_heap \<Rightarrow> 'a ngx_heap" where
  "set_next q p m = m\<lparr>q_next := (q_next m)(q := p)\<rparr>"

definition ngx_queue_init :: "'a \<Rightarrow> 'a ngx_heap \<Rightarrow> 'a ngx_heap" where
  "ngx_queue_init q m = set_next q q (set_prev q q m)"

definition ngx_queue_empty :: "'a \<Rightarrow> 'a ngx_heap \<Rightarrow> bool" where
  "ngx_queue_empty h m \<longleftrightarrow> h = q_prev m h"

definition ngx_queue_insert_head :: "'a \<Rightarrow> 'a \<Rightarrow> 'a ngx_heap \<Rightarrow> 'a ngx_heap" where
  "ngx_queue_insert_head h x m =
     (let m = set_next x (q_next m h) m;
          m = set_prev (q_next m x) x m;
          m = set_prev x h m
      in set_next h x m)"

definition ngx_queue_insert_tail :: "'a \<Rightarrow> 'a \<Rightarrow> 'a ngx_heap \<Rightarrow> 'a ngx_heap" where
  "ngx_queue_insert_tail h x m =
     (let m = set_prev x (q_prev m h) m;
          m = set_next (q_prev m x) x m;
          m = set_next x h m
      in set_prev h x m)"

definition ngx_queue_head :: "'a \<Rightarrow> 'a ngx_heap \<Rightarrow> 'a" where
  "ngx_queue_head h m = q_next m h"

definition ngx_queue_last :: "'a \<Rightarrow> 'a ngx_heap \<Rightarrow> 'a" where
  "ngx_queue_last h m = q_prev m h"

definition ngx_queue_next :: "'a \<Rightarrow> 'a ngx_heap \<Rightarrow> 'a" where
  "ngx_queue_next q m = q_next m q"

definition ngx_queue_prev :: "'a \<Rightarrow> 'a ngx_heap \<Rightarrow> 'a" where
  "ngx_queue_prev q m = q_prev m q"

text \<open>The version without \<open>NGX_DEBUG\<close>: the removed node keeps its own pointers.\<close>

definition ngx_queue_remove :: "'a \<Rightarrow> 'a ngx_heap \<Rightarrow> 'a ngx_heap" where
  "ngx_queue_remove x m =
     (let m = set_prev (q_next m x) (q_prev m x) m
      in set_next (q_prev m x) (q_next m x) m)"

definition ngx_queue_split :: "'a \<Rightarrow> 'a \<Rightarrow> 'a \<Rightarrow> 'a ngx_heap \<Rightarrow> 'a ngx_heap" where
  "ngx_queue_split h q n m =
     (let m = set_prev n (q_prev m h) m;
          m = set_next (q_prev m n) n m;
          m = set_next n q m;
          m = set_prev h (q_prev m q) m;
          m = set_next (q_prev m h) h m
      in set_prev q n m)"

definition ngx_queue_add :: "'a \<Rightarrow> 'a \<Rightarrow> 'a ngx_heap \<Rightarrow> 'a ngx_heap" where
  "ngx_queue_add h n m =
     (let m = set_next (q_prev m h) (q_next m n) m;
          m = set_prev (q_next m n) (q_prev m h) m;
          m = set_prev h (q_prev m n) m
      in set_next (q_prev m h) h m)"

text \<open>
  The loop of \<open>ngx_queue_foreach\<close> with a body that leaves the queue alone: it visits
  \<open>q\<close>, \<open>next(q)\<close>, \<open>\<dots>\<close> until it is back at the sentinel. \<open>None\<close> stands for a walk that
  never comes back.
\<close>

partial_function (option) foreach_from ::
    "'a \<Rightarrow> 'a \<Rightarrow> 'a ngx_heap \<Rightarrow> 'a list \<Rightarrow> 'a list option" where
  "foreach_from h q m visited =
     (if q \<noteq> h \<and> \<not> ngx_queue_empty h m
      then foreach_from h (ngx_queue_next q m) m (visited @ [q])
      else Some visited)"

definition ngx_queue_foreach :: "'a \<Rightarrow> 'a ngx_heap \<Rightarrow> 'a list option" where
  "ngx_queue_foreach h m = foreach_from h (ngx_queue_head h m) m []"

text \<open>
  The idiom \<open>while (!ngx_queue_empty(h)) { q = ngx_queue_head(h); ngx_queue_remove(q); \<dots> }\<close>
  of the dispatch loops, collecting the nodes it takes off.
\<close>

partial_function (option) ngx_drain ::
    "'a \<Rightarrow> 'a ngx_heap \<Rightarrow> 'a list \<Rightarrow> ('a list \<times> 'a ngx_heap) option" where
  "ngx_drain h m taken =
     (if ngx_queue_empty h m then Some (taken, m)
      else ngx_drain h (ngx_queue_remove (ngx_queue_head h m) m)
             (taken @ [ngx_queue_head h m]))"

section \<open>Representation of a list by a queue\<close>

text \<open>\<open>linked m a xs b\<close>: following \<open>next\<close> from \<open>a\<close> visits \<open>xs\<close> and arrives at \<open>b\<close>, and
  the \<open>prev\<close> pointers mirror it.\<close>

fun linked :: "'a ngx_heap \<Rightarrow> 'a \<Rightarrow> 'a list \<Rightarrow> 'a \<Rightarrow> bool" where
  "linked m a [] b \<longleftrightarrow> q_next m a = b \<and> q_prev m b = a"
| "linked m a (x # xs) b \<longleftrightarrow> q_next m a = x \<and> q_prev m x = a \<and> linked m x xs b"

definition qrep :: "'a ngx_heap \<Rightarrow> 'a \<Rightarrow> 'a list \<Rightarrow> bool" where
  "qrep m h xs \<longleftrightarrow> distinct (h # xs) \<and> linked m h xs h"

lemma set_prev_simps [simp]:
  "q_prev (set_prev q p m) = (q_prev m)(q := p)"
  "q_next (set_prev q p m) = q_next m"
  by (simp_all add: set_prev_def)

lemma set_next_simps [simp]:
  "q_next (set_next q p m) = (q_next m)(q := p)"
  "q_prev (set_next q p m) = q_prev m"
  by (simp_all add: set_next_def)

lemma linked_append [simp]:
  "linked m a (xs @ y # ys) b \<longleftrightarrow> linked m a xs y \<and> linked m y ys b"
  by (induction xs arbitrary: a) auto

lemma linked_snoc [simp]: "linked m a (xs @ [y]) b \<longleftrightarrow> linked m a xs y \<and> linked m y [] b"
  using linked_append [of m a xs y "[]" b] by simp

text \<open>A segment only reads \<open>next\<close> of its nodes and start and \<open>prev\<close> of its nodes and end.\<close>

lemma linked_cong:
  assumes "\<And>y. y \<in> insert a (set xs) \<Longrightarrow> q_next m' y = q_next m y"
    and "\<And>y. y \<in> insert b (set xs) \<Longrightarrow> q_prev m' y = q_prev m y"
  shows "linked m' a xs b = linked m a xs b"
  using assms by (induction xs arbitrary: a) auto

lemma linked_last: "linked m a xs b \<Longrightarrow> q_prev m b = last (a # xs)"
  by (induction xs arbitrary: a) auto

lemma linked_first: "linked m a xs b \<Longrightarrow> q_next m a = hd (xs @ [b])"
  by (cases xs) auto

lemma linked_next_unique: "linked m a xs b \<Longrightarrow> linked m a ys b \<Longrightarrow>
    b \<notin> set xs \<Longrightarrow> b \<notin> set ys \<Longrightarrow> xs = ys"
proof (induction xs arbitrary: a ys)
  case Nil
  then show ?case by (cases ys) auto
next
  case (Cons x xs)
  then show ?case by (cases ys) auto
qed

lemma qrep_unique: "qrep m h xs \<Longrightarrow> qrep m h ys \<Longrightarrow> xs = ys"
  by (auto simp: qrep_def intro: linked_next_unique)


section \<open>Each operation on the list it represents\<close>

lemma qrep_init: "qrep (ngx_queue_init q m) q []"
  by (simp add: qrep_def ngx_queue_init_def)

lemma qrep_empty: "qrep m h xs \<Longrightarrow> ngx_queue_empty h m \<longleftrightarrow> xs = []"
proof -
  assume q: "qrep m h xs"
  then have "q_prev m h = last (h # xs)"
    unfolding qrep_def using linked_last by metis
  moreover have "last (h # xs) = h \<longleftrightarrow> xs = []"
    using q by (cases xs rule: rev_cases) (auto simp: qrep_def)
  ultimately show ?thesis by (auto simp: ngx_queue_empty_def)
qed

lemma qrep_head: "qrep m h xs \<Longrightarrow> xs \<noteq> [] \<Longrightarrow> ngx_queue_head h m = hd xs"
  by (cases xs) (auto simp: qrep_def ngx_queue_head_def)

lemma qrep_last: "qrep m h xs \<Longrightarrow> xs \<noteq> [] \<Longrightarrow> ngx_queue_last h m = last xs"
  by (auto simp: qrep_def ngx_queue_last_def dest: linked_last)

lemma qrep_insert_tail:
  assumes "qrep m h xs" and "x \<notin> set (h # xs)"
  shows "qrep (ngx_queue_insert_tail h x m) h (xs @ [x])"
proof (cases xs rule: rev_cases)
  case Nil
  with assms show ?thesis by (auto simp: qrep_def ngx_queue_insert_tail_def Let_def)
next
  case (snoc ys y)
  let ?m = "ngx_queue_insert_tail h x m"
  have l: "linked m h ys y" and e: "q_prev m h = y" "q_next m y = h"
    and d: "distinct (h # ys @ [y])"
    using assms(1) snoc by (auto simp: qrep_def)
  have x: "x \<noteq> h" "x \<noteq> y" "x \<notin> set ys" using assms(2) snoc by auto
  have "linked ?m h ys y = linked m h ys y"
    by (rule linked_cong) (use d x e in \<open>auto simp: ngx_queue_insert_tail_def Let_def\<close>)
  with l d x e show ?thesis
    unfolding snoc qrep_def by (auto simp: ngx_queue_insert_tail_def Let_def)
qed

lemma qrep_insert_head:
  assumes "qrep m h xs" and "x \<notin> set (h # xs)"
  shows "qrep (ngx_queue_insert_head h x m) h (x # xs)"
proof (cases xs)
  case Nil
  with assms show ?thesis by (auto simp: qrep_def ngx_queue_insert_head_def Let_def)
next
  case (Cons y ys)
  let ?m = "ngx_queue_insert_head h x m"
  have l: "linked m y ys h" and e: "q_next m h = y" "q_prev m y = h"
    and d: "distinct (h # y # ys)"
    using assms(1) Cons by (auto simp: qrep_def)
  have x: "x \<noteq> h" "x \<noteq> y" "x \<notin> set ys" using assms(2) Cons by auto
  have "linked ?m y ys h = linked m y ys h"
    by (rule linked_cong) (use d x e in \<open>auto simp: ngx_queue_insert_head_def Let_def\<close>)
  with l d x e show ?thesis
    unfolding Cons qrep_def by (auto simp: ngx_queue_insert_head_def Let_def)
qed

text \<open>Removal unlinks a node between its neighbours \<open>a\<close> and \<open>b\<close>.\<close>

lemma linked_split_at:
  assumes "linked m h (xs @ x # ys) h"
  shows "linked m h xs x" "linked m x ys h" "q_prev m x = last (h # xs)" "q_next m x = hd (ys @ [h])"
  using assms linked_last [of m h xs x] linked_first [of m x ys h] by simp_all

lemma linked_relink:
  assumes "linked m a xs x" and "linked m x ys b" and "x \<notin> set xs" and "x \<notin> set ys"
    and "distinct (a # xs)" "distinct (ys @ [b])" "set xs \<inter> set ys = {}"
    and "a \<notin> set ys" "b \<notin> set xs" "x \<noteq> a" "x \<noteq> b"
  shows "linked (set_next (last (a # xs)) (hd (ys @ [b])) (set_prev (hd (ys @ [b])) (last (a # xs)) m))
           a (xs @ ys) b"
proof (cases xs rule: rev_cases)
  case Nil
  show ?thesis
  proof (cases ys)
    case Nil
    with \<open>xs = []\<close> show ?thesis by simp
  next
    case (Cons z zs)
    have "linked (set_next a z (set_prev z a m)) z zs b = linked m z zs b"
      by (rule linked_cong) (use assms Cons in auto)
    with Cons \<open>xs = []\<close> assms show ?thesis by auto
  qed
next
  case (snoc ws w)
  let ?m = "set_next (last (a # xs)) (hd (ys @ [b])) (set_prev (hd (ys @ [b])) (last (a # xs)) m)"
  have left: "linked ?m a ws w = linked m a ws w"
    by (rule linked_cong) (use assms snoc in \<open>auto simp: hd_append split: if_splits\<close>)
  show ?thesis
  proof (cases ys)
    case Nil
    with left assms snoc show ?thesis by auto
  next
    case (Cons z zs)
    have right: "linked ?m z zs b = linked m z zs b"
      by (rule linked_cong) (use assms snoc Cons in auto)
    have app: "linked ?m a (xs @ ys) b \<longleftrightarrow> linked ?m a ws w \<and> linked ?m w [] z \<and> linked ?m z zs b"
      using Cons snoc by auto
    from left right app assms snoc Cons show ?thesis by auto
  qed
qed

lemma ngx_queue_remove_unfold:
  "q_next m x \<noteq> x \<Longrightarrow>
   ngx_queue_remove x m =
     set_next (q_prev m x) (q_next m x) (set_prev (q_next m x) (q_prev m x) m)"
  by (simp add: ngx_queue_remove_def Let_def)

lemma qrep_remove:
  assumes "qrep m h (xs @ x # ys)"
  shows "qrep (ngx_queue_remove x m) h (xs @ ys)"
proof -
  from assms have l: "linked m h (xs @ x # ys) h" and d: "distinct (h # xs @ x # ys)"
    by (auto simp: qrep_def)
  note at = linked_split_at [OF l]
  have "q_next m x \<noteq> x"
    using at(4) d by (cases ys) auto
  then have eq: "ngx_queue_remove x m =
      set_next (last (h # xs)) (hd (ys @ [h])) (set_prev (hd (ys @ [h])) (last (h # xs)) m)"
    using at(3,4) by (simp add: ngx_queue_remove_unfold)
  have "linked (ngx_queue_remove x m) h (xs @ ys) h"
    unfolding eq by (rule linked_relink [OF at(1,2)]) (use d in auto)
  with d show ?thesis by (auto simp: qrep_def)
qed


lemma qrep_split:
  assumes "qrep m h (xs @ q # ys)" and "n \<notin> set (h # xs @ q # ys)"
  shows "qrep (ngx_queue_split h q n m) h xs" "qrep (ngx_queue_split h q n m) n (q # ys)"
proof -
  let ?m = "ngx_queue_split h q n m"
  from assms(1) have l: "linked m h (xs @ q # ys) h" and d: "distinct (h # xs @ q # ys)"
    by (auto simp: qrep_def)
  note at = linked_split_at [OF l]
  define p where "p = last (h # xs)"
  define e where "e = last (q # ys)"
  have p: "p \<in> set (h # xs)" unfolding p_def by (rule last_in_set) simp
  have e: "e \<in> set (q # ys)" unfolding e_def by (rule last_in_set) simp
  have ph: "q_prev m h = e" using linked_last [OF at(2)] e_def by simp
  have pq: "q_prev m q = p" using at(3) p_def by simp
  have pn: "q_prev ?m = (q_prev m)(n := e, h := p, q := n)"
    and nn: "q_next ?m = (q_next m)(e := n, n := q, p := h)"
    using ph pq assms(2) d by (auto simp: ngx_queue_split_def Let_def)
  have "linked ?m h xs h"
  proof (cases xs rule: rev_cases)
    case Nil
    with d show ?thesis by (simp add: pn nn p_def)
  next
    case (snoc ws w)
    have "linked ?m h ws w = linked m h ws w"
      by (rule linked_cong) (use d snoc e assms(2) in \<open>auto simp: pn nn p_def\<close>)
    moreover have "p = w" using snoc p_def by simp
    ultimately show ?thesis using at(1) snoc d by (auto simp: pn nn)
  qed
  with d show "qrep ?m h xs" by (auto simp: qrep_def)
  have "linked ?m n (q # ys) n"
  proof (cases ys rule: rev_cases)
    case Nil
    then have "e = q" by (simp add: e_def)
    with Nil d p assms(2) show ?thesis by (auto simp: pn nn)
  next
    case (snoc ws w)
    then have "e = w" by (simp add: e_def)
    have "linked ?m q ws w = linked m q ws w"
      by (rule linked_cong) (use d snoc p \<open>e = w\<close> assms(2) in \<open>auto simp: pn nn\<close>)
    with at(2) snoc d p \<open>e = w\<close> assms(2) show ?thesis by (auto simp: pn nn)
  qed
  with d assms(2) show "qrep ?m n (q # ys)" by (auto simp: qrep_def)
qed

lemma qrep_add:
  assumes "qrep m h xs" and "qrep m n ys" and "set (h # xs) \<inter> set (n # ys) = {}"
  shows "qrep (ngx_queue_add h n m) h (xs @ ys)"
proof -
  let ?m = "ngx_queue_add h n m"
  have l: "linked m h xs h" "linked m n ys n" and d: "distinct (h # xs)" "distinct (n # ys)"
    using assms by (auto simp: qrep_def)
  define p where "p = last (h # xs)"
  define e where "e = last (n # ys)"
  define z where "z = hd (ys @ [n])"
  have p: "p \<in> set (h # xs)" unfolding p_def by (rule last_in_set) simp
  have e: "e \<in> set (n # ys)" unfolding e_def by (rule last_in_set) simp
  have z: "z \<in> set (n # ys)" unfolding z_def by (cases ys) auto
  have ends: "q_prev m h = p" "q_prev m n = e" "q_next m n = z"
    using linked_last [OF l(1)] linked_last [OF l(2)] linked_first [OF l(2)]
    by (simp_all add: p_def e_def z_def)
  have pz: "p \<noteq> n" "z \<noteq> h" "e \<noteq> h" "p \<noteq> e"
    using p z e assms(3) by auto
  have np: "q_next m p = h"
    using l(1) by (cases xs rule: rev_cases) (auto simp: p_def)
  show ?thesis
  proof (cases ys)
    case Nil
    then have zn: "z = n" "e = n" by (simp_all add: z_def e_def)
    have "q_prev ?m = (q_prev m)(n := p, h := p)" "q_next ?m = (q_next m)(p := h)"
      using ends zn pz by (auto simp: ngx_queue_add_def Let_def)
    moreover have "n \<notin> set (h # xs)" using assms(3) by auto
    ultimately have "linked ?m h xs h = linked m h xs h"
      using ends np by (intro linked_cong) auto
    with l d Nil show ?thesis by (auto simp: qrep_def)
  next
    case (Cons z' zs)
    then have [simp]: "z' = z" by (simp add: z_def)
    have ey: "e \<in> set ys" "e = last ys" using Cons by (auto simp: e_def)
    have zn: "z \<noteq> n" using Cons d by auto
    have pn: "q_prev ?m = (q_prev m)(z := p, h := e)"
      and nn: "q_next ?m = (q_next m)(p := z, e := h)"
      using ends pz zn by (auto simp: ngx_queue_add_def Let_def)
    have dis: "h \<notin> set ys" "\<And>x. x \<in> set xs \<Longrightarrow> x \<notin> set ys" "z \<notin> set xs" "e \<notin> set xs" "p \<notin> set ys"
      using assms(3) p Cons ey by auto
    have tl: "linked ?m z zs h"
    proof (cases zs rule: rev_cases)
      case Nil
      with ey Cons have "e = z" by simp
      with pn nn Nil pz show ?thesis by simp
    next
      case (snoc ws w)
      with ey Cons have "e = w" by simp
      have "linked ?m z ws w = linked m z ws w"
        by (rule linked_cong) (use d dis snoc Cons \<open>e = w\<close> pz in \<open>auto simp: pn nn\<close>)
      moreover have "linked m z ws w" using l(2) Cons snoc by simp
      moreover have "q_next ?m w = h" "q_prev ?m h = w"
        using pn nn \<open>e = w\<close> by simp_all
      ultimately show ?thesis using snoc by simp
    qed
    have "linked ?m h xs z"
    proof (cases xs rule: rev_cases)
      case Nil
      then have "p = h" by (simp add: p_def)
      with pn nn Nil pz zn show ?thesis by simp
    next
      case (snoc ws w)
      then have "p = w" by (simp add: p_def)
      have "linked ?m h ws w = linked m h ws w"
        by (rule linked_cong) (use d dis snoc \<open>p = w\<close> pz in \<open>auto simp: pn nn\<close>)
      moreover have "linked m h ws w" using l(1) snoc by simp
      moreover have "q_next ?m w = z" "q_prev ?m z = w"
        using pn nn \<open>p = w\<close> pz by simp_all
      ultimately show ?thesis using snoc by simp
    qed
    with tl Cons have "linked ?m h (xs @ ys) h" by simp
    with d assms(3) show ?thesis by (auto simp: qrep_def)
  qed
qed

text \<open>Frame: an operation on one queue leaves a queue elsewhere alone.\<close>

lemma qrep_frame:
  assumes "qrep m h' zs"
    and "\<And>y. y \<in> set (h' # zs) \<Longrightarrow> q_next m' y = q_next m y \<and> q_prev m' y = q_prev m y"
  shows "qrep m' h' zs"
proof -
  have "linked m' h' zs h' = linked m h' zs h'"
    by (rule linked_cong) (use assms(2) in auto)
  with assms(1) show ?thesis by (simp add: qrep_def)
qed

lemma qrep_insert_tail_frame:
  assumes "qrep m h xs" and "qrep m h' zs" and "set (x # h # xs) \<inter> set (h' # zs) = {}"
  shows "qrep (ngx_queue_insert_tail h x m) h' zs"
proof (rule qrep_frame [OF assms(2)])
  fix y assume y: "y \<in> set (h' # zs)"
  have "q_prev m h \<in> set (h # xs)"
    using linked_last [of m h xs h] assms(1) last_in_set [of "h # xs"] by (auto simp: qrep_def)
  with y assms(3) show "q_next (ngx_queue_insert_tail h x m) y = q_next m y \<and>
      q_prev (ngx_queue_insert_tail h x m) y = q_prev m y"
    by (auto simp: ngx_queue_insert_tail_def Let_def)
qed

lemma qrep_insert_head_frame:
  assumes "qrep m h xs" and "qrep m h' zs" and "set (x # h # xs) \<inter> set (h' # zs) = {}"
  shows "qrep (ngx_queue_insert_head h x m) h' zs"
proof (rule qrep_frame [OF assms(2)])
  fix y assume y: "y \<in> set (h' # zs)"
  have "q_next m h \<in> set (h # xs)"
    using linked_first [of m h xs h] assms(1) hd_in_set [of "xs @ [h]"] by (auto simp: qrep_def)
  with y assms(3) show "q_next (ngx_queue_insert_head h x m) y = q_next m y \<and>
      q_prev (ngx_queue_insert_head h x m) y = q_prev m y"
    by (auto simp: ngx_queue_insert_head_def Let_def)
qed

lemma qrep_remove_frame:
  assumes "qrep m h (xs @ x # ys)" and "qrep m h' zs"
    and "set (h # xs @ x # ys) \<inter> set (h' # zs) = {}"
  shows "qrep (ngx_queue_remove x m) h' zs"
proof (rule qrep_frame [OF assms(2)])
  fix y assume y: "y \<in> set (h' # zs)"
  have l: "linked m h (xs @ x # ys) h" and d: "distinct (h # xs @ x # ys)"
    using assms(1) by (auto simp: qrep_def)
  note at = linked_split_at [OF l]
  have "hd (ys @ [h]) \<in> set (ys @ [h])" by (rule hd_in_set) simp
  then have "q_next m x \<in> set (h # ys)" using at(4) by auto
  moreover have "q_prev m x \<in> set (h # xs)" using at(3) last_in_set [of "h # xs"] by simp
  moreover have "q_next m x \<noteq> x" using calculation(1) d by auto
  ultimately have "y \<noteq> q_next m x" "y \<noteq> q_prev m x" "q_next m x \<noteq> x"
    using y assms(3) by auto
  then show "q_next (ngx_queue_remove x m) y = q_next m y \<and>
      q_prev (ngx_queue_remove x m) y = q_prev m y"
    by (simp add: ngx_queue_remove_unfold)
qed


section \<open>The loops\<close>

lemma foreach_from_linked:
  assumes "linked m q xs h" and "h \<notin> set (q # xs)" and "\<not> ngx_queue_empty h m"
  shows "foreach_from h q m vs = Some (vs @ q # xs)"
  using assms
proof (induction xs arbitrary: q vs)
  case Nil
  then show ?case
    by (subst foreach_from.simps, subst foreach_from.simps) (auto simp: ngx_queue_next_def)
next
  case (Cons x xs)
  then show ?case
    by (subst foreach_from.simps) (auto simp: ngx_queue_next_def)
qed

lemma foreach_qrep: "qrep m h xs \<Longrightarrow> ngx_queue_foreach h m = Some xs"
proof (cases xs)
  case Nil
  assume "qrep m h xs"
  with Nil show ?thesis
    by (simp add: ngx_queue_foreach_def foreach_from.simps qrep_empty)
next
  case (Cons y ys)
  assume q: "qrep m h xs"
  then have "foreach_from h y m [] = Some ([] @ y # ys)"
    using Cons qrep_empty [OF q] by (intro foreach_from_linked) (auto simp: qrep_def)
  with q Cons show ?thesis
    by (simp add: ngx_queue_foreach_def qrep_head)
qed

lemma drain_qrep:
  "qrep m h xs \<Longrightarrow> \<exists>m'. ngx_drain h m vs = Some (vs @ xs, m') \<and> qrep m' h []"
proof (induction xs arbitrary: m vs)
  case Nil
  then show ?case by (auto simp: ngx_drain.simps qrep_empty)
next
  case (Cons x xs)
  have e: "\<not> ngx_queue_empty h m" and hd: "ngx_queue_head h m = x"
    using qrep_empty [OF Cons.prems] qrep_head [OF Cons.prems] by auto
  have "qrep (ngx_queue_remove x m) h ([] @ xs)"
    by (rule qrep_remove) (use Cons.prems in simp)
  then have "qrep (ngx_queue_remove x m) h xs" by simp
  from Cons.IH [OF this, of "vs @ [x]"] e hd show ?case
    by (subst ngx_drain.simps) auto
qed

section \<open>The interface the other components rely on\<close>

text \<open>
  The contract of a queue towards its clients: an abstraction \<open>rep m h xs\<close> (the queue with
  head \<open>h\<close> holds \<open>xs\<close> in order) and one law per operation.
\<close>

locale fifo_queue =
  fixes rep :: "'h \<Rightarrow> 'a \<Rightarrow> 'a list \<Rightarrow> bool"
    and init :: "'a \<Rightarrow> 'h \<Rightarrow> 'h"
    and is_empty :: "'a \<Rightarrow> 'h \<Rightarrow> bool"
    and head :: "'a \<Rightarrow> 'h \<Rightarrow> 'a"
    and insert_head :: "'a \<Rightarrow> 'a \<Rightarrow> 'h \<Rightarrow> 'h"
    and insert_tail :: "'a \<Rightarrow> 'a \<Rightarrow> 'h \<Rightarrow> 'h"
    and remove :: "'a \<Rightarrow> 'h \<Rightarrow> 'h"
  assumes rep_distinct: "rep m h xs \<Longrightarrow> distinct (h # xs)"
    and rep_init: "rep (init q m) q []"
    and rep_is_empty: "rep m h xs \<Longrightarrow> is_empty h m \<longleftrightarrow> xs = []"
    and rep_head: "rep m h xs \<Longrightarrow> xs \<noteq> [] \<Longrightarrow> head h m = hd xs"
    and rep_insert_head: "rep m h xs \<Longrightarrow> x \<notin> set (h # xs) \<Longrightarrow> rep (insert_head h x m) h (x # xs)"
    and rep_insert_tail: "rep m h xs \<Longrightarrow> x \<notin> set (h # xs) \<Longrightarrow> rep (insert_tail h x m) h (xs @ [x])"
    and rep_remove: "rep m h (xs @ x # ys) \<Longrightarrow> rep (remove x m) h (xs @ ys)"
begin

text \<open>Clients keep a queue as a list: removal is \<open>remove1\<close>, taking the head is \<open>tl\<close>.\<close>

lemma rep_remove1:
  assumes "rep m h xs" and "x \<in> set xs"
  shows "rep (remove x m) h (remove1 x xs)"
proof -
  from assms(2) obtain ys zs where xs: "xs = ys @ x # zs" and "x \<notin> set ys"
    by (meson split_list_first)
  then have "remove1 x xs = ys @ zs" by (simp add: remove1_append)
  with rep_remove assms(1) xs show ?thesis by simp
qed

lemma rep_take_head:
  assumes "rep m h xs" and "xs \<noteq> []"
  shows "rep (remove (head h m) m) h (tl xs)"
  using rep_remove1 [OF assms(1), of "hd xs"] rep_head [OF assms] assms(2)
  by (simp add: remove1_hd)

lemma rep_insert_all:
  assumes "rep m h xs" and "distinct zs" and "set (h # xs) \<inter> set zs = {}"
  shows "rep (fold (insert_tail h) zs m) h (xs @ zs)"
  using assms
proof (induction zs arbitrary: m xs)
  case Nil
  then show ?case by simp
next
  case (Cons z zs)
  have "rep (insert_tail h z m) h (xs @ [z])"
    using Cons.prems by (intro rep_insert_tail) auto
  then have "rep (fold (insert_tail h) zs (insert_tail h z m)) h ((xs @ [z]) @ zs)"
    by (rule Cons.IH) (use Cons.prems in auto)
  then show ?case by simp
qed

lemma rep_insert_then_remove:
  assumes "rep m h xs" and "x \<notin> set (h # xs)"
  shows "rep (remove x (insert_tail h x m)) h xs"
  using rep_remove [of "insert_tail h x m" h xs x "[]"] rep_insert_tail [OF assms] by simp

end

interpretation ngx: fifo_queue qrep ngx_queue_init ngx_queue_empty ngx_queue_head
    ngx_queue_insert_head ngx_queue_insert_tail ngx_queue_remove
  by unfold_locales
    (auto simp: qrep_empty qrep_head intro: qrep_init qrep_insert_head qrep_insert_tail qrep_remove
          dest: qrep_def [THEN iffD1])

section \<open>Properties\<close>

text \<open>
  C24. A queue is a FIFO: after \<open>ngx_queue_init\<close>, inserting distinct nodes at the tail and
  then draining the queue head by head terminates, yields the nodes in insertion order and
  leaves an empty queue.
\<close>

theorem ngx_queue_fifo:
  assumes "distinct zs" and "h \<notin> set zs"
  shows "\<exists>m'. ngx_drain h (fold (ngx_queue_insert_tail h) zs (ngx_queue_init h m)) [] = Some (zs, m')
           \<and> qrep m' h []"
proof -
  have "qrep (fold (ngx_queue_insert_tail h) zs (ngx_queue_init h m)) h ([] @ zs)"
    by (rule ngx.rep_insert_all [OF qrep_init]) (use assms in auto)
  from drain_qrep [OF this, of "[]"] show ?thesis by simp
qed

theorem ngx_queue_fifo_witness:
  "\<exists>m'. ngx_drain (0::nat) (fold (ngx_queue_insert_tail 0) [3, 1, 2]
      (ngx_queue_init 0 \<lparr>q_prev = id, q_next = id\<rparr>)) [] = Some ([3, 1, 2], m') \<and> qrep m' 0 []"
  by (rule ngx_queue_fifo) simp_all

text \<open>
  \<open>ngx_queue_split(h, q, n)\<close> cuts a queue at the node \<open>q\<close> and \<open>ngx_queue_add(h, n)\<close>
  joins the two parts again: splitting leaves the nodes before \<open>q\<close> under \<open>h\<close> and the nodes
  from \<open>q\<close> on under \<open>n\<close>, and adding them back restores the original order.
\<close>

theorem ngx_queue_split_add:
  assumes "qrep m h (xs @ q # ys)" and "n \<notin> set (h # xs @ q # ys)"
  shows "ngx_queue_foreach h (ngx_queue_split h q n m) = Some xs \<and>
    ngx_queue_foreach n (ngx_queue_split h q n m) = Some (q # ys) \<and>
    ngx_queue_foreach h (ngx_queue_add h n (ngx_queue_split h q n m)) = Some (xs @ q # ys)"
proof -
  let ?m = "ngx_queue_split h q n m"
  note parts = qrep_split [OF assms]
  have "set (h # xs) \<inter> set (n # q # ys) = {}"
    using assms by (auto simp: qrep_def)
  from foreach_qrep [OF qrep_add [OF parts this]] show ?thesis
    using foreach_qrep [OF parts(1)] foreach_qrep [OF parts(2)] by simp
qed

theorem ngx_queue_split_add_witness:
  "ngx_queue_foreach 0 (ngx_queue_add 0 9 (ngx_queue_split 0 2 9
     (fold (ngx_queue_insert_tail 0) [1, 2, 3::nat] (ngx_queue_init 0 \<lparr>q_prev = id, q_next = id\<rparr>))))
   = Some [1, 2, 3]"
proof -
  have "qrep (fold (ngx_queue_insert_tail 0) [1, 2, 3::nat]
      (ngx_queue_init 0 \<lparr>q_prev = id, q_next = id\<rparr>)) 0 ([] @ [1, 2, 3])"
    by (rule ngx.rep_insert_all [OF qrep_init]) simp_all
  then have "qrep (fold (ngx_queue_insert_tail 0) [1, 2, 3::nat]
      (ngx_queue_init 0 \<lparr>q_prev = id, q_next = id\<rparr>)) 0 ([1] @ 2 # [3])" by simp
  from ngx_queue_split_add [OF this, of 9] show ?thesis by simp
qed

text \<open>
  Inserting a node that is already in the queue loses nodes: if \<open>x\<close> sits in the middle,
  then after a second \<open>ngx_queue_insert_tail(h, x)\<close> a walk from the head ends at \<open>x\<close> and no
  longer reaches the nodes that followed it. (A handle that is initialised twice without
  being closed, as the timer of \<open>_sleep_internal\<close> is, does this to the loop's handle queue.)
\<close>

theorem ngx_queue_reinsert_loses:
  assumes "qrep m h (xs @ x # ys)" and "ys \<noteq> []"
  shows "ngx_queue_foreach h (ngx_queue_insert_tail h x m) = Some (xs @ [x])"
proof -
  let ?m = "ngx_queue_insert_tail h x m"
  from assms(1) have l: "linked m h (xs @ x # ys) h" and d: "distinct (h # xs @ x # ys)"
    by (auto simp: qrep_def)
  have e: "q_prev m h = last ys" using linked_last [OF l] assms(2) by simp
  have y: "last ys \<in> set ys" using assms(2) by simp
  have pn: "q_prev ?m = (q_prev m)(x := last ys, h := x)"
    and nn: "q_next ?m = (q_next m)(last ys := x, x := h)"
    using e d by (auto simp: ngx_queue_insert_tail_def Let_def)
  have ne: "\<not> ngx_queue_empty h ?m" using d by (auto simp: ngx_queue_empty_def pn)
  show ?thesis
  proof (cases xs)
    case Nil
    have "foreach_from h x ?m [] = Some ([] @ x # [])"
      by (subst foreach_from.simps, subst foreach_from.simps)
        (use d ne Nil in \<open>auto simp: ngx_queue_next_def nn\<close>)
    moreover have "ngx_queue_head h ?m = x"
      using l Nil d y by (auto simp: ngx_queue_head_def nn)
    ultimately show ?thesis using Nil by (simp add: ngx_queue_foreach_def)
  next
    case (Cons z zs)
    have step: "foreach_from h w ?m vs = Some (vs @ w # us @ [x])"
      if "linked m w us x" and "set (w # us) \<subseteq> set xs" for w us vs
      using that
    proof (induction us arbitrary: w vs)
      case Nil
      then have "w \<noteq> h" "w \<noteq> x" "w \<noteq> last ys" using d y by auto
      with Nil ne d y show ?case
        by (subst foreach_from.simps, subst foreach_from.simps, subst foreach_from.simps)
          (auto simp: ngx_queue_next_def nn)
    next
      case (Cons u us)
      then have "w \<noteq> h" "w \<noteq> x" "w \<noteq> last ys" using d y by auto
      with Cons ne show ?case
        by (subst foreach_from.simps) (auto simp: ngx_queue_next_def nn)
    qed
    have "linked m z zs x" using l Cons by simp
    then have "foreach_from h z ?m [] = Some (z # zs @ [x])"
      using step [of z zs "[]"] Cons by simp
    moreover have "ngx_queue_head h ?m = z"
      using l Cons d y by (auto simp: ngx_queue_head_def nn)
    ultimately show ?thesis using Cons by (simp add: ngx_queue_foreach_def)
  qed
qed

theorem ngx_queue_reinsert_loses_witness:
  "ngx_queue_foreach 0 (ngx_queue_insert_tail 0 1
     (fold (ngx_queue_insert_tail 0) [1, 2::nat] (ngx_queue_init 0 \<lparr>q_prev = id, q_next = id\<rparr>)))
   = Some [1]"
proof -
  have "qrep (fold (ngx_queue_insert_tail 0) [1, 2::nat]
      (ngx_queue_init 0 \<lparr>q_prev = id, q_next = id\<rparr>)) 0 ([] @ [1, 2])"
    by (rule ngx.rep_insert_all [OF qrep_init]) simp_all
  then have "qrep (fold (ngx_queue_insert_tail 0) [1, 2::nat]
      (ngx_queue_init 0 \<lparr>q_prev = id, q_next = id\<rparr>)) 0 ([] @ 1 # [2])" by simp
  from ngx_queue_reinsert_loses [OF this] show ?thesis by simp
qed

end
