(* ===== verification/RBTree.thy ===== *)
theory RBTree
  imports Prelude
begin

text \<open>
  The red-black trees that \<open>RB_GENERATE\<close> of \<open>include/uv-private/tree.h\<close> generates. A node
  of the C code points to its children and its parent; the model keeps a position in the
  tree as the subtree at the node and the path of parents above it (a zipper), so that
  \<open>RB_PARENT\<close> is the head of the path and each loop of the macros is a recursion over it.
  A dereference of \<open>NULL\<close> makes the result \<open>None\<close>.
\<close>

section \<open>Trees and positions\<close>

datatype rb_color = RB_BLACK | RB_RED

datatype 'a rb_tree =
    RB_NULL
  | RB_NODE "'a rb_tree" 'a rb_color "'a rb_tree"

text \<open>\<open>RB_L x c r\<close>: the position is the left child of the node \<open>x\<close>, coloured \<open>c\<close>, whose right
  child is \<open>r\<close>; \<open>RB_R l x c\<close> is the mirror image.\<close>

datatype 'a rb_frame =
    RB_L 'a rb_color "'a rb_tree"
  | RB_R "'a rb_tree" 'a rb_color

type_synonym 'a rb_path = "'a rb_frame list"

fun rb_is_red :: "'a rb_tree \<Rightarrow> bool" where
  "rb_is_red RB_NULL = False"
| "rb_is_red (RB_NODE l x c r) = (c = RB_RED)"

fun rb_paint :: "rb_color \<Rightarrow> 'a rb_tree \<Rightarrow> 'a rb_tree" where
  "rb_paint c RB_NULL = RB_NULL"
| "rb_paint c (RB_NODE l x c' r) = RB_NODE l x c r"

fun rb_frame_color :: "'a rb_frame \<Rightarrow> rb_color" where
  "rb_frame_color (RB_L x c r) = c"
| "rb_frame_color (RB_R l x c) = c"

fun rb_plug :: "'a rb_tree \<Rightarrow> 'a rb_path \<Rightarrow> 'a rb_tree" where
  "rb_plug t [] = t"
| "rb_plug t (RB_L x c r # p) = rb_plug (RB_NODE t x c r) p"
| "rb_plug t (RB_R l x c # p) = rb_plug (RB_NODE l x c t) p"

section \<open>Lookup\<close>

fun rb_find :: "('a \<Rightarrow> 'a \<Rightarrow> int) \<Rightarrow> 'a \<Rightarrow> 'a rb_tree \<Rightarrow> 'a option" where
  "rb_find cmp elm RB_NULL = None"
| "rb_find cmp elm (RB_NODE l x c r) =
     (let comp = cmp elm x
      in if comp < 0 then rb_find cmp elm l
         else if comp > 0 then rb_find cmp elm r
         else Some x)"

fun rb_nfind_from :: "('a \<Rightarrow> 'a \<Rightarrow> int) \<Rightarrow> 'a \<Rightarrow> 'a option \<Rightarrow> 'a rb_tree \<Rightarrow> 'a option" where
  "rb_nfind_from cmp elm res RB_NULL = res"
| "rb_nfind_from cmp elm res (RB_NODE l x c r) =
     (let comp = cmp elm x
      in if comp < 0 then rb_nfind_from cmp elm (Some x) l
         else if comp > 0 then rb_nfind_from cmp elm res r
         else Some x)"

definition rb_nfind :: "('a \<Rightarrow> 'a \<Rightarrow> int) \<Rightarrow> 'a \<Rightarrow> 'a rb_tree \<Rightarrow> 'a option" where
  "rb_nfind cmp elm t = rb_nfind_from cmp elm None t"

fun rb_minmax_from :: "'a option \<Rightarrow> 'a rb_tree \<Rightarrow> int \<Rightarrow> 'a option" where
  "rb_minmax_from parent RB_NULL v = parent"
| "rb_minmax_from parent (RB_NODE l x c r) v =
     (if v < 0 then rb_minmax_from (Some x) l v else rb_minmax_from (Some x) r v)"

definition rb_minmax :: "'a rb_tree \<Rightarrow> int \<Rightarrow> 'a option" where
  "rb_minmax t v = rb_minmax_from None t v"

definition rb_min :: "'a rb_tree \<Rightarrow> 'a option" where
  "rb_min t = rb_minmax t (- 1)"

definition rb_max :: "'a rb_tree \<Rightarrow> 'a option" where
  "rb_max t = rb_minmax t 1"

text \<open>
  The C code holds a pointer to the node; the model finds the position of the element,
  which occurs once in the tree.
\<close>

fun rb_locate :: "'a \<Rightarrow> 'a rb_tree \<Rightarrow> 'a rb_path \<Rightarrow> ('a rb_tree \<times> 'a rb_path) option" where
  "rb_locate z RB_NULL p = None"
| "rb_locate z (RB_NODE l x c r) p =
     (if x = z then Some (RB_NODE l x c r, p)
      else case rb_locate z l (RB_L x c r # p) of
          Some pos \<Rightarrow> Some pos
        | None \<Rightarrow> rb_locate z r (RB_R l x c # p))"

fun rb_climb_next :: "'a rb_path \<Rightarrow> 'a option" where
  "rb_climb_next [] = None"
| "rb_climb_next (RB_L x c r # p) = Some x"
| "rb_climb_next (RB_R l x c # p) = rb_climb_next p"

definition rb_next :: "'a \<Rightarrow> 'a rb_tree \<Rightarrow> 'a option" where
  "rb_next z t =
     (case rb_locate z t [] of
        Some (RB_NODE l x c r, p) \<Rightarrow>
          (if r \<noteq> RB_NULL then rb_minmax r (- 1) else rb_climb_next p)
      | _ \<Rightarrow> None)"

fun rb_climb_prev :: "'a rb_path \<Rightarrow> 'a option" where
  "rb_climb_prev [] = None"
| "rb_climb_prev (RB_L x c r # p) = rb_climb_prev p"
| "rb_climb_prev (RB_R l x c # p) = Some x"

definition rb_prev :: "'a \<Rightarrow> 'a rb_tree \<Rightarrow> 'a option" where
  "rb_prev z t =
     (case rb_locate z t [] of
        Some (RB_NODE l x c r, p) \<Rightarrow>
          (if l \<noteq> RB_NULL then rb_minmax l 1 else rb_climb_prev p)
      | _ \<Rightarrow> None)"

section \<open>Insertion\<close>

fun rb_descend :: "('a \<Rightarrow> 'a \<Rightarrow> int) \<Rightarrow> 'a \<Rightarrow> 'a rb_tree \<Rightarrow> 'a rb_path \<Rightarrow> 'a + 'a rb_path" where
  "rb_descend cmp elm RB_NULL p = Inr p"
| "rb_descend cmp elm (RB_NODE l x c r) p =
     (let comp = cmp elm x
      in if comp < 0 then rb_descend cmp elm l (RB_L x c r # p)
         else if comp > 0 then rb_descend cmp elm r (RB_R l x c # p)
         else Inl x)"

text \<open>
  \<open>RB_INSERT_COLOR\<close>: the position holds the red node \<open>elm\<close>. With a red parent and a red
  uncle the colours move up and the loop continues at the grandparent; with a black uncle
  one or two rotations end it. The root is painted black at the end.
\<close>

fun rb_insert_color :: "'a rb_tree \<Rightarrow> 'a rb_path \<Rightarrow> 'a rb_tree option" where
  "rb_insert_color t [] = Some (rb_paint RB_BLACK t)"
| "rb_insert_color t [f] =
     (if rb_frame_color f = RB_RED then None
      else Some (rb_paint RB_BLACK (rb_plug t [f])))"
| "rb_insert_color t (f # RB_L gx gc gr # p) =
     (if rb_frame_color f \<noteq> RB_RED then Some (rb_paint RB_BLACK (rb_plug t (f # RB_L gx gc gr # p)))
      else if rb_is_red gr
      then rb_insert_color
             (RB_NODE (rb_paint RB_BLACK (rb_plug t [f])) gx RB_RED (rb_paint RB_BLACK gr)) p
      else case f of
          RB_L px pc pr \<Rightarrow>
            Some (rb_paint RB_BLACK
              (rb_plug (RB_NODE t px RB_BLACK (RB_NODE pr gx RB_RED gr)) p))
        | RB_R pl px pc \<Rightarrow>
            (case t of
               RB_NULL \<Rightarrow> None
             | RB_NODE el ex ec er \<Rightarrow>
                 Some (rb_paint RB_BLACK
                   (rb_plug (RB_NODE (RB_NODE pl px pc el) ex RB_BLACK (RB_NODE er gx RB_RED gr)) p))))"
| "rb_insert_color t (f # RB_R gl gx gc # p) =
     (if rb_frame_color f \<noteq> RB_RED then Some (rb_paint RB_BLACK (rb_plug t (f # RB_R gl gx gc # p)))
      else if rb_is_red gl
      then rb_insert_color
             (RB_NODE (rb_paint RB_BLACK gl) gx RB_RED (rb_paint RB_BLACK (rb_plug t [f]))) p
      else case f of
          RB_R pl px pc \<Rightarrow>
            Some (rb_paint RB_BLACK
              (rb_plug (RB_NODE (RB_NODE gl gx RB_RED pl) px RB_BLACK t) p))
        | RB_L px pc pr \<Rightarrow>
            (case t of
               RB_NULL \<Rightarrow> None
             | RB_NODE el ex ec er \<Rightarrow>
                 Some (rb_paint RB_BLACK
                   (rb_plug (RB_NODE (RB_NODE gl gx RB_RED el) ex RB_BLACK (RB_NODE er px pc pr)) p))))"

text \<open>\<open>RB_INSERT\<close> returns the element already present, or \<open>NULL\<close> after linking the new one.\<close>

definition rb_insert :: "('a \<Rightarrow> 'a \<Rightarrow> int) \<Rightarrow> 'a \<Rightarrow> 'a rb_tree \<Rightarrow> ('a option \<times> 'a rb_tree) option" where
  "rb_insert cmp elm t =
     (case rb_descend cmp elm t [] of
        Inl x \<Rightarrow> Some (Some x, t)
      | Inr p \<Rightarrow> map_option (Pair None) (rb_insert_color (RB_NODE RB_NULL elm RB_RED RB_NULL) p))"

section \<open>Removal\<close>

text \<open>
  One turn of \<open>RB_REMOVE_COLOR\<close> once the sibling is known to be black: either both of its
  children are black, it is painted red and the deficit moves to the parent (\<open>Inl\<close>), or
  rotations repair the black height and the loop ends (\<open>Inr\<close>).
\<close>

fun rb_fix_left :: "'a rb_tree \<Rightarrow> 'a \<Rightarrow> rb_color \<Rightarrow> 'a rb_tree \<Rightarrow> ('a rb_tree + 'a rb_tree) option" where
  "rb_fix_left elm px pc RB_NULL = None"
| "rb_fix_left elm px pc (RB_NODE l x c r) =
     (if \<not> rb_is_red l \<and> \<not> rb_is_red r
      then Some (Inl (RB_NODE elm px pc (RB_NODE l x RB_RED r)))
      else if \<not> rb_is_red r
      then (case l of
              RB_NULL \<Rightarrow> None
            | RB_NODE ll lx lc lr \<Rightarrow>
                Some (Inr (RB_NODE (RB_NODE elm px RB_BLACK ll) lx pc (RB_NODE lr x RB_BLACK r))))
      else Some (Inr (RB_NODE (RB_NODE elm px RB_BLACK l) x pc (rb_paint RB_BLACK r))))"

fun rb_fix_right :: "'a rb_tree \<Rightarrow> 'a \<Rightarrow> rb_color \<Rightarrow> 'a rb_tree \<Rightarrow> ('a rb_tree + 'a rb_tree) option" where
  "rb_fix_right elm px pc RB_NULL = None"
| "rb_fix_right elm px pc (RB_NODE l x c r) =
     (if \<not> rb_is_red l \<and> \<not> rb_is_red r
      then Some (Inl (RB_NODE (RB_NODE l x RB_RED r) px pc elm))
      else if \<not> rb_is_red l
      then (case r of
              RB_NULL \<Rightarrow> None
            | RB_NODE rl rx rc rr \<Rightarrow>
                Some (Inr (RB_NODE (RB_NODE l x RB_BLACK rl) rx pc (RB_NODE rr px RB_BLACK elm))))
      else Some (Inr (RB_NODE (rb_paint RB_BLACK l) x pc (RB_NODE r px RB_BLACK elm))))"

text \<open>A red sibling is first rotated above the parent, which turns red.\<close>

fun rb_expose_left :: "'a rb_path \<Rightarrow> ('a \<times> rb_color \<times> 'a rb_tree \<times> 'a rb_path) option" where
  "rb_expose_left (RB_L px pc (RB_NODE sl sx sc sr) # p) =
     (if sc = RB_RED then Some (px, RB_RED, sl, RB_L sx RB_BLACK sr # p)
      else Some (px, pc, RB_NODE sl sx sc sr, p))"
| "rb_expose_left _ = None"

fun rb_expose_right :: "'a rb_path \<Rightarrow> ('a \<times> rb_color \<times> 'a rb_tree \<times> 'a rb_path) option" where
  "rb_expose_right (RB_R (RB_NODE sl sx sc sr) px pc # p) =
     (if sc = RB_RED then Some (px, RB_RED, sr, RB_R sl sx RB_BLACK # p)
      else Some (px, pc, RB_NODE sl sx sc sr, p))"
| "rb_expose_right _ = None"

fun rb_turn :: "'a rb_tree \<Rightarrow> 'a rb_path \<Rightarrow> (('a rb_tree + 'a rb_tree) \<times> 'a rb_path) option" where
  "rb_turn elm [] = None"
| "rb_turn elm (RB_L px pc s # p) =
     (case rb_expose_left (RB_L px pc s # p) of
        None \<Rightarrow> None
      | Some (x, c, tmp, q) \<Rightarrow> map_option (\<lambda>res. (res, q)) (rb_fix_left elm x c tmp))"
| "rb_turn elm (RB_R s px pc # p) =
     (case rb_expose_right (RB_R s px pc # p) of
        None \<Rightarrow> None
      | Some (x, c, tmp, q) \<Rightarrow> map_option (\<lambda>res. (res, q)) (rb_fix_right elm x c tmp))"

lemma rb_turn_shrinks:
  assumes "rb_turn elm p = Some (Inl t, q)"
  shows "2 * length q + (if rb_is_red t then 0 else 1) < 2 * length p + 1"
proof -
  have fixl: "rb_fix_left e x c s = Some (Inl t) \<Longrightarrow> rb_is_red t = (c = RB_RED)" for e x c s
    by (cases s) (auto split: if_splits rb_tree.splits)
  have fixr: "rb_fix_right e x c s = Some (Inl t) \<Longrightarrow> rb_is_red t = (c = RB_RED)" for e x c s
    by (cases s) (auto split: if_splits rb_tree.splits)
  from assms show ?thesis
  proof (induction elm p rule: rb_turn.induct)
    case (2 elm px pc s p)
    then show ?case by (cases s) (auto split: if_splits dest!: fixl)
  next
    case (3 elm s px pc p)
    then show ?case by (cases s) (auto split: if_splits dest!: fixr)
  qed simp
qed

function rb_remove_color :: "'a rb_tree \<Rightarrow> 'a rb_path \<Rightarrow> 'a rb_tree option" where
  "rb_remove_color elm p =
     (if rb_is_red elm \<or> p = [] then Some (rb_plug (rb_paint RB_BLACK elm) p)
      else case rb_turn elm p of
          None \<Rightarrow> None
        | Some (Inl t, q) \<Rightarrow> rb_remove_color t q
        | Some (Inr t, q) \<Rightarrow> Some (rb_paint RB_BLACK (rb_plug t q)))"
  by pat_completeness auto
termination
  by (relation "measure (\<lambda>(t, p). 2 * length p + (if rb_is_red t then 0 else 1))")
    (auto dest: rb_turn_shrinks split: if_splits)

declare rb_remove_color.simps [simp del]

text \<open>The leftmost node of a subtree: its element, colour, right child and path.\<close>

fun rb_leftmost :: "'a rb_tree \<Rightarrow> 'a rb_path \<Rightarrow> ('a \<times> rb_color \<times> 'a rb_tree \<times> 'a rb_path) option" where
  "rb_leftmost RB_NULL p = None"
| "rb_leftmost (RB_NODE l x c r) p =
     (if l = RB_NULL then Some (x, c, r, p) else rb_leftmost l (RB_L x c r # p))"

definition rb_unlink :: "rb_color \<Rightarrow> 'a rb_tree \<Rightarrow> 'a rb_path \<Rightarrow> 'a rb_tree option" where
  "rb_unlink color child p =
     (if color = RB_BLACK then rb_remove_color child p else Some (rb_plug child p))"

definition rb_remove :: "'a \<Rightarrow> 'a rb_tree \<Rightarrow> 'a rb_tree option" where
  "rb_remove z t =
     (case rb_locate z t [] of
        Some (RB_NODE l x c r, p) \<Rightarrow>
          (if l = RB_NULL then rb_unlink c r p
           else if r = RB_NULL then rb_unlink c l p
           else case rb_leftmost r [] of
               None \<Rightarrow> None
             | Some (y, color, child, q) \<Rightarrow> rb_unlink color child (q @ RB_R l y c # p))
      | _ \<Rightarrow> None)"


section \<open>In-order sequences\<close>

fun rb_inorder :: "'a rb_tree \<Rightarrow> 'a list" where
  "rb_inorder RB_NULL = []"
| "rb_inorder (RB_NODE l x c r) = rb_inorder l @ x # rb_inorder r"

text \<open>The elements before and after a position, given by its path.\<close>

fun rb_before :: "'a rb_path \<Rightarrow> 'a list" where
  "rb_before [] = []"
| "rb_before (RB_L x c r # p) = rb_before p"
| "rb_before (RB_R l x c # p) = rb_before p @ rb_inorder l @ [x]"

fun rb_after :: "'a rb_path \<Rightarrow> 'a list" where
  "rb_after [] = []"
| "rb_after (RB_L x c r # p) = x # rb_inorder r @ rb_after p"
| "rb_after (RB_R l x c # p) = rb_after p"

lemma rb_inorder_paint [simp]: "rb_inorder (rb_paint c t) = rb_inorder t"
  by (cases t) auto

lemma rb_inorder_plug [simp]:
  "rb_inorder (rb_plug t p) = rb_before p @ rb_inorder t @ rb_after p"
  by (induction t p rule: rb_plug.induct) auto

lemma rb_before_append [simp]: "rb_before (p @ q) = rb_before q @ rb_before p"
  by (induction p rule: rb_before.induct) auto

lemma rb_after_append [simp]: "rb_after (p @ q) = rb_after p @ rb_after q"
  by (induction p rule: rb_after.induct) auto

lemma rb_plug_append [simp]: "rb_plug t (p @ q) = rb_plug (rb_plug t p) q"
  by (induction t p rule: rb_plug.induct) auto

lemma rb_insert_color_inorder:
  "rb_insert_color t p = Some t' \<Longrightarrow> rb_inorder t' = rb_before p @ rb_inorder t @ rb_after p"
proof (induction t p arbitrary: t' rule: rb_insert_color.induct)
  case (2 t f)
  then show ?case by (cases f) (auto split: if_splits)
next
  case (3 t f gx gc gr p)
  then show ?case
    by (cases f) (auto split: if_splits rb_tree.splits)
next
  case (4 t f gl gx gc p)
  then show ?case
    by (cases f) (auto split: if_splits rb_tree.splits)
qed simp

lemma rb_fix_left_inorder:
  assumes "rb_fix_left elm px pc s = Some res"
  shows "(case res of Inl t \<Rightarrow> rb_inorder t | Inr t \<Rightarrow> rb_inorder t) = rb_inorder elm @ px # rb_inorder s"
  using assms by (cases s) (auto split: if_splits rb_tree.splits)

lemma rb_fix_right_inorder:
  assumes "rb_fix_right elm px pc s = Some res"
  shows "(case res of Inl t \<Rightarrow> rb_inorder t | Inr t \<Rightarrow> rb_inorder t) = rb_inorder s @ px # rb_inorder elm"
  using assms by (cases s) (auto split: if_splits rb_tree.splits)

lemma rb_turn_inorder:
  assumes "rb_turn elm p = Some (res, q)"
  shows "rb_before q @ (case res of Inl t \<Rightarrow> rb_inorder t | Inr t \<Rightarrow> rb_inorder t) @ rb_after q =
         rb_before p @ rb_inorder elm @ rb_after p"
  using assms
proof (induction elm p rule: rb_turn.induct)
  case (2 elm px pc s p)
  then show ?case
    by (cases s) (auto split: if_splits dest!: rb_fix_left_inorder simp del: rb_fix_left.simps)
next
  case (3 elm s px pc p)
  then show ?case
    by (cases s) (auto split: if_splits dest!: rb_fix_right_inorder simp del: rb_fix_right.simps)
qed simp

lemma rb_remove_color_inorder:
  "rb_remove_color t p = Some t' \<Longrightarrow> rb_inorder t' = rb_before p @ rb_inorder t @ rb_after p"
proof (induction t p arbitrary: t' rule: rb_remove_color.induct)
  case (1 elm p)
  show ?case
  proof (cases "rb_is_red elm \<or> p = []")
    case True
    with "1.prems" show ?thesis by (auto simp: rb_remove_color.simps)
  next
    case False
    with "1.prems" obtain res q where turn: "rb_turn elm p = Some (res, q)"
      by (auto simp: rb_remove_color.simps [of elm p] split: option.splits)
    note eq = rb_turn_inorder [OF turn]
    show ?thesis
    proof (cases res)
      case (Inl t)
      with "1.prems" False turn have "rb_remove_color t q = Some t'"
        by (simp add: rb_remove_color.simps [of elm p])
      with "1.IH" False turn Inl eq show ?thesis by simp
    next
      case (Inr t)
      with "1.prems" False turn eq show ?thesis
        by (auto simp: rb_remove_color.simps [of elm p])
    qed
  qed
qed

lemma rb_locate_plug:
  "rb_locate z t p = Some (t', q) \<Longrightarrow> rb_plug t' q = rb_plug t p \<and> (\<exists>l c r. t' = RB_NODE l z c r)"
  by (induction t arbitrary: p) (auto split: if_splits option.splits)

lemma rb_locate_None: "rb_locate z t p = None \<longleftrightarrow> z \<notin> set (rb_inorder t)"
proof (induction t arbitrary: p)
  case (RB_NODE l x c r)
  then show ?case
    by (cases "rb_locate z l (RB_L x c r # p)") (auto, (metis option.distinct(1))+)
qed simp

lemma rb_leftmost_plug:
  "rb_leftmost t p = Some (y, c, r, q) \<Longrightarrow> rb_plug (RB_NODE RB_NULL y c r) q = rb_plug t p"
  by (induction t p rule: rb_leftmost.induct) (auto split: if_splits)

lemma rb_leftmost_None: "rb_leftmost t p = None \<longleftrightarrow> t = RB_NULL"
  by (induction t p rule: rb_leftmost.induct) auto

lemma rb_leftmost_before: "rb_leftmost t p = Some (y, c, r, q) \<Longrightarrow> rb_before q = rb_before p"
  by (induction t p rule: rb_leftmost.induct) (auto split: if_splits)

lemma rb_unlink_inorder:
  "rb_unlink c t p = Some t' \<Longrightarrow> rb_inorder t' = rb_before p @ rb_inorder t @ rb_after p"
  by (auto simp: rb_unlink_def split: if_splits dest: rb_remove_color_inorder)

lemma rb_remove_inorder:
  assumes "rb_remove z t = Some t'" and "distinct (rb_inorder t)"
  shows "rb_inorder t' = remove1 z (rb_inorder t)"
proof -
  from assms(1) obtain l c r p where loc: "rb_locate z t [] = Some (RB_NODE l z c r, p)"
    by (auto simp: rb_remove_def split: option.splits rb_tree.splits dest: rb_locate_plug)
  from rb_locate_plug [OF loc] have t: "t = rb_plug (RB_NODE l z c r) p" by simp
  have fresh: "z \<notin> set (rb_before p @ rb_inorder l)" using assms(2) t by auto
  have target: "remove1 z (rb_inorder t) = rb_before p @ rb_inorder l @ rb_inorder r @ rb_after p"
    using fresh by (simp add: t remove1_append)
  show ?thesis
  proof (cases "l = RB_NULL \<or> r = RB_NULL")
    case True
    with assms(1) loc target show ?thesis
      by (auto simp: rb_remove_def split: if_splits dest: rb_unlink_inorder)
  next
    case False
    with assms(1) loc obtain y cy ch q where lm: "rb_leftmost r [] = Some (y, cy, ch, q)"
      and un: "rb_unlink cy ch (q @ RB_R l y c # p) = Some t'"
      by (auto simp: rb_remove_def split: option.splits)
    have "rb_inorder r = y # rb_inorder ch @ rb_after q"
      using arg_cong [OF rb_leftmost_plug [OF lm], of rb_inorder] rb_leftmost_before [OF lm] by simp
    with rb_unlink_inorder [OF un] rb_leftmost_before [OF lm] target show ?thesis by simp
  qed
qed


section \<open>The red-black invariants\<close>

text \<open>No red node has a red child, and every path to a leaf has the same number of black nodes.\<close>

fun rb_bheight :: "'a rb_tree \<Rightarrow> nat" where
  "rb_bheight RB_NULL = 0"
| "rb_bheight (RB_NODE l x c r) = rb_bheight l + (if c = RB_BLACK then 1 else 0)"

fun rb_invc :: "'a rb_tree \<Rightarrow> bool" where
  "rb_invc RB_NULL = True"
| "rb_invc (RB_NODE l x c r) \<longleftrightarrow>
     (c = RB_RED \<longrightarrow> \<not> rb_is_red l \<and> \<not> rb_is_red r) \<and> rb_invc l \<and> rb_invc r"

fun rb_invh :: "'a rb_tree \<Rightarrow> bool" where
  "rb_invh RB_NULL = True"
| "rb_invh (RB_NODE l x c r) \<longleftrightarrow> rb_bheight l = rb_bheight r \<and> rb_invh l \<and> rb_invh r"

definition rb_ok :: "'a rb_tree \<Rightarrow> bool" where
  "rb_ok t \<longleftrightarrow> rb_invc t \<and> rb_invh t \<and> \<not> rb_is_red t"

text \<open>
  The same for a path around a hole of black height \<open>n\<close>. \<open>rb_ctxc p\<close> leaves the colour of
  the hole open; a red node of the path has a black parent in it.
\<close>

definition rb_top_black :: "'a rb_path \<Rightarrow> bool" where
  "rb_top_black p \<longleftrightarrow> (case p of [] \<Rightarrow> True | f # _ \<Rightarrow> rb_frame_color f = RB_BLACK)"

fun rb_ctxc :: "'a rb_path \<Rightarrow> bool" where
  "rb_ctxc [] = True"
| "rb_ctxc (RB_L x c r # p) \<longleftrightarrow>
     rb_invc r \<and> (c = RB_RED \<longrightarrow> \<not> rb_is_red r \<and> p \<noteq> [] \<and> rb_top_black p) \<and> rb_ctxc p"
| "rb_ctxc (RB_R l x c # p) \<longleftrightarrow>
     rb_invc l \<and> (c = RB_RED \<longrightarrow> \<not> rb_is_red l \<and> p \<noteq> [] \<and> rb_top_black p) \<and> rb_ctxc p"

fun rb_ctxh :: "'a rb_path \<Rightarrow> nat \<Rightarrow> bool" where
  "rb_ctxh [] n = True"
| "rb_ctxh (RB_L x c r # p) n \<longleftrightarrow>
     rb_invh r \<and> rb_bheight r = n \<and> rb_ctxh p (n + (if c = RB_BLACK then 1 else 0))"
| "rb_ctxh (RB_R l x c # p) n \<longleftrightarrow>
     rb_invh l \<and> rb_bheight l = n \<and> rb_ctxh p (n + (if c = RB_BLACK then 1 else 0))"

lemma rb_color_cases [simp]: "c \<noteq> RB_BLACK \<longleftrightarrow> c = RB_RED" "c \<noteq> RB_RED \<longleftrightarrow> c = RB_BLACK"
  by (cases c; simp)+

lemma rb_invc_paint: "rb_invc t \<Longrightarrow> rb_invc (rb_paint RB_BLACK t)"
  by (cases t) auto

lemma rb_invh_paint [simp]: "rb_invh (rb_paint c t) = rb_invh t"
  by (cases t) auto

lemma rb_is_red_paint [simp]: "\<not> rb_is_red (rb_paint RB_BLACK t)"
  by (cases t) auto

lemma rb_top_black_simps [simp]:
  "rb_top_black []" "rb_top_black (f # p) \<longleftrightarrow> rb_frame_color f = RB_BLACK"
  by (simp_all add: rb_top_black_def)

lemma rb_plug_invh:
  "rb_invh t \<Longrightarrow> rb_ctxh p (rb_bheight t) \<Longrightarrow> rb_invh (rb_plug t p)"
  by (induction t p rule: rb_plug.induct) (auto split: if_splits)

lemma rb_plug_invc:
  "rb_invc t \<Longrightarrow> rb_ctxc p \<Longrightarrow> (rb_is_red t \<Longrightarrow> rb_top_black p) \<Longrightarrow> rb_invc (rb_plug t p)"
  by (induction t p rule: rb_plug.induct) auto

lemma rb_plug_black:
  "rb_ctxc p \<Longrightarrow> (rb_is_red t \<Longrightarrow> p \<noteq> []) \<Longrightarrow> \<not> rb_is_red (rb_plug t p)"
  by (induction t p rule: rb_plug.induct) auto

lemma rb_plug_ok:
  assumes "rb_invc t" "rb_invh t" "\<not> rb_is_red t" "rb_ctxc p" "rb_ctxh p (rb_bheight t)"
  shows "rb_ok (rb_plug t p)" and "rb_ok (rb_paint RB_BLACK (rb_plug t p))"
proof -
  show ok: "rb_ok (rb_plug t p)"
    using assms by (auto simp: rb_ok_def intro: rb_plug_invc rb_plug_invh dest: rb_plug_black)
  then show "rb_ok (rb_paint RB_BLACK (rb_plug t p))"
    by (auto simp: rb_ok_def rb_invc_paint)
qed

text \<open>Insertion never dereferences \<open>NULL\<close> and restores the invariants.\<close>

lemma rb_insert_color_ok:
  assumes "rb_is_red t" "rb_invc t" "rb_invh t" "rb_ctxc p" "rb_ctxh p (rb_bheight t)"
  shows "\<exists>t'. rb_insert_color t p = Some t' \<and> rb_ok t'"
  using assms
proof (induction t p rule: rb_insert_color.induct)
  case (1 t)
  then show ?case by (auto simp: rb_ok_def rb_invc_paint)
next
  case (2 t f)
  then show ?case by (cases f) (auto simp: rb_ok_def split: if_splits)
next
  case (3 t f gx gc gr p)
  show ?case
  proof (cases "rb_frame_color f = RB_RED")
    case False
    then have "rb_ok (rb_paint RB_BLACK (rb_plug (rb_plug t [f]) (RB_L gx gc gr # p)))"
      using "3.prems" by (intro rb_plug_ok) (cases f; auto split: if_splits)+
    with False show ?thesis by (cases f) simp_all
  next
    case red: True
    show ?thesis
    proof (cases "rb_is_red gr")
      case True
      with "3.prems" "3.IH" red show ?thesis
        by (cases f; cases gr) (auto simp: rb_invc_paint split: if_splits)
    next
      case False
      with "3.prems" red show ?thesis
        by (cases f; cases t) (auto intro!: rb_plug_ok(2) split: if_splits)
    qed
  qed
next
  case (4 t f gl gx gc p)
  show ?case
  proof (cases "rb_frame_color f = RB_RED")
    case False
    then have "rb_ok (rb_paint RB_BLACK (rb_plug (rb_plug t [f]) (RB_R gl gx gc # p)))"
      using "4.prems" by (intro rb_plug_ok) (cases f; auto split: if_splits)+
    with False show ?thesis by (cases f) simp_all
  next
    case red: True
    show ?thesis
    proof (cases "rb_is_red gl")
      case True
      with "4.prems" "4.IH" red show ?thesis
        by (cases f; cases gl) (auto simp: rb_invc_paint split: if_splits)
    next
      case False
      with "4.prems" red show ?thesis
        by (cases f; cases t) (auto intro!: rb_plug_ok(2) split: if_splits)
    qed
  qed
qed

text \<open>Removal: the hole is one black node short.\<close>

lemma rb_turn_ok:
  assumes "rb_invc elm" "rb_invh elm" "\<not> rb_is_red elm" "p \<noteq> []"
    and "rb_ctxc p" "rb_ctxh p (Suc (rb_bheight elm))"
  shows "\<exists>res q. rb_turn elm p = Some (res, q) \<and> rb_ctxc q \<and>
    (case res of
       Inl t \<Rightarrow> rb_invc (rb_paint RB_BLACK t) \<and> rb_invh t \<and> rb_ctxh q (Suc (rb_bheight t))
     | Inr t \<Rightarrow> rb_invc t \<and> rb_invh t \<and> rb_ctxh q (rb_bheight t) \<and>
               (rb_is_red t \<longrightarrow> q \<noteq> [] \<and> rb_top_black q))"
proof -
  obtain f r where p: "p = f # r" using assms(4) by (cases p) auto
  show ?thesis
  proof (cases f)
    case (RB_L px pc s)
    obtain sl sx sc sr where s: "s = RB_NODE sl sx sc sr"
      using assms(6) p RB_L by (cases s) auto
    show ?thesis
    proof (cases sc)
      case RB_BLACK
      with assms p RB_L s show ?thesis
        by (cases sl; cases sr) (auto split: if_splits)
    next
      case RB_RED
      obtain l' x' c' r' where "sl = RB_NODE l' x' c' r'"
        using assms(6) p RB_L s RB_RED by (cases sl) (auto split: if_splits)
      with assms p RB_L s RB_RED show ?thesis
        by (cases l'; cases r') (auto split: if_splits)
    qed
  next
    case (RB_R s px pc)
    obtain sl sx sc sr where s: "s = RB_NODE sl sx sc sr"
      using assms(6) p RB_R by (cases s) auto
    show ?thesis
    proof (cases sc)
      case RB_BLACK
      with assms p RB_R s show ?thesis
        by (cases sl; cases sr) (auto split: if_splits)
    next
      case RB_RED
      obtain l' x' c' r' where "sr = RB_NODE l' x' c' r'"
        using assms(6) p RB_R s RB_RED by (cases sr) (auto split: if_splits)
      with assms p RB_R s RB_RED show ?thesis
        by (cases l'; cases r') (auto split: if_splits)
    qed
  qed
qed


lemma rb_remove_color_ok:
  assumes "rb_invc (rb_paint RB_BLACK t)" "rb_invh t"
    and "rb_ctxc p" "rb_ctxh p (Suc (rb_bheight t))"
  shows "\<exists>t'. rb_remove_color t p = Some t' \<and> rb_ok t'"
  using assms
proof (induction t p rule: rb_remove_color.induct)
  case (1 elm p)
  show ?case
  proof (cases "rb_is_red elm \<or> p = []")
    case True
    have "rb_ok (rb_plug (rb_paint RB_BLACK elm) p)"
    proof (cases "p = []")
      case True
      with "1.prems" show ?thesis by (simp add: rb_ok_def)
    next
      case False
      with True "1.prems" show ?thesis
        by (cases elm) (auto intro!: rb_plug_ok(1))
    qed
    with True show ?thesis by (simp add: rb_remove_color.simps)
  next
    case False
    then have "rb_invc elm" using "1.prems"(1) by (cases elm) auto
    with False "1.prems" obtain res q where turn: "rb_turn elm p = Some (res, q)"
      and q: "rb_ctxc q" and res: "case res of
       Inl t \<Rightarrow> rb_invc (rb_paint RB_BLACK t) \<and> rb_invh t \<and> rb_ctxh q (Suc (rb_bheight t))
     | Inr t \<Rightarrow> rb_invc t \<and> rb_invh t \<and> rb_ctxh q (rb_bheight t) \<and>
               (rb_is_red t \<longrightarrow> q \<noteq> [] \<and> rb_top_black q)"
      using rb_turn_ok [of elm p] by blast
    show ?thesis
    proof (cases res)
      case (Inl t)
      with "1.IH" [of "(res, q)" res q t] False turn q res show ?thesis
        by (subst rb_remove_color.simps) simp
    next
      case (Inr t)
      have "rb_invc (rb_plug t q)" "rb_invh (rb_plug t q)"
        using Inr res q by (auto intro: rb_plug_invc rb_plug_invh)
      then have "rb_ok (rb_paint RB_BLACK (rb_plug t q))"
        by (simp add: rb_ok_def rb_invc_paint)
      with Inr False turn show ?thesis
        by (subst rb_remove_color.simps) simp
    qed
  qed
qed

text \<open>Taking a well-formed tree apart at a position and at the leftmost node of a subtree.\<close>

lemma rb_unplug_ok:
  assumes "rb_invc (rb_plug t p)" "rb_invh (rb_plug t p)" "\<not> rb_is_red (rb_plug t p)"
  shows "rb_invc t \<and> rb_invh t \<and> rb_ctxc p \<and> rb_ctxh p (rb_bheight t) \<and>
    (rb_is_red t \<longrightarrow> p \<noteq> [] \<and> rb_top_black p)"
  using assms by (induction t p rule: rb_plug.induct) (auto split: if_splits)

lemma rb_ctx_change:
  assumes "rb_ctxc (q @ RB_R l z c # p)" "rb_ctxh (q @ RB_R l z c # p) n"
  shows "rb_ctxc (q @ RB_R l y c # p)" "rb_ctxh (q @ RB_R l y c # p) n"
proof -
  have top: "rb_top_black (q @ RB_R l z c # p) = rb_top_black (q @ RB_R l y c # p)" for q
    by (cases q) auto
  show "rb_ctxc (q @ RB_R l y c # p)"
    using assms(1) by (induction q rule: rb_before.induct) (auto simp: top)
  show "rb_ctxh (q @ RB_R l y c # p) n"
    using assms(2) by (induction q n rule: rb_ctxh.induct) auto
qed

lemma rb_unlink_ok:
  assumes "rb_invc child" "rb_invh child" "rb_ctxc p"
    and "rb_ctxh p (rb_bheight child + (if c = RB_BLACK then 1 else 0))"
    and "c = RB_RED \<Longrightarrow> \<not> rb_is_red child"
  shows "\<exists>t'. rb_unlink c child p = Some t' \<and> rb_ok t'"
proof (cases c)
  case RB_BLACK
  have "\<exists>t'. rb_remove_color child p = Some t' \<and> rb_ok t'"
    by (rule rb_remove_color_ok) (use assms RB_BLACK in \<open>auto simp: rb_invc_paint\<close>)
  with RB_BLACK show ?thesis by (simp add: rb_unlink_def)
next
  case RB_RED
  with assms show ?thesis by (auto simp: rb_unlink_def intro!: rb_plug_ok)
qed

lemma rb_remove_ok:
  assumes "rb_ok t" and "z \<in> set (rb_inorder t)"
  shows "\<exists>t'. rb_remove z t = Some t' \<and> rb_ok t'"
proof -
  obtain t0 p where loc0: "rb_locate z t [] = Some (t0, p)"
    using assms(2) rb_locate_None [of z t "[]"] by (cases "rb_locate z t []") auto
  from rb_locate_plug [OF this] obtain l c r where t0: "t0 = RB_NODE l z c r"
    and t: "t = rb_plug (RB_NODE l z c r) p" by auto
  note loc = loc0 [unfolded t0]
  have ok: "rb_invc (RB_NODE l z c r)" "rb_invh (RB_NODE l z c r)" "rb_ctxc p"
      "rb_ctxh p (rb_bheight (RB_NODE l z c r))"
    using rb_unplug_ok [of "RB_NODE l z c r" p] assms(1) unfolding t rb_ok_def by blast+
  consider "l = RB_NULL" | "l \<noteq> RB_NULL" "r = RB_NULL" | "l \<noteq> RB_NULL" "r \<noteq> RB_NULL" by blast
  then show ?thesis
  proof cases
    case 1
    with ok have "\<exists>t'. rb_unlink c r p = Some t' \<and> rb_ok t'"
      by (intro rb_unlink_ok) auto
    with 1 loc show ?thesis by (simp add: rb_remove_def)
  next
    case 2
    with ok have "\<exists>t'. rb_unlink c l p = Some t' \<and> rb_ok t'"
      by (intro rb_unlink_ok) auto
    with 2 loc show ?thesis by (simp add: rb_remove_def)
  next
    case 3
    then obtain y cy ch q where lm: "rb_leftmost r [] = Some (y, cy, ch, q)"
      using rb_leftmost_None [of r "[]"] by (cases "rb_leftmost r []") auto
    have r: "rb_plug (RB_NODE RB_NULL y cy ch) q = r" using rb_leftmost_plug [OF lm] by simp
    let ?p = "\<lambda>w. q @ RB_R l w c # p"
    have "t = rb_plug (RB_NODE RB_NULL y cy ch) (?p z)" using t r by simp
    then have "rb_invc (RB_NODE RB_NULL y cy ch)" "rb_invh (RB_NODE RB_NULL y cy ch)"
        "rb_ctxc (?p z)" "rb_ctxh (?p z) (rb_bheight (RB_NODE RB_NULL y cy ch))"
      using rb_unplug_ok [of "RB_NODE RB_NULL y cy ch" "?p z"] assms(1) by (simp_all add: rb_ok_def)
    then have "\<exists>t'. rb_unlink cy ch (?p y) = Some t' \<and> rb_ok t'"
      by (intro rb_unlink_ok) (auto intro: rb_ctx_change)
    with 3 loc lm show ?thesis by (simp add: rb_remove_def)
  qed
qed

section \<open>Extremes and neighbours\<close>

lemma rb_minmax_from_min:
  "v < 0 \<Longrightarrow> rb_minmax_from w t v = (case rb_inorder t of [] \<Rightarrow> w | x # _ \<Rightarrow> Some x)"
  by (induction w t v rule: rb_minmax_from.induct) (auto split: list.splits)

lemma rb_minmax_from_max:
  "\<not> v < 0 \<Longrightarrow> rb_minmax_from w t v = (if rb_inorder t = [] then w else Some (last (rb_inorder t)))"
  by (induction w t v rule: rb_minmax_from.induct) auto

lemma rb_min_inorder: "rb_min t = (case rb_inorder t of [] \<Rightarrow> None | x # _ \<Rightarrow> Some x)"
  by (simp add: rb_min_def rb_minmax_def rb_minmax_from_min)

lemma rb_max_inorder: "rb_max t = (if rb_inorder t = [] then None else Some (last (rb_inorder t)))"
  by (simp add: rb_max_def rb_minmax_def rb_minmax_from_max)

lemma rb_climb_next_after: "rb_climb_next p = (case rb_after p of [] \<Rightarrow> None | x # _ \<Rightarrow> Some x)"
  by (induction p rule: rb_climb_next.induct) auto

lemma rb_climb_prev_before:
  "rb_climb_prev p = (if rb_before p = [] then None else Some (last (rb_before p)))"
  by (induction p rule: rb_climb_prev.induct) auto

lemma rb_inorder_Nil [simp]: "rb_inorder t = [] \<longleftrightarrow> t = RB_NULL"
  by (cases t) auto

lemma rb_locate_split:
  assumes "rb_inorder t = xs @ z # ys" and "distinct (rb_inorder t)"
  obtains l c r p where "rb_locate z t [] = Some (RB_NODE l z c r, p)"
    and "xs = rb_before p @ rb_inorder l" and "ys = rb_inorder r @ rb_after p"
proof -
  obtain t0 p where loc: "rb_locate z t [] = Some (t0, p)"
    using assms(1) rb_locate_None [of z t "[]"] by (cases "rb_locate z t []") auto
  from rb_locate_plug [OF loc] obtain l c r where t0: "t0 = RB_NODE l z c r"
    and t: "t = rb_plug (RB_NODE l z c r) p" by auto
  have "(rb_before p @ rb_inorder l) @ z # (rb_inorder r @ rb_after p) = xs @ z # ys"
    using assms(1) t by simp
  moreover have "z \<notin> set xs" "z \<notin> set ys" using assms by auto
  ultimately have "xs = rb_before p @ rb_inorder l \<and> ys = rb_inorder r @ rb_after p"
    by (metis append_Cons_eq_iff)
  with that loc t0 show thesis by blast
qed

lemma rb_next_inorder:
  assumes "rb_inorder t = xs @ z # ys" and "distinct (rb_inorder t)"
  shows "rb_next z t = (case ys of [] \<Rightarrow> None | y # _ \<Rightarrow> Some y)"
proof -
  obtain l c r p where "rb_locate z t [] = Some (RB_NODE l z c r, p)"
    and "ys = rb_inorder r @ rb_after p"
    using rb_locate_split [OF assms] by metis
  then show ?thesis
    by (cases r; cases "rb_inorder r")
      (auto simp: rb_next_def rb_minmax_def rb_minmax_from_min rb_climb_next_after split: list.splits)
qed

lemma rb_prev_inorder:
  assumes "rb_inorder t = xs @ z # ys" and "distinct (rb_inorder t)"
  shows "rb_prev z t = (if xs = [] then None else Some (last xs))"
proof -
  obtain l c r p where "rb_locate z t [] = Some (RB_NODE l z c r, p)"
    and "xs = rb_before p @ rb_inorder l"
    using rb_locate_split [OF assms] by metis
  then show ?thesis
    by (cases l) (auto simp: rb_prev_def rb_minmax_def rb_minmax_from_max rb_climb_prev_before)
qed


section \<open>Ordered by a comparison\<close>

text \<open>
  The trees of the code are ordered by a comparison function on the nodes (\<open>uv__timer_cmp\<close>,
  \<open>uv__signal_compare\<close>, \<open>compare_watchers\<close>). What the macros need of it:
\<close>

locale rb_order =
  fixes cmp :: "'a \<Rightarrow> 'a \<Rightarrow> int"
  assumes cmp_anti: "cmp a b < 0 \<longleftrightarrow> 0 < cmp b a"
    and cmp_trans_l: "cmp a b \<le> 0 \<Longrightarrow> cmp b c < 0 \<Longrightarrow> cmp a c < 0"
    and cmp_trans_r: "cmp a b < 0 \<Longrightarrow> cmp b c \<le> 0 \<Longrightarrow> cmp a c < 0"
begin

text \<open>A tree in use: well coloured, and its elements strictly increasing.\<close>

definition sorted_tree :: "'a rb_tree \<Rightarrow> bool" where
  "sorted_tree t \<longleftrightarrow> rb_ok t \<and> sorted_wrt (\<lambda>a b. cmp a b < 0) (rb_inorder t)"

lemma cmp_irrefl: "\<not> cmp a a < 0"
  using cmp_anti [of a a] by linarith

lemma cmp_zero_sym: "cmp a b = 0 \<longleftrightarrow> cmp b a = 0"
  using cmp_anti [of a b] cmp_anti [of b a] by linarith

lemma sorted_wrt_distinct: "sorted_wrt (\<lambda>a b. cmp a b < 0) xs \<Longrightarrow> distinct xs"
  by (induction xs) (auto simp: cmp_irrefl)

lemma sorted_tree_distinct: "sorted_tree t \<Longrightarrow> distinct (rb_inorder t)"
  by (simp add: sorted_tree_def sorted_wrt_distinct)

lemma sorted_wrt_remove1:
  "sorted_wrt P xs \<Longrightarrow> sorted_wrt P (remove1 x xs)"
  by (induction xs) (auto dest: notin_set_remove1)

lemma sorted_tree_empty: "sorted_tree RB_NULL"
  by (simp add: sorted_tree_def rb_ok_def)

lemma sorted_node:
  assumes "sorted_wrt (\<lambda>a b. cmp a b < 0) (rb_inorder (RB_NODE l x c r))"
  shows "cmp elm x < 0 \<Longrightarrow> y \<in> set (rb_inorder r) \<Longrightarrow> cmp elm y < 0"
    and "cmp elm x = 0 \<Longrightarrow> y \<in> set (rb_inorder r) \<Longrightarrow> cmp elm y < 0"
    and "0 < cmp elm x \<Longrightarrow> y \<in> set (rb_inorder l) \<Longrightarrow> 0 < cmp elm y"
    and "cmp elm x = 0 \<Longrightarrow> y \<in> set (rb_inorder l) \<Longrightarrow> 0 < cmp elm y"
proof -
  have l: "\<And>y. y \<in> set (rb_inorder l) \<Longrightarrow> cmp y x < 0"
    and r: "\<And>y. y \<in> set (rb_inorder r) \<Longrightarrow> cmp x y < 0"
    using assms by (auto simp: sorted_wrt_append)
  show "cmp elm x < 0 \<Longrightarrow> y \<in> set (rb_inorder r) \<Longrightarrow> cmp elm y < 0"
    using r cmp_trans_r [of elm x y] by force
  show "cmp elm x = 0 \<Longrightarrow> y \<in> set (rb_inorder r) \<Longrightarrow> cmp elm y < 0"
    using r cmp_trans_l [of elm x y] by force
  show "0 < cmp elm x \<Longrightarrow> y \<in> set (rb_inorder l) \<Longrightarrow> 0 < cmp elm y"
    using l [of y] cmp_trans_r [of y x elm] cmp_anti [of y elm] cmp_anti [of x elm] by force
  show "cmp elm x = 0 \<Longrightarrow> y \<in> set (rb_inorder l) \<Longrightarrow> 0 < cmp elm y"
    using l [of y] cmp_trans_r [of y x elm] cmp_anti [of y elm] cmp_zero_sym [of x elm] by force
qed

lemma descend_spec:
  assumes "sorted_wrt (\<lambda>a b. cmp a b < 0) (rb_inorder t)"
    and "\<forall>y \<in> set (rb_before p). 0 < cmp elm y" and "\<forall>y \<in> set (rb_after p). cmp elm y < 0"
  shows "case rb_descend cmp elm t p of
      Inl x \<Rightarrow> x \<in> set (rb_inorder t) \<and> cmp elm x = 0
    | Inr q \<Rightarrow> rb_plug RB_NULL q = rb_plug t p \<and>
        (\<forall>y \<in> set (rb_before q). 0 < cmp elm y) \<and> (\<forall>y \<in> set (rb_after q). cmp elm y < 0)"
  using assms
proof (induction t arbitrary: p)
  case RB_NULL
  then show ?case by simp
next
  case (RB_NODE l x c r)
  note node = sorted_node [OF RB_NODE.prems(1), of elm]
  have sl: "sorted_wrt (\<lambda>a b. cmp a b < 0) (rb_inorder l)"
    and sr: "sorted_wrt (\<lambda>a b. cmp a b < 0) (rb_inorder r)"
    using RB_NODE.prems(1) by (auto simp: sorted_wrt_append)
  consider "cmp elm x < 0" | "0 < cmp elm x" | "cmp elm x = 0" by linarith
  then show ?case
  proof cases
    case 1
    then have "\<forall>y \<in> set (rb_inorder r). cmp elm y < 0" using node(1) by blast
    with 1 RB_NODE.IH(1) [OF sl, of "RB_L x c r # p"] RB_NODE.prems(2,3) show ?thesis
      by (simp add: ball_Un split: sum.splits)
  next
    case 2
    then have "\<forall>y \<in> set (rb_inorder l). 0 < cmp elm y" using node(3) by blast
    with 2 RB_NODE.IH(2) [OF sr, of "RB_R l x c # p"] RB_NODE.prems(2,3) show ?thesis
      by (simp add: ball_Un split: sum.splits)
  next
    case 3
    then show ?thesis by simp
  qed
qed

text \<open>Insertion of an element that has no equal in the tree, and of one that has.\<close>

lemma insert_new:
  assumes "sorted_tree t" and "\<forall>y \<in> set (rb_inorder t). cmp elm y \<noteq> 0"
  shows "\<exists>t'. rb_insert cmp elm t = Some (None, t') \<and> sorted_tree t' \<and>
    (\<exists>xs ys. rb_inorder t = xs @ ys \<and> rb_inorder t' = xs @ elm # ys)"
proof -
  have s: "sorted_wrt (\<lambda>a b. cmp a b < 0) (rb_inorder t)" and ok: "rb_ok t"
    using assms(1) by (auto simp: sorted_tree_def)
  from descend_spec [OF s, of "[]" elm] assms(2) obtain q where
    q: "rb_descend cmp elm t [] = Inr q" "rb_plug RB_NULL q = t"
      "\<forall>y \<in> set (rb_before q). 0 < cmp elm y" "\<forall>y \<in> set (rb_after q). cmp elm y < 0"
    by (auto split: sum.splits)
  have "rb_ctxc q \<and> rb_ctxh q 0"
    using rb_unplug_ok [of RB_NULL q] ok q(2) by (simp add: rb_ok_def)
  then have "\<exists>t'. rb_insert_color (RB_NODE RB_NULL elm RB_RED RB_NULL) q = Some t' \<and> rb_ok t'"
    by (intro rb_insert_color_ok) auto
  then obtain t' where t': "rb_insert_color (RB_NODE RB_NULL elm RB_RED RB_NULL) q = Some t'"
    and ok': "rb_ok t'" by blast
  have io: "rb_inorder t = rb_before q @ rb_after q"
    using arg_cong [OF q(2), of rb_inorder] by simp
  have io': "rb_inorder t' = rb_before q @ elm # rb_after q"
    using rb_insert_color_inorder [OF t'] by simp
  have "sorted_wrt (\<lambda>a b. cmp a b < 0) (rb_inorder t')"
    using s q(3,4) cmp_anti by (auto simp: io io' sorted_wrt_append)
  with ok' have "sorted_tree t'" by (simp add: sorted_tree_def)
  with t' q(1) io io' show ?thesis by (auto simp: rb_insert_def)
qed

lemma insert_present:
  assumes "sorted_tree t" and "y \<in> set (rb_inorder t)" and "cmp elm y = 0"
  shows "\<exists>x. rb_insert cmp elm t = Some (Some x, t) \<and> x \<in> set (rb_inorder t) \<and> cmp elm x = 0"
proof -
  have s: "sorted_wrt (\<lambda>a b. cmp a b < 0) (rb_inorder t)"
    using assms(1) by (auto simp: sorted_tree_def)
  show ?thesis
  proof (cases "rb_descend cmp elm t []")
    case (Inl x)
    with descend_spec [OF s, of "[]" elm] show ?thesis by (simp add: rb_insert_def)
  next
    case (Inr q)
    with descend_spec [OF s, of "[]" elm] have "rb_plug RB_NULL q = t"
      and "\<forall>y \<in> set (rb_before q) \<union> set (rb_after q). cmp elm y \<noteq> 0" by auto
    moreover from this(1) have "rb_inorder t = rb_before q @ rb_after q"
      using rb_inorder_plug [of RB_NULL q] by simp
    ultimately show ?thesis using assms(2,3) by auto
  qed
qed

lemma remove_present:
  assumes "sorted_tree t" and "z \<in> set (rb_inorder t)"
  shows "\<exists>t'. rb_remove z t = Some t' \<and> sorted_tree t' \<and> rb_inorder t' = remove1 z (rb_inorder t)"
proof -
  obtain t' where t': "rb_remove z t = Some t'" "rb_ok t'"
    using rb_remove_ok [of t z] assms by (auto simp: sorted_tree_def)
  with rb_remove_inorder [OF t'(1) sorted_tree_distinct [OF assms(1)]] assms(1) show ?thesis
    by (auto simp: sorted_tree_def sorted_wrt_remove1)
qed

text \<open>Lookup is a linear search of the in-order sequence.\<close>

lemma find_inorder:
  assumes "sorted_wrt (\<lambda>a b. cmp a b < 0) (rb_inorder t)"
  shows "rb_find cmp elm t = find (\<lambda>y. cmp elm y = 0) (rb_inorder t)"
  using assms
proof (induction t)
  case RB_NULL
  then show ?case by simp
next
  case (RB_NODE l x c r)
  note node = sorted_node [OF RB_NODE.prems(1), of elm]
  have IH: "rb_find cmp elm l = find (\<lambda>y. cmp elm y = 0) (rb_inorder l)"
      "rb_find cmp elm r = find (\<lambda>y. cmp elm y = 0) (rb_inorder r)"
    using RB_NODE by (auto simp: sorted_wrt_append)
  consider "cmp elm x < 0" | "0 < cmp elm x" | "cmp elm x = 0" by linarith
  then show ?case
  proof cases
    case 1
    have "find (\<lambda>y. cmp elm y = 0) (rb_inorder r) = None"
      using 1 node(1) by (force simp: find_None_iff)
    with 1 IH show ?thesis by (auto simp: find_append split: option.splits)
  next
    case 2
    have "find (\<lambda>y. cmp elm y = 0) (rb_inorder l) = None"
      using 2 node(3) by (force simp: find_None_iff)
    with 2 IH show ?thesis by (auto simp: find_append)
  next
    case 3
    have "find (\<lambda>y. cmp elm y = 0) (rb_inorder l) = None"
      using 3 node(4) by (force simp: find_None_iff)
    with 3 show ?thesis by (auto simp: find_append)
  qed
qed

lemma nfind_from_inorder:
  assumes "sorted_wrt (\<lambda>a b. cmp a b < 0) (rb_inorder t)"
  shows "rb_nfind_from cmp elm w t =
    (case find (\<lambda>y. cmp elm y \<le> 0) (rb_inorder t) of None \<Rightarrow> w | Some y \<Rightarrow> Some y)"
  using assms
proof (induction t arbitrary: w)
  case RB_NULL
  then show ?case by simp
next
  case (RB_NODE l x c r)
  note node = sorted_node [OF RB_NODE.prems(1), of elm]
  have IH: "rb_nfind_from cmp elm v l =
        (case find (\<lambda>y. cmp elm y \<le> 0) (rb_inorder l) of None \<Rightarrow> v | Some y \<Rightarrow> Some y)"
      "rb_nfind_from cmp elm v r =
        (case find (\<lambda>y. cmp elm y \<le> 0) (rb_inorder r) of None \<Rightarrow> v | Some y \<Rightarrow> Some y)" for v
    using RB_NODE by (auto simp: sorted_wrt_append)
  have none: "find (\<lambda>y. cmp elm y \<le> 0) (rb_inorder l) = None" if "0 \<le> cmp elm x"
    using that node(3,4) by (cases "cmp elm x = 0") (force simp: find_None_iff)+
  consider "cmp elm x < 0" | "0 < cmp elm x" | "cmp elm x = 0" by linarith
  then show ?case
    by cases (use IH none in \<open>auto simp: find_append split: option.splits\<close>)
qed

lemma nfind_inorder:
  "sorted_tree t \<Longrightarrow> rb_nfind cmp elm t = find (\<lambda>y. cmp elm y \<le> 0) (rb_inorder t)"
  by (simp add: rb_nfind_def nfind_from_inorder sorted_tree_def split: option.splits)

lemma min_least:
  assumes "sorted_tree t" and "rb_min t = Some m"
  shows "m \<in> set (rb_inorder t) \<and> (\<forall>y \<in> set (rb_inorder t). y = m \<or> cmp m y < 0)"
  using assms by (cases "rb_inorder t") (auto simp: rb_min_inorder sorted_tree_def)

end

section \<open>The contract towards the clients\<close>

text \<open>
  What the timers, the signal watchers and the inotify watchers rely on: an ordered set of
  elements with insertion, removal, least element, first element not below a key, and
  successor. \<open>elems\<close> is the abstraction, \<open>ok\<close> the invariant.
\<close>

locale ordered_set =
  fixes before :: "'a \<Rightarrow> 'a \<Rightarrow> bool"
    and same :: "'a \<Rightarrow> 'a \<Rightarrow> bool"
    and ok :: "'t \<Rightarrow> bool"
    and elems :: "'t \<Rightarrow> 'a list"
    and ins :: "'a \<Rightarrow> 't \<Rightarrow> ('a option \<times> 't) option"
    and del :: "'a \<Rightarrow> 't \<Rightarrow> 't option"
    and least :: "'t \<Rightarrow> 'a option"
  assumes elems_distinct: "ok t \<Longrightarrow> distinct (elems t)"
    and elems_sorted: "ok t \<Longrightarrow> sorted_wrt before (elems t)"
    and ins_law: "ok t \<Longrightarrow> \<forall>y \<in> set (elems t). \<not> same x y \<Longrightarrow>
      \<exists>t'. ins x t = Some (None, t') \<and> ok t' \<and> set (elems t') = insert x (set (elems t))"
    and del_law: "ok t \<Longrightarrow> x \<in> set (elems t) \<Longrightarrow>
      \<exists>t'. del x t = Some t' \<and> ok t' \<and> elems t' = remove1 x (elems t)"
    and least_law: "ok t \<Longrightarrow> least t = (case elems t of [] \<Rightarrow> None | x # _ \<Rightarrow> Some x)"
begin

lemma least_Some:
  assumes "ok t" and "least t = Some m"
  shows "m \<in> set (elems t)" and "y \<in> set (elems t) \<Longrightarrow> y = m \<or> before m y"
  using assms elems_sorted [OF assms(1)]
  by (cases "elems t"; auto simp: least_law)+

lemma least_None: "ok t \<Longrightarrow> least t = None \<longleftrightarrow> elems t = []"
  by (cases "elems t") (auto simp: least_law)

lemma del_least:
  assumes "ok t" and "least t = Some m"
  shows "\<exists>t'. del m t = Some t' \<and> ok t' \<and> elems t' = tl (elems t)"
  using del_law [OF assms(1), of m] assms by (cases "elems t") (auto simp: least_law)

lemma del_set:
  assumes "ok t" and "x \<in> set (elems t)"
  shows "\<exists>t'. del x t = Some t' \<and> ok t' \<and> set (elems t') = set (elems t) - {x}"
  using del_law [OF assms] elems_distinct [OF assms(1)] by (auto simp: set_remove1_eq)

end

sublocale rb_order \<subseteq> tree: ordered_set "\<lambda>a b. cmp a b < 0" "\<lambda>a b. cmp a b = 0"
    sorted_tree rb_inorder "rb_insert cmp" rb_remove rb_min
proof
  fix t :: "'a rb_tree" and x :: 'a
  assume t: "sorted_tree t"
  then show "distinct (rb_inorder t)" by (rule sorted_tree_distinct)
  from t show "sorted_wrt (\<lambda>a b. cmp a b < 0) (rb_inorder t)" by (simp add: sorted_tree_def)
  show "\<exists>t'. rb_insert cmp x t = Some (None, t') \<and> sorted_tree t' \<and>
      set (rb_inorder t') = insert x (set (rb_inorder t))"
    if "\<forall>y \<in> set (rb_inorder t). \<not> cmp x y = 0"
    using insert_new [OF t that] by auto
  show "\<exists>t'. rb_remove x t = Some t' \<and> sorted_tree t' \<and> rb_inorder t' = remove1 x (rb_inorder t)"
    if "x \<in> set (rb_inorder t)"
    using remove_present [OF t that] .
  show "rb_min t = (case rb_inorder t of [] \<Rightarrow> None | x # _ \<Rightarrow> Some x)"
    by (rule rb_min_inorder)
qed


section \<open>Properties of the macros\<close>

text \<open>
  C14. \<open>RB_INSERT\<close> on a well-formed tree never dereferences a null pointer. With a comparison
  that is a total preorder it puts an element without an equal at its place in the order,
  keeps the colours and the black heights right, and returns \<open>NULL\<close>; an element that has an
  equal in the tree leaves the tree as it is and gets the equal one back.
\<close>

theorem rb_insert_sorted:
  assumes "\<And>a b. cmp a b < 0 \<longleftrightarrow> 0 < cmp b a"
    and "\<And>a b c. cmp a b \<le> 0 \<Longrightarrow> cmp b c < 0 \<Longrightarrow> cmp a c < 0"
    and "\<And>a b c. cmp a b < 0 \<Longrightarrow> cmp b c \<le> 0 \<Longrightarrow> cmp a c < 0"
    and "rb_ok t" and "sorted_wrt (\<lambda>a b. cmp a b < 0) (rb_inorder t)"
  shows "\<exists>r t'. rb_insert cmp elm t = Some (r, t') \<and> rb_ok t' \<and>
    sorted_wrt (\<lambda>a b. cmp a b < 0) (rb_inorder t') \<and>
    (case r of
       None \<Rightarrow> (\<forall>y \<in> set (rb_inorder t). cmp elm y \<noteq> 0) \<and>
         (\<exists>xs ys. rb_inorder t = xs @ ys \<and> rb_inorder t' = xs @ elm # ys)
     | Some x \<Rightarrow> x \<in> set (rb_inorder t) \<and> cmp elm x = 0 \<and> t' = t)"
proof -
  have order: "rb_order cmp" by (rule rb_order.intro) (fact assms)+
  have t: "rb_order.sorted_tree cmp t"
    using assms(4,5) by (simp add: rb_order.sorted_tree_def [OF order])
  show ?thesis
  proof (cases "\<exists>y \<in> set (rb_inorder t). cmp elm y = 0")
    case True
    then obtain y where "y \<in> set (rb_inorder t)" "cmp elm y = 0" by blast
    from rb_order.insert_present [OF order t this] obtain x where
      "rb_insert cmp elm t = Some (Some x, t)" "x \<in> set (rb_inorder t)" "cmp elm x = 0" by blast
    with assms(4,5) show ?thesis by simp
  next
    case False
    then have new: "\<forall>y \<in> set (rb_inorder t). cmp elm y \<noteq> 0" by blast
    from rb_order.insert_new [OF order t new] obtain t' xs ys where
      "rb_insert cmp elm t = Some (None, t')" "rb_order.sorted_tree cmp t'"
      "rb_inorder t = xs @ ys" "rb_inorder t' = xs @ elm # ys" by blast
    with new show ?thesis by (auto simp: rb_order.sorted_tree_def [OF order])
  qed
qed

theorem rb_insert_sorted_witness:
  "\<exists>t'. rb_insert (\<lambda>a b :: int. a - b) 2 (RB_NODE RB_NULL 1 RB_BLACK (RB_NODE RB_NULL 3 RB_RED RB_NULL))
     = Some (None, t') \<and> rb_inorder t' = [1, 2, 3]"
proof -
  have ok: "rb_ok (RB_NODE RB_NULL (1 :: int) RB_BLACK (RB_NODE RB_NULL 3 RB_RED RB_NULL))"
    by (simp add: rb_ok_def)
  obtain r t' where "rb_insert (\<lambda>a b :: int. a - b) 2
        (RB_NODE RB_NULL 1 RB_BLACK (RB_NODE RB_NULL 3 RB_RED RB_NULL)) = Some (r, t')"
      and s: "sorted_wrt (\<lambda>a b. a - b < 0) (rb_inorder t')"
      and r: "case r of None \<Rightarrow> (\<forall>y \<in> {1, 3 :: int}. 2 - y \<noteq> 0) \<and>
        (\<exists>xs ys. [1, 3] = xs @ ys \<and> rb_inorder t' = xs @ 2 # ys)
        | Some x \<Rightarrow> x \<in> {1, 3} \<and> 2 - x = 0"
    using rb_insert_sorted [OF _ _ _ ok, of "\<lambda>a b. a - b" 2] by (auto split: option.splits)
  moreover from r have "r = None" by (auto split: option.splits)
  moreover from this r obtain xs ys where "[1, 3] = xs @ ys" "rb_inorder t' = xs @ 2 # ys" by auto
  then have "rb_inorder t' = [1, 2, 3]"
    using s by (auto simp: Cons_eq_append_conv)
  ultimately show ?thesis by simp
qed

text \<open>
  C13. \<open>RB_REMOVE\<close> takes exactly the given node out of a well-formed tree: the order of the
  others is kept, the result is well formed again, and no null pointer is dereferenced on
  any of the rebalancing paths.
\<close>

theorem rb_remove_exact:
  assumes "rb_ok t" and "distinct (rb_inorder t)" and "z \<in> set (rb_inorder t)"
  shows "\<exists>t'. rb_remove z t = Some t' \<and> rb_ok t' \<and> rb_inorder t' = remove1 z (rb_inorder t)"
  using rb_remove_ok [OF assms(1,3)] rb_remove_inorder [OF _ assms(2)] by blast

theorem rb_remove_exact_witness:
  "\<exists>t'. rb_remove 1 (RB_NODE (RB_NODE RB_NULL 1 RB_BLACK RB_NULL) 2 RB_BLACK
       (RB_NODE RB_NULL (3 :: int) RB_BLACK RB_NULL)) = Some t' \<and> rb_inorder t' = [2, 3]"
  using rb_remove_exact [of "RB_NODE (RB_NODE RB_NULL 1 RB_BLACK RB_NULL) 2 RB_BLACK
       (RB_NODE RB_NULL (3 :: int) RB_BLACK RB_NULL)" 1]
  by (auto simp: rb_ok_def)

section \<open>Balance\<close>

fun rb_height :: "'a rb_tree \<Rightarrow> nat" where
  "rb_height RB_NULL = 0"
| "rb_height (RB_NODE l x c r) = Suc (max (rb_height l) (rb_height r))"

lemma rb_height_bheight:
  "rb_invc t \<Longrightarrow> rb_invh t \<Longrightarrow> rb_height t \<le> 2 * rb_bheight t + (if rb_is_red t then 1 else 0)"
proof (induction t)
  case (RB_NODE l x c r)
  then show ?case by (cases c) (auto split: if_splits)
qed simp

lemma rb_bheight_size: "rb_invh t \<Longrightarrow> 2 ^ rb_bheight t \<le> length (rb_inorder t) + 1"
proof (induction t)
  case (RB_NODE l x c r)
  then show ?case by (cases c) auto
qed simp

text \<open>The trees that insertions and removals of nodes build from the empty tree.\<close>

inductive rb_run :: "('a \<Rightarrow> 'a \<Rightarrow> int) \<Rightarrow> 'a rb_tree \<Rightarrow> bool" for cmp where
  empty: "rb_run cmp RB_NULL"
| insert: "rb_run cmp t \<Longrightarrow> rb_insert cmp x t = Some (r, t') \<Longrightarrow> rb_run cmp t'"
| remove: "rb_run cmp t \<Longrightarrow> z \<in> set (rb_inorder t) \<Longrightarrow> rb_remove z t = Some t' \<Longrightarrow> rb_run cmp t'"


lemma rb_run_sorted:
  assumes "rb_order cmp" and "rb_run cmp t"
  shows "rb_order.sorted_tree cmp t"
  using assms(2)
proof (induction rule: rb_run.induct)
  case empty
  show ?case by (rule rb_order.sorted_tree_empty [OF assms(1)])
next
  case (insert t x r t')
  show ?case
  proof (cases "\<exists>y \<in> set (rb_inorder t). cmp x y = 0")
    case True
    then obtain y where "y \<in> set (rb_inorder t)" "cmp x y = 0" by blast
    from rb_order.insert_present [OF assms(1) insert.IH this] insert.hyps(2) insert.IH
    show ?thesis by auto
  next
    case False
    then have "\<forall>y \<in> set (rb_inorder t). cmp x y \<noteq> 0" by blast
    from rb_order.insert_new [OF assms(1) insert.IH this] insert.hyps(2) show ?thesis by auto
  qed
next
  case (remove t z t')
  from rb_order.remove_present [OF assms(1) remove.IH remove.hyps(2)] remove.hyps(3)
  show ?case by auto
qed

text \<open>
  C25. Whatever sequence of insertions and removals built it, a tree of \<open>n\<close> elements is sorted
  and its height is at most twice the binary logarithm of \<open>n + 1\<close>, which bounds the loops of
  \<open>RB_FIND\<close>, \<open>RB_INSERT\<close>, \<open>RB_REMOVE\<close> and \<open>RB_MINMAX\<close>.
\<close>

theorem rb_run_balanced:
  assumes "\<And>a b. cmp a b < 0 \<longleftrightarrow> 0 < cmp b a"
    and "\<And>a b c. cmp a b \<le> 0 \<Longrightarrow> cmp b c < 0 \<Longrightarrow> cmp a c < 0"
    and "\<And>a b c. cmp a b < 0 \<Longrightarrow> cmp b c \<le> 0 \<Longrightarrow> cmp a c < 0"
    and "rb_run cmp t"
  shows "sorted_wrt (\<lambda>a b. cmp a b < 0) (rb_inorder t) \<and>
    2 ^ rb_height t \<le> (length (rb_inorder t) + 1) ^ 2"
proof -
  have order: "rb_order cmp" by (rule rb_order.intro) (fact assms)+
  from rb_run_sorted [OF order assms(4)]
  have ok: "rb_invc t" "rb_invh t" "\<not> rb_is_red t"
    and s: "sorted_wrt (\<lambda>a b. cmp a b < 0) (rb_inorder t)"
    by (auto simp: rb_order.sorted_tree_def [OF order] rb_ok_def)
  have "rb_height t \<le> 2 * rb_bheight t" using rb_height_bheight [OF ok(1,2)] ok(3) by simp
  then have "(2 :: nat) ^ rb_height t \<le> 2 ^ (2 * rb_bheight t)"
    by (intro power_increasing) simp_all
  also have "\<dots> = (2 ^ rb_bheight t) ^ 2" by (simp add: power_mult mult.commute [of 2])
  also have "\<dots> \<le> (length (rb_inorder t) + 1) ^ 2"
    by (intro power_mono rb_bheight_size ok) simp
  finally show ?thesis using s by blast
qed

theorem rb_run_balanced_witness:
  "2 ^ rb_height (RB_NODE RB_NULL (1 :: int) RB_BLACK RB_NULL) \<le> (4 :: nat)"
proof -
  have "rb_insert (\<lambda>a b :: int. a - b) 1 RB_NULL = Some (None, RB_NODE RB_NULL 1 RB_BLACK RB_NULL)"
    by (simp add: rb_insert_def)
  then have "rb_run (\<lambda>a b :: int. a - b) (RB_NODE RB_NULL 1 RB_BLACK RB_NULL)"
    by (rule rb_run.insert [OF rb_run.empty])
  from rb_run_balanced [OF _ _ _ this] show ?thesis by simp
qed

end
