(* ===== verification/Splay.thy ===== *)
theory Splay
  imports RBTree
begin

text \<open>
  The splay trees of the SPLAY macros of \<open>include/uv-private/tree.h\<close>. The top-down splay takes the tree
  apart along the search path: \<open>__left\<close> and \<open>__right\<close> are the last nodes of two trees hanging
  from \<open>__node\<close>, here two lists of the nodes linked so far, the last one first. A dereference of
  \<open>NULL\<close> is \<open>Abort\<close>.
\<close>

section \<open>Trees\<close>

datatype 'a sp_tree = SP_NULL | SP_NODE "'a sp_tree" 'a "'a sp_tree"

fun sp_inorder :: "'a sp_tree \<Rightarrow> 'a list" where
  "sp_inorder SP_NULL = []"
| "sp_inorder (SP_NODE l x r) = sp_inorder l @ x # sp_inorder r"

type_synonym 'a sp_lefts = "('a sp_tree \<times> 'a) list"
type_synonym 'a sp_rights = "('a \<times> 'a sp_tree) list"

fun sp_plug_left :: "'a sp_tree \<Rightarrow> 'a sp_lefts \<Rightarrow> 'a sp_tree" where
  "sp_plug_left t [] = t"
| "sp_plug_left t ((l, x) # ls) = sp_plug_left (SP_NODE l x t) ls"

fun sp_plug_right :: "'a sp_tree \<Rightarrow> 'a sp_rights \<Rightarrow> 'a sp_tree" where
  "sp_plug_right t [] = t"
| "sp_plug_right t ((x, r) # rs) = sp_plug_right (SP_NODE t x r) rs"

definition splay_assemble :: "'a sp_tree \<Rightarrow> 'a \<Rightarrow> 'a sp_tree \<Rightarrow> 'a sp_lefts \<Rightarrow> 'a sp_rights \<Rightarrow> 'a sp_tree" where
  "splay_assemble l x r ls rs = SP_NODE (sp_plug_left l ls) x (sp_plug_right r rs)"

text \<open>The loop of \<open>SPLAY\<close>.\<close>

fun splay_loop :: "('a \<Rightarrow> 'a \<Rightarrow> int) \<Rightarrow> 'a \<Rightarrow> 'a sp_tree \<Rightarrow> 'a sp_lefts \<Rightarrow> 'a sp_rights \<Rightarrow> 'a sp_tree outcome" where
  "splay_loop cmp elm SP_NULL ls rs = Abort"
| "splay_loop cmp elm (SP_NODE l x r) ls rs =
     (if cmp elm x < 0
      then (case l of
              SP_NULL \<Rightarrow> Ret (splay_assemble l x r ls rs)
            | SP_NODE ll y lr \<Rightarrow>
                if cmp elm y < 0
                then (if ll = SP_NULL then Ret (splay_assemble ll y (SP_NODE lr x r) ls rs)
                      else splay_loop cmp elm ll ls ((y, SP_NODE lr x r) # rs))
                else splay_loop cmp elm l ls ((x, r) # rs))
      else if cmp elm x > 0
      then (case r of
              SP_NULL \<Rightarrow> Ret (splay_assemble l x r ls rs)
            | SP_NODE rl y rr \<Rightarrow>
                if cmp elm y > 0
                then (if rr = SP_NULL then Ret (splay_assemble (SP_NODE l x rl) y rr ls rs)
                      else splay_loop cmp elm rr ((SP_NODE l x rl, y) # ls) rs)
                else splay_loop cmp elm r ((l, x) # ls) rs)
      else Ret (splay_assemble l x r ls rs))"

definition splay :: "('a \<Rightarrow> 'a \<Rightarrow> int) \<Rightarrow> 'a \<Rightarrow> 'a sp_tree \<Rightarrow> 'a sp_tree outcome" where
  "splay cmp elm t = splay_loop cmp elm t [] []"

section \<open>The operations\<close>

definition splay_find :: "('a \<Rightarrow> 'a \<Rightarrow> int) \<Rightarrow> 'a \<Rightarrow> 'a sp_tree \<Rightarrow> ('a option \<times> 'a sp_tree) outcome" where
  "splay_find cmp elm t =
     (if t = SP_NULL then Ret (None, t)
      else obind (splay cmp elm t) (\<lambda>t. case t of
        SP_NULL \<Rightarrow> Abort
      | SP_NODE l x r \<Rightarrow> Ret (if cmp elm x = 0 then Some x else None, t)))"

definition splay_insert :: "('a \<Rightarrow> 'a \<Rightarrow> int) \<Rightarrow> 'a \<Rightarrow> 'a sp_tree \<Rightarrow> ('a option \<times> 'a sp_tree) outcome" where
  "splay_insert cmp elm t =
     (if t = SP_NULL then Ret (None, SP_NODE SP_NULL elm SP_NULL)
      else obind (splay cmp elm t) (\<lambda>t. case t of
        SP_NULL \<Rightarrow> Abort
      | SP_NODE l x r \<Rightarrow>
          if cmp elm x < 0 then Ret (None, SP_NODE l elm (SP_NODE SP_NULL x r))
          else if cmp elm x > 0 then Ret (None, SP_NODE (SP_NODE l x SP_NULL) elm r)
          else Ret (Some x, t)))"

definition splay_remove :: "('a \<Rightarrow> 'a \<Rightarrow> int) \<Rightarrow> 'a \<Rightarrow> 'a sp_tree \<Rightarrow> ('a option \<times> 'a sp_tree) outcome" where
  "splay_remove cmp elm t =
     (if t = SP_NULL then Ret (None, t)
      else obind (splay cmp elm t) (\<lambda>t. case t of
        SP_NULL \<Rightarrow> Abort
      | SP_NODE l x r \<Rightarrow>
          if cmp elm x = 0
          then (if l = SP_NULL then Ret (Some elm, r)
                else obind (splay cmp elm l) (\<lambda>t. case t of
                  SP_NULL \<Rightarrow> Abort
                | SP_NODE ll y lr \<Rightarrow> Ret (Some elm, SP_NODE ll y r)))
          else Ret (None, t)))"

text \<open>\<open>SPLAY_MINMAX\<close>; with 0 it would loop for ever.\<close>

fun splay_minmax_loop :: "int \<Rightarrow> 'a sp_tree \<Rightarrow> 'a sp_lefts \<Rightarrow> 'a sp_rights \<Rightarrow> 'a sp_tree run" where
  "splay_minmax_loop val SP_NULL ls rs = Some Abort"
| "splay_minmax_loop val (SP_NODE l x r) ls rs =
     (if val < 0
      then (case l of
              SP_NULL \<Rightarrow> Some (Ret (splay_assemble l x r ls rs))
            | SP_NODE ll y lr \<Rightarrow>
                if ll = SP_NULL then Some (Ret (splay_assemble ll y (SP_NODE lr x r) ls rs))
                else splay_minmax_loop val ll ls ((y, SP_NODE lr x r) # rs))
      else if val > 0
      then (case r of
              SP_NULL \<Rightarrow> Some (Ret (splay_assemble l x r ls rs))
            | SP_NODE rl y rr \<Rightarrow>
                if rr = SP_NULL then Some (Ret (splay_assemble (SP_NODE l x rl) y rr ls rs))
                else splay_minmax_loop val rr ((SP_NODE l x rl, y) # ls) rs)
      else None)"

definition splay_min_max :: "int \<Rightarrow> 'a sp_tree \<Rightarrow> ('a option \<times> 'a sp_tree) run" where
  "splay_min_max val t = rbind (splay_minmax_loop val t [] []) (\<lambda>t. case t of
     SP_NULL \<Rightarrow> Some Abort
   | SP_NODE l x r \<Rightarrow> Some (Ret (Some x, t)))"

definition splay_min :: "'a sp_tree \<Rightarrow> ('a option \<times> 'a sp_tree) run" where
  "splay_min t = (if t = SP_NULL then Some (Ret (None, t)) else splay_min_max (- 1) t)"

definition splay_max :: "'a sp_tree \<Rightarrow> ('a option \<times> 'a sp_tree) run" where
  "splay_max t = (if t = SP_NULL then Some (Ret (None, t)) else splay_min_max 1 t)"

fun sp_leftmost :: "'a sp_tree \<Rightarrow> 'a option" where
  "sp_leftmost SP_NULL = None"
| "sp_leftmost (SP_NODE l x r) = (if l = SP_NULL then Some x else sp_leftmost l)"

text \<open>\<open>SPLAY_NEXT\<close> for an element that the splay brings to the root.\<close>

definition splay_next :: "('a \<Rightarrow> 'a \<Rightarrow> int) \<Rightarrow> 'a \<Rightarrow> 'a sp_tree \<Rightarrow> ('a option \<times> 'a sp_tree) outcome" where
  "splay_next cmp elm t =
     obind (splay cmp elm t) (\<lambda>t. case t of
       SP_NULL \<Rightarrow> Abort
     | SP_NODE l x r \<Rightarrow> if x \<noteq> elm then Abort else Ret (sp_leftmost r, t))"

section \<open>What they do to the order\<close>

lemma inorder_plug_left: "sp_inorder (sp_plug_left t ls) = sp_inorder (sp_plug_left SP_NULL ls) @ sp_inorder t"
proof (induction ls arbitrary: t)
  case (Cons p ls)
  obtain l x where "p = (l, x)" by (cases p)
  with Cons.IH [of "SP_NODE l x t"] Cons.IH [of "SP_NODE l x SP_NULL"] show ?case by simp
qed simp

lemma inorder_plug_right: "sp_inorder (sp_plug_right t rs) = sp_inorder t @ sp_inorder (sp_plug_right SP_NULL rs)"
proof (induction rs arbitrary: t)
  case (Cons p rs)
  obtain x r where "p = (x, r)" by (cases p)
  with Cons.IH [of "SP_NODE t x r"] Cons.IH [of "SP_NODE SP_NULL x r"] show ?case by simp
qed simp

lemma sp_inorder_Nil [simp]: "sp_inorder t = [] \<longleftrightarrow> t = SP_NULL"
  by (cases t) simp_all

definition sp_parts :: "'a sp_lefts \<Rightarrow> 'a sp_tree \<Rightarrow> 'a sp_rights \<Rightarrow> 'a list" where
  "sp_parts ls t rs = sp_inorder (sp_plug_left SP_NULL ls) @ sp_inorder t @ sp_inorder (sp_plug_right SP_NULL rs)"

lemma sp_parts_simps:
  "sp_parts ((l, x) # ls) t rs = sp_inorder (sp_plug_left SP_NULL ls) @ sp_inorder l @ x # sp_inorder t @ sp_inorder (sp_plug_right SP_NULL rs)"
  "sp_parts ls t ((x, r) # rs) = sp_inorder (sp_plug_left SP_NULL ls) @ sp_inorder t @ x # sp_inorder r @ sp_inorder (sp_plug_right SP_NULL rs)"
  using inorder_plug_left [of "SP_NODE l x SP_NULL" ls] inorder_plug_right [of "SP_NODE SP_NULL x r" rs]
  by (simp_all add: sp_parts_def)

lemma assemble_inorder: "sp_inorder (splay_assemble l x r ls rs) = sp_parts ls (SP_NODE l x r) rs"
  using inorder_plug_left [of l ls] inorder_plug_right [of r rs] by (simp add: splay_assemble_def sp_parts_def)

definition sp_result :: "'a sp_tree outcome \<Rightarrow> ('a sp_tree \<Rightarrow> 'a \<Rightarrow> 'a sp_tree \<Rightarrow> bool) \<Rightarrow> bool" where
  "sp_result m Q \<longleftrightarrow> (\<exists>l x r. m = Ret (SP_NODE l x r) \<and> Q l x r)"

lemma sp_result_assemble [simp]:
  "sp_result (Ret (splay_assemble l x r ls rs)) Q = Q (sp_plug_left l ls) x (sp_plug_right r rs)"
  by (auto simp: sp_result_def splay_assemble_def)

text \<open>The splay neither loses nor moves an element, in whatever order the elements are.\<close>

lemma splay_loop_inorder:
  "t \<noteq> SP_NULL \<Longrightarrow> sp_result (splay_loop cmp elm t ls rs) (\<lambda>l x r. sp_inorder (SP_NODE l x r) = sp_parts ls t rs)"
proof (induction cmp elm t ls rs rule: splay_loop.induct)
  case (2 cmp elm l x r ls rs)
  have left: "sp_parts ls ll ((y, SP_NODE lr x r) # rs) = sp_parts ls (SP_NODE (SP_NODE ll y lr) x r) rs"
      "sp_parts ls l' ((x, r) # rs) = sp_parts ls (SP_NODE l' x r) rs" for ll y lr l'
    by (simp_all add: sp_parts_simps) (simp_all add: sp_parts_def)
  have right: "sp_parts ((SP_NODE l x rl, y) # ls) rr rs = sp_parts ls (SP_NODE l x (SP_NODE rl y rr)) rs"
      "sp_parts ((l, x) # ls) r' rs = sp_parts ls (SP_NODE l x r') rs" for rl y rr r'
    by (simp_all add: sp_parts_simps) (simp_all add: sp_parts_def)
  have done_: "sp_inorder (SP_NODE (sp_plug_left a ls) b (sp_plug_right c rs)) = sp_parts ls (SP_NODE a b c) rs" for a b c
    using assemble_inorder [of a b c ls rs] by (simp add: splay_assemble_def)
  have rot: "sp_parts ls (SP_NODE ll y (SP_NODE lr x r)) rs = sp_parts ls (SP_NODE (SP_NODE ll y lr) x r) rs"
    "sp_parts ls (SP_NODE (SP_NODE l x rl) y rr) rs = sp_parts ls (SP_NODE l x (SP_NODE rl y rr)) rs" for ll y lr rl rr
    by (simp_all add: sp_parts_def)
  show ?case
  proof (cases "cmp elm x < 0")
    case True
    then show ?thesis using "2.IH"(1,2)
      by (cases l) (auto simp: done_ left rot simp del: sp_inorder.simps)
  next
    case False
    then show ?thesis using "2.IH"(3,4)
      by (cases r) (auto simp: done_ right rot simp del: sp_inorder.simps)
  qed
qed simp

context rb_order
begin

text \<open>
  In an ordered tree the splay ends with the smaller elements left of the root and the larger ones right of
  it, the root itself apart.
\<close>

definition lefts_ok :: "'a \<Rightarrow> 'a list \<Rightarrow> bool" where
  "lefts_ok elm ys \<longleftrightarrow> (\<forall>y \<in> set ys. 0 < cmp elm y)"

definition rights_ok :: "'a \<Rightarrow> 'a list \<Rightarrow> bool" where
  "rights_ok elm ys \<longleftrightarrow> (\<forall>y \<in> set ys. cmp elm y < 0)"

lemma plug_ok:
  "lefts_ok elm (sp_inorder (sp_plug_left t ls)) \<longleftrightarrow> lefts_ok elm (sp_inorder (sp_plug_left SP_NULL ls)) \<and> lefts_ok elm (sp_inorder t)"
  "rights_ok elm (sp_inorder (sp_plug_right t rs)) \<longleftrightarrow> rights_ok elm (sp_inorder (sp_plug_right SP_NULL rs)) \<and> rights_ok elm (sp_inorder t)"
  using inorder_plug_left [of t ls] inorder_plug_right [of t rs] by (auto simp: lefts_ok_def rights_ok_def)

lemmas plug_node = plug_ok(1) [of _ "SP_NODE a b c" for a b c] plug_ok(2) [of _ "SP_NODE a b c" for a b c]

lemma side_ok:
  "lefts_ok elm (xs @ x # ys) \<longleftrightarrow> lefts_ok elm xs \<and> 0 < cmp elm x \<and> lefts_ok elm ys"
  "rights_ok elm (xs @ x # ys) \<longleftrightarrow> rights_ok elm xs \<and> cmp elm x < 0 \<and> rights_ok elm ys"
  "lefts_ok elm []" "rights_ok elm []"
  by (auto simp: lefts_ok_def rights_ok_def)

lemma above_ok: "sorted_wrt (\<lambda>a b. cmp a b < 0) (x # ys) \<Longrightarrow> cmp elm x \<le> 0 \<Longrightarrow> rights_ok elm ys"
  unfolding rights_ok_def using cmp_trans_l by auto

lemma below_ok: "sorted_wrt (\<lambda>a b. cmp a b < 0) (ys @ [x]) \<Longrightarrow> 0 \<le> cmp elm x \<Longrightarrow> lefts_ok elm ys"
  unfolding lefts_ok_def sorted_wrt_append using cmp_trans_r [of _ x elm] cmp_anti cmp_zero_sym
  by (metis cmp_anti linorder_not_less list.set_intros(1) order_le_less)

lemma plug_step:
  "lefts_ok elm (sp_inorder (sp_plug_left SP_NULL ((l, x) # ls))) \<longleftrightarrow>
    lefts_ok elm (sp_inorder (sp_plug_left SP_NULL ls)) \<and> lefts_ok elm (sp_inorder l) \<and> 0 < cmp elm x"
  "rights_ok elm (sp_inorder (sp_plug_right SP_NULL ((x, r) # rs))) \<longleftrightarrow>
    rights_ok elm (sp_inorder (sp_plug_right SP_NULL rs)) \<and> rights_ok elm (sp_inorder r) \<and> cmp elm x < 0"
  using plug_ok(1) [of elm "SP_NODE l x SP_NULL" ls] plug_ok(2) [of elm "SP_NODE SP_NULL x r" rs]
  by (auto simp: side_ok lefts_ok_def rights_ok_def)

lemma splay_loop_splits:
  "t \<noteq> SP_NULL \<Longrightarrow> sorted_wrt (\<lambda>a b. cmp a b < 0) (sp_inorder t) \<Longrightarrow>
    lefts_ok elm (sp_inorder (sp_plug_left SP_NULL ls)) \<Longrightarrow> rights_ok elm (sp_inorder (sp_plug_right SP_NULL rs)) \<Longrightarrow>
    sp_result (splay_loop cmp elm t ls rs) (\<lambda>l x r. lefts_ok elm (sp_inorder l) \<and> rights_ok elm (sp_inorder r))"
proof (induction t arbitrary: ls rs rule: measure_induct_rule [where f = size])
  case (less t)
  then obtain l x r where t: "t = SP_NODE l x r" by (cases t) auto
  note sorted = less.prems(2) [unfolded t]
  note sides = less.prems(3,4)
  have r: "cmp elm x \<le> 0 \<Longrightarrow> rights_ok elm (sp_inorder r)"
    using sorted by (intro above_ok [of x]) (simp_all add: sorted_wrt_append)
  have l: "0 \<le> cmp elm x \<Longrightarrow> lefts_ok elm (sp_inorder l)"
    using sorted by (intro below_ok [of _ x]) (simp_all add: sorted_wrt_append)
  consider (lt) "cmp elm x < 0" | (gt) "0 < cmp elm x" | (eq) "cmp elm x = 0" by linarith
  then show ?case
  proof cases
    case lt
    show ?thesis
    proof (cases l)
      case SP_NULL
      then show ?thesis using lt sides r plug_ok(2) [of elm r rs] by (simp add: t)
    next
      case (SP_NODE ll y lr)
      have s: "sorted_wrt (\<lambda>a b. cmp a b < 0) (sp_inorder ll)" "sorted_wrt (\<lambda>a b. cmp a b < 0) (sp_inorder l)"
        "sorted_wrt (\<lambda>a b. cmp a b < 0) (y # sp_inorder (SP_NODE lr x r))"
        using sorted by (auto simp: SP_NODE sorted_wrt_append)
      have y: "cmp elm y < 0 \<Longrightarrow> rights_ok elm (sp_inorder (SP_NODE lr x r))" using above_ok [OF s(3)] by simp
      have a: "size ll < size t" "size l < size t" by (simp_all add: t SP_NODE)
      show ?thesis
        using lt sides r y less.IH [OF a(1) _ s(1), of ls "(y, SP_NODE lr x r) # rs"] less.IH [OF a(2) _ s(2), of ls "(x, r) # rs"]
        by (cases "ll = SP_NULL"; cases "cmp elm y < 0")
          (simp_all add: t SP_NODE plug_node plug_step side_ok
            del: sp_plug_right.simps sp_plug_left.simps)
    qed
  next
    case gt
    show ?thesis
    proof (cases r)
      case SP_NULL
      then show ?thesis using gt sides l plug_ok(1) [of elm l ls] by (simp add: t)
    next
      case (SP_NODE rl y rr)
      have s: "sorted_wrt (\<lambda>a b. cmp a b < 0) (sp_inorder rr)" "sorted_wrt (\<lambda>a b. cmp a b < 0) (sp_inorder r)"
        "sorted_wrt (\<lambda>a b. cmp a b < 0) (sp_inorder (SP_NODE l x rl) @ [y])"
        using sorted by (auto simp: SP_NODE sorted_wrt_append)
      have y: "0 < cmp elm y \<Longrightarrow> lefts_ok elm (sp_inorder (SP_NODE l x rl))" using below_ok [OF s(3)] by simp
      have a: "size rr < size t" "size r < size t" by (simp_all add: t SP_NODE)
      show ?thesis
        using gt sides l y less.IH [OF a(1) _ s(1), of "(SP_NODE l x rl, y) # ls" rs] less.IH [OF a(2) _ s(2), of "(l, x) # ls" rs]
        by (cases "rr = SP_NULL"; cases "0 < cmp elm y")
          (simp_all add: t SP_NODE plug_node plug_step side_ok
            del: sp_plug_right.simps sp_plug_left.simps)
    qed
  next
    case eq
    then show ?thesis using sides l r plug_ok(1) [of elm l ls] plug_ok(2) [of elm r rs] by (simp add: t)
  qed
qed

definition sorted_sp :: "'a sp_tree \<Rightarrow> bool" where
  "sorted_sp t \<longleftrightarrow> sorted_wrt (\<lambda>a b. cmp a b < 0) (sp_inorder t)"

lemma splay_splits:
  assumes "t \<noteq> SP_NULL" and "sorted_sp t"
  obtains l x r where "splay cmp elm t = Ret (SP_NODE l x r)" and "sp_inorder t = sp_inorder l @ x # sp_inorder r"
    and "lefts_ok elm (sp_inorder l)" and "rights_ok elm (sp_inorder r)" and "sorted_sp (SP_NODE l x r)"
proof -
  have "sp_result (splay cmp elm t) (\<lambda>l x r. sp_inorder (SP_NODE l x r) = sp_inorder t)"
    using splay_loop_inorder [OF assms(1), of cmp elm "[]" "[]"] by (simp add: splay_def sp_parts_def)
  moreover have "sp_result (splay cmp elm t) (\<lambda>l x r. lefts_ok elm (sp_inorder l) \<and> rights_ok elm (sp_inorder r))"
    unfolding splay_def by (rule splay_loop_splits) (use assms in \<open>simp_all add: sorted_sp_def side_ok\<close>)
  ultimately show thesis using that assms(2) by (auto simp: sp_result_def sorted_sp_def)
qed

text \<open>The operations on an ordered tree.\<close>

lemma splay_find_finds:
  assumes "sorted_sp t"
  shows "\<exists>res t'. splay_find cmp elm t = Ret (res, t') \<and> sp_inorder t' = sp_inorder t \<and>
    (case res of Some x \<Rightarrow> x \<in> set (sp_inorder t) \<and> cmp elm x = 0 | None \<Rightarrow> \<forall>x \<in> set (sp_inorder t). cmp elm x \<noteq> 0)"
proof (cases "t = SP_NULL")
  case False
  from splay_splits [OF False assms, of elm] obtain l x r where "splay cmp elm t = Ret (SP_NODE l x r)"
    "sp_inorder t = sp_inorder l @ x # sp_inorder r" "lefts_ok elm (sp_inorder l)" "rights_ok elm (sp_inorder r)" by metis
  with False show ?thesis by (auto simp: splay_find_def lefts_ok_def rights_ok_def)
qed (simp add: splay_find_def)

lemma splay_insert_inserts:
  assumes "sorted_sp t" and "\<forall>y \<in> set (sp_inorder t). cmp elm y \<noteq> 0"
  shows "\<exists>t' xs ys. splay_insert cmp elm t = Ret (None, t') \<and> sorted_sp t' \<and> sp_inorder t = xs @ ys \<and> sp_inorder t' = xs @ elm # ys"
proof (cases "t = SP_NULL")
  case False
  from splay_splits [OF False assms(1), of elm] obtain l x r where s: "splay cmp elm t = Ret (SP_NODE l x r)"
    "sp_inorder t = sp_inorder l @ x # sp_inorder r" "lefts_ok elm (sp_inorder l)" "rights_ok elm (sp_inorder r)"
    "sorted_sp (SP_NODE l x r)" by metis
  have l: "\<forall>y \<in> set (sp_inorder l). cmp y elm < 0" using s(3) cmp_anti by (auto simp: lefts_ok_def)
  have r: "\<forall>y \<in> set (sp_inorder r). cmp elm y < 0" using s(4) by (simp add: rights_ok_def)
  consider "cmp elm x < 0" | "0 < cmp elm x" using assms(2) s(2) by fastforce
  then show ?thesis
  proof cases
    case 1
    then show ?thesis using False s l r
      by (intro exI [of _ "SP_NODE l elm (SP_NODE SP_NULL x r)"] exI [of _ "sp_inorder l"] exI [of _ "x # sp_inorder r"])
        (auto simp: splay_insert_def sorted_sp_def sorted_wrt_append)
  next
    case 2
    then show ?thesis using False s l r cmp_anti [of x elm]
      by (intro exI [of _ "SP_NODE (SP_NODE l x SP_NULL) elm r"] exI [of _ "sp_inorder l @ [x]"] exI [of _ "sp_inorder r"])
        (auto simp: splay_insert_def sorted_sp_def sorted_wrt_append)
  qed
qed (simp add: splay_insert_def sorted_sp_def)

lemma splay_remove_removes:
  assumes "sorted_sp t" and "elm \<in> set (sp_inorder t)"
  shows "\<exists>t'. splay_remove cmp elm t = Ret (Some elm, t') \<and> sorted_sp t' \<and> sp_inorder t' = remove1 elm (sp_inorder t)"
proof -
  have ne: "t \<noteq> SP_NULL" using assms(2) by auto
  from splay_splits [OF ne assms(1), of elm] obtain l x r where s: "splay cmp elm t = Ret (SP_NODE l x r)"
    "sp_inorder t = sp_inorder l @ x # sp_inorder r" "lefts_ok elm (sp_inorder l)" "rights_ok elm (sp_inorder r)"
    "sorted_sp (SP_NODE l x r)" by metis
  have z: "cmp elm elm = 0" using cmp_anti [of elm elm] by linarith
  then have x: "x = elm" "elm \<notin> set (sp_inorder l)" using assms(2) s(2-4) by (auto simp: lefts_ok_def rights_ok_def)
  have sl: "sorted_sp l" "sorted_sp r" using s(5) by (auto simp: sorted_sp_def sorted_wrt_append)
  have rem: "remove1 elm (sp_inorder t) = sp_inorder l @ sp_inorder r" using x by (simp add: s(2) remove1_append)
  have sorted: "sorted_wrt (\<lambda>a b. cmp a b < 0) (sp_inorder l @ sp_inorder r)"
    using s(5) by (auto simp: sorted_sp_def sorted_wrt_append)
  show ?thesis
  proof (cases "l = SP_NULL")
    case True
    then show ?thesis using ne s(1) x z rem sl by (intro exI [of _ r]) (simp add: splay_remove_def)
  next
    case False
    from splay_splits [OF False sl(1), of elm] obtain ll y lr where m: "splay cmp elm l = Ret (SP_NODE ll y lr)"
      "sp_inorder l = sp_inorder ll @ y # sp_inorder lr" "rights_ok elm (sp_inorder lr)" by metis
    have "sp_inorder lr = []" using m(2,3) s(3) by (cases "sp_inorder lr") (auto simp: lefts_ok_def rights_ok_def)
    then show ?thesis using ne False s(1) x z m rem sorted
      by (intro exI [of _ "SP_NODE ll y r"]) (auto simp: splay_remove_def sorted_sp_def)
  qed
qed

end

section \<open>Least element and successor\<close>

lemma splay_minmax_least:
  "val < 0 \<Longrightarrow> t \<noteq> SP_NULL \<Longrightarrow> \<exists>x r. splay_minmax_loop val t [] rs = Some (Ret (SP_NODE SP_NULL x r)) \<and>
     x # sp_inorder r = sp_parts [] t rs"
proof (induction t arbitrary: rs rule: measure_induct_rule [where f = size])
  case (less t)
  then obtain l x r where t: "t = SP_NODE l x r" by (cases t) auto
  show ?case
  proof (cases l)
    case SP_NULL
    then show ?thesis using less.prems inorder_plug_right [of r rs] by (simp add: t splay_assemble_def sp_parts_def)
  next
    case (SP_NODE ll y lr)
    have parts: "sp_parts [] ll ((y, SP_NODE lr x r) # rs) = sp_parts [] t rs"
      by (simp add: sp_parts_simps) (simp add: sp_parts_def t SP_NODE)
    show ?thesis
    proof (cases "ll = SP_NULL")
      case True
      then show ?thesis using less.prems inorder_plug_right [of "SP_NODE lr x r" rs]
        by (simp add: t SP_NODE splay_assemble_def sp_parts_def)
    next
      case False
      then show ?thesis using less.prems less.IH [of ll "(y, SP_NODE lr x r) # rs"] parts by (auto simp: t SP_NODE)
    qed
  qed
qed

lemma splay_min_first:
  "splay_min t = Some (Ret (m, t')) \<Longrightarrow> sp_inorder t' = sp_inorder t \<and> m = (case sp_inorder t of [] \<Rightarrow> None | x # _ \<Rightarrow> Some x)"
  "\<exists>m t'. splay_min t = Some (Ret (m, t'))"
proof -
  have "\<exists>m t'. splay_min t = Some (Ret (m, t')) \<and> sp_inorder t' = sp_inorder t \<and>
      m = (case sp_inorder t of [] \<Rightarrow> None | x # _ \<Rightarrow> Some x)"
  proof (cases "t = SP_NULL")
    case False
    obtain x r where "splay_minmax_loop (- 1) t [] [] = Some (Ret (SP_NODE SP_NULL x r))" "x # sp_inorder r = sp_inorder t"
      using splay_minmax_least [OF _ False, of "- 1" "[]"] by (auto simp: sp_parts_def)
    with False show ?thesis by (auto simp: splay_min_def splay_min_max_def simp flip: \<open>x # sp_inorder r = sp_inorder t\<close>)
  qed (simp add: splay_min_def)
  then show "splay_min t = Some (Ret (m, t')) \<Longrightarrow> sp_inorder t' = sp_inorder t \<and> m = (case sp_inorder t of [] \<Rightarrow> None | x # _ \<Rightarrow> Some x)"
    and "\<exists>m t'. splay_min t = Some (Ret (m, t'))" by auto
qed

lemma sp_leftmost_first: "sp_leftmost t = (case sp_inorder t of [] \<Rightarrow> None | x # _ \<Rightarrow> Some x)"
proof (induction t)
  case (SP_NODE l x r)
  then show ?case by (cases "l = SP_NULL") (auto split: list.split)
qed simp

context rb_order
begin

lemma splay_next_successor:
  assumes "sorted_sp t" and "sp_inorder t = xs @ elm # ys"
  shows "\<exists>t'. splay_next cmp elm t = Ret (case ys of [] \<Rightarrow> None | y # _ \<Rightarrow> Some y, t') \<and> sp_inorder t' = sp_inorder t"
proof -
  have ne: "t \<noteq> SP_NULL" using assms(2) by auto
  from splay_splits [OF ne assms(1), of elm] obtain l x r where s: "splay cmp elm t = Ret (SP_NODE l x r)"
    "sp_inorder t = sp_inorder l @ x # sp_inorder r" "lefts_ok elm (sp_inorder l)" "rights_ok elm (sp_inorder r)" by metis
  have z: "cmp elm elm = 0" using cmp_anti [of elm elm] by linarith
  then have out: "elm \<notin> set (sp_inorder l)" "elm \<notin> set (sp_inorder r)" using s(3,4) by (auto simp: lefts_ok_def rights_ok_def)
  have "elm \<in> set (sp_inorder t)" using assms(2) by simp
  then have x: "x = elm" using out s(2) by auto
  have "sp_inorder l @ elm # sp_inorder r = xs @ elm # ys" using s(2) assms(2) x by simp
  then have "sp_inorder r = ys" using out by (simp add: append_Cons_eq_iff)
  then show ?thesis using s x by (auto simp: splay_next_def sp_leftmost_first)
qed

end

section \<open>Ordered sets again\<close>

text \<open>
  A user of the trees can be moved from the RB macros to the SPLAY macros: both keep the laws of
  \<open>ordered_set\<close>, here with the results of the macros read off their outcomes.
\<close>

definition splay_set_insert :: "('a \<Rightarrow> 'a \<Rightarrow> int) \<Rightarrow> 'a \<Rightarrow> 'a sp_tree \<Rightarrow> ('a option \<times> 'a sp_tree) option" where
  "splay_set_insert cmp x t = (case splay_insert cmp x t of Ret y \<Rightarrow> Some y | _ \<Rightarrow> None)"

definition splay_set_remove :: "('a \<Rightarrow> 'a \<Rightarrow> int) \<Rightarrow> 'a \<Rightarrow> 'a sp_tree \<Rightarrow> 'a sp_tree option" where
  "splay_set_remove cmp x t = (case splay_remove cmp x t of Ret (Some y, t) \<Rightarrow> Some t | _ \<Rightarrow> None)"

definition splay_set_min :: "'a sp_tree \<Rightarrow> 'a option" where
  "splay_set_min t = (case splay_min t of Some (Ret (m, t)) \<Rightarrow> m | _ \<Rightarrow> None)"

sublocale rb_order \<subseteq> splay: ordered_set "\<lambda>a b. cmp a b < 0" "\<lambda>a b. cmp a b = 0"
    sorted_sp sp_inorder "splay_set_insert cmp" "splay_set_remove cmp" splay_set_min
proof
  fix t :: "'a sp_tree" and x :: 'a
  assume t: "sorted_sp t"
  then show "distinct (sp_inorder t)" by (simp add: sorted_sp_def sorted_wrt_distinct)
  from t show "sorted_wrt (\<lambda>a b. cmp a b < 0) (sp_inorder t)" by (simp add: sorted_sp_def)
  show "\<exists>t'. splay_set_insert cmp x t = Some (None, t') \<and> sorted_sp t' \<and> set (sp_inorder t') = insert x (set (sp_inorder t))"
    if "\<forall>y \<in> set (sp_inorder t). \<not> cmp x y = 0"
    using splay_insert_inserts [OF t, of x] that by (auto simp: splay_set_insert_def)
  show "\<exists>t'. splay_set_remove cmp x t = Some t' \<and> sorted_sp t' \<and> sp_inorder t' = remove1 x (sp_inorder t)"
    if "x \<in> set (sp_inorder t)"
    using splay_remove_removes [OF t that] by (auto simp: splay_set_remove_def)
  show "splay_set_min t = (case sp_inorder t of [] \<Rightarrow> None | x # _ \<Rightarrow> Some x)"
    using splay_min_first(2) [of t] splay_min_first(1) [of t] by (auto simp: splay_set_min_def)
qed

lemma strictly_sorted_unique:
  assumes "\<And>a b. P a b \<Longrightarrow> \<not> P b a"
  shows "sorted_wrt P xs \<Longrightarrow> sorted_wrt P ys \<Longrightarrow> set xs = set ys \<Longrightarrow> xs = ys"
proof (induction xs arbitrary: ys)
  case (Cons x xs)
  from Cons.prems(3) obtain y zs where ys: "ys = y # zs" by (cases ys) auto
  have "x = y" using Cons.prems assms unfolding ys by (metis list.set_intros(1) set_ConsD sorted_wrt.simps(2))
  moreover have "x \<notin> set xs" "y \<notin> set zs" using Cons.prems(1,2) assms by (auto simp: ys)
  ultimately have "set xs = set zs" using Cons.prems(3) by (auto simp: ys)
  with Cons.IH [of zs] Cons.prems(1,2) \<open>x = y\<close> show ?case by (simp add: ys)
qed simp

text \<open>
  C40. A splay tree and a red-black tree behave alike: with a comparison that is a total preorder, on trees
  that hold the same elements in order, the two insertions of an element without an equal, the
  two removals of an element, and the two searches for the least element have the same
  outcome, and leave trees that hold the same elements in the same order again; none of the
  macros dereferences \<open>NULL\<close>.
\<close>

theorem splay_agrees_with_rb:
  assumes "\<And>a b. cmp a b < 0 \<longleftrightarrow> 0 < cmp b a"
    and "\<And>a b c. cmp a b \<le> 0 \<Longrightarrow> cmp b c < 0 \<Longrightarrow> cmp a c < 0"
    and "\<And>a b c. cmp a b < 0 \<Longrightarrow> cmp b c \<le> 0 \<Longrightarrow> cmp a c < 0"
    and "rb_ok u" and "sorted_wrt (\<lambda>a b. cmp a b < 0) (rb_inorder u)" and "sp_inorder t = rb_inorder u"
  shows "((\<forall>y \<in> set (rb_inorder u). cmp x y \<noteq> 0) \<longrightarrow>
      (\<exists>t' u'. splay_insert cmp x t = Ret (None, t') \<and> rb_insert cmp x u = Some (None, u') \<and> sp_inorder t' = rb_inorder u')) \<and>
    (x \<in> set (rb_inorder u) \<longrightarrow>
      (\<exists>t' u'. splay_remove cmp x t = Ret (Some x, t') \<and> rb_remove x u = Some u' \<and> sp_inorder t' = rb_inorder u')) \<and>
    (\<exists>t'. splay_min t = Some (Ret (rb_min u, t')) \<and> sp_inorder t' = rb_inorder u)"
proof -
  have order: "rb_order cmp" by (rule rb_order.intro) (fact assms)+
  have u: "rb_order.sorted_tree cmp u" using assms(4,5) by (simp add: rb_order.sorted_tree_def [OF order])
  have t: "rb_order.sorted_sp cmp t" using assms(5,6) by (simp add: rb_order.sorted_sp_def [OF order])
  show ?thesis
  proof (intro conjI impI)
    assume new: "\<forall>y \<in> set (rb_inorder u). cmp x y \<noteq> 0"
    obtain u' where u': "rb_insert cmp x u = Some (None, u')" "rb_order.sorted_tree cmp u'"
        "set (rb_inorder u') = insert x (set (rb_inorder u))"
      using rb_order.insert_new [OF order u new] by auto
    obtain t' where t': "splay_insert cmp x t = Ret (None, t')" "rb_order.sorted_sp cmp t'"
        "set (sp_inorder t') = insert x (set (sp_inorder t))"
      using rb_order.splay_insert_inserts [OF order t, of x] new assms(6) by auto
    have "sp_inorder t' = rb_inorder u'"
    proof (rule strictly_sorted_unique)
      show "cmp a b < 0 \<Longrightarrow> \<not> cmp b a < 0" for a b using assms(1) [of a b] by linarith
    qed (use u'(2,3) t'(2,3) assms(6) in \<open>auto simp: rb_order.sorted_tree_def [OF order] rb_order.sorted_sp_def [OF order]\<close>)
    with t'(1) u'(1) show "\<exists>t' u'. splay_insert cmp x t = Ret (None, t') \<and> rb_insert cmp x u = Some (None, u') \<and>
      sp_inorder t' = rb_inorder u'" by blast
  next
    assume "x \<in> set (rb_inorder u)"
    with rb_order.remove_present [OF order u, of x] rb_order.splay_remove_removes [OF order t, of x] assms(6)
    show "\<exists>t' u'. splay_remove cmp x t = Ret (Some x, t') \<and> rb_remove x u = Some u' \<and> sp_inorder t' = rb_inorder u'" by auto
  next
    obtain m t' where "splay_min t = Some (Ret (m, t'))" using splay_min_first(2) by blast
    with splay_min_first(1) [OF this] assms(6)
    show "\<exists>t'. splay_min t = Some (Ret (rb_min u, t')) \<and> sp_inorder t' = rb_inorder u"
      by (simp add: rb_min_inorder)
  qed
qed

lemma splay_agrees_with_rb_witness:
  "\<exists>t' u'. splay_insert (\<lambda>a b :: int. a - b) 2 (SP_NODE SP_NULL 1 (SP_NODE SP_NULL 3 SP_NULL)) = Ret (None, t') \<and>
     rb_insert (\<lambda>a b :: int. a - b) 2 (RB_NODE RB_NULL 1 RB_BLACK (RB_NODE RB_NULL 3 RB_RED RB_NULL)) = Some (None, u') \<and>
     sp_inorder t' = rb_inorder u'"
proof -
  have ok: "rb_ok (RB_NODE RB_NULL (1 :: int) RB_BLACK (RB_NODE RB_NULL 3 RB_RED RB_NULL))" by (simp add: rb_ok_def)
  show ?thesis
    using splay_agrees_with_rb [of "\<lambda>a b :: int. a - b" "RB_NODE RB_NULL 1 RB_BLACK (RB_NODE RB_NULL 3 RB_RED RB_NULL)"
      "SP_NODE SP_NULL 1 (SP_NODE SP_NULL 3 SP_NULL)" 2] ok by simp
qed

end
