(* ===== verification/UvError.thy ===== *)
theory UvError
  imports Prelude
begin

text \<open>
  Error codes and error state: the map \<open>UV_ERRNO_MAP\<close> of \<open>include/uv.h\<close>, the translation of
  \<open>errno\<close> values of \<open>src/unix/error.c\<close> (Linux values, see the prelude) and the error
  functions of \<open>src/uv-common.c\<close>.
\<close>

section \<open>Codes\<close>

datatype (plugins only: code) uv_err_code =
    UV_UNKNOWN | UV_OK | UV_EOF | UV_EADDRINFO | UV_EACCES
  | UV_EAGAIN | UV_EADDRINUSE | UV_EADDRNOTAVAIL | UV_EAFNOSUPPORT | UV_EALREADY
  | UV_EBADF | UV_EBUSY | UV_ECONNABORTED | UV_ECONNREFUSED | UV_ECONNRESET
  | UV_EDESTADDRREQ | UV_EFAULT | UV_EHOSTUNREACH | UV_EINTR | UV_EINVAL
  | UV_EISCONN | UV_EMFILE | UV_EMSGSIZE | UV_ENETDOWN | UV_ENETUNREACH
  | UV_ENFILE | UV_ENOBUFS | UV_ENOMEM | UV_ENOTDIR | UV_EISDIR
  | UV_ENONET | UV_ENOTCONN | UV_ENOTSOCK | UV_ENOTSUP | UV_ENOENT
  | UV_ENOSYS | UV_EPIPE | UV_EPROTO | UV_EPROTONOSUPPORT | UV_EPROTOTYPE
  | UV_ETIMEDOUT | UV_ECHARSET | UV_EAIFAMNOSUPPORT | UV_EAISERVICE | UV_EAISOCKTYPE
  | UV_ESHUTDOWN | UV_EEXIST | UV_ESRCH | UV_ENAMETOOLONG | UV_EPERM
  | UV_ELOOP | UV_EXDEV | UV_ENOTEMPTY | UV_ENOSPC | UV_EIO
  | UV_EROFS | UV_ENODEV | UV_ESPIPE | UV_ECANCELED

text \<open>The numeric values of the enumeration.\<close>

primrec uv_err_val :: "uv_err_code \<Rightarrow> int" where
  "uv_err_val UV_UNKNOWN = - 1"
| "uv_err_val UV_OK = 0"
| "uv_err_val UV_EOF = 1"
| "uv_err_val UV_EADDRINFO = 2"
| "uv_err_val UV_EACCES = 3"
| "uv_err_val UV_EAGAIN = 4"
| "uv_err_val UV_EADDRINUSE = 5"
| "uv_err_val UV_EADDRNOTAVAIL = 6"
| "uv_err_val UV_EAFNOSUPPORT = 7"
| "uv_err_val UV_EALREADY = 8"
| "uv_err_val UV_EBADF = 9"
| "uv_err_val UV_EBUSY = 10"
| "uv_err_val UV_ECONNABORTED = 11"
| "uv_err_val UV_ECONNREFUSED = 12"
| "uv_err_val UV_ECONNRESET = 13"
| "uv_err_val UV_EDESTADDRREQ = 14"
| "uv_err_val UV_EFAULT = 15"
| "uv_err_val UV_EHOSTUNREACH = 16"
| "uv_err_val UV_EINTR = 17"
| "uv_err_val UV_EINVAL = 18"
| "uv_err_val UV_EISCONN = 19"
| "uv_err_val UV_EMFILE = 20"
| "uv_err_val UV_EMSGSIZE = 21"
| "uv_err_val UV_ENETDOWN = 22"
| "uv_err_val UV_ENETUNREACH = 23"
| "uv_err_val UV_ENFILE = 24"
| "uv_err_val UV_ENOBUFS = 25"
| "uv_err_val UV_ENOMEM = 26"
| "uv_err_val UV_ENOTDIR = 27"
| "uv_err_val UV_EISDIR = 28"
| "uv_err_val UV_ENONET = 29"
| "uv_err_val UV_ENOTCONN = 31"
| "uv_err_val UV_ENOTSOCK = 32"
| "uv_err_val UV_ENOTSUP = 33"
| "uv_err_val UV_ENOENT = 34"
| "uv_err_val UV_ENOSYS = 35"
| "uv_err_val UV_EPIPE = 36"
| "uv_err_val UV_EPROTO = 37"
| "uv_err_val UV_EPROTONOSUPPORT = 38"
| "uv_err_val UV_EPROTOTYPE = 39"
| "uv_err_val UV_ETIMEDOUT = 40"
| "uv_err_val UV_ECHARSET = 41"
| "uv_err_val UV_EAIFAMNOSUPPORT = 42"
| "uv_err_val UV_EAISERVICE = 44"
| "uv_err_val UV_EAISOCKTYPE = 45"
| "uv_err_val UV_ESHUTDOWN = 46"
| "uv_err_val UV_EEXIST = 47"
| "uv_err_val UV_ESRCH = 48"
| "uv_err_val UV_ENAMETOOLONG = 49"
| "uv_err_val UV_EPERM = 50"
| "uv_err_val UV_ELOOP = 51"
| "uv_err_val UV_EXDEV = 52"
| "uv_err_val UV_ENOTEMPTY = 53"
| "uv_err_val UV_ENOSPC = 54"
| "uv_err_val UV_EIO = 55"
| "uv_err_val UV_EROFS = 56"
| "uv_err_val UV_ENODEV = 57"
| "uv_err_val UV_ESPIPE = 58"
| "uv_err_val UV_ECANCELED = 59"

primrec uv_err_name :: "uv_err_code \<Rightarrow> string" where
  "uv_err_name UV_UNKNOWN = ''UNKNOWN''"
| "uv_err_name UV_OK = ''OK''"
| "uv_err_name UV_EOF = ''EOF''"
| "uv_err_name UV_EADDRINFO = ''EADDRINFO''"
| "uv_err_name UV_EACCES = ''EACCES''"
| "uv_err_name UV_EAGAIN = ''EAGAIN''"
| "uv_err_name UV_EADDRINUSE = ''EADDRINUSE''"
| "uv_err_name UV_EADDRNOTAVAIL = ''EADDRNOTAVAIL''"
| "uv_err_name UV_EAFNOSUPPORT = ''EAFNOSUPPORT''"
| "uv_err_name UV_EALREADY = ''EALREADY''"
| "uv_err_name UV_EBADF = ''EBADF''"
| "uv_err_name UV_EBUSY = ''EBUSY''"
| "uv_err_name UV_ECONNABORTED = ''ECONNABORTED''"
| "uv_err_name UV_ECONNREFUSED = ''ECONNREFUSED''"
| "uv_err_name UV_ECONNRESET = ''ECONNRESET''"
| "uv_err_name UV_EDESTADDRREQ = ''EDESTADDRREQ''"
| "uv_err_name UV_EFAULT = ''EFAULT''"
| "uv_err_name UV_EHOSTUNREACH = ''EHOSTUNREACH''"
| "uv_err_name UV_EINTR = ''EINTR''"
| "uv_err_name UV_EINVAL = ''EINVAL''"
| "uv_err_name UV_EISCONN = ''EISCONN''"
| "uv_err_name UV_EMFILE = ''EMFILE''"
| "uv_err_name UV_EMSGSIZE = ''EMSGSIZE''"
| "uv_err_name UV_ENETDOWN = ''ENETDOWN''"
| "uv_err_name UV_ENETUNREACH = ''ENETUNREACH''"
| "uv_err_name UV_ENFILE = ''ENFILE''"
| "uv_err_name UV_ENOBUFS = ''ENOBUFS''"
| "uv_err_name UV_ENOMEM = ''ENOMEM''"
| "uv_err_name UV_ENOTDIR = ''ENOTDIR''"
| "uv_err_name UV_EISDIR = ''EISDIR''"
| "uv_err_name UV_ENONET = ''ENONET''"
| "uv_err_name UV_ENOTCONN = ''ENOTCONN''"
| "uv_err_name UV_ENOTSOCK = ''ENOTSOCK''"
| "uv_err_name UV_ENOTSUP = ''ENOTSUP''"
| "uv_err_name UV_ENOENT = ''ENOENT''"
| "uv_err_name UV_ENOSYS = ''ENOSYS''"
| "uv_err_name UV_EPIPE = ''EPIPE''"
| "uv_err_name UV_EPROTO = ''EPROTO''"
| "uv_err_name UV_EPROTONOSUPPORT = ''EPROTONOSUPPORT''"
| "uv_err_name UV_EPROTOTYPE = ''EPROTOTYPE''"
| "uv_err_name UV_ETIMEDOUT = ''ETIMEDOUT''"
| "uv_err_name UV_ECHARSET = ''ECHARSET''"
| "uv_err_name UV_EAIFAMNOSUPPORT = ''EAIFAMNOSUPPORT''"
| "uv_err_name UV_EAISERVICE = ''EAISERVICE''"
| "uv_err_name UV_EAISOCKTYPE = ''EAISOCKTYPE''"
| "uv_err_name UV_ESHUTDOWN = ''ESHUTDOWN''"
| "uv_err_name UV_EEXIST = ''EEXIST''"
| "uv_err_name UV_ESRCH = ''ESRCH''"
| "uv_err_name UV_ENAMETOOLONG = ''ENAMETOOLONG''"
| "uv_err_name UV_EPERM = ''EPERM''"
| "uv_err_name UV_ELOOP = ''ELOOP''"
| "uv_err_name UV_EXDEV = ''EXDEV''"
| "uv_err_name UV_ENOTEMPTY = ''ENOTEMPTY''"
| "uv_err_name UV_ENOSPC = ''ENOSPC''"
| "uv_err_name UV_EIO = ''EIO''"
| "uv_err_name UV_EROFS = ''EROFS''"
| "uv_err_name UV_ENODEV = ''ENODEV''"
| "uv_err_name UV_ESPIPE = ''ESPIPE''"
| "uv_err_name UV_ECANCELED = ''ECANCELED''"

primrec uv_strerror :: "uv_err_code \<Rightarrow> string" where
  "uv_strerror UV_UNKNOWN = ''unknown error''"
| "uv_strerror UV_OK = ''success''"
| "uv_strerror UV_EOF = ''end of file''"
| "uv_strerror UV_EADDRINFO = ''getaddrinfo error''"
| "uv_strerror UV_EACCES = ''permission denied''"
| "uv_strerror UV_EAGAIN = ''resource temporarily unavailable''"
| "uv_strerror UV_EADDRINUSE = ''address already in use''"
| "uv_strerror UV_EADDRNOTAVAIL = ''address not available''"
| "uv_strerror UV_EAFNOSUPPORT = ''address family not supported''"
| "uv_strerror UV_EALREADY = ''connection already in progress''"
| "uv_strerror UV_EBADF = ''bad file descriptor''"
| "uv_strerror UV_EBUSY = ''resource busy or locked''"
| "uv_strerror UV_ECONNABORTED = ''software caused connection abort''"
| "uv_strerror UV_ECONNREFUSED = ''connection refused''"
| "uv_strerror UV_ECONNRESET = ''connection reset by peer''"
| "uv_strerror UV_EDESTADDRREQ = ''destination address required''"
| "uv_strerror UV_EFAULT = ''bad address in system call argument''"
| "uv_strerror UV_EHOSTUNREACH = ''host is unreachable''"
| "uv_strerror UV_EINTR = ''interrupted system call''"
| "uv_strerror UV_EINVAL = ''invalid argument''"
| "uv_strerror UV_EISCONN = ''socket is already connected''"
| "uv_strerror UV_EMFILE = ''too many open files''"
| "uv_strerror UV_EMSGSIZE = ''message too long''"
| "uv_strerror UV_ENETDOWN = ''network is down''"
| "uv_strerror UV_ENETUNREACH = ''network is unreachable''"
| "uv_strerror UV_ENFILE = ''file table overflow''"
| "uv_strerror UV_ENOBUFS = ''no buffer space available''"
| "uv_strerror UV_ENOMEM = ''not enough memory''"
| "uv_strerror UV_ENOTDIR = ''not a directory''"
| "uv_strerror UV_EISDIR = ''illegal operation on a directory''"
| "uv_strerror UV_ENONET = ''machine is not on the network''"
| "uv_strerror UV_ENOTCONN = ''socket is not connected''"
| "uv_strerror UV_ENOTSOCK = ''socket operation on non-socket''"
| "uv_strerror UV_ENOTSUP = ''operation not supported on socket''"
| "uv_strerror UV_ENOENT = ''no such file or directory''"
| "uv_strerror UV_ENOSYS = ''function not implemented''"
| "uv_strerror UV_EPIPE = ''broken pipe''"
| "uv_strerror UV_EPROTO = ''protocol error''"
| "uv_strerror UV_EPROTONOSUPPORT = ''protocol not supported''"
| "uv_strerror UV_EPROTOTYPE = ''protocol wrong type for socket''"
| "uv_strerror UV_ETIMEDOUT = ''connection timed out''"
| "uv_strerror UV_ECHARSET = ''invalid Unicode character''"
| "uv_strerror UV_EAIFAMNOSUPPORT = ''address family for hostname not supported''"
| "uv_strerror UV_EAISERVICE = ''servname not supported for ai_socktype''"
| "uv_strerror UV_EAISOCKTYPE = ''ai_socktype not supported''"
| "uv_strerror UV_ESHUTDOWN = ''cannot send after transport endpoint shutdown''"
| "uv_strerror UV_EEXIST = ''file already exists''"
| "uv_strerror UV_ESRCH = ''no such process''"
| "uv_strerror UV_ENAMETOOLONG = ''name too long''"
| "uv_strerror UV_EPERM = ''operation not permitted''"
| "uv_strerror UV_ELOOP = ''too many symbolic links encountered''"
| "uv_strerror UV_EXDEV = ''cross-device link not permitted''"
| "uv_strerror UV_ENOTEMPTY = ''directory not empty''"
| "uv_strerror UV_ENOSPC = ''no space left on device''"
| "uv_strerror UV_EIO = ''i/o error''"
| "uv_strerror UV_EROFS = ''read-only file system''"
| "uv_strerror UV_ENODEV = ''no such device''"
| "uv_strerror UV_ESPIPE = ''invalid seek''"
| "uv_strerror UV_ECANCELED = ''operation canceled''"

text \<open>
  The cases of the \<open>switch\<close> of \<open>uv_translate_sys_error\<close> in its own order. \<open>EWOULDBLOCK\<close> equals \<open>EAGAIN\<close>
  on Linux, so that its case is compiled out; \<open>EAI_NONAME\<close> is one of the cases.
\<close>

definition errno_table :: "(int \<times> uv_err_code) list" where
  "errno_table =
    [(0, UV_OK), (EIO, UV_EIO), (EPERM, UV_EPERM),
     (ENOSYS, UV_ENOSYS), (ENOTSOCK, UV_ENOTSOCK), (ENOENT, UV_ENOENT),
     (EACCES, UV_EACCES), (EAFNOSUPPORT, UV_EAFNOSUPPORT), (EBADF, UV_EBADF),
     (EPIPE, UV_EPIPE), (ESPIPE, UV_ESPIPE), (EAGAIN, UV_EAGAIN),
     (ECONNRESET, UV_ECONNRESET), (EFAULT, UV_EFAULT), (EMFILE, UV_EMFILE),
     (EMSGSIZE, UV_EMSGSIZE), (ENAMETOOLONG, UV_ENAMETOOLONG), (EINVAL, UV_EINVAL),
     (ENETUNREACH, UV_ENETUNREACH), (ECONNABORTED, UV_ECONNABORTED), (ELOOP, UV_ELOOP),
     (ECONNREFUSED, UV_ECONNREFUSED), (EADDRINUSE, UV_EADDRINUSE), (EADDRNOTAVAIL, UV_EADDRNOTAVAIL),
     (ENOTDIR, UV_ENOTDIR), (EISDIR, UV_EISDIR), (ENODEV, UV_ENODEV),
     (ENOTCONN, UV_ENOTCONN), (EEXIST, UV_EEXIST), (EHOSTUNREACH, UV_EHOSTUNREACH),
     (EAI_NONAME, UV_ENOENT), (ESRCH, UV_ESRCH), (ETIMEDOUT, UV_ETIMEDOUT),
     (EXDEV, UV_EXDEV), (EBUSY, UV_EBUSY), (ENOTEMPTY, UV_ENOTEMPTY),
     (ENOSPC, UV_ENOSPC), (EROFS, UV_EROFS), (ENOMEM, UV_ENOMEM),
     (EDQUOT, UV_ENOSPC)]"

definition uv_translate_sys_error :: "int \<Rightarrow> uv_err_code" where
  "uv_translate_sys_error e =
     (case map_of errno_table e of Some c \<Rightarrow> c | None \<Rightarrow> UV_UNKNOWN)"

section \<open>The error state\<close>

record uv_err =
  err_code :: uv_err_code
  sys_errno :: int

definition uv_ok_err :: uv_err where
  "uv_ok_err = \<lparr>err_code = UV_OK, sys_errno = 0\<rparr>"

definition uv__new_sys_error :: "int \<Rightarrow> uv_err" where
  "uv__new_sys_error sys_error =
     \<lparr>err_code = uv_translate_sys_error sys_error, sys_errno = sys_error\<rparr>"

definition uv__new_artificial_error :: "uv_err_code \<Rightarrow> uv_err" where
  "uv__new_artificial_error c = \<lparr>err_code = c, sys_errno = 0\<rparr>"

section \<open>Properties\<close>

lemma errno_table_distinct: "distinct (map fst errno_table)"
  by (simp add: errno_table_def)

lemma uv_translate_table: "(e, c) \<in> set errno_table \<Longrightarrow> uv_translate_sys_error e = c"
  using errno_table_distinct by (simp add: uv_translate_sys_error_def)

lemma uv_translate_unknown: "e \<notin> fst ` set errno_table \<Longrightarrow> uv_translate_sys_error e = UV_UNKNOWN"
  by (simp add: uv_translate_sys_error_def map_of_eq_None_iff [symmetric] split: option.split)

lemma uv_translate_zero: "uv_translate_sys_error e = UV_OK \<longleftrightarrow> e = 0"
  by (auto simp: uv_translate_sys_error_def errno_table_def split: if_splits)

lemma uv_new_sys_error_ok: "err_code (uv__new_sys_error e) = UV_OK \<longleftrightarrow> e = 0"
  by (simp add: uv__new_sys_error_def uv_translate_zero)

end
