(* ===== verification/Handle.thy ===== *)
theory Handle
  imports UvError
begin

text \<open>
  Handles, requests and the liveness of a loop: the inline functions of \<open>src/uv-common.h\<close>,
  the error functions and \<open>uv_ref\<close>, \<open>uv_unref\<close>, \<open>uv_walk\<close> of \<open>src/uv-common.c\<close>, and
  \<open>uv_is_active\<close>, \<open>uv_is_closing\<close>, \<open>uv__make_close_pending\<close>, \<open>uv__loop_alive\<close> of
  \<open>src/unix/core.c\<close>.

  A handle or a request is named by its address, a \<open>nat\<close>. The record \<open>uv_loop\<close> holds the
  fields of \<open>uv_loop_t\<close> that every handle uses; the theories of the handle types extend it.
  \<open>UV__HANDLE_CLOSING\<close> is 0 on Unix, so that the tests of it in the code never succeed.
\<close>

section \<open>Types\<close>

datatype (plugins only: code) uv_handle_type =
    UV_UNKNOWN_HANDLE | UV_ASYNC | UV_CHECK | UV_FS_EVENT | UV_FS_POLL | UV_HANDLE | UV_IDLE
  | UV_NAMED_PIPE | UV_POLL | UV_PREPARE | UV_PROCESS | UV_STREAM | UV_TCP | UV_TIMER | UV_TTY
  | UV_UDP | UV_SIGNAL | UV_FILE

datatype (plugins only: code) uv_req_type =
    UV_UNKNOWN_REQ | UV_REQ | UV_CONNECT | UV_WRITE | UV_SHUTDOWN | UV_UDP_SEND | UV_FS | UV_WORK
  | UV_GETADDRINFO

abbreviation (input) UV__HANDLE_INTERNAL :: uint32 where "UV__HANDLE_INTERNAL \<equiv> 0x8000"
abbreviation (input) UV__HANDLE_ACTIVE :: uint32 where "UV__HANDLE_ACTIVE \<equiv> 0x4000"
abbreviation (input) UV__HANDLE_REF :: uint32 where "UV__HANDLE_REF \<equiv> 0x2000"
abbreviation (input) UV__HANDLE_CLOSING :: uint32 where "UV__HANDLE_CLOSING \<equiv> 0"

abbreviation (input) UV_CLOSING :: uint32 where "UV_CLOSING \<equiv> 0x01"
abbreviation (input) UV_CLOSED :: uint32 where "UV_CLOSED \<equiv> 0x02"
abbreviation (input) UV_STREAM_READING :: uint32 where "UV_STREAM_READING \<equiv> 0x04"
abbreviation (input) UV_STREAM_SHUTTING :: uint32 where "UV_STREAM_SHUTTING \<equiv> 0x08"
abbreviation (input) UV_STREAM_SHUT :: uint32 where "UV_STREAM_SHUT \<equiv> 0x10"
abbreviation (input) UV_STREAM_READABLE :: uint32 where "UV_STREAM_READABLE \<equiv> 0x20"
abbreviation (input) UV_STREAM_WRITABLE :: uint32 where "UV_STREAM_WRITABLE \<equiv> 0x40"
abbreviation (input) UV_STREAM_BLOCKING :: uint32 where "UV_STREAM_BLOCKING \<equiv> 0x80"
abbreviation (input) UV_TCP_NODELAY :: uint32 where "UV_TCP_NODELAY \<equiv> 0x100"
abbreviation (input) UV_TCP_KEEPALIVE :: uint32 where "UV_TCP_KEEPALIVE \<equiv> 0x200"
abbreviation (input) UV_TCP_SINGLE_ACCEPT :: uint32 where "UV_TCP_SINGLE_ACCEPT \<equiv> 0x400"

record uv_handle =
  h_type :: uv_handle_type
  h_flags :: uint32
  h_close_cb :: "nat option"

record uv_loop =
  handles :: "nat \<Rightarrow> uv_handle"
  handle_queue :: "nat list"
  active_handles :: uint32
  active_reqs :: "nat list"
  closing_handles :: "nat list"
  last_err :: uv_err
  loop_time :: uint64

definition flags_of :: "('m) uv_loop_scheme \<Rightarrow> nat \<Rightarrow> uint32" where
  "flags_of L h = h_flags (handles L h)"

definition set_flags :: "nat \<Rightarrow> uint32 \<Rightarrow> ('m) uv_loop_scheme \<Rightarrow> ('m) uv_loop_scheme" where
  "set_flags h f L = L\<lparr>handles := (handles L)(h := (handles L h)\<lparr>h_flags := f\<rparr>)\<rparr>"

section \<open>Errors of a loop\<close>

definition uv__set_error :: "('m) uv_loop_scheme \<Rightarrow> uv_err_code \<Rightarrow> int \<Rightarrow> int \<times> ('m) uv_loop_scheme" where
  "uv__set_error L c e = (- 1, L\<lparr>last_err := \<lparr>err_code = c, sys_errno = e\<rparr>\<rparr>)"

definition uv__set_sys_error :: "('m) uv_loop_scheme \<Rightarrow> int \<Rightarrow> int \<times> ('m) uv_loop_scheme" where
  "uv__set_sys_error L e =
     (- 1, L\<lparr>last_err := \<lparr>err_code = uv_translate_sys_error e, sys_errno = e\<rparr>\<rparr>)"

definition uv__set_artificial_error ::
    "('m) uv_loop_scheme \<Rightarrow> uv_err_code \<Rightarrow> int \<times> ('m) uv_loop_scheme" where
  "uv__set_artificial_error L c = (- 1, L\<lparr>last_err := uv__new_artificial_error c\<rparr>)"

definition uv_last_error :: "('m) uv_loop_scheme \<Rightarrow> uv_err" where
  "uv_last_error L = last_err L"

section \<open>Requests\<close>

definition uv__has_active_reqs :: "('m) uv_loop_scheme \<Rightarrow> bool" where
  "uv__has_active_reqs L \<longleftrightarrow> active_reqs L \<noteq> []"

definition uv__req_register :: "('m) uv_loop_scheme \<Rightarrow> nat \<Rightarrow> ('m) uv_loop_scheme" where
  "uv__req_register L req = L\<lparr>active_reqs := active_reqs L @ [req]\<rparr>"

definition uv__req_unregister :: "('m) uv_loop_scheme \<Rightarrow> nat \<Rightarrow> ('m) uv_loop_scheme outcome" where
  "uv__req_unregister L req =
     assert_that (uv__has_active_reqs L)
       (Ret (L\<lparr>active_reqs := remove1 req (active_reqs L)\<rparr>))"

section \<open>Handles\<close>

definition uv__has_active_handles :: "('m) uv_loop_scheme \<Rightarrow> bool" where
  "uv__has_active_handles L \<longleftrightarrow> active_handles L > 0"

definition uv__active_handle_add :: "('m) uv_loop_scheme \<Rightarrow> ('m) uv_loop_scheme" where
  "uv__active_handle_add L = L\<lparr>active_handles := active_handles L + 1\<rparr>"

definition uv__active_handle_rm :: "('m) uv_loop_scheme \<Rightarrow> ('m) uv_loop_scheme" where
  "uv__active_handle_rm L = L\<lparr>active_handles := active_handles L - 1\<rparr>"

definition uv__is_active :: "('m) uv_loop_scheme \<Rightarrow> nat \<Rightarrow> bool" where
  "uv__is_active L h \<longleftrightarrow> flag_on (flags_of L h) UV__HANDLE_ACTIVE"

definition uv__has_ref :: "('m) uv_loop_scheme \<Rightarrow> nat \<Rightarrow> bool" where
  "uv__has_ref L h \<longleftrightarrow> flag_on (flags_of L h) UV__HANDLE_REF"

definition uv__handle_start :: "('m) uv_loop_scheme \<Rightarrow> nat \<Rightarrow> ('m) uv_loop_scheme" where
  "uv__handle_start L h =
     (if uv__is_active L h then L
      else let L = set_flags h (flag_set (flags_of L h) UV__HANDLE_ACTIVE) L
           in if uv__has_ref L h then uv__active_handle_add L else L)"

definition uv__handle_stop :: "('m) uv_loop_scheme \<Rightarrow> nat \<Rightarrow> ('m) uv_loop_scheme" where
  "uv__handle_stop L h =
     (if \<not> uv__is_active L h then L
      else let L = set_flags h (flag_clr (flags_of L h) UV__HANDLE_ACTIVE) L
           in if uv__has_ref L h then uv__active_handle_rm L else L)"

definition uv__handle_ref :: "('m) uv_loop_scheme \<Rightarrow> nat \<Rightarrow> ('m) uv_loop_scheme" where
  "uv__handle_ref L h =
     (if uv__has_ref L h then L
      else let L = set_flags h (flag_set (flags_of L h) UV__HANDLE_REF) L
           in if flag_on (flags_of L h) UV__HANDLE_CLOSING then L
              else if uv__is_active L h then uv__active_handle_add L else L)"

definition uv__handle_unref :: "('m) uv_loop_scheme \<Rightarrow> nat \<Rightarrow> ('m) uv_loop_scheme" where
  "uv__handle_unref L h =
     (if \<not> uv__has_ref L h then L
      else let L = set_flags h (flag_clr (flags_of L h) UV__HANDLE_REF) L
           in if flag_on (flags_of L h) UV__HANDLE_CLOSING then L
              else if uv__is_active L h then uv__active_handle_rm L else L)"

text \<open>
  \<open>uv__handle_init\<close> leaves the close callback alone; it overwrites loop, type and flags, and
  appends the handle to the loop's queue. A handle that is in the queue already cuts off the
  handles after it (\<open>ngx_queue_reinsert_loses\<close> in NgxQueue).
\<close>

definition uv__handle_init :: "('m) uv_loop_scheme \<Rightarrow> nat \<Rightarrow> uv_handle_type \<Rightarrow> ('m) uv_loop_scheme" where
  "uv__handle_init L h ty =
     L\<lparr>handles := (handles L)(h := (handles L h)\<lparr>h_type := ty, h_flags := UV__HANDLE_REF\<rparr>),
       handle_queue := takeWhile (\<lambda>k. k \<noteq> h) (handle_queue L) @ [h]\<rparr>"

definition uv_ref :: "('m) uv_loop_scheme \<Rightarrow> nat \<Rightarrow> ('m) uv_loop_scheme" where
  "uv_ref L h = uv__handle_ref L h"

definition uv_unref :: "('m) uv_loop_scheme \<Rightarrow> nat \<Rightarrow> ('m) uv_loop_scheme" where
  "uv_unref L h = uv__handle_unref L h"

definition uv_is_active :: "('m) uv_loop_scheme \<Rightarrow> nat \<Rightarrow> bool" where
  "uv_is_active L h = uv__is_active L h"

definition uv_is_closing :: "('m) uv_loop_scheme \<Rightarrow> nat \<Rightarrow> bool" where
  "uv_is_closing L h \<longleftrightarrow> flag_on (flags_of L h) (UV_CLOSING OR UV_CLOSED)"

definition uv__make_close_pending :: "('m) uv_loop_scheme \<Rightarrow> nat \<Rightarrow> ('m) uv_loop_scheme outcome" where
  "uv__make_close_pending L h =
     assert_that (flag_on (flags_of L h) UV_CLOSING)
    (assert_that (\<not> flag_on (flags_of L h) UV_CLOSED)
       (Ret (L\<lparr>closing_handles := h # closing_handles L\<rparr>)))"

definition uv__loop_alive :: "('m) uv_loop_scheme \<Rightarrow> bool" where
  "uv__loop_alive L \<longleftrightarrow>
     uv__has_active_handles L \<or> uv__has_active_reqs L \<or> closing_handles L \<noteq> []"

text \<open>\<open>uv_walk\<close> visits the handles that are not internal, in the order of their creation.\<close>

definition uv_walk :: "('m) uv_loop_scheme \<Rightarrow> (nat \<Rightarrow> 's \<Rightarrow> 's) \<Rightarrow> 's \<Rightarrow> 's" where
  "uv_walk L walk_cb s =
     fold (\<lambda>h s. if flag_on (flags_of L h) UV__HANDLE_INTERNAL then s else walk_cb h s)
       (handle_queue L) s"

section \<open>Effect on the flags\<close>

lemma flags_of_set_flags [simp]:
  "flags_of (set_flags h f L) k = (if k = h then f else flags_of L k)"
  by (simp add: flags_of_def set_flags_def)

lemma set_flags_frame [simp]:
  "handle_queue (set_flags h f L) = handle_queue L"
  "active_handles (set_flags h f L) = active_handles L"
  "active_reqs (set_flags h f L) = active_reqs L"
  "closing_handles (set_flags h f L) = closing_handles L"
  "last_err (set_flags h f L) = last_err L"
  "loop_time (set_flags h f L) = loop_time L"
  "h_type (handles (set_flags h f L) k) = h_type (handles L k)"
  "h_close_cb (handles (set_flags h f L) k) = h_close_cb (handles L k)"
  "uv_loop.more (set_flags h f L) = uv_loop.more L"
  by (simp_all add: set_flags_def)

lemma active_handle_frame [simp]:
  "flags_of (uv__active_handle_add L) k = flags_of L k"
  "flags_of (uv__active_handle_rm L) k = flags_of L k"
  "handles (uv__active_handle_add L) = handles L"
  "handles (uv__active_handle_rm L) = handles L"
  "handle_queue (uv__active_handle_add L) = handle_queue L"
  "handle_queue (uv__active_handle_rm L) = handle_queue L"
  by (simp_all add: flags_of_def uv__active_handle_add_def uv__active_handle_rm_def)

lemmas handle_op_defs =
  uv__handle_start_def uv__handle_stop_def uv__handle_ref_def uv__handle_unref_def
  uv__is_active_def uv__has_ref_def Let_def

text \<open>Every flag operation keeps the flags of the other handles and all other fields.\<close>

lemma handle_ops_frame [simp]:
  "handle_queue (uv__handle_start L h) = handle_queue L"
  "handle_queue (uv__handle_stop L h) = handle_queue L"
  "handle_queue (uv__handle_ref L h) = handle_queue L"
  "handle_queue (uv__handle_unref L h) = handle_queue L"
  "active_reqs (uv__handle_start L h) = active_reqs L"
  "active_reqs (uv__handle_stop L h) = active_reqs L"
  "active_reqs (uv__handle_ref L h) = active_reqs L"
  "active_reqs (uv__handle_unref L h) = active_reqs L"
  "closing_handles (uv__handle_start L h) = closing_handles L"
  "closing_handles (uv__handle_stop L h) = closing_handles L"
  "closing_handles (uv__handle_ref L h) = closing_handles L"
  "closing_handles (uv__handle_unref L h) = closing_handles L"
  "last_err (uv__handle_start L h) = last_err L"
  "last_err (uv__handle_stop L h) = last_err L"
  "last_err (uv__handle_unref L h) = last_err L"
  "loop_time (uv__handle_start L h) = loop_time L"
  "loop_time (uv__handle_stop L h) = loop_time L"
  "loop_time (uv__handle_unref L h) = loop_time L"
  "h_type (handles (uv__handle_start L h) k) = h_type (handles L k)"
  "h_type (handles (uv__handle_stop L h) k) = h_type (handles L k)"
  "h_type (handles (uv__handle_unref L h) k) = h_type (handles L k)"
  "h_close_cb (handles (uv__handle_start L h) k) = h_close_cb (handles L k)"
  "h_close_cb (handles (uv__handle_stop L h) k) = h_close_cb (handles L k)"
  "h_close_cb (handles (uv__handle_unref L h) k) = h_close_cb (handles L k)"
  "uv_loop.more (uv__handle_start L h) = uv_loop.more L"
  "uv_loop.more (uv__handle_stop L h) = uv_loop.more L"
  "uv_loop.more (uv__handle_ref L h) = uv_loop.more L"
  "uv_loop.more (uv__handle_unref L h) = uv_loop.more L"
  by (simp_all add: handle_op_defs uv__active_handle_add_def uv__active_handle_rm_def)

lemma uv__is_active_ops [simp]:
  "uv__is_active (uv__handle_start L h) k \<longleftrightarrow> k = h \<or> uv__is_active L k"
  "uv__is_active (uv__handle_stop L h) k \<longleftrightarrow> k \<noteq> h \<and> uv__is_active L k"
  "uv__is_active (uv__handle_ref L h) k \<longleftrightarrow> uv__is_active L k"
  "uv__is_active (uv__handle_unref L h) k \<longleftrightarrow> uv__is_active L k"
  by (auto simp: handle_op_defs flag_simps)

lemma uv__has_ref_ops [simp]:
  "uv__has_ref (uv__handle_start L h) k \<longleftrightarrow> uv__has_ref L k"
  "uv__has_ref (uv__handle_stop L h) k \<longleftrightarrow> uv__has_ref L k"
  "uv__has_ref (uv__handle_ref L h) k \<longleftrightarrow> k = h \<or> uv__has_ref L k"
  "uv__has_ref (uv__handle_unref L h) k \<longleftrightarrow> k \<noteq> h \<and> uv__has_ref L k"
  by (auto simp: handle_op_defs flag_simps)

lemma takeWhile_fresh [simp]: "h \<notin> set xs \<Longrightarrow> takeWhile (\<lambda>k. k \<noteq> h) xs = xs"
  by (induction xs) auto

lemma uv__handle_init_simps [simp]:
  "handle_queue (uv__handle_init L h ty) = takeWhile (\<lambda>k. k \<noteq> h) (handle_queue L) @ [h]"
  "active_handles (uv__handle_init L h ty) = active_handles L"
  "active_reqs (uv__handle_init L h ty) = active_reqs L"
  "closing_handles (uv__handle_init L h ty) = closing_handles L"
  "loop_time (uv__handle_init L h ty) = loop_time L"
  "uv_loop.more (uv__handle_init L h ty) = uv_loop.more L"
  "uv__is_active (uv__handle_init L h ty) k \<longleftrightarrow> k \<noteq> h \<and> uv__is_active L k"
  "uv__has_ref (uv__handle_init L h ty) k \<longleftrightarrow> k = h \<or> uv__has_ref L k"
  "h_type (handles (uv__handle_init L h ty) k) = (if k = h then ty else h_type (handles L k))"
  by (auto simp: uv__handle_init_def uv__is_active_def uv__has_ref_def flags_of_def flag_simps)


section \<open>The reference count\<close>

text \<open>
  The loop counts the handles that are active and referenced. The count is an unsigned int
  and is changed by one wherever one of the two flags of a handle changes.
\<close>

definition live_handles :: "('m) uv_loop_scheme \<Rightarrow> nat set" where
  "live_handles L = {h \<in> set (handle_queue L). uv__is_active L h \<and> uv__has_ref L h}"

definition handle_inv :: "('m) uv_loop_scheme \<Rightarrow> bool" where
  "handle_inv L \<longleftrightarrow> distinct (handle_queue L) \<and> active_handles L = of_nat (card (live_handles L))"

lemma finite_live [simp]: "finite (live_handles L)"
  by (simp add: live_handles_def)

lemma live_handles_ops:
  assumes "h \<in> set (handle_queue L)"
  shows "live_handles (uv__handle_start L h) =
           (if uv__has_ref L h then insert h (live_handles L) else live_handles L)"
    and "live_handles (uv__handle_stop L h) = live_handles L - {h}"
    and "live_handles (uv__handle_ref L h) =
           (if uv__is_active L h then insert h (live_handles L) else live_handles L)"
    and "live_handles (uv__handle_unref L h) = live_handles L - {h}"
  using assms by (auto simp: live_handles_def)

lemma active_handles_ops:
  "active_handles (uv__handle_start L h) = active_handles L +
     (if \<not> uv__is_active L h \<and> uv__has_ref L h then 1 else 0)"
  "active_handles (uv__handle_stop L h) = active_handles L -
     (if uv__is_active L h \<and> uv__has_ref L h then 1 else 0)"
  "active_handles (uv__handle_ref L h) = active_handles L +
     (if \<not> uv__has_ref L h \<and> uv__is_active L h then 1 else 0)"
  "active_handles (uv__handle_unref L h) = active_handles L -
     (if uv__has_ref L h \<and> uv__is_active L h then 1 else 0)"
  by (simp_all add: handle_op_defs uv__active_handle_add_def uv__active_handle_rm_def flag_simps)

lemma of_nat_card_insert:
  "finite S \<Longrightarrow> h \<notin> S \<Longrightarrow> (of_nat (card (insert h S)) :: uint32) = of_nat (card S) + 1"
  by simp

lemma of_nat_card_remove:
  "finite S \<Longrightarrow> h \<in> S \<Longrightarrow> (of_nat (card S - Suc 0) :: uint32) = of_nat (card S) - 1"
  by (subst of_nat_diff) (auto simp: Suc_le_eq card_gt_0_iff)

lemma handle_inv_ops:
  assumes "handle_inv L" and "h \<in> set (handle_queue L)"
  shows "handle_inv (uv__handle_start L h)" "handle_inv (uv__handle_stop L h)"
    "handle_inv (uv__handle_ref L h)" "handle_inv (uv__handle_unref L h)"
proof -
  have mem: "h \<in> live_handles L \<longleftrightarrow> uv__is_active L h \<and> uv__has_ref L h"
    using assms(2) by (simp add: live_handles_def)
  have absorb: "uv__is_active L h \<Longrightarrow> uv__has_ref L h \<Longrightarrow> insert h (live_handles L) = live_handles L"
    using mem by blast
  note rules = handle_inv_def live_handles_ops [OF assms(2)] active_handles_ops
  show "handle_inv (uv__handle_start L h)"
    using assms(1) mem absorb by (auto simp: rules of_nat_card_insert)
  show "handle_inv (uv__handle_stop L h)"
    using assms(1) mem by (auto simp: rules of_nat_card_remove)
  show "handle_inv (uv__handle_ref L h)"
    using assms(1) mem absorb by (auto simp: rules of_nat_card_insert)
  show "handle_inv (uv__handle_unref L h)"
    using assms(1) mem by (auto simp: rules of_nat_card_remove)
qed

lemma handle_inv_init:
  assumes "handle_inv L" and "h \<notin> set (handle_queue L)"
  shows "handle_inv (uv__handle_init L h ty)"
proof -
  have "live_handles (uv__handle_init L h ty) = live_handles L"
    using assms(2) by (auto simp: live_handles_def)
  with assms(1,2) show ?thesis by (simp add: handle_inv_def)
qed

text \<open>Changes elsewhere keep the invariant.\<close>

lemma handle_inv_cong:
  assumes "handle_inv L" and "handle_queue L' = handle_queue L"
    and "active_handles L' = active_handles L"
    and "\<And>h. h \<in> set (handle_queue L) \<Longrightarrow>
      uv__is_active L' h = uv__is_active L h \<and> uv__has_ref L' h = uv__has_ref L h"
  shows "handle_inv L'"
proof -
  have "live_handles L' = live_handles L"
    using assms(2,4) by (auto simp: live_handles_def)
  with assms show ?thesis by (simp add: handle_inv_def)
qed

text \<open>
  A handle leaves the queue (in \<open>uv__finish_close\<close>) when it is inactive.
\<close>

lemma handle_inv_leave:
  assumes "handle_inv L" and "\<not> uv__is_active L h"
  shows "handle_inv (L\<lparr>handle_queue := remove1 h (handle_queue L)\<rparr>)"
proof -
  let ?L = "L\<lparr>handle_queue := remove1 h (handle_queue L)\<rparr>"
  have "uv__is_active ?L = uv__is_active L" "uv__has_ref ?L = uv__has_ref L"
    by (simp_all add: fun_eq_iff uv__is_active_def uv__has_ref_def flags_of_def)
  with assms have "live_handles ?L = live_handles L"
    by (auto simp: live_handles_def handle_inv_def queue_simps)
  with assms show ?thesis by (simp add: handle_inv_def)
qed

section \<open>Runs of the handle operations\<close>

text \<open>
  The steps by which handles change: what the operations of the handle types are made of.
  A flag update that keeps the active and the referenced bit covers the stream and the
  closing flags.
\<close>

inductive handle_step :: "('m) uv_loop_scheme \<Rightarrow> ('m) uv_loop_scheme \<Rightarrow> bool" where
  init: "h \<notin> set (handle_queue L) \<Longrightarrow> handle_step L (uv__handle_init L h ty)"
| start: "h \<in> set (handle_queue L) \<Longrightarrow> handle_step L (uv__handle_start L h)"
| stop: "h \<in> set (handle_queue L) \<Longrightarrow> handle_step L (uv__handle_stop L h)"
| ref: "h \<in> set (handle_queue L) \<Longrightarrow> handle_step L (uv_ref L h)"
| unref: "h \<in> set (handle_queue L) \<Longrightarrow> handle_step L (uv_unref L h)"
| flags: "flag_on f UV__HANDLE_ACTIVE = uv__is_active L h \<Longrightarrow>
    flag_on f UV__HANDLE_REF = uv__has_ref L h \<Longrightarrow> handle_step L (set_flags h f L)"
| pending: "h \<in> set (handle_queue L) \<Longrightarrow> uv__make_close_pending L h = Ret L' \<Longrightarrow> handle_step L L'"
| finish: "closing_handles L = h # hs \<Longrightarrow> \<not> uv__is_active L h \<Longrightarrow>
    handle_step L (L\<lparr>closing_handles := hs, handle_queue := remove1 h (handle_queue L)\<rparr>)"
| register: "handle_step L (uv__req_register L r)"
| unregister: "uv__req_unregister L r = Ret L' \<Longrightarrow> handle_step L L'"

text \<open>
  A fresh loop has no handles. Memory that is not in the queue of the loop holds anything,
  so the invariant of the run asks for nothing about it; \<open>uv__handle_init\<close> resets the flags
  of the handle it adds.
\<close>

inductive handle_run :: "('m) uv_loop_scheme \<Rightarrow> bool" where
  fresh: "handle_queue L = [] \<Longrightarrow> active_handles L = 0 \<Longrightarrow> handle_run L"
| step: "handle_run L \<Longrightarrow> handle_step L L' \<Longrightarrow> handle_run L'"


lemma handle_inv_step: "handle_step L L' \<Longrightarrow> handle_inv L \<Longrightarrow> handle_inv L'"
proof (induction rule: handle_step.induct)
  case (flags f L h)
  then show ?case
    by (intro handle_inv_cong [OF flags.prems]) (auto simp: uv__is_active_def uv__has_ref_def)
next
  case (pending h L L')
  then show ?case
    by (intro handle_inv_cong [OF pending.prems])
      (auto simp: uv__make_close_pending_def uv__is_active_def uv__has_ref_def flags_of_def)
next
  case (finish L h hs)
  have "handle_inv (L\<lparr>closing_handles := hs\<rparr>)"
    by (intro handle_inv_cong [OF finish.prems])
      (auto simp: uv__is_active_def uv__has_ref_def flags_of_def)
  then have "handle_inv ((L\<lparr>closing_handles := hs\<rparr>)
      \<lparr>handle_queue := remove1 h (handle_queue (L\<lparr>closing_handles := hs\<rparr>))\<rparr>)"
    by (rule handle_inv_leave)
      (use finish in \<open>simp add: uv__is_active_def flags_of_def\<close>)
  then show ?case by simp
next
  case (register L r)
  then show ?case
    by (intro handle_inv_cong [OF register.prems])
      (auto simp: uv__req_register_def uv__is_active_def uv__has_ref_def flags_of_def)
next
  case (unregister L r L')
  then show ?case
    by (intro handle_inv_cong [OF unregister.prems])
      (auto simp: uv__req_unregister_def uv__is_active_def uv__has_ref_def flags_of_def)
qed (auto simp: uv_ref_def uv_unref_def intro: handle_inv_ops handle_inv_init)

lemma handle_run_inv: "handle_run L \<Longrightarrow> handle_inv L"
proof (induction rule: handle_run.induct)
  case (fresh L)
  then show ?case by (simp add: handle_inv_def live_handles_def)
next
  case (step L L')
  then show ?case by (blast intro: handle_inv_step)
qed

lemma has_active_handles_iff:
  assumes "handle_inv L" and "length (handle_queue L) < 2 ^ 32"
  shows "uv__has_active_handles L \<longleftrightarrow> live_handles L \<noteq> {}"
proof -
  have "card (live_handles L) \<le> length (handle_queue L)"
    by (rule order_trans [OF card_mono card_length]) (auto simp: live_handles_def)
  then have lt: "card (live_handles L) < 2 ^ 32" using assms(2) by linarith
  then have "unat (of_nat (card (live_handles L)) :: uint32) = card (live_handles L)"
    by (simp add: unat_of_nat)
  then have "active_handles L > 0 \<longleftrightarrow> 0 < card (live_handles L)"
    using assms(1) by (simp add: handle_inv_def word_less_nat_alt)
  then show ?thesis
    by (simp add: uv__has_active_handles_def card_gt_0_iff)
qed

text \<open>
  C8. A loop stays alive exactly as long as something keeps it alive: in every state that a
  run of the handle operations reaches (fewer than 2^32 handles), \<open>uv__loop_alive\<close> holds
  if and only if some handle of the loop is both active and referenced, or a request is
  outstanding, or a handle waits for its close callback. The unsigned counter never drifts
  from the flags, whatever the order of start, stop, ref, unref and close.
\<close>

theorem uv__loop_alive_iff:
  assumes "handle_run L" and "length (handle_queue L) < 2 ^ 32"
  shows "uv__loop_alive L \<longleftrightarrow>
    (\<exists>h \<in> set (handle_queue L). uv__is_active L h \<and> uv__has_ref L h) \<or>
    active_reqs L \<noteq> [] \<or> closing_handles L \<noteq> []"
  using has_active_handles_iff [OF handle_run_inv [OF assms(1)] assms(2)]
  by (auto simp: uv__loop_alive_def uv__has_active_reqs_def live_handles_def)

definition empty_loop :: uv_loop where
  "empty_loop = \<lparr>handles = (\<lambda>_. \<lparr>h_type = UV_UNKNOWN_HANDLE, h_flags = 0, h_close_cb = None\<rparr>),
     handle_queue = [], active_handles = 0, active_reqs = [], closing_handles = [],
     last_err = uv_ok_err, loop_time = 0\<rparr>"

theorem uv__loop_alive_iff_witness:
  "uv__loop_alive (uv__handle_start (uv__handle_init empty_loop 1 UV_TIMER) 1)"
proof -
  let ?L1 = "uv__handle_init empty_loop 1 UV_TIMER"
  have "handle_run empty_loop" by (rule handle_run.fresh) (simp_all add: empty_loop_def)
  moreover have "handle_step empty_loop ?L1"
    by (rule handle_step.init) (simp add: empty_loop_def)
  moreover have "handle_step ?L1 (uv__handle_start ?L1 1)"
    by (rule handle_step.start) (simp add: empty_loop_def)
  ultimately have "handle_run (uv__handle_start ?L1 1)"
    by (blast intro: handle_run.step)
  from uv__loop_alive_iff [OF this] show ?thesis
    by (simp add: empty_loop_def)
qed

end
