(* ===== verification/Timer.thy ===== *)
theory Timer
  imports Handle RBTree
begin

text \<open>
  The timers of \<open>src/unix/timer.c\<close>: a red-black tree of the active timers, ordered by due
  time and, for equal times, by address.
\<close>

section \<open>State\<close>

record uv_timer =
  timer_cb :: "nat option"
  timer_timeout :: uint64
  timer_repeat :: uint64

record timer_loop = uv_loop +
  timers :: "nat \<Rightarrow> uv_timer"
  timer_handles :: "nat rb_tree"

definition due_time :: "('m) timer_loop_scheme \<Rightarrow> nat \<Rightarrow> uint64" where
  "due_time L h = timer_timeout (timers L h)"

definition set_timer :: "nat \<Rightarrow> uv_timer \<Rightarrow> ('m) timer_loop_scheme \<Rightarrow> ('m) timer_loop_scheme" where
  "set_timer h t L = L\<lparr>timers := (timers L)(h := t)\<rparr>"

text \<open>The comparison reads the due times of two timers (\<open>to\<close>) and their addresses.\<close>

definition uv__timer_cmp :: "(nat \<Rightarrow> uint64) \<Rightarrow> nat \<Rightarrow> nat \<Rightarrow> int" where
  "uv__timer_cmp to a b =
     (if to a < to b then - 1
      else if to a > to b then 1
      else if a < b then - 1
      else if a > b then 1
      else 0)"

section \<open>Operations\<close>

definition uv_timer_init :: "('m) timer_loop_scheme \<Rightarrow> nat \<Rightarrow> int \<times> ('m) timer_loop_scheme" where
  "uv_timer_init L h =
     (let L = uv__handle_init L h UV_TIMER
      in (0, set_timer h ((timers L h)\<lparr>timer_cb := None\<rparr>) L))"

definition uv_timer_stop :: "('m) timer_loop_scheme \<Rightarrow> nat \<Rightarrow> (int \<times> ('m) timer_loop_scheme) outcome" where
  "uv_timer_stop L h =
     (if \<not> uv__is_active L h then Ret (0, L)
      else obind (ptr_ok (rb_remove h (timer_handles L)))
        (\<lambda>t. Ret (0, uv__handle_stop (L\<lparr>timer_handles := t\<rparr>) h)))"

text \<open>\<open>timeout\<close> and \<open>repeat\<close> are \<open>int64_t\<close>; the due time is an unsigned sum that wraps.\<close>

definition uv_timer_start :: "('m) timer_loop_scheme \<Rightarrow> nat \<Rightarrow> nat option \<Rightarrow> uint64 \<Rightarrow> uint64 \<Rightarrow>
    (int \<times> ('m) timer_loop_scheme) outcome" where
  "uv_timer_start L h cb timeout rep =
     assert_that (0 \<le> sint timeout)
    (assert_that (0 \<le> sint rep)
    (obind (if uv__is_active L h then uv_timer_stop L h else Ret (0, L)) (\<lambda>(_, L).
       let L = set_timer h \<lparr>timer_cb = cb, timer_timeout = loop_time L + timeout, timer_repeat = rep\<rparr> L
       in obind (ptr_ok (rb_insert (uv__timer_cmp (due_time L)) h (timer_handles L))) (\<lambda>(_, t).
            Ret (0, uv__handle_start (L\<lparr>timer_handles := t\<rparr>) h)))))"

definition uv_timer_again :: "('m) timer_loop_scheme \<Rightarrow> nat \<Rightarrow> (int \<times> ('m) timer_loop_scheme) outcome" where
  "uv_timer_again L h =
     (if timer_cb (timers L h) = None then Ret (uv__set_artificial_error L UV_EINVAL)
      else if timer_repeat (timers L h) \<noteq> 0
      then obind (uv_timer_stop L h) (\<lambda>(_, L).
           obind (uv_timer_start L h (timer_cb (timers L h))
                    (timer_repeat (timers L h)) (timer_repeat (timers L h))) (\<lambda>(_, L).
           Ret (0, L)))
      else Ret (0, L))"

definition uv_timer_set_repeat :: "('m) timer_loop_scheme \<Rightarrow> nat \<Rightarrow> uint64 \<Rightarrow> ('m) timer_loop_scheme outcome" where
  "uv_timer_set_repeat L h rep =
     assert_that (0 \<le> sint rep) (Ret (set_timer h ((timers L h)\<lparr>timer_repeat := rep\<rparr>) L))"

definition uv_timer_get_repeat :: "('m) timer_loop_scheme \<Rightarrow> nat \<Rightarrow> uint64" where
  "uv_timer_get_repeat L h = timer_repeat (timers L h)"

text \<open>The result is an \<open>int\<close>: the unsigned 64-bit difference is cut to 32 bits.\<close>

definition uv__next_timeout :: "('m) timer_loop_scheme \<Rightarrow> int" where
  "uv__next_timeout L =
     (case rb_min (timer_handles L) of
        None \<Rightarrow> - 1
      | Some h \<Rightarrow>
          if due_time L h \<le> loop_time L then 0
          else sint (ucast (due_time L h - loop_time L) :: uint32))"

text \<open>
  The loop of \<open>uv__run_timers\<close> calls back into user code, \<open>cb c h L\<close> for the callback \<open>c\<close> of
  the timer \<open>h\<close>, which may start timers that are due at once: \<open>None\<close> is a loop that does not
  end.
\<close>

partial_function (option) uv__run_timers ::
    "(nat \<Rightarrow> nat \<Rightarrow> ('m) timer_loop_scheme \<Rightarrow> ('m) timer_loop_scheme outcome) \<Rightarrow>
     ('m) timer_loop_scheme \<Rightarrow> ('m) timer_loop_scheme outcome option" where
  "uv__run_timers cb L =
     (case rb_min (timer_handles L) of
        None \<Rightarrow> Some (Ret L)
      | Some h \<Rightarrow>
          if due_time L h > loop_time L then Some (Ret L)
          else case obind (uv_timer_stop L h) (\<lambda>(_, L).
                    obind (uv_timer_again L h) (\<lambda>(_, L).
                    case timer_cb (timers L h) of None \<Rightarrow> Abort | Some c \<Rightarrow> cb c h L)) of
              Abort \<Rightarrow> Some Abort
            | Starve \<Rightarrow> Some Starve
            | Ret L \<Rightarrow> uv__run_timers cb L)"

definition uv__timer_close :: "('m) timer_loop_scheme \<Rightarrow> nat \<Rightarrow> ('m) timer_loop_scheme outcome" where
  "uv__timer_close L h = obind (uv_timer_stop L h) (\<lambda>(_, L). Ret L)"

section \<open>The order of the tree\<close>

lemma uv__timer_cmp_less:
  "uv__timer_cmp to a b < 0 \<longleftrightarrow> to a < to b \<or> to a = to b \<and> a < b"
  by (auto simp: uv__timer_cmp_def)

lemma uv__timer_cmp_le:
  "uv__timer_cmp to a b \<le> 0 \<longleftrightarrow> to a < to b \<or> to a = to b \<and> a \<le> b"
  by (auto simp: uv__timer_cmp_def)

lemma uv__timer_cmp_greater:
  "0 < uv__timer_cmp to b a \<longleftrightarrow> to a < to b \<or> to a = to b \<and> a < b"
  by (auto simp: uv__timer_cmp_def)

lemma lex_trans_l:
  fixes x y z :: "'a :: linorder" and a b c :: "'b :: linorder"
  assumes "x < y \<or> x = y \<and> a \<le> b" and "y < z \<or> y = z \<and> b < c"
  shows "x < z \<or> x = z \<and> a < c"
proof (cases "x < y")
  case True
  then have "x < z" using assms(2) by (elim disjE conjE) simp_all
  then show ?thesis ..
next
  case False
  then have "x = y" "a \<le> b" using assms(1) by simp_all
  then show ?thesis using assms(2) le_less_trans [of a b c] by blast
qed

lemma lex_trans_r:
  fixes x y z :: "'a :: linorder" and a b c :: "'b :: linorder"
  assumes "x < y \<or> x = y \<and> a < b" and "y < z \<or> y = z \<and> b \<le> c"
  shows "x < z \<or> x = z \<and> a < c"
proof (cases "y < z")
  case True
  then have "x < z" using assms(1) by (elim disjE conjE) simp_all
  then show ?thesis ..
next
  case False
  then have "y = z" "b \<le> c" using assms(2) by simp_all
  then show ?thesis using assms(1) less_le_trans [of a b c] by blast
qed

lemma uv__timer_cmp_anti: "uv__timer_cmp to a b < 0 \<longleftrightarrow> 0 < uv__timer_cmp to b a"
  unfolding uv__timer_cmp_less uv__timer_cmp_greater ..

lemma uv__timer_cmp_trans_l:
  "uv__timer_cmp to a b \<le> 0 \<Longrightarrow> uv__timer_cmp to b c < 0 \<Longrightarrow> uv__timer_cmp to a c < 0"
  unfolding uv__timer_cmp_less uv__timer_cmp_le by (rule lex_trans_l)

lemma uv__timer_cmp_trans_r:
  "uv__timer_cmp to a b < 0 \<Longrightarrow> uv__timer_cmp to b c \<le> 0 \<Longrightarrow> uv__timer_cmp to a c < 0"
  unfolding uv__timer_cmp_less uv__timer_cmp_le by (rule lex_trans_r)

interpretation timer_order: rb_order "uv__timer_cmp to" for to
  by (rule rb_order.intro)
    (fact uv__timer_cmp_anti, fact uv__timer_cmp_trans_l, fact uv__timer_cmp_trans_r)

lemma uv__timer_cmp_zero: "uv__timer_cmp to a b = 0 \<longleftrightarrow> a = b"
  by (auto simp: uv__timer_cmp_def)

lemma uv__timer_cmp_cong:
  "to a = to' a \<Longrightarrow> to b = to' b \<Longrightarrow> uv__timer_cmp to a b = uv__timer_cmp to' a b"
  by (simp add: uv__timer_cmp_def)

text \<open>The due times of timers outside the tree do not matter.\<close>

lemma sorted_tree_cong:
  assumes "timer_order.sorted_tree to t" and "\<And>h. h \<in> set (rb_inorder t) \<Longrightarrow> to h = to' h"
  shows "timer_order.sorted_tree to' t"
proof -
  have cmp: "uv__timer_cmp to' a b < 0"
    if "a \<in> set (rb_inorder t)" "b \<in> set (rb_inorder t)" "uv__timer_cmp to a b < 0" for a b
    using that uv__timer_cmp_cong [of to a to' b] assms(2) by metis
  have "sorted_wrt (\<lambda>a b. uv__timer_cmp to a b < 0) (rb_inorder t)"
    using assms(1) unfolding timer_order.sorted_tree_def by (rule conjunct2)
  then have "sorted_wrt (\<lambda>a b. uv__timer_cmp to' a b < 0) (rb_inorder t)"
    by (rule sorted_wrt_mono_rel [rotated]) (rule cmp)
  with assms(1) show ?thesis by (simp add: timer_order.sorted_tree_def)
qed


section \<open>The invariant of the timers\<close>

lemma timer_handle_frame [simp]:
  "timers (uv__handle_start L h) = timers L"
  "timers (uv__handle_stop L h) = timers L"
  "timers (uv__handle_init L h ty) = timers L"
  "timer_handles (uv__handle_start L h) = timer_handles L"
  "timer_handles (uv__handle_stop L h) = timer_handles L"
  "timer_handles (uv__handle_init L h ty) = timer_handles L"
  "timer_loop.more (uv__handle_start L h) = timer_loop.more L"
  "timer_loop.more (uv__handle_stop L h) = timer_loop.more L"
  by (simp_all add: handle_op_defs uv__active_handle_add_def uv__active_handle_rm_def
      set_flags_def uv__handle_init_def)

lemma set_timer_frame [simp]:
  "timers (set_timer h t L) = (timers L)(h := t)"
  "timer_handles (set_timer h t L) = timer_handles L"
  "handles (set_timer h t L) = handles L"
  "handle_queue (set_timer h t L) = handle_queue L"
  "active_handles (set_timer h t L) = active_handles L"
  "loop_time (set_timer h t L) = loop_time L"
  "closing_handles (set_timer h t L) = closing_handles L"
  "active_reqs (set_timer h t L) = active_reqs L"
  "uv__is_active (set_timer h t L) k = uv__is_active L k"
  "uv__has_ref (set_timer h t L) k = uv__has_ref L k"
  "timer_loop.more (set_timer h t L) = timer_loop.more L"
  by (simp_all add: set_timer_def uv__is_active_def uv__has_ref_def flags_of_def)

lemma timer_handles_update_frame [simp]:
  "uv__is_active (L\<lparr>timer_handles := t\<rparr>) k = uv__is_active L k"
  "uv__has_ref (L\<lparr>timer_handles := t\<rparr>) k = uv__has_ref L k"
  by (simp_all add: uv__is_active_def uv__has_ref_def flags_of_def)

definition is_timer :: "('m) timer_loop_scheme \<Rightarrow> nat \<Rightarrow> bool" where
  "is_timer L h \<longleftrightarrow> h \<in> set (handle_queue L) \<and> h_type (handles L h) = UV_TIMER"

definition active_timers :: "('m) timer_loop_scheme \<Rightarrow> nat set" where
  "active_timers L = {h. is_timer L h \<and> uv__is_active L h}"

definition timer_inv :: "('m) timer_loop_scheme \<Rightarrow> bool" where
  "timer_inv L \<longleftrightarrow> handle_inv L \<and> timer_order.sorted_tree (due_time L) (timer_handles L) \<and>
     set (rb_inorder (timer_handles L)) = active_timers L"

text \<open>
  What an operation on the timer \<open>h\<close> leaves alone: the clock, the list of handles, the other
  handles and their data.
\<close>

definition timer_frame :: "nat \<Rightarrow> ('m) timer_loop_scheme \<Rightarrow> ('m) timer_loop_scheme \<Rightarrow> bool" where
  "timer_frame h L L' \<longleftrightarrow> loop_time L' = loop_time L \<and> handle_queue L' = handle_queue L \<and>
     timer_loop.more L' = timer_loop.more L \<and>
     closing_handles L' = closing_handles L \<and> active_reqs L' = active_reqs L \<and>
     (\<forall>k. h_type (handles L' k) = h_type (handles L k)) \<and>
     (\<forall>k. uv__has_ref L' k = uv__has_ref L k) \<and>
     (\<forall>k. k \<noteq> h \<longrightarrow> timers L' k = timers L k \<and> uv__is_active L' k = uv__is_active L k)"

lemma timer_frame_refl: "timer_frame h L L"
  by (simp add: timer_frame_def)

lemma timer_frame_trans: "timer_frame h L L' \<Longrightarrow> timer_frame h L' L'' \<Longrightarrow> timer_frame h L L''"
  by (simp add: timer_frame_def)

lemma timer_frame_is_timer: "timer_frame h L L' \<Longrightarrow> is_timer L' k = is_timer L k"
  by (simp add: timer_frame_def is_timer_def)

lemma timer_frame_active: "timer_frame h L L' \<Longrightarrow>
    active_timers L' = active_timers L - {h} \<union> (if is_timer L h \<and> uv__is_active L' h then {h} else {})"
  by (auto simp: timer_frame_def is_timer_def active_timers_def split: if_splits)

lemma handle_inv_timer_handles: "handle_inv (L\<lparr>timer_handles := t\<rparr>) = handle_inv L"
  by (simp add: handle_inv_def live_handles_def)

lemma handle_inv_set_timer: "handle_inv (set_timer h t L) = handle_inv L"
  by (simp add: handle_inv_def live_handles_def)

section \<open>Start, stop, again\<close>

lemma stop_inactive: "\<not> uv__is_active L h \<Longrightarrow> uv_timer_stop L h = Ret (0, L)"
  by (simp add: uv_timer_stop_def)

lemma stop_active:
  assumes "timer_inv L" and "h \<in> active_timers L"
  shows "\<exists>L'. uv_timer_stop L h = Ret (0, L') \<and> timer_inv L' \<and> timer_frame h L L' \<and>
    \<not> uv__is_active L' h \<and> timers L' = timers L \<and> last_err L' = last_err L \<and>
    rb_inorder (timer_handles L') = remove1 h (rb_inorder (timer_handles L))"
proof -
  have s: "timer_order.sorted_tree (due_time L) (timer_handles L)"
    and set: "set (rb_inorder (timer_handles L)) = active_timers L"
    and act: "uv__is_active L h" and q: "h \<in> set (handle_queue L)"
    using assms by (auto simp: timer_inv_def active_timers_def is_timer_def)
  obtain t where t: "rb_remove h (timer_handles L) = Some t"
      "timer_order.sorted_tree (due_time L) t"
      "rb_inorder t = remove1 h (rb_inorder (timer_handles L))"
    using timer_order.remove_present [OF s, of h] assms(2) set by blast
  let ?L' = "uv__handle_stop (L\<lparr>timer_handles := t\<rparr>) h"
  have ret: "uv_timer_stop L h = Ret (0, ?L')" by (simp add: uv_timer_stop_def act t(1))
  have due: "due_time ?L' = due_time L" by (simp add: fun_eq_iff due_time_def)
  have frame: "timer_frame h L ?L'" by (simp add: timer_frame_def)
  have "set (rb_inorder t) = active_timers L - {h}"
    using t(3) set timer_order.sorted_tree_distinct [OF s] by (simp add: set_remove1_eq)
  moreover have "active_timers ?L' = active_timers L - {h}"
    using timer_frame_active [OF frame] by simp
  moreover have "handle_inv ?L'"
    using assms(1) q
    by (intro handle_inv_ops) (simp_all add: timer_inv_def handle_inv_timer_handles)
  ultimately have "timer_inv ?L'" using t(2) by (simp add: timer_inv_def due)
  with ret frame t(3) show ?thesis by auto
qed

text \<open>Stopping a timer that may or may not be active.\<close>

lemma stop_any:
  assumes "timer_inv L" and "is_timer L h"
  shows "\<exists>L'. uv_timer_stop L h = Ret (0, L') \<and> timer_inv L' \<and> timer_frame h L L' \<and>
    \<not> uv__is_active L' h \<and> timers L' = timers L \<and> last_err L' = last_err L \<and>
    rb_inorder (timer_handles L') = remove1 h (rb_inorder (timer_handles L))"
proof (cases "uv__is_active L h")
  case True
  then show ?thesis using stop_active [OF assms(1)] assms(2) by (simp add: active_timers_def)
next
  case False
  then have "h \<notin> set (rb_inorder (timer_handles L))"
    using assms(1) by (simp add: timer_inv_def active_timers_def)
  with False assms show ?thesis
    by (simp add: stop_inactive timer_frame_refl remove1_idem)
qed

lemma start_ok:
  assumes "timer_inv L" and "is_timer L h" and "0 \<le> sint timeout" and "0 \<le> sint rep"
  shows "\<exists>L'. uv_timer_start L h cb timeout rep = Ret (0, L') \<and> timer_inv L' \<and>
    timer_frame h L L' \<and> uv__is_active L' h \<and> last_err L' = last_err L \<and>
    timers L' h = \<lparr>timer_cb = cb, timer_timeout = loop_time L + timeout, timer_repeat = rep\<rparr> \<and>
    (\<exists>xs ys. remove1 h (rb_inorder (timer_handles L)) = xs @ ys \<and>
       rb_inorder (timer_handles L') = xs @ h # ys)"
proof -
  obtain M where stop: "uv_timer_stop L h = Ret (0, M)" and inv: "timer_inv M"
    and fM: "timer_frame h L M" and inact: "\<not> uv__is_active M h" and eM: "last_err M = last_err L"
    and io: "rb_inorder (timer_handles M) = remove1 h (rb_inorder (timer_handles L))"
    using stop_any [OF assms(1,2)] by blast
  let ?T = "\<lparr>timer_cb = cb, timer_timeout = loop_time L + timeout, timer_repeat = rep\<rparr>"
  let ?N = "set_timer h ?T M"
  have time: "loop_time M = loop_time L" using fM by (simp add: timer_frame_def)
  have notin: "h \<notin> set (rb_inorder (timer_handles M))"
    using inv inact by (simp add: timer_inv_def active_timers_def)
  have s: "timer_order.sorted_tree (due_time ?N) (timer_handles M)"
    by (rule sorted_tree_cong [of "due_time M"])
      (use inv notin in \<open>auto simp: timer_inv_def due_time_def\<close>)
  obtain t xs ys where t: "rb_insert (uv__timer_cmp (due_time ?N)) h (timer_handles M) = Some (None, t)"
      "timer_order.sorted_tree (due_time ?N) t"
      "rb_inorder (timer_handles M) = xs @ ys" "rb_inorder t = xs @ h # ys"
    using timer_order.insert_new [OF s, of h] notin by (auto simp: uv__timer_cmp_zero)
  let ?L' = "uv__handle_start (?N\<lparr>timer_handles := t\<rparr>) h"
  have pre: "(if uv__is_active L h then uv_timer_stop L h else Ret (0, L)) = Ret (0, M)"
    using stop by (auto simp: uv_timer_stop_def)
  have ret: "uv_timer_start L h cb timeout rep = Ret (0, ?L')"
    unfolding uv_timer_start_def pre using assms(3,4) t(1) by (simp add: Let_def time)
  have frame: "timer_frame h L ?L'"
    using fM by (simp add: timer_frame_def)
  have isM: "is_timer M h" using fM assms(2) by (simp add: timer_frame_is_timer)
  have "active_timers ?L' = active_timers L - {h} \<union> {h}"
    using timer_frame_active [OF frame] assms(2) by simp
  moreover have "active_timers M = active_timers L - {h}"
    using timer_frame_active [OF fM] inact by simp
  moreover have "set (rb_inorder t) = insert h (active_timers M)"
    using t(3,4) inv by (auto simp: timer_inv_def)
  moreover have "handle_inv ?L'"
    using inv isM
    by (intro handle_inv_ops)
      (simp_all add: timer_inv_def handle_inv_timer_handles handle_inv_set_timer is_timer_def)
  moreover have "due_time ?L' = due_time ?N" by (simp add: fun_eq_iff due_time_def)
  ultimately have "timer_inv ?L'" using t(2) by (simp add: timer_inv_def)
  moreover have "last_err ?L' = last_err L" by (simp add: set_timer_def eM)
  moreover have "timers ?L' h = ?T" by simp
  moreover have "uv__is_active ?L' h" by simp
  moreover have "\<exists>xs ys. remove1 h (rb_inorder (timer_handles L)) = xs @ ys \<and>
      rb_inorder (timer_handles ?L') = xs @ h # ys"
    by (rule exI [of _ xs], rule exI [of _ ys]) (simp add: t(4) flip: io t(3))
  ultimately show ?thesis using ret frame by blast
qed


lemma again_ok:
  assumes "timer_inv L" and "is_timer L h" and "\<not> uv__is_active L h"
    and "timer_cb (timers L h) \<noteq> None" and "0 \<le> sint (timer_repeat (timers L h))"
  shows "\<exists>L'. uv_timer_again L h = Ret (0, L') \<and> timer_inv L' \<and> timer_frame h L L' \<and>
    (if timer_repeat (timers L h) = 0 then L' = L
     else uv__is_active L' h \<and>
       timers L' h = (timers L h)\<lparr>timer_timeout := loop_time L + timer_repeat (timers L h)\<rparr> \<and>
       (\<exists>xs ys. rb_inorder (timer_handles L) = xs @ ys \<and>
          rb_inorder (timer_handles L') = xs @ h # ys))"
proof (cases "timer_repeat (timers L h) = 0")
  case True
  with assms show ?thesis by (auto simp: uv_timer_again_def timer_frame_refl)
next
  case False
  let ?r = "timer_repeat (timers L h)"
  have "h \<notin> set (rb_inorder (timer_handles L))"
    using assms(1,3) by (simp add: timer_inv_def active_timers_def)
  then have rem: "remove1 h (rb_inorder (timer_handles L)) = rb_inorder (timer_handles L)"
    by (rule remove1_idem)
  obtain L' xs ys where L': "uv_timer_start L h (timer_cb (timers L h)) ?r ?r = Ret (0, L')"
      "timer_inv L'" "timer_frame h L L'" "uv__is_active L' h"
      "timers L' h = \<lparr>timer_cb = timer_cb (timers L h), timer_timeout = loop_time L + ?r,
         timer_repeat = ?r\<rparr>"
      "rb_inorder (timer_handles L) = xs @ ys" "rb_inorder (timer_handles L') = xs @ h # ys"
    using start_ok [OF assms(1,2,5,5), of "timer_cb (timers L h)"] unfolding rem by blast
  have "timers L' h = (timers L h)\<lparr>timer_timeout := loop_time L + ?r\<rparr>"
    unfolding L'(5) by simp
  moreover have "uv_timer_again L h = Ret (0, L')"
    using False assms(4) L'(1)
    by (auto simp: uv_timer_again_def stop_inactive [OF assms(3)])
  ultimately show ?thesis using False L' by auto
qed

section \<open>Running the timers\<close>

definition timer_due :: "('m) timer_loop_scheme \<Rightarrow> nat \<Rightarrow> bool" where
  "timer_due L h \<longleftrightarrow> due_time L h \<le> loop_time L"

text \<open>
  The loop's clock and the repeat intervals are in the range of \<open>int64_t\<close>, and every active
  timer was started with a callback.
\<close>

definition timers_sane :: "('m) timer_loop_scheme \<Rightarrow> bool" where
  "timers_sane L \<longleftrightarrow> 0 \<le> sint (loop_time L) \<and>
     (\<forall>h \<in> active_timers L. timer_cb (timers L h) \<noteq> None \<and> 0 \<le> sint (timer_repeat (timers L h)))"

lemma sint_sum_greater:
  fixes a r :: uint64
  assumes "0 \<le> sint a" and "0 \<le> sint r" and "r \<noteq> 0"
  shows "a < a + r"
proof -
  have "uint a < 2 ^ 63" "uint r < 2 ^ 63" using assms(1,2) by (simp_all add: sint_nonneg_iff)
  moreover have "0 < uint r"
    using assms(3) uint_ge_0 [of r] by (simp add: uint_0_iff order.strict_iff_order)
  ultimately show ?thesis by (simp add: word_less_def uint_word_ariths)
qed

text \<open>One round of the loop: stop the least timer, rearm it when it repeats.\<close>

lemma round_ok:
  assumes "timer_inv L" and "timers_sane L" and "rb_inorder (timer_handles L) = h # hs"
  shows "\<exists>L' c. obind (uv_timer_stop L h) (\<lambda>(_, L).
        obind (uv_timer_again L h) (\<lambda>(_, L).
        case timer_cb (timers L h) of None \<Rightarrow> Abort | Some c \<Rightarrow> cb c h L)) = cb c h L' \<and>
    timer_cb (timers L h) = Some c \<and> timer_inv L' \<and> timers_sane L' \<and> timer_frame h L L' \<and>
    timer_cb (timers L' h) = Some c \<and> timer_repeat (timers L' h) = timer_repeat (timers L h) \<and>
    filter (timer_due L') (rb_inorder (timer_handles L')) = filter (timer_due L) hs \<and>
    active_timers L' = active_timers L - {h} \<union> (if timer_repeat (timers L h) = 0 then {} else {h}) \<and>
    (timer_repeat (timers L h) \<noteq> 0 \<longrightarrow> due_time L' h = loop_time L + timer_repeat (timers L h))"
proof -
  let ?r = "timer_repeat (timers L h)"
  have h: "h \<in> active_timers L" and d: "distinct (h # hs)"
    using assms(1,3) timer_order.sorted_tree_distinct [of "due_time L" "timer_handles L"]
    by (auto simp: timer_inv_def)
  have isL: "is_timer L h" using h by (simp add: active_timers_def)
  obtain c where c: "timer_cb (timers L h) = Some c" and r: "0 \<le> sint ?r"
    using assms(2) h by (auto simp: timers_sane_def)
  obtain M where M: "uv_timer_stop L h = Ret (0, M)" "timer_inv M" "timer_frame h L M"
      "\<not> uv__is_active M h" "timers M = timers L" "rb_inorder (timer_handles M) = hs"
    using stop_any [OF assms(1) isL] assms(3) by auto
  have isM: "is_timer M h" using M(3) isL by (simp add: timer_frame_is_timer)
  obtain N where N: "uv_timer_again M h = Ret (0, N)" "timer_inv N" "timer_frame h M N"
      "if ?r = 0 then N = M else uv__is_active N h \<and>
         timers N h = (timers L h)\<lparr>timer_timeout := loop_time M + ?r\<rparr> \<and>
         (\<exists>xs ys. hs = xs @ ys \<and> rb_inorder (timer_handles N) = xs @ h # ys)"
    using again_ok [OF M(2) isM M(4)] c r unfolding M(5,6) by auto
  have LN: "timer_frame h L N" by (rule timer_frame_trans [OF M(3) N(3)])
  have timeM: "loop_time M = loop_time L" and timeN: "loop_time N = loop_time L"
    using M(3) LN by (simp_all add: timer_frame_def)
  have same: "timers N k = timers L k" if "k \<noteq> h" for k
    using LN that by (simp add: timer_frame_def)
  have th: "timer_cb (timers N h) = Some c \<and> timer_repeat (timers N h) = ?r"
    using N(4) M(5) c by (cases "?r = 0") auto
  have act: "active_timers N = active_timers L - {h} \<union> (if ?r = 0 then {} else {h})"
    using timer_frame_active [OF LN] N(4) M(4) isL by (cases "?r = 0") auto
  have dueh: "due_time N h = loop_time L + ?r" if "?r \<noteq> 0"
    using N(4) that timeM by (simp add: due_time_def)
  have later: "\<not> timer_due N h" if "?r \<noteq> 0"
    using sint_sum_greater [OF _ r that, of "loop_time L"] assms(2) dueh [OF that]
    by (simp add: timers_sane_def timer_due_def timeN not_le)
  have duek: "timer_due N k = timer_due L k" if "k \<in> set hs" for k
    using that d same [of k] timeN by (cases "k = h") (auto simp: timer_due_def due_time_def)
  have "filter (timer_due N) (rb_inorder (timer_handles N)) = filter (timer_due N) hs"
    using N(4) M(6) later by (cases "?r = 0") auto
  also have "\<dots> = filter (timer_due L) hs" using duek by (intro filter_cong refl)
  finally have fil: "filter (timer_due N) (rb_inorder (timer_handles N)) = filter (timer_due L) hs" .
  have "timers_sane N"
    unfolding timers_sane_def
  proof (intro conjI ballI)
    show "0 \<le> sint (loop_time N)" using assms(2) by (simp add: timers_sane_def timeN)
  next
    fix k assume k: "k \<in> active_timers N"
    have "k = h \<or> k \<noteq> h \<and> k \<in> active_timers L" using k act by (auto split: if_splits)
    then show "timer_cb (timers N k) \<noteq> None" "0 \<le> sint (timer_repeat (timers N k))"
      using th same [of k] r assms(2) by (auto simp: timers_sane_def)
  qed
  with c M(1) N(1,2) LN th fil act dueh show ?thesis
    by (intro exI [of _ N] exI [of _ c]) simp
qed


lemma run_timers_done:
  assumes "timer_inv L" and "filter (timer_due L) (rb_inorder (timer_handles L)) = []"
  shows "uv__run_timers cb L = Some (Ret L)"
proof (cases "rb_inorder (timer_handles L)")
  case Nil
  then show ?thesis by (subst uv__run_timers.simps) (simp add: rb_min_inorder)
next
  case (Cons h hs)
  with assms(2) have "\<not> timer_due L h" by (auto split: if_splits)
  with Cons show ?thesis
    by (subst uv__run_timers.simps) (simp add: rb_min_inorder timer_due_def not_le)
qed

lemma timer_more_update [simp]:
  "timer_inv (timer_loop.more_update f L) = timer_inv L"
  "active_timers (timer_loop.more_update f L) = active_timers L"
  "timer_due (timer_loop.more_update f L) = timer_due L"
  "due_time (timer_loop.more_update f L) = due_time L"
  "timers_sane (timer_loop.more_update f L) = timers_sane L"
proof -
  have due: "due_time (timer_loop.more_update f L) = due_time L"
    by (simp add: fun_eq_iff due_time_def)
  have act: "uv__is_active (timer_loop.more_update f L) = uv__is_active L"
    and ref: "uv__has_ref (timer_loop.more_update f L) = uv__has_ref L"
    by (simp_all add: fun_eq_iff uv__is_active_def uv__has_ref_def flags_of_def)
  have timers: "active_timers (timer_loop.more_update f L) = active_timers L"
    by (simp add: active_timers_def is_timer_def act)
  show "due_time (timer_loop.more_update f L) = due_time L"
    "active_timers (timer_loop.more_update f L) = active_timers L"
    by (fact due timers)+
  show "timer_inv (timer_loop.more_update f L) = timer_inv L"
    by (simp add: timer_inv_def handle_inv_def live_handles_def due act ref timers)
  show "timer_due (timer_loop.more_update f L) = timer_due L"
    by (simp add: fun_eq_iff timer_due_def due)
  show "timers_sane (timer_loop.more_update f L) = timers_sane L"
    by (simp add: timers_sane_def timers)
qed

text \<open>What a pass over the timers leaves alone, whatever its callbacks do to the client's part.\<close>

definition run_frame :: "('m) timer_loop_scheme \<Rightarrow> ('m) timer_loop_scheme \<Rightarrow> bool" where
  "run_frame L L' \<longleftrightarrow> handle_queue L' = handle_queue L \<and> closing_handles L' = closing_handles L \<and>
     active_reqs L' = active_reqs L \<and> (\<forall>k. h_type (handles L' k) = h_type (handles L k)) \<and>
     (\<forall>k. uv__has_ref L' k = uv__has_ref L k) \<and>
     (\<forall>k. \<not> is_timer L k \<longrightarrow> uv__is_active L' k = uv__is_active L k) \<and>
     (\<forall>k. timer_cb (timers L' k) = timer_cb (timers L k) \<and>
          timer_repeat (timers L' k) = timer_repeat (timers L k))"

lemma run_frame_refl: "run_frame L L"
  by (simp add: run_frame_def)

lemma run_frame_trans: "run_frame L L' \<Longrightarrow> run_frame L' L'' \<Longrightarrow> run_frame L L''"
  by (simp add: run_frame_def is_timer_def)

lemma run_frame_more: "run_frame L (timer_loop.more_update f L)"
  by (simp add: run_frame_def uv__is_active_def uv__has_ref_def flags_of_def)

text \<open>The timers that a run fires, in the order of the tree.\<close>

lemma run_timers_order:
  assumes "timer_inv L" and "timers_sane L"
    and "\<forall>h \<in> active_timers L. \<forall>M. cb (the (timer_cb (timers L h))) h M =
      Ret (timer_loop.more_update (g (the (timer_cb (timers L h))) h) M)"
  shows "\<exists>L'. uv__run_timers cb L = Some (Ret L') \<and>
    timer_inv L' \<and> loop_time L' = loop_time L \<and>
    timer_loop.more L' = fold (\<lambda>h. g (the (timer_cb (timers L h))) h)
      (filter (timer_due L) (rb_inorder (timer_handles L))) (timer_loop.more L) \<and>
    active_timers L' = {h \<in> active_timers L. timer_due L h \<longrightarrow> timer_repeat (timers L h) \<noteq> 0} \<and>
    (\<forall>h \<in> active_timers L'. due_time L' h =
       (if timer_due L h then loop_time L + timer_repeat (timers L h) else due_time L h)) \<and>
    run_frame L L'"
  using assms
proof (induction "length (filter (timer_due L) (rb_inorder (timer_handles L)))" arbitrary: L)
  case 0
  then have none: "filter (timer_due L) (rb_inorder (timer_handles L)) = []" by simp
  then have "\<not> timer_due L h" if "h \<in> active_timers L" for h
    using that 0 by (auto simp: timer_inv_def filter_empty_conv)
  then have "active_timers L = {h \<in> active_timers L. timer_due L h \<longrightarrow> timer_repeat (timers L h) \<noteq> 0}"
    by auto
  with run_timers_done [OF "0.prems"(1) none] none 0(2) \<open>\<And>h. h \<in> active_timers L \<Longrightarrow> \<not> timer_due L h\<close>
  show ?case by (intro exI [of _ L]) (simp add: run_frame_refl)
next
  case (Suc n)
  obtain h hs where io: "rb_inorder (timer_handles L) = h # hs"
    using Suc.hyps(2) by (cases "rb_inorder (timer_handles L)") auto
  have "sorted_wrt (\<lambda>a b. uv__timer_cmp (due_time L) a b < 0) (h # hs)"
    and hin: "h \<in> active_timers L" and dist: "distinct (h # hs)"
    and set: "active_timers L = set (h # hs)"
    using Suc.prems(1) io timer_order.sorted_tree_distinct [of "due_time L" "timer_handles L"]
    by (auto simp: timer_inv_def timer_order.sorted_tree_def)
  then have least: "due_time L h \<le> due_time L k" if "k \<in> set hs" for k
    using that by (auto simp: uv__timer_cmp_less)
  have due: "timer_due L h"
  proof (rule ccontr)
    assume "\<not> timer_due L h"
    then have "\<not> timer_due L k" if "k \<in> set (h # hs)" for k
      using that least [of k] unfolding timer_due_def by (metis order_trans set_ConsD)
    then have "filter (timer_due L) (h # hs) = []" by (simp add: filter_empty_conv)
    with Suc.hyps(2) io show False by simp
  qed
  let ?r = "timer_repeat (timers L h)"
  obtain M c where M: "obind (uv_timer_stop L h) (\<lambda>(_, L).
        obind (uv_timer_again L h) (\<lambda>(_, L).
        case timer_cb (timers L h) of None \<Rightarrow> Abort | Some c \<Rightarrow> cb c h L)) = cb c h M"
    and c: "timer_cb (timers L h) = Some c" and Mi: "timer_inv M" and Ms: "timers_sane M"
    and fr: "timer_frame h L M" and cM: "timer_cb (timers M h) = Some c"
    and rM: "timer_repeat (timers M h) = ?r"
    and fil: "filter (timer_due M) (rb_inorder (timer_handles M)) = filter (timer_due L) hs"
    and act: "active_timers M = active_timers L - {h} \<union> (if ?r = 0 then {} else {h})"
    and dM: "?r \<noteq> 0 \<longrightarrow> due_time M h = loop_time L + ?r"
    using round_ok [OF Suc.prems(1,2) io, of cb] by blast
  let ?N = "timer_loop.more_update (g c h) M"
  have timeM: "loop_time M = loop_time L" and sameM: "\<And>k. k \<noteq> h \<Longrightarrow> timers M k = timers L k"
    and moreM: "timer_loop.more M = timer_loop.more L"
    using fr by (simp_all add: timer_frame_def)
  have cbs: "timer_cb (timers M k) = timer_cb (timers L k)"
      "timer_repeat (timers M k) = timer_repeat (timers L k)" for k
    using c cM rM sameM [of k] by (cases "k = h"; simp)+
  have isT: "is_timer L h" using hin by (simp add: active_timers_def)
  have "run_frame L M"
    unfolding run_frame_def
  proof (intro conjI allI impI)
    fix k assume "\<not> is_timer L k"
    then have "k \<noteq> h" using isT by blast
    then show "uv__is_active M k = uv__is_active L k" using fr by (simp add: timer_frame_def)
  qed (use fr cbs in \<open>simp_all add: timer_frame_def\<close>)
  then have frN: "run_frame L ?N" by (rule run_frame_trans) (rule run_frame_more)
  have run: "uv__run_timers cb L = uv__run_timers cb ?N"
  proof -
    have "rb_min (timer_handles L) = Some h" using io by (simp add: rb_min_inorder)
    moreover have "\<not> due_time L h > loop_time L" using due by (simp add: timer_due_def not_less)
    moreover have "cb c h M = Ret ?N" using Suc.prems(3) [rule_format, OF hin, of M] c by simp
    ultimately show ?thesis by (subst uv__run_timers.simps) (simp add: M)
  qed
  have filL: "filter (timer_due L) (rb_inorder (timer_handles L)) = h # filter (timer_due L) hs"
    using io due by simp
  have "n = length (filter (timer_due ?N) (rb_inorder (timer_handles ?N)))"
    using Suc.hyps(2) filL fil by simp
  moreover have "\<forall>k \<in> active_timers ?N. \<forall>M'. cb (the (timer_cb (timers ?N k))) k M' =
      Ret (timer_loop.more_update (g (the (timer_cb (timers ?N k))) k) M')"
    using Suc.prems(3) hin act by (auto simp: cbs split: if_splits)
  ultimately obtain L' where
    L': "uv__run_timers cb ?N = Some (Ret L')" "timer_inv L'" "loop_time L' = loop_time L"
      "timer_loop.more L' = fold (\<lambda>h. g (the (timer_cb (timers L h))) h)
        (filter (timer_due L) hs) (g c h (timer_loop.more L))"
      "active_timers L' = {k \<in> active_timers M. timer_due M k \<longrightarrow> timer_repeat (timers L k) \<noteq> 0}"
      "\<forall>k \<in> active_timers L'. due_time L' k =
         (if timer_due M k then loop_time L + timer_repeat (timers L k) else due_time M k)"
      "run_frame ?N L'"
    using Suc.hyps(1) [of ?N] Mi Ms by (auto simp: timeM moreM cbs fil)
  have dueM: "timer_due M k = timer_due L k" "due_time M k = due_time L k" if "k \<noteq> h" for k
    using sameM [OF that] timeM by (simp_all add: timer_due_def due_time_def)
  have notdue: "\<not> timer_due M h" if "?r \<noteq> 0"
  proof
    assume "timer_due M h"
    moreover have "h \<in> set (rb_inorder (timer_handles M))"
      using that act Mi by (simp add: timer_inv_def)
    ultimately have "h \<in> set (filter (timer_due M) (rb_inorder (timer_handles M)))" by simp
    with fil dist show False by auto
  qed
  have actL': "active_timers L' = {k \<in> active_timers L. timer_due L k \<longrightarrow> timer_repeat (timers L k) \<noteq> 0}"
    (is "_ = ?S")
  proof (rule set_eqI)
    fix k show "k \<in> active_timers L' \<longleftrightarrow> k \<in> ?S"
      using hin due notdue dueM [of k] unfolding L'(5) act by (cases "k = h") auto
  qed
  have "due_time L' k = (if timer_due L k then loop_time L + timer_repeat (timers L k) else due_time L k)"
    if k: "k \<in> active_timers L'" for k
  proof (cases "k = h")
    case True
    with k actL' due have "?r \<noteq> 0" by simp
    with True k L'(6) notdue dM due show ?thesis by simp
  next
    case False
    with k L'(6) dueM [OF False] show ?thesis by simp
  qed
  with L' run c filL actL' run_frame_trans [OF frN L'(7)] show ?case by (intro exI [of _ L']) simp
qed


lemma init_timer:
  assumes "timer_inv L" and "h \<notin> set (handle_queue L)"
  shows "fst (uv_timer_init L h) = 0 \<and> timer_inv (snd (uv_timer_init L h)) \<and>
    is_timer (snd (uv_timer_init L h)) h \<and>
    loop_time (snd (uv_timer_init L h)) = loop_time L \<and>
    active_timers (snd (uv_timer_init L h)) = active_timers L"
proof -
  let ?L = "snd (uv_timer_init L h)"
  have L: "?L = set_timer h ((timers L h)\<lparr>timer_cb := None\<rparr>) (uv__handle_init L h UV_TIMER)"
    by (simp add: uv_timer_init_def Let_def)
  have "due_time ?L = due_time L" by (auto simp: L fun_eq_iff due_time_def)
  moreover have act: "active_timers ?L = active_timers L"
    using assms(2) by (auto simp: L active_timers_def is_timer_def)
  moreover have "handle_inv ?L"
    using assms by (simp add: L handle_inv_set_timer handle_inv_init timer_inv_def)
  ultimately have "timer_inv ?L" using assms(1) by (simp add: timer_inv_def L)
  with act show ?thesis
    by (simp add: uv_timer_init_def Let_def is_timer_def)
qed

definition empty_timers :: "uint64 \<Rightarrow> 'm \<Rightarrow> 'm timer_loop_scheme" where
  "empty_timers now m =
     \<lparr>handles = (\<lambda>_. \<lparr>h_type = UV_UNKNOWN_HANDLE, h_flags = 0, h_close_cb = None\<rparr>),
      handle_queue = [], active_handles = 0, active_reqs = [], closing_handles = [],
      last_err = uv_ok_err, loop_time = now,
      timers = (\<lambda>_. \<lparr>timer_cb = None, timer_timeout = 0, timer_repeat = 0\<rparr>),
      timer_handles = RB_NULL, \<dots> = m\<rparr>"

lemma empty_timers_inv: "timer_inv (empty_timers now m)" "active_timers (empty_timers now m) = {}"
proof -
  show "active_timers (empty_timers now m) = {}"
    by (simp add: active_timers_def is_timer_def empty_timers_def)
  then show "timer_inv (empty_timers now m)"
    by (simp add: timer_inv_def handle_inv_def live_handles_def timer_order.sorted_tree_empty)
      (simp add: empty_timers_def timer_order.sorted_tree_empty)
qed

text \<open>A loop with one timer that is initialized and not started.\<close>

abbreviation (input) one_timer :: "uint64 \<Rightarrow> 'm \<Rightarrow> 'm timer_loop_scheme" where
  "one_timer now m \<equiv> snd (uv_timer_init (empty_timers now m) 5)"

lemma one_timer_inv: "timer_inv (one_timer now m)" "is_timer (one_timer now m) 5"
    "active_timers (one_timer now m) = {}" "loop_time (one_timer now m) = now"
  using init_timer [OF empty_timers_inv(1) [of now m], of 5] empty_timers_inv(2) [of now m]
  by (simp_all add: empty_timers_def)

text \<open>
  C26. Starting a timer arms it and nothing else: for arguments that pass the asserts,
  \<open>uv_timer_start\<close> returns 0 on an idle or an already running timer, the timer is due at the
  loop's time plus the timeout, no other timer changes, and the tree, the flags and the
  count of active handles stay consistent. Stopping it afterwards leaves the other timers
  exactly as they were.
\<close>

theorem uv_timer_start_arms:
  assumes "timer_inv L" and "is_timer L h" and "0 \<le> sint timeout" and "0 \<le> sint rep"
  shows "\<exists>L' L''. uv_timer_start L h cb timeout rep = Ret (0, L') \<and> timer_inv L' \<and>
    active_timers L' = insert h (active_timers L) \<and> due_time L' h = loop_time L + timeout \<and>
    (\<forall>k. k \<noteq> h \<longrightarrow> timers L' k = timers L k) \<and>
    uv_timer_stop L' h = Ret (0, L'') \<and> timer_inv L'' \<and>
    active_timers L'' = active_timers L - {h} \<and> timers L'' = timers L'"
proof -
  obtain L' where L': "uv_timer_start L h cb timeout rep = Ret (0, L')" "timer_inv L'"
      "timer_frame h L L'" "uv__is_active L' h" "due_time L' h = loop_time L + timeout"
    using start_ok [OF assms, of cb] by (auto simp: due_time_def)
  have act: "active_timers L' = insert h (active_timers L)"
    using timer_frame_active [OF L'(3)] L'(4) assms(2) by auto
  have "is_timer L' h" using timer_frame_is_timer [OF L'(3)] assms(2) by simp
  then obtain L'' where L'': "uv_timer_stop L' h = Ret (0, L'')" "timer_inv L''"
      "timer_frame h L' L''" "\<not> uv__is_active L'' h" "timers L'' = timers L'"
    using stop_any [OF L'(2)] by blast
  have "active_timers L'' = active_timers L - {h}"
    using timer_frame_active [OF L''(3)] L''(4) act by auto
  with L' L'' act show ?thesis by (auto simp: timer_frame_def)
qed

theorem uv_timer_start_arms_witness:
  "\<exists>L'. uv_timer_start (one_timer 100 ()) 5 (Some 7) 50 0 = Ret (0, L') \<and>
     active_timers L' = {5} \<and> due_time L' 5 = 150"
  using uv_timer_start_arms [OF one_timer_inv(1,2) [of 100 "()"], of 50 0 "Some 7"]
  by (auto simp: one_timer_inv sint_small)

text \<open>
  C9. A pass of \<open>uv__run_timers\<close> ends and calls the callbacks of exactly the timers that were
  due when it began, once each, in the order of their due times and of their addresses where
  these are equal. Afterwards one-shot timers are inactive, a repeating timer is due at the
  loop's time plus its interval, and the others are untouched. The callback \<open>g\<close> works on the
  client's part of the state.
\<close>

theorem uv__run_timers_fires:
  assumes "timer_inv L" and "timers_sane L"
  shows "\<exists>L' hs. uv__run_timers (\<lambda>c h L. Ret (timer_loop.more_update (g c h) L)) L = Some (Ret L') \<and>
    set hs = {h \<in> active_timers L. due_time L h \<le> loop_time L} \<and>
    sorted_wrt (\<lambda>a b. due_time L a < due_time L b \<or> due_time L a = due_time L b \<and> a < b) hs \<and>
    timer_loop.more L' = fold (\<lambda>h. g (the (timer_cb (timers L h))) h) hs (timer_loop.more L) \<and>
    timer_inv L' \<and>
    active_timers L' = {h \<in> active_timers L. h \<in> set hs \<longrightarrow> timer_repeat (timers L h) \<noteq> 0} \<and>
    (\<forall>h \<in> active_timers L'. due_time L' h =
       (if h \<in> set hs then loop_time L + timer_repeat (timers L h) else due_time L h))"
proof -
  define hs where "hs = filter (timer_due L) (rb_inorder (timer_handles L))"
  have set: "set hs = {h \<in> active_timers L. due_time L h \<le> loop_time L}"
    using assms(1) by (auto simp: hs_def timer_inv_def timer_due_def)
  have sorted: "sorted_wrt
      (\<lambda>a b. due_time L a < due_time L b \<or> due_time L a = due_time L b \<and> a < b) hs"
    unfolding hs_def uv__timer_cmp_less [symmetric]
    using assms(1) by (intro sorted_wrt_filter) (simp add: timer_inv_def timer_order.sorted_tree_def)
  have mem: "timer_due L h \<longleftrightarrow> h \<in> set hs" if "h \<in> active_timers L" for h
    using that by (simp add: set timer_due_def)
  obtain L' where L': "uv__run_timers (\<lambda>c h L. Ret (timer_loop.more_update (g c h) L)) L =
        Some (Ret L')" "timer_inv L'"
      "timer_loop.more L' = fold (\<lambda>h. g (the (timer_cb (timers L h))) h) hs (timer_loop.more L)"
      "active_timers L' = {h \<in> active_timers L. timer_due L h \<longrightarrow> timer_repeat (timers L h) \<noteq> 0}"
      "\<forall>h \<in> active_timers L'. due_time L' h =
         (if timer_due L h then loop_time L + timer_repeat (timers L h) else due_time L h)"
    using run_timers_order [OF assms, of "\<lambda>c h L. Ret (timer_loop.more_update (g c h) L)" g]
    unfolding hs_def [symmetric] by blast
  have act: "active_timers L' = {h \<in> active_timers L. h \<in> set hs \<longrightarrow> timer_repeat (timers L h) \<noteq> 0}"
    unfolding L'(4) using mem by blast
  then have "\<forall>h \<in> active_timers L'. due_time L' h =
      (if h \<in> set hs then loop_time L + timer_repeat (timers L h) else due_time L h)"
    using L'(5) mem by simp
  with L'(1,2,3) act set sorted show ?thesis by blast
qed

theorem uv__run_timers_fires_witness:
  "\<exists>L L'. uv_timer_start (one_timer 100 []) 5 (Some 7) 0 30 = Ret (0, L) \<and>
     uv__run_timers (\<lambda>c h L. Ret (timer_loop.more_update (\<lambda>fs. fs @ [(c, h)]) L)) L = Some (Ret L') \<and>
     due_time L' 5 = 130"
proof -
  obtain L where L: "uv_timer_start (one_timer 100 []) 5 (Some 7) 0 30 = Ret (0, L)" "timer_inv L"
      "timer_frame 5 (one_timer 100 ([] :: (nat \<times> nat) list)) L" "uv__is_active L 5"
      "timers L 5 = \<lparr>timer_cb = Some 7, timer_timeout = 100, timer_repeat = 30\<rparr>"
    using start_ok [OF one_timer_inv(1,2) [of 100 "[] :: (nat \<times> nat) list"], of 0 30 "Some 7"]
    by (auto simp: one_timer_inv sint_small)
  have act: "active_timers L = {5}"
    using timer_frame_active [OF L(3)] L(4) by (simp add: one_timer_inv)
  have now: "loop_time L = 100"
    using L(3) by (simp add: timer_frame_def one_timer_inv)
  have sane: "timers_sane L" by (simp add: timers_sane_def act now L(5) sint_small)
  have "due_time L 5 \<le> loop_time L" by (simp add: due_time_def L(5) now)
  with uv__run_timers_fires [OF L(2) sane, of "\<lambda>c h fs. fs @ [(c, h)]"] L(1) act now L(5)
  show ?thesis by auto
qed

section \<open>The poll timeout\<close>

lemma min_timer:
  assumes "timer_inv L" and "active_timers L \<noteq> {}"
  shows "\<exists>h. rb_min (timer_handles L) = Some h \<and> due_time L h = Min (due_time L ` active_timers L)"
proof -
  have set: "set (rb_inorder (timer_handles L)) = active_timers L"
    and sorted: "sorted_wrt (\<lambda>a b. uv__timer_cmp (due_time L) a b < 0) (rb_inorder (timer_handles L))"
    using assms(1) by (auto simp: timer_inv_def timer_order.sorted_tree_def)
  obtain h hs where io: "rb_inorder (timer_handles L) = h # hs"
    using assms(2) set by (cases "rb_inorder (timer_handles L)") auto
  have "due_time L h \<le> due_time L k" if "k \<in> active_timers L" for k
    using sorted that [folded set] by (auto simp: io uv__timer_cmp_less)
  moreover have "finite (active_timers L)" "h \<in> active_timers L"
    using set [symmetric] io by simp_all
  ultimately have "Min (due_time L ` active_timers L) = due_time L h"
    by (intro Min_eqI) auto
  with io show ?thesis by (simp add: rb_min_inorder)
qed

lemma next_timeout_value:
  assumes "timer_inv L"
    and "\<forall>h \<in> active_timers L. uint (due_time L h) - uint (loop_time L) < 2 ^ 31"
  shows "uv__next_timeout L =
    (if active_timers L = {} then - 1
     else max 0 (uint (Min (due_time L ` active_timers L)) - uint (loop_time L)))"
proof (cases "active_timers L = {}")
  case True
  then have "rb_inorder (timer_handles L) = []" using assms(1) by (simp add: timer_inv_def)
  with True show ?thesis by (simp add: uv__next_timeout_def rb_min_inorder)
next
  case False
  let ?m = "Min (due_time L ` active_timers L)"
  obtain h where h: "rb_min (timer_handles L) = Some h" "due_time L h = ?m"
    using min_timer [OF assms(1) False] by blast
  then have "h \<in> active_timers L"
    using assms(1) by (cases "rb_inorder (timer_handles L)") (auto simp: timer_inv_def rb_min_inorder)
  then have lt: "uint ?m - uint (loop_time L) < 2 ^ 31" using assms(2) h(2) by fastforce
  show ?thesis
  proof (cases "?m \<le> loop_time L")
    case True
    then have "uint ?m - uint (loop_time L) \<le> 0" by (simp add: word_le_def)
    with True False h show ?thesis by (simp add: uv__next_timeout_def)
  next
    case ahead: False
    then have less: "uint (loop_time L) < uint ?m" by (simp add: word_le_def)
    then have diff: "uint (?m - loop_time L) = uint ?m - uint (loop_time L)"
      by (simp add: uint_sub_if')
    have "uint (ucast (?m - loop_time L) :: uint32) = uint ?m - uint (loop_time L)"
      using less lt by (simp add: diff unsigned_ucast_eq take_bit_eq_mod)
    with less lt have "sint (ucast (?m - loop_time L) :: uint32) = uint ?m - uint (loop_time L)"
      by (simp add: sint_small)
    with ahead False h less show ?thesis by (simp add: uv__next_timeout_def)
  qed
qed

text \<open>
  C27. The timeout of the poll is right for timers less than \<open>2^31\<close> milliseconds ahead: -1
  (wait without limit) without active timers, 0 when the earliest is due, and otherwise the
  exact distance to the earliest due time.
\<close>

theorem uv__next_timeout_exact:
  assumes "timer_inv L"
    and "\<forall>h \<in> active_timers L. uint (due_time L h) - uint (loop_time L) < 2 ^ 31"
  shows "uv__next_timeout L =
    (if active_timers L = {} then - 1
     else max 0 (uint (Min (due_time L ` active_timers L)) - uint (loop_time L)))"
  using next_timeout_value [OF assms] .

theorem uv__next_timeout_exact_witness:
  "\<exists>L. uv_timer_start (one_timer 100 ()) 5 (Some 7) 50 0 = Ret (0, L) \<and> uv__next_timeout L = 50"
proof -
  obtain L where L: "uv_timer_start (one_timer 100 ()) 5 (Some 7) 50 0 = Ret (0, L)" "timer_inv L"
      "timer_frame 5 (one_timer 100 ()) L" "uv__is_active L 5"
      "timers L 5 = \<lparr>timer_cb = Some 7, timer_timeout = 150, timer_repeat = 0\<rparr>"
    using start_ok [OF one_timer_inv(1,2) [of 100 "()"], of 50 0 "Some 7"]
    by (auto simp: one_timer_inv sint_small)
  have act: "active_timers L = {5}"
    using timer_frame_active [OF L(3)] L(4) by (simp add: one_timer_inv)
  have now: "loop_time L = 100"
    using L(3) by (simp add: timer_frame_def one_timer_inv)
  have "due_time L 5 = 150" by (simp add: due_time_def L(5))
  with uv__next_timeout_exact [OF L(2)] L(1) act now show ?thesis by simp
qed


text \<open>
  C28. The \<open>int\<close> result cannot carry a larger distance: when the earliest timer is between
  \<open>2^31\<close> and \<open>2^32\<close> milliseconds (25 to 50 days) ahead, the timeout is negative, which the
  poll takes as "wait without limit" when it is -1 and rejects in an assert otherwise.
\<close>

theorem uv__next_timeout_overflow:
  assumes "timer_inv L" and "active_timers L \<noteq> {}"
    and "2 ^ 31 \<le> uint (Min (due_time L ` active_timers L)) - uint (loop_time L)"
    and "uint (Min (due_time L ` active_timers L)) - uint (loop_time L) < 2 ^ 32"
  shows "uv__next_timeout L =
      uint (Min (due_time L ` active_timers L)) - uint (loop_time L) - 2 ^ 32 \<and>
    uv__next_timeout L < 0"
proof -
  let ?m = "Min (due_time L ` active_timers L)"
  obtain h where h: "rb_min (timer_handles L) = Some h" "due_time L h = ?m"
    using min_timer [OF assms(1,2)] by blast
  have less: "uint (loop_time L) < uint ?m" using assms(3) by simp
  then have diff: "uint (?m - loop_time L) = uint ?m - uint (loop_time L)"
    by (simp add: uint_sub_if')
  have "uint (ucast (?m - loop_time L) :: uint32) = uint ?m - uint (loop_time L)"
    using less assms(4) by (simp add: diff unsigned_ucast_eq take_bit_eq_mod)
  then have "sint (ucast (?m - loop_time L) :: uint32) = uint ?m - uint (loop_time L) - 2 ^ 32"
    using assms(3) by (simp add: sint_large)
  moreover have "\<not> ?m \<le> loop_time L" using less by (simp add: word_le_def)
  ultimately show ?thesis using h assms(4) by (simp add: uv__next_timeout_def)
qed

theorem uv__next_timeout_overflow_witness:
  "\<exists>L. uv_timer_start (one_timer 100 ()) 5 (Some 7) 0xFFFFFFFF 0 = Ret (0, L) \<and>
     uv__next_timeout L = - 1"
proof -
  obtain L where L: "uv_timer_start (one_timer 100 ()) 5 (Some 7) 0xFFFFFFFF 0 = Ret (0, L)"
      "timer_inv L" "timer_frame 5 (one_timer 100 ()) L" "uv__is_active L 5"
      "timers L 5 = \<lparr>timer_cb = Some 7, timer_timeout = 100 + 0xFFFFFFFF, timer_repeat = 0\<rparr>"
    using start_ok [OF one_timer_inv(1,2) [of 100 "()"], of "0xFFFFFFFF" 0 "Some 7"]
    by (auto simp: one_timer_inv sint_small)
  have act: "active_timers L = {5}"
    using timer_frame_active [OF L(3)] L(4) by (simp add: one_timer_inv)
  have now: "loop_time L = 100"
    using L(3) by (simp add: timer_frame_def one_timer_inv)
  have "due_time L 5 = 100 + 0xFFFFFFFF" by (simp add: due_time_def L(5))
  with uv__next_timeout_overflow [OF L(2)] L(1) act now show ?thesis by simp
qed

end
