(* ===== verification/Gevent.thy ===== *)
theory Gevent
  imports Timer
begin

text \<open>
  Cothreads, channels and semaphores: \<open>src/gevent.c\<close> and \<open>src/gevent.h\<close>.

  A cothread is named by a number; 0 is \<open>hub->main\<close>. The code of a cothread is the user's: it
  runs until it calls a function of the library or returns. A stacklet is a suspended C stack.
  What the library needs of it is which of its own function calls are still open in it, so a
  stacklet is the value of the variable \<open>current\<close> of the suspended switch together with the
  list of the open calls, innermost first; each open call is named by the point at which it
  continues (\<open>frame\<close>). The stack of the hub holds an open \<open>uv_run\<close>.
\<close>

section \<open>Types\<close>

type_synonym tid = nat

abbreviation (input) main_id :: tid where "main_id \<equiv> 0"

datatype (plugins only: code) gevent_cothread_state =
    GEVENT_COTHREAD_CURRENT | GEVENT_COTHREAD_NEW | GEVENT_COTHREAD_READY | GEVENT_COTHREAD_DEAD
  | GEVENT_COTHREAD_CHANNEL_R | GEVENT_COTHREAD_CHANNEL_S | GEVENT_COTHREAD__SEP
  | GEVENT_WAITING_TIMER | GEVENT_WAITING_GETADDRINFO
  | GEVENT_WAITING_OTHER uv_handle_type | GEVENT_WAITING_REQ uv_req_type
  | GEVENT_WAITING_PTR uv_handle_type | GEVENT_WAITING_PTR_REQ uv_req_type

text \<open>The channel of a semaphore is a part of it.\<close>

datatype chan = Channel nat | Sem_channel nat

text \<open>Where a suspended library call continues after the switch.\<close>

datatype frame =
    K_spawn                  \<comment> \<open>\<open>gevent_cothread_spawn\<close>\<close>
  | K_sleep                  \<comment> \<open>\<open>_sleep_internal\<close>, after the yield\<close>
  | K_wait                   \<comment> \<open>\<open>gevent_wait\<close> with a timeout that is not positive\<close>
  | K_receive chan           \<comment> \<open>\<open>gevent_channel_receive\<close> that found no sender\<close>
  | K_received "nat option"  \<comment> \<open>\<open>gevent_channel_receive\<close> that took a value\<close>
  | K_send chan              \<comment> \<open>\<open>gevent_channel_send\<close> that found no receiver\<close>
  | K_sent                   \<comment> \<open>\<open>gevent_channel_send\<close> that handed the value over\<close>
  | K_getaddrinfo            \<comment> \<open>\<open>gevent_getaddrinfo\<close>, after the yield\<close>
  | K_semaphore nat          \<comment> \<open>\<open>gevent_semaphore_acquire\<close> and \<open>_release\<close>, after the channel call\<close>

type_synonym stacklet = "tid option \<times> frame list"

text \<open>What a switch reports: the suspended source, or \<open>EMPTY_STACKLET_HANDLE\<close>.\<close>

datatype source = EMPTY_STACKLET_HANDLE | Source stacklet

record gevent_cothread =
  co_state :: gevent_cothread_state
  op_run :: "nat option"
  op_value :: "nat option"
  op_error :: "int option"
  op_res :: nat
  co_stacklet :: "stacklet option"
  exit_fn :: "nat option"

record gevent_channel =
  receivers :: "tid list"
  senders :: "tid list"

text \<open>What the user's code sees: the results of its calls.\<close>

datatype gresult = R_void | R_int int | R_value "nat option" | R_addrinfo "int option" "nat option"

datatype gentry = Returned tid gresult | Started tid nat | Exited tid nat

text \<open>
  The value of a receiver's \<open>op.channel.value\<close> before a sender has written it, the error of a
  resolution before it has completed, and the result that \<open>gevent_getaddrinfo\<close> does not write, are
  \<open>None\<close>: the memory holds something unknown. A timer of a cothread lies in its \<open>op\<close> and is named
  like the cothread in the loop. The counter of a semaphore is an \<open>int\<close> of 32 bits. \<open>no_memory\<close>
  says whether an allocation fails now; it may change between any two steps.
\<close>

record gevent_hub =
  g_loop :: timer_loop
  loop_alive :: bool
  ready :: "tid list"
  hub_stacklet :: "stacklet option"
  cothreads :: "tid \<Rightarrow> gevent_cothread"
  current :: "tid option"
  channels :: "chan \<Rightarrow> gevent_channel"
  sem_counter :: "nat \<Rightarrow> uint32"
  req_data :: "nat \<Rightarrow> tid option"
  no_memory :: bool
  glog :: "gentry list"

definition state_of :: "gevent_hub \<Rightarrow> tid \<Rightarrow> gevent_cothread_state" where
  "state_of s t = co_state (cothreads s t)"

definition set_co :: "tid \<Rightarrow> (gevent_cothread \<Rightarrow> gevent_cothread) \<Rightarrow> gevent_hub \<Rightarrow> gevent_hub" where
  "set_co t f s = s\<lparr>cothreads := (cothreads s)(t := f (cothreads s t))\<rparr>"

definition set_state :: "tid \<Rightarrow> gevent_cothread_state \<Rightarrow> gevent_hub \<Rightarrow> gevent_hub" where
  "set_state t x s = set_co t (co_state_update (\<lambda>_. x)) s"

definition set_channel :: "chan \<Rightarrow> gevent_channel \<Rightarrow> gevent_hub \<Rightarrow> gevent_hub" where
  "set_channel ch c s = s\<lparr>channels := (channels s)(ch := c)\<rparr>"

definition add_log :: "gentry \<Rightarrow> gevent_hub \<Rightarrow> gevent_hub" where
  "add_log e s = s\<lparr>glog := glog s @ [e]\<rparr>"

section \<open>Initialization\<close>

definition set_artificial_error :: "gevent_hub \<Rightarrow> uv_err_code \<Rightarrow> int \<times> gevent_hub" where
  "set_artificial_error s c =
     (- 1, s\<lparr>g_loop := (g_loop s)\<lparr>last_err := \<lparr>err_code = c, sys_errno = 0\<rparr>\<rparr>\<rparr>)"

definition gevent_cothread_init :: "gevent_hub \<Rightarrow> tid \<Rightarrow> nat option \<Rightarrow> gevent_hub" where
  "gevent_cothread_init s t run =
     set_co t (\<lambda>c. c\<lparr>co_state := GEVENT_COTHREAD_NEW, op_run := run, co_stacklet := None,
       exit_fn := None\<rparr>) s"

text \<open>\<open>thread\<close>: whether \<open>stacklet_newthread\<close> found memory.\<close>

definition gevent_hub_init :: "gevent_hub \<Rightarrow> timer_loop \<Rightarrow> bool \<Rightarrow> int \<times> gevent_hub" where
  "gevent_hub_init s loop thread =
     (let s = s\<lparr>g_loop := loop, loop_alive := True, ready := []\<rparr>
      in if \<not> thread then (- 1, s)
         else let s = s\<lparr>hub_stacklet := None\<rparr>;
                  s = gevent_cothread_init s main_id None;
                  s = set_state main_id GEVENT_COTHREAD_CURRENT s
              in (0, s\<lparr>current := Some main_id\<rparr>))"

definition get_current :: "gevent_hub \<Rightarrow> (tid \<Rightarrow> 'r outcome) \<Rightarrow> 'r outcome" where
  "get_current s k =
     (case current s of
        None \<Rightarrow> Abort
      | Some t \<Rightarrow> assert_that (state_of s t = GEVENT_COTHREAD_CURRENT) (k t))"

definition activate :: "gevent_hub \<Rightarrow> tid \<Rightarrow> gevent_hub outcome" where
  "activate s t =
     assert_that (state_of s t = GEVENT_COTHREAD_CURRENT)
       (let s = set_state t GEVENT_COTHREAD_READY s in Ret (s\<lparr>ready := ready s @ [t]\<rparr>))"

section \<open>Switching\<close>

definition before_switch :: "gevent_hub \<Rightarrow> tid option \<Rightarrow> 'r outcome \<Rightarrow> 'r outcome" where
  "before_switch s new k = assert_that (new \<noteq> None \<or> current s \<noteq> None) k"

definition after_switch :: "gevent_hub \<Rightarrow> tid option \<Rightarrow> source \<Rightarrow> gevent_hub outcome" where
  "after_switch s new source =
     obind
       (case current s of
          Some c \<Rightarrow>
            (case source of
               EMPTY_STACKLET_HANDLE \<Rightarrow>
                 assert_that (c \<noteq> main_id)
                (assert_that (state_of s c = GEVENT_COTHREAD_CURRENT)
                   (Ret (Some c, set_co c (\<lambda>x. x\<lparr>co_state := GEVENT_COTHREAD_DEAD,
                      co_stacklet := None\<rparr>) s)))
             | Source st \<Rightarrow> Ret (None, set_co c (co_stacklet_update (\<lambda>_. Some st)) s))
        | None \<Rightarrow>
            (case source of
               EMPTY_STACKLET_HANDLE \<Rightarrow> Ret (None, s\<lparr>hub_stacklet := None\<rparr>)
             | Source st \<Rightarrow> Ret (None, s\<lparr>hub_stacklet := Some st\<rparr>)))
       (\<lambda>(who_died, s).
          assert_that (current s \<noteq> new)
            (let s = s\<lparr>current := new\<rparr>;
                 s = (case new of
                        Some n \<Rightarrow> set_co n (\<lambda>x. x\<lparr>co_state := GEVENT_COTHREAD_CURRENT,
                          co_stacklet := None\<rparr>) s
                      | None \<Rightarrow> s\<lparr>hub_stacklet := None\<rparr>)
             in Ret (case who_died of
                       None \<Rightarrow> s
                     | Some d \<Rightarrow>
                         (case exit_fn (cothreads s d) of
                            None \<Rightarrow> s
                          | Some f \<Rightarrow> add_log (Exited d f) s))))"

text \<open>The rest of a library call of the cothread \<open>t\<close>, and of the calls open around it.\<close>

fun run_frame :: "tid \<Rightarrow> frame \<Rightarrow> gresult \<times> gevent_hub \<Rightarrow> (gresult \<times> gevent_hub) outcome" where
  "run_frame t K_spawn (r, s) = Ret (R_void, s)"
| "run_frame t K_sleep (r, s) =
     obind (uv_timer_stop (g_loop s) t) (\<lambda>(rc, L).
       assert_that (rc = 0) (Ret (R_int 0, s\<lparr>g_loop := L\<rparr>)))"
| "run_frame t K_wait (r, s) = Ret (R_int 0, s)"
| "run_frame t (K_receive ch) (r, s) =
     (let c = channels s ch;
          s = set_channel ch (c\<lparr>receivers := remove1 t (receivers c)\<rparr>) s
      in Ret (R_value (op_value (cothreads s t)), s))"
| "run_frame t (K_received v) (r, s) = Ret (R_value v, s)"
| "run_frame t (K_send ch) (r, s) =
     (let c = channels s ch
      in Ret (R_void, set_channel ch (c\<lparr>senders := remove1 t (senders c)\<rparr>) s))"
| "run_frame t K_sent (r, s) = Ret (R_void, s)"
| "run_frame t K_getaddrinfo (r, s) =
     (let c = cothreads s t
      in Ret (R_addrinfo (op_error c) (if op_error c = Some 0 then Some (op_res c) else None), s))"
| "run_frame t (K_semaphore sem) (r, s) = Ret (R_int (sint (sem_counter s sem)), s)"

fun run_frames :: "tid \<Rightarrow> frame list \<Rightarrow> gresult \<times> gevent_hub \<Rightarrow> (gresult \<times> gevent_hub) outcome" where
  "run_frames t [] x = Ret x"
| "run_frames t (k # ks) x = obind (run_frame t k x) (run_frames t ks)"

text \<open>
  \<open>stacklet_switch(thread, target)\<close> as the target sees it: its own call of a switch function
  returns \<open>source\<close>, so it continues behind it. A cothread ends up in the user's code, the hub
  in \<open>uv_run\<close>.
\<close>

definition stacklet_resume :: "gevent_hub \<Rightarrow> stacklet \<Rightarrow> source \<Rightarrow> gevent_hub outcome" where
  "stacklet_resume s target source =
     obind (after_switch s (fst target) source) (\<lambda>s.
       case fst target of
         None \<Rightarrow> Ret s
       | Some t \<Rightarrow>
           obind (run_frames t (snd target) (R_void, s)) (\<lambda>(r, s).
             Ret (add_log (Returned t r) s)))"

definition get_next_stacklet :: "gevent_hub \<Rightarrow> (stacklet \<times> gevent_hub) outcome" where
  "get_next_stacklet s =
     (case ready s of
        tmp # _ \<Rightarrow>
          assert_that (state_of s tmp = GEVENT_COTHREAD_READY)
         (obind (ptr_ok (co_stacklet (cothreads s tmp))) (\<lambda>st.
            let s = s\<lparr>ready := remove1 tmp (ready s)\<rparr>
            in before_switch s (Some tmp) (Ret (st, s))))
      | [] \<Rightarrow>
          (case hub_stacklet s of
             Some st \<Rightarrow>
               assert_that (current s \<noteq> None) (before_switch s None (Ret (st, s)))
           | None \<Rightarrow>
               obind (ptr_ok (co_stacklet (cothreads s main_id))) (\<lambda>st.
                 before_switch s (Some main_id) (Ret (st, s)))))"

text \<open>The hub's stack up to \<open>uv_run\<close>, and from its return on.\<close>

definition hub_starter_fn :: "gevent_hub \<Rightarrow> source \<Rightarrow> gevent_hub outcome" where
  "hub_starter_fn s source =
     obind (after_switch s None source) (\<lambda>s. Ret (s\<lparr>loop_alive := True\<rparr>))"

definition hub_starter_end :: "gevent_hub \<Rightarrow> gevent_hub outcome" where
  "hub_starter_end s =
     (let s = s\<lparr>loop_alive := False, hub_stacklet := None\<rparr>
      in obind (get_next_stacklet s) (\<lambda>(st, s). stacklet_resume s st EMPTY_STACKLET_HANDLE))"

text \<open>The same for a cothread: its start up to the user's function, and its end.\<close>

definition cothread_starter_fn :: "gevent_hub \<Rightarrow> source \<Rightarrow> tid \<Rightarrow> gevent_hub outcome" where
  "cothread_starter_fn s source g =
     (case op_run (cothreads s g) of
        None \<Rightarrow> Abort
      | Some run \<Rightarrow>
          assert_that (state_of s g = GEVENT_COTHREAD_NEW)
            (obind (after_switch s (Some g) source) (\<lambda>s. Ret (add_log (Started g run) s))))"

definition cothread_starter_end :: "gevent_hub \<Rightarrow> tid \<Rightarrow> gevent_hub outcome" where
  "cothread_starter_end s g =
     (let s = set_co g (co_stacklet_update (\<lambda>_. None)) s
      in obind (get_next_stacklet s) (\<lambda>(st, s). stacklet_resume s st EMPTY_STACKLET_HANDLE))"

text \<open>
  \<open>k\<close>: the calls that are open in the stack from which the switch is made. \<open>stacklet_new\<close> and
  \<open>stacklet_switch\<close> allocate the stacklet of that stack first and return \<open>NULL\<close> when they cannot, and
  the caller aborts.
\<close>

definition stacklet_or_abort :: "gevent_hub \<Rightarrow> 'r outcome \<Rightarrow> 'r outcome" where
  "stacklet_or_abort s k = (if no_memory s then Abort else k)"

definition gevent_switch :: "gevent_hub \<Rightarrow> tid \<Rightarrow> frame list \<Rightarrow> gevent_hub outcome" where
  "gevent_switch s t k =
     assert_that (Some t \<noteq> current s)
    (assert_that (state_of s t \<noteq> GEVENT_COTHREAD_CURRENT)
    (assert_that (state_of s t \<noteq> GEVENT_COTHREAD_DEAD)
    (before_switch s (Some t)
       (if state_of s t = GEVENT_COTHREAD_NEW
        then assert_that (op_run (cothreads s t) \<noteq> None)
               (stacklet_or_abort s (cothread_starter_fn s (Source (current s, k)) t))
        else obind (ptr_ok (co_stacklet (cothreads s t))) (\<lambda>st.
               stacklet_or_abort s (stacklet_resume s st (Source (current s, k))))))))"

definition gevent_switch_to_hub :: "gevent_hub \<Rightarrow> frame list \<Rightarrow> gevent_hub outcome" where
  "gevent_switch_to_hub s k =
     assert_that (current s \<noteq> None)
       (before_switch s None
          (stacklet_or_abort s
             (case hub_stacklet s of
                Some st \<Rightarrow> stacklet_resume s st (Source (current s, k))
              | None \<Rightarrow> hub_starter_fn s (Source (current s, k)))))"

definition gevent_yield :: "gevent_hub \<Rightarrow> frame list \<Rightarrow> gevent_hub outcome" where
  "gevent_yield s k =
     (case ready s of
        tmp # _ \<Rightarrow>
          assert_that (state_of s tmp = GEVENT_COTHREAD_READY)
            (gevent_switch (s\<lparr>ready := remove1 tmp (ready s)\<rparr>) tmp k)
      | [] \<Rightarrow> gevent_switch_to_hub s k)"

definition gevent_cothread_spawn :: "gevent_hub \<Rightarrow> tid \<Rightarrow> gevent_hub outcome" where
  "gevent_cothread_spawn s t =
     get_current s (\<lambda>current.
       obind (activate s current) (\<lambda>s.
         assert_that (state_of s t = GEVENT_COTHREAD_NEW) (gevent_switch s t [K_spawn])))"

section \<open>Sleeping\<close>

abbreviation (input) sleep_cb_id :: nat where "sleep_cb_id \<equiv> 0"

definition sleep_cb :: "gevent_hub \<Rightarrow> tid \<Rightarrow> gevent_hub outcome" where
  "sleep_cb s paused =
     assert_that (state_of s paused = GEVENT_WAITING_TIMER)
    (assert_that (current s = None) (gevent_switch s paused []))"

definition sleep_internal :: "gevent_hub \<Rightarrow> uint64 \<Rightarrow> bool \<Rightarrow> gevent_hub outcome" where
  "sleep_internal s timeout ref =
     get_current s (\<lambda>t.
       let (rc, L) = uv_timer_init (g_loop s) t
       in if rc \<noteq> 0 then Ret (add_log (Returned t (R_int (- 1))) (s\<lparr>g_loop := L\<rparr>))
          else obind (uv_timer_start L t (Some sleep_cb_id) timeout 0) (\<lambda>(rc, L).
            if rc \<noteq> 0 then Ret (add_log (Returned t (R_int (- 1))) (s\<lparr>g_loop := L\<rparr>))
            else let L = (if ref then L else uv_unref L t);
                     s = set_state t GEVENT_WAITING_TIMER (s\<lparr>g_loop := L\<rparr>)
                 in gevent_yield s [K_sleep]))"

definition gevent_sleep :: "gevent_hub \<Rightarrow> uint64 \<Rightarrow> gevent_hub outcome" where
  "gevent_sleep s timeout = sleep_internal s timeout True"

definition gevent_wait :: "gevent_hub \<Rightarrow> uint64 \<Rightarrow> gevent_hub outcome" where
  "gevent_wait s timeout =
     (if 0 < sint timeout then sleep_internal s timeout False else gevent_yield s [K_wait])"

section \<open>Channels and semaphores\<close>

definition gevent_channel_init :: "gevent_hub \<Rightarrow> chan \<Rightarrow> gevent_hub" where
  "gevent_channel_init s ch = set_channel ch \<lparr>receivers = [], senders = []\<rparr> s"

definition gevent_channel_receive :: "gevent_hub \<Rightarrow> chan \<Rightarrow> frame list \<Rightarrow> gevent_hub outcome" where
  "gevent_channel_receive s ch k =
     get_current s (\<lambda>t.
       case senders (channels s ch) of
         [] \<Rightarrow>
           let c = channels s ch;
               s = set_channel ch (c\<lparr>receivers := receivers c @ [t]\<rparr>) s;
               s = set_co t (\<lambda>x. x\<lparr>co_state := GEVENT_COTHREAD_CHANNEL_R, op_value := None\<rparr>) s
           in gevent_yield s (K_receive ch # k)
       | sender # _ \<Rightarrow>
           assert_that (state_of s sender = GEVENT_COTHREAD_CHANNEL_S)
             (let result = op_value (cothreads s sender)
              in obind (activate s t) (\<lambda>s. gevent_switch s sender (K_received result # k))))"

definition gevent_channel_send :: "gevent_hub \<Rightarrow> chan \<Rightarrow> nat \<Rightarrow> frame list \<Rightarrow> gevent_hub outcome" where
  "gevent_channel_send s ch value k =
     get_current s (\<lambda>t.
       case receivers (channels s ch) of
         [] \<Rightarrow>
           let c = channels s ch;
               s = set_channel ch (c\<lparr>senders := senders c @ [t]\<rparr>) s;
               s = set_co t (\<lambda>x. x\<lparr>co_state := GEVENT_COTHREAD_CHANNEL_S, op_value := Some value\<rparr>) s
           in gevent_yield s (K_send ch # k)
       | receiver # _ \<Rightarrow>
           assert_that (state_of s receiver = GEVENT_COTHREAD_CHANNEL_R)
             (let s = set_co receiver (op_value_update (\<lambda>_. Some value)) s
              in obind (activate s t) (\<lambda>s. gevent_switch s receiver (K_sent # k))))"

definition gevent_semaphore_init :: "gevent_hub \<Rightarrow> nat \<Rightarrow> uint32 \<Rightarrow> gevent_hub" where
  "gevent_semaphore_init s sem counter =
     gevent_channel_init (s\<lparr>sem_counter := (sem_counter s)(sem := counter)\<rparr>) (Sem_channel sem)"

definition gevent_semaphore_acquire :: "gevent_hub \<Rightarrow> nat \<Rightarrow> gevent_hub outcome" where
  "gevent_semaphore_acquire s sem =
     (if sint (sem_counter s sem) > 0
      then let n = sem_counter s sem - 1;
               s = s\<lparr>sem_counter := (sem_counter s)(sem := n)\<rparr>
           in get_current s (\<lambda>t. Ret (add_log (Returned t (R_int (sint n))) s))
      else gevent_channel_receive s (Sem_channel sem) [K_semaphore sem])"

text \<open>The value that a release sends is \<open>NULL\<close>. A count that overflows wraps.\<close>

definition gevent_semaphore_release :: "gevent_hub \<Rightarrow> nat \<Rightarrow> gevent_hub outcome" where
  "gevent_semaphore_release s sem =
     (if receivers (channels s (Sem_channel sem)) \<noteq> []
      then gevent_channel_send s (Sem_channel sem) 0 [K_semaphore sem]
      else let n = sem_counter s sem + 1;
               s = s\<lparr>sem_counter := (sem_counter s)(sem := n)\<rparr>
           in get_current s (\<lambda>t. Ret (add_log (Returned t (R_int (sint n))) s)))"

section \<open>Name resolution\<close>

text \<open>
  \<open>uv__getaddrinfo_done\<close> has unregistered the request when it calls back with an error and a
  result. \<open>gevent_getaddrinfo\<close> gets the answer of \<open>malloc\<close> and the return code of
  \<open>uv_getaddrinfo\<close>, which registers the request when it returns 0.
\<close>

definition getaddrinfo_cb :: "gevent_hub \<Rightarrow> nat \<Rightarrow> int \<Rightarrow> nat \<Rightarrow> gevent_hub outcome" where
  "getaddrinfo_cb s req error res =
     (case req_data s req of
        None \<Rightarrow> Ret s
      | Some my \<Rightarrow>
          assert_that (state_of s my = GEVENT_WAITING_GETADDRINFO)
            (gevent_switch
              (set_co my (\<lambda>x. x\<lparr>op_res := res, op_error := Some error\<rparr>) (s\<lparr>req_data := (req_data s)(req := None)\<rparr>))
              my []))"

definition gevent_getaddrinfo :: "gevent_hub \<Rightarrow> nat option \<Rightarrow> int \<Rightarrow> gevent_hub outcome" where
  "gevent_getaddrinfo s mem retcode =
     get_current s (\<lambda>t.
       case mem of
         None \<Rightarrow>
           let (rc, s) = set_artificial_error s UV_ENOMEM
           in Ret (add_log (Returned t (R_addrinfo (Some rc) None)) s)
       | Some req \<Rightarrow>
           if retcode \<noteq> 0 then Ret (add_log (Returned t (R_addrinfo (Some retcode) None)) s)
           else let s = s\<lparr>g_loop := uv__req_register (g_loop s) req,
                          req_data := (req_data s)(req := Some t)\<rparr>;
                    s = set_co t (\<lambda>x. x\<lparr>co_state := GEVENT_WAITING_GETADDRINFO, op_error := None\<rparr>) s
                in gevent_yield s [K_getaddrinfo])"

section \<open>Runs\<close>

text \<open>
  A run alternates between the code of the current cothread, which calls the library or
  returns, and the loop, when no cothread is current: the clock advances, the earliest due
  timer fires, a resolution completes, or \<open>uv_run\<close> returns because nothing keeps the loop
  alive. Memory runs out and comes back at any time.
\<close>

datatype gop =
    G_init tid nat | G_exit_fn tid "nat option" | G_spawn tid | G_sleep uint64 | G_wait uint64
  | G_channel nat | G_receive nat | G_send nat nat
  | G_semaphore nat uint32 | G_acquire nat | G_release nat | G_getaddrinfo "nat option" int | G_return
  | L_time uint64 | L_timer | L_addrinfo nat int nat | L_end
  | M_memory bool

text \<open>One round of \<open>uv__run_timers\<close>, whose callback is \<open>sleep_cb\<close> for every timer of the model.\<close>

definition loop_timer :: "gevent_hub \<Rightarrow> gevent_hub outcome" where
  "loop_timer s =
     (case rb_min (timer_handles (g_loop s)) of
        None \<Rightarrow> Ret s
      | Some h \<Rightarrow>
          if due_time (g_loop s) h > loop_time (g_loop s) then Ret s
          else obind (uv_timer_stop (g_loop s) h) (\<lambda>(_, L).
               obind (uv_timer_again L h) (\<lambda>(_, L).
                 case timer_cb (timers L h) of
                   None \<Rightarrow> Abort
                 | Some c \<Rightarrow> sleep_cb (s\<lparr>g_loop := L\<rparr>) h)))"

definition loop_addrinfo :: "gevent_hub \<Rightarrow> nat \<Rightarrow> int \<Rightarrow> nat \<Rightarrow> gevent_hub outcome" where
  "loop_addrinfo s req error res =
     obind (uv__req_unregister (g_loop s) req) (\<lambda>L.
       getaddrinfo_cb (s\<lparr>g_loop := L\<rparr>) req error res)"

fun gevent_exec :: "gop \<Rightarrow> gevent_hub \<Rightarrow> gevent_hub outcome" where
  "gevent_exec (G_init t run) s = Ret (gevent_cothread_init s t (Some run))"
| "gevent_exec (G_exit_fn t f) s = Ret (set_co t (exit_fn_update (\<lambda>_. f)) s)"
| "gevent_exec (G_spawn t) s = gevent_cothread_spawn s t"
| "gevent_exec (G_sleep n) s = gevent_sleep s n"
| "gevent_exec (G_wait n) s = gevent_wait s n"
| "gevent_exec (G_channel ch) s = Ret (gevent_channel_init s (Channel ch))"
| "gevent_exec (G_receive ch) s = gevent_channel_receive s (Channel ch) []"
| "gevent_exec (G_send ch v) s = gevent_channel_send s (Channel ch) v []"
| "gevent_exec (G_semaphore sem n) s = Ret (gevent_semaphore_init s sem n)"
| "gevent_exec (G_acquire sem) s = gevent_semaphore_acquire s sem"
| "gevent_exec (G_release sem) s = gevent_semaphore_release s sem"
| "gevent_exec (G_getaddrinfo mem rc) s = gevent_getaddrinfo s mem rc"
| "gevent_exec G_return s = (case current s of None \<Rightarrow> Abort | Some t \<Rightarrow> cothread_starter_end s t)"
| "gevent_exec (L_time now) s = Ret (s\<lparr>g_loop := (g_loop s)\<lparr>loop_time := now\<rparr>\<rparr>)"
| "gevent_exec L_timer s = loop_timer s"
| "gevent_exec (L_addrinfo req error res) s = loop_addrinfo s req error res"
| "gevent_exec L_end s = hub_starter_end s"
| "gevent_exec (M_memory b) s = Ret (s\<lparr>no_memory := b\<rparr>)"

text \<open>Which step can come next.\<close>

fun gevent_enabled :: "gop \<Rightarrow> gevent_hub \<Rightarrow> bool" where
  "gevent_enabled (L_time now) s \<longleftrightarrow> current s = None \<and> loop_time (g_loop s) \<le> now"
| "gevent_enabled L_timer s \<longleftrightarrow> current s = None"
| "gevent_enabled (L_addrinfo req error res) s \<longleftrightarrow> current s = None \<and> req \<in> set (active_reqs (g_loop s))"
| "gevent_enabled L_end s \<longleftrightarrow> current s = None \<and> \<not> uv__loop_alive (g_loop s)"
| "gevent_enabled G_return s \<longleftrightarrow> current s \<noteq> None \<and> current s \<noteq> Some main_id"
| "gevent_enabled (M_memory b) s \<longleftrightarrow> True"
| "gevent_enabled _ s \<longleftrightarrow> current s \<noteq> None"

fun gevent_run :: "gop list \<Rightarrow> gevent_hub \<Rightarrow> gevent_hub outcome" where
  "gevent_run [] s = Ret s"
| "gevent_run (x # xs) s = (if gevent_enabled x s then obind (gevent_exec x s) (gevent_run xs) else Starve)"

definition blank_hub :: gevent_hub where
  "blank_hub = \<lparr>g_loop = empty_timers 0 (), loop_alive = False, ready = [], hub_stacklet = None,
     cothreads = (\<lambda>_. \<lparr>co_state = GEVENT_COTHREAD_DEAD, op_run = None, op_value = None,
       op_error = None, op_res = 0, co_stacklet = None, exit_fn = None\<rparr>),
     current = None, channels = (\<lambda>_. \<lparr>receivers = [], senders = []\<rparr>), sem_counter = (\<lambda>_. 0),
     req_data = (\<lambda>_. None), no_memory = False, glog = []\<rparr>"

definition fresh_hub :: gevent_hub where
  "fresh_hub = snd (gevent_hub_init blank_hub (empty_timers 0 ()) True)"

end
