(* ===== verification/Gevent_Inv.thy ===== *)
theory Gevent_Inv
  imports Gevent
begin

text \<open>
  The invariant of the scheduler of \<open>src/gevent.c\<close>: in every state that a run reaches, the
  states of the cothreads, the ready queue, the queues of the channels, the suspended stacks,
  the timers and the outstanding requests agree. Every operation keeps it, as long as there is
  memory for the stacklet of the stack that is left. A cothread that is lost in \<open>gevent_wait\<close>
  keeps the state CURRENT, and a resolution of the main cothread may outlive its wait.
\<close>

section \<open>The invariant\<close>

fun passive_frame :: "frame \<Rightarrow> bool" where
  "passive_frame K_sleep = False"
| "passive_frame (K_receive ch) = False"
| "passive_frame (K_send ch) = False"
| "passive_frame K_getaddrinfo = False"
| "passive_frame _ = True"

text \<open>The calls around a blocked channel operation.\<close>

fun chan_rest :: "chan \<Rightarrow> frame list" where
  "chan_rest (Channel n) = []"
| "chan_rest (Sem_channel sem) = [K_semaphore sem]"

definition suspended_with :: "gevent_hub \<Rightarrow> tid \<Rightarrow> frame list \<Rightarrow> bool" where
  "suspended_with s t k \<longleftrightarrow> co_stacklet (cothreads s t) = Some (Some t, k)"

definition stack_ok :: "gevent_hub \<Rightarrow> tid \<Rightarrow> bool" where
  "stack_ok s t \<longleftrightarrow>
     (case state_of s t of
        GEVENT_COTHREAD_CURRENT \<Rightarrow> True
      | GEVENT_COTHREAD_DEAD \<Rightarrow> True
      | GEVENT_COTHREAD_NEW \<Rightarrow> op_run (cothreads s t) \<noteq> None
      | GEVENT_COTHREAD_READY \<Rightarrow> \<exists>k. suspended_with s t k \<and> list_all passive_frame k
      | GEVENT_COTHREAD_CHANNEL_R \<Rightarrow>
          \<exists>ch. suspended_with s t (K_receive ch # chan_rest ch) \<and> t \<in> set (receivers (channels s ch))
      | GEVENT_COTHREAD_CHANNEL_S \<Rightarrow>
          \<exists>ch. suspended_with s t (K_send ch # chan_rest ch) \<and> t \<in> set (senders (channels s ch)) \<and>
            op_value (cothreads s t) \<noteq> None
      | GEVENT_WAITING_TIMER \<Rightarrow> suspended_with s t [K_sleep]
      | GEVENT_WAITING_GETADDRINFO \<Rightarrow> suspended_with s t [K_getaddrinfo]
      | _ \<Rightarrow> False)"

definition ready_ok :: "gevent_hub \<Rightarrow> bool" where
  "ready_ok s \<longleftrightarrow> distinct (ready s) \<and> set (ready s) = {t. state_of s t = GEVENT_COTHREAD_READY}"

definition chan_ok :: "gevent_hub \<Rightarrow> chan \<Rightarrow> bool" where
  "chan_ok s ch \<longleftrightarrow>
     distinct (receivers (channels s ch)) \<and> distinct (senders (channels s ch)) \<and>
     (receivers (channels s ch) = [] \<or> senders (channels s ch) = []) \<and>
     (\<forall>t \<in> set (receivers (channels s ch)). state_of s t = GEVENT_COTHREAD_CHANNEL_R \<and>
        suspended_with s t (K_receive ch # chan_rest ch)) \<and>
     (\<forall>t \<in> set (senders (channels s ch)). state_of s t = GEVENT_COTHREAD_CHANNEL_S \<and>
        suspended_with s t (K_send ch # chan_rest ch))"

definition timers_in :: "timer_loop \<Rightarrow> nat set \<Rightarrow> bool" where
  "timers_in L A \<longleftrightarrow> timer_order.sorted_tree (due_time L) (timer_handles L) \<and>
     set (rb_inorder (timer_handles L)) = A \<and>
     (\<forall>t \<in> A. uv__is_active L t \<and> timer_cb (timers L t) = Some sleep_cb_id \<and>
        timer_repeat (timers L t) = 0)"

definition reqs_ok :: "gevent_hub \<Rightarrow> bool" where
  "reqs_ok s \<longleftrightarrow> distinct (active_reqs (g_loop s)) \<and>
     (\<forall>r \<in> set (active_reqs (g_loop s)). \<exists>t. req_data s r = Some t \<and>
        (t \<noteq> main_id \<longrightarrow> state_of s t = GEVENT_WAITING_GETADDRINFO \<and>
          (\<forall>r' \<in> set (active_reqs (g_loop s)). req_data s r' = Some t \<longrightarrow> r' = r))) \<and>
     (\<forall>t. state_of s t = GEVENT_WAITING_GETADDRINFO \<longrightarrow>
        (\<exists>r \<in> set (active_reqs (g_loop s)). req_data s r = Some t))"

text \<open>\<open>X\<close> is the cothread that runs, \<open>None\<close> while nothing does or the hub runs.\<close>

definition ginv :: "gevent_hub \<Rightarrow> tid option \<Rightarrow> bool" where
  "ginv s X \<longleftrightarrow>
     (\<forall>t. X = Some t \<longrightarrow> state_of s t = GEVENT_COTHREAD_CURRENT) \<and>
     (\<forall>t. state_of s t = GEVENT_COTHREAD_CURRENT \<longrightarrow> X = Some t \<or> suspended_with s t [K_wait]) \<and>
     (\<forall>t. stack_ok s t) \<and> ready_ok s \<and> (\<forall>ch. chan_ok s ch) \<and>
     state_of s main_id \<noteq> GEVENT_COTHREAD_NEW \<and> state_of s main_id \<noteq> GEVENT_COTHREAD_DEAD \<and>
     (hub_stacklet s = None \<or> hub_stacklet s = Some (None, [])) \<and>
     timers_in (g_loop s) {t. state_of s t = GEVENT_WAITING_TIMER} \<and> reqs_ok s"

section \<open>Basic facts\<close>

lemma set_co_simps [simp]:
  "cothreads (set_co t f s) u = (if u = t then f (cothreads s t) else cothreads s u)"
  "g_loop (set_co t f s) = g_loop s" "loop_alive (set_co t f s) = loop_alive s"
  "ready (set_co t f s) = ready s" "hub_stacklet (set_co t f s) = hub_stacklet s"
  "current (set_co t f s) = current s" "channels (set_co t f s) = channels s"
  "sem_counter (set_co t f s) = sem_counter s" "req_data (set_co t f s) = req_data s"
  "glog (set_co t f s) = glog s" "no_memory (set_co t f s) = no_memory s"
  by (simp_all add: set_co_def)

lemma set_channel_simps [simp]:
  "channels (set_channel c x s) = (channels s)(c := x)"
  "cothreads (set_channel c x s) = cothreads s"
  "g_loop (set_channel c x s) = g_loop s" "loop_alive (set_channel c x s) = loop_alive s"
  "ready (set_channel c x s) = ready s" "hub_stacklet (set_channel c x s) = hub_stacklet s"
  "current (set_channel c x s) = current s"
  "sem_counter (set_channel c x s) = sem_counter s" "req_data (set_channel c x s) = req_data s"
  "glog (set_channel c x s) = glog s" "no_memory (set_channel c x s) = no_memory s"
  by (simp_all add: set_channel_def)

lemma add_log_simps [simp]:
  "glog (add_log e s) = glog s @ [e]" "cothreads (add_log e s) = cothreads s"
  "g_loop (add_log e s) = g_loop s" "loop_alive (add_log e s) = loop_alive s"
  "ready (add_log e s) = ready s" "hub_stacklet (add_log e s) = hub_stacklet s"
  "current (add_log e s) = current s" "channels (add_log e s) = channels s"
  "sem_counter (add_log e s) = sem_counter s" "req_data (add_log e s) = req_data s"
  "no_memory (add_log e s) = no_memory s"
  by (simp_all add: add_log_def)

lemma set_state_co: "set_state t x = set_co t (co_state_update (\<lambda>_. x))"
  by (simp add: fun_eq_iff set_state_def)

lemma state_of_update [simp]:
  "state_of (set_state c x s) u = (if u = c then x else state_of s u)"
  "state_of (s\<lparr>g_loop := L\<rparr>) u = state_of s u" "state_of (s\<lparr>ready := r\<rparr>) u = state_of s u"
  "state_of (s\<lparr>req_data := d\<rparr>) u = state_of s u" "state_of (s\<lparr>hub_stacklet := h\<rparr>) u = state_of s u"
  "state_of (add_log e s) u = state_of s u" "state_of (s\<lparr>loop_alive := b\<rparr>) u = state_of s u"
  "state_of (s\<lparr>no_memory := b\<rparr>) u = state_of s u" "state_of (s\<lparr>sem_counter := n\<rparr>) u = state_of s u"
  by (simp_all add: state_of_def set_state_co)

lemma set_state_frame [simp]:
  "g_loop (set_state c x s) = g_loop s" "ready (set_state c x s) = ready s"
  "hub_stacklet (set_state c x s) = hub_stacklet s" "current (set_state c x s) = current s"
  "channels (set_state c x s) = channels s" "req_data (set_state c x s) = req_data s"
  "glog (set_state c x s) = glog s" "no_memory (set_state c x s) = no_memory s"
  by (simp_all add: set_state_co)

lemmas ginv_parts = stack_ok_def ready_ok_def chan_ok_def reqs_ok_def suspended_with_def state_of_def

lemma stack_ok_same:
  assumes "cothreads s' t = cothreads s t" and "channels s' = channels s"
  shows "stack_ok s' t = stack_ok s t"
  unfolding stack_ok_def state_of_def suspended_with_def assms ..

text \<open>The invariant reads neither the log nor the counters nor who is current.\<close>

lemma ginv_cong:
  assumes "ginv s X"
    and "\<And>t. co_state (cothreads s' t) = co_state (cothreads s t) \<and>
      co_stacklet (cothreads s' t) = co_stacklet (cothreads s t) \<and>
      op_run (cothreads s' t) = op_run (cothreads s t) \<and>
      (op_value (cothreads s t) \<noteq> None \<longrightarrow> op_value (cothreads s' t) \<noteq> None)"
    and "ready s' = ready s" "channels s' = channels s" "hub_stacklet s' = hub_stacklet s"
      "g_loop s' = g_loop s" "req_data s' = req_data s"
  shows "ginv s' X"
proof -
  have st: "state_of s' t = state_of s t" "suspended_with s' t k = suspended_with s t k" for t k
    using assms(2) by (simp_all add: state_of_def suspended_with_def)
  have "stack_ok s t \<Longrightarrow> stack_ok s' t" for t
    using assms(2) [of t] unfolding stack_ok_def st assms(4)
    by (cases "state_of s t") auto
  with assms show ?thesis
    by (simp add: ginv_def ready_ok_def chan_ok_def reqs_ok_def st)
qed

lemma ginv_log [simp]: "ginv (add_log e s) X = ginv s X"
  by (rule iffI; erule ginv_cong; simp)

lemma ginv_current [simp]: "ginv (s\<lparr>current := c\<rparr>) X = ginv s X"
  by (rule iffI; erule ginv_cong; simp)

lemma ginv_loop_alive [simp]: "ginv (s\<lparr>loop_alive := b\<rparr>) X = ginv s X"
  by (rule iffI; erule ginv_cong; simp)

lemma ginv_sem_counter [simp]: "ginv (s\<lparr>sem_counter := b\<rparr>) X = ginv s X"
  by (rule iffI; erule ginv_cong; simp)

lemma ginv_no_memory [simp]: "ginv (s\<lparr>no_memory := b\<rparr>) X = ginv s X"
  by (rule iffI; erule ginv_cong; simp)

lemma ginv_hub_stacklet:
  assumes "ginv s X" and "h = None \<or> h = Some (None, [])"
  shows "ginv (s\<lparr>hub_stacklet := h\<rparr>) X"
proof -
  have "stack_ok (s\<lparr>hub_stacklet := h\<rparr>) t = stack_ok s t" for t
    by (rule stack_ok_same) simp_all
  with assms show ?thesis
    by (simp add: ginv_def ready_ok_def chan_ok_def reqs_ok_def state_of_def suspended_with_def)
qed

section \<open>Switches\<close>

text \<open>A switch stores the running stack and enters the target.\<close>

definition park :: "gevent_hub \<Rightarrow> frame list \<Rightarrow> gevent_hub" where
  "park s k =
     (case current s of
        Some c \<Rightarrow> set_co c (co_stacklet_update (\<lambda>_. Some (Some c, k))) s
      | None \<Rightarrow> s\<lparr>hub_stacklet := Some (None, k)\<rparr>)"

definition enter :: "gevent_hub \<Rightarrow> tid option \<Rightarrow> gevent_hub" where
  "enter s new =
     (case new of
        Some n \<Rightarrow> set_co n (\<lambda>x. x\<lparr>co_state := GEVENT_COTHREAD_CURRENT, co_stacklet := None\<rparr>)
          (s\<lparr>current := Some n\<rparr>)
      | None \<Rightarrow> s\<lparr>current := None, hub_stacklet := None\<rparr>)"

definition finish :: "tid \<Rightarrow> frame list \<Rightarrow> gevent_hub \<Rightarrow> gevent_hub outcome" where
  "finish t k s = obind (run_frames t k (R_void, s)) (\<lambda>(r, s). Ret (add_log (Returned t r) s))"

lemma park_simps [simp]:
  "state_of (park s k) t = state_of s t"
  "ready (park s k) = ready s" "channels (park s k) = channels s" "g_loop (park s k) = g_loop s"
  "req_data (park s k) = req_data s" "glog (park s k) = glog s" "no_memory (park s k) = no_memory s"
  "sem_counter (park s k) = sem_counter s"
  "op_value (cothreads (park s k) t) = op_value (cothreads s t)"
  "op_run (cothreads (park s k) t) = op_run (cothreads s t)"
  "park (s\<lparr>ready := r\<rparr>) k = (park s k)\<lparr>ready := r\<rparr>"
  by (auto simp: park_def state_of_def set_co_def split: option.splits)

lemma park_stacklet:
  "Some t \<noteq> current s \<Longrightarrow> co_stacklet (cothreads (park s k) t) = co_stacklet (cothreads s t)"
  by (auto simp: park_def split: option.splits)

lemma after_switch_source:
  "current s \<noteq> new \<Longrightarrow> after_switch s new (Source (current s, k)) = Ret (enter (park s k) new)"
  by (cases "current s"; cases new) (auto simp: after_switch_def enter_def park_def Let_def set_co_def)

lemma resume_cothread:
  "Some t \<noteq> current s \<Longrightarrow> stacklet_resume s (Some t, fs) (Source (current s, k)) =
     finish t fs (enter (park s k) (Some t))"
  by (simp add: stacklet_resume_def after_switch_source finish_def)

lemma resume_hub:
  "current s \<noteq> None \<Longrightarrow> stacklet_resume s (None, fs) (Source (current s, k)) = Ret (enter (park s k) None)"
  by (simp add: stacklet_resume_def after_switch_source)

text \<open>The death of the current cothread, without the call of its exit function.\<close>

definition bury :: "tid \<Rightarrow> gevent_hub \<Rightarrow> gevent_hub" where
  "bury c s = set_co c (\<lambda>x. x\<lparr>co_state := GEVENT_COTHREAD_DEAD, co_stacklet := None\<rparr>) s"

definition obituary :: "tid \<Rightarrow> gevent_hub \<Rightarrow> gevent_hub" where
  "obituary c s = (case exit_fn (cothreads s c) of None \<Rightarrow> s | Some f \<Rightarrow> add_log (Exited c f) s)"

lemma after_switch_empty:
  assumes "current s = Some c" and "c \<noteq> main_id" and "state_of s c = GEVENT_COTHREAD_CURRENT"
    and "new \<noteq> Some c"
  shows "after_switch s new EMPTY_STACKLET_HANDLE = Ret (obituary c (enter (bury c s) new))"
  using assms
  by (cases new) (auto simp: after_switch_def enter_def bury_def obituary_def Let_def set_co_def
      split: option.splits)

lemma after_switch_hub_empty:
  assumes "current s = None" and "new = Some t" and "hub_stacklet s = None"
  shows "after_switch s new EMPTY_STACKLET_HANDLE = Ret (enter s new)"
proof -
  have "s\<lparr>hub_stacklet := None\<rparr> = s" using assms(3) by simp
  with assms show ?thesis
    by (simp add: after_switch_def enter_def Let_def set_co_def)
qed


section \<open>The timers of the sleeping cothreads\<close>

lemma timer_loop_unref_frame [simp]:
  "timers (uv__handle_unref L h) = timers L" "timer_handles (uv__handle_unref L h) = timer_handles L"
  by (simp_all add: handle_op_defs uv__active_handle_rm_def set_flags_def)

lemma timers_in_unref: "timers_in (uv_unref L t) A = timers_in L A"
proof -
  have "due_time (uv_unref L t) = due_time L"
    by (simp add: fun_eq_iff due_time_def uv_unref_def)
  then show ?thesis by (simp add: timers_in_def) (simp add: uv_unref_def)
qed

lemma timers_in_time: "timers_in (L\<lparr>loop_time := now\<rparr>) A = timers_in L A"
proof -
  have "due_time (L\<lparr>loop_time := now\<rparr>) = due_time L" by (simp add: fun_eq_iff due_time_def)
  then show ?thesis by (simp add: timers_in_def uv__is_active_def flags_of_def)
qed

lemma timers_in_reqs: "timers_in (L\<lparr>active_reqs := rs\<rparr>) A = timers_in L A"
proof -
  have "due_time (L\<lparr>active_reqs := rs\<rparr>) = due_time L" by (simp add: fun_eq_iff due_time_def)
  then show ?thesis by (simp add: timers_in_def uv__is_active_def flags_of_def)
qed

lemma timers_in_err: "timers_in (L\<lparr>last_err := e\<rparr>) A = timers_in L A"
proof -
  have "due_time (L\<lparr>last_err := e\<rparr>) = due_time L" by (simp add: fun_eq_iff due_time_def)
  then show ?thesis by (simp add: timers_in_def uv__is_active_def flags_of_def)
qed

lemma timers_in_stop:
  assumes "timers_in L A" and "t \<in> A"
  shows "\<exists>L'. uv_timer_stop L t = Ret (0, L') \<and> timers_in L' (A - {t}) \<and>
    active_reqs L' = active_reqs L \<and> timers L' = timers L \<and> \<not> uv__is_active L' t"
proof -
  have s: "timer_order.sorted_tree (due_time L) (timer_handles L)"
    and set: "set (rb_inorder (timer_handles L)) = A" and act: "uv__is_active L t"
    using assms by (auto simp: timers_in_def)
  obtain tr where tr: "rb_remove t (timer_handles L) = Some tr"
      "timer_order.sorted_tree (due_time L) tr"
      "rb_inorder tr = remove1 t (rb_inorder (timer_handles L))"
    using timer_order.remove_present [OF s, of t] assms(2) set by blast
  let ?L' = "uv__handle_stop (L\<lparr>timer_handles := tr\<rparr>) t"
  have due: "due_time ?L' = due_time L" by (simp add: fun_eq_iff due_time_def)
  have "set (rb_inorder tr) = A - {t}"
    using tr(3) set timer_order.sorted_tree_distinct [OF s] by (simp add: set_remove1_eq)
  then have "timers_in ?L' (A - {t})"
    using tr(2) assms(1) by (auto simp: timers_in_def due)
  moreover have "uv_timer_stop L t = Ret (0, ?L')" by (simp add: uv_timer_stop_def act tr(1))
  ultimately show ?thesis by (intro exI [of _ ?L']) simp
qed

lemma timers_in_start:
  assumes "timers_in L A" and "t \<notin> A" and "0 \<le> sint n"
  shows "\<exists>L'. uv_timer_start (snd (uv_timer_init L t)) t (Some sleep_cb_id) n 0 = Ret (0, L') \<and>
    timers_in L' (insert t A) \<and> active_reqs L' = active_reqs L \<and>
    due_time L' t = loop_time L + n"
proof -
  let ?M = "snd (uv_timer_init L t)"
  have M: "?M = set_timer t ((timers L t)\<lparr>timer_cb := None\<rparr>) (uv__handle_init L t UV_TIMER)"
    by (simp add: uv_timer_init_def Let_def)
  have inact: "\<not> uv__is_active ?M t" by (simp add: M)
  let ?T = "\<lparr>timer_cb = Some sleep_cb_id, timer_timeout = loop_time L + n, timer_repeat = 0\<rparr>"
  let ?N = "set_timer t ?T ?M"
  have notin: "t \<notin> set (rb_inorder (timer_handles L))" using assms(1,2) by (simp add: timers_in_def)
  have s: "timer_order.sorted_tree (due_time ?N) (timer_handles L)"
    by (rule sorted_tree_cong [of "due_time L"])
      (use assms(1) notin in \<open>auto simp: timers_in_def due_time_def M\<close>)
  obtain tr xs ys where tr: "rb_insert (uv__timer_cmp (due_time ?N)) t (timer_handles L) = Some (None, tr)"
      "timer_order.sorted_tree (due_time ?N) tr"
      "rb_inorder (timer_handles L) = xs @ ys" "rb_inorder tr = xs @ t # ys"
    using timer_order.insert_new [OF s, of t] notin by (auto simp: uv__timer_cmp_zero)
  let ?L' = "uv__handle_start (?N\<lparr>timer_handles := tr\<rparr>) t"
  have "timer_handles ?M = timer_handles L" "loop_time ?M = loop_time L" by (simp_all add: M)
  then have ret: "uv_timer_start ?M t (Some sleep_cb_id) n 0 = Ret (0, ?L')"
    using inact assms(3) tr(1) by (simp add: uv_timer_start_def Let_def)
  have due: "due_time ?L' = due_time ?N" by (simp add: fun_eq_iff due_time_def)
  have set: "set (rb_inorder tr) = insert t A"
    using tr(3,4) assms(1) by (auto simp: timers_in_def)
  have "timers_in ?L' (insert t A)"
    unfolding timers_in_def
  proof (intro conjI ballI)
    show "timer_order.sorted_tree (due_time ?L') (timer_handles ?L')" using tr(2) due by simp
    show "set (rb_inorder (timer_handles ?L')) = insert t A" using set by simp
  next
    fix u assume "u \<in> insert t A"
    then show "uv__is_active ?L' u" "timer_cb (timers ?L' u) = Some sleep_cb_id"
      "timer_repeat (timers ?L' u) = 0"
      using assms(1) by (auto simp: timers_in_def M)
  qed
  moreover have "active_reqs ?L' = active_reqs L" by (simp add: M set_timer_def)
  moreover have "due_time ?L' t = loop_time L + n" by (simp add: due_time_def)
  ultimately show ?thesis using ret by (intro exI [of _ ?L']) simp
qed

section \<open>Waking a cothread\<close>

lemma stack_ok_channels:
  assumes "stack_ok p u" and "\<And>ch. u \<in> set (receivers (channels p ch)) \<Longrightarrow> u \<in> set (receivers (channels s ch))"
    and "\<And>ch. u \<in> set (senders (channels p ch)) \<Longrightarrow> u \<in> set (senders (channels s ch))"
    and "cothreads s u = cothreads p u"
  shows "stack_ok s u"
proof -
  have "state_of s u = state_of p u" "suspended_with s u k = suspended_with p u k" for k
    using assms(4) by (simp_all add: state_of_def suspended_with_def)
  with assms show ?thesis
    unfolding stack_ok_def by (cases "state_of p u") auto
qed

text \<open>
  What makes a suspended cothread \<open>t\<close> the running one: its state changes and it leaves every
  queue it is in.
\<close>

lemma ginv_wake:
  assumes inv: "ginv p None"
    and other: "\<And>u. u \<noteq> t \<Longrightarrow> cothreads s u = cothreads p u"
    and cur: "state_of s t = GEVENT_COTHREAD_CURRENT"
    and ready: "ready s = remove1 t (ready p)"
    and recv: "\<And>ch. receivers (channels s ch) = remove1 t (receivers (channels p ch))"
    and send: "\<And>ch. senders (channels s ch) = remove1 t (senders (channels p ch))"
    and hub: "hub_stacklet s = hub_stacklet p"
    and timers: "timers_in (g_loop s) ({u. state_of p u = GEVENT_WAITING_TIMER} - {t})"
    and reqs: "reqs_ok s"
  shows "ginv s (Some t)"
proof -
  have st: "state_of s u = state_of p u" if "u \<noteq> t" for u
    using other [OF that] by (simp add: state_of_def)
  have sw: "suspended_with s u k = suspended_with p u k" if "u \<noteq> t" for u k
    using other [OF that] by (simp add: suspended_with_def)
  have rq: "distinct (ready p)" "set (ready p) = {u. state_of p u = GEVENT_COTHREAD_READY}"
    using inv by (simp_all add: ginv_def ready_ok_def)
  have ch: "chan_ok p ch" for ch using inv by (simp add: ginv_def)
  have setR: "set (receivers (channels s ch)) = set (receivers (channels p ch)) - {t}"
    and setS: "set (senders (channels s ch)) = set (senders (channels p ch)) - {t}" for ch
    using ch [of ch] by (simp_all add: recv send chan_ok_def set_remove1_eq)
  have stacks: "stack_ok s u" for u
  proof (cases "u = t")
    case True
    with cur show ?thesis by (simp add: stack_ok_def)
  next
    case False
    show ?thesis
      by (rule stack_ok_channels [of p]) (use False inv other setR setS in \<open>auto simp: ginv_def\<close>)
  qed
  have chans: "chan_ok s c" for c
    unfolding chan_ok_def
  proof (intro conjI ballI)
    show "distinct (receivers (channels s c))" "distinct (senders (channels s c))"
      "receivers (channels s c) = [] \<or> senders (channels s c) = []"
      using ch [of c] by (auto simp: recv send chan_ok_def)
  next
    fix u assume "u \<in> set (receivers (channels s c))"
    then have u: "u \<noteq> t" "u \<in> set (receivers (channels p c))" using setR by auto
    with ch [of c] show "state_of s u = GEVENT_COTHREAD_CHANNEL_R"
      "suspended_with s u (K_receive c # chan_rest c)"
      by (simp_all add: st sw chan_ok_def)
  next
    fix u assume "u \<in> set (senders (channels s c))"
    then have u: "u \<noteq> t" "u \<in> set (senders (channels p c))" using setS by auto
    with ch [of c] show "state_of s u = GEVENT_COTHREAD_CHANNEL_S"
      "suspended_with s u (K_send c # chan_rest c)"
      by (simp_all add: st sw chan_ok_def)
  qed
  have cur_ok: "state_of s u = GEVENT_COTHREAD_CURRENT \<Longrightarrow> Some t = Some u \<or> suspended_with s u [K_wait]" for u
    using inv cur st [of u] sw [of u] by (cases "u = t") (auto simp: ginv_def)
  have sets: "{u. state_of s u = x} = {u. state_of p u = x} - {t}"
    if "x \<noteq> GEVENT_COTHREAD_CURRENT" for x
  proof (rule set_eqI)
    fix u show "u \<in> {u. state_of s u = x} \<longleftrightarrow> u \<in> {u. state_of p u = x} - {t}"
      using that cur st [of u] by (cases "u = t") auto
  qed
  have "ready_ok s"
    using rq by (simp add: ready_ok_def ready set_remove1_eq sets)
  moreover have "{u. state_of s u = GEVENT_WAITING_TIMER} = {u. state_of p u = GEVENT_WAITING_TIMER} - {t}"
    by (rule sets) simp
  moreover have "state_of s main_id \<noteq> GEVENT_COTHREAD_NEW \<and> state_of s main_id \<noteq> GEVENT_COTHREAD_DEAD"
    using inv cur st [of main_id] by (cases "main_id = t") (auto simp: ginv_def)
  ultimately show ?thesis
    using inv hub cur cur_ok stacks chans timers reqs by (auto simp: ginv_def)
qed


lemma run_frames_passive:
  "list_all passive_frame k \<Longrightarrow> \<exists>r'. run_frames t k (r, s) = Ret (r', s)"
proof (induction k arbitrary: r)
  case (Cons f k)
  then obtain r1 where "run_frame t f (r, s) = Ret (r1, s)" by (cases f) auto
  with Cons show ?case by simp
qed simp

lemma chan_rest_passive: "list_all passive_frame (chan_rest ch)"
  by (cases ch) simp_all

lemma enter_simps [simp]:
  "state_of (enter p (Some t)) u = (if u = t then GEVENT_COTHREAD_CURRENT else state_of p u)"
  "ready (enter p n) = ready p" "channels (enter p n) = channels p" "g_loop (enter p n) = g_loop p"
  "req_data (enter p n) = req_data p" "glog (enter p n) = glog p" "current (enter p n) = n"
  "hub_stacklet (enter p (Some t)) = hub_stacklet p" "hub_stacklet (enter p None) = None"
  "u \<noteq> t \<Longrightarrow> cothreads (enter p (Some t)) u = cothreads p u"
  "cothreads (enter p None) = cothreads p"
  "op_value (cothreads (enter p n) u) = op_value (cothreads p u)"
  "sem_counter (enter p n) = sem_counter p" "no_memory (enter p n) = no_memory p"
  by (auto simp: enter_def state_of_def split: option.splits)

lemma reqs_owner:
  assumes "reqs_ok s" and "r \<in> set (active_reqs (g_loop s))"
  shows "\<exists>t. req_data s r = Some t \<and> (t \<noteq> main_id \<longrightarrow> state_of s t = GEVENT_WAITING_GETADDRINFO \<and>
    (\<forall>r' \<in> set (active_reqs (g_loop s)). req_data s r' = Some t \<longrightarrow> r' = r))"
  using assms by (simp add: reqs_ok_def)

lemma reqs_ok_mono:
  assumes "reqs_ok p" and "active_reqs (g_loop s) = active_reqs (g_loop p)" and "req_data s = req_data p"
    and "\<And>u. u \<noteq> main_id \<Longrightarrow>
      state_of s u = GEVENT_WAITING_GETADDRINFO \<longleftrightarrow> state_of p u = GEVENT_WAITING_GETADDRINFO"
    and "state_of s main_id = GEVENT_WAITING_GETADDRINFO \<Longrightarrow> state_of p main_id = GEVENT_WAITING_GETADDRINFO"
  shows "reqs_ok s"
proof -
  have "state_of p t = GEVENT_WAITING_GETADDRINFO" if "state_of s t = GEVENT_WAITING_GETADDRINFO" for t
    using that assms(4,5) by (cases "t = main_id") auto
  with assms show ?thesis by (simp add: reqs_ok_def)
qed

lemma reqs_ok_cong:
  assumes "reqs_ok p" and "active_reqs (g_loop s) = active_reqs (g_loop p)" and "req_data s = req_data p"
    and "\<And>u. state_of s u = GEVENT_WAITING_GETADDRINFO \<longleftrightarrow> state_of p u = GEVENT_WAITING_GETADDRINFO"
  shows "reqs_ok s"
  by (rule reqs_ok_mono [OF assms(1,2,3)]) (use assms(4) in auto)

text \<open>A step changes the states of no cothreads but the one it leaves and the one it enters.\<close>

definition sframe :: "gevent_hub \<Rightarrow> gevent_hub \<Rightarrow> bool" where
  "sframe s s' \<longleftrightarrow>
     (\<forall>u. current s \<noteq> Some u \<longrightarrow> current s' \<noteq> Some u \<longrightarrow> state_of s' u = state_of s u)"

definition wake_frame :: "gevent_hub \<Rightarrow> tid \<Rightarrow> gevent_hub \<Rightarrow> bool" where
  "wake_frame p t s \<longleftrightarrow> current s = Some t \<and> ready s = remove1 t (ready p) \<and>
     hub_stacklet s = hub_stacklet p \<and> sem_counter s = sem_counter p \<and>
     (\<forall>u. u \<noteq> t \<longrightarrow> cothreads s u = cothreads p u) \<and>
     (\<forall>ch. channels s ch = \<lparr>receivers = remove1 t (receivers (channels p ch)),
       senders = remove1 t (senders (channels p ch))\<rparr>)"

lemma sframe_wake:
  assumes "wake_frame p t s'" and "\<And>u. current s \<noteq> Some u \<Longrightarrow> u \<noteq> t \<Longrightarrow> state_of p u = state_of s u"
  shows "sframe s s'"
proof -
  have "state_of s' u = state_of p u" if "u \<noteq> t" for u
    using assms(1) that by (simp add: wake_frame_def state_of_def)
  with assms show ?thesis by (auto simp: sframe_def wake_frame_def)
qed

lemma chan_members:
  assumes "ginv p X"
  shows "t \<in> set (receivers (channels p ch)) \<Longrightarrow> state_of p t = GEVENT_COTHREAD_CHANNEL_R \<and>
      suspended_with p t (K_receive ch # chan_rest ch)"
    and "t \<in> set (senders (channels p ch)) \<Longrightarrow> state_of p t = GEVENT_COTHREAD_CHANNEL_S \<and>
      suspended_with p t (K_send ch # chan_rest ch)"
  using assms by (auto simp: ginv_def chan_ok_def)

lemma not_in_channels:
  assumes "ginv p X" and "state_of p t \<noteq> GEVENT_COTHREAD_CHANNEL_R" and "state_of p t \<noteq> GEVENT_COTHREAD_CHANNEL_S"
  shows "remove1 t (receivers (channels p ch)) = receivers (channels p ch)"
    "remove1 t (senders (channels p ch)) = senders (channels p ch)"
  using chan_members [OF assms(1), of t ch] assms(2,3) by (auto intro: remove1_idem)

lemma wake_ok:
  assumes inv: "ginv p None" and stk: "co_stacklet (cothreads p t) = Some (Some t, fs)"
    and susp: "state_of p t \<notin> {GEVENT_COTHREAD_NEW, GEVENT_COTHREAD_DEAD}"
    and res: "state_of p t = GEVENT_WAITING_GETADDRINFO \<Longrightarrow> t = main_id"
  shows "\<exists>s r. finish t fs (enter (p\<lparr>ready := remove1 t (ready p)\<rparr>) (Some t)) = Ret s \<and>
    ginv s (Some t) \<and> wake_frame p t s \<and> glog s = glog p @ [Returned t r] \<and>
    (\<forall>ch. state_of p t = GEVENT_COTHREAD_CHANNEL_R \<longrightarrow> t \<in> set (receivers (channels p (Channel ch))) \<longrightarrow>
       r = R_value (op_value (cothreads p t))) \<and>
    (\<forall>ch. state_of p t = GEVENT_COTHREAD_CHANNEL_S \<longrightarrow> t \<in> set (senders (channels p (Channel ch))) \<longrightarrow>
       r = R_void)"
proof -
  let ?q = "p\<lparr>ready := remove1 t (ready p)\<rparr>"
  let ?e = "enter ?q (Some t)"
  have ok: "stack_ok p t" "state_of p t = GEVENT_COTHREAD_CURRENT \<Longrightarrow> suspended_with p t [K_wait]" "reqs_ok p"
      and tim: "timers_in (g_loop p) {u. state_of p u = GEVENT_WAITING_TIMER}"
    using inv by (auto simp: ginv_def)
  have q: "state_of ?q u = state_of p u" for u by (simp add: state_of_def)
  have reqs: "reqs_ok s" if "active_reqs (g_loop s) = active_reqs (g_loop p)" "req_data s = req_data p"
      "\<And>u. state_of s u = state_of ?e u" for s
    by (rule reqs_ok_mono [OF ok(3)]) (use that res q in \<open>auto split: if_splits\<close>)
  consider (ready) "state_of p t \<in> {GEVENT_COTHREAD_READY, GEVENT_COTHREAD_CURRENT, GEVENT_WAITING_GETADDRINFO}"
      "\<exists>r. run_frames t fs (R_void, ?e) = Ret (r, ?e)"
    | (recv) ch where "state_of p t = GEVENT_COTHREAD_CHANNEL_R" "fs = K_receive ch # chan_rest ch"
        "t \<in> set (receivers (channels p ch))"
    | (send) ch where "state_of p t = GEVENT_COTHREAD_CHANNEL_S" "fs = K_send ch # chan_rest ch"
        "t \<in> set (senders (channels p ch))"
    | (timer) "state_of p t = GEVENT_WAITING_TIMER" "fs = [K_sleep]"
    using ok(1,2) susp stk run_frames_passive [of fs t R_void ?e] unfolding stack_ok_def suspended_with_def
    by (cases "state_of p t") (auto simp: Let_def)
  then show ?thesis
  proof cases
    case ready
    obtain r where r: "run_frames t fs (R_void, ?e) = Ret (r, ?e)" using ready(2) by blast
    have noch: "remove1 t (receivers (channels p ch)) = receivers (channels p ch)"
        "remove1 t (senders (channels p ch)) = senders (channels p ch)" for ch
      by (rule not_in_channels [OF inv]; use ready(1) in auto)+
    have "state_of p t \<noteq> GEVENT_WAITING_TIMER" using ready(1) by auto
    then have "ginv ?e (Some t)"
      by (intro ginv_wake [OF inv]) (use tim noch reqs [of ?e] in \<open>auto simp: Diff_insert0\<close>)
    then show ?thesis
      using r noch ready(1) by (auto simp: finish_def wake_frame_def)
  next
    case (recv ch)
    let ?s = "set_channel ch ((channels p ch)\<lparr>receivers := remove1 t (receivers (channels p ch))\<rparr>) ?e"
    obtain r where r: "run_frames t (chan_rest ch) (R_value (op_value (cothreads p t)), ?s) = Ret (r, ?s)"
      and r2: "\<And>n. ch = Channel n \<Longrightarrow> r = R_value (op_value (cothreads p t))"
      by (cases ch) simp_all
    have only: "t \<notin> set (receivers (channels p c))" if "c \<noteq> ch" for c
      using chan_members(1) [OF inv, of t c] that recv(2) stk by (auto simp: suspended_with_def)
    have nosend: "t \<notin> set (senders (channels p c))" for c
      using chan_members(2) [OF inv, of t c] recv(1) by auto
    have chans: "receivers (channels ?s c) = remove1 t (receivers (channels p c))"
        "senders (channels ?s c) = remove1 t (senders (channels p c))" for c
      using only [of c] nosend [of c] by (simp_all add: remove1_idem)
    have "ginv ?s (Some t)"
      by (rule ginv_wake [OF inv])
        (use tim chans recv(1) reqs [of ?s] in \<open>auto simp: Diff_insert0 state_of_def enter_def\<close>)
    moreover have "c = ch" if "t \<in> set (receivers (channels p c))" for c
      using only that by blast
    moreover have "channels ?s c = \<lparr>receivers = remove1 t (receivers (channels p c)),
       senders = remove1 t (senders (channels p c))\<rparr>" for c
      using chans by (metis gevent_channel.surjective old.unit.exhaust)
    ultimately show ?thesis
      using r r2 recv(1,2) by (auto simp: finish_def wake_frame_def Let_def)
  next
    case (send ch)
    let ?s = "set_channel ch ((channels p ch)\<lparr>senders := remove1 t (senders (channels p ch))\<rparr>) ?e"
    obtain r where r: "run_frames t (chan_rest ch) (R_void, ?s) = Ret (r, ?s)"
      and r2: "\<And>n. ch = Channel n \<Longrightarrow> r = R_void"
      by (cases ch) simp_all
    have only: "t \<notin> set (senders (channels p c))" if "c \<noteq> ch" for c
      using chan_members(2) [OF inv, of t c] that send(2) stk by (auto simp: suspended_with_def)
    have norecv: "t \<notin> set (receivers (channels p c))" for c
      using chan_members(1) [OF inv, of t c] send(1) by auto
    have chans: "receivers (channels ?s c) = remove1 t (receivers (channels p c))"
        "senders (channels ?s c) = remove1 t (senders (channels p c))" for c
      using only [of c] norecv [of c] by (simp_all add: remove1_idem)
    have "ginv ?s (Some t)"
      by (rule ginv_wake [OF inv])
        (use tim chans send(1) reqs [of ?s] in \<open>auto simp: Diff_insert0 state_of_def enter_def\<close>)
    moreover have "c = ch" if "t \<in> set (senders (channels p c))" for c
      using only that by blast
    moreover have "channels ?s c = \<lparr>receivers = remove1 t (receivers (channels p c)),
       senders = remove1 t (senders (channels p c))\<rparr>" for c
      using chans by (metis gevent_channel.surjective old.unit.exhaust)
    ultimately show ?thesis
      using r r2 send(1,2) by (auto simp: finish_def wake_frame_def Let_def)
  next
    case timer
    obtain L where L: "uv_timer_stop (g_loop p) t = Ret (0, L)"
        "timers_in L ({u. state_of p u = GEVENT_WAITING_TIMER} - {t})"
        "active_reqs L = active_reqs (g_loop p)"
      using timers_in_stop [OF tim, of t] timer(1) by auto
    let ?s = "?e\<lparr>g_loop := L\<rparr>"
    have noch: "remove1 t (receivers (channels p ch)) = receivers (channels p ch)"
        "remove1 t (senders (channels p ch)) = senders (channels p ch)" for ch
      by (rule not_in_channels [OF inv]; simp add: timer(1))+
    have "ginv ?s (Some t)"
      by (rule ginv_wake [OF inv])
        (use L noch timer(1) reqs [of ?s] in \<open>auto simp: state_of_def enter_def\<close>)
    then show ?thesis
      using L timer noch by (simp add: finish_def wake_frame_def)
  qed
qed


lemma start_new:
  assumes inv: "ginv p None" and new: "state_of p t = GEVENT_COTHREAD_NEW"
  shows "ginv (enter p (Some t)) (Some t) \<and> wake_frame p t (enter p (Some t))"
proof -
  have noch: "remove1 t (receivers (channels p ch)) = receivers (channels p ch)"
      "remove1 t (senders (channels p ch)) = senders (channels p ch)" for ch
    by (rule not_in_channels [OF inv]; simp add: new)+
  have notready: "remove1 t (ready p) = ready p"
    using inv new by (intro remove1_idem) (auto simp: ginv_def ready_ok_def)
  have "reqs_ok (enter p (Some t))"
    by (rule reqs_ok_cong [of p]) (use inv new in \<open>auto simp: ginv_def\<close>)
  then have "ginv (enter p (Some t)) (Some t)"
    by (intro ginv_wake [OF inv]) (use inv new noch notready in \<open>auto simp: ginv_def Diff_insert0\<close>)
  with noch notready show ?thesis by (simp add: wake_frame_def)
qed

lemma enter_hub: "ginv p None \<Longrightarrow> ginv (enter p None) None"
  by (simp add: enter_def ginv_hub_stacklet)

text \<open>What a switch to \<open>t\<close> does, when the running stack has been brought into a state to park.\<close>

lemma ready_noop: "remove1 t (ready s) = ready s \<Longrightarrow> s\<lparr>ready := remove1 t (ready s)\<rparr> = s"
  by simp

lemma susp_stacklet:
  assumes "stack_ok p t"
    and "state_of p t \<notin> {GEVENT_COTHREAD_NEW, GEVENT_COTHREAD_DEAD, GEVENT_COTHREAD_CURRENT}"
  shows "\<exists>fs. co_stacklet (cothreads p t) = Some (Some t, fs)"
  using assms unfolding stack_ok_def suspended_with_def by (cases "state_of p t") auto

text \<open>Without memory for a stacklet, no switch returns.\<close>

lemma switch_no_memory: "no_memory s \<Longrightarrow> gevent_switch s t k = Abort"
  by (cases "co_stacklet (cothreads s t)")
    (simp_all add: gevent_switch_def before_switch_def stacklet_or_abort_def assert_that_def)

lemma hub_no_memory: "no_memory s \<Longrightarrow> gevent_switch_to_hub s k = Abort"
  by (simp add: gevent_switch_to_hub_def before_switch_def stacklet_or_abort_def assert_that_def)

lemma yield_no_memory: "no_memory s \<Longrightarrow> gevent_yield s k = Abort"
  by (simp add: gevent_yield_def switch_no_memory hub_no_memory assert_that_def split: list.split)

lemma switch_ok:
  assumes inv: "ginv (park s k) None" and mem: "\<not> no_memory s" and ne: "Some t \<noteq> current s"
    and st: "state_of s t \<notin> {GEVENT_COTHREAD_DEAD, GEVENT_WAITING_GETADDRINFO, GEVENT_COTHREAD_CURRENT}"
  shows "\<exists>s' e. gevent_switch (s\<lparr>ready := remove1 t (ready s)\<rparr>) t k = Ret s' \<and>
    ginv s' (Some t) \<and> wake_frame (park s k) t s' \<and> glog s' = glog s @ [e] \<and>
    (state_of s t = GEVENT_COTHREAD_NEW \<longrightarrow> e = Started t (the (op_run (cothreads s t)))) \<and>
    (state_of s t \<noteq> GEVENT_COTHREAD_NEW \<longrightarrow> (\<exists>r. e = Returned t r \<and>
      (\<forall>ch. state_of s t = GEVENT_COTHREAD_CHANNEL_R \<longrightarrow> t \<in> set (receivers (channels s (Channel ch))) \<longrightarrow>
         r = R_value (op_value (cothreads s t))) \<and>
      (\<forall>ch. state_of s t = GEVENT_COTHREAD_CHANNEL_S \<longrightarrow> t \<in> set (senders (channels s (Channel ch))) \<longrightarrow>
         r = R_void)))"
proof -
  let ?q = "s\<lparr>ready := remove1 t (ready s)\<rparr>"
  have q: "state_of ?q u = state_of s u" for u by (simp add: state_of_def)
  have cur: "state_of s t \<noteq> GEVENT_COTHREAD_CURRENT" and ok: "stack_ok (park s k) t"
    using inv st by (auto simp: ginv_def)
  have pq: "park ?q k = (park s k)\<lparr>ready := remove1 t (ready (park s k))\<rparr>"
    by simp
  show ?thesis
  proof (cases "state_of s t = GEVENT_COTHREAD_NEW")
    case True
    then obtain run where run: "op_run (cothreads s t) = Some run"
      using ok by (auto simp: stack_ok_def)
    have "t \<notin> set (ready s)" using inv True by (auto simp: ginv_def ready_ok_def)
    then have same: "?q = s" by (simp add: remove1_idem)
    have "gevent_switch s t k = Ret (add_log (Started t run) (enter (park s k) (Some t)))"
      using ne mem True run after_switch_source [of s "Some t" k]
      by (simp add: gevent_switch_def before_switch_def stacklet_or_abort_def cothread_starter_fn_def)
    with same True run start_new [OF inv, of t] show ?thesis
      by (simp add: wake_frame_def)
  next
    case False
    obtain fs where fs: "co_stacklet (cothreads (park s k) t) = Some (Some t, fs)"
      using susp_stacklet [OF ok] False st cur by auto
    then have fs': "co_stacklet (cothreads s t) = Some (Some t, fs)"
      using park_stacklet [OF ne] by simp
    have sw: "gevent_switch ?q t k = finish t fs (enter (park ?q k) (Some t))"
      using False st cur ne mem fs' resume_cothread [of t ?q fs k]
      by (simp add: gevent_switch_def before_switch_def stacklet_or_abort_def q)
    from wake_ok [OF inv fs] False st obtain s' r where s':
      "finish t fs (enter (park ?q k) (Some t)) = Ret s'" "ginv s' (Some t)"
      "wake_frame (park s k) t s'" "glog s' = glog (park s k) @ [Returned t r]"
      "\<forall>ch. state_of s t = GEVENT_COTHREAD_CHANNEL_R \<longrightarrow> t \<in> set (receivers (channels s (Channel ch))) \<longrightarrow>
         r = R_value (op_value (cothreads s t))"
      "\<forall>ch. state_of s t = GEVENT_COTHREAD_CHANNEL_S \<longrightarrow> t \<in> set (senders (channels s (Channel ch))) \<longrightarrow>
         r = R_void"
      unfolding pq by auto
    then show ?thesis using sw False by simp
  qed
qed

lemma switch_idle:
  assumes inv: "ginv (park s k) None" and mem: "\<not> no_memory s" and ne: "Some t \<noteq> current s"
    and st: "state_of s t \<notin> {GEVENT_COTHREAD_DEAD, GEVENT_WAITING_GETADDRINFO, GEVENT_COTHREAD_CURRENT}"
    and idle: "t \<notin> set (ready s)"
  shows "\<exists>s' e. gevent_switch s t k = Ret s' \<and> ginv s' (Some t) \<and> wake_frame (park s k) t s' \<and>
    glog s' = glog s @ [e] \<and>
    (state_of s t = GEVENT_COTHREAD_NEW \<longrightarrow> e = Started t (the (op_run (cothreads s t)))) \<and>
    (state_of s t \<noteq> GEVENT_COTHREAD_NEW \<longrightarrow> (\<exists>r. e = Returned t r \<and>
      (\<forall>ch. state_of s t = GEVENT_COTHREAD_CHANNEL_R \<longrightarrow> t \<in> set (receivers (channels s (Channel ch))) \<longrightarrow>
         r = R_value (op_value (cothreads s t))) \<and>
      (\<forall>ch. state_of s t = GEVENT_COTHREAD_CHANNEL_S \<longrightarrow> t \<in> set (senders (channels s (Channel ch))) \<longrightarrow>
         r = R_void)))"
  using switch_ok [OF inv mem ne st] unfolding ready_noop [OF remove1_idem [OF idle]] .

lemma yield_ok:
  assumes inv: "ginv (park s k) None" and mem: "\<not> no_memory s" and cur: "current s = Some c"
    and st: "state_of s c \<noteq> GEVENT_COTHREAD_READY"
  shows "\<exists>s'. gevent_yield s k = Ret s' \<and> ginv s' (current s') \<and> sframe s s' \<and>
    (case ready s of
       t # _ \<Rightarrow> current s' = Some t \<and> wake_frame (park s k) t s' \<and> (\<exists>r. glog s' = glog s @ [Returned t r])
     | [] \<Rightarrow> current s' = None \<and> s' = enter (park s k) None \<or>
         current s' = None \<and> s' = (enter (park s k) None)\<lparr>loop_alive := True\<rparr>)"
proof (cases "ready s")
  case Nil
  have g: "ginv (enter (park s k) None) None" by (rule enter_hub [OF inv])
  have hub: "hub_stacklet s = None \<or> hub_stacklet s = Some (None, [])"
    using inv cur by (simp add: ginv_def park_def)
  then show ?thesis
  proof
    assume "hub_stacklet s = None"
    then have "gevent_yield s k = Ret ((enter (park s k) None)\<lparr>loop_alive := True\<rparr>)"
      using Nil cur mem after_switch_source [of s None k]
      by (simp add: gevent_yield_def gevent_switch_to_hub_def before_switch_def stacklet_or_abort_def
          hub_starter_fn_def)
    with g Nil show ?thesis by (auto simp: sframe_def state_of_def) (simp_all add: state_of_def [symmetric])
  next
    assume "hub_stacklet s = Some (None, [])"
    then have "gevent_yield s k = Ret (enter (park s k) None)"
      using Nil cur mem resume_hub [of s "[]" k]
      by (simp add: gevent_yield_def gevent_switch_to_hub_def before_switch_def stacklet_or_abort_def)
    with g Nil show ?thesis by (auto simp: sframe_def state_of_def) (simp_all add: state_of_def [symmetric])
  qed
next
  case (Cons t ts)
  have "t \<in> set (ready (park s k))" using Cons by simp
  then have t: "state_of s t = GEVENT_COTHREAD_READY"
    using inv by (simp add: ginv_def ready_ok_def)
  then have "t \<noteq> c" using st by auto
  then have "Some t \<noteq> current s" using cur by simp
  from switch_ok [OF inv mem this] t obtain s' r where s':
    "gevent_switch (s\<lparr>ready := remove1 t (ready s)\<rparr>) t k = Ret s'" "ginv s' (Some t)"
    "wake_frame (park s k) t s'" "glog s' = glog s @ [Returned t r]" by auto
  moreover have "sframe s s'" by (rule sframe_wake [OF s'(3)]) simp
  ultimately show ?thesis using Cons t by (auto simp: gevent_yield_def wake_frame_def)
qed

section \<open>Parking the current cothread\<close>

lemma ginv_park:
  assumes inv: "ginv s (Some c)"
    and other: "\<And>u. u \<noteq> c \<Longrightarrow> cothreads p u = cothreads s u"
    and st: "state_of p c \<noteq> GEVENT_COTHREAD_NEW"
      "state_of p c = GEVENT_COTHREAD_CURRENT \<Longrightarrow> suspended_with p c [K_wait]"
      "c = main_id \<Longrightarrow> state_of p c \<noteq> GEVENT_COTHREAD_DEAD"
    and stk: "stack_ok p c" and ready: "ready_ok p"
    and recv: "\<And>ch. receivers (channels p ch) =
      receivers (channels s ch) @ (if state_of p c = GEVENT_COTHREAD_CHANNEL_R \<and>
        suspended_with p c (K_receive ch # chan_rest ch) then [c] else [])"
    and send: "\<And>ch. senders (channels p ch) =
      senders (channels s ch) @ (if state_of p c = GEVENT_COTHREAD_CHANNEL_S \<and>
        suspended_with p c (K_send ch # chan_rest ch) then [c] else [])"
    and excl: "\<And>ch. receivers (channels p ch) = [] \<or> senders (channels p ch) = []"
    and hub: "hub_stacklet p = hub_stacklet s"
    and timers: "timers_in (g_loop p) {u. state_of p u = GEVENT_WAITING_TIMER}"
    and reqs: "reqs_ok p"
  shows "ginv p None"
proof -
  have sto: "state_of p u = state_of s u" if "u \<noteq> c" for u
    using other [OF that] by (simp add: state_of_def)
  have sw: "suspended_with p u k = suspended_with s u k" if "u \<noteq> c" for u k
    using other [OF that] by (simp add: suspended_with_def)
  have cur: "state_of s c = GEVENT_COTHREAD_CURRENT" using inv by (simp add: ginv_def)
  have notin: "c \<notin> set (receivers (channels s ch))" "c \<notin> set (senders (channels s ch))" for ch
    using chan_members [OF inv, of c ch] cur by auto
  have stacks: "stack_ok p u" for u
  proof (cases "u = c")
    case True with stk show ?thesis by simp
  next
    case False
    show ?thesis
      by (rule stack_ok_channels [of s]) (use False inv other recv send in \<open>auto simp: ginv_def\<close>)
  qed
  have chans: "chan_ok p ch" for ch
    unfolding chan_ok_def
  proof (intro conjI ballI)
    have "chan_ok s ch" using inv by (simp add: ginv_def)
    then show "distinct (receivers (channels p ch))" "distinct (senders (channels p ch))"
      using notin [of ch] by (auto simp: recv send chan_ok_def)
    show "receivers (channels p ch) = [] \<or> senders (channels p ch) = []" by (rule excl)
  next
    fix u assume u: "u \<in> set (receivers (channels p ch))"
    show "state_of p u = GEVENT_COTHREAD_CHANNEL_R" "suspended_with p u (K_receive ch # chan_rest ch)"
      using u chan_members(1) [OF inv, of u ch] notin [of ch] sto [of u] sw [of u]
      by (cases "u = c"; auto simp: recv split: if_splits)+
  next
    fix u assume u: "u \<in> set (senders (channels p ch))"
    show "state_of p u = GEVENT_COTHREAD_CHANNEL_S" "suspended_with p u (K_send ch # chan_rest ch)"
      using u chan_members(2) [OF inv, of u ch] notin [of ch] sto [of u] sw [of u]
      by (cases "u = c"; auto simp: send split: if_splits)+
  qed
  have "suspended_with p u [K_wait]" if "state_of p u = GEVENT_COTHREAD_CURRENT" for u
    using inv that st(2) sto [of u] sw [of u] by (cases "u = c") (auto simp: ginv_def)
  moreover have "state_of p main_id \<noteq> GEVENT_COTHREAD_NEW \<and> state_of p main_id \<noteq> GEVENT_COTHREAD_DEAD"
    using inv st sto [of main_id] by (cases "main_id = c") (auto simp: ginv_def)
  ultimately show ?thesis
    using inv hub stacks chans timers reqs ready by (simp add: ginv_def)
qed


text \<open>The ways in which the current cothread gives up the processor.\<close>

definition activated :: "gevent_hub \<Rightarrow> tid \<Rightarrow> gevent_hub" where
  "activated s c = (set_state c GEVENT_COTHREAD_READY s)\<lparr>ready := ready s @ [c]\<rparr>"

lemma activated_simps [simp]:
  "state_of (activated s c) u = (if u = c then GEVENT_COTHREAD_READY else state_of s u)"
  "ready (activated s c) = ready s @ [c]" "channels (activated s c) = channels s"
  "current (activated s c) = current s" "glog (activated s c) = glog s"
  "op_value (cothreads (activated s c) u) = op_value (cothreads s u)"
  "op_run (cothreads (activated s c) u) = op_run (cothreads s u)"
  "u \<noteq> c \<Longrightarrow> cothreads (activated s c) u = cothreads s u"
  "sem_counter (activated s c) = sem_counter s" "g_loop (activated s c) = g_loop s"
  "hub_stacklet (activated s c) = hub_stacklet s" "req_data (activated s c) = req_data s"
  "no_memory (activated s c) = no_memory s"
  by (simp_all add: activated_def set_state_co state_of_def)

lemma activate_ok: "state_of s c = GEVENT_COTHREAD_CURRENT \<Longrightarrow> activate s c = Ret (activated s c)"
  by (simp add: activate_def activated_def Let_def set_state_co)

lemma running_facts:
  assumes "ginv s (Some c)"
  shows "state_of s c = GEVENT_COTHREAD_CURRENT" "c \<notin> set (ready s)"
    "c \<notin> set (receivers (channels s ch))" "c \<notin> set (senders (channels s ch))"
    "reqs_ok s" "ready_ok s" "timers_in (g_loop s) {u. state_of s u = GEVENT_WAITING_TIMER}"
proof -
  show c: "state_of s c = GEVENT_COTHREAD_CURRENT" using assms by (simp add: ginv_def)
  then show "c \<notin> set (receivers (channels s ch))" "c \<notin> set (senders (channels s ch))"
    using chan_members [OF assms, of c ch] by auto
  have "set (ready s) = {t. state_of s t = GEVENT_COTHREAD_READY}"
    using assms unfolding ginv_def ready_ok_def by blast
  with c show "c \<notin> set (ready s)" by simp
  show "reqs_ok s" "ready_ok s" "timers_in (g_loop s) {u. state_of s u = GEVENT_WAITING_TIMER}"
    using assms by (simp_all add: ginv_def)
qed

lemma park_current [simp]:
  assumes "current s = Some c"
  shows "u \<noteq> c \<Longrightarrow> cothreads (park s k) u = cothreads s u"
    and "suspended_with (park s k) c k' \<longleftrightarrow> k' = k"
    and "hub_stacklet (park s k) = hub_stacklet s" "current (park s k) = Some c"
  using assms by (auto simp: park_def suspended_with_def)

lemma chan_excl: "ginv s X \<Longrightarrow> receivers (channels s ch) = [] \<or> senders (channels s ch) = []"
  by (simp add: ginv_def chan_ok_def)

lemma sets_after:
  assumes "\<And>u. u \<noteq> c \<Longrightarrow> state_of p u = state_of s u"
    and "state_of p c = y" and "state_of s c = z" and "x \<noteq> z"
  shows "{u. state_of p u = x} = (if x = y then insert c {u. state_of s u = x} else {u. state_of s u = x})"
  using assms by (auto; metis)

lemma park_ready:
  assumes inv: "ginv s (Some c)" and cur: "current s = Some c" and pass: "list_all passive_frame k"
  shows "ginv (park (activated s c) k) None"
proof -
  let ?p = "park (activated s c) k"
  note run = running_facts [OF inv]
  have st: "state_of ?p u = (if u = c then GEVENT_COTHREAD_READY else state_of s u)" for u by simp
  have sets: "{u. state_of ?p u = x} =
      (if x = GEVENT_COTHREAD_READY then insert c {u. state_of s u = x} else {u. state_of s u = x})"
    if "x \<noteq> GEVENT_COTHREAD_CURRENT" for x
    by (rule sets_after) (use that run in simp_all)
  show ?thesis
  proof (rule ginv_park [OF inv])
    show "cothreads ?p u = cothreads s u" if "u \<noteq> c" for u using that cur by simp
    show "stack_ok ?p c"
      using cur pass by (simp add: stack_ok_def)
    show "ready_ok ?p"
      using run(2,6) sets [of GEVENT_COTHREAD_READY] by (simp add: ready_ok_def)
    show "hub_stacklet ?p = hub_stacklet s" using cur by simp
    show "timers_in (g_loop ?p) {u. state_of ?p u = GEVENT_WAITING_TIMER}"
      using run(7) sets [of GEVENT_WAITING_TIMER] by simp
    show "reqs_ok ?p" by (rule reqs_ok_cong [OF run(5)]) (use run(1) cur in auto)
    show "receivers (channels ?p ch) = [] \<or> senders (channels ?p ch) = []" for ch
      using chan_excl [OF inv] by simp
  qed (simp_all)
qed


definition blocked :: "gevent_hub \<Rightarrow> tid \<Rightarrow> gevent_cothread_state \<Rightarrow> nat option \<Rightarrow> gevent_hub" where
  "blocked s c x v = set_co c (\<lambda>t. t\<lparr>co_state := x, op_value := v\<rparr>) s"

lemma blocked_simps [simp]:
  "state_of (blocked s c x v) u = (if u = c then x else state_of s u)"
  "op_value (cothreads (blocked s c x v) c) = v"
  "u \<noteq> c \<Longrightarrow> cothreads (blocked s c x v) u = cothreads s u"
  "ready (blocked s c x v) = ready s" "channels (blocked s c x v) = channels s"
  "current (blocked s c x v) = current s" "glog (blocked s c x v) = glog s"
  "g_loop (blocked s c x v) = g_loop s" "hub_stacklet (blocked s c x v) = hub_stacklet s"
  "req_data (blocked s c x v) = req_data s" "sem_counter (blocked s c x v) = sem_counter s"
  "no_memory (blocked s c x v) = no_memory s"
  by (simp_all add: blocked_def state_of_def)

lemma set_channel_state [simp]: "state_of (set_channel ch x s) u = state_of s u"
  by (simp add: state_of_def)

lemma park_receive:
  assumes inv: "ginv s (Some c)" and cur: "current s = Some c" and none: "senders (channels s ch) = []"
    and s1: "s1 = blocked (set_channel ch ((channels s ch)\<lparr>receivers := receivers (channels s ch) @ [c]\<rparr>) s)
      c GEVENT_COTHREAD_CHANNEL_R None"
  shows "ginv (park s1 (K_receive ch # chan_rest ch)) None"
proof -
  let ?p = "park s1 (K_receive ch # chan_rest ch)"
  note run = running_facts [OF inv]
  have cur1: "current s1 = Some c" using cur s1 by simp
  have st: "state_of ?p u = (if u = c then GEVENT_COTHREAD_CHANNEL_R else state_of s u)" for u
    using s1 by simp
  have stc: "state_of s1 c = GEVENT_COTHREAD_CHANNEL_R" using s1 by simp
  have sets: "{u. state_of ?p u = x} = {u. state_of s u = x}"
    if "x \<noteq> GEVENT_COTHREAD_CURRENT" "x \<noteq> GEVENT_COTHREAD_CHANNEL_R" for x
    using sets_after [of c ?p s _ _ x] that run(1) st by auto
  have here: "c \<in> set (receivers (channels ?p ch))" using s1 by simp
  show ?thesis
  proof (rule ginv_park [OF inv])
    show "cothreads ?p u = cothreads s u" if "u \<noteq> c" for u using that cur1 s1 by simp
    show "stack_ok ?p c"
      using cur1 here by (auto simp: stack_ok_def stc)
    show "ready_ok ?p"
      using run(6) sets [of GEVENT_COTHREAD_READY] s1 by (simp add: ready_ok_def)
    show "hub_stacklet ?p = hub_stacklet s" using cur1 s1 by simp
    show "timers_in (g_loop ?p) {u. state_of ?p u = GEVENT_WAITING_TIMER}"
      using run(7) sets [of GEVENT_WAITING_TIMER] s1 by simp
    show "reqs_ok ?p" by (rule reqs_ok_cong [OF run(5)]) (use run(1) s1 in auto)
    show "receivers (channels ?p d) = [] \<or> senders (channels ?p d) = []" for d
      using chan_excl [OF inv, of d] none s1 by auto
    show "receivers (channels ?p d) = receivers (channels s d) @
        (if state_of ?p c = GEVENT_COTHREAD_CHANNEL_R \<and> suspended_with ?p c (K_receive d # chan_rest d)
         then [c] else [])" for d
      using cur1 s1 by auto
    show "senders (channels ?p d) = senders (channels s d) @
        (if state_of ?p c = GEVENT_COTHREAD_CHANNEL_S \<and> suspended_with ?p c (K_send d # chan_rest d)
         then [c] else [])" for d
      using cur1 s1 by auto
  qed (use stc in auto)
qed

lemma park_send:
  assumes inv: "ginv s (Some c)" and cur: "current s = Some c" and none: "receivers (channels s ch) = []"
    and s1: "s1 = blocked (set_channel ch ((channels s ch)\<lparr>senders := senders (channels s ch) @ [c]\<rparr>) s)
      c GEVENT_COTHREAD_CHANNEL_S (Some v)"
  shows "ginv (park s1 (K_send ch # chan_rest ch)) None"
proof -
  let ?p = "park s1 (K_send ch # chan_rest ch)"
  note run = running_facts [OF inv]
  have cur1: "current s1 = Some c" using cur s1 by simp
  have st: "state_of ?p u = (if u = c then GEVENT_COTHREAD_CHANNEL_S else state_of s u)" for u
    using s1 by simp
  have stc: "state_of s1 c = GEVENT_COTHREAD_CHANNEL_S" using s1 by simp
  have sets: "{u. state_of ?p u = x} = {u. state_of s u = x}"
    if "x \<noteq> GEVENT_COTHREAD_CURRENT" "x \<noteq> GEVENT_COTHREAD_CHANNEL_S" for x
    using sets_after [of c ?p s _ _ x] that run(1) st by auto
  have here: "c \<in> set (senders (channels ?p ch))" using s1 by simp
  have val: "op_value (cothreads ?p c) \<noteq> None" using s1 by simp
  show ?thesis
  proof (rule ginv_park [OF inv])
    show "cothreads ?p u = cothreads s u" if "u \<noteq> c" for u using that cur1 s1 by simp
    show "stack_ok ?p c"
      using cur1 here val by (auto simp: stack_ok_def stc)
    show "ready_ok ?p"
      using run(6) sets [of GEVENT_COTHREAD_READY] s1 by (simp add: ready_ok_def)
    show "hub_stacklet ?p = hub_stacklet s" using cur1 s1 by simp
    show "timers_in (g_loop ?p) {u. state_of ?p u = GEVENT_WAITING_TIMER}"
      using run(7) sets [of GEVENT_WAITING_TIMER] s1 by simp
    show "reqs_ok ?p" by (rule reqs_ok_cong [OF run(5)]) (use run(1) s1 in auto)
    show "receivers (channels ?p d) = [] \<or> senders (channels ?p d) = []" for d
      using chan_excl [OF inv, of d] none s1 by auto
    show "receivers (channels ?p d) = receivers (channels s d) @
        (if state_of ?p c = GEVENT_COTHREAD_CHANNEL_R \<and> suspended_with ?p c (K_receive d # chan_rest d)
         then [c] else [])" for d
      using cur1 s1 by auto
    show "senders (channels ?p d) = senders (channels s d) @
        (if state_of ?p c = GEVENT_COTHREAD_CHANNEL_S \<and> suspended_with ?p c (K_send d # chan_rest d)
         then [c] else [])" for d
      using cur1 s1 by auto
  qed (use stc in auto)
qed

text \<open>
  The two waits in the loop and the yield that forgets the caller share a lemma: \<open>L\<close> and \<open>rd\<close> are
  the loop and the request data.
\<close>

lemma park_wait:
  assumes inv: "ginv s (Some c)" and cur: "current s = Some c"
    and s1: "s1 = set_co c f (s\<lparr>g_loop := L, req_data := rd\<rparr>)" and f: "co_state (f (cothreads s c)) = x"
    and x: "x = GEVENT_WAITING_TIMER \<and> k = [K_sleep] \<or> x = GEVENT_WAITING_GETADDRINFO \<and> k = [K_getaddrinfo] \<or>
      x = GEVENT_COTHREAD_CURRENT \<and> k = [K_wait]"
    and timers: "timers_in L ((if x = GEVENT_WAITING_TIMER then insert c else id)
      {u. state_of s u = GEVENT_WAITING_TIMER})"
    and reqs: "reqs_ok (park s1 k)"
  shows "ginv (park s1 k) None"
proof -
  let ?p = "park s1 k"
  note run = running_facts [OF inv]
  have cur1: "current s1 = Some c" using cur s1 by simp
  have "state_of s1 u = (if u = c then x else state_of s u)" for u
    by (simp add: s1 f state_of_def)
  then have st: "state_of ?p u = (if u = c then x else state_of s u)" for u by simp
  have stc: "state_of s1 c = x" using st [of c] by simp
  have chs: "channels s1 = channels s" by (simp add: s1)
  have sets: "{u. state_of ?p u = y} = (if y = x then insert c else id) {u. state_of s u = y}"
    if "y \<noteq> GEVENT_COTHREAD_CURRENT" for y
    using sets_after [of c ?p s x _ y] that run(1) st by auto
  show ?thesis
  proof (rule ginv_park [OF inv])
    show "cothreads ?p u = cothreads s u" if "u \<noteq> c" for u
      using that cur1 s1 by simp
    show "stack_ok ?p c" using cur1 x by (auto simp: stack_ok_def stc)
    show "ready_ok ?p"
      using run(6) sets [of GEVENT_COTHREAD_READY] s1 x by (auto simp: ready_ok_def)
    show "hub_stacklet ?p = hub_stacklet s" using cur1 s1 by simp
    show "timers_in (g_loop ?p) {u. state_of ?p u = GEVENT_WAITING_TIMER}"
      using timers sets [of GEVENT_WAITING_TIMER] s1 x by auto
    show "reqs_ok ?p" by (rule reqs)
    show "receivers (channels ?p d) = [] \<or> senders (channels ?p d) = []" for d
      using chan_excl [OF inv, of d] s1 by simp
    show "receivers (channels ?p d) = receivers (channels s d) @
        (if state_of ?p c = GEVENT_COTHREAD_CHANNEL_R \<and> suspended_with ?p c (K_receive d # chan_rest d)
         then [c] else [])" for d
      using x by (auto simp: stc chs)
    show "senders (channels ?p d) = senders (channels s d) @
        (if state_of ?p c = GEVENT_COTHREAD_CHANNEL_S \<and> suspended_with ?p c (K_send d # chan_rest d)
         then [c] else [])" for d
      using x by (auto simp: stc chs)
  qed (use x stc cur1 in auto)
qed

section \<open>The operations of a cothread\<close>

lemma get_current_ok [simp]:
  "current s = Some c \<Longrightarrow> state_of s c = GEVENT_COTHREAD_CURRENT \<Longrightarrow> get_current s k = k c"
  by (simp add: get_current_def)

lemma spawn_ok:
  assumes inv: "ginv s (Some c)" and mem: "\<not> no_memory s" and cur: "current s = Some c" and new: "state_of s t = GEVENT_COTHREAD_NEW"
  shows "\<exists>s'. gevent_cothread_spawn s t = Ret s' \<and> ginv s' (Some t) \<and> current s' = Some t \<and>
    ready s' = ready s @ [c] \<and> state_of s' c = GEVENT_COTHREAD_READY \<and>
    glog s' = glog s @ [Started t (the (op_run (cothreads s t)))] \<and> sframe s s'"
proof -
  let ?s = "activated s c"
  note run = running_facts [OF inv]
  have ne: "t \<noteq> c" using new run(1) by auto
  have notin: "t \<notin> set (ready s @ [c])"
    using ne new run(6) by (auto simp: ready_ok_def)
  from switch_idle [OF park_ready [OF inv cur, of "[K_spawn]"], of t] mem new ne cur notin
  obtain s' where s': "gevent_switch ?s t [K_spawn] = Ret s'" "ginv s' (Some t)"
      "wake_frame (park ?s [K_spawn]) t s'" "glog s' = glog s @ [Started t (the (op_run (cothreads s t)))]"
    by auto
  have "remove1 t (ready s @ [c]) = ready s @ [c]" using notin by (rule remove1_idem)
  moreover have "cothreads s' c = cothreads (park ?s [K_spawn]) c"
    using s'(3) ne by (simp add: wake_frame_def)
  then have "state_of s' c = state_of (park ?s [K_spawn]) c" by (simp only: state_of_def)
  then have "state_of s' c = GEVENT_COTHREAD_READY" by simp
  moreover have "sframe s s'" by (rule sframe_wake [OF s'(3)]) (use cur in simp)
  ultimately show ?thesis
    using s' cur run(1) activate_ok [OF run(1)] new ne
    by (simp add: gevent_cothread_spawn_def wake_frame_def)
qed


lemma park_other:
  assumes "wake_frame (park (activated s c) k) t s'" and "t \<noteq> c" and "current s = Some c"
  shows "state_of s' c = GEVENT_COTHREAD_READY \<and> suspended_with s' c k"
proof -
  have "cothreads s' c = cothreads (park (activated s c) k) c"
    using assms(1,2) by (simp add: wake_frame_def)
  then have "state_of s' c = state_of (park (activated s c) k) c"
    and "suspended_with s' c k = suspended_with (park (activated s c) k) c k"
    by (simp_all only: state_of_def suspended_with_def)
  then show ?thesis using assms(3) by simp
qed

lemma receive_block:
  assumes inv: "ginv s (Some c)" and cur: "current s = Some c" and none: "senders (channels s ch) = []"
  shows "\<exists>s1. gevent_channel_receive s ch (chan_rest ch) = gevent_yield s1 (K_receive ch # chan_rest ch) \<and>
    ginv (park s1 (K_receive ch # chan_rest ch)) None \<and> current s1 = Some c \<and>
    state_of s1 c = GEVENT_COTHREAD_CHANNEL_R \<and> ready s1 = ready s \<and> glog s1 = glog s \<and>
    no_memory s1 = no_memory s \<and> sem_counter s1 = sem_counter s \<and>
    channels s1 = (channels s)(ch := (channels s ch)\<lparr>receivers := receivers (channels s ch) @ [c]\<rparr>) \<and>
    (\<forall>u. u \<noteq> c \<longrightarrow> state_of s1 u = state_of s u)"
proof -
  let ?s = "blocked (set_channel ch ((channels s ch)\<lparr>receivers := receivers (channels s ch) @ [c]\<rparr>) s)
      c GEVENT_COTHREAD_CHANNEL_R None"
  have "gevent_channel_receive s ch (chan_rest ch) = gevent_yield ?s (K_receive ch # chan_rest ch)"
    using running_facts(1) [OF inv] cur none
    by (simp add: gevent_channel_receive_def Let_def blocked_def)
  moreover have "ginv (park ?s (K_receive ch # chan_rest ch)) None"
    by (rule park_receive [OF inv cur none]) simp
  ultimately show ?thesis using cur none by (intro exI [of _ ?s]) simp
qed

lemma send_block:
  assumes inv: "ginv s (Some c)" and cur: "current s = Some c" and none: "receivers (channels s ch) = []"
  shows "\<exists>s1. gevent_channel_send s ch v (chan_rest ch) = gevent_yield s1 (K_send ch # chan_rest ch) \<and>
    ginv (park s1 (K_send ch # chan_rest ch)) None \<and> current s1 = Some c \<and>
    state_of s1 c = GEVENT_COTHREAD_CHANNEL_S \<and> ready s1 = ready s \<and> glog s1 = glog s \<and>
    no_memory s1 = no_memory s \<and> sem_counter s1 = sem_counter s \<and>
    channels s1 = (channels s)(ch := (channels s ch)\<lparr>senders := senders (channels s ch) @ [c]\<rparr>) \<and>
    op_value (cothreads s1 c) = Some v \<and>
    (\<forall>u. u \<noteq> c \<longrightarrow> state_of s1 u = state_of s u)"
proof -
  let ?s = "blocked (set_channel ch ((channels s ch)\<lparr>senders := senders (channels s ch) @ [c]\<rparr>) s)
      c GEVENT_COTHREAD_CHANNEL_S (Some v)"
  have "gevent_channel_send s ch v (chan_rest ch) = gevent_yield ?s (K_send ch # chan_rest ch)"
    using running_facts(1) [OF inv] cur none
    by (simp add: gevent_channel_send_def Let_def blocked_def)
  moreover have "ginv (park ?s (K_send ch # chan_rest ch)) None"
    by (rule park_send [OF inv cur none]) simp
  ultimately show ?thesis using cur none by (intro exI [of _ ?s]) simp
qed

text \<open>Handing over: the partner runs at once, the current cothread becomes ready.\<close>

lemma handover:
  assumes inv: "ginv s (Some c)" and mem: "\<not> no_memory s" and cur: "current s = Some c" and pass: "list_all passive_frame k"
    and st: "state_of s t = GEVENT_COTHREAD_CHANNEL_R \<or> state_of s t = GEVENT_COTHREAD_CHANNEL_S"
  shows "\<exists>s' r. gevent_switch (activated s c) t k = Ret s' \<and> ginv s' (Some t) \<and>
    wake_frame (park (activated s c) k) t s' \<and> glog s' = glog s @ [Returned t r] \<and>
    current s' = Some t \<and> ready s' = ready s @ [c] \<and>
    state_of s' c = GEVENT_COTHREAD_READY \<and> suspended_with s' c k \<and> sframe s s' \<and>
    (\<forall>ch. t \<in> set (receivers (channels s (Channel ch))) \<longrightarrow> r = R_value (op_value (cothreads s t))) \<and>
    (\<forall>ch. t \<in> set (senders (channels s (Channel ch))) \<longrightarrow> r = R_void)"
proof -
  note run = running_facts [OF inv]
  have ne: "t \<noteq> c" using st run(1) by auto
  have notin: "t \<notin> set (ready (activated s c))"
    using st run(6) ne by (auto simp: ready_ok_def)
  have rs: "state_of s t = GEVENT_COTHREAD_CHANNEL_R" if "t \<in> set (receivers (channels s ch))" for ch
    using chan_members(1) [OF inv that] by simp
  have ss: "state_of s t = GEVENT_COTHREAD_CHANNEL_S" if "t \<in> set (senders (channels s ch))" for ch
    using chan_members(2) [OF inv that] by simp
  have st2: "state_of (activated s c) t \<notin> {GEVENT_COTHREAD_DEAD, GEVENT_WAITING_GETADDRINFO, GEVENT_COTHREAD_CURRENT}"
      "Some t \<noteq> current (activated s c)" "state_of (activated s c) t \<noteq> GEVENT_COTHREAD_NEW"
      "\<not> no_memory (activated s c)"
    using st ne cur mem by auto
  from switch_idle [OF park_ready [OF inv cur pass] st2(4,2,1) notin] st2(3)
  obtain s' r where s': "gevent_switch (activated s c) t k = Ret s'" "ginv s' (Some t)"
      "wake_frame (park (activated s c) k) t s'" "glog s' = glog s @ [Returned t r]"
      "\<forall>ch. state_of s t = GEVENT_COTHREAD_CHANNEL_R \<longrightarrow> t \<in> set (receivers (channels s (Channel ch))) \<longrightarrow>
         r = R_value (op_value (cothreads s t))"
      "\<forall>ch. state_of s t = GEVENT_COTHREAD_CHANNEL_S \<longrightarrow> t \<in> set (senders (channels s (Channel ch))) \<longrightarrow>
         r = R_void"
    using ne by auto
  have "remove1 t (ready s @ [c]) = ready s @ [c]" using notin by (intro remove1_idem) simp
  then have "ready s' = ready s @ [c]" "current s' = Some t" using s'(3) by (simp_all add: wake_frame_def)
  moreover have "sframe s s'" by (rule sframe_wake [OF s'(3)]) (use cur in simp)
  ultimately show ?thesis using s' rs ss park_other [OF s'(3) ne cur] by blast
qed

lemma receive_take:
  assumes inv: "ginv s (Some c)" and mem: "\<not> no_memory s" and cur: "current s = Some c" and some: "senders (channels s ch) = t # ts"
  shows "\<exists>s' r v. gevent_channel_receive s ch (chan_rest ch) = Ret s' \<and> ginv s' (Some t) \<and>
    current s' = Some t \<and> ready s' = ready s @ [c] \<and> glog s' = glog s @ [Returned t r] \<and>
    senders (channels s' ch) = ts \<and> op_value (cothreads s t) = Some v \<and>
    suspended_with s' c (K_received (Some v) # chan_rest ch) \<and> sframe s s' \<and>
    (\<forall>n. ch = Channel n \<longrightarrow> r = R_void)"
proof -
  note run = running_facts [OF inv]
  have t: "state_of s t = GEVENT_COTHREAD_CHANNEL_S" using chan_members(2) [OF inv, of t ch] some by simp
  have "stack_ok s t" using inv by (simp add: ginv_def)
  then obtain v where v: "op_value (cothreads s t) = Some v"
    using t by (auto simp: stack_ok_def)
  let ?k = "K_received (Some v) # chan_rest ch"
  have "list_all passive_frame ?k" using chan_rest_passive by simp
  from handover [OF inv mem cur this, of t] t obtain s' r where s':
    "gevent_switch (activated s c) t ?k = Ret s'" "ginv s' (Some t)"
    "wake_frame (park (activated s c) ?k) t s'" "glog s' = glog s @ [Returned t r]"
    "current s' = Some t" "ready s' = ready s @ [c]" "suspended_with s' c ?k"
    "\<forall>n. t \<in> set (senders (channels s (Channel n))) \<longrightarrow> r = R_void" "sframe s s'" by blast
  have "senders (channels s' ch) = ts"
    using s'(3) some by (simp add: wake_frame_def)
  moreover have "gevent_channel_receive s ch (chan_rest ch) = Ret s'"
    using cur run(1) some t v s'(1) activate_ok [OF run(1)]
    by (simp add: gevent_channel_receive_def)
  moreover have "r = R_void" if "ch = Channel n" for n
    using s'(8) [rule_format, of n] that some by simp
  ultimately show ?thesis using s' v by blast
qed

lemma send_hand:
  assumes inv: "ginv s (Some c)" and mem: "\<not> no_memory s" and cur: "current s = Some c" and some: "receivers (channels s ch) = t # ts"
  shows "\<exists>s' r. gevent_channel_send s ch v (chan_rest ch) = Ret s' \<and> ginv s' (Some t) \<and>
    current s' = Some t \<and> ready s' = ready s @ [c] \<and> glog s' = glog s @ [Returned t r] \<and>
    receivers (channels s' ch) = ts \<and> suspended_with s' c (K_sent # chan_rest ch) \<and>
    sem_counter s' = sem_counter s \<and> sframe s s' \<and> (\<forall>n. ch = Channel n \<longrightarrow> r = R_value (Some v))"
proof -
  let ?s = "set_co t (op_value_update (\<lambda>_. Some v)) s"
  have t: "state_of s t = GEVENT_COTHREAD_CHANNEL_R" using chan_members(1) [OF inv, of t ch] some by simp
  have inv2: "ginv ?s (Some c)" by (rule ginv_cong [OF inv]) simp_all
  note run = running_facts [OF inv2]
  have run1: "state_of s c = GEVENT_COTHREAD_CURRENT" by (rule running_facts(1) [OF inv])
  have st: "state_of ?s u = state_of s u" for u by (simp add: state_of_def)
  let ?k = "K_sent # chan_rest ch"
  have "list_all passive_frame ?k" using chan_rest_passive by simp
  from handover [OF inv2 _ _ this, of t] t cur mem obtain s' r where s':
    "gevent_switch (activated ?s c) t ?k = Ret s'" "ginv s' (Some t)"
    "wake_frame (park (activated ?s c) ?k) t s'" "glog s' = glog s @ [Returned t r]"
    "current s' = Some t" "ready s' = ready s @ [c]" "suspended_with s' c ?k"
    "\<forall>n. t \<in> set (receivers (channels s (Channel n))) \<longrightarrow> r = R_value (Some v)" "sframe ?s s'"
    by (auto simp: st)
  have "sframe s s'" using s'(9) by (simp add: sframe_def st)
  moreover have "receivers (channels s' ch) = ts" "sem_counter s' = sem_counter s"
    using s'(3) some by (simp_all add: wake_frame_def)
  moreover have "gevent_channel_send s ch v (chan_rest ch) = Ret s'"
    using cur run1 some t s'(1) activate_ok [OF run(1)]
    by (simp add: gevent_channel_send_def Let_def)
  moreover have "r = R_value (Some v)" if "ch = Channel n" for n
    using s'(8) [rule_format, of n] that some by simp
  ultimately show ?thesis using s' by blast
qed


lemma sleep_park:
  assumes inv: "ginv s (Some c)" and cur: "current s = Some c" and n: "0 \<le> sint n"
  shows "\<exists>s1. sleep_internal s n ref = gevent_yield s1 [K_sleep] \<and>
    ginv (park s1 [K_sleep]) None \<and> current s1 = Some c \<and> state_of s1 c = GEVENT_WAITING_TIMER \<and>
    ready s1 = ready s \<and> glog s1 = glog s \<and> no_memory s1 = no_memory s \<and> due_time (g_loop s1) c = loop_time (g_loop s) + n \<and>
    (\<forall>u. u \<noteq> c \<longrightarrow> state_of s1 u = state_of s u)"
proof -
  note run = running_facts [OF inv]
  let ?A = "{u. state_of s u = GEVENT_WAITING_TIMER}"
  have "c \<notin> ?A" using run(1) by simp
  obtain M where init: "uv_timer_init (g_loop s) c = (0, M)"
    by (simp add: uv_timer_init_def Let_def)
  from timers_in_start [OF run(7) \<open>c \<notin> ?A\<close> n] obtain L where L:
    "uv_timer_start M c (Some sleep_cb_id) n 0 = Ret (0, L)"
    "timers_in L (insert c ?A)" "active_reqs L = active_reqs (g_loop s)"
    "due_time L c = loop_time (g_loop s) + n" by (auto simp: init)
  let ?L = "if ref then L else uv_unref L c"
  let ?s = "set_state c GEVENT_WAITING_TIMER (s\<lparr>g_loop := ?L\<rparr>)"
  have "sleep_internal s n ref = gevent_yield ?s [K_sleep]"
    using cur run(1) L(1) by (simp add: sleep_internal_def init Let_def)
  moreover have "ginv (park ?s [K_sleep]) None"
  proof (rule park_wait [OF inv cur, where rd = "req_data s" and L = ?L and x = GEVENT_WAITING_TIMER
      and f = "co_state_update (\<lambda>_. GEVENT_WAITING_TIMER)"])
    show "reqs_ok (park ?s [K_sleep])"
      by (rule reqs_ok_cong [OF run(5)])
        (use run(1) L(3) in \<open>auto simp: uv_unref_def\<close>)
    show "timers_in ?L ((if GEVENT_WAITING_TIMER = GEVENT_WAITING_TIMER then insert c else id) ?A)"
      using L(2) timers_in_unref by simp
  qed (simp_all add: set_state_co)
  moreover have "due_time ?L c = due_time L c" by (simp add: due_time_def uv_unref_def)
  ultimately show ?thesis
    using cur L(4) by (intro exI [of _ ?s]) simp
qed

lemma getaddrinfo_park:
  assumes inv: "ginv s (Some c)" and cur: "current s = Some c"
    and fresh: "req \<notin> set (active_reqs (g_loop s))"
  shows "\<exists>s1. gevent_getaddrinfo s (Some req) 0 = gevent_yield s1 [K_getaddrinfo] \<and>
    ginv (park s1 [K_getaddrinfo]) None \<and> current s1 = Some c \<and>
    state_of s1 c = GEVENT_WAITING_GETADDRINFO \<and> ready s1 = ready s \<and> glog s1 = glog s \<and>
    no_memory s1 = no_memory s \<and> (\<forall>u. u \<noteq> c \<longrightarrow> state_of s1 u = state_of s u)"
proof -
  note run = running_facts [OF inv]
  let ?L = "uv__req_register (g_loop s) req" and ?rd = "(req_data s)(req := Some c)"
  let ?s = "set_co c (\<lambda>x. x\<lparr>co_state := GEVENT_WAITING_GETADDRINFO, op_error := None\<rparr>)
    (s\<lparr>g_loop := ?L, req_data := ?rd\<rparr>)"
  let ?p = "park ?s [K_getaddrinfo]"
  have "gevent_getaddrinfo s (Some req) 0 = gevent_yield ?s [K_getaddrinfo]"
    using cur run(1) by (simp add: gevent_getaddrinfo_def Let_def)
  moreover have st: "state_of ?s u = (if u = c then GEVENT_WAITING_GETADDRINFO else state_of s u)" for u
    by (simp add: state_of_def)
  have fr: "active_reqs (g_loop ?p) = active_reqs (g_loop s) @ [req]" "req_data ?p = ?rd"
    by (simp_all add: uv__req_register_def)
  have "reqs_ok ?p"
    unfolding reqs_ok_def fr
  proof (intro conjI ballI allI impI)
    show "distinct (active_reqs (g_loop s) @ [req])" using run(5) fresh by (simp add: reqs_ok_def)
  next
    fix r assume r: "r \<in> set (active_reqs (g_loop s) @ [req])"
    show "\<exists>t. ?rd r = Some t \<and> (t \<noteq> main_id \<longrightarrow> state_of ?p t = GEVENT_WAITING_GETADDRINFO \<and>
        (\<forall>r'\<in>set (active_reqs (g_loop s) @ [req]). ?rd r' = Some t \<longrightarrow> r' = r))"
    proof (cases "r = req")
      case True
      have "r' = req" if "r' \<in> set (active_reqs (g_loop s))" "req_data s r' = Some c" "c \<noteq> main_id" for r'
      proof -
        from run(5) that(1) obtain t where "req_data s r' = Some t"
          "t \<noteq> main_id \<longrightarrow> state_of s t = GEVENT_WAITING_GETADDRINFO" unfolding reqs_ok_def by blast
        with that(2,3) run(1) show ?thesis by simp
      qed
      then show ?thesis using True st by (intro exI [of _ c]) simp
    next
      case False
      with r have "r \<in> set (active_reqs (g_loop s))" by auto
      with run(5) obtain t where t: "req_data s r = Some t" "t \<noteq> main_id \<longrightarrow>
          state_of s t = GEVENT_WAITING_GETADDRINFO \<and>
          (\<forall>r'\<in>set (active_reqs (g_loop s)). req_data s r' = Some t \<longrightarrow> r' = r)"
        unfolding reqs_ok_def by blast
      moreover have "t \<noteq> c" if "t \<noteq> main_id" using t(2) that run(1) by auto
      ultimately show ?thesis using False st by (intro exI [of _ t]) auto
    qed
  next
    fix t assume t: "state_of ?p t = GEVENT_WAITING_GETADDRINFO"
    show "\<exists>r\<in>set (active_reqs (g_loop s) @ [req]). ?rd r = Some t"
    proof (cases "t = c")
      case False
      then have "state_of s t = GEVENT_WAITING_GETADDRINFO" using t st by simp
      then obtain r where "r \<in> set (active_reqs (g_loop s))" "req_data s r = Some t"
        using run(5) by (auto simp: reqs_ok_def)
      then show ?thesis using fresh by auto
    qed simp
  qed
  then have "ginv ?p None"
    by (intro park_wait [OF inv cur, where rd = ?rd and L = ?L and x = GEVENT_WAITING_GETADDRINFO])
      (use run(7) in \<open>auto simp: uv__req_register_def timers_in_reqs\<close>)
  ultimately show ?thesis
    using cur by (intro exI [of _ ?s]) (simp add: st)
qed

lemma wait_park:
  assumes inv: "ginv s (Some c)" and cur: "current s = Some c"
  shows "ginv (park s [K_wait]) None"
proof (rule park_wait [OF inv cur, where rd = "req_data s" and L = "g_loop s" and f = "\<lambda>x. x"
      and x = GEVENT_COTHREAD_CURRENT])
  note run = running_facts [OF inv]
  show "reqs_ok (park s [K_wait])" by (rule reqs_ok_cong [OF run(5)]) simp_all
qed (use running_facts [OF inv] in \<open>simp_all add: set_co_def state_of_def\<close>)


section \<open>The end of a cothread and of the loop\<close>

lemma ginv_bury:
  assumes inv: "ginv s (Some c)" and nm: "c \<noteq> main_id"
  shows "ginv (bury c s) None"
proof (rule ginv_park [OF inv])
  note run = running_facts [OF inv]
  let ?p = "bury c s"
  have st: "state_of ?p u = (if u = c then GEVENT_COTHREAD_DEAD else state_of s u)" for u
    by (simp add: bury_def state_of_def)
  have sets: "{u. state_of ?p u = x} = {u. state_of s u = x}"
    if "x \<noteq> GEVENT_COTHREAD_CURRENT" "x \<noteq> GEVENT_COTHREAD_DEAD" for x
    using sets_after [of c ?p s _ _ x] that run(1) st by auto
  show "cothreads ?p u = cothreads s u" if "u \<noteq> c" for u using that by (simp add: bury_def)
  show "state_of ?p c \<noteq> GEVENT_COTHREAD_NEW" by (simp add: st)
  show "suspended_with ?p c [K_wait]" if "state_of ?p c = GEVENT_COTHREAD_CURRENT" using that by (simp add: st)
  show "state_of ?p c \<noteq> GEVENT_COTHREAD_DEAD" if "c = main_id" using that nm by simp
  show "stack_ok ?p c" by (simp add: stack_ok_def st)
  show "ready_ok ?p" using run(6) sets [of GEVENT_COTHREAD_READY] by (simp add: ready_ok_def bury_def)
  show "receivers (channels ?p d) = receivers (channels s d) @
      (if state_of ?p c = GEVENT_COTHREAD_CHANNEL_R \<and> suspended_with ?p c (K_receive d # chan_rest d)
       then [c] else [])" for d
    by (simp add: st) (simp add: bury_def)
  show "senders (channels ?p d) = senders (channels s d) @
      (if state_of ?p c = GEVENT_COTHREAD_CHANNEL_S \<and> suspended_with ?p c (K_send d # chan_rest d)
       then [c] else [])" for d
    by (simp add: st) (simp add: bury_def)
  show "receivers (channels ?p d) = [] \<or> senders (channels ?p d) = []" for d
    using chan_excl [OF inv, of d] by (simp add: bury_def)
  show "hub_stacklet ?p = hub_stacklet s" by (simp add: bury_def)
  show "timers_in (g_loop ?p) {u. state_of ?p u = GEVENT_WAITING_TIMER}"
    using run(7) sets [of GEVENT_WAITING_TIMER] by (simp add: bury_def)
  show "reqs_ok ?p" by (rule reqs_ok_cong [OF run(5)]) (simp_all add: st, simp_all add: bury_def run(1))
qed

lemma obituary_simps [simp]:
  "cothreads (obituary c s) = cothreads s" "ready (obituary c s) = ready s"
  "channels (obituary c s) = channels s" "hub_stacklet (obituary c s) = hub_stacklet s"
  "g_loop (obituary c s) = g_loop s" "req_data (obituary c s) = req_data s"
  "current (obituary c s) = current s" "state_of (obituary c s) u = state_of s u"
  "ginv (obituary c s) X = ginv s X"
  by (simp_all add: obituary_def split: option.splits)

lemma obituary_enter:
  "obituary c (enter (bury c s) n) = enter (obituary c (bury c s)) n"
  "obituary c (bury c (s\<lparr>ready := r\<rparr>)) = (obituary c (bury c s))\<lparr>ready := r\<rparr>"
  "obituary c (bury c (set_co c (co_stacklet_update (\<lambda>_. None)) s)) = obituary c (bury c s)"
  by (cases n; simp add: obituary_def enter_def bury_def set_co_def add_log_def split: option.splits)
    (simp_all add: obituary_def enter_def bury_def set_co_def add_log_def split: option.splits)

lemma bury_simps [simp]:
  "state_of (bury c s) u = (if u = c then GEVENT_COTHREAD_DEAD else state_of s u)"
  "ready (bury c s) = ready s" "hub_stacklet (bury c s) = hub_stacklet s"
  "u \<noteq> c \<Longrightarrow> cothreads (bury c s) u = cothreads s u"
  by (simp_all add: bury_def state_of_def)

text \<open>Who runs next is well defined: the head of the ready queue, the hub, or the main cothread.\<close>

definition next_target :: "gevent_hub \<Rightarrow> tid option" where
  "next_target s =
     (case ready s of
        t # _ \<Rightarrow> Some t
      | [] \<Rightarrow> if hub_stacklet s = None then Some main_id else None)"

lemma any_stacklet:
  assumes "ginv p None" and "state_of p t \<notin> {GEVENT_COTHREAD_NEW, GEVENT_COTHREAD_DEAD}"
  shows "\<exists>fs. co_stacklet (cothreads p t) = Some (Some t, fs)"
proof (cases "state_of p t = GEVENT_COTHREAD_CURRENT")
  case True
  with assms(1) show ?thesis by (auto simp: ginv_def suspended_with_def)
next
  case False
  with assms show ?thesis by (intro susp_stacklet) (auto simp: ginv_def)
qed

lemma next_ok:
  assumes inv: "ginv p None" and hub: "current s = None \<longrightarrow> hub_stacklet s = None"
    and rd: "ready s = ready p" and hs: "hub_stacklet s = hub_stacklet p"
    and st: "\<And>u. u \<in> set (ready s) \<or> u = main_id \<Longrightarrow>
      state_of s u = state_of p u \<and> co_stacklet (cothreads s u) = co_stacklet (cothreads p u)"
  shows "\<exists>fs. get_next_stacklet s = Ret ((next_target s, fs),
      s\<lparr>ready := (case ready s of [] \<Rightarrow> [] | t # _ \<Rightarrow> remove1 t (ready s))\<rparr>) \<and>
    (\<forall>t. next_target s = Some t \<longrightarrow> co_stacklet (cothreads p t) = Some (Some t, fs) \<and>
       state_of p t \<notin> {GEVENT_COTHREAD_NEW, GEVENT_COTHREAD_DEAD} \<and>
       (t = main_id \<or> state_of p t = GEVENT_COTHREAD_READY))"
proof -
  note stk = any_stacklet [OF inv]
  show ?thesis
  proof (cases "ready s")
    case (Cons t ts)
    have "t \<in> set (ready p)" using Cons rd [symmetric] by simp
    then have t: "state_of p t = GEVENT_COTHREAD_READY"
      using inv unfolding ginv_def ready_ok_def by blast
    with stk [of t] obtain fs where fs: "co_stacklet (cothreads p t) = Some (Some t, fs)" by auto
    have "state_of s t = GEVENT_COTHREAD_READY \<and> co_stacklet (cothreads s t) = Some (Some t, fs)"
      using st [of t] Cons t fs by simp
    then show ?thesis
      using Cons t fs by (simp add: get_next_stacklet_def before_switch_def next_target_def Let_def)
  next
    case Nil
    have same: "s\<lparr>ready := []\<rparr> = s" using Nil by simp
    show ?thesis
    proof (cases "hub_stacklet s")
      case None
      have m: "state_of p main_id \<notin> {GEVENT_COTHREAD_NEW, GEVENT_COTHREAD_DEAD}"
        using inv by (simp add: ginv_def)
      with stk [of main_id] obtain fs where fs: "co_stacklet (cothreads p main_id) = Some (Some main_id, fs)"
        by auto
      moreover have "co_stacklet (cothreads s main_id) = Some (Some main_id, fs)"
        using st [of main_id] fs by simp
      ultimately show ?thesis
        using Nil None m same by (simp add: get_next_stacklet_def before_switch_def next_target_def)
    next
      case (Some h)
      then have "h = (None, [])" using inv hs by (auto simp: ginv_def)
      then show ?thesis
        using Nil Some hub same
        by (auto simp: get_next_stacklet_def before_switch_def next_target_def)
    qed
  qed
qed

text \<open>
  When a cothread ends, \<open>_get_next_stacklet\<close> may resume the main cothread although it waits for
  something, even for a name resolution.
\<close>

lemma return_ok:
  assumes inv: "ginv s (Some c)" and cur: "current s = Some c" and nm: "c \<noteq> main_id"
  shows "\<exists>s'. cothread_starter_end s c = Ret s' \<and> ginv s' (current s') \<and> current s' = next_target s \<and>
    state_of s' c = GEVENT_COTHREAD_DEAD \<and> sframe s s'"
proof -
  let ?s = "set_co c (co_stacklet_update (\<lambda>_. None)) s" and ?p = "obituary c (bury c s)"
  note run = running_facts [OF inv]
  have invp: "ginv ?p None" using ginv_bury [OF inv nm] by simp
  have nt: "next_target ?s = next_target s" by (cases "ready s") (simp_all add: next_target_def)
  let ?r = "case ready s of [] \<Rightarrow> [] | t # _ \<Rightarrow> remove1 t (ready s)"
  have same: "state_of ?s u = state_of ?p u \<and>
      co_stacklet (cothreads ?s u) = co_stacklet (cothreads ?p u)"
    if "u \<in> set (ready ?s) \<or> u = main_id" for u
  proof -
    have "u \<noteq> c" using that run(2) nm by auto
    then show ?thesis by (simp add: state_of_def)
  qed
  have "current ?s = None \<longrightarrow> hub_stacklet ?s = None" "ready ?s = ready ?p"
      "hub_stacklet ?s = hub_stacklet ?p"
    using cur by simp_all
  note nxt = next_ok [OF invp this same]
  have rdy: "ready ?s = ready s" by simp
  obtain fs where
    fs: "get_next_stacklet ?s = Ret ((next_target s, fs), ?s\<lparr>ready := ?r\<rparr>)"
      "\<And>t. next_target s = Some t \<Longrightarrow> co_stacklet (cothreads ?p t) = Some (Some t, fs) \<and>
       state_of ?p t \<notin> {GEVENT_COTHREAD_NEW, GEVENT_COTHREAD_DEAD} \<and>
       (t = main_id \<or> state_of ?p t = GEVENT_COTHREAD_READY)"
    using nxt unfolding nt rdy by blast
  have ne: "next_target s \<noteq> Some c"
    using run(2) nm by (auto simp: next_target_def split: list.splits)
  have sw: "after_switch (?s\<lparr>ready := ?r\<rparr>) (next_target s) EMPTY_STACKLET_HANDLE =
      Ret (enter (?p\<lparr>ready := ?r\<rparr>) (next_target s))"
  proof -
    have "state_of (?s\<lparr>ready := ?r\<rparr>) c = GEVENT_COTHREAD_CURRENT" using run(1) by (simp add: state_of_def)
    from after_switch_empty [OF _ nm this ne] cur show ?thesis
      by (simp add: obituary_enter)
  qed
  show ?thesis
  proof (cases "next_target s")
    case None
    then have "ready s = []" by (auto simp: next_target_def split: list.splits)
    then have same: "?p\<lparr>ready := ?r\<rparr> = ?p" by simp
    have "cothread_starter_end s c = Ret (enter ?p None)"
      using fs(1) sw None same by (simp add: cothread_starter_end_def stacklet_resume_def Let_def)
    moreover have "state_of (enter ?p None) u = (if u = c then GEVENT_COTHREAD_DEAD else state_of s u)" for u
      by (simp add: state_of_def) (simp add: bury_def)
    ultimately show ?thesis using enter_hub [OF invp] None cur by (simp add: sframe_def)
  next
    case (Some t)
    note f = fs(2) [OF Some]
    have r: "?r = remove1 t (ready ?p)"
    proof (cases "ready s")
      case Nil then show ?thesis by simp
    next
      case (Cons u us) then show ?thesis using Some by (simp add: next_target_def)
    qed
    have nb: "state_of ?p t = GEVENT_WAITING_GETADDRINFO \<Longrightarrow> t = main_id" using f by auto
    from wake_ok [OF invp conjunct1 [OF f] _ nb] f obtain s' where
      s': "finish t fs (enter (?p\<lparr>ready := remove1 t (ready ?p)\<rparr>) (Some t)) = Ret s'" "ginv s' (Some t)"
        "wake_frame ?p t s'" by blast
    have "cothread_starter_end s c = Ret s'"
      using fs(1) sw s'(1) r Some
      by (simp add: cothread_starter_end_def stacklet_resume_def Let_def finish_def)
    moreover have "cothreads s' c = cothreads ?p c" using s'(3) ne Some by (simp add: wake_frame_def)
    then have "state_of s' c = state_of ?p c" by (simp only: state_of_def)
    moreover have "sframe s s'" by (rule sframe_wake [OF s'(3)]) (use cur in simp)
    ultimately show ?thesis using s'(2,3) Some by (simp add: wake_frame_def)
  qed
qed


lemma park_hub:
  assumes "ginv s None" and "current s = None"
  shows "ginv (park s []) None" "park s [] = s\<lparr>hub_stacklet := Some (None, [])\<rparr>"
  using assms by (simp_all add: park_def ginv_hub_stacklet)

lemma loop_end_ok:
  assumes inv: "ginv s None" and cur: "current s = None"
  shows "\<exists>s'. hub_starter_end s = Ret s' \<and> ginv s' (current s') \<and>
    current s' = Some (case ready s of [] \<Rightarrow> main_id | t # _ \<Rightarrow> t) \<and> sframe s s'"
proof -
  let ?s = "s\<lparr>loop_alive := False, hub_stacklet := None\<rparr>"
  have invp: "ginv ?s None" using ginv_hub_stacklet [of "s\<lparr>loop_alive := False\<rparr>" None None] inv by simp
  let ?t = "case ready s of [] \<Rightarrow> main_id | t # _ \<Rightarrow> t"
  have nt: "next_target ?s = Some ?t" by (simp add: next_target_def split: list.splits)
  have "current ?s = None \<longrightarrow> hub_stacklet ?s = None" by simp
  note nxt = next_ok [OF invp this refl refl]
  have rd: "(case ready ?s of [] \<Rightarrow> [] | t # _ \<Rightarrow> remove1 t (ready ?s)) = remove1 ?t (ready ?s)"
    by (simp split: list.splits)
  obtain fs where fs: "get_next_stacklet ?s = Ret ((Some ?t, fs), ?s\<lparr>ready := remove1 ?t (ready ?s)\<rparr>)"
      "co_stacklet (cothreads ?s ?t) = Some (Some ?t, fs)"
      "state_of ?s ?t \<notin> {GEVENT_COTHREAD_NEW, GEVENT_COTHREAD_DEAD}"
      "?t = main_id \<or> state_of ?s ?t = GEVENT_COTHREAD_READY"
    using nxt unfolding nt rd by blast
  have nb: "state_of ?s ?t = GEVENT_WAITING_GETADDRINFO \<Longrightarrow> ?t = main_id"
    using fs(4) by auto
  from wake_ok [OF invp fs(2,3) nb] obtain s' where
    s': "finish ?t fs (enter (?s\<lparr>ready := remove1 ?t (ready ?s)\<rparr>) (Some ?t)) = Ret s'" "ginv s' (Some ?t)"
      "wake_frame ?s ?t s'" by blast
  have "after_switch (?s\<lparr>ready := remove1 ?t (ready ?s)\<rparr>) (Some ?t) EMPTY_STACKLET_HANDLE =
      Ret (enter (?s\<lparr>ready := remove1 ?t (ready ?s)\<rparr>) (Some ?t))"
    by (rule after_switch_hub_empty) (use cur in simp_all)
  then have "hub_starter_end s = Ret s'"
    using fs(1) s'(1)
    by (simp add: hub_starter_end_def Let_def stacklet_resume_def finish_def del: gevent_hub.update_convs)
  moreover have "sframe s s'" by (rule sframe_wake [OF s'(3)]) simp
  ultimately show ?thesis using s'(2,3) by (simp add: wake_frame_def)
qed

text \<open>The earliest timer is due: its callback will switch.\<close>

definition loop_timer_due :: "gevent_hub \<Rightarrow> bool" where
  "loop_timer_due s \<longleftrightarrow> (case rb_min (timer_handles (g_loop s)) of
     None \<Rightarrow> False | Some h \<Rightarrow> due_time (g_loop s) h \<le> loop_time (g_loop s))"

lemma loop_timer_start:
  assumes inv: "ginv s None" and cur: "current s = None"
    and h: "rb_min (timer_handles (g_loop s)) = Some h" "due_time (g_loop s) h \<le> loop_time (g_loop s)"
  shows "state_of s h = GEVENT_WAITING_TIMER \<and> (\<exists>L. uv_timer_stop (g_loop s) h = Ret (0, L) \<and>
    timers L = timers (g_loop s) \<and> \<not> uv__is_active L h \<and> loop_timer s = gevent_switch (s\<lparr>g_loop := L\<rparr>) h [])"
proof -
  let ?A = "{u. state_of s u = GEVENT_WAITING_TIMER}"
  have tim: "timers_in (g_loop s) ?A" using inv by (auto simp: ginv_def)
  then have hA: "h \<in> ?A"
    using h by (cases "rb_inorder (timer_handles (g_loop s))") (auto simp: timers_in_def rb_min_inorder)
  have cb: "timer_cb (timers (g_loop s) h) = Some sleep_cb_id" "timer_repeat (timers (g_loop s) h) = 0"
    using tim hA by (auto simp: timers_in_def)
  from timers_in_stop [OF tim hA] obtain L where L:
    "uv_timer_stop (g_loop s) h = Ret (0, L)" "timers L = timers (g_loop s)" "\<not> uv__is_active L h" by blast
  have "loop_timer s = sleep_cb (s\<lparr>g_loop := L\<rparr>) h"
    using h L cb by (simp add: loop_timer_def uv_timer_again_def not_less [symmetric])
  also have "\<dots> = gevent_switch (s\<lparr>g_loop := L\<rparr>) h []"
    using hA cur by (simp add: sleep_cb_def)
  finally show ?thesis using L hA by blast
qed

lemma loop_timer_ok:
  assumes inv: "ginv s None" and cur: "current s = None" and mem: "no_memory s \<longrightarrow> \<not> loop_timer_due s"
  shows "\<exists>s'. loop_timer s = Ret s' \<and> ginv s' (current s') \<and> sframe s s' \<and>
    (case rb_min (timer_handles (g_loop s)) of
       None \<Rightarrow> s' = s
     | Some h \<Rightarrow>
         if due_time (g_loop s) h > loop_time (g_loop s) then s' = s
         else current s' = Some h \<and> state_of s h = GEVENT_WAITING_TIMER \<and>
           glog s' = glog s @ [Returned h (R_int 0)] \<and> ready s' = ready s)"
proof (cases "rb_min (timer_handles (g_loop s))")
  case None
  with inv cur show ?thesis by (simp add: loop_timer_def sframe_def)
next
  case (Some h)
  show ?thesis
  proof (cases "due_time (g_loop s) h > loop_time (g_loop s)")
    case True
    with Some inv cur show ?thesis by (simp add: loop_timer_def sframe_def)
  next
    case False
    then have due: "due_time (g_loop s) h \<le> loop_time (g_loop s)" by simp
    have mem: "\<not> no_memory s" using mem Some due by (simp add: loop_timer_due_def)
    from loop_timer_start [OF inv cur Some due] obtain L where L: "state_of s h = GEVENT_WAITING_TIMER"
      "uv_timer_stop (g_loop s) h = Ret (0, L)" "timers L = timers (g_loop s)" "\<not> uv__is_active L h"
      "loop_timer s = gevent_switch (s\<lparr>g_loop := L\<rparr>) h []" by blast
    note h = L(1)
    have stk: "stack_ok s h" using inv by (simp add: ginv_def)
    have fs: "co_stacklet (cothreads s h) = Some (Some h, [K_sleep])"
      using stk h by (simp add: stack_ok_def suspended_with_def)
    let ?p = "s\<lparr>hub_stacklet := Some (None, [])\<rparr>"
    let ?f = "\<lambda>s. finish h [K_sleep] (enter s (Some h))"
    have "loop_timer s = gevent_switch (s\<lparr>g_loop := L\<rparr>) h []" by (rule L(5))
    also have "\<dots> = stacklet_resume (s\<lparr>g_loop := L\<rparr>) (Some h, [K_sleep]) (Source (current (s\<lparr>g_loop := L\<rparr>), []))"
      using h cur fs mem by (simp add: gevent_switch_def before_switch_def stacklet_or_abort_def)
    also have "\<dots> = ?f (park (s\<lparr>g_loop := L\<rparr>) [])"
      by (rule resume_cothread) (simp add: cur)
    also have "\<dots> = Ret (add_log (Returned h (R_int 0)) (enter (?p\<lparr>g_loop := L\<rparr>) (Some h)))"
      using cur L(4) stop_inactive [of L h] by (simp add: park_def finish_def enter_def set_co_def)
    also have "\<dots> = ?f ?p"
      using L(2) by (simp add: finish_def enter_def set_co_def)
    finally have lt: "loop_timer s = ?f ?p" and
      res: "loop_timer s = Ret (add_log (Returned h (R_int 0)) (enter (?p\<lparr>g_loop := L\<rparr>) (Some h)))"
      using L(2) by (simp_all add: finish_def enter_def set_co_def)
    have invp: "ginv ?p None" using park_hub [OF inv cur] by simp
    have nr: "?p\<lparr>ready := remove1 h (ready ?p)\<rparr> = ?p"
    proof -
      have "h \<notin> set (ready s)" using inv h by (auto simp: ginv_def ready_ok_def)
      then show ?thesis by (simp add: remove1_idem)
    qed
    have "co_stacklet (cothreads ?p h) = Some (Some h, [K_sleep])"
      "state_of ?p h \<notin> {GEVENT_COTHREAD_NEW, GEVENT_COTHREAD_DEAD}"
      "state_of ?p h = GEVENT_WAITING_GETADDRINFO \<Longrightarrow> h = main_id"
      using fs h by simp_all
    from wake_ok [OF invp this] obtain s' where s': "?f ?p = Ret s'" "ginv s' (Some h)" "wake_frame ?p h s'"
      unfolding nr by blast
    have "s' = add_log (Returned h (R_int 0)) (enter (?p\<lparr>g_loop := L\<rparr>) (Some h))"
      using s'(1) lt res by simp
    moreover have "sframe s s'" by (rule sframe_wake [OF s'(3)]) simp
    ultimately show ?thesis using s' lt Some False h by (simp add: wake_frame_def)
  qed
qed

text \<open>The completion of a resolution, up to the assert of \<open>getaddrinfo_cb\<close>.\<close>

definition resolved :: "gevent_hub \<Rightarrow> nat \<Rightarrow> int \<Rightarrow> nat \<Rightarrow> tid \<Rightarrow> gevent_hub" where
  "resolved s req error res t =
     set_co t (\<lambda>x. x\<lparr>op_res := res, op_error := Some error\<rparr>)
       (s\<lparr>g_loop := (g_loop s)\<lparr>active_reqs := remove1 req (active_reqs (g_loop s))\<rparr>,
          req_data := (req_data s)(req := None)\<rparr>)"

lemma loop_addrinfo_start:
  assumes inv: "ginv s None" and req: "req \<in> set (active_reqs (g_loop s))"
  shows "\<exists>t. req_data s req = Some t \<and> (t \<noteq> main_id \<longrightarrow> state_of s t = GEVENT_WAITING_GETADDRINFO) \<and>
    loop_addrinfo s req error res = assert_that (state_of s t = GEVENT_WAITING_GETADDRINFO)
      (gevent_switch (resolved s req error res t) t [])"
proof -
  obtain t where t: "req_data s req = Some t" "t \<noteq> main_id \<longrightarrow> state_of s t = GEVENT_WAITING_GETADDRINFO"
    using inv req unfolding ginv_def reqs_ok_def by blast
  have "active_reqs (g_loop s) \<noteq> []" using req by auto
  then have "uv__req_unregister (g_loop s) req =
      Ret ((g_loop s)\<lparr>active_reqs := remove1 req (active_reqs (g_loop s))\<rparr>)"
    by (simp add: uv__req_unregister_def uv__has_active_reqs_def)
  with t show ?thesis by (simp add: loop_addrinfo_def getaddrinfo_cb_def resolved_def)
qed

lemma loop_addrinfo_ok:
  assumes inv: "ginv s None" and mem: "\<not> no_memory s" and cur: "current s = None"
    and req: "req \<in> set (active_reqs (g_loop s))"
    and t: "req_data s req = Some t" "state_of s t = GEVENT_WAITING_GETADDRINFO"
  shows "\<exists>s'. loop_addrinfo s req error res = Ret s' \<and> ginv s' (Some t) \<and> current s' = Some t \<and>
    ready s' = ready s \<and> sframe s s' \<and>
    glog s' = glog s @ [Returned t (R_addrinfo (Some error) (if error = 0 then Some res else None))]"
proof -
  let ?R = "set (active_reqs (g_loop s))"
  have rq: "reqs_ok s" and stk: "stack_ok s t" using inv by (simp_all add: ginv_def)
  have fs: "co_stacklet (cothreads s t) = Some (Some t, [K_getaddrinfo])"
    using stk t(2) by (simp add: stack_ok_def suspended_with_def)
  let ?s = "resolved s req error res t"
  let ?r = "R_addrinfo (Some error) (if error = 0 then Some res else None)"
  let ?f = "add_log (Returned t ?r) (enter (park ?s []) (Some t))"
  have st: "state_of ?s u = state_of s u" for u by (simp add: resolved_def state_of_def)
  have sfr: "current ?s = None" "no_memory ?s = no_memory s" "channels ?s = channels s" "ready ?s = ready s"
      "hub_stacklet ?s = hub_stacklet s" "glog ?s = glog s" "req_data ?s = (req_data s)(req := None)"
      "g_loop ?s = (g_loop s)\<lparr>active_reqs := remove1 req (active_reqs (g_loop s))\<rparr>"
    using cur by (simp_all add: resolved_def)
  have co: "u \<noteq> t \<Longrightarrow> cothreads ?s u = cothreads s u" for u by (simp add: resolved_def)
  have fs2: "co_stacklet (cothreads ?s t) = Some (Some t, [K_getaddrinfo])"
    "op_error (cothreads ?s t) = Some error" "op_res (cothreads ?s t) = res"
    using fs by (simp_all add: resolved_def)
  have "loop_addrinfo s req error res = gevent_switch ?s t []"
    using loop_addrinfo_start [OF inv req, of error res] t by auto
  also have "\<dots> = stacklet_resume ?s (Some t, [K_getaddrinfo]) (Source (current ?s, []))"
    using t(2) sfr(1,2) mem fs2 st [of t]
    by (simp add: gevent_switch_def before_switch_def stacklet_or_abort_def)
  also have "\<dots> = finish t [K_getaddrinfo] (enter (park ?s []) (Some t))"
    by (rule resume_cothread) (simp add: sfr)
  also have "\<dots> = Ret ?f"
    using sfr(1) fs2 by (cases "error = 0") (simp_all add: finish_def Let_def park_def enter_def)
  finally have ret: "loop_addrinfo s req error res = Ret ?f" .
  let ?p = "park s []"
  have invp: "ginv ?p None" by (rule park_hub(1) [OF inv cur])
  have noch: "remove1 t (receivers (channels ?p ch)) = receivers (channels ?p ch)"
      "remove1 t (senders (channels ?p ch)) = senders (channels ?p ch)" for ch
    by (rule not_in_channels [OF invp]; simp add: t(2))+
  have noready: "remove1 t (ready s) = ready s"
    using inv t(2) by (intro remove1_idem) (auto simp: ginv_def ready_ok_def)
  have stf: "state_of ?f u = (if u = t then GEVENT_COTHREAD_CURRENT else state_of s u)" for u
    by (simp add: st)
  have "ginv ?f (Some t)"
  proof (rule ginv_wake [OF invp])
    show "cothreads ?f u = cothreads ?p u" if "u \<noteq> t" for u
      using that cur sfr(1) co [of u] by (simp add: park_def)
    show "state_of ?f t = GEVENT_COTHREAD_CURRENT" by (simp add: stf)
    show "ready ?f = remove1 t (ready ?p)" using noready by (simp add: sfr)
    show "hub_stacklet ?f = hub_stacklet ?p" using cur sfr(1) by (simp add: park_def)
    show "timers_in (g_loop ?f) ({u. state_of ?p u = GEVENT_WAITING_TIMER} - {t})"
      using inv t(2) by (auto simp: sfr ginv_def timers_in_reqs Diff_insert0)
    show "reqs_ok ?f"
    proof -
      have R: "distinct (remove1 req (active_reqs (g_loop s)))"
          "set (remove1 req (active_reqs (g_loop s))) = ?R - {req}"
        using rq by (simp_all add: reqs_ok_def)
      have fl: "active_reqs (g_loop ?f) = remove1 req (active_reqs (g_loop s))"
          "req_data ?f = (req_data s)(req := None)" by (simp_all add: sfr)
      have one: "t = main_id" if "r \<in> ?R - {req}" "req_data s r = Some t" for r
      proof (rule ccontr)
        assume "t \<noteq> main_id"
        from rq req obtain u where "req_data s req = Some u" "u \<noteq> main_id \<longrightarrow>
            (\<forall>r'\<in>?R. req_data s r' = Some u \<longrightarrow> r' = req)"
          unfolding reqs_ok_def by blast
        with that t(1) \<open>t \<noteq> main_id\<close> show False by auto
      qed
      show ?thesis
        unfolding reqs_ok_def fl R(2)
      proof (intro conjI ballI allI impI)
        show "distinct (remove1 req (active_reqs (g_loop s)))" by (rule R(1))
      next
        fix r assume r: "r \<in> ?R - {req}"
        then have "r \<in> ?R" by simp
        with rq obtain u where u: "req_data s r = Some u" "u \<noteq> main_id \<longrightarrow>
            state_of s u = GEVENT_WAITING_GETADDRINFO \<and> (\<forall>r'\<in>?R. req_data s r' = Some u \<longrightarrow> r' = r)"
          unfolding reqs_ok_def by blast
        then have "u \<noteq> main_id \<Longrightarrow> u \<noteq> t" using one [OF r] by auto
        with u r show "\<exists>t'. ((req_data s)(req := None)) r = Some t' \<and>
            (t' \<noteq> main_id \<longrightarrow> state_of ?f t' = GEVENT_WAITING_GETADDRINFO \<and>
              (\<forall>r'\<in>?R - {req}. ((req_data s)(req := None)) r' = Some t' \<longrightarrow> r' = r))"
          unfolding stf by (intro exI [of _ u]) auto
      next
        fix u assume "state_of ?f u = GEVENT_WAITING_GETADDRINFO"
        then have u: "u \<noteq> t" "state_of s u = GEVENT_WAITING_GETADDRINFO" unfolding stf by (auto split: if_splits)
        with rq obtain r where "r \<in> ?R" "req_data s r = Some u" unfolding reqs_ok_def by blast
        then show "\<exists>r\<in>?R - {req}. ((req_data s)(req := None)) r = Some u" using u(1) t(1) by auto
      qed
    qed
  qed (use noch sfr in simp_all)
  moreover have "sframe s ?f" using cur by (auto simp: sframe_def stf st)
  ultimately show ?thesis using ret by (intro exI [of _ ?f]) (simp add: sfr)
qed

end
