(* ===== verification/Gevent_Props.thy ===== *)
theory Gevent_Props
  imports Gevent_Inv
begin

text \<open>
  The guarantees of the cothread library for the runs of a program: the step lemma for all
  operations, the reachable states, the properties of the scheduler, of channels, semaphores
  and sleeping, and the runs in which the code does not keep what its header promises.
\<close>

section \<open>Every step keeps the invariant\<close>

text \<open>
  What the caller owes: only a new cothread is spawned, structures that are in use are not
  initialized again, the timeouts of sleeps are not negative, memory is fresh. Every call of
  \<open>gevent_wait\<close>, every end of a cothread, and every failure of an allocation is allowed.
\<close>

fun gevent_legal :: "gop \<Rightarrow> gevent_hub \<Rightarrow> bool" where
  "gevent_legal (G_init t run) s \<longleftrightarrow> t \<noteq> main_id \<and>
     (state_of s t = GEVENT_COTHREAD_NEW \<or> state_of s t = GEVENT_COTHREAD_DEAD)"
| "gevent_legal (G_spawn t) s \<longleftrightarrow> state_of s t = GEVENT_COTHREAD_NEW"
| "gevent_legal (G_sleep n) s \<longleftrightarrow> 0 \<le> sint n"
| "gevent_legal (G_channel ch) s \<longleftrightarrow>
     receivers (channels s (Channel ch)) = [] \<and> senders (channels s (Channel ch)) = []"
| "gevent_legal (G_semaphore sem n) s \<longleftrightarrow>
     receivers (channels s (Sem_channel sem)) = [] \<and> senders (channels s (Sem_channel sem)) = []"
| "gevent_legal (G_getaddrinfo mem rc) s \<longleftrightarrow>
     (case mem of None \<Rightarrow> True | Some r \<Rightarrow> r \<notin> set (active_reqs (g_loop s)))"
| "gevent_legal _ s \<longleftrightarrow> True"

text \<open>The steps that leave a stack, and so need memory for its stacklet.\<close>

fun gevent_switches :: "gop \<Rightarrow> gevent_hub \<Rightarrow> bool" where
  "gevent_switches (G_spawn t) s \<longleftrightarrow> True"
| "gevent_switches (G_sleep n) s \<longleftrightarrow> True"
| "gevent_switches (G_wait n) s \<longleftrightarrow> True"
| "gevent_switches (G_receive ch) s \<longleftrightarrow> True"
| "gevent_switches (G_send ch v) s \<longleftrightarrow> True"
| "gevent_switches (G_acquire sem) s \<longleftrightarrow> sint (sem_counter s sem) \<le> 0"
| "gevent_switches (G_release sem) s \<longleftrightarrow> receivers (channels s (Sem_channel sem)) \<noteq> []"
| "gevent_switches (G_getaddrinfo mem rc) s \<longleftrightarrow> mem \<noteq> None \<and> rc = 0"
| "gevent_switches L_timer s \<longleftrightarrow> loop_timer_due s"
| "gevent_switches (L_addrinfo req error res) s \<longleftrightarrow> True"
| "gevent_switches _ s \<longleftrightarrow> False"

text \<open>
  A resolution of the main cothread completes although the main cothread does not wait for one
  any more: it has been resumed before its time (C29).
\<close>

fun gevent_stale :: "gop \<Rightarrow> gevent_hub \<Rightarrow> bool" where
  "gevent_stale (L_addrinfo req error res) s \<longleftrightarrow>
     req_data s req = Some main_id \<and> state_of s main_id \<noteq> GEVENT_WAITING_GETADDRINFO"
| "gevent_stale _ s \<longleftrightarrow> False"

definition gevent_aborts :: "gop \<Rightarrow> gevent_hub \<Rightarrow> bool" where
  "gevent_aborts op s \<longleftrightarrow> no_memory s \<and> gevent_switches op s \<or> gevent_stale op s"

text \<open>Why a cothread that blocks goes on.\<close>

definition wake_cause :: "gop \<Rightarrow> gevent_hub \<Rightarrow> gevent_hub \<Rightarrow> tid \<Rightarrow> bool" where
  "wake_cause op s s' t \<longleftrightarrow>
     current s = Some t \<or> t = main_id \<or> state_of s t = GEVENT_COTHREAD_NEW \<or>
     state_of s t = GEVENT_COTHREAD_READY \<or>
     (case op of
        L_timer \<Rightarrow> state_of s t = GEVENT_WAITING_TIMER \<and> due_time (g_loop s) t \<le> loop_time (g_loop s)
      | L_addrinfo req error res \<Rightarrow> state_of s t = GEVENT_WAITING_GETADDRINFO \<and> req_data s req = Some t
      | G_send n v \<Rightarrow> (\<exists>ts. receivers (channels s (Channel n)) = t # ts) \<and>
          glog s' = glog s @ [Returned t (R_value (Some v))]
      | G_receive n \<Rightarrow> (\<exists>ts. senders (channels s (Channel n)) = t # ts) \<and>
          glog s' = glog s @ [Returned t R_void]
      | G_release sem \<Rightarrow> \<exists>ts. receivers (channels s (Sem_channel sem)) = t # ts
      | G_acquire sem \<Rightarrow> \<exists>ts. senders (channels s (Sem_channel sem)) = t # ts
      | _ \<Rightarrow> False)"

text \<open>Initializing a cothread that is not in use changes its state, too.\<close>

definition step_frame :: "gevent_hub \<Rightarrow> gevent_hub \<Rightarrow> bool" where
  "step_frame s s' \<longleftrightarrow>
     (\<forall>u. current s \<noteq> Some u \<longrightarrow> current s' \<noteq> Some u \<longrightarrow>
        state_of s u \<notin> {GEVENT_COTHREAD_NEW, GEVENT_COTHREAD_DEAD} \<longrightarrow> state_of s' u = state_of s u)"

lemma sframe_step: "sframe s s' \<Longrightarrow> step_frame s s'"
  by (simp add: sframe_def step_frame_def)

definition step_ok :: "gop \<Rightarrow> gevent_hub \<Rightarrow> gevent_hub outcome \<Rightarrow> bool" where
  "step_ok op s r \<longleftrightarrow> (\<exists>s'. r = Ret s' \<and> ginv s' (current s') \<and> step_frame s s' \<and>
     (\<forall>t. current s' = Some t \<longrightarrow> wake_cause op s s' t))"

lemma step_okI:
  assumes "r = Ret s'" and "ginv s' (current s')" and "sframe s s'"
    and "\<And>t. current s' = Some t \<Longrightarrow> wake_cause op s s' t"
  shows "step_ok op s r"
  using assms sframe_step by (auto simp: step_ok_def)

lemma block_step:
  assumes inv: "ginv s (Some c)" and mem: "\<not> no_memory s1" and cur: "current s = Some c"
    and s1: "ginv (park s1 k) None" "current s1 = Some c" "state_of s1 c \<noteq> GEVENT_COTHREAD_READY"
      "ready s1 = ready s" "\<forall>u. u \<noteq> c \<longrightarrow> state_of s1 u = state_of s u"
  shows "step_ok op s (gevent_yield s1 k)"
proof -
  from yield_ok [OF s1(1) mem s1(2,3)] obtain s' where s': "gevent_yield s1 k = Ret s'"
      "ginv s' (current s')" "sframe s1 s'"
      "case ready s of t # _ \<Rightarrow> current s' = Some t | [] \<Rightarrow> current s' = None"
    unfolding s1(4) by (cases "ready s") auto
  have "sframe s s'" using s'(3) s1(2,5) cur by (simp add: sframe_def)
  moreover have "state_of s t = GEVENT_COTHREAD_READY" if "current s' = Some t" for t
  proof -
    have "t \<in> set (ready s)" using s'(4) that by (cases "ready s") auto
    then show ?thesis using inv unfolding ginv_def ready_ok_def by blast
  qed
  ultimately show ?thesis using s'(1,2) by (intro step_okI [of _ s']) (auto simp: wake_cause_def)
qed

lemma local_step:
  assumes "ginv s' (current s)" and "current s' = current s"
    and "\<And>u. current s \<noteq> Some u \<Longrightarrow> state_of s' u = state_of s u"
  shows "step_ok op s (Ret s')"
  using assms by (intro step_okI [of _ s']) (auto simp: sframe_def wake_cause_def)

lemma receive_step:
  assumes inv: "ginv s (Some c)" and mem: "\<not> no_memory s" and cur: "current s = Some c"
    and op: "ch = Channel n \<and> op = G_receive n \<or> ch = Sem_channel n \<and> op = G_acquire n"
  shows "step_ok op s (gevent_channel_receive s ch (chan_rest ch))"
proof (cases "senders (channels s ch)")
  case Nil
  from receive_block [OF inv cur Nil] obtain s1 where
    "gevent_channel_receive s ch (chan_rest ch) = gevent_yield s1 (K_receive ch # chan_rest ch)"
    "ginv (park s1 (K_receive ch # chan_rest ch)) None" "current s1 = Some c"
    "state_of s1 c = GEVENT_COTHREAD_CHANNEL_R" "ready s1 = ready s" "no_memory s1 = no_memory s"
    "\<forall>u. u \<noteq> c \<longrightarrow> state_of s1 u = state_of s u" by blast
  with mem block_step [OF inv _ cur, of s1 "K_receive ch # chan_rest ch" op] show ?thesis by simp
next
  case (Cons t ts)
  from receive_take [OF inv mem cur Cons] obtain s' r where s':
    "gevent_channel_receive s ch (chan_rest ch) = Ret s'" "ginv s' (Some t)" "current s' = Some t"
    "glog s' = glog s @ [Returned t r]" "sframe s s'" "\<forall>n. ch = Channel n \<longrightarrow> r = R_void" by blast
  then show ?thesis
    using op Cons by (intro step_okI [of _ s']) (auto simp: wake_cause_def)
qed

lemma send_step:
  assumes inv: "ginv s (Some c)" and mem: "\<not> no_memory s" and cur: "current s = Some c"
    and op: "ch = Channel n \<and> op = G_send n v \<or> ch = Sem_channel n \<and> op = G_release n"
  shows "step_ok op s (gevent_channel_send s ch v (chan_rest ch))"
proof (cases "receivers (channels s ch)")
  case Nil
  from send_block [OF inv cur Nil] obtain s1 where
    "gevent_channel_send s ch v (chan_rest ch) = gevent_yield s1 (K_send ch # chan_rest ch)"
    "ginv (park s1 (K_send ch # chan_rest ch)) None" "current s1 = Some c"
    "state_of s1 c = GEVENT_COTHREAD_CHANNEL_S" "ready s1 = ready s" "no_memory s1 = no_memory s"
    "\<forall>u. u \<noteq> c \<longrightarrow> state_of s1 u = state_of s u" by blast
  with mem block_step [OF inv _ cur, of s1 "K_send ch # chan_rest ch" op] show ?thesis by simp
next
  case (Cons t ts)
  from send_hand [OF inv mem cur Cons, of v] obtain s' r where s':
    "gevent_channel_send s ch v (chan_rest ch) = Ret s'" "ginv s' (Some t)" "current s' = Some t"
    "glog s' = glog s @ [Returned t r]" "sframe s s'" "\<forall>n. ch = Channel n \<longrightarrow> r = R_value (Some v)"
    by blast
  then show ?thesis
    using op Cons by (intro step_okI [of _ s']) (auto simp: wake_cause_def)
qed

lemma sleep_step:
  assumes inv: "ginv s (Some c)" and mem: "\<not> no_memory s" and cur: "current s = Some c" and n: "0 \<le> sint n"
  shows "step_ok op s (sleep_internal s n ref)"
proof -
  from sleep_park [OF inv cur n, of ref] obtain s1 where
    "sleep_internal s n ref = gevent_yield s1 [K_sleep]" "ginv (park s1 [K_sleep]) None"
    "current s1 = Some c" "state_of s1 c = GEVENT_WAITING_TIMER" "ready s1 = ready s" "no_memory s1 = no_memory s"
    "\<forall>u. u \<noteq> c \<longrightarrow> state_of s1 u = state_of s u" by blast
  with mem block_step [OF inv _ cur, of s1 "[K_sleep]" op] show ?thesis by simp
qed

lemma getaddrinfo_step:
  assumes inv: "ginv s (Some c)" and cur: "current s = Some c"
    and legal: "gevent_legal (G_getaddrinfo mem rc) s" and mem: "no_memory s \<longrightarrow> mem = None \<or> rc \<noteq> 0"
  shows "step_ok op s (gevent_getaddrinfo s mem rc)"
proof (cases mem)
  case None
  let ?s = "snd (set_artificial_error s UV_ENOMEM)"
  have "ginv ?s (Some c)"
  proof -
    have "stack_ok ?s t = stack_ok s t" for t
      by (rule stack_ok_same) (simp_all add: set_artificial_error_def)
    with inv show ?thesis
      by (simp add: set_artificial_error_def ginv_def ready_ok_def chan_ok_def reqs_ok_def
          suspended_with_def timers_in_err)
  qed
  with None cur running_facts(1) [OF inv] show ?thesis
    by (auto simp: gevent_getaddrinfo_def set_artificial_error_def intro!: local_step)
next
  case (Some req)
  show ?thesis
  proof (cases "rc = 0")
    case True
    from legal Some have "req \<notin> set (active_reqs (g_loop s))" by simp
    from getaddrinfo_park [OF inv cur this] obtain s1 where
      "gevent_getaddrinfo s (Some req) 0 = gevent_yield s1 [K_getaddrinfo]"
      "ginv (park s1 [K_getaddrinfo]) None" "current s1 = Some c"
      "state_of s1 c = GEVENT_WAITING_GETADDRINFO" "ready s1 = ready s" "no_memory s1 = no_memory s"
      "\<forall>u. u \<noteq> c \<longrightarrow> state_of s1 u = state_of s u" by blast
    with mem block_step [OF inv _ cur, of s1 "[K_getaddrinfo]" op] Some True show ?thesis by simp
  next
    case False
    with Some cur inv running_facts(1) [OF inv] show ?thesis
      by (auto simp: gevent_getaddrinfo_def intro!: local_step)
  qed
qed

lemma init_step:
  assumes inv: "ginv s (Some c)" and cur: "current s = Some c"
    and t: "t \<noteq> main_id" "state_of s t = GEVENT_COTHREAD_NEW \<or> state_of s t = GEVENT_COTHREAD_DEAD"
  shows "ginv (gevent_cothread_init s t (Some run)) (Some c)"
proof -
  let ?s = "gevent_cothread_init s t (Some run)"
  have st: "state_of ?s u = (if u = t then GEVENT_COTHREAD_NEW else state_of s u)" for u
    by (simp add: gevent_cothread_init_def state_of_def)
  have oth: "cothreads ?s u = cothreads s u" if "u \<noteq> t" for u
    using that by (simp add: gevent_cothread_init_def)
  have fr: "channels ?s = channels s" "ready ?s = ready s" "g_loop ?s = g_loop s"
      "req_data ?s = req_data s" "hub_stacklet ?s = hub_stacklet s"
    by (simp_all add: gevent_cothread_init_def)
  have sets: "{u. state_of ?s u = x} = {u. state_of s u = x}"
    if "x \<noteq> GEVENT_COTHREAD_NEW" "x \<noteq> GEVENT_COTHREAD_DEAD" for x
    using that t(2) st by auto
  have stacks: "stack_ok ?s u" for u
  proof (cases "u = t")
    case True then show ?thesis by (simp add: stack_ok_def st) (simp add: gevent_cothread_init_def)
  next
    case False
    then have "stack_ok ?s u = stack_ok s u" by (intro stack_ok_same oth fr)
    then show ?thesis using inv by (simp add: ginv_def)
  qed
  have sw: "suspended_with ?s u k = suspended_with s u k" if "u \<noteq> t" for u k
    using oth [OF that] by (simp add: suspended_with_def)
  have "chan_ok ?s ch" for ch
  proof -
    have ch: "chan_ok s ch" using inv by (simp add: ginv_def)
    have "u \<noteq> t" if "u \<in> set (receivers (channels s ch)) \<union> set (senders (channels s ch))" for u
      using that ch t(2) by (auto simp: chan_ok_def)
    with ch show ?thesis unfolding chan_ok_def fr
      by (auto simp: st sw)
  qed
  moreover have "ready_ok ?s"
    using inv sets [of GEVENT_COTHREAD_READY] by (simp add: ginv_def ready_ok_def fr)
  moreover have "reqs_ok s" using inv by (simp add: ginv_def)
  then have "reqs_ok ?s"
    by (rule reqs_ok_cong) (use sets [of GEVENT_WAITING_GETADDRINFO] fr in \<open>simp_all add: set_eq_iff\<close>)
  moreover have "timers_in (g_loop ?s) {u. state_of ?s u = GEVENT_WAITING_TIMER}"
    using inv sets [of GEVENT_WAITING_TIMER] by (simp add: ginv_def fr)
  moreover have "state_of ?s c = GEVENT_COTHREAD_CURRENT"
    using running_facts(1) [OF inv] t(2) st [of c] by (auto split: if_splits)
  moreover have "c = u \<or> suspended_with ?s u [K_wait]" if "state_of ?s u = GEVENT_COTHREAD_CURRENT" for u
  proof -
    have "u \<noteq> t" using that st [of u] by auto
    with that st [of u] sw [of u] inv show ?thesis by (auto simp: ginv_def)
  qed
  ultimately show ?thesis using inv stacks t(1) fr by (simp add: ginv_def st)
qed

lemma chan_reset:
  assumes inv: "ginv s X" and empty: "receivers (channels s ch) = []" "senders (channels s ch) = []"
  shows "ginv (gevent_channel_init s ch) X"
proof -
  have "channels s ch = \<lparr>receivers = [], senders = []\<rparr>" using empty by simp
  then have "gevent_channel_init s ch = s"
    by (simp add: gevent_channel_init_def set_channel_def fun_upd_idem)
  with inv show ?thesis by simp
qed


lemma time_step:
  assumes "ginv s X"
  shows "ginv (s\<lparr>g_loop := (g_loop s)\<lparr>loop_time := now\<rparr>\<rparr>) X"
proof -
  let ?s = "s\<lparr>g_loop := (g_loop s)\<lparr>loop_time := now\<rparr>\<rparr>"
  have "stack_ok ?s t = stack_ok s t" for t by (rule stack_ok_same) simp_all
  with assms show ?thesis
    by (simp add: ginv_def ready_ok_def chan_ok_def reqs_ok_def suspended_with_def timers_in_time)
qed

lemma user_step:
  assumes inv: "ginv s (Some c)" and cur: "current s = Some c"
    and legal: "gevent_legal op s" and enabled: "gevent_enabled op s" and fine: "\<not> gevent_aborts op s"
  shows "step_ok op s (gevent_exec op s)"
proof (cases op)
  case (G_init t run)
  let ?s = "gevent_cothread_init s t (Some run)"
  have "ginv ?s (Some c)" using G_init legal init_step [OF inv cur, of t run] by auto
  moreover have "current ?s = Some c" using cur by (simp add: gevent_cothread_init_def)
  moreover have "step_frame s ?s"
    using G_init legal by (auto simp: step_frame_def gevent_cothread_init_def state_of_def)
  ultimately show ?thesis
    using G_init cur by (auto simp: step_ok_def wake_cause_def)
next
  case (G_exit_fn t f)
  have "ginv (set_co t (exit_fn_update (\<lambda>_. f)) s) (Some c)" by (rule ginv_cong [OF inv]) simp_all
  with G_exit_fn cur show ?thesis by (auto simp: state_of_def intro!: local_step)
next
  case (G_spawn t)
  with legal fine spawn_ok [OF inv _ cur, of t] obtain s' where "gevent_cothread_spawn s t = Ret s'"
    "ginv s' (Some t)" "current s' = Some t" "sframe s s'" by (auto simp: gevent_aborts_def)
  with G_spawn legal show ?thesis by (intro step_okI [of _ s']) (auto simp: wake_cause_def)
next
  case (G_sleep n)
  with legal fine sleep_step [OF inv _ cur, of n op True] show ?thesis
    by (simp add: gevent_sleep_def gevent_aborts_def)
next
  case (G_wait n)
  with fine have mem: "\<not> no_memory s" by (simp add: gevent_aborts_def)
  show ?thesis
  proof (cases "0 < sint n")
    case True
    with G_wait sleep_step [OF inv mem cur, of n op False] show ?thesis by (simp add: gevent_wait_def)
  next
    case False
    have "state_of s c \<noteq> GEVENT_COTHREAD_READY" using running_facts(1) [OF inv] by simp
    from block_step [OF inv mem cur wait_park [OF inv cur] cur this] G_wait False show ?thesis
      by (simp add: gevent_wait_def)
  qed
next
  case (G_channel n)
  with legal chan_reset [OF inv, of "Channel n"] cur show ?thesis
    by (auto simp: gevent_channel_init_def intro!: local_step)
next
  case (G_receive n)
  with fine receive_step [OF inv _ cur, of "Channel n" n op] show ?thesis by (simp add: gevent_aborts_def)
next
  case (G_send n v)
  with fine send_step [OF inv _ cur, of "Channel n" n op v] show ?thesis by (simp add: gevent_aborts_def)
next
  case (G_semaphore sem n)
  have "ginv (s\<lparr>sem_counter := (sem_counter s)(sem := n)\<rparr>) (Some c)" using inv by simp
  from chan_reset [OF this, of "Sem_channel sem"] G_semaphore legal cur show ?thesis
    by (auto simp: gevent_semaphore_init_def gevent_channel_init_def state_of_def intro!: local_step)
next
  case (G_acquire sem)
  show ?thesis
  proof (cases "sint (sem_counter s sem) > 0")
    case True
    with G_acquire cur inv running_facts(1) [OF inv] show ?thesis
      by (auto simp: gevent_semaphore_acquire_def Let_def get_current_def state_of_def intro!: local_step)
  next
    case False
    with G_acquire fine receive_step [OF inv _ cur, of "Sem_channel sem" sem op] show ?thesis
      by (simp add: gevent_semaphore_acquire_def gevent_aborts_def)
  qed
next
  case (G_release sem)
  show ?thesis
  proof (cases "receivers (channels s (Sem_channel sem)) = []")
    case True
    with G_release cur inv running_facts(1) [OF inv] show ?thesis
      by (auto simp: gevent_semaphore_release_def Let_def get_current_def state_of_def intro!: local_step)
  next
    case False
    with G_release fine send_step [OF inv _ cur, of "Sem_channel sem" sem op 0] show ?thesis
      by (simp add: gevent_semaphore_release_def gevent_aborts_def)
  qed
next
  case (G_getaddrinfo mem rc)
  with legal fine getaddrinfo_step [OF inv cur, of mem rc op] show ?thesis by (auto simp: gevent_aborts_def)
next
  case G_return
  with enabled cur have "c \<noteq> main_id" by simp
  with G_return return_ok [OF inv cur] obtain s' where s': "cothread_starter_end s c = Ret s'"
    "ginv s' (current s')" "current s' = next_target s" "sframe s s'" by auto
  have "t = main_id \<or> state_of s t = GEVENT_COTHREAD_READY" if "next_target s = Some t" for t
    using that running_facts(6) [OF inv]
    by (auto simp: next_target_def ready_ok_def split: list.splits if_splits)
  then have "wake_cause op s s' t" if "current s' = Some t" for t
    using that s'(3) by (simp add: wake_cause_def) metis
  with s' G_return cur show ?thesis by (intro step_okI [of _ s']) simp_all
next
  case (M_memory b)
  with inv cur show ?thesis by (auto intro!: local_step)
qed (use enabled cur in simp_all)

lemma hub_step:
  assumes inv: "ginv s None" and cur: "current s = None"
    and enabled: "gevent_enabled op s" and fine: "\<not> gevent_aborts op s"
  shows "step_ok op s (gevent_exec op s)"
proof (cases op)
  case (L_time now)
  with time_step [OF inv, of now] cur show ?thesis by (auto intro!: local_step)
next
  case L_timer
  with fine have "no_memory s \<longrightarrow> \<not> loop_timer_due s" by (simp add: gevent_aborts_def)
  from loop_timer_ok [OF inv cur this] obtain s' where s': "loop_timer s = Ret s'" "ginv s' (current s')"
    "sframe s s'" and c: "case rb_min (timer_handles (g_loop s)) of
       None \<Rightarrow> s' = s
     | Some h \<Rightarrow>
         if due_time (g_loop s) h > loop_time (g_loop s) then s' = s
         else current s' = Some h \<and> state_of s h = GEVENT_WAITING_TIMER" by (auto split: option.splits)
  have "wake_cause op s s' t" if "current s' = Some t" for t
    using that c cur L_timer by (auto simp: wake_cause_def split: option.splits if_splits)
  with s' L_timer show ?thesis by (intro step_okI [of _ s']) auto
next
  case (L_addrinfo req error res)
  with enabled have req: "req \<in> set (active_reqs (g_loop s))" by simp
  from loop_addrinfo_start [OF inv req] obtain t where t: "req_data s req = Some t"
    "t \<noteq> main_id \<longrightarrow> state_of s t = GEVENT_WAITING_GETADDRINFO" by blast
  with fine L_addrinfo have st: "\<not> no_memory s" "state_of s t = GEVENT_WAITING_GETADDRINFO"
    by (auto simp: gevent_aborts_def)
  from loop_addrinfo_ok [OF inv st(1) cur req t(1) st(2), of error res] obtain s' where
    s': "loop_addrinfo s req error res = Ret s'" "ginv s' (Some t)" "current s' = Some t" "sframe s s'"
    by auto
  with s' t(1) st(2) L_addrinfo show ?thesis by (intro step_okI [of _ s']) (auto simp: wake_cause_def)
next
  case L_end
  with enabled loop_end_ok [OF inv cur] obtain s' where s': "hub_starter_end s = Ret s'"
    "ginv s' (current s')" "current s' = Some (case ready s of [] \<Rightarrow> main_id | t # _ \<Rightarrow> t)" "sframe s s'"
    by auto
  have "set (ready s) = {t. state_of s t = GEVENT_COTHREAD_READY}"
    using inv unfolding ginv_def ready_ok_def by blast
  with s' L_end show ?thesis
    by (intro step_okI [of _ s']) (auto simp: wake_cause_def split: list.splits)
next
  case (M_memory b)
  with inv cur show ?thesis by (auto intro!: local_step)
qed (use enabled cur in simp_all)

lemma exec_ok:
  assumes "ginv s (current s)" and "gevent_enabled op s" and "gevent_legal op s" and "\<not> gevent_aborts op s"
  shows "step_ok op s (gevent_exec op s)"
proof (cases "current s")
  case None
  with hub_step assms show ?thesis by simp
next
  case (Some c)
  with user_step assms show ?thesis by simp
qed

text \<open>The other way round: the steps that need memory and do not get it, and a stale completion, abort.\<close>

lemma receive_abort:
  assumes "ginv s (Some c)" and "current s = Some c" and "no_memory s"
  shows "gevent_channel_receive s ch k = Abort" "gevent_channel_send s ch v k = Abort"
  using running_facts(1) [OF assms(1)] assms(2,3)
  by (auto simp: gevent_channel_receive_def gevent_channel_send_def activate_def Let_def assert_that_def
      yield_no_memory switch_no_memory set_state_co split: list.split)

lemma sleep_abort:
  assumes "ginv s (Some c)" and "current s = Some c" and "no_memory s" and "0 \<le> sint n"
  shows "sleep_internal s n ref = Abort"
proof -
  from sleep_park [OF assms(1,2,4), of ref] obtain s1 where
    "sleep_internal s n ref = gevent_yield s1 [K_sleep]" "no_memory s1 = no_memory s" by blast
  with assms(3) yield_no_memory show ?thesis by simp
qed

lemma abort_step:
  assumes inv: "ginv s (current s)" and enabled: "gevent_enabled op s" and legal: "gevent_legal op s"
    and bad: "gevent_aborts op s"
  shows "gevent_exec op s = Abort"
proof (cases "current s")
  case (Some c)
  with inv have invc: "ginv s (Some c)" by simp
  note run = running_facts(1) [OF invc]
  have mem: "no_memory s" "gevent_switches op s"
    using bad enabled Some by (cases op; simp add: gevent_aborts_def)+
  note simps = Some run mem(1) yield_no_memory switch_no_memory receive_abort [OF invc Some mem(1)]
    sleep_abort [OF invc Some mem(1)]
  show ?thesis
  proof (cases op)
    case (G_spawn t)
    then show ?thesis using legal simps by (simp add: gevent_cothread_spawn_def activate_ok)
  next
    case (G_sleep n)
    then show ?thesis using legal simps by (simp add: gevent_sleep_def)
  next
    case (G_wait n)
    then show ?thesis using simps by (simp add: gevent_wait_def)
  next
    case (G_acquire sem)
    then show ?thesis using simps mem(2) by (simp add: gevent_semaphore_acquire_def)
  next
    case (G_release sem)
    then show ?thesis using simps mem(2) by (simp add: gevent_semaphore_release_def)
  next
    case (G_getaddrinfo m rc)
    with mem(2) obtain req where m: "m = Some req" "rc = 0" by auto
    with legal G_getaddrinfo have "req \<notin> set (active_reqs (g_loop s))" by simp
    from getaddrinfo_park [OF invc Some this] obtain s1 where
      "gevent_getaddrinfo s (Some req) 0 = gevent_yield s1 [K_getaddrinfo]" "no_memory s1 = no_memory s"
      by blast
    then show ?thesis using G_getaddrinfo m simps by simp
  qed (use simps mem(2) enabled in simp_all)
next
  case None
  with inv have invn: "ginv s None" by simp
  show ?thesis
  proof (cases op)
    case L_timer
    with bad have mem: "no_memory s" "loop_timer_due s" by (simp_all add: gevent_aborts_def)
    then obtain h where h: "rb_min (timer_handles (g_loop s)) = Some h"
      "due_time (g_loop s) h \<le> loop_time (g_loop s)" by (auto simp: loop_timer_due_def split: option.splits)
    from loop_timer_start [OF invn None h] L_timer mem(1) switch_no_memory show ?thesis by auto
  next
    case (L_addrinfo req error res)
    with enabled have req: "req \<in> set (active_reqs (g_loop s))" by simp
    from loop_addrinfo_start [OF invn req, of error res] obtain t where t: "req_data s req = Some t"
      "loop_addrinfo s req error res = assert_that (state_of s t = GEVENT_WAITING_GETADDRINFO)
        (gevent_switch (resolved s req error res t) t [])" by blast
    have "no_memory (resolved s req error res t) = no_memory s" by (simp add: resolved_def)
    then show ?thesis
      using t L_addrinfo bad switch_no_memory [of "resolved s req error res t" t "[]"]
      by (auto simp: gevent_aborts_def assert_that_def)
  qed (use None bad enabled in \<open>simp_all add: gevent_aborts_def\<close>)
qed

section \<open>Reachable states\<close>

text \<open>
  A program starts with \<open>gevent_hub_init\<close> on a fresh loop. The memory of cothreads that are
  not initialized counts as dead; nothing reads it before \<open>gevent_cothread_init\<close>.
\<close>

inductive gevent_reach :: "gevent_hub \<Rightarrow> bool" where
  start: "gevent_reach fresh_hub"
| step: "gevent_reach s \<Longrightarrow> gevent_enabled op s \<Longrightarrow> gevent_legal op s \<Longrightarrow>
    gevent_exec op s = Ret s' \<Longrightarrow> gevent_reach s'"

lemma fresh_inv: "ginv fresh_hub (current fresh_hub)"
proof -
  have st: "state_of fresh_hub t = (if t = main_id then GEVENT_COTHREAD_CURRENT else GEVENT_COTHREAD_DEAD)" for t
    by (simp add: fresh_hub_def gevent_hub_init_def blank_hub_def gevent_cothread_init_def
        state_of_def set_state_co Let_def)
  have f: "current fresh_hub = Some main_id" "ready fresh_hub = []" "hub_stacklet fresh_hub = None"
      "channels fresh_hub ch = \<lparr>receivers = [], senders = []\<rparr>" "g_loop fresh_hub = empty_timers 0 ()" for ch
    by (simp_all add: fresh_hub_def gevent_hub_init_def blank_hub_def gevent_cothread_init_def)
  have empty: "{t :: nat. t = 0 \<and> 0 < t} = {}" by auto
  have "timers_in (empty_timers 0 ()) {t. t = 0 \<and> 0 < t}"
    unfolding empty by (simp add: timers_in_def empty_timers_def timer_order.sorted_tree_empty)
  moreover have "active_reqs (empty_timers 0 ()) = []" by (simp add: empty_timers_def)
  ultimately show ?thesis
    by (simp add: ginv_def st f stack_ok_def ready_ok_def chan_ok_def reqs_ok_def)
qed

lemma reach_inv: "gevent_reach s \<Longrightarrow> ginv s (current s)"
proof (induction rule: gevent_reach.induct)
  case start
  show ?case by (rule fresh_inv)
next
  case (step s op s')
  have "\<not> gevent_aborts op s" using abort_step [OF step.IH step.hyps(2,3)] step.hyps(4) by auto
  with exec_ok [OF step.IH step.hyps(2,3)] step.hyps(4) show ?case by (auto simp: step_ok_def)
qed

lemma exec_Ret:
  assumes "gevent_reach s" and "gevent_enabled op s" and "gevent_legal op s" and "gevent_exec op s = Ret s'"
  shows "step_frame s s'" "current s' = Some t \<Longrightarrow> wake_cause op s s' t"
proof -
  note inv = reach_inv [OF assms(1)]
  have "\<not> gevent_aborts op s" using abort_step [OF inv assms(2,3)] assms(4) by auto
  from exec_ok [OF inv assms(2,3) this] assms(4)
  show "step_frame s s'" "current s' = Some t \<Longrightarrow> wake_cause op s s' t" by (auto simp: step_ok_def)
qed

lemma run_reach:
  assumes "gevent_reach s" and "gevent_enabled op s" and "gevent_legal op s" and "\<not> gevent_aborts op s"
  shows "\<exists>s'. gevent_exec op s = Ret s' \<and> gevent_reach s'"
proof -
  from exec_ok [OF reach_inv [OF assms(1)] assms(2,3,4)] obtain s' where "gevent_exec op s = Ret s'"
    by (auto simp: step_ok_def)
  with assms show ?thesis by (blast intro: gevent_reach.step)
qed

section \<open>The scheduler\<close>

text \<open>
  C2. In every reachable state, whatever timeouts \<open>gevent_wait\<close> has been called with, the
  scheduler's books agree: the current cothread is in state CURRENT, and any other cothread in
  that state is suspended in a \<open>gevent_wait\<close> with a timeout that is not positive, which yields
  without a new state (C30); the ready queue holds exactly the READY cothreads, each once; on a
  channel nobody waits to send while somebody waits to receive, and those in its queues are in
  the matching state; a sleeping cothread has exactly one armed timer; every cothread other than
  the main one that waits for a name has exactly one request, and every request belongs to a
  cothread that waits for a name or to the main one; and every cothread that is suspended has a
  stack to go back to.
\<close>

theorem gevent_scheduler_consistent:
  assumes "gevent_reach s"
  shows "(\<forall>t. current s = Some t \<longrightarrow> state_of s t = GEVENT_COTHREAD_CURRENT) \<and>
    (\<forall>t. state_of s t = GEVENT_COTHREAD_CURRENT \<longrightarrow> current s = Some t \<or> suspended_with s t [K_wait]) \<and>
    distinct (ready s) \<and> set (ready s) = {t. state_of s t = GEVENT_COTHREAD_READY} \<and>
    (\<forall>ch. receivers (channels s ch) = [] \<or> senders (channels s ch) = []) \<and>
    (\<forall>ch t. t \<in> set (receivers (channels s ch)) \<longrightarrow> state_of s t = GEVENT_COTHREAD_CHANNEL_R) \<and>
    (\<forall>ch t. t \<in> set (senders (channels s ch)) \<longrightarrow> state_of s t = GEVENT_COTHREAD_CHANNEL_S) \<and>
    set (rb_inorder (timer_handles (g_loop s))) = {t. state_of s t = GEVENT_WAITING_TIMER} \<and>
    (\<forall>t. state_of s t = GEVENT_WAITING_GETADDRINFO \<longrightarrow> t \<noteq> main_id \<longrightarrow>
       (\<exists>!r. r \<in> set (active_reqs (g_loop s)) \<and> req_data s r = Some t)) \<and>
    (\<forall>r \<in> set (active_reqs (g_loop s)). \<exists>t. req_data s r = Some t \<and>
       (t = main_id \<or> state_of s t = GEVENT_WAITING_GETADDRINFO)) \<and>
    (\<forall>t. state_of s t \<in> {GEVENT_COTHREAD_READY, GEVENT_COTHREAD_CHANNEL_R, GEVENT_COTHREAD_CHANNEL_S,
        GEVENT_WAITING_TIMER, GEVENT_WAITING_GETADDRINFO} \<longrightarrow> co_stacklet (cothreads s t) \<noteq> None)"
proof -
  note inv = reach_inv [OF assms]
  have "co_stacklet (cothreads s t) \<noteq> None"
    if "state_of s t \<in> {GEVENT_COTHREAD_READY, GEVENT_COTHREAD_CHANNEL_R, GEVENT_COTHREAD_CHANNEL_S,
        GEVENT_WAITING_TIMER, GEVENT_WAITING_GETADDRINFO}" for t
  proof -
    have "stack_ok s t" using inv by (simp add: ginv_def)
    from susp_stacklet [OF this] that show ?thesis by auto
  qed
  moreover have "(\<forall>ch t. t \<in> set (receivers (channels s ch)) \<longrightarrow> state_of s t = GEVENT_COTHREAD_CHANNEL_R) \<and>
      (\<forall>ch t. t \<in> set (senders (channels s ch)) \<longrightarrow> state_of s t = GEVENT_COTHREAD_CHANNEL_S)"
    using chan_members [OF inv] by blast
  moreover have rq: "reqs_ok s" using inv by (simp add: ginv_def)
  moreover have "\<exists>t. req_data s r = Some t \<and> (t = main_id \<or> state_of s t = GEVENT_WAITING_GETADDRINFO)"
    if "r \<in> set (active_reqs (g_loop s))" for r
  proof -
    from reqs_owner [OF rq that] obtain t where "req_data s r = Some t"
      "t = main_id \<or> state_of s t = GEVENT_WAITING_GETADDRINFO" by auto
    then show ?thesis by (intro exI [of _ t] conjI)
  qed
  moreover have "\<exists>!r. r \<in> set (active_reqs (g_loop s)) \<and> req_data s r = Some t"
    if "state_of s t = GEVENT_WAITING_GETADDRINFO" "t \<noteq> main_id" for t
  proof -
    from rq that(1) obtain r where r: "r \<in> set (active_reqs (g_loop s))" "req_data s r = Some t"
      unfolding reqs_ok_def by blast
    have "r' = r" if "r' \<in> set (active_reqs (g_loop s)) \<and> req_data s r' = Some t" for r'
      using reqs_owner [OF rq r(1)] r(2) that \<open>t \<noteq> main_id\<close> by auto
    then show ?thesis using r by (intro ex1I [of _ r] conjI)
  qed
  moreover have "(\<forall>t. current s = Some t \<longrightarrow> state_of s t = GEVENT_COTHREAD_CURRENT) \<and>
      (\<forall>t. state_of s t = GEVENT_COTHREAD_CURRENT \<longrightarrow> current s = Some t \<or> suspended_with s t [K_wait]) \<and>
      distinct (ready s) \<and> set (ready s) = {t. state_of s t = GEVENT_COTHREAD_READY} \<and>
      set (rb_inorder (timer_handles (g_loop s))) = {t. state_of s t = GEVENT_WAITING_TIMER}"
    using inv unfolding ginv_def ready_ok_def timers_in_def by blast
  moreover note chan_excl [OF inv]
  ultimately show ?thesis by (intro conjI) blast+
qed

text \<open>
  C1. When the library stops the process. In every reachable state, an operation that a program
  may call, or an event of the loop, aborts in exactly two cases: it has to leave a stack and
  there is no memory for its stacklet (\<open>gevent_switch\<close> and \<open>gevent_switch_to_hub\<close>), or it is the
  completion of a name resolution of the main cothread, which has been resumed before its time
  and does not wait for a name any more (the assert of \<open>getaddrinfo_cb\<close>). In every other case no
  assert fails and no missing stack is resumed, the step returns, and the state it leads to is
  reachable again. No timeout of \<open>gevent_wait\<close> and no end of a cothread is excluded.
\<close>

theorem gevent_abort_exactly:
  assumes "gevent_reach s" and "gevent_enabled op s" and "gevent_legal op s"
  shows "if no_memory s \<and> gevent_switches op s \<or> gevent_stale op s then gevent_exec op s = Abort
    else \<exists>s'. gevent_exec op s = Ret s' \<and> gevent_reach s'"
  using run_reach [OF assms] abort_step [OF reach_inv [OF assms(1)] assms(2,3)]
  by (simp add: gevent_aborts_def)

text \<open>
  C11. A blocked cothread other than the main one goes on for its own reason only: a sleeper
  when its timer is due, a resolver when its request completes, a receiver when it is the
  first of the channel and somebody sends (and it gets that value), a sender when it is the
  first and somebody receives.
\<close>

theorem gevent_wakeup_cause:
  assumes "gevent_reach s" and "gevent_enabled op s" and "gevent_legal op s"
    and "gevent_exec op s = Ret s'"
    and "state_of s t \<in> {GEVENT_COTHREAD_CHANNEL_R, GEVENT_COTHREAD_CHANNEL_S, GEVENT_WAITING_TIMER,
      GEVENT_WAITING_GETADDRINFO}"
    and "state_of s' t \<noteq> state_of s t" and "t \<noteq> main_id"
  shows "current s' = Some t \<and>
    (case op of
       L_timer \<Rightarrow> due_time (g_loop s) t \<le> loop_time (g_loop s)
     | L_addrinfo req error res \<Rightarrow> req_data s req = Some t
     | G_send n v \<Rightarrow> (\<exists>ts. receivers (channels s (Channel n)) = t # ts) \<and>
         glog s' = glog s @ [Returned t (R_value (Some v))]
     | G_receive n \<Rightarrow> (\<exists>ts. senders (channels s (Channel n)) = t # ts)
     | G_release sem \<Rightarrow> (\<exists>ts. receivers (channels s (Sem_channel sem)) = t # ts)
     | G_acquire sem \<Rightarrow> (\<exists>ts. senders (channels s (Sem_channel sem)) = t # ts)
     | _ \<Rightarrow> False)"
proof -
  note inv = reach_inv [OF assms(1)]
  have nc: "current s \<noteq> Some t"
  proof
    assume "current s = Some t"
    with inv have "state_of s t = GEVENT_COTHREAD_CURRENT" by (simp add: ginv_def)
    with assms(5) show False by simp
  qed
  note fr = exec_Ret(1) [OF assms(1-4)] and wc = exec_Ret(2) [OF assms(1-4)]
  have cur: "current s' = Some t" using fr nc assms(5,6) by (auto simp: step_frame_def)
  from wc [OF this] nc assms(5,7) cur show ?thesis
    by (auto simp: wake_cause_def split: gop.splits)
qed


section \<open>Concrete runs\<close>

text \<open>A list of steps whose conditions are checked on the way.\<close>

fun gevent_run_legal :: "gop list \<Rightarrow> gevent_hub \<Rightarrow> gevent_hub outcome" where
  "gevent_run_legal [] s = Ret s"
| "gevent_run_legal (x # xs) s =
     (if gevent_enabled x s \<and> gevent_legal x s then obind (gevent_exec x s) (gevent_run_legal xs)
      else Starve)"

lemma run_legal_reach: "gevent_run_legal xs s = Ret s' \<Longrightarrow> gevent_reach s \<Longrightarrow> gevent_reach s'"
proof (induction xs arbitrary: s)
  case (Cons x xs)
  then obtain t where "gevent_enabled x s" "gevent_legal x s" "gevent_exec x s = Ret t"
    "gevent_run_legal xs t = Ret s'"
    by (auto simp: obind_eq_Ret split: if_splits)
  with Cons show ?case by (blast intro: gevent_reach.step)
qed simp

lemmas run_legal_fresh = run_legal_reach [OF _ gevent_reach.start]

definition run_of :: "gop list \<Rightarrow> gevent_hub" where
  "run_of xs = (case gevent_run_legal xs fresh_hub of Ret s \<Rightarrow> s | _ \<Rightarrow> fresh_hub)"

definition runs :: "gop list \<Rightarrow> bool" where
  "runs xs \<longleftrightarrow> (case gevent_run_legal xs fresh_hub of Ret s \<Rightarrow> True | _ \<Rightarrow> False)"

lemma run_of_reach: "gevent_reach (run_of xs)"
proof (cases "gevent_run_legal xs fresh_hub")
  case (Ret s)
  then show ?thesis using run_legal_fresh [OF Ret] by (simp add: run_of_def)
qed (simp_all add: run_of_def gevent_reach.start)

text \<open>Cothread 1 waits to receive on channel 5, cothread 0 runs.\<close>

abbreviation (input) one_receiver :: gevent_hub where
  "one_receiver \<equiv> run_of [G_init 1 71, G_spawn 1, G_receive 5]"

abbreviation (input) one_sender :: gevent_hub where
  "one_sender \<equiv> run_of [G_init 1 71, G_spawn 1, G_send 5 9]"

abbreviation (input) one_sleeper :: gevent_hub where
  "one_sleeper \<equiv> run_of [G_init 1 71, G_spawn 1, G_sleep 30, G_receive 5, L_time 40]"

theorem gevent_scheduler_consistent_witness:
  "receivers (channels one_receiver (Channel 5)) = [1] \<and> senders (channels one_receiver (Channel 5)) = []"
proof -
  have "receivers (channels one_receiver (Channel 5)) = [1]" by code_simp
  moreover have "receivers (channels one_receiver (Channel 5)) = [] \<or>
      senders (channels one_receiver (Channel 5)) = []"
    using gevent_scheduler_consistent [OF run_of_reach [of "[G_init 1 71, G_spawn 1, G_receive 5]"]]
    by (elim conjE) (rule spec)
  ultimately show ?thesis by simp
qed

text \<open>Cothread 1 is in \<open>gevent_wait\<close> with timeout 0, the main cothread has been cut short in a resolution.\<close>

abbreviation (input) stale_main :: gevent_hub where
  "stale_main \<equiv> run_of [G_init 1 71, G_init 2 72, G_init 3 73, G_spawn 1, G_wait 0, G_spawn 2, G_spawn 3,
     G_return, G_getaddrinfo (Some 50) 0, G_return, G_receive 1]"

theorem gevent_abort_exactly_witness:
  "(\<exists>s'. gevent_exec (G_sleep 100) one_receiver = Ret s') \<and>
     gevent_exec (G_sleep 100) (one_receiver\<lparr>no_memory := True\<rparr>) = Abort \<and>
     gevent_exec (L_addrinfo 50 0 8) stale_main = Abort"
proof (intro conjI)
  have en: "gevent_enabled (G_sleep 100) one_receiver" "gevent_legal (G_sleep 100) one_receiver"
    "\<not> no_memory one_receiver" by code_simp+
  from gevent_abort_exactly [OF run_of_reach en(1,2)] en(3)
  show "\<exists>s'. gevent_exec (G_sleep 100) one_receiver = Ret s'"
    by (simp del: gevent_exec.simps) blast
  let ?s = "one_receiver\<lparr>no_memory := True\<rparr>"
  have r: "gevent_reach ?s"
    by (rule gevent_reach.step [OF run_of_reach, of "M_memory True"]) simp_all
  have "gevent_enabled (G_sleep 100) ?s" "gevent_legal (G_sleep 100) ?s" by code_simp+
  from gevent_abort_exactly [OF r this] show "gevent_exec (G_sleep 100) ?s = Abort"
    by (simp del: gevent_exec.simps)
  have st: "gevent_enabled (L_addrinfo 50 0 8) stale_main" "gevent_legal (L_addrinfo 50 0 8) stale_main"
    "gevent_stale (L_addrinfo 50 0 8) stale_main" by code_simp+
  from gevent_abort_exactly [OF run_of_reach st(1,2)] st(3)
  show "gevent_exec (L_addrinfo 50 0 8) stale_main = Abort" by (simp del: gevent_exec.simps gevent_stale.simps)
qed

theorem gevent_wakeup_cause_witness:
  "case gevent_exec L_timer one_sleeper of
     Ret s' \<Rightarrow> current s' = Some 1 \<and> due_time (g_loop one_sleeper) 1 \<le> loop_time (g_loop one_sleeper)
   | _ \<Rightarrow> False"
proof -
  let ?s = one_sleeper
  have en: "gevent_enabled L_timer ?s" "gevent_legal L_timer ?s" by code_simp+
  have st: "state_of ?s 1 = GEVENT_WAITING_TIMER" by code_simp
  have "case gevent_exec L_timer ?s of Ret s' \<Rightarrow> state_of s' 1 \<noteq> GEVENT_WAITING_TIMER | _ \<Rightarrow> False"
    by code_simp
  then obtain s' where s': "gevent_exec L_timer ?s = Ret s'" "state_of s' 1 \<noteq> state_of ?s 1"
    using st by (auto split: outcome.splits)
  from gevent_wakeup_cause [OF run_of_reach en s'(1) _ s'(2)] st s'(1) show ?thesis by simp
qed

section \<open>Channels\<close>

lemma blocked_end:
  assumes inv: "ginv (park s1 k) None" and mem: "\<not> no_memory s1" and cur: "current s1 = Some c"
    and st: "state_of s1 c \<noteq> GEVENT_COTHREAD_READY"
  shows "\<exists>s'. gevent_yield s1 k = Ret s' \<and>
    current s' = (case ready s1 of [] \<Rightarrow> None | t # _ \<Rightarrow> Some t) \<and>
    state_of s' c = state_of s1 c \<and> op_value (cothreads s' c) = op_value (cothreads s1 c) \<and>
    channels s' = channels s1"
proof -
  from yield_ok [OF assms] obtain s' where s': "gevent_yield s1 k = Ret s'"
    "case ready s1 of
       t # _ \<Rightarrow> current s' = Some t \<and> wake_frame (park s1 k) t s' \<and> (\<exists>r. glog s' = glog s1 @ [Returned t r])
     | [] \<Rightarrow> current s' = None \<and> s' = enter (park s1 k) None \<or>
         current s' = None \<and> s' = (enter (park s1 k) None)\<lparr>loop_alive := True\<rparr>" by blast
  show ?thesis
  proof (cases "ready s1")
    case Nil
    have same: "state_of (enter (park s1 k) None) c = state_of s1 c"
      using park_simps(1) [of s1 k c] by (simp add: state_of_def)
    from s'(2) Nil have "s' = enter (park s1 k) None \<or> s' = (enter (park s1 k) None)\<lparr>loop_alive := True\<rparr>"
      by auto
    then show ?thesis using s'(1) Nil same by auto
  next
    case (Cons t ts)
    with s'(2) have w: "wake_frame (park s1 k) t s'" and ct: "current s' = Some t" by auto
    have "t \<in> set (ready (park s1 k))" using Cons by simp
    then have t: "state_of (park s1 k) t = GEVENT_COTHREAD_READY"
      using inv unfolding ginv_def ready_ok_def by blast
    then have ne: "c \<noteq> t" using st by auto
    have ch: "channels s' ch = channels s1 ch" for ch
      using w not_in_channels [OF inv, of t ch] t by (simp add: wake_frame_def)
    have co: "cothreads s' c = cothreads (park s1 k) c" using w ne by (simp add: wake_frame_def)
    then have "state_of s' c = state_of (park s1 k) c" by (simp only: state_of_def)
    with co ch s'(1) ct Cons show ?thesis by (auto simp: fun_eq_iff)
  qed
qed

text \<open>
  C4. Sending. With receivers waiting, the first of them runs at once and its receive returns
  exactly the value; it leaves the queue, the others keep their order, and the sender goes to
  the end of the ready queue. Without receivers, the sender is put at the end of the channel's
  queue with its value, and the processor goes to the first ready cothread, or to the loop.
  Either way the sender's stack is left, and without memory for its stacklet the process aborts.
\<close>

theorem gevent_channel_send_correct:
  assumes "gevent_reach s" and "current s = Some c"
  shows "if no_memory s then gevent_exec (G_send n v) s = Abort
    else \<exists>s'. gevent_exec (G_send n v) s = Ret s' \<and>
    (case receivers (channels s (Channel n)) of
       t # ts \<Rightarrow> current s' = Some t \<and> glog s' = glog s @ [Returned t (R_value (Some v))] \<and>
         receivers (channels s' (Channel n)) = ts \<and> ready s' = ready s @ [c] \<and>
         suspended_with s' c [K_sent]
     | [] \<Rightarrow> state_of s' c = GEVENT_COTHREAD_CHANNEL_S \<and> op_value (cothreads s' c) = Some v \<and>
         senders (channels s' (Channel n)) = senders (channels s (Channel n)) @ [c] \<and>
         current s' = (case ready s of [] \<Rightarrow> None | t # _ \<Rightarrow> Some t))"
proof -
  have inv: "ginv s (Some c)" using reach_inv [OF assms(1)] assms(2) by simp
  have "?thesis" if mem: "\<not> no_memory s"
  proof (cases "receivers (channels s (Channel n))")
    case Nil
    from send_block [OF inv assms(2) Nil, of v] obtain s1 where s1:
      "gevent_channel_send s (Channel n) v [] = gevent_yield s1 [K_send (Channel n)]"
      "ginv (park s1 [K_send (Channel n)]) None" "current s1 = Some c"
      "state_of s1 c = GEVENT_COTHREAD_CHANNEL_S" "ready s1 = ready s"
      "senders (channels s1 (Channel n)) = senders (channels s (Channel n)) @ [c]"
      "op_value (cothreads s1 c) = Some v" "no_memory s1 = no_memory s" by auto
    from blocked_end [OF s1(2) _ s1(3)] s1 mem Nil show ?thesis by auto
  next
    case (Cons t ts)
    from send_hand [OF inv mem assms(2) Cons, of v] Cons mem show ?thesis by auto
  qed
  then show ?thesis using receive_abort(2) [OF inv assms(2)] by auto
qed

theorem gevent_channel_send_correct_witness:
  "\<exists>s'. gevent_exec (G_send 5 9) one_receiver = Ret s' \<and> current s' = Some 1 \<and>
     glog s' = glog one_receiver @ [Returned 1 (R_value (Some 9))]"
proof -
  have c: "current one_receiver = Some 0" by code_simp
  have r: "receivers (channels one_receiver (Channel 5)) = [1]" "\<not> no_memory one_receiver" by code_simp+
  from gevent_channel_send_correct [OF run_of_reach c, of 5 9] r show ?thesis by auto
qed

text \<open>
  C12. Receiving. With senders waiting, the first of them is unlocked and runs at once, it
  leaves the queue, the receiver goes to the end of the ready queue, and what its receive will
  return is the value of that sender. Without senders, the receiver waits at the end of the
  channel's queue. Without memory for the stacklet of the receiver the process aborts.
\<close>

theorem gevent_channel_receive_correct:
  assumes "gevent_reach s" and "current s = Some c"
  shows "if no_memory s then gevent_exec (G_receive n) s = Abort
    else \<exists>s'. gevent_exec (G_receive n) s = Ret s' \<and>
    (case senders (channels s (Channel n)) of
       t # ts \<Rightarrow> current s' = Some t \<and> glog s' = glog s @ [Returned t R_void] \<and>
         senders (channels s' (Channel n)) = ts \<and> ready s' = ready s @ [c] \<and>
         (\<exists>v. op_value (cothreads s t) = Some v \<and> suspended_with s' c [K_received (Some v)])
     | [] \<Rightarrow> state_of s' c = GEVENT_COTHREAD_CHANNEL_R \<and>
         receivers (channels s' (Channel n)) = receivers (channels s (Channel n)) @ [c] \<and>
         current s' = (case ready s of [] \<Rightarrow> None | t # _ \<Rightarrow> Some t))"
proof -
  have inv: "ginv s (Some c)" using reach_inv [OF assms(1)] assms(2) by simp
  have "?thesis" if mem: "\<not> no_memory s"
  proof (cases "senders (channels s (Channel n))")
    case Nil
    from receive_block [OF inv assms(2) Nil] obtain s1 where s1:
      "gevent_channel_receive s (Channel n) [] = gevent_yield s1 [K_receive (Channel n)]"
      "ginv (park s1 [K_receive (Channel n)]) None" "current s1 = Some c"
      "state_of s1 c = GEVENT_COTHREAD_CHANNEL_R" "ready s1 = ready s"
      "receivers (channels s1 (Channel n)) = receivers (channels s (Channel n)) @ [c]"
      "no_memory s1 = no_memory s" by auto
    from blocked_end [OF s1(2) _ s1(3)] s1 mem Nil show ?thesis by auto
  next
    case (Cons t ts)
    from receive_take [OF inv mem assms(2) Cons] Cons mem show ?thesis by auto
  qed
  then show ?thesis using receive_abort(1) [OF inv assms(2)] by auto
qed

theorem gevent_channel_receive_correct_witness:
  "\<exists>s'. gevent_exec (G_receive 5) one_sender = Ret s' \<and> current s' = Some 1 \<and>
     suspended_with s' 0 [K_received (Some 9)]"
proof -
  have c: "current one_sender = Some 0" by code_simp
  have r: "senders (channels one_sender (Channel 5)) = [1]" "op_value (cothreads one_sender 1) = Some 9"
    "\<not> no_memory one_sender" by code_simp+
  from gevent_channel_receive_correct [OF run_of_reach c, of 5] r show ?thesis by auto
qed

end
