(* ===== verification/Gevent_Sem.thy ===== *)
theory Gevent_Sem
  imports Gevent_Props
begin

text \<open>
  Semaphores of \<open>src/gevent.c\<close> over whole runs: the calls that acquire and release, the cothreads
  that wait and the counter always balance; and the runs in which the library breaks its promises.
\<close>

section \<open>What switches do to channels and counters\<close>

text \<open>
  A switch leaves the counters alone and takes no cothread out of the queue of a channel but the
  one it resumes.
\<close>

definition chan_le :: "gevent_hub \<Rightarrow> gevent_hub \<Rightarrow> bool" where
  "chan_le s s' \<longleftrightarrow> sem_counter s' = sem_counter s \<and>
     (\<forall>ch. set (receivers (channels s' ch)) \<subseteq> set (receivers (channels s ch)) \<and>
        (\<forall>u \<in> set (receivers (channels s ch)). u \<in> set (receivers (channels s' ch)) \<or> current s' = Some u) \<and>
        set (senders (channels s' ch)) \<subseteq> set (senders (channels s ch)))"

lemma chan_le_refl: "chan_le s s"
  by (simp add: chan_le_def)

lemma chan_le_same:
  "channels s' = channels s \<Longrightarrow> sem_counter s' = sem_counter s \<Longrightarrow> chan_le s s'"
  by (simp add: chan_le_def)

lemma chan_le_update:
  "chan_le s1 s' \<Longrightarrow> channels s1 = channels s \<Longrightarrow> sem_counter s1 = sem_counter s \<Longrightarrow> chan_le s s'"
  by (simp add: chan_le_def)

lemma chan_le_simps [simp]:
  "chan_le s s" "chan_le s (add_log e t) = chan_le s t" "chan_le s (t\<lparr>g_loop := L\<rparr>) = chan_le s t"
  "chan_le (set_co u f s) t = chan_le s t" "chan_le (s\<lparr>g_loop := L\<rparr>) t = chan_le s t"
  "chan_le (s\<lparr>ready := rs\<rparr>) t = chan_le s t" "chan_le (s\<lparr>req_data := d\<rparr>) t = chan_le s t"
  "chan_le (s\<lparr>hub_stacklet := h\<rparr>) t = chan_le s t" "chan_le (s\<lparr>loop_alive := b\<rparr>) t = chan_le s t"
  by (simp_all add: chan_le_def)

lemma assert_Ret: "assert_that b k = Ret x \<Longrightarrow> b \<and> k = Ret x"
  by simp

lemma frame_le:
  assumes "run_frame t f (r, s) = Ret (r', s')"
  shows "sem_counter s' = sem_counter s \<and> current s' = current s \<and>
    set (receivers (channels s' ch)) \<subseteq> set (receivers (channels s ch)) \<and>
    set (receivers (channels s ch)) \<subseteq> insert t (set (receivers (channels s' ch))) \<and>
    set (senders (channels s' ch)) \<subseteq> set (senders (channels s ch))"
proof -
  have sub: "x \<in> set (remove1 t xs) \<Longrightarrow> x \<in> set xs" "x \<in> set xs \<Longrightarrow> x \<noteq> t \<Longrightarrow> x \<in> set (remove1 t xs)"
    for x and xs :: "tid list" by (simp_all add: notin_set_remove1) (meson notin_set_remove1)
  show ?thesis
    by (rule run_frame.cases [of "(t, f, r, s)"])
      (use assms in \<open>auto simp: obind_eq_Ret Let_def split: if_splits dest: sub\<close>)
qed

lemma frames_le:
  assumes "run_frames t k (r, s) = Ret (r', s')"
  shows "sem_counter s' = sem_counter s \<and> current s' = current s \<and>
    set (receivers (channels s' ch)) \<subseteq> set (receivers (channels s ch)) \<and>
    set (receivers (channels s ch)) \<subseteq> insert t (set (receivers (channels s' ch))) \<and>
    set (senders (channels s' ch)) \<subseteq> set (senders (channels s ch))"
  using assms
proof (induction k arbitrary: r s)
  case Nil
  then show ?case by auto
next
  case (Cons f k)
  then obtain r1 s1 where s1: "run_frame t f (r, s) = Ret (r1, s1)" "run_frames t k (r1, s1) = Ret (r', s')"
    by (auto simp: obind_eq_Ret)
  from frame_le [OF s1(1), of ch] Cons.IH [OF s1(2)] show ?case by auto
qed

lemma after_switch_channels:
  "after_switch s new src = Ret s' \<Longrightarrow>
     channels s' = channels s \<and> sem_counter s' = sem_counter s \<and> current s' = new"
  by (cases "current s"; cases src; cases new)
    (auto simp: after_switch_def assert_that_def Let_def split: option.splits if_splits)

lemma chan_le_resume: "stacklet_resume s st src = Ret s' \<Longrightarrow> chan_le s s'"
proof -
  assume "stacklet_resume s st src = Ret s'"
  then obtain s1 where a: "after_switch s (fst st) src = Ret s1"
    and b: "(case fst st of None \<Rightarrow> Ret s1 | Some t \<Rightarrow> obind (run_frames t (snd st) (R_void, s1))
      (\<lambda>(r, s). Ret (add_log (Returned t r) s))) = Ret s'"
    by (auto simp: stacklet_resume_def obind_eq_Ret)
  note a = after_switch_channels [OF a]
  show ?thesis
  proof (cases "fst st")
    case None
    with a b show ?thesis by (simp add: chan_le_same)
  next
    case (Some t)
    with b obtain r s2 where "run_frames t (snd st) (R_void, s1) = Ret (r, s2)" "s' = add_log (Returned t r) s2"
      by (auto simp: obind_eq_Ret)
    with frames_le [OF this(1)] a Some show ?thesis by (auto simp: chan_le_def)
  qed
qed

lemma chan_le_switch: "gevent_switch s t k = Ret s' \<Longrightarrow> chan_le s s'"
proof -
  assume a: "gevent_switch s t k = Ret s'"
  show ?thesis
  proof (cases "state_of s t = GEVENT_COTHREAD_NEW")
    case True
    with a obtain s1 run where "after_switch s (Some t) (Source (current s, k)) = Ret s1"
      "s' = add_log (Started t run) s1"
      by (auto simp: gevent_switch_def before_switch_def stacklet_or_abort_def cothread_starter_fn_def
          obind_eq_Ret split: option.splits if_splits)
    then show ?thesis by (auto dest!: after_switch_channels intro: chan_le_same)
  next
    case False
    with a show ?thesis
      by (auto simp: gevent_switch_def before_switch_def stacklet_or_abort_def obind_eq_Ret
          intro: chan_le_resume split: if_splits)
  qed
qed

lemma chan_le_hub: "gevent_switch_to_hub s k = Ret s' \<Longrightarrow> chan_le s s'"
  by (auto simp: gevent_switch_to_hub_def before_switch_def stacklet_or_abort_def hub_starter_fn_def
      obind_eq_Ret intro: chan_le_resume chan_le_same dest!: after_switch_channels
      split: option.splits if_splits)

lemma chan_le_yield: "gevent_yield s k = Ret s' \<Longrightarrow> chan_le s s'"
  by (auto simp: gevent_yield_def split: list.splits intro: chan_le_hub
      elim!: chan_le_update [OF chan_le_switch])

lemma chan_le_next:
  assumes "obind (get_next_stacklet s) (\<lambda>(st, s). stacklet_resume s st src) = Ret s'"
  shows "chan_le s s'"
proof -
  from assms obtain st s1 where a: "get_next_stacklet s = Ret (st, s1)" "stacklet_resume s1 st src = Ret s'"
    by (auto simp: obind_eq_Ret)
  have "channels s1 = channels s \<and> sem_counter s1 = sem_counter s"
    using a(1) by (auto simp: get_next_stacklet_def before_switch_def obind_eq_Ret Let_def
        split: list.splits option.splits)
  with chan_le_resume [OF a(2)] show ?thesis by (simp add: chan_le_def)
qed

lemma activate_channels: "activate s t = Ret s' \<Longrightarrow> channels s' = channels s \<and> sem_counter s' = sem_counter s"
  by (auto simp: activate_def Let_def set_state_co)

lemma get_current_Ret: "get_current s k = Ret x \<Longrightarrow> \<exists>t. current s = Some t \<and> k t = Ret x"
  by (auto simp: get_current_def split: option.splits)

lemma chan_le_sleep: "sleep_internal s n ref = Ret s' \<Longrightarrow> chan_le s s'"
  by (auto simp: sleep_internal_def obind_eq_Ret Let_def set_state_co
      dest!: get_current_Ret chan_le_yield split: prod.splits if_splits)

lemma chan_le_activated: "chan_le (activated s c) t = chan_le s t"
  by (simp add: chan_le_def)

lemma chan_le_spawn: "gevent_cothread_spawn s t = Ret s' \<Longrightarrow> chan_le s s'"
  by (auto simp: gevent_cothread_spawn_def obind_eq_Ret activate_def Let_def set_state_co
      dest!: get_current_Ret chan_le_switch)

lemma chan_le_timer: "loop_timer s = Ret s' \<Longrightarrow> chan_le s s'"
  by (auto simp: loop_timer_def sleep_cb_def obind_eq_Ret
      split: option.splits if_splits prod.splits dest!: chan_le_switch)

lemma chan_le_addrinfo: "loop_addrinfo s req e res = Ret s' \<Longrightarrow> chan_le s s'"
  by (auto simp: loop_addrinfo_def getaddrinfo_cb_def obind_eq_Ret
      split: option.splits dest!: chan_le_switch)

lemma chan_le_getaddrinfo: "gevent_getaddrinfo s mem rc = Ret s' \<Longrightarrow> chan_le s s'"
  by (auto simp: gevent_getaddrinfo_def set_artificial_error_def set_state_co Let_def
      dest!: get_current_Ret chan_le_yield split: option.splits if_splits)

section \<open>The counter of a semaphore\<close>

text \<open>
  A run with a semaphore \<open>sem\<close> that starts with the counter \<open>n\<close>: \<open>a\<close> counts the calls of
  \<open>gevent_semaphore_acquire\<close>, \<open>r\<close> those of \<open>gevent_semaphore_release\<close>, and \<open>e\<close> how often the main
  cothread has left the queue of the semaphore in a step that is no release: the early resumes of
  the main cothread, in which its acquisition returns although nobody has released.
\<close>

definition main_leaves :: "nat \<Rightarrow> gop \<Rightarrow> gevent_hub \<Rightarrow> gevent_hub \<Rightarrow> bool" where
  "main_leaves sem op s s' \<longleftrightarrow> op \<noteq> G_release sem \<and>
     main_id \<in> set (receivers (channels s (Sem_channel sem))) \<and>
     main_id \<notin> set (receivers (channels s' (Sem_channel sem)))"

inductive sem_run :: "nat \<Rightarrow> uint32 \<Rightarrow> gevent_hub \<Rightarrow> nat \<Rightarrow> nat \<Rightarrow> nat \<Rightarrow> bool" for sem n where
  init: "gevent_reach s \<Longrightarrow> current s \<noteq> None \<Longrightarrow> gevent_legal (G_semaphore sem n) s \<Longrightarrow>
    sem_run sem n (gevent_semaphore_init s sem n) 0 0 0"
| step: "sem_run sem n s a r e \<Longrightarrow> gevent_enabled op s \<Longrightarrow> gevent_legal op s \<Longrightarrow>
    (\<And>m. op \<noteq> G_semaphore sem m) \<Longrightarrow> gevent_exec op s = Ret s' \<Longrightarrow>
    sem_run sem n s' (if op = G_acquire sem then Suc a else a) (if op = G_release sem then Suc r else r)
      (if main_leaves sem op s s' then Suc e else e)"

definition sem_inv :: "nat \<Rightarrow> gevent_hub \<Rightarrow> bool" where
  "sem_inv sem s \<longleftrightarrow> senders (channels s (Sem_channel sem)) = [] \<and> 0 \<le> sint (sem_counter s sem) \<and>
     (receivers (channels s (Sem_channel sem)) \<noteq> [] \<longrightarrow> sem_counter s sem = 0)"

text \<open>What the semaphore has still to give, less what is asked of it.\<close>

definition sem_level :: "nat \<Rightarrow> gevent_hub \<Rightarrow> int" where
  "sem_level sem s = sint (sem_counter s sem) - int (length (receivers (channels s (Sem_channel sem))))"

lemma sem_init_reach:
  assumes "gevent_reach s" and "current s \<noteq> None" and "gevent_legal (G_semaphore sem n) s"
  shows "gevent_reach (gevent_semaphore_init s sem n)"
proof -
  from assms(2) obtain c where "current s = Some c" by auto
  then have "gevent_enabled (G_semaphore sem n) s" by simp
  then show ?thesis by (rule gevent_reach.step [OF assms(1) _ assms(3)]) simp
qed

lemma sem_run_reach: "sem_run sem n s a r e \<Longrightarrow> gevent_reach s"
  by (induction rule: sem_run.induct) (blast intro: sem_init_reach gevent_reach.step)+

text \<open>Only the main cothread leaves the queue of a semaphore without a release.\<close>

lemma early_leaver:
  assumes "gevent_reach s" and "gevent_enabled op s" and "gevent_legal op s" and "gevent_exec op s = Ret s'"
    and "u \<in> set (receivers (channels s (Sem_channel sem)))" and "current s' = Some u" and "op \<noteq> G_release sem"
  shows "u = main_id"
proof -
  note inv = reach_inv [OF assms(1)]
  have u: "state_of s u = GEVENT_COTHREAD_CHANNEL_R" "suspended_with s u [K_receive (Sem_channel sem), K_semaphore sem]"
    using chan_members(1) [OF inv assms(5)] by simp_all
  have here: "ch = Sem_channel sem" if "receivers (channels s ch) = u # ts" for ch ts
    using chan_members(1) [OF inv, of u ch] that u(2) by (auto simp: suspended_with_def)
  have nsend: "senders (channels s ch) \<noteq> u # ts" for ch ts
    using chan_members(2) [OF inv, of u ch] u(1) by auto
  have "state_of s t = GEVENT_COTHREAD_CURRENT" if "current s = Some t" for t
    using inv that by (simp add: ginv_def)
  with exec_Ret(2) [OF assms(1-4,6)] u(1) assms(7) show ?thesis
    by (cases op) (auto simp: wake_cause_def nsend dest: here)
qed

lemma uint32_dec: "0 < sint n \<Longrightarrow> sint (n - 1) = sint n - 1" for n :: uint32
  using sint_lt [of n] by (simp add: sint_word_ariths signed_take_bit_int_eq_self)

lemma uint32_inc: "sint n < 2 ^ 31 - 1 \<Longrightarrow> sint (n + 1) = sint n + 1" for n :: uint32
  using sint_ge [of n] by (simp add: sint_word_ariths signed_take_bit_int_eq_self)

lemma distinct_minus:
  assumes "distinct xs" and "distinct ys" and "set ys = set xs - {u}" and "u \<in> set xs"
  shows "length xs = Suc (length ys)"
proof -
  have "length xs = card (set xs)" "length ys = card (set ys)"
    using assms(1,2) by (simp_all add: distinct_card)
  with assms(3,4) show ?thesis by (metis List.finite_set card.remove)
qed

text \<open>A step that does not touch the semaphore itself.\<close>

lemma sem_le:
  assumes inv: "sem_inv sem s" and reach: "gevent_reach s" "gevent_enabled op s" "gevent_legal op s"
      "gevent_exec op s = Ret s'" "op \<noteq> G_release sem"
    and le: "chan_le s1 s'" "sem_counter s1 sem = sem_counter s sem"
      "channels s1 (Sem_channel sem) = channels s (Sem_channel sem)"
  shows "sem_inv sem s' \<and> sem_counter s' sem = sem_counter s sem \<and>
    sem_level sem s' = sem_level sem s + of_bool (main_leaves sem op s s')"
proof -
  let ?R = "receivers (channels s (Sem_channel sem))" and ?R' = "receivers (channels s' (Sem_channel sem))"
  have l: "set ?R' \<subseteq> set ?R" "\<And>u. u \<in> set ?R \<Longrightarrow> u \<notin> set ?R' \<Longrightarrow> current s' = Some u"
      "senders (channels s' (Sem_channel sem)) = []" "sem_counter s' sem = sem_counter s sem"
    using le inv unfolding chan_le_def sem_inv_def by fastforce+
  have "gevent_reach s'" by (rule gevent_reach.step [OF reach(1-4)])
  then have d: "distinct ?R" "distinct ?R'"
    using reach_inv [of s] reach_inv [of s'] reach(1) by (auto simp: ginv_def chan_ok_def)
  have only: "u = main_id" if "u \<in> set ?R" "u \<notin> set ?R'" for u
    by (rule early_leaver [OF reach(1-4) that(1) l(2) [OF that] reach(5)])
  have "int (length ?R') = int (length ?R) - of_bool (main_leaves sem op s s')"
  proof (cases "main_leaves sem op s s'")
    case True
    then have m: "main_id \<in> set ?R" "main_id \<notin> set ?R'" by (simp_all add: main_leaves_def)
    then have "set ?R' = set ?R - {main_id}" using l(1) only by auto
    from distinct_minus [OF d this m(1)] True show ?thesis by simp
  next
    case False
    then have "set ?R' = set ?R" using l(1) only reach(5) by (auto simp: main_leaves_def)
    then have "length ?R' = length ?R" using d by (metis distinct_card)
    with False show ?thesis by simp
  qed
  moreover have "?R \<noteq> []" if "?R' \<noteq> []" using that l(1) by (cases ?R) auto
  ultimately show ?thesis using l(3,4) inv by (auto simp: sem_inv_def sem_level_def)
qed

text \<open>A channel operation keeps the other channels.\<close>

lemma receive_le:
  assumes "gevent_channel_receive s ch k = Ret s'"
  shows "\<exists>s1. chan_le s1 s' \<and> sem_counter s1 = sem_counter s \<and> (\<forall>d. d \<noteq> ch \<longrightarrow> channels s1 d = channels s d) \<and>
    senders (channels s1 ch) = senders (channels s ch)"
proof (cases "senders (channels s ch)")
  case Nil
  with assms obtain t where "gevent_yield (set_co t (\<lambda>x. x\<lparr>co_state := GEVENT_COTHREAD_CHANNEL_R,
      op_value := None\<rparr>) (set_channel ch ((channels s ch)\<lparr>receivers := receivers (channels s ch) @ [t]\<rparr>) s))
      (K_receive ch # k) = Ret s'"
    by (auto simp: gevent_channel_receive_def Let_def dest!: get_current_Ret)
  from chan_le_yield [OF this] show ?thesis
    by (intro exI [of _ "set_channel ch ((channels s ch)\<lparr>receivers := receivers (channels s ch) @ [t]\<rparr>) s"])
      simp
next
  case (Cons u us)
  with assms have "chan_le s s'"
    by (auto simp: gevent_channel_receive_def Let_def obind_eq_Ret activate_def set_state_co
        dest!: get_current_Ret chan_le_switch)
  then show ?thesis by (intro exI [of _ s]) simp
qed

lemma send_le:
  assumes "gevent_channel_send s ch v k = Ret s'"
  shows "(receivers (channels s ch) \<noteq> [] \<longrightarrow> chan_le s s') \<and>
    (\<exists>s1. chan_le s1 s' \<and> sem_counter s1 = sem_counter s \<and> (\<forall>d. d \<noteq> ch \<longrightarrow> channels s1 d = channels s d))"
proof (cases "receivers (channels s ch)")
  case Nil
  with assms obtain t where "gevent_yield (set_co t (\<lambda>x. x\<lparr>co_state := GEVENT_COTHREAD_CHANNEL_S,
      op_value := Some v\<rparr>) (set_channel ch ((channels s ch)\<lparr>senders := senders (channels s ch) @ [t]\<rparr>) s))
      (K_send ch # k) = Ret s'"
    by (auto simp: gevent_channel_send_def Let_def dest!: get_current_Ret)
  from chan_le_yield [OF this] Nil show ?thesis
    by (intro conjI exI [of _ "set_channel ch ((channels s ch)\<lparr>senders := senders (channels s ch) @ [t]\<rparr>) s"])
      simp_all
next
  case (Cons u us)
  with assms have "chan_le s s'"
    by (auto simp: gevent_channel_send_def Let_def obind_eq_Ret activate_def set_state_co
        dest!: get_current_Ret chan_le_switch)
  then show ?thesis by (intro conjI exI [of _ s]) simp_all
qed

lemma acquire_block:
  assumes reach: "gevent_reach s" and cur: "current s = Some c" and inv: "sem_inv sem s"
    and zero: "\<not> 0 < sint (sem_counter s sem)" and exec: "gevent_exec (G_acquire sem) s = Ret s'"
  shows "sem_counter s' sem = sem_counter s sem \<and> senders (channels s' (Sem_channel sem)) = [] \<and>
    receivers (channels s' (Sem_channel sem)) = receivers (channels s (Sem_channel sem)) @ [c]"
proof -
  have ginv: "ginv s (Some c)" using reach_inv [OF reach] cur by simp
  have none: "senders (channels s (Sem_channel sem)) = []" using inv by (simp add: sem_inv_def)
  from receive_block [OF ginv cur none] obtain s1 where s1:
    "gevent_channel_receive s (Sem_channel sem) [K_semaphore sem] =
       gevent_yield s1 [K_receive (Sem_channel sem), K_semaphore sem]"
    "ginv (park s1 [K_receive (Sem_channel sem), K_semaphore sem]) None" "current s1 = Some c"
    "state_of s1 c = GEVENT_COTHREAD_CHANNEL_R" "sem_counter s1 = sem_counter s"
    "channels s1 = (channels s)(Sem_channel sem := (channels s (Sem_channel sem))
       \<lparr>receivers := receivers (channels s (Sem_channel sem)) @ [c]\<rparr>)" by auto
  have ex: "gevent_yield s1 [K_receive (Sem_channel sem), K_semaphore sem] = Ret s'"
    using exec zero s1(1) by (simp add: gevent_semaphore_acquire_def)
  then have "\<not> no_memory s1" using yield_no_memory by fastforce
  from blocked_end [OF s1(2) this s1(3)] s1(4) ex have "channels s' = channels s1" by auto
  moreover have "sem_counter s' = sem_counter s1" using chan_le_yield [OF ex] by (simp add: chan_le_def)
  ultimately show ?thesis using s1(5,6) none by simp
qed

lemma release_hand:
  assumes reach: "gevent_reach s" and cur: "current s = Some c"
    and wait: "receivers (channels s (Sem_channel sem)) = t # ts" and exec: "gevent_exec (G_release sem) s = Ret s'"
  shows "sem_counter s' = sem_counter s \<and> receivers (channels s' (Sem_channel sem)) = ts \<and>
    set (senders (channels s' (Sem_channel sem))) \<subseteq> set (senders (channels s (Sem_channel sem)))"
proof -
  have ginv: "ginv s (Some c)" using reach_inv [OF reach] cur by simp
  have ex: "gevent_channel_send s (Sem_channel sem) 0 [K_semaphore sem] = Ret s'"
    using exec wait by (simp add: gevent_semaphore_release_def)
  have "\<not> no_memory s" using receive_abort(2) [OF ginv cur, of "Sem_channel sem" 0 "[K_semaphore sem]"] ex by auto
  from send_hand [OF ginv this cur wait, of 0] ex
  have "receivers (channels s' (Sem_channel sem)) = ts" "sem_counter s' = sem_counter s" by auto
  moreover have "chan_le s s'" using send_le [OF ex] wait by simp
  ultimately show ?thesis by (simp add: chan_le_def)
qed

lemma sem_step:
  assumes inv: "sem_inv sem s" and reach: "gevent_reach s" "gevent_enabled op s" "gevent_legal op s"
      "gevent_exec op s = Ret s'" and other: "\<And>m. op \<noteq> G_semaphore sem m"
    and room: "op = G_release sem \<Longrightarrow> sint (sem_counter s sem) < 2 ^ 31 - 1"
  shows "sem_inv sem s' \<and>
    sem_level sem s' = sem_level sem s - of_bool (op = G_acquire sem) + of_bool (op = G_release sem) +
      of_bool (main_leaves sem op s s') \<and>
    sint (sem_counter s' sem) \<le> sint (sem_counter s sem) + of_bool (op = G_release sem)"
proof -
  have keep: ?thesis if "op \<noteq> G_acquire sem" "op \<noteq> G_release sem" "chan_le s1 s'"
      "sem_counter s1 sem = sem_counter s sem" "channels s1 (Sem_channel sem) = channels s (Sem_channel sem)" for s1
    using sem_le [OF inv reach that(2-5)] that(1,2) by simp
  show ?thesis
  proof (cases op)
    case (G_receive c)
    with reach(4) receive_le [of s "Channel c" "[]" s'] obtain s1 where "chan_le s1 s'"
      "sem_counter s1 = sem_counter s" "\<forall>d. d \<noteq> Channel c \<longrightarrow> channels s1 d = channels s d" by auto
    with G_receive show ?thesis by (intro keep [of s1]) simp_all
  next
    case (G_send c v)
    with reach(4) send_le [of s "Channel c" v "[]" s'] obtain s1 where "chan_le s1 s'"
      "sem_counter s1 = sem_counter s" "\<forall>d. d \<noteq> Channel c \<longrightarrow> channels s1 d = channels s d" by auto
    with G_send show ?thesis by (intro keep [of s1]) simp_all
  next
    case (G_acquire m)
    from reach(2) G_acquire obtain c where cur: "current s = Some c" by auto
    consider "m \<noteq> sem" "0 < sint (sem_counter s m)" | "m \<noteq> sem" "\<not> 0 < sint (sem_counter s m)"
      | "m = sem" "0 < sint (sem_counter s m)" | "m = sem" "\<not> 0 < sint (sem_counter s m)" by blast
    then show ?thesis
    proof cases
      case 1
      with G_acquire reach(4) have "channels s' = channels s \<and> sem_counter s' sem = sem_counter s sem \<and>
          current s' = current s"
        by (auto simp: gevent_semaphore_acquire_def Let_def dest!: get_current_Ret)
      with G_acquire 1(1) inv show ?thesis by (auto simp: sem_inv_def sem_level_def main_leaves_def)
    next
      case 2
      with G_acquire reach(4) receive_le [of s "Sem_channel m" "[K_semaphore m]" s'] obtain s1 where
        "chan_le s1 s'" "sem_counter s1 = sem_counter s"
        "\<forall>d. d \<noteq> Sem_channel m \<longrightarrow> channels s1 d = channels s d" by (auto simp: gevent_semaphore_acquire_def)
      with G_acquire 2(1) show ?thesis by (intro keep [of s1]) simp_all
    next
      case 3
      with G_acquire reach(4) have s': "channels s' = channels s" "sem_counter s' sem = sem_counter s sem - 1"
        by (auto simp: gevent_semaphore_acquire_def Let_def dest!: get_current_Ret)
      with 3 inv uint32_dec [of "sem_counter s sem"] G_acquire show ?thesis
        by (auto simp: sem_inv_def sem_level_def main_leaves_def)
    next
      case 4
      with acquire_block [OF reach(1) cur inv, of s'] reach(4) G_acquire have
        s': "sem_counter s' sem = sem_counter s sem" "senders (channels s' (Sem_channel sem)) = []"
          "receivers (channels s' (Sem_channel sem)) = receivers (channels s (Sem_channel sem)) @ [c]" by auto
      have "sint (sem_counter s sem) = sint (0 :: uint32)" using inv 4 by (simp add: sem_inv_def)
      then have "sem_counter s sem = 0" by (rule signed_word_eqI)
      with s' 4 G_acquire inv show ?thesis by (auto simp: sem_inv_def sem_level_def main_leaves_def)
    qed
  next
    case (G_release m)
    from reach(2) G_release obtain c where cur: "current s = Some c" by auto
    consider "m \<noteq> sem" "receivers (channels s (Sem_channel m)) = []"
      | "m \<noteq> sem" "receivers (channels s (Sem_channel m)) \<noteq> []"
      | "m = sem" "receivers (channels s (Sem_channel m)) = []"
      | t ts where "m = sem" "receivers (channels s (Sem_channel m)) = t # ts"
      by (cases "receivers (channels s (Sem_channel m))") auto
    then show ?thesis
    proof cases
      case 1
      with G_release reach(4) have "channels s' = channels s \<and> sem_counter s' sem = sem_counter s sem"
        by (auto simp: gevent_semaphore_release_def Let_def dest!: get_current_Ret)
      with G_release 1(1) inv show ?thesis by (auto simp: sem_inv_def sem_level_def main_leaves_def)
    next
      case 2
      with G_release reach(4) send_le [of s "Sem_channel m" 0 "[K_semaphore m]" s'] have "chan_le s s'"
        by (simp add: gevent_semaphore_release_def)
      with G_release 2(1) show ?thesis by (intro keep) simp_all
    next
      case 3
      with G_release reach(4) have s': "channels s' = channels s" "sem_counter s' sem = sem_counter s sem + 1"
        by (auto simp: gevent_semaphore_release_def Let_def dest!: get_current_Ret)
      with 3 inv room uint32_inc [of "sem_counter s sem"] G_release show ?thesis
        by (auto simp: sem_inv_def sem_level_def main_leaves_def)
    next
      case 4
      with release_hand [OF reach(1) cur, of sem t ts s'] reach(4) G_release inv show ?thesis
        by (auto simp: sem_inv_def sem_level_def main_leaves_def)
    qed
  next
    case (G_channel c)
    with reach(4) inv show ?thesis
      by (auto simp: gevent_channel_init_def sem_inv_def sem_level_def main_leaves_def)
  next
    case (G_semaphore m k)
    with other have "m \<noteq> sem" by auto
    with G_semaphore reach(4) inv show ?thesis
      by (auto simp: gevent_semaphore_init_def gevent_channel_init_def sem_inv_def sem_level_def main_leaves_def)
  next
    case (G_wait k)
    with reach(4) have "chan_le s s'"
      by (auto simp: gevent_wait_def split: if_splits intro: chan_le_sleep chan_le_yield)
    with G_wait show ?thesis by (intro keep) simp_all
  next
    case G_return
    with reach(4) obtain t where "cothread_starter_end s t = Ret s'" by (auto split: option.splits)
    then have "chan_le (set_co t (co_stacklet_update (\<lambda>_. None)) s) s'"
      unfolding cothread_starter_end_def Let_def by (rule chan_le_next)
    with G_return show ?thesis by (intro keep) simp_all
  next
    case L_end
    with reach(4) have "hub_starter_end s = Ret s'" by simp
    then have "chan_le (s\<lparr>loop_alive := False, hub_stacklet := None\<rparr>) s'"
      unfolding hub_starter_end_def Let_def by (rule chan_le_next)
    with L_end show ?thesis by (intro keep) simp_all
  next
    case (G_init t run)
    with reach(4) have "chan_le s s'" by (auto simp: gevent_cothread_init_def chan_le_def)
    with G_init show ?thesis by (intro keep) simp_all
  next
    case (L_time now)
    with reach(4) have "chan_le s s'" by (auto simp: chan_le_def)
    with L_time show ?thesis by (intro keep) simp_all
  next
    case (M_memory b)
    with reach(4) have "chan_le s s'" by (auto simp: chan_le_def)
    with M_memory show ?thesis by (intro keep) simp_all
  next
    case (G_exit_fn t f)
    with reach(4) have "chan_le s s'" by (auto simp: chan_le_def)
    with G_exit_fn show ?thesis by (intro keep) simp_all
  next
    case (G_spawn t)
    with reach(4) show ?thesis by (intro keep [OF _ _ chan_le_spawn [of s t]]) simp_all
  next
    case (G_sleep k)
    with reach(4) show ?thesis
      by (intro keep [OF _ _ chan_le_sleep [of s k True]]) (simp_all add: gevent_sleep_def)
  next
    case (G_getaddrinfo mem rc)
    with reach(4) show ?thesis by (intro keep [OF _ _ chan_le_getaddrinfo [of s mem rc]]) simp_all
  next
    case L_timer
    with reach(4) show ?thesis by (intro keep [OF _ _ chan_le_timer]) simp_all
  next
    case (L_addrinfo req e res)
    with reach(4) show ?thesis by (intro keep [OF _ _ chan_le_addrinfo [of s req e res]]) simp_all
  qed
qed

text \<open>The counter counts the releases that nobody waited for.\<close>

lemma sem_run_inv:
  assumes "sem_run sem n s a r e" and "0 \<le> sint n" and "sint n + int r < 2 ^ 31"
  shows "sem_inv sem s \<and> sem_level sem s = sint n + int r + int e - int a \<and>
    sint (sem_counter s sem) \<le> sint n + int r"
  using assms
proof (induction rule: sem_run.induct)
  case (init s)
  then show ?case by (simp add: sem_inv_def sem_level_def gevent_semaphore_init_def gevent_channel_init_def)
next
  case (step s a r e op s')
  have r: "sint n + int r < 2 ^ 31" using step.prems by (auto split: if_splits)
  note IH = step.IH [OF step.prems(1) r]
  have "sint (sem_counter s sem) < 2 ^ 31 - 1" if "op = G_release sem" using IH step.prems(2) that by simp
  from sem_step [OF conjunct1 [OF IH] sem_run_reach [OF step.hyps(1)] step.hyps(2,3,5,4) this] IH
  show ?case by auto
qed

text \<open>
  C5. A semaphore never hands out more than it has, up to the early resumes of the main cothread.
  After any run with \<open>a\<close> calls of acquire and \<open>r\<close> calls of release, \<open>a\<close> less the cothreads that
  wait is the number of acquisitions that have been granted; the granted ones less the releases
  are exactly what is gone from the counter, plus \<open>e\<close>, the number of times that the main cothread
  left the queue without a release. The counter is not negative, cothreads wait only while it is 0,
  and nobody ever waits to send on the semaphore's channel. No other cothread leaves the queue
  without a release, so without such a resume at most \<open>n\<close> acquisitions are held. The counter is a
  C \<open>int\<close>: the releases must not overflow it.
\<close>

theorem gevent_semaphore_bound:
  assumes "sem_run sem n s a r e" and "0 \<le> sint n" and "sint n + int r < 2 ^ 31"
  shows "let granted = int a - int (length (receivers (channels s (Sem_channel sem)))) in
    granted - int r \<le> sint n + int e \<and>
    granted - int r = sint n - sint (sem_counter s sem) + int e \<and>
    0 \<le> sint (sem_counter s sem) \<and>
    (receivers (channels s (Sem_channel sem)) \<noteq> [] \<longrightarrow> sem_counter s sem = 0) \<and>
    senders (channels s (Sem_channel sem)) = []"
  using sem_run_inv [OF assms] by (auto simp: sem_inv_def sem_level_def Let_def)

text \<open>
  One token, one release at most, and an acquisition by a cothread and by the main one. Cothread 1
  takes the token; the main cothread waits for it, is resumed early when cothread 2 ends, and
  believes that it holds it, too.
\<close>

fun sem_counts :: "nat \<Rightarrow> gop list \<Rightarrow> gevent_hub \<Rightarrow> nat \<times> nat \<times> nat \<Rightarrow> (gevent_hub \<times> nat \<times> nat \<times> nat) option" where
  "sem_counts sem [] s (a, r, e) = Some (s, a, r, e)"
| "sem_counts sem (op # ops) s (a, r, e) =
     (case op of
        G_semaphore m n \<Rightarrow> None
      | _ \<Rightarrow> if gevent_enabled op s \<and> gevent_legal op s
          then case gevent_exec op s of
                 Ret s' \<Rightarrow> sem_counts sem ops s'
                   (if op = G_acquire sem then Suc a else a, if op = G_release sem then Suc r else r,
                    if main_leaves sem op s s' then Suc e else e)
               | _ \<Rightarrow> None
          else None)"

lemma sem_counts_run:
  "sem_counts sem ops s (a, r, e) = Some (s', a', r', e') \<Longrightarrow> sem_run sem n s a r e \<Longrightarrow> sem_run sem n s' a' r' e'"
proof (induction ops arbitrary: s a r e)
  case (Cons op ops)
  then obtain t where t: "gevent_enabled op s" "gevent_legal op s" "\<And>m. op \<noteq> G_semaphore sem m"
    "gevent_exec op s = Ret t"
    "sem_counts sem ops t (if op = G_acquire sem then Suc a else a, if op = G_release sem then Suc r else r,
       if main_leaves sem op s t then Suc e else e) = Some (s', a', r', e')"
    by (cases op) (auto split: outcome.splits if_splits)
  from Cons.IH [OF t(5) sem_run.step [OF Cons.prems(2) t(1,2,3,4)]] show ?case .
qed simp

abbreviation (input) one_token :: gevent_hub where
  "one_token \<equiv> gevent_semaphore_init fresh_hub 3 1"

abbreviation (input) two_holders :: "gop list" where
  "two_holders \<equiv> [G_init 1 71, G_init 2 72, G_init 3 73, G_spawn 1, G_acquire 3, G_spawn 2, G_spawn 3,
     G_return, G_acquire 3, G_sleep 1000, G_return]"

lemma gevent_two_holders:
  "\<exists>s. sem_run 3 1 s 2 0 1 \<and> receivers (channels s (Sem_channel 3)) = [] \<and> current s = Some main_id \<and>
    (\<exists>es. glog s = es @ [Returned main_id (R_int 0)]) \<and> Returned 1 (R_int 0) \<in> set (glog s)"
proof -
  have "case sem_counts 3 two_holders one_token (0, 0, 0) of
      Some (s, a, r, e) \<Rightarrow> a = 2 \<and> r = 0 \<and> e = 1 \<and> receivers (channels s (Sem_channel 3)) = [] \<and>
        current s = Some main_id \<and> butlast (glog s) @ [Returned main_id (R_int 0)] = glog s \<and>
        Returned 1 (R_int 0) \<in> set (glog s)
    | None \<Rightarrow> False" by code_simp
  then obtain s where s: "sem_counts 3 two_holders one_token (0, 0, 0) = Some (s, 2, 0, 1)"
    "receivers (channels s (Sem_channel 3)) = []" "current s = Some main_id"
    "butlast (glog s) @ [Returned main_id (R_int 0)] = glog s" "Returned 1 (R_int 0) \<in> set (glog s)"
    by (auto split: option.splits)
  have "sem_run 3 1 one_token 0 0 0" by (rule sem_run.init [OF gevent_reach.start]) code_simp+
  from sem_counts_run [OF s(1) this] s(2,3,5) s(4) [symmetric] show ?thesis by blast
qed

theorem gevent_semaphore_bound_witness:
  "\<exists>s. sem_run 3 1 s 2 0 1 \<and> sint (sem_counter s 3) = 0"
proof -
  from gevent_two_holders obtain s where s: "sem_run 3 1 s 2 0 1" "receivers (channels s (Sem_channel 3)) = []"
    by blast
  from gevent_semaphore_bound [OF s(1)] s(2) have "sint (sem_counter s 3) = 0" by (simp add: Let_def)
  with s(1) show ?thesis by blast
qed

section \<open>Where the code breaks its promise\<close>

text \<open>
  C29. The main cothread does not sleep its time: when the last other cothread ends, nothing is
  ready and the hub has not been started since the loop last ran (its stacklet is \<open>NULL\<close>),
  \<open>_get_next_stacklet\<close> resumes the main cothread at once, whatever it waits for. A sleep returns
  0 at the same time of the loop, before its timer is due.
\<close>

theorem gevent_main_sleep_cut_short:
  assumes "gevent_reach s" and "current s = Some c" and "c \<noteq> main_id"
    and "ready s = []" and "hub_stacklet s = None" and "state_of s main_id = GEVENT_WAITING_TIMER"
  shows "\<exists>s'. gevent_exec G_return s = Ret s' \<and> current s' = Some main_id \<and>
    state_of s' main_id = GEVENT_COTHREAD_CURRENT"
proof -
  have inv: "ginv s (Some c)" using reach_inv [OF assms(1)] assms(2) by simp
  have nt: "next_target s = Some main_id" using assms(4,5) by (simp add: next_target_def)
  from return_ok [OF inv assms(2,3)] assms(6) nt obtain s' where
    s': "cothread_starter_end s c = Ret s'" "ginv s' (current s')" "current s' = Some main_id" by auto
  then have "state_of s' main_id = GEVENT_COTHREAD_CURRENT" by (simp add: ginv_def)
  with s' assms(2) show ?thesis by simp
qed

abbreviation (input) sleeping_main :: gevent_hub where
  "sleeping_main \<equiv> run_of [G_init 1 71, G_init 2 72, G_spawn 1, G_spawn 2, G_return, G_sleep 1000]"

theorem gevent_main_sleep_cut_short_witness:
  "\<exists>s'. gevent_exec G_return sleeping_main = Ret s' \<and> current s' = Some main_id \<and>
     due_time (g_loop sleeping_main) main_id = 1000 \<and> loop_time (g_loop sleeping_main) = 0"
proof -
  have "current sleeping_main = Some 1" "ready sleeping_main = []" "hub_stacklet sleeping_main = None"
    "state_of sleeping_main main_id = GEVENT_WAITING_TIMER"
    "due_time (g_loop sleeping_main) main_id = 1000" "loop_time (g_loop sleeping_main) = 0"
    by code_simp+
  with gevent_main_sleep_cut_short [OF run_of_reach, of _ 1] show ?thesis by auto
qed

section \<open>The cothread that \<open>gevent_wait\<close> loses\<close>

text \<open>What can come after a state: any operations, any events of the loop, any failures of memory.\<close>

inductive gevent_later :: "gevent_hub \<Rightarrow> gevent_hub \<Rightarrow> bool" for s where
  now: "gevent_later s s"
| step: "gevent_later s t \<Longrightarrow> gevent_enabled op t \<Longrightarrow> gevent_legal op t \<Longrightarrow> gevent_exec op t = Ret u \<Longrightarrow>
    gevent_later s u"

lemma later_reach: "gevent_later s t \<Longrightarrow> gevent_reach s \<Longrightarrow> gevent_reach t"
  by (induction rule: gevent_later.induct) (blast intro: gevent_reach.step)+

lemma lost_stays:
  assumes "gevent_later s t" and "gevent_reach s" and "c \<noteq> main_id"
    and "current s \<noteq> Some c" and "state_of s c = GEVENT_COTHREAD_CURRENT"
  shows "current t \<noteq> Some c \<and> state_of t c = GEVENT_COTHREAD_CURRENT"
  using assms(1)
proof (induction rule: gevent_later.induct)
  case now
  with assms(4,5) show ?case by simp
next
  case (step t op u)
  have reach: "gevent_reach t" by (rule later_reach [OF step.hyps(1) assms(2)])
  note ex = exec_Ret [OF reach step.hyps(2,3,4)]
  have nochan: "c \<notin> set (receivers (channels t ch))" "c \<notin> set (senders (channels t ch))" for ch
    using chan_members [OF reach_inv [OF reach], of c ch] step.IH by auto
  have nohd: "receivers (channels t ch) \<noteq> c # cs" "senders (channels t ch) \<noteq> c # cs" for ch cs
    using nochan [of ch] by auto
  have "current u \<noteq> Some c"
  proof
    assume "current u = Some c"
    from ex(2) [OF this] step.IH assms(3) show False
      by (cases op) (auto simp: wake_cause_def nohd)
  qed
  with ex(1) step.IH show ?case by (simp add: step_frame_def)
qed

text \<open>
  C30. \<open>gevent_wait\<close> with a timeout that is not positive loses the caller. When a cothread other than
  the main one calls it, in any state of any program, it yields without a new state and without
  entering the ready queue; whatever happens afterwards, it is never the current cothread again, so
  the call never returns, and it stays in state CURRENT for ever.
\<close>

theorem gevent_wait_loses_caller:
  assumes "gevent_reach s" and "current s = Some c" and "c \<noteq> main_id" and "sint n \<le> 0" and "\<not> no_memory s"
  shows "\<exists>s'. gevent_exec (G_wait n) s = Ret s' \<and>
    (\<forall>t. gevent_later s' t \<longrightarrow> current t \<noteq> Some c \<and> state_of t c = GEVENT_COTHREAD_CURRENT)"
proof -
  have inv: "ginv s (Some c)" using reach_inv [OF assms(1)] assms(2) by simp
  have st: "state_of s c \<noteq> GEVENT_COTHREAD_READY" "state_of s c = GEVENT_COTHREAD_CURRENT"
    using running_facts(1) [OF inv] by simp_all
  from blocked_end [OF wait_park [OF inv assms(2)] assms(5,2) st(1)] obtain s' where s':
    "gevent_yield s [K_wait] = Ret s'" "current s' = (case ready s of [] \<Rightarrow> None | t # _ \<Rightarrow> Some t)"
    "state_of s' c = state_of s c" by blast
  have ex: "gevent_exec (G_wait n) s = Ret s'" using s'(1) assms(4) by (simp add: gevent_wait_def)
  have "current s' \<noteq> Some c"
    using s'(2) running_facts(2) [OF inv] by (cases "ready s") auto
  moreover have "gevent_reach s'"
    by (rule gevent_reach.step [OF assms(1) _ _ ex]) (use assms(2) in simp_all)
  ultimately show ?thesis using ex lost_stays [of s' _ c] assms(3) s'(3) st(2) by auto
qed

text \<open>Cothread 1 is started by the main one and waits with timeout 0.\<close>

theorem gevent_wait_loses_caller_witness:
  "\<exists>s'. gevent_exec (G_wait 0) (run_of [G_init 1 71, G_spawn 1]) = Ret s' \<and>
     (\<forall>t. gevent_later s' t \<longrightarrow> current t \<noteq> Some 1)"
proof -
  have "current (run_of [G_init 1 71, G_spawn 1]) = Some 1" "\<not> no_memory (run_of [G_init 1 71, G_spawn 1])"
    by code_simp+
  from gevent_wait_loses_caller [OF run_of_reach this(1) _ _ this(2), of 0] show ?thesis by auto
qed

text \<open>
  A name resolution of the main cothread that is cut short stops the process: the completion finds
  the main cothread in another state, and the assert of \<open>getaddrinfo_cb\<close> fails.
\<close>

lemma gevent_main_resolution_aborts:
  "case gevent_run [G_init 1 71, G_init 2 72, G_spawn 1, G_spawn 2, G_return,
       G_getaddrinfo (Some 50) 0, G_return, G_receive 1, L_addrinfo 50 0 8] fresh_hub of
     Abort \<Rightarrow> True
   | _ \<Rightarrow> False"
  by code_simp

end
