(* ===== verification/Io.thy ===== *)
theory Io
  imports Timer
begin

text \<open>
  I/O watchers: \<open>uv__io_*\<close>, \<open>maybe_resize\<close>, \<open>next_power_of_two\<close> and \<open>uv__run_pending\<close> of
  \<open>src/unix/core.c\<close>, and the poll of \<open>src/unix/linux/linux-core.c\<close>.

  A watcher is named by its address. The kernel is a parameter: a record of functions on a
  state of its own (\<open>epoll_ctl\<close>, \<open>epoll_wait\<close>, the clock).
\<close>

section \<open>State\<close>

abbreviation (input) UV__POLLIN :: uint32 where "UV__POLLIN \<equiv> 1"
abbreviation (input) UV__POLLOUT :: uint32 where "UV__POLLOUT \<equiv> 4"
abbreviation (input) UV__POLLERR :: uint32 where "UV__POLLERR \<equiv> 8"
abbreviation (input) UV__POLLHUP :: uint32 where "UV__POLLHUP \<equiv> 16"
abbreviation (input) INT_MAX :: int where "INT_MAX \<equiv> 2147483647"

record uv__io =
  w_cb :: nat
  w_fd :: int
  w_events :: uint32
  w_pevents :: uint32

text \<open>\<open>watchers\<close> is the array that is indexed by descriptors; \<open>nwatchers\<close> its length in C.\<close>

record io_loop = timer_loop +
  ios :: "nat \<Rightarrow> uv__io"
  watchers :: "nat option list"
  nwatchers :: uint32
  nfds :: uint32
  watcher_queue :: "nat list"
  pending_queue :: "nat list"

definition set_io :: "nat \<Rightarrow> uv__io \<Rightarrow> ('m) io_loop_scheme \<Rightarrow> ('m) io_loop_scheme" where
  "set_io w x L = L\<lparr>ios := (ios L)(w := x)\<rparr>"

section \<open>Watchers\<close>

definition next_power_of_two :: "uint32 \<Rightarrow> uint32" where
  "next_power_of_two val =
     (let val = val - 1;
          val = val OR drop_bit 1 val;
          val = val OR drop_bit 2 val;
          val = val OR drop_bit 4 val;
          val = val OR drop_bit 8 val;
          val = val OR drop_bit 16 val
      in val + 1)"

text \<open>\<open>realloc\<close> finds memory here; the code calls \<open>abort\<close> when it does not.\<close>

definition maybe_resize :: "('m) io_loop_scheme \<Rightarrow> uint32 \<Rightarrow> ('m) io_loop_scheme" where
  "maybe_resize L len =
     (if len \<le> nwatchers L then L
      else let n = next_power_of_two len
           in L\<lparr>watchers := watchers L @ replicate (unat n - unat (nwatchers L)) None, nwatchers := n\<rparr>)"

definition uv__io_init :: "('m) io_loop_scheme \<Rightarrow> nat \<Rightarrow> nat option \<Rightarrow> int \<Rightarrow> ('m) io_loop_scheme outcome" where
  "uv__io_init L w cb fd =
     (case cb of
        None \<Rightarrow> Abort
      | Some c \<Rightarrow>
          assert_that (- 1 \<le> fd)
            (Ret (set_io w \<lparr>w_cb = c, w_fd = fd, w_events = 0, w_pevents = 0\<rparr> L)))"

definition valid_events :: "uint32 \<Rightarrow> bool" where
  "valid_events events \<longleftrightarrow> events AND NOT (UV__POLLIN OR UV__POLLOUT) = 0 \<and> events \<noteq> 0"

definition uv__io_start :: "('m) io_loop_scheme \<Rightarrow> nat \<Rightarrow> uint32 \<Rightarrow> ('m) io_loop_scheme outcome" where
  "uv__io_start L w events =
     assert_that (valid_events events)
    (assert_that (0 \<le> w_fd (ios L w))
    (assert_that (w_fd (ios L w) < INT_MAX)
      (let fd = w_fd (ios L w);
           L = set_io w ((ios L w)\<lparr>w_pevents := w_pevents (ios L w) OR events\<rparr>) L;
           L = maybe_resize L (word_of_int (fd + 1));
           L = (if w \<notin> set (watcher_queue L) then L\<lparr>watcher_queue := watcher_queue L @ [w]\<rparr> else L)
       in if watchers L ! nat fd = None
          then Ret (L\<lparr>watchers := (watchers L)[nat fd := Some w], nfds := nfds L + 1\<rparr>)
          else Ret L)))"

definition uv__io_stop :: "('m) io_loop_scheme \<Rightarrow> nat \<Rightarrow> uint32 \<Rightarrow> ('m) io_loop_scheme outcome" where
  "uv__io_stop L w events =
     assert_that (valid_events events)
       (let fd = w_fd (ios L w)
        in if fd = - 1 then Ret L
           else assert_that (0 \<le> fd)
             (if (word_of_int fd :: uint32) \<ge> nwatchers L then Ret L
              else let p = w_pevents (ios L w) AND NOT events;
                       L = set_io w ((ios L w)\<lparr>w_pevents := p\<rparr>) L
                   in if p = 0
                      then let L = L\<lparr>watcher_queue := remove1 w (watcher_queue L)\<rparr>
                           in if watchers L ! nat fd \<noteq> None
                              then assert_that (watchers L ! nat fd = Some w)
                                  (assert_that (nfds L > 0)
                                    (Ret (set_io w ((ios L w)\<lparr>w_events := 0\<rparr>)
                                      (L\<lparr>watchers := (watchers L)[nat fd := None], nfds := nfds L - 1\<rparr>))))
                              else Ret L
                      else if w \<notin> set (watcher_queue L)
                      then Ret (L\<lparr>watcher_queue := watcher_queue L @ [w]\<rparr>)
                      else Ret L))"

definition uv__io_close :: "('m) io_loop_scheme \<Rightarrow> nat \<Rightarrow> ('m) io_loop_scheme outcome" where
  "uv__io_close L w =
     obind (uv__io_stop L w (UV__POLLIN OR UV__POLLOUT)) (\<lambda>L.
       Ret (L\<lparr>pending_queue := remove1 w (pending_queue L)\<rparr>))"

definition uv__io_feed :: "('m) io_loop_scheme \<Rightarrow> nat \<Rightarrow> ('m) io_loop_scheme" where
  "uv__io_feed L w =
     (if w \<notin> set (pending_queue L) then L\<lparr>pending_queue := pending_queue L @ [w]\<rparr> else L)"

definition uv__io_active :: "('m) io_loop_scheme \<Rightarrow> nat \<Rightarrow> uint32 \<Rightarrow> bool outcome" where
  "uv__io_active L w events =
     assert_that (valid_events events) (Ret (w_pevents (ios L w) AND events \<noteq> 0))"

text \<open>\<open>cb c w events\<close> is the callback \<open>c\<close> of the watcher \<open>w\<close>.\<close>

partial_function (option) uv__run_pending ::
    "(nat \<Rightarrow> nat \<Rightarrow> uint32 \<Rightarrow> ('m) io_loop_scheme \<Rightarrow> ('m) io_loop_scheme outcome) \<Rightarrow>
     ('m) io_loop_scheme \<Rightarrow> ('m) io_loop_scheme outcome option" where
  "uv__run_pending cb L =
     (case pending_queue L of
        [] \<Rightarrow> Some (Ret L)
      | w # _ \<Rightarrow>
          let L = L\<lparr>pending_queue := remove1 w (pending_queue L)\<rparr>
          in case cb (w_cb (ios L w)) w UV__POLLOUT L of
               Abort \<Rightarrow> Some Abort
             | Starve \<Rightarrow> Some Starve
             | Ret L \<Rightarrow> uv__run_pending cb L)"

section \<open>The poll\<close>

datatype ctl_op = UV__EPOLL_CTL_ADD | UV__EPOLL_CTL_MOD | UV__EPOLL_CTL_DEL

text \<open>\<open>epoll_ctl\<close> answers 0 or an errno; \<open>epoll_wait\<close> an errno or the events with their data.\<close>

record 'k epoll_kernel =
  epoll_ctl :: "'k \<Rightarrow> ctl_op \<Rightarrow> int \<Rightarrow> uint32 \<Rightarrow> int \<times> 'k"
  epoll_wait :: "'k \<Rightarrow> int \<Rightarrow> (int + (int \<times> uint32) list) \<times> 'k"
  hrtime_ms :: "'k \<Rightarrow> uint64"

fun io_arm :: "'k epoll_kernel \<Rightarrow> nat list \<Rightarrow> 'k \<times> ('m) io_loop_scheme \<Rightarrow>
    ('k \<times> ('m) io_loop_scheme) outcome" where
  "io_arm K [] (k, L) = Ret (k, L)"
| "io_arm K (w # ws) (k, L) =
     (let L = L\<lparr>watcher_queue := ws\<rparr>; x = ios L w
      in assert_that (w_pevents x \<noteq> 0)
        (assert_that (0 \<le> w_fd x)
        (assert_that (w_fd x < sint (nwatchers L))
          (if w_events x = w_pevents x then io_arm K ws (k, L)
           else
             let op = (if w_events x = 0 then UV__EPOLL_CTL_ADD else UV__EPOLL_CTL_MOD);
                 (e, k) = epoll_ctl K k op (w_fd x) (w_pevents x);
                 L' = set_io w (x\<lparr>w_events := w_pevents x\<rparr>) L
             in if e = 0 then io_arm K ws (k, L')
                else if e \<noteq> EEXIST then Abort
                else assert_that (op = UV__EPOLL_CTL_ADD)
                  (let (e, k) = epoll_ctl K k UV__EPOLL_CTL_MOD (w_fd x) (w_pevents x)
                   in if e \<noteq> 0 then Abort else io_arm K ws (k, L'))))))"

text \<open>The events of one wait; the result counts the callbacks.\<close>

fun io_dispatch ::
    "'k epoll_kernel \<Rightarrow> (nat \<Rightarrow> nat \<Rightarrow> uint32 \<Rightarrow> 'k \<times> ('m) io_loop_scheme \<Rightarrow> ('k \<times> ('m) io_loop_scheme) outcome) \<Rightarrow>
     (int \<times> uint32) list \<Rightarrow> nat \<Rightarrow> 'k \<times> ('m) io_loop_scheme \<Rightarrow>
     (nat \<times> 'k \<times> ('m) io_loop_scheme) outcome" where
  "io_dispatch K cb [] nevents (k, L) = Ret (nevents, k, L)"
| "io_dispatch K cb ((fd, ev) # es) nevents (k, L) =
     assert_that (0 \<le> fd)
    (assert_that ((word_of_int fd :: uint32) < nwatchers L)
       (case watchers L ! nat fd of
          None \<Rightarrow>
            let (e, k) = epoll_ctl K k UV__EPOLL_CTL_DEL fd ev
            in if e \<noteq> 0 \<and> e \<noteq> EBADF \<and> e \<noteq> ENOENT then Abort
               else io_dispatch K cb es nevents (k, L)
        | Some w \<Rightarrow>
            obind (cb (w_cb (ios L w)) w ev (k, L)) (io_dispatch K cb es (Suc nevents))))"

text \<open>The label \<open>update_timeout\<close>: the timeout that is left, or \<open>None\<close> when it has passed.\<close>

definition io_rest :: "uint64 \<Rightarrow> uint64 \<Rightarrow> int \<Rightarrow> int option outcome" where
  "io_rest base now timeout =
     assert_that (0 < timeout)
    (assert_that (base \<le> now)
      (let diff = now - base
       in if diff \<ge> word_of_int timeout then Ret None
          else Ret (Some (sint (ucast (word_of_int timeout - diff) :: uint32)))))"

text \<open>One round of the loop around \<open>epoll_wait\<close>: it returns, or goes on with a new timeout.\<close>

datatype 'a poll_round = Poll_return 'a | Poll_again nat int 'a

definition io_again :: "uint64 \<Rightarrow> uint64 \<Rightarrow> nat \<Rightarrow> int \<Rightarrow> 'a \<Rightarrow> 'a poll_round outcome" where
  "io_again base now count timeout x =
     obind (io_rest base now timeout) (\<lambda>t.
       Ret (case t of None \<Rightarrow> Poll_return x | Some t \<Rightarrow> Poll_again count t x))"

definition io_round ::
    "'k epoll_kernel \<Rightarrow> (nat \<Rightarrow> nat \<Rightarrow> uint32 \<Rightarrow> 'k \<times> ('m) io_loop_scheme \<Rightarrow> ('k \<times> ('m) io_loop_scheme) outcome) \<Rightarrow>
     uint64 \<Rightarrow> nat \<Rightarrow> int \<Rightarrow> 'k \<times> ('m) io_loop_scheme \<Rightarrow>
     ('k \<times> ('m) io_loop_scheme) poll_round outcome" where
  "io_round K cb base count timeout x =
     (let (k, L) = x; (r, k) = epoll_wait K k timeout
      in case r of
           Inl e \<Rightarrow>
             if e \<noteq> EINTR then Abort
             else if timeout = - 1 then Ret (Poll_again count timeout (k, L))
             else if timeout = 0 then Ret (Poll_return (k, L))
             else io_again base (hrtime_ms K k) count timeout (k, L)
         | Inr es \<Rightarrow>
             if es = [] then assert_that (timeout \<noteq> - 1) (Ret (Poll_return (k, L)))
             else obind (io_dispatch K cb es 0 (k, L)) (\<lambda>(nevents, k, L).
               if nevents \<noteq> 0
               then if length es = 1024 \<and> count - 1 \<noteq> 0
                    then Ret (Poll_again (count - 1) 0 (k, L))
                    else Ret (Poll_return (k, L))
               else if timeout = 0 then Ret (Poll_return (k, L))
               else if timeout = - 1 then Ret (Poll_again count timeout (k, L))
               else io_again base (hrtime_ms K k) count timeout (k, L)))"

partial_function (option) io_wait ::
    "'k epoll_kernel \<Rightarrow> (nat \<Rightarrow> nat \<Rightarrow> uint32 \<Rightarrow> 'k \<times> ('m) io_loop_scheme \<Rightarrow> ('k \<times> ('m) io_loop_scheme) outcome) \<Rightarrow>
     uint64 \<Rightarrow> nat \<Rightarrow> int \<Rightarrow> 'k \<times> ('m) io_loop_scheme \<Rightarrow> ('k \<times> ('m) io_loop_scheme) outcome option" where
  "io_wait K cb base count timeout x =
     (case io_round K cb base count timeout x of
        Abort \<Rightarrow> Some Abort
      | Starve \<Rightarrow> Some Starve
      | Ret r \<Rightarrow>
          (case r of
             Poll_return y \<Rightarrow> Some (Ret y)
           | Poll_again count t y \<Rightarrow> io_wait K cb base count t y))"

definition uv__io_poll ::
    "'k epoll_kernel \<Rightarrow> (nat \<Rightarrow> nat \<Rightarrow> uint32 \<Rightarrow> 'k \<times> ('m) io_loop_scheme \<Rightarrow> ('k \<times> ('m) io_loop_scheme) outcome) \<Rightarrow>
     int \<Rightarrow> 'k \<times> ('m) io_loop_scheme \<Rightarrow> ('k \<times> ('m) io_loop_scheme) outcome option" where
  "uv__io_poll K cb timeout x =
     (let (k, L) = x
      in if nfds L = 0 then Some (assert_that (watcher_queue L = []) (Ret (k, L)))
         else case io_arm K (watcher_queue L) (k, L) of
             Abort \<Rightarrow> Some Abort
           | Starve \<Rightarrow> Some Starve
           | Ret (k, L) \<Rightarrow>
               if timeout < - 1 then Some Abort
               else io_wait K cb (loop_time L) 48 timeout (k, L))"

end
