(* ===== verification/Io_Props.thy ===== *)
theory Io_Props
  imports Io
begin

text \<open>
  The watcher table of a loop: its size, its invariant under starting and stopping, what the
  poll tells the kernel, and how it delivers events.
\<close>

section \<open>The size of the table\<close>

lemma smear_bit:
  fixes x :: uint32
  assumes "\<And>n. bit y n \<longleftrightarrow> (\<exists>i < m. bit x (n + i))"
  shows "bit (y OR drop_bit k y) n \<longleftrightarrow> (\<exists>i < m. bit x (n + i)) \<or> (\<exists>i < m. bit x (n + k + i))"
  using assms by (simp add: bit_simps add.commute add.left_commute)

lemma smear_double:
  fixes x :: uint32
  assumes "\<And>n. bit y n \<longleftrightarrow> (\<exists>i < m. bit x (n + i))"
  shows "\<And>n. bit (y OR drop_bit m y) n \<longleftrightarrow> (\<exists>i < 2 * m. bit x (n + i))"
proof -
  fix n
  have "(\<exists>i < 2 * m. bit x (n + i)) \<longleftrightarrow> (\<exists>i < m. bit x (n + i)) \<or> (\<exists>i < m. bit x (n + m + i))"
  proof
    assume "\<exists>i < 2 * m. bit x (n + i)"
    then obtain i where i: "i < 2 * m" "bit x (n + i)" by blast
    show "(\<exists>i < m. bit x (n + i)) \<or> (\<exists>i < m. bit x (n + m + i))"
    proof (cases "i < m")
      case False
      then have "i - m < m" "n + m + (i - m) = n + i" using i(1) by auto
      with i(2) show ?thesis by metis
    qed (use i in blast)
  next
    assume "(\<exists>i < m. bit x (n + i)) \<or> (\<exists>i < m. bit x (n + m + i))"
    then show "\<exists>i < 2 * m. bit x (n + i)"
    proof
      assume "\<exists>i < m. bit x (n + m + i)"
      then obtain i where "i < m" "bit x (n + m + i)" by blast
      then show ?thesis by (intro exI [of _ "m + i"]) (simp add: add.assoc)
    next
      assume "\<exists>i < m. bit x (n + i)"
      then obtain i where "i < m" "bit x (n + i)" by blast
      then show ?thesis by (intro exI [of _ i]) simp
    qed
  qed
  then show "bit (y OR drop_bit m y) n \<longleftrightarrow> (\<exists>i < 2 * m. bit x (n + i))"
    using smear_bit [OF assms] by blast
qed

definition smear :: "uint32 \<Rightarrow> uint32" where
  "smear x =
     (let x = x OR drop_bit 1 x; x = x OR drop_bit 2 x; x = x OR drop_bit 4 x;
          x = x OR drop_bit 8 x
      in x OR drop_bit 16 x)"

lemma next_power_smear: "next_power_of_two v = smear (v - 1) + 1"
  by (simp add: next_power_of_two_def smear_def Let_def)

lemma bit_smear: "bit (smear x) n \<longleftrightarrow> (\<exists>i. bit x (n + i))"
proof -
  have 1: "bit x n \<longleftrightarrow> (\<exists>i < 1. bit x (n + i))" for n by simp
  note 2 = smear_double [OF 1]
  note 4 = smear_double [OF 2]
  note 8 = smear_double [OF 4]
  note 16 = smear_double [OF 8]
  note 32 = smear_double [OF 16]
  have "bit (smear x) n \<longleftrightarrow> (\<exists>i < 32. bit x (n + i))"
    using 32 by (simp add: smear_def Let_def)
  moreover have "i < 32" if "bit x (n + i)" for i
    using bit_imp_le_length [OF that] by simp
  ultimately show ?thesis by blast
qed

lemma smear_mask:
  assumes "x \<noteq> 0"
  shows "\<exists>k < 32. smear x = mask (Suc k) \<and> 2 ^ k \<le> uint x \<and> uint x < 2 ^ Suc k"
proof -
  have ex: "\<exists>n. bit x n" using assms by (metis bit_eqI bit_0_eq bot_apply bot_bool_def)
  have bd: "n < 32" if "bit x n" for n using bit_imp_le_length [OF that] by simp
  define k where "k = Max {n. bit x n}"
  have fin: "finite {n. bit x n}" using bd by (metis finite_nat_set_iff_bounded mem_Collect_eq)
  have k: "bit x k" "\<And>n. bit x n \<Longrightarrow> n \<le> k"
    using Max_in [OF fin] Max_ge [OF fin] ex unfolding k_def by auto
  have "smear x = mask (Suc k)"
  proof (rule bit_word_eqI)
    fix n assume n: "n < LENGTH(32)"
    have "(\<exists>i. bit x (n + i)) \<longleftrightarrow> n \<le> k"
      using k by (metis le_add_diff_inverse le_add1 order_trans)
    then show "bit (smear x) n \<longleftrightarrow> bit (mask (Suc k) :: uint32) n"
      using n by (auto simp: bit_smear bit_simps)
  qed
  moreover have "2 ^ k \<le> uint x"
  proof -
    have "bit (uint x) k" using k(1) bd [OF k(1)] by (simp add: bit_uint_iff)
    then show ?thesis
      by (metis bit_take_bit_iff k(1) linorder_not_less take_bit_int_eq_self_iff uint_ge_0 bit_uint_iff less_irrefl)
  qed
  moreover have "uint x < 2 ^ Suc k"
  proof -
    have "take_bit (Suc k) (uint x) = uint x"
      by (rule bit_eqI) (use k(2) in \<open>auto simp: bit_take_bit_iff bit_uint_iff le_imp_less_Suc\<close>)
    then show ?thesis by (simp add: take_bit_int_eq_self_iff)
  qed
  ultimately show ?thesis using bd [OF k(1)] by blast
qed

lemma next_power_least:
  assumes "0 < v" and "uint v \<le> 2 ^ 31"
  shows "\<exists>k \<le> 31. uint (next_power_of_two v) = 2 ^ k \<and> uint v \<le> 2 ^ k \<and> (k = 0 \<or> 2 ^ (k - 1) < uint v)"
proof (cases "v = 1")
  case True
  then show ?thesis by (intro exI [of _ 0]) (simp add: next_power_smear smear_def)
next
  case False
  have v: "1 < uint v" using assms(1) False
  proof -
    have "uint v \<noteq> uint (1 :: uint32)" using False by (metis word_of_int_uint)
    moreover have "uint v \<noteq> 0" using assms(1) by (auto simp: uint_0_iff)
    moreover have "0 \<le> uint v" by (rule uint_ge_0)
    ultimately show ?thesis by (simp only: uint_1)
  qed
  have x: "uint (v - 1) = uint v - 1" using v by (simp add: uint_sub_if')
  then have "v - 1 \<noteq> 0" using v by auto
  from smear_mask [OF this] obtain k where k: "smear (v - 1) = mask (Suc k)" "2 ^ k \<le> uint v - 1"
    "uint v - 1 < 2 ^ Suc k" unfolding x by blast
  have "(2::int) ^ k < 2 ^ 31" using k(2) assms(2) by linarith
  then have "k < 31" by (subst (asm) power_strict_increasing_iff) simp_all
  then have k31: "Suc k \<le> 31" by simp
  have "next_power_of_two v = 2 ^ Suc k"
    by (simp add: next_power_smear k(1) mask_eq_exp_minus_1)
  moreover have "uint (2 ^ Suc k :: uint32) = 2 ^ Suc k"
  proof -
    have lt: "(2 :: int) ^ Suc k < 2 ^ 32" using k31 by (intro power_strict_increasing) simp_all
    have tb: "take_bit 32 (2 ^ Suc k :: int) = 2 ^ Suc k"
      by (rule take_bit_int_eq_self [OF _ lt]) simp
    have "uint (2 ^ Suc k :: uint32) = take_bit 32 (2 ^ Suc k)"
      using uint_word_of_int_eq [of "2 ^ Suc k", where 'a = 32] by simp
    then show ?thesis unfolding tb .
  qed
  ultimately show ?thesis using k(2,3) k31 by (intro exI [of _ "Suc k"]) auto
qed

section \<open>The invariant of the watcher table\<close>

text \<open>
  \<open>watched L\<close> are the positions in use. A watcher in the table sits at its descriptor and asks
  for events, a watcher in the queue is in the table, and a watcher whose mask differs from
  what the kernel was told is in the queue.
\<close>

definition watched :: "('m) io_loop_scheme \<Rightarrow> nat set" where
  "watched L = {i. i < length (watchers L) \<and> watchers L ! i \<noteq> None}"

definition io_inv :: "('m) io_loop_scheme \<Rightarrow> bool" where
  "io_inv L \<longleftrightarrow>
     length (watchers L) = unat (nwatchers L) \<and> length (watchers L) \<le> 2 ^ 31 \<and>
     nfds L = of_nat (card (watched L)) \<and> distinct (watcher_queue L) \<and>
     (\<forall>i < length (watchers L). \<forall>w. watchers L ! i = Some w \<longrightarrow>
        w_fd (ios L w) = int i \<and> w_pevents (ios L w) \<noteq> 0 \<and>
        (w_events (ios L w) \<noteq> w_pevents (ios L w) \<longrightarrow> w \<in> set (watcher_queue L))) \<and>
     (\<forall>w \<in> set (watcher_queue L). \<exists>i < length (watchers L). watchers L ! i = Some w)"

lemma finite_watched [simp]: "finite (watched L)"
  by (simp add: watched_def)

lemma card_watched: "card (watched L) \<le> length (watchers L)"
proof -
  have "watched L \<subseteq> {..< length (watchers L)}" by (auto simp: watched_def)
  then show ?thesis using card_mono [of "{..< length (watchers L)}"] by fastforce
qed

lemma io_update_simps [simp]:
  "ios (set_io w x L) = (ios L)(w := x)" "watchers (set_io w x L) = watchers L"
  "nwatchers (set_io w x L) = nwatchers L" "nfds (set_io w x L) = nfds L"
  "watcher_queue (set_io w x L) = watcher_queue L" "pending_queue (set_io w x L) = pending_queue L"
  by (simp_all add: set_io_def)

text \<open>The table grows by empty places.\<close>

lemma resize_table:
  assumes "length (watchers L) = unat (nwatchers L)" and "length (watchers L) \<le> 2 ^ 31"
    and "0 < len" and "uint len \<le> 2 ^ 31"
  shows "\<exists>n. watchers (maybe_resize L len) = watchers L @ replicate n None \<and>
    length (watchers (maybe_resize L len)) = unat (nwatchers (maybe_resize L len)) \<and>
    length (watchers (maybe_resize L len)) \<le> 2 ^ 31 \<and>
    unat len \<le> length (watchers (maybe_resize L len))"
proof (cases "len \<le> nwatchers L")
  case True
  with assms show ?thesis by (intro exI [of _ 0]) (simp add: maybe_resize_def word_le_nat_alt)
next
  case False
  let ?n = "next_power_of_two len"
  obtain k where k: "k \<le> 31" "uint ?n = 2 ^ k" "uint len \<le> 2 ^ k"
    using next_power_least [OF assms(3,4)] by blast
  have unat: "unat (v :: uint32) = nat (uint v)" for v by simp
  have n: "unat ?n = 2 ^ k" by (simp add: unat k(2) nat_power_eq del: nat_uint_eq)
  have "(2 :: nat) ^ k \<le> 2 ^ 31" by (rule power_increasing [OF k(1)]) simp
  moreover have len: "unat len \<le> 2 ^ k"
    using k(3) by (simp add: unat nat_le_iff del: nat_uint_eq)
  moreover have "unat (nwatchers L) < unat len" using False by (simp add: word_le_nat_alt)
  ultimately show ?thesis
    using False assms(1) n
    by (intro exI [of _ "unat ?n - unat (nwatchers L)"]) (simp add: maybe_resize_def Let_def)
qed

lemma resize_frame [simp]:
  "ios (maybe_resize L len) = ios L" "nfds (maybe_resize L len) = nfds L"
  "watcher_queue (maybe_resize L len) = watcher_queue L"
  "pending_queue (maybe_resize L len) = pending_queue L"
  by (simp_all add: maybe_resize_def Let_def)

lemma watched_update:
  assumes "i < length (watchers L)"
  shows "watched (L\<lparr>watchers := (watchers L)[i := Some w]\<rparr>) = insert i (watched L)"
    and "watched (L\<lparr>watchers := (watchers L)[i := None]\<rparr>) = watched L - {i}"
  using assms by (auto simp: watched_def nth_list_update split: if_splits)

lemma watched_cong: "watchers L' = watchers L \<Longrightarrow> watched L' = watched L"
  by (simp add: watched_def)

lemma valid_events_or: "valid_events e \<Longrightarrow> p OR e \<noteq> 0"
  by (auto simp: valid_events_def or_eq_0_iff)

text \<open>
  A watcher may be started when its descriptor is free or its own, and when its mask tells
  whether it is in the table.
\<close>

definition may_start :: "('m) io_loop_scheme \<Rightarrow> nat \<Rightarrow> bool" where
  "may_start L w \<longleftrightarrow> 0 \<le> w_fd (ios L w) \<and> w_fd (ios L w) < INT_MAX \<and>
     (\<forall>i < length (watchers L). watchers L ! i = Some w \<longrightarrow> int i = w_fd (ios L w)) \<and>
     (nat (w_fd (ios L w)) < length (watchers L) \<longrightarrow>
        watchers L ! nat (w_fd (ios L w)) \<in> {None, Some w})"

lemma watcher_start_ok:
  assumes inv: "io_inv L" and ev: "valid_events e" and ms: "may_start L w"
  shows "\<exists>L'. uv__io_start L w e = Ret L' \<and> io_inv L' \<and>
    ios L' = (ios L)(w := (ios L w)\<lparr>w_pevents := w_pevents (ios L w) OR e\<rparr>) \<and>
    watched L' = insert (nat (w_fd (ios L w))) (watched L) \<and>
    nat (w_fd (ios L w)) < length (watchers L') \<and>
    watchers L' ! nat (w_fd (ios L w)) = Some w \<and> w \<in> set (watcher_queue L')"
proof -
  let ?fd = "w_fd (ios L w)"
  let ?i = "nat ?fd"
  let ?x = "(ios L w)\<lparr>w_pevents := w_pevents (ios L w) OR e\<rparr>"
  have fd: "0 \<le> ?fd" "?fd < INT_MAX" using ms by (auto simp: may_start_def)
  let ?len = "word_of_int (?fd + 1) :: uint32"
  have ulen: "uint ?len = ?fd + 1" using fd by (subst uint_word_of_int_eq) (simp add: take_bit_int_eq_self)
  have lpos: "0 < ?len" using ulen fd by (simp add: word_less_def)
  define L1 where "L1 = maybe_resize (set_io w ?x L) ?len"
  have L1: "ios L1 = (ios L)(w := ?x)" "nfds L1 = nfds L" "watcher_queue L1 = watcher_queue L"
    by (simp_all add: L1_def)
  have len: "length (watchers L) = unat (nwatchers L)" "length (watchers L) \<le> 2 ^ 31"
    using inv by (simp_all add: io_inv_def)
  have "uint ?len \<le> 2 ^ 31" using ulen fd by simp
  with resize_table [of "set_io w ?x L" ?len] len lpos obtain n where
    W: "watchers L1 = watchers L @ replicate n None" "length (watchers L1) = unat (nwatchers L1)"
      "length (watchers L1) \<le> 2 ^ 31" "unat ?len \<le> length (watchers L1)"
    by (auto simp: L1_def)
  have i: "?i < length (watchers L1)"
  proof -
    have "unat ?len = nat (uint ?len)" by simp
    also have "\<dots> = nat (?fd + 1)" by (simp only: ulen)
    finally show ?thesis using W(4) fd by linarith
  qed
  have old: "watchers L1 ! j = Some v \<longleftrightarrow> j < length (watchers L) \<and> watchers L ! j = Some v"
    if "j < length (watchers L1)" for j v
    using that by (simp add: W(1) nth_append)
  have wat1: "watched L1 = watched L"
    using old by (auto simp: watched_def) (auto simp: W(1) nth_append split: if_splits)
  let ?Q = "if w \<notin> set (watcher_queue L) then watcher_queue L @ [w] else watcher_queue L"
  let ?L2 = "L1\<lparr>watcher_queue := ?Q\<rparr>"
  have at: "watchers L1 ! ?i \<in> {None, Some w}"
    using ms i by (auto simp: may_start_def W(1) nth_append)
  define L' where "L' = (if watchers L1 ! ?i = None
    then ?L2\<lparr>watchers := (watchers L1)[?i := Some w], nfds := nfds L + 1\<rparr> else ?L2)"
  have ret: "uv__io_start L w e = Ret L'"
  proof -
    have q: "(if w \<notin> set (watcher_queue L1) then L1\<lparr>watcher_queue := watcher_queue L1 @ [w]\<rparr> else L1) = ?L2"
      using L1(3) by simp
    have f: "valid_events e \<and> 0 \<le> ?fd \<and> ?fd < INT_MAX" using ev fd by blast
    show ?thesis
      unfolding uv__io_start_def Let_def L1_def [symmetric] q L'_def assert_that_def
      using f by (simp add: L1(2))
  qed
  have wat: "watched L' = insert ?i (watched L)"
  proof (cases "watchers L1 ! ?i = None")
    case True
    then have "watched L' = watched (L1\<lparr>watchers := (watchers L1)[?i := Some w]\<rparr>)"
      by (intro watched_cong) (simp add: L'_def)
    then show ?thesis using watched_update(1) [OF i, of w] wat1 by simp
  next
    case False
    then have "L' = ?L2" by (simp only: L'_def if_False)
    then have "watched L' = watched L1" by (intro watched_cong) simp
    moreover have "?i \<in> watched L1" using False i by (simp add: watched_def)
    ultimately show ?thesis using wat1 by auto
  qed
  have ios: "ios L' = (ios L)(w := ?x)" by (simp add: L'_def L1)
  have tab: "watchers L' = (watchers L1)[?i := Some w]"
    using at by (auto simp: L'_def) (metis list_update_id)
  have nf: "nfds L' = of_nat (card (watched L'))"
  proof (cases "watchers L1 ! ?i = None")
    case True
    then have "?i \<notin> watched L1" by (simp add: watched_def)
    then have "?i \<notin> watched L" using wat1 by simp
    then show ?thesis using True inv wat by (simp add: L'_def io_inv_def L1)
  next
    case False
    then have "?i \<in> watched L1" using i by (simp add: watched_def)
    then have "?i \<in> watched L" using wat1 by simp
    then show ?thesis using False inv wat by (simp add: L'_def io_inv_def insert_absorb L1)
  qed
  have queue: "watcher_queue L' = ?Q" by (simp add: L'_def)
  have "io_inv L'"
    unfolding io_inv_def
  proof (intro conjI allI ballI impI)
    show "length (watchers L') = unat (nwatchers L')" "length (watchers L') \<le> 2 ^ 31"
      using W(2,3) by (simp_all add: L'_def)
    show "nfds L' = of_nat (card (watched L'))" by (rule nf)
    show "distinct (watcher_queue L')" using inv by (simp add: queue io_inv_def)
  next
    fix j v assume j: "j < length (watchers L')" "watchers L' ! j = Some v"
    have "j = ?i \<and> v = w \<or> j < length (watchers L) \<and> watchers L ! j = Some v"
      using j old [of j v] i by (cases "j = ?i") (auto simp: tab)
    moreover have "j = ?i" if "v = w" "j < length (watchers L)" "watchers L ! j = Some v"
      using ms that by (auto simp: may_start_def)
    moreover have "w_fd (ios L v) = int j \<and> w_pevents (ios L v) \<noteq> 0 \<and>
        (w_events (ios L v) \<noteq> w_pevents (ios L v) \<longrightarrow> v \<in> set (watcher_queue L))"
      if "j < length (watchers L)" "watchers L ! j = Some v"
      using inv that by (simp add: io_inv_def)
    ultimately show "w_fd (ios L' v) = int j" "w_pevents (ios L' v) \<noteq> 0"
      "w_events (ios L' v) \<noteq> w_pevents (ios L' v) \<Longrightarrow> v \<in> set (watcher_queue L')"
      using fd valid_events_or [OF ev] by (cases "v = w"; auto simp: ios queue)+
  next
    fix v assume "v \<in> set (watcher_queue L')"
    then have "v = w \<or> v \<in> set (watcher_queue L)" by (auto simp: queue split: if_splits)
    then show "\<exists>j < length (watchers L'). watchers L' ! j = Some v"
    proof
      assume "v = w"
      then show ?thesis using i by (intro exI [of _ ?i]) (simp add: tab)
    next
      assume "v \<in> set (watcher_queue L)"
      then obtain j where "j < length (watchers L)" "watchers L ! j = Some v"
        using inv unfolding io_inv_def by blast
      moreover from this have "j < length (watchers L1)" by (simp add: W(1))
      ultimately show ?thesis
        using old [of j v] at i by (intro exI [of _ j]) (cases "j = ?i"; auto simp: tab)
    qed
  qed
  moreover have "w \<in> set (watcher_queue L')" by (simp add: queue)
  ultimately show ?thesis using ret ios wat i by (intro exI [of _ L']) (simp add: tab)
qed

text \<open>
  Stopping: the events leave the mask; a watcher without events leaves the table and the queue
  and counts as unknown to the kernel.
\<close>

lemma stop_table:
  assumes inv: "io_inv L" and ev: "valid_events e"
    and i: "i < length (watchers L)" and at: "watchers L ! i = Some w"
  shows "\<exists>L'. uv__io_stop L w e = Ret L' \<and> io_inv L' \<and>
    w_pevents (ios L' w) = w_pevents (ios L w) AND NOT e \<and>
    watched L' = (if w_pevents (ios L w) AND NOT e = 0 then watched L - {i} else watched L)"
proof -
  let ?p = "w_pevents (ios L w) AND NOT e"
  let ?x = "(ios L w)\<lparr>w_pevents := ?p\<rparr>"
  have len: "length (watchers L) = unat (nwatchers L)" "length (watchers L) \<le> 2 ^ 31"
    using inv by (simp_all add: io_inv_def)
  have fd: "w_fd (ios L w) = int i" using inv i at by (simp add: io_inv_def)
  have iw: "i \<in> watched L" using i at by (simp add: watched_def)
  have "uint (word_of_int (int i) :: uint32) = int i"
    using i len(2) by (subst uint_word_of_int_eq) (simp add: take_bit_int_eq_self)
  then have small: "\<not> (word_of_int (int i) :: uint32) \<ge> nwatchers L"
  proof -
    have "uint (nwatchers L) = int (unat (nwatchers L))" by simp
    then have "int i < uint (nwatchers L)" using i len(1) by linarith
    with \<open>uint (word_of_int (int i) :: uint32) = int i\<close> show ?thesis by (simp only: word_le_def not_le)
  qed
  have only: "j = i" if "j < length (watchers L)" "watchers L ! j = Some w" for j
    using that fd inv by (auto simp: io_inv_def)
  have inQ: "v \<in> set (watcher_queue L) \<Longrightarrow> \<exists>j < length (watchers L). watchers L ! j = Some v" for v
    using inv unfolding io_inv_def by blast
  have entry: "w_fd (ios L v) = int j \<and> w_pevents (ios L v) \<noteq> 0 \<and>
      (w_events (ios L v) \<noteq> w_pevents (ios L v) \<longrightarrow> v \<in> set (watcher_queue L))"
    if "j < length (watchers L)" "watchers L ! j = Some v" for j v
    using inv that unfolding io_inv_def by blast
  have dq: "distinct (watcher_queue L)" and nf: "nfds L = of_nat (card (watched L))"
    using inv by (simp_all add: io_inv_def)
  show ?thesis
  proof (cases "?p = 0")
    case False
    let ?Q = "if w \<notin> set (watcher_queue L) then watcher_queue L @ [w] else watcher_queue L"
    let ?L' = "(set_io w ?x L)\<lparr>watcher_queue := ?Q\<rparr>"
    have ret: "uv__io_stop L w e = Ret ?L'"
      using ev fd small False by (simp add: uv__io_stop_def Let_def)
    have wat: "watched ?L' = watched L" by (intro watched_cong) simp
    have "io_inv ?L'"
      unfolding io_inv_def
    proof (intro conjI allI ballI impI)
      show "length (watchers ?L') = unat (nwatchers ?L')" "length (watchers ?L') \<le> 2 ^ 31"
        using len by simp_all
      show "nfds ?L' = of_nat (card (watched ?L'))" using nf wat by simp
      show "distinct (watcher_queue ?L')" using dq by simp
    next
      fix j v assume "j < length (watchers ?L')" "watchers ?L' ! j = Some v"
      then have "w_fd (ios L v) = int j \<and> w_pevents (ios L v) \<noteq> 0 \<and>
          (w_events (ios L v) \<noteq> w_pevents (ios L v) \<longrightarrow> v \<in> set (watcher_queue L))"
        using entry [of j v] by simp
      then show "w_fd (ios ?L' v) = int j" "w_pevents (ios ?L' v) \<noteq> 0"
        "w_events (ios ?L' v) \<noteq> w_pevents (ios ?L' v) \<Longrightarrow> v \<in> set (watcher_queue ?L')"
        using False by (cases "v = w"; auto)+
    next
      fix v assume "v \<in> set (watcher_queue ?L')"
      then have "v = w \<or> v \<in> set (watcher_queue L)" by (auto split: if_splits)
      then show "\<exists>j < length (watchers ?L'). watchers ?L' ! j = Some v"
        using inQ i at by auto
    qed
    then show ?thesis using ret wat False by (intro exI [of _ ?L']) simp
  next
    case True
    let ?L' = "set_io w (?x\<lparr>w_events := 0\<rparr>) (L\<lparr>watcher_queue := remove1 w (watcher_queue L),
        watchers := (watchers L)[i := None], nfds := nfds L - 1\<rparr>)"
    have pos: "nfds L > 0"
    proof -
      have "0 < card (watched L)" using iw by (simp add: card_gt_0_iff) blast
      moreover have "card (watched L) < 2 ^ 32" using card_watched [of L] len(2) by simp
      ultimately show ?thesis using nf by (simp add: word_less_nat_alt unat_of_nat)
    qed
    have ret: "uv__io_stop L w e = Ret ?L'"
      using ev fd small True at pos by (simp add: uv__io_stop_def Let_def set_io_def)
    have wat: "watched ?L' = watched L - {i}"
      using watched_update(2) [OF i] by (simp add: watched_def)
    have "io_inv ?L'"
      unfolding io_inv_def
    proof (intro conjI allI ballI impI)
      show "length (watchers ?L') = unat (nwatchers ?L')" "length (watchers ?L') \<le> 2 ^ 31"
        using len by simp_all
      show "nfds ?L' = of_nat (card (watched ?L'))"
        using nf wat iw of_nat_card_remove [OF finite_watched iw] by simp
      show "distinct (watcher_queue ?L')" using dq by simp
    next
      fix j v assume "j < length (watchers ?L')" "watchers ?L' ! j = Some v"
      then have jv: "j \<noteq> i" "j < length (watchers L)" "watchers L ! j = Some v"
        using i by (cases "j = i"; auto)+
      then have "v \<noteq> w" using only [of j] by auto
      with entry [OF jv(2,3)] show "w_fd (ios ?L' v) = int j" "w_pevents (ios ?L' v) \<noteq> 0"
        "w_events (ios ?L' v) \<noteq> w_pevents (ios ?L' v) \<Longrightarrow> v \<in> set (watcher_queue ?L')"
        by auto
    next
      fix v assume "v \<in> set (watcher_queue ?L')"
      then have v: "v \<noteq> w" "v \<in> set (watcher_queue L)" using dq by auto
      then obtain j where j: "j < length (watchers L)" "watchers L ! j = Some v" using inQ by blast
      have "j \<noteq> i" using j v at by auto
      with j show "\<exists>j < length (watchers ?L'). watchers ?L' ! j = Some v"
        by (intro exI [of _ j]) simp
    qed
    then show ?thesis using ret wat True by (intro exI [of _ ?L']) simp
  qed
qed


lemma init_io:
  assumes inv: "io_inv L" and "- 1 \<le> fd" and out: "\<And>i. i < length (watchers L) \<Longrightarrow> watchers L ! i \<noteq> Some w"
  shows "\<exists>L'. uv__io_init L w (Some c) fd = Ret L' \<and> io_inv L' \<and> watched L' = watched L \<and>
    ios L' w = \<lparr>w_cb = c, w_fd = fd, w_events = 0, w_pevents = 0\<rparr> \<and> watchers L' = watchers L"
proof -
  let ?L' = "set_io w \<lparr>w_cb = c, w_fd = fd, w_events = 0, w_pevents = 0\<rparr> L"
  have wat: "watched ?L' = watched L" by (intro watched_cong) simp
  have "io_inv ?L'"
    using inv out unfolding io_inv_def wat by auto
  then show ?thesis using assms(2) wat by (simp add: uv__io_init_def)
qed

text \<open>The ways in which the table changes.\<close>

inductive io_run :: "('m) io_loop_scheme \<Rightarrow> bool" where
  fresh: "watchers L = [] \<Longrightarrow> nwatchers L = 0 \<Longrightarrow> nfds L = 0 \<Longrightarrow> watcher_queue L = [] \<Longrightarrow> io_run L"
| init: "io_run L \<Longrightarrow> - 1 \<le> fd \<Longrightarrow> Some w \<notin> set (watchers L) \<Longrightarrow>
    uv__io_init L w (Some c) fd = Ret L' \<Longrightarrow> io_run L'"
| start: "io_run L \<Longrightarrow> valid_events e \<Longrightarrow> may_start L w \<Longrightarrow> uv__io_start L w e = Ret L' \<Longrightarrow> io_run L'"
| stop: "io_run L \<Longrightarrow> valid_events e \<Longrightarrow> Some w \<in> set (watchers L) \<Longrightarrow>
    uv__io_stop L w e = Ret L' \<Longrightarrow> io_run L'"

lemma io_run_inv: "io_run L \<Longrightarrow> io_inv L"
proof (induction rule: io_run.induct)
  case (fresh L)
  then show ?case by (simp add: io_inv_def watched_def)
next
  case (init L fd w c L')
  then have "\<And>i. i < length (watchers L) \<Longrightarrow> watchers L ! i \<noteq> Some w" by (metis nth_mem)
  from init_io [OF init.IH init.hyps(2) this, of c] init.hyps(4) show ?case by auto
next
  case (start L e w L')
  with watcher_start_ok [OF start.IH start.hyps(2,3)] show ?case by auto
next
  case (stop L e w L')
  then obtain i where "i < length (watchers L)" "watchers L ! i = Some w" by (auto simp: in_set_conv_nth)
  from stop_table [OF stop.IH stop.hyps(2) this] stop.hyps(4) show ?case by auto
qed

text \<open>
  The array of watchers grows to the least power of two that is large enough, for all
  lengths up to \<open>2^31\<close> (every descriptor plus one).
\<close>

theorem next_power_of_two_least:
  assumes "0 < v" and "uint v \<le> 2 ^ 31"
  shows "\<exists>k \<le> 31. uint (next_power_of_two v) = 2 ^ k \<and> uint v \<le> 2 ^ k \<and> (k = 0 \<or> 2 ^ (k - 1) < uint v)"
  by (rule next_power_least [OF assms])

theorem next_power_of_two_least_witness:
  "\<exists>k. uint (next_power_of_two 5) = 2 ^ k \<and> (5 :: int) \<le> 2 ^ k"
  using next_power_of_two_least [of 5] by auto

text \<open>
  C22. The watcher table never lies: in every state that a run of init, start and stop reaches,
  \<open>nfds\<close> is the number of descriptors watched, each entry sits at its own descriptor and asks
  for some event, and a watcher whose mask the kernel does not know yet waits in the queue of
  the poll. Starting a watcher on a free descriptor, and stopping it, do not trip an assert.
\<close>

theorem uv__io_table_consistent:
  assumes "io_run L"
  shows "nfds L = of_nat (card (watched L)) \<and> length (watchers L) = unat (nwatchers L) \<and>
    (\<forall>i < length (watchers L). \<forall>w. watchers L ! i = Some w \<longrightarrow>
       w_fd (ios L w) = int i \<and> w_pevents (ios L w) \<noteq> 0 \<and>
       (w_events (ios L w) \<noteq> w_pevents (ios L w) \<longrightarrow> w \<in> set (watcher_queue L))) \<and>
    (\<forall>e w. valid_events e \<longrightarrow> may_start L w \<longrightarrow>
       (\<exists>L'. uv__io_start L w e = Ret L' \<and> watchers L' ! nat (w_fd (ios L w)) = Some w)) \<and>
    (\<forall>e w. valid_events e \<longrightarrow> Some w \<in> set (watchers L) \<longrightarrow> (\<exists>L'. uv__io_stop L w e = Ret L'))"
proof -
  note inv = io_run_inv [OF assms]
  have "\<exists>L'. uv__io_start L w e = Ret L' \<and> watchers L' ! nat (w_fd (ios L w)) = Some w"
    if "valid_events e" "may_start L w" for e w
    using watcher_start_ok [OF inv that] by blast
  moreover have "\<exists>L'. uv__io_stop L w e = Ret L'" if "valid_events e" "Some w \<in> set (watchers L)" for e w
  proof -
    from that(2) obtain i where "i < length (watchers L)" "watchers L ! i = Some w"
      by (auto simp: in_set_conv_nth)
    from stop_table [OF inv that(1) this] show ?thesis by blast
  qed
  moreover have "nfds L = of_nat (card (watched L)) \<and> length (watchers L) = unat (nwatchers L) \<and>
      (\<forall>i < length (watchers L). \<forall>w. watchers L ! i = Some w \<longrightarrow>
         w_fd (ios L w) = int i \<and> w_pevents (ios L w) \<noteq> 0 \<and>
         (w_events (ios L w) \<noteq> w_pevents (ios L w) \<longrightarrow> w \<in> set (watcher_queue L)))"
    using inv unfolding io_inv_def by blast
  ultimately show ?thesis by blast
qed

definition empty_io :: "uint64 \<Rightarrow> 'm \<Rightarrow> 'm io_loop_scheme" where
  "empty_io now m =
     \<lparr>handles = (\<lambda>_. \<lparr>h_type = UV_UNKNOWN_HANDLE, h_flags = 0, h_close_cb = None\<rparr>),
      handle_queue = [], active_handles = 0, active_reqs = [], closing_handles = [],
      last_err = uv_ok_err, loop_time = now,
      timers = (\<lambda>_. \<lparr>timer_cb = None, timer_timeout = 0, timer_repeat = 0\<rparr>),
      timer_handles = RB_NULL,
      ios = (\<lambda>_. \<lparr>w_cb = 0, w_fd = - 1, w_events = 0, w_pevents = 0\<rparr>),
      watchers = [], nwatchers = 0, nfds = 0, watcher_queue = [], pending_queue = [], \<dots> = m\<rparr>"

lemma empty_io_run: "io_run (empty_io now m)"
  by (rule io_run.fresh) (simp_all add: empty_io_def)

text \<open>A watcher for reading on descriptor 3.\<close>

definition one_watcher :: "uint64 \<Rightarrow> 'm \<Rightarrow> 'm io_loop_scheme" where
  "one_watcher now m =
     (empty_io now m)\<lparr>ios := (ios (empty_io now m))(7 := \<lparr>w_cb = 2, w_fd = 3, w_events = 0, w_pevents = 1\<rparr>),
        watchers := [None, None, None, Some 7], nwatchers := 4, nfds := 1, watcher_queue := [7]\<rparr>"

lemma one_watcher_run: "io_run (one_watcher now m)"
proof -
  let ?L0 = "empty_io now m"
  let ?L1 = "set_io 7 \<lparr>w_cb = 2, w_fd = 3, w_events = 0, w_pevents = 0\<rparr> ?L0"
  have "uv__io_init ?L0 7 (Some 2) 3 = Ret ?L1" by (simp add: uv__io_init_def)
  then have run: "io_run ?L1"
    by (intro io_run.init [OF empty_io_run, of 3 7]) (simp_all add: empty_io_def)
  have np: "next_power_of_two 4 = 4" by code_simp
  have four: "replicate 4 (None :: nat option) = [None, None, None, None]"
    by (simp add: numeral_eq_Suc)
  have upd: "[None, None, None, None][3 := Some (7::nat)] = [None, None, None, Some 7]" by code_simp
  have nth: "[None, None, None, None :: nat option] ! 3 = None" by code_simp
  have "uv__io_start ?L1 7 1 = Ret (one_watcher now m)"
    by (simp add: uv__io_start_def Let_def maybe_resize_def np one_watcher_def valid_events_def
        empty_io_def set_io_def four upd nth)
  moreover have "valid_events 1" by (simp add: valid_events_def)
  moreover have "may_start ?L1 7" by (simp add: may_start_def empty_io_def)
  ultimately show ?thesis by (intro io_run.start [OF run, of 1 7])
qed

theorem uv__io_table_consistent_witness:
  "\<exists>L'. uv__io_stop (one_watcher 0 ()) 7 1 = Ret L'"
  using uv__io_table_consistent [OF one_watcher_run [of 0 "()"]]
  by (auto simp: one_watcher_def valid_events_def)

section \<open>Telling the kernel\<close>

text \<open>
  What \<open>epoll_ctl\<close> documents, for an interest list \<open>I\<close> in the state of the kernel: ADD of a new
  descriptor enters it, ADD of a known one fails with EEXIST, MOD of a known one replaces its
  mask.
\<close>

definition ctl_documented :: "'k epoll_kernel \<Rightarrow> ('k \<Rightarrow> int \<Rightarrow> uint32 option) \<Rightarrow> bool" where
  "ctl_documented K I \<longleftrightarrow>
     (\<forall>k fd ev. I k fd = None \<longrightarrow>
        fst (epoll_ctl K k UV__EPOLL_CTL_ADD fd ev) = 0 \<and>
        I (snd (epoll_ctl K k UV__EPOLL_CTL_ADD fd ev)) = (I k)(fd := Some ev)) \<and>
     (\<forall>k fd ev. I k fd \<noteq> None \<longrightarrow>
        fst (epoll_ctl K k UV__EPOLL_CTL_ADD fd ev) = EEXIST \<and>
        I (snd (epoll_ctl K k UV__EPOLL_CTL_ADD fd ev)) = I k \<and>
        fst (epoll_ctl K k UV__EPOLL_CTL_MOD fd ev) = 0 \<and>
        I (snd (epoll_ctl K k UV__EPOLL_CTL_MOD fd ev)) = (I k)(fd := Some ev))"

text \<open>The kernel knows what the loop believes it told it.\<close>

definition told :: "('k \<Rightarrow> int \<Rightarrow> uint32 option) \<Rightarrow> 'k \<Rightarrow> ('m) io_loop_scheme \<Rightarrow> nat \<Rightarrow> bool" where
  "told I k L w \<longleftrightarrow> w_events (ios L w) \<noteq> 0 \<longrightarrow> I k (w_fd (ios L w)) = Some (w_events (ios L w))"

lemma arm_ok:
  assumes ctl: "ctl_documented K I"
  shows "distinct ws \<Longrightarrow> inj_on (\<lambda>w. w_fd (ios L w)) (set ws) \<Longrightarrow> watcher_queue L = ws \<Longrightarrow>
    \<forall>w \<in> set ws. w_pevents (ios L w) \<noteq> 0 \<and> 0 \<le> w_fd (ios L w) \<and>
      w_fd (ios L w) < sint (nwatchers L) \<and> told I k L w \<Longrightarrow>
    \<exists>k' L'. io_arm K ws (k, L) = Ret (k', L') \<and>
      L' = L\<lparr>watcher_queue := [], ios := ios L'\<rparr> \<and>
      (\<forall>w \<in> set ws. I k' (w_fd (ios L w)) = Some (w_pevents (ios L w)) \<and>
         ios L' w = (ios L w)\<lparr>w_events := w_pevents (ios L w)\<rparr>) \<and>
      (\<forall>w. w \<notin> set ws \<longrightarrow> ios L' w = ios L w) \<and>
      (\<forall>fd. fd \<notin> (\<lambda>w. w_fd (ios L w)) ` set ws \<longrightarrow> I k' fd = I k fd)"
proof (induction ws arbitrary: k L)
  case Nil
  then show ?case by (intro exI [of _ k] exI [of _ L]) simp
next
  case (Cons w ws)
  let ?x = "ios L w"
  have w: "w_pevents ?x \<noteq> 0" "0 \<le> w_fd ?x" "w_fd ?x < sint (nwatchers L)" "told I k L w"
    using Cons.prems(4) by auto
  have fds: "w_fd ?x \<noteq> w_fd (ios L v)" if "v \<in> set ws" for v
    using Cons.prems(1,2) that by (force simp: inj_on_def)
  text \<open>After the step for \<open>w\<close>, the kernel state is \<open>k1\<close> and the mask is recorded.\<close>
  let ?L1 = "(set_io w (?x\<lparr>w_events := w_pevents ?x\<rparr>) L)\<lparr>watcher_queue := ws\<rparr>"
  obtain k1 where k1: "io_arm K (w # ws) (k, L) = io_arm K ws (k1, ?L1)"
      "I k1 = (I k)(w_fd ?x := Some (w_pevents ?x))"
  proof (cases "w_events ?x = w_pevents ?x")
    case True
    have "?x\<lparr>w_events := w_pevents ?x\<rparr> = ?x" using True by (metis uv__io.surjective uv__io.update_convs(3))
    then have "?L1 = L\<lparr>watcher_queue := ws\<rparr>" by (simp add: set_io_def)
    moreover have "I k (w_fd ?x) = Some (w_pevents ?x)" using w(1,4) True by (simp add: told_def)
    moreover from this have "I k = (I k)(w_fd ?x := Some (w_pevents ?x))" by (simp add: fun_upd_idem)
    ultimately show ?thesis using that [of k] w True by (simp add: Let_def)
  next
    case False
    let ?add = "epoll_ctl K k UV__EPOLL_CTL_ADD (w_fd ?x) (w_pevents ?x)"
    let ?mod = "epoll_ctl K k UV__EPOLL_CTL_MOD (w_fd ?x) (w_pevents ?x)"
    have L1: "set_io w (?x\<lparr>w_events := w_pevents ?x\<rparr>) (L\<lparr>watcher_queue := ws\<rparr>) = ?L1"
      by (simp add: set_io_def)
    show ?thesis
    proof (cases "w_events ?x = 0")
      case new: True
      show ?thesis
      proof (cases "I k (w_fd ?x)")
        case None
        with ctl have "fst ?add = 0" "I (snd ?add) = (I k)(w_fd ?x := Some (w_pevents ?x))"
          by (auto simp: ctl_documented_def)
        then show ?thesis
          using that [of "snd ?add"] w False new L1 by (simp add: Let_def split_beta)
      next
        case (Some m)
        with ctl have add: "fst ?add = EEXIST" "I (snd ?add) = I k"
          by (auto simp: ctl_documented_def)
        let ?mod2 = "epoll_ctl K (snd ?add) UV__EPOLL_CTL_MOD (w_fd ?x) (w_pevents ?x)"
        from ctl Some add(2) have "fst ?mod2 = 0" "I (snd ?mod2) = (I k)(w_fd ?x := Some (w_pevents ?x))"
          by (auto simp: ctl_documented_def)
        then show ?thesis
          using that [of "snd ?mod2"] w False new L1 add by (simp add: Let_def split_beta)
      qed
    next
      case old: False
      then have "I k (w_fd ?x) \<noteq> None" using w(4) by (simp add: told_def)
      with ctl have "fst ?mod = 0" "I (snd ?mod) = (I k)(w_fd ?x := Some (w_pevents ?x))"
        by (auto simp: ctl_documented_def)
      then show ?thesis
        using that [of "snd ?mod"] w False old L1 by (simp add: Let_def split_beta)
    qed
  qed
  have nw: "w \<notin> set ws" "distinct ws" using Cons.prems(1) by auto
  have ios: "ios ?L1 v = ios L v" if "v \<in> set ws" for v using that nw by auto
  have "inj_on (\<lambda>w. w_fd (ios ?L1 w)) (set ws)"
  proof -
    have "inj_on (\<lambda>w. w_fd (ios L w)) (set ws)" using Cons.prems(2) by simp
    then show ?thesis using ios by (subst inj_on_cong [where g = "\<lambda>w. w_fd (ios L w)"]) simp_all
  qed
  moreover have "\<forall>v \<in> set ws. w_pevents (ios ?L1 v) \<noteq> 0 \<and> 0 \<le> w_fd (ios ?L1 v) \<and>
      w_fd (ios ?L1 v) < sint (nwatchers ?L1) \<and> told I k1 ?L1 v"
  proof
    fix v assume v: "v \<in> set ws"
    then have "told I k L v" using Cons.prems(4) by simp
    then have "told I k1 ?L1 v" using fds [OF v] ios [OF v] k1(2) by (simp add: told_def)
    then show "w_pevents (ios ?L1 v) \<noteq> 0 \<and> 0 \<le> w_fd (ios ?L1 v) \<and>
        w_fd (ios ?L1 v) < sint (nwatchers ?L1) \<and> told I k1 ?L1 v"
      using Cons.prems(4) v ios [OF v] by simp
  qed
  ultimately obtain k' L' where IH: "io_arm K ws (k1, ?L1) = Ret (k', L')"
      "L' = ?L1\<lparr>watcher_queue := [], ios := ios L'\<rparr>"
      "\<forall>v \<in> set ws. I k' (w_fd (ios ?L1 v)) = Some (w_pevents (ios ?L1 v)) \<and>
         ios L' v = (ios ?L1 v)\<lparr>w_events := w_pevents (ios ?L1 v)\<rparr>"
      "\<forall>v. v \<notin> set ws \<longrightarrow> ios L' v = ios ?L1 v"
      "\<forall>fd. fd \<notin> (\<lambda>v. w_fd (ios ?L1 v)) ` set ws \<longrightarrow> I k' fd = I k1 fd"
    using Cons.IH [OF nw(2), of ?L1 k1] by auto
  have img: "(\<lambda>v. w_fd (ios ?L1 v)) ` set ws = (\<lambda>v. w_fd (ios L v)) ` set ws"
    using ios by (intro image_cong) simp_all
  have here: "I k' (w_fd ?x) = Some (w_pevents ?x)"
  proof -
    have "w_fd ?x \<notin> (\<lambda>v. w_fd (ios ?L1 v)) ` set ws" unfolding img using fds by auto
    with IH(5) k1(2) show ?thesis by simp
  qed
  have "L' = L\<lparr>watcher_queue := [], ios := ios L'\<rparr>"
    by (subst IH(2)) (simp add: set_io_def)
  moreover have "\<forall>v \<in> set (w # ws). I k' (w_fd (ios L v)) = Some (w_pevents (ios L v)) \<and>
      ios L' v = (ios L v)\<lparr>w_events := w_pevents (ios L v)\<rparr>"
    using IH(3,4) ios here nw(1) by simp
  moreover have "\<forall>v. v \<notin> set (w # ws) \<longrightarrow> ios L' v = ios L v" using IH(4) by simp
  moreover have "\<forall>fd. fd \<notin> (\<lambda>v. w_fd (ios L v)) ` set (w # ws) \<longrightarrow> I k' fd = I k fd"
    using IH(5) k1(2) unfolding img by simp
  ultimately show ?case using k1(1) IH(1) by (intro exI [of _ k'] exI [of _ L']) simp
qed

text \<open>
  C23. The poll tells the kernel exactly what the table asks for. After any run of the watcher
  operations, and when the kernel's interest list holds what the loop told it before, the first
  phase of \<open>uv__io_poll\<close> does not abort, drains the queue of changed watchers, and leaves
  every registered watcher with its requested mask both in the kernel and in its own record.
  (The table holds fewer than 2^31 places: the code compares descriptors with its length
  as an int.) It adds, modifies, and recovers from EEXIST as needed. The kernel refuses nothing
  else: on any other error of \<open>epoll_ctl\<close> (EPERM, ENOMEM, ENOSPC) the code aborts.
\<close>

theorem uv__io_poll_arms:
  assumes "io_run L" and "ctl_documented K I"
    and "\<forall>w. Some w \<in> set (watchers L) \<longrightarrow> told I k L w" and "length (watchers L) < 2 ^ 31"
  shows "\<exists>k' L'. io_arm K (watcher_queue L) (k, L) = Ret (k', L') \<and> watcher_queue L' = [] \<and>
    watchers L' = watchers L \<and>
    (\<forall>w. Some w \<in> set (watchers L) \<longrightarrow>
       w_events (ios L' w) = w_pevents (ios L w) \<and> w_pevents (ios L' w) = w_pevents (ios L w) \<and>
       I k' (w_fd (ios L w)) = Some (w_pevents (ios L w)))"
proof -
  note inv = io_run_inv [OF assms(1)]
  have place: "\<exists>i < length (watchers L). watchers L ! i = Some w \<and> w_fd (ios L w) = int i \<and>
      w_pevents (ios L w) \<noteq> 0" if "Some w \<in> set (watchers L)" for w
    using that inv unfolding io_inv_def in_set_conv_nth by metis
  have queued: "Some w \<in> set (watchers L)" if "w \<in> set (watcher_queue L)" for w
  proof -
    from inv that obtain i where "i < length (watchers L)" "watchers L ! i = Some w"
      unfolding io_inv_def by blast
    then show ?thesis by (metis nth_mem)
  qed
  have fd_inj: "w = v" if "Some w \<in> set (watchers L)" "Some v \<in> set (watchers L)"
      "w_fd (ios L w) = w_fd (ios L v)" for w v
    using place [OF that(1)] place [OF that(2)] that(3) by auto
  have len: "int (length (watchers L)) = uint (nwatchers L)"
  proof -
    have "length (watchers L) = unat (nwatchers L)" using inv unfolding io_inv_def by blast
    then show ?thesis by simp
  qed
  have "int (length (watchers L)) < 2147483648" using assms(4) by simp
  with len have "uint (nwatchers L) < 2147483648" by linarith
  with len have "sint (nwatchers L) = int (length (watchers L))"
    using sint_small [of "nwatchers L"] by simp
  then have bound: "int i < sint (nwatchers L)" if "i < length (watchers L)" for i
    using that by simp
  have "distinct (watcher_queue L)" using inv unfolding io_inv_def by blast
  moreover have "inj_on (\<lambda>w. w_fd (ios L w)) (set (watcher_queue L))"
    using fd_inj queued by (auto simp: inj_on_def)
  moreover have "\<forall>w \<in> set (watcher_queue L). w_pevents (ios L w) \<noteq> 0 \<and> 0 \<le> w_fd (ios L w) \<and>
      w_fd (ios L w) < sint (nwatchers L) \<and> told I k L w"
  proof
    fix w assume "w \<in> set (watcher_queue L)"
    from queued [OF this] have w: "Some w \<in> set (watchers L)" .
    from place [OF w] bound assms(3) w show "w_pevents (ios L w) \<noteq> 0 \<and> 0 \<le> w_fd (ios L w) \<and>
        w_fd (ios L w) < sint (nwatchers L) \<and> told I k L w" by auto
  qed
  ultimately obtain k' L' where arm: "io_arm K (watcher_queue L) (k, L) = Ret (k', L')"
      "L' = L\<lparr>watcher_queue := [], ios := ios L'\<rparr>"
      "\<forall>w \<in> set (watcher_queue L). I k' (w_fd (ios L w)) = Some (w_pevents (ios L w)) \<and>
         ios L' w = (ios L w)\<lparr>w_events := w_pevents (ios L w)\<rparr>"
      "\<forall>w. w \<notin> set (watcher_queue L) \<longrightarrow> ios L' w = ios L w"
      "\<forall>fd. fd \<notin> (\<lambda>w. w_fd (ios L w)) ` set (watcher_queue L) \<longrightarrow> I k' fd = I k fd"
    using arm_ok [OF assms(2), of "watcher_queue L" L k] by blast
  have "w_events (ios L' w) = w_pevents (ios L w) \<and> w_pevents (ios L' w) = w_pevents (ios L w) \<and>
      I k' (w_fd (ios L w)) = Some (w_pevents (ios L w))" if w: "Some w \<in> set (watchers L)" for w
  proof (cases "w \<in> set (watcher_queue L)")
    case True
    with arm(3) show ?thesis by simp
  next
    case False
    have same: "w_events (ios L w) = w_pevents (ios L w)"
      using place [OF w] inv False unfolding io_inv_def by blast
    have "w_fd (ios L w) \<notin> (\<lambda>w. w_fd (ios L w)) ` set (watcher_queue L)"
      using fd_inj [OF w queued] False by auto
    with arm(4,5) False same assms(3) w place [OF w] show ?thesis by (auto simp: told_def)
  qed
  moreover have "watcher_queue L' = []" "watchers L' = watchers L" by (subst arm(2), simp)+
  ultimately show ?thesis using arm(1) by blast
qed

text \<open>A kernel that is nothing but its interest list.\<close>

definition list_kernel :: "(int \<Rightarrow> uint32 option) epoll_kernel" where
  "list_kernel = \<lparr>
     epoll_ctl = (\<lambda>k op fd ev.
       case op of
         UV__EPOLL_CTL_ADD \<Rightarrow> if k fd = None then (0, k(fd := Some ev)) else (EEXIST, k)
       | UV__EPOLL_CTL_MOD \<Rightarrow> if k fd = None then (ENOENT, k) else (0, k(fd := Some ev))
       | UV__EPOLL_CTL_DEL \<Rightarrow> if k fd = None then (ENOENT, k) else (0, k(fd := None))),
     epoll_wait = (\<lambda>k t. (Inr [], k)), hrtime_ms = (\<lambda>k. 0)\<rparr>"

lemma list_kernel_documented: "ctl_documented list_kernel (\<lambda>k. k)"
  by (simp add: ctl_documented_def list_kernel_def)

theorem uv__io_poll_arms_witness:
  "\<exists>k' L'. io_arm list_kernel [7] (Map.empty, one_watcher 0 ()) = Ret (k', L') \<and> k' 3 = Some 1"
proof -
  have "\<forall>w. Some w \<in> set (watchers (one_watcher 0 ())) \<longrightarrow> told (\<lambda>k. k) Map.empty (one_watcher 0 ()) w"
    by (simp add: told_def one_watcher_def)
  from uv__io_poll_arms [OF one_watcher_run list_kernel_documented this] show ?thesis
    by (force simp: one_watcher_def)
qed

section \<open>Waiting\<close>

lemma io_again_keeps:
  "io_again base now count t x = Ret (Poll_again c u y) \<Longrightarrow> c = count \<and> 0 < t"
  by (auto simp: io_again_def io_rest_def obind_eq_Ret Let_def split: option.splits if_splits)

lemma io_round_zero_goes_on:
  assumes "io_round K cb base count 0 x = Ret (Poll_again c t y)"
  shows "t = 0 \<and> c = count - 1 \<and> count - 1 \<noteq> 0"
  using assms
  by (auto simp: io_round_def Let_def obind_eq_Ret split: prod.splits sum.splits if_splits)

lemma io_wait_zero_returns: "io_wait K cb base count 0 x \<noteq> None"
proof (induction count arbitrary: x rule: less_induct)
  case (less count)
  show ?case
  proof (cases "io_round K cb base count 0 x")
    case (Ret r)
    then show ?thesis
    proof (cases r)
      case (Poll_again c t y)
      with Ret io_round_zero_goes_on [of K cb base count x] have "t = 0" "c < count" by auto
      with Ret Poll_again less [of c y] show ?thesis by (subst io_wait.simps) simp
    qed (subst io_wait.simps, simp)
  qed (subst io_wait.simps, simp)+
qed

text \<open>
  C31. A poll that must not block returns: with timeout 0, \<open>uv__io_poll\<close> comes back whatever
  the kernel answers (any number of full event arrays, interruptions, unknown descriptors) and
  whatever the callbacks do; the counter of 48 bounds the rounds.
\<close>

theorem uv__io_poll_zero_returns: "uv__io_poll K cb 0 x \<noteq> None"
  using io_wait_zero_returns [of K cb _ 48]
  by (auto simp: uv__io_poll_def Let_def split: prod.splits outcome.splits)

text \<open>
  An interrupted wait: \<open>base\<close> stays at the start of the poll while \<open>timeout\<close> is reduced by
  the time since then, so that the second interruption takes the first stretch off once more.
\<close>

lemma io_rest_double_count:
  assumes "0 < t" "t < 2 ^ 31" "0 < d1" "d1 \<le> d2" "d2 < t" "t \<le> d1 + d2"
    and "uint base + d2 < 2 ^ 64"
  shows "\<exists>t'. io_rest base (base + word_of_int d1) t = Ret (Some t') \<and> 0 < t' \<and>
    io_rest base (base + word_of_int d2) t' = Ret None"
proof -
  have u: "uint (word_of_int d :: uint64) = d" if "0 \<le> d" "d < 2 ^ 31" for d
    using that by (simp add: uint_word_of_int take_bit_int_eq_self)
  have le: "base \<le> base + word_of_int d" if "0 \<le> d" "d \<le> d2" for d
  proof -
    have "uint (base + word_of_int d) = uint base + d"
      using that assms u [of d] by (subst uint_plus_if_size) (simp add: word_size)
    with that show ?thesis by (simp add: word_le_def)
  qed
  have sub: "uint (word_of_int t - word_of_int d1 :: uint64) = t - d1"
    using assms u [of t] u [of d1] by (subst uint_sub_if_size) simp
  have s: "sint (ucast (word_of_int t - word_of_int d1 :: uint64) :: uint32) = t - d1"
  proof -
    have "uint (ucast (word_of_int t - word_of_int d1 :: uint64) :: uint32) = t - d1"
      using assms sub by (simp add: unsigned_ucast_eq take_bit_int_eq_self)
    then show ?thesis using assms by (subst sint_small) simp_all
  qed
  have "\<not> (word_of_int t :: uint64) \<le> word_of_int d1"
    using assms u [of t] u [of d1] by (simp add: word_le_def)
  moreover have "(word_of_int (t - d1) :: uint64) \<le> word_of_int d2"
    using assms u [of "t - d1"] u [of d2] by (simp add: word_le_def)
  ultimately show ?thesis
    using assms s le [of d1] le [of d2] by (intro exI [of _ "t - d1"]) (simp add: io_rest_def)
qed

end
