(* ===== verification/Sys.thy ===== *)
theory Sys
  imports Io
begin

text \<open>
  System calls and the functions of \<open>src/unix/core.c\<close> and \<open>src/unix/process.c\<close> that wrap
  them: sockets, accepted connections, pipes and their descriptor flags.

  The kernel is not modelled. Its answers are a script, one answer for each call in order, and
  the calls are recorded with the answers they got. A call that finds the script empty is
  still waiting (\<open>Starve\<close>). The variables \<open>no_accept4\<close>, \<open>no_cloexec\<close> and \<open>no_pipe2\<close> are the
  static locals that remember which calls the kernel lacks.
\<close>

section \<open>Calls and answers\<close>

text \<open>
  An answer is an error with its \<open>errno\<close>, a number, a pair of descriptors, or the length of a
  message with the descriptors that came with it.
\<close>

type_synonym byte = "8 word"

abbreviation (input) SOCK_STREAM :: int where "SOCK_STREAM \<equiv> 1"
abbreviation (input) SOCK_NONBLOCK :: uint32 where "SOCK_NONBLOCK \<equiv> 0x800"
abbreviation (input) SOCK_CLOEXEC :: uint32 where "SOCK_CLOEXEC \<equiv> 0x80000"
abbreviation (input) AF_UNIX :: int where "AF_UNIX \<equiv> 1"
abbreviation (input) UV__F_NONBLOCK :: uint32 where "UV__F_NONBLOCK \<equiv> 0x800"

datatype (plugins only: code size) sysc =
    Sys_socket int uint32 int
  | Sys_accept4 int uint32
  | Sys_accept int
  | Sys_fionbio int bool
  | Sys_fioclex int bool
  | Sys_close int
  | Sys_dup int
  | Sys_dup2 int int
  | Sys_open string uint32
  | Sys_socketpair uint32
  | Sys_pipe2 uint32
  | Sys_pipe
  | Sys_getcwd nat
  | Sys_chdir string
  | Sys_epoll_create1 uint32
  | Sys_epoll_create
  | Sys_read int nat
  | Sys_write int "byte list"
  | Sys_writev int "byte list list"
  | Sys_sendmsg int "byte list list" int
  | Sys_sendto int "byte list list" string
  | Sys_recvmsg int nat
  | Sys_connect int string
  | Sys_bind int string
  | Sys_listen int int
  | Sys_shutdown int
  | Sys_getsockopt int int
  | Sys_setsockopt int int int
  | Sys_getsockname int
  | Sys_getpeername int
  | Sys_unlink string
  | Sys_fork
  | Sys_waitpid
  | Sys_kill int int
  | Sys_setsid
  | Sys_setgid int
  | Sys_setuid int
  | Sys_execvp string
  | Sys_exit int
  | Sys_sigaction int bool
  | Sys_inotify_init1 uint32
  | Sys_inotify_init
  | Sys_inotify_add_watch int string uint32
  | Sys_inotify_rm_watch int int
  | Sys_tcgetattr int
  | Sys_tcsetattr int int
  | Sys_tiocgwinsz int
  | Sys_isatty int
  | Sys_fstat int
  | Sys_file string "int list" "string list"
  | Sys_pread int nat int
  | Sys_pwrite int "byte list" int
  | Sys_sendfile int int int nat
  | Sys_poll int

datatype (plugins only: code size) answer = Err int | Val int | Fds int int | Msg int "int list"

record os =
  script :: "answer list"
  calls :: "(sysc \<times> answer) list"
  no_accept4 :: bool
  no_cloexec :: bool
  no_pipe2 :: bool

definition sys :: "sysc \<Rightarrow> os \<Rightarrow> (answer \<times> os) outcome" where
  "sys c s =
     (case script s of
        [] \<Rightarrow> Starve
      | r # rs \<Rightarrow> Ret (r, s\<lparr>script := rs, calls := calls s @ [(c, r)]\<rparr>))"

text \<open>The loop \<open>do r = call; while (r == -1 && errno == EINTR)\<close>.\<close>

primrec sys_retry_on :: "sysc \<Rightarrow> answer list \<Rightarrow> os \<Rightarrow> (answer \<times> os) outcome" where
  "sys_retry_on c [] s = Starve"
| "sys_retry_on c (r # rs) s =
     (let s = s\<lparr>script := rs, calls := calls s @ [(c, r)]\<rparr>
      in if r = Err EINTR then sys_retry_on c rs s else Ret (r, s))"

definition sys_retry :: "sysc \<Rightarrow> os \<Rightarrow> (answer \<times> os) outcome" where
  "sys_retry c s = sys_retry_on c (script s) s"

primrec failed :: "answer \<Rightarrow> bool" where
  "failed (Err e) = True"
| "failed (Val n) = False"
| "failed (Fds a b) = False"
| "failed (Msg n fds) = False"

text \<open>A loop in a process: \<open>on_os\<close> makes a call of the operating system from it.\<close>

record net_loop = io_loop +
  osys :: os

definition on_os :: "(os \<Rightarrow> ('a \<times> os) outcome) \<Rightarrow> ('m) net_loop_scheme \<Rightarrow> ('a \<times> ('m) net_loop_scheme) outcome" where
  "on_os f L = obind (f (osys L)) (\<lambda>(r, s). Ret (r, L\<lparr>osys := s\<rparr>))"

section \<open>Descriptor flags\<close>

definition uv__nonblock :: "int \<Rightarrow> bool \<Rightarrow> os \<Rightarrow> (answer \<times> os) outcome" where
  "uv__nonblock fd on s = sys_retry (Sys_fionbio fd on) s"

definition uv__cloexec :: "int \<Rightarrow> bool \<Rightarrow> os \<Rightarrow> (answer \<times> os) outcome" where
  "uv__cloexec fd on s = sys_retry (Sys_fioclex fd on) s"

text \<open>
  \<open>if (first(fd, 1) || second(fd, 1)) { close(fd); fd = -1; }\<close>: the second call is not made
  when the first one fails. \<open>close\<close> may overwrite \<open>errno\<close>.
\<close>

definition close_if_failed :: "int \<Rightarrow> (os \<Rightarrow> (answer \<times> os) outcome) \<Rightarrow>
    (os \<Rightarrow> (answer \<times> os) outcome) \<Rightarrow> os \<Rightarrow> (answer \<times> os) outcome" where
  "close_if_failed fd first second s =
     obind (first s) (\<lambda>(r1, s).
     obind (if failed r1 then Ret (r1, s) else second s) (\<lambda>(r2, s).
       if failed r2
       then obind (sys (Sys_close fd) s) (\<lambda>(r3, s). Ret (if failed r3 then r3 else r2, s))
       else Ret (Val fd, s)))"

section \<open>Sockets\<close>

definition uv__socket :: "int \<Rightarrow> uint32 \<Rightarrow> int \<Rightarrow> os \<Rightarrow> (answer \<times> os) outcome" where
  "uv__socket family type protocol s =
     obind (sys (Sys_socket family (type OR SOCK_NONBLOCK OR SOCK_CLOEXEC) protocol) s) (\<lambda>(r, s).
       if r \<noteq> Err EINVAL then Ret (r, s)
       else obind (sys (Sys_socket family type protocol) s) (\<lambda>(r, s).
         case r of
           Val fd \<Rightarrow> close_if_failed fd (uv__nonblock fd True) (uv__cloexec fd True) s
         | _ \<Rightarrow> Ret (r, s)))"

text \<open>The loop of \<open>uv__accept\<close>, along the script; each turn makes at least one call.\<close>

definition accept_flags :: "int \<Rightarrow> os \<Rightarrow> (answer \<times> os) outcome" where
  "accept_flags fd s = close_if_failed fd (uv__cloexec fd True) (uv__nonblock fd True) s"

primrec accept_loop :: "int \<Rightarrow> answer list \<Rightarrow> os \<Rightarrow> (answer \<times> os) outcome" where
  "accept_loop fd [] s = Starve"
| "accept_loop fd (r # rs) s =
     (if no_accept4 s
      then let s = s\<lparr>script := rs, calls := calls s @ [(Sys_accept fd, r)]\<rparr>
           in case r of
                Val peer \<Rightarrow> accept_flags peer s
              | _ \<Rightarrow> if r = Err EINTR then accept_loop fd rs s else Ret (r, s)
      else let s = s\<lparr>script := rs, calls := calls s @ [(Sys_accept4 fd (SOCK_NONBLOCK OR SOCK_CLOEXEC), r)]\<rparr>
           in case r of
                Val peer \<Rightarrow> Ret (r, s)
              | _ \<Rightarrow> if r = Err EINTR then accept_loop fd rs s
                     else if r \<noteq> Err ENOSYS then Ret (r, s)
                     else accept_loop fd rs (s\<lparr>no_accept4 := True\<rparr>))"

definition uv__accept :: "int \<Rightarrow> os \<Rightarrow> (answer \<times> os) outcome" where
  "uv__accept fd s = assert_that (0 \<le> fd) (accept_loop fd (script s) s)"

definition uv__dup :: "int \<Rightarrow> os \<Rightarrow> (answer \<times> os) outcome" where
  "uv__dup fd s =
     obind (sys (Sys_dup fd) s) (\<lambda>(r, s).
       case r of
         Val fd \<Rightarrow>
           obind (uv__cloexec fd True s) (\<lambda>(r, s).
             if failed r then obind (sys (Sys_close fd) s) (\<lambda>(_, s). Ret (r, s))
             else Ret (Val fd, s))
       | _ \<Rightarrow> Ret (r, s))"

section \<open>Pipes\<close>

text \<open>The answers to the flag calls are not looked at.\<close>

definition mark_pair :: "int \<Rightarrow> int \<Rightarrow> uint32 \<Rightarrow> os \<Rightarrow> (answer \<times> os) outcome" where
  "mark_pair a b flags s =
     obind (uv__cloexec a True s) (\<lambda>(_, s).
     obind (uv__cloexec b True s) (\<lambda>(_, s).
       if flags AND UV__F_NONBLOCK \<noteq> 0
       then obind (uv__nonblock a True s) (\<lambda>(_, s).
            obind (uv__nonblock b True s) (\<lambda>(_, s). Ret (Fds a b, s)))
       else Ret (Fds a b, s)))"

definition uv__make_socketpair :: "uint32 \<Rightarrow> os \<Rightarrow> (answer \<times> os) outcome" where
  "uv__make_socketpair flags s =
     (let plain = (\<lambda>s. obind (sys (Sys_socketpair 0) s) (\<lambda>(r, s).
        case r of Fds a b \<Rightarrow> mark_pair a b flags s | _ \<Rightarrow> Ret (r, s)))
      in if no_cloexec s then plain s
         else obind (sys (Sys_socketpair (SOCK_CLOEXEC OR flags)) s) (\<lambda>(r, s).
           if r \<noteq> Err EINVAL then Ret (r, s) else plain (s\<lparr>no_cloexec := True\<rparr>)))"

definition uv__make_pipe :: "uint32 \<Rightarrow> os \<Rightarrow> (answer \<times> os) outcome" where
  "uv__make_pipe flags s =
     (let plain = (\<lambda>s. obind (sys Sys_pipe s) (\<lambda>(r, s).
        case r of Fds a b \<Rightarrow> mark_pair a b flags s | _ \<Rightarrow> Ret (r, s)))
      in if no_pipe2 s then plain s
         else obind (sys (Sys_pipe2 (SOCK_CLOEXEC OR flags)) s) (\<lambda>(r, s).
           if r \<noteq> Err ENOSYS then Ret (r, s) else plain (s\<lparr>no_pipe2 := True\<rparr>)))"

section \<open>Directories, strings, inherited descriptors\<close>

definition uv_cwd :: "bool \<Rightarrow> nat \<Rightarrow> os \<Rightarrow> (uv_err \<times> os) outcome" where
  "uv_cwd buffer n s =
     (if \<not> buffer \<or> n = 0 then Ret (uv__new_artificial_error UV_EINVAL, s)
      else obind (sys (Sys_getcwd n) s) (\<lambda>(r, s).
        Ret (case r of Err e \<Rightarrow> uv__new_sys_error e | _ \<Rightarrow> uv_ok_err, s)))"

definition uv_chdir :: "string \<Rightarrow> os \<Rightarrow> (uv_err \<times> os) outcome" where
  "uv_chdir dir s =
     obind (sys (Sys_chdir dir) s) (\<lambda>(r, s).
       Ret (case r of Err e \<Rightarrow> uv__new_sys_error e | _ \<Rightarrow> uv_ok_err, s))"

text \<open>The loop \<open>for (fd = 0; ; fd++) if (uv__cloexec(fd, 1) && fd > 15) break\<close>, with the retry of
  \<open>uv__cloexec\<close>, along the script.\<close>

primrec disable_from :: "nat \<Rightarrow> answer list \<Rightarrow> os \<Rightarrow> os outcome" where
  "disable_from fd [] s = Starve"
| "disable_from fd (r # rs) s =
     (let s = s\<lparr>script := rs, calls := calls s @ [(Sys_fioclex (int fd) True, r)]\<rparr>
      in if r = Err EINTR then disable_from fd rs s
         else if failed r \<and> 15 < fd then Ret s
         else disable_from (Suc fd) rs s)"

definition uv_disable_stdio_inheritance :: "os \<Rightarrow> os outcome" where
  "uv_disable_stdio_inheritance s = disable_from 0 (script s) s"

text \<open>
  \<open>uv__strlcpy\<close> on the C string \<open>src\<close> (its characters without the NUL): the characters it
  writes to \<open>dst\<close>, the NUL included, and the result.
\<close>

fun strlcpy_loop :: "string \<Rightarrow> nat \<Rightarrow> string \<Rightarrow> string" where
  "strlcpy_loop dst n src =
     (if n - 1 = 0 \<or> src = [] then dst @ [CHR 0x00]
      else strlcpy_loop (dst @ [hd src]) (n - 1) (tl src))"

declare strlcpy_loop.simps [simp del]

definition uv__strlcpy :: "string \<Rightarrow> nat \<Rightarrow> string \<times> nat" where
  "uv__strlcpy src n =
     (if n = 0 then ([], 0)
      else let dst = strlcpy_loop [] n src in (dst, length dst - 1))"

text \<open>
  \<open>uv_strlcpy\<close> and \<open>uv_strlcat\<close> of \<open>src/uv-common.c\<close>; \<open>out\<close> is what the destination holds so far,
  and \<open>dst\<close> the contents of its buffer.
\<close>

fun copy_for :: "nat \<Rightarrow> nat \<Rightarrow> string \<Rightarrow> string \<Rightarrow> string \<times> nat" where
  "copy_for k n [] out = (out @ [CHR 0x00], k)"
| "copy_for k n (c # cs) out = (if k < n - 1 then copy_for (Suc k) n cs (out @ [c]) else (out @ [CHR 0x00], k))"

definition uv_strlcpy :: "string \<Rightarrow> nat \<Rightarrow> string \<times> nat" where
  "uv_strlcpy src n = (if n = 0 then ([], 0) else copy_for 0 n src [])"

fun scan_nul :: "nat \<Rightarrow> nat \<Rightarrow> string \<Rightarrow> nat" where
  "scan_nul k n [] = k"
| "scan_nul k n (c # cs) = (if k < n \<and> c \<noteq> CHR 0x00 then scan_nul (Suc k) n cs else k)"

definition uv_strlcat :: "string \<Rightarrow> string \<Rightarrow> nat \<Rightarrow> string \<times> nat" where
  "uv_strlcat dst src n =
     (if n = 0 then (dst, 0)
      else let k = scan_nul 0 n dst
           in if k = n then (dst, k)
              else case copy_for k n src (take k dst) of
                (out, m) \<Rightarrow> (out @ drop (length out) dst, m))"

section \<open>What the calls leave behind\<close>

text \<open>
  The descriptors that a sequence of calls obtained from the kernel and did not close, and
  those among them that the calls made non-blocking and close-on-exec.
\<close>

definition obtained :: "sysc \<times> answer \<Rightarrow> int set" where
  "obtained x =
     (case fst x of
        Sys_socket f t p \<Rightarrow> (case snd x of Val fd \<Rightarrow> {fd} | _ \<Rightarrow> {})
      | Sys_accept4 l fl \<Rightarrow> (case snd x of Val fd \<Rightarrow> {fd} | _ \<Rightarrow> {})
      | Sys_accept l \<Rightarrow> (case snd x of Val fd \<Rightarrow> {fd} | _ \<Rightarrow> {})
      | Sys_dup old \<Rightarrow> (case snd x of Val fd \<Rightarrow> {fd} | _ \<Rightarrow> {})
      | Sys_socketpair fl \<Rightarrow> (case snd x of Fds a b \<Rightarrow> {a, b} | _ \<Rightarrow> {})
      | Sys_pipe2 fl \<Rightarrow> (case snd x of Fds a b \<Rightarrow> {a, b} | _ \<Rightarrow> {})
      | Sys_pipe \<Rightarrow> (case snd x of Fds a b \<Rightarrow> {a, b} | _ \<Rightarrow> {})
      | _ \<Rightarrow> {})"

definition released :: "sysc \<Rightarrow> int set" where
  "released c = (case c of Sys_close fd \<Rightarrow> {fd} | _ \<Rightarrow> {})"

definition call_effect :: "sysc \<times> answer \<Rightarrow> int set \<Rightarrow> int set" where
  "call_effect x S = (S \<union> obtained x) - released (fst x)"

definition left_open :: "(sysc \<times> answer) list \<Rightarrow> int set" where
  "left_open tr = fold call_effect tr {}"

definition called_ok :: "(sysc \<times> answer) list \<Rightarrow> sysc \<Rightarrow> bool" where
  "called_ok tr c \<longleftrightarrow> (\<exists>r. (c, r) \<in> set tr \<and> \<not> failed r)"

definition born_marked :: "(sysc \<times> answer) list \<Rightarrow> int \<Rightarrow> bool" where
  "born_marked tr fd \<longleftrightarrow>
     (\<exists>f t p. (Sys_socket f (t OR SOCK_NONBLOCK OR SOCK_CLOEXEC) p, Val fd) \<in> set tr) \<or>
     (\<exists>l. (Sys_accept4 l (SOCK_NONBLOCK OR SOCK_CLOEXEC), Val fd) \<in> set tr)"

definition marked :: "(sysc \<times> answer) list \<Rightarrow> int \<Rightarrow> bool" where
  "marked tr fd \<longleftrightarrow> born_marked tr fd \<or>
     called_ok tr (Sys_fionbio fd True) \<and> called_ok tr (Sys_fioclex fd True)"

text \<open>A retried call: the interrupted tries and then the one that counts.\<close>

lemma sys_retry_calls:
  assumes "sys_retry c s = Ret (r, s')"
  shows "\<exists>n. calls s' = calls s @ replicate n (c, Err EINTR) @ [(c, r)]"
proof -
  have "sys_retry_on c rs s = Ret (r, s') \<Longrightarrow>
      \<exists>n. calls s' = calls s @ replicate n (c, Err EINTR) @ [(c, r)]" for rs
  proof (induction rs arbitrary: s)
    case Nil
    then show ?case by simp
  next
    case (Cons x xs)
    show ?case
    proof (cases "x = Err EINTR")
      case True
      with Cons.prems Cons.IH [of "s\<lparr>script := xs, calls := calls s @ [(c, x)]\<rparr>"]
      obtain n where "calls s' = (calls s @ [(c, x)]) @ replicate n (c, Err EINTR) @ [(c, r)]"
        by (auto simp: Let_def)
      with True show ?thesis by (intro exI [of _ "Suc n"]) simp
    next
      case False
      with Cons.prems show ?thesis by (intro exI [of _ 0]) (auto simp: Let_def)
    qed
  qed
  with assms show ?thesis by (simp add: sys_retry_def)
qed

lemma sys_calls: "sys c s = Ret (r, s') \<Longrightarrow> calls s' = calls s @ [(c, r)]"
  by (auto simp: sys_def split: list.splits)

lemma fold_id: "\<forall>x \<in> set xs. f x = id \<Longrightarrow> fold f xs S = S"
  by (induction xs) auto

lemmas effect_simps [simp] = call_effect_def obtained_def released_def

text \<open>A retried flag call opens and closes nothing.\<close>

lemma fold_flag_call:
  assumes "c = Sys_fionbio fd on \<or> c = Sys_fioclex fd on"
  shows "fold call_effect (replicate n (c, Err EINTR)) S = S" "call_effect (c, r) S = S"
proof -
  show eff: "call_effect (c, r) S = S" for r S using assms by auto
  show "fold call_effect (replicate n (c, Err EINTR)) S = S"
    by (rule fold_id) (simp add: eff fun_eq_iff del: effect_simps)
qed

lemma flag_retry:
  assumes "sys_retry c s = Ret (r, s')" and "c = Sys_fionbio fd on \<or> c = Sys_fioclex fd on"
  shows "\<exists>tr. calls s' = calls s @ tr \<and> (\<forall>S. fold call_effect tr S = S) \<and> (c, r) \<in> set tr"
proof -
  from sys_retry_calls [OF assms(1)] obtain n
    where "calls s' = calls s @ replicate n (c, Err EINTR) @ [(c, r)]" by blast
  then show ?thesis
    using fold_flag_call [OF assms(2)] by (intro exI) auto
qed

lemma close_if_failed_calls:
  assumes "close_if_failed fd (sys_retry c1) (sys_retry c2) s = Ret (r, s')"
    and "{c1, c2} = {Sys_fionbio fd True, Sys_fioclex fd True}"
  shows "\<exists>tr. calls s' = calls s @ tr \<and>
    (case r of
       Val x \<Rightarrow> x = fd \<and> fold call_effect tr {fd} = {fd} \<and> called_ok tr (Sys_fionbio fd True) \<and>
         called_ok tr (Sys_fioclex fd True)
     | _ \<Rightarrow> fold call_effect tr {fd} = {})"
proof -
  have c: "c1 = Sys_fionbio fd True \<or> c1 = Sys_fioclex fd True"
    "c2 = Sys_fionbio fd True \<or> c2 = Sys_fioclex fd True" using assms(2) by auto
  from assms(1) obtain r1 s1 where 1: "sys_retry c1 s = Ret (r1, s1)"
    by (auto simp: close_if_failed_def obind_eq_Ret)
  from flag_retry [OF 1 c(1)] obtain t1 where t1: "calls s1 = calls s @ t1"
      "\<And>S. fold call_effect t1 S = S" "(c1, r1) \<in> set t1" by blast
  obtain r2 s2 t2 where t2: "calls s2 = calls s1 @ t2" "\<And>S. fold call_effect t2 S = S"
      and r2: "failed r1 \<Longrightarrow> r2 = r1" "\<not> failed r1 \<Longrightarrow> (c2, r2) \<in> set t2"
      and rest: "(if failed r2
        then obind (sys (Sys_close fd) s2) (\<lambda>(r3, s). Ret (if failed r3 then r3 else r2, s))
        else Ret (Val fd, s2)) = Ret (r, s')"
  proof (cases "failed r1")
    case True
    with 1 assms(1) that [of s1 "[]" r1] show ?thesis by (simp add: close_if_failed_def)
  next
    case False
    with 1 assms(1) obtain r2 s2 where 2: "sys_retry c2 s1 = Ret (r2, s2)"
      by (auto simp: close_if_failed_def obind_eq_Ret)
    from flag_retry [OF 2 c(2)] obtain t2 where "calls s2 = calls s1 @ t2"
      "\<And>S. fold call_effect t2 S = S" "(c2, r2) \<in> set t2" by blast
    with 1 2 False assms(1) that [of s2 t2 r2] show ?thesis by (simp add: close_if_failed_def)
  qed
  show ?thesis
  proof (cases "failed r2")
    case True
    with rest obtain r3 where "sys (Sys_close fd) s2 = Ret (r3, s')" "r = (if failed r3 then r3 else r2)"
      by (auto simp: obind_eq_Ret)
    moreover from this True have "\<exists>e. r = Err e" by (cases r; cases r2; cases r3) auto
    ultimately show ?thesis
      using sys_calls t1 t2 by (intro exI [of _ "t1 @ t2 @ [(Sys_close fd, r3)]"]) auto
  next
    case False
    with r2(1) have "\<not> failed r1" by auto
    with r2(2) t1(3) False assms(2) have "called_ok (t1 @ t2) (Sys_fionbio fd True)"
      "called_ok (t1 @ t2) (Sys_fioclex fd True)" by (auto simp: called_ok_def doubleton_eq_iff)
    with False rest t1 t2 show ?thesis by (intro exI [of _ "t1 @ t2"]) auto
  qed
qed

lemma marked_mono: "set tr \<subseteq> set tr' \<Longrightarrow> marked tr fd \<Longrightarrow> marked tr' fd"
  by (auto simp: marked_def born_marked_def called_ok_def)

lemma uv__socket_opens:
  assumes "uv__socket family type protocol s = Ret (r, s')"
  shows "\<exists>tr. calls s' = calls s @ tr \<and> (case r of
       Val fd \<Rightarrow> left_open tr = {fd} \<and> marked tr fd | _ \<Rightarrow> left_open tr = {})"
proof -
  let ?c = "Sys_socket family (type OR SOCK_NONBLOCK OR SOCK_CLOEXEC) protocol"
  from assms obtain r1 s1 where 1: "sys ?c s = Ret (r1, s1)" by (auto simp: uv__socket_def obind_eq_Ret)
  show ?thesis
  proof (cases "r1 = Err EINVAL")
    case False
    with 1 assms have "r1 = r" "s1 = s'" by (auto simp: uv__socket_def)
    with sys_calls [OF 1] show ?thesis
      by (intro exI [of _ "[(?c, r)]"])
        (auto simp: left_open_def marked_def born_marked_def split: answer.splits)
  next
    case True
    with 1 assms obtain r2 s2 where 2: "sys (Sys_socket family type protocol) s1 = Ret (r2, s2)"
      and rest: "(case r2 of
           Val fd \<Rightarrow> close_if_failed fd (uv__nonblock fd True) (uv__cloexec fd True) s2
         | _ \<Rightarrow> Ret (r2, s2)) = Ret (r, s')"
      by (auto simp: uv__socket_def obind_eq_Ret)
    let ?tr = "[(?c, r1), (Sys_socket family type protocol, r2)]"
    have c: "calls s2 = calls s @ ?tr" using sys_calls [OF 1] sys_calls [OF 2] by simp
    show ?thesis
    proof (cases r2)
      case (Val fd)
      have "\<exists>tr. calls s' = calls s2 @ tr \<and> (case r of
           Val x \<Rightarrow> x = fd \<and> fold call_effect tr {fd} = {fd} \<and> called_ok tr (Sys_fionbio fd True) \<and>
             called_ok tr (Sys_fioclex fd True)
         | _ \<Rightarrow> fold call_effect tr {fd} = {})"
        using rest Val close_if_failed_calls [of fd "Sys_fionbio fd True" "Sys_fioclex fd True" s2 r s']
        by (simp add: uv__nonblock_def [abs_def] uv__cloexec_def [abs_def])
      then obtain tr where "calls s' = calls s2 @ tr" "case r of
           Val x \<Rightarrow> x = fd \<and> fold call_effect tr {fd} = {fd} \<and> called_ok tr (Sys_fionbio fd True) \<and>
             called_ok tr (Sys_fioclex fd True)
         | _ \<Rightarrow> fold call_effect tr {fd} = {}" by blast
      with c True Val show ?thesis
        by (intro exI [of _ "?tr @ tr"])
          (auto simp: left_open_def marked_def called_ok_def split: answer.splits)
    next
      case (Err e)
      with rest c True show ?thesis by (intro exI [of _ ?tr]) (auto simp: left_open_def)
    next
      case (Fds a b)
      with rest c True show ?thesis by (intro exI [of _ ?tr]) (auto simp: left_open_def)
    next
      case (Msg a b)
      with rest c True show ?thesis by (intro exI [of _ ?tr]) (auto simp: left_open_def)
    qed
  qed
qed

definition opens :: "os \<Rightarrow> os \<Rightarrow> answer \<Rightarrow> bool" where
  "opens s s' r \<longleftrightarrow> (\<exists>tr. calls s' = calls s @ tr \<and> (case r of
       Val fd \<Rightarrow> left_open tr = {fd} \<and> marked tr fd | _ \<Rightarrow> left_open tr = {}))"

lemma opens_after:
  assumes "opens (s\<lparr>script := rs, calls := calls s @ [x]\<rparr>) s' r" and "call_effect x {} = {}"
  shows "opens s s' r"
proof -
  from assms(1) obtain tr where tr: "calls s' = (calls s @ [x]) @ tr" "case r of
      Val fd \<Rightarrow> left_open tr = {fd} \<and> marked tr fd | _ \<Rightarrow> left_open tr = {}"
    by (auto simp: opens_def)
  have "marked (x # tr) fd" if "marked tr fd" for fd by (rule marked_mono [OF _ that]) auto
  with tr assms(2) show ?thesis
    unfolding opens_def
    by (intro exI [of _ "x # tr"]) (auto simp: left_open_def simp del: effect_simps split: answer.splits)
qed

lemma accept_flags_opens:
  assumes "accept_flags peer (s\<lparr>script := rs, calls := calls s @ [(Sys_accept l, Val peer)]\<rparr>) = Ret (r, s')"
  shows "opens s s' r"
proof -
  from assms close_if_failed_calls [of peer "Sys_fioclex peer True" "Sys_fionbio peer True"]
  obtain tr where "calls s' = (calls s @ [(Sys_accept l, Val peer)]) @ tr" "case r of
       Val x \<Rightarrow> x = peer \<and> fold call_effect tr {peer} = {peer} \<and> called_ok tr (Sys_fionbio peer True) \<and>
         called_ok tr (Sys_fioclex peer True)
     | _ \<Rightarrow> fold call_effect tr {peer} = {}"
    by (fastforce simp: accept_flags_def uv__nonblock_def [abs_def] uv__cloexec_def [abs_def])
  then show ?thesis
    unfolding opens_def
    by (intro exI [of _ "(Sys_accept l, Val peer) # tr"])
      (auto simp: left_open_def marked_def called_ok_def split: answer.splits)
qed

lemma accept_loop_opens: "accept_loop l rs s = Ret (r, s') \<Longrightarrow> opens s s' r"
proof (induction rs arbitrary: s)
  case Nil
  then show ?case by simp
next
  case (Cons x xs)
  let ?c = "if no_accept4 s then Sys_accept l else Sys_accept4 l (SOCK_NONBLOCK OR SOCK_CLOEXEC)"
  let ?s = "s\<lparr>script := xs, calls := calls s @ [(?c, x)]\<rparr>"
  show ?case
  proof (cases x)
    case (Val peer)
    then show ?thesis
    proof (cases "no_accept4 s")
      case True
      with Val Cons.prems accept_flags_opens show ?thesis by (fastforce simp: Let_def)
    next
      case False
      with Val Cons.prems show ?thesis
        unfolding opens_def
        by (intro exI [of _ "[(?c, x)]"]) (auto simp: Let_def left_open_def marked_def born_marked_def)
    qed
  next
    case (Err e)
    then have eff: "call_effect (?c, x) {} = {}" by simp
    consider "e = EINTR" | "e = ENOSYS" "\<not> no_accept4 s" | "r = x" "s' = ?s"
      using Cons.prems Err by (auto simp: Let_def split: if_splits)
    then show ?thesis
    proof cases
      case 1
      with Cons.prems Err Cons.IH [of ?s] have "opens ?s s' r" by (auto simp: Let_def split: if_splits)
      with eff show ?thesis by (rule opens_after [rotated])
    next
      case 2
      with Cons.prems Err Cons.IH [of "?s\<lparr>no_accept4 := True\<rparr>"]
      have "opens (?s\<lparr>no_accept4 := True\<rparr>) s' r" by (auto simp: Let_def)
      then have "opens ?s s' r" by (simp add: opens_def)
      with eff show ?thesis by (rule opens_after [rotated])
    next
      case 3
      with Err show ?thesis
        unfolding opens_def by (intro exI [of _ "[(?c, x)]"]) (auto simp: left_open_def)
    qed
  next
    case (Fds a b)
    with Cons.prems show ?thesis
      unfolding opens_def
      by (intro exI [of _ "[(?c, x)]"]) (auto simp: Let_def left_open_def split: if_splits)
  next
    case (Msg a b)
    with Cons.prems show ?thesis
      unfolding opens_def
      by (intro exI [of _ "[(?c, x)]"]) (auto simp: Let_def left_open_def split: if_splits)
  qed
qed

text \<open>
  C17. Sockets do not leak. Whatever the kernel answers (interruptions, old kernels without
  \<open>accept4\<close> or without the socket flags, failing flag calls), when \<open>uv__socket\<close> or
  \<open>uv__accept\<close> returns a descriptor then it is the only one that its calls left open and it
  was made non-blocking and close-on-exec; when it returns an error, every descriptor it
  obtained has been closed.
\<close>

theorem fresh_sockets_do_not_leak:
  assumes "uv__socket family type protocol s = Ret (r, s') \<or> uv__accept l s = Ret (r, s')"
  shows "\<exists>tr. calls s' = calls s @ tr \<and> (case r of
       Val fd \<Rightarrow> left_open tr = {fd} \<and> marked tr fd | _ \<Rightarrow> left_open tr = {})"
  using assms uv__socket_opens [of family type protocol s r s'] accept_loop_opens [of l "script s" s r s']
  by (auto simp: uv__accept_def opens_def)

text \<open>An old kernel: no \<open>accept4\<close>, an interruption, and a flag call that fails.\<close>

definition old_kernel :: os where
  "old_kernel = \<lparr>script = [Err ENOSYS, Err EINTR, Val 9, Val 0, Err EBADF, Val 0], calls = [],
     no_accept4 = False, no_cloexec = False, no_pipe2 = False\<rparr>"

theorem fresh_sockets_do_not_leak_witness:
  "\<exists>s'. uv__accept 4 old_kernel = Ret (Err EBADF, s') \<and> left_open (calls s') = {}"
proof -
  have "\<exists>s'. uv__accept 4 old_kernel = Ret (Err EBADF, s')"
    by (simp add: uv__accept_def old_kernel_def accept_flags_def close_if_failed_def uv__cloexec_def
        uv__nonblock_def sys_retry_def sys_def Let_def)
  then obtain s' where r: "uv__accept 4 old_kernel = Ret (Err EBADF, s')" by blast
  with fresh_sockets_do_not_leak [of _ _ _ old_kernel "Err EBADF" s' 4] show ?thesis
    by (auto simp: old_kernel_def)
qed

text \<open>A pipe on an old kernel: the flag calls may fail and nobody notices.\<close>

lemma uv__make_pipe_ignores_flags:
  "\<exists>s'. uv__make_pipe UV__F_NONBLOCK
      \<lparr>script = [Err ENOSYS, Fds 5 6, Err EBADF, Err EBADF, Err EBADF, Err EBADF], calls = [],
       no_accept4 = False, no_cloexec = False, no_pipe2 = False\<rparr> = Ret (Fds 5 6, s')"
  by (simp add: uv__make_pipe_def mark_pair_def uv__cloexec_def uv__nonblock_def sys_retry_def sys_def
      Let_def)

section \<open>Copying strings\<close>

lemma strlcpy_loop_take:
  "0 < n \<Longrightarrow> strlcpy_loop dst n src = dst @ take (n - 1) src @ [CHR 0x00]"
proof (induction dst n src rule: strlcpy_loop.induct)
  case (1 dst n src)
  show ?case
  proof (cases "n - 1 = 0 \<or> src = []")
    case True
    then show ?thesis by (subst strlcpy_loop.simps) auto
  next
    case False
    moreover from this obtain c cs m where "src = c # cs" "n = Suc (Suc m)"
      by (metis Suc_pred list.exhaust neq0_conv One_nat_def Suc_diff_1 "1.prems")
    ultimately show ?thesis using "1.IH" by (subst strlcpy_loop.simps) simp
  qed
qed

lemma uv__strlcpy_take:
  "uv__strlcpy src n = (if n = 0 then ([], 0)
     else (take (n - 1) src @ [CHR 0x00], min (n - 1) (length src)))"
  by (simp add: uv__strlcpy_def strlcpy_loop_take min.commute)

lemma copy_for_take:
  "copy_for k n src out = (out @ take (n - 1 - k) src @ [CHR 0x00], k + min (n - 1 - k) (length src))"
proof (induction src arbitrary: k out)
  case (Cons c cs)
  show ?case
  proof (cases "k < n - 1")
    case True
    then have "n - 1 - k = Suc (n - 1 - Suc k)" by simp
    with True Cons.IH [of "Suc k" "out @ [c]"] show ?thesis by simp
  qed simp
qed simp

text \<open>The two copies of \<open>strlcpy\<close> in the sources agree.\<close>

lemma uv_strlcpy_same: "uv_strlcpy src n = uv__strlcpy src n"
  by (simp add: uv_strlcpy_def uv__strlcpy_take copy_for_take)

lemma scan_nul_length:
  "scan_nul k n dst = k + length (takeWhile (\<lambda>c. c \<noteq> CHR 0x00) (take (n - k) dst))"
proof (induction dst arbitrary: k)
  case (Cons c cs)
  show ?case
  proof (cases "k < n")
    case True
    then have "n - k = Suc (n - Suc k)" by simp
    with True Cons.IH [of "Suc k"] show ?thesis by simp
  qed simp
qed simp

text \<open>Appending: the destination keeps its string, and the result is cut to the buffer and
  always ends in NUL.\<close>

lemma uv_strlcat_appends:
  assumes "dst = s @ CHR 0x00 # rest" and "CHR 0x00 \<notin> set s" and "length s < n"
  shows "\<exists>pad. uv_strlcat dst src n =
    (s @ take (n - 1 - length s) src @ CHR 0x00 # pad, length s + min (n - 1 - length s) (length src))"
proof -
  have "take n dst = s @ CHR 0x00 # take (n - Suc (length s)) rest"
    using assms(1,3) by (simp add: take_Cons')
  moreover have "c \<noteq> CHR 0x00" if "c \<in> set s" for c using that assms(2) by blast
  ultimately have "takeWhile (\<lambda>c. c \<noteq> CHR 0x00) (take n dst) = s"
    by (simp add: takeWhile_append2)
  then have "scan_nul 0 n dst = length s" by (simp add: scan_nul_length)
  with assms show ?thesis by (simp add: uv_strlcat_def Let_def copy_for_take)
qed

end
