(* ===== verification/Walk.thy ===== *)
theory Walk
  imports NgxQueue Prelude
begin

text \<open>
  The loop \<open>ngx_queue_foreach(q, h) body\<close> with a body that changes the state and, through it,
  the queue being walked: the next pointer is read after the body has run. The loops over
  prepare, check, idle and async handles are instances.
\<close>

partial_function (option) ngx_walk ::
    "('s \<Rightarrow> 'n ngx_heap) \<Rightarrow> 'n \<Rightarrow> ('n \<Rightarrow> 's \<Rightarrow> 's outcome) \<Rightarrow> 'n \<Rightarrow> 's \<Rightarrow> 's outcome option" where
  "ngx_walk queue h body q s =
     (if q \<noteq> h \<and> \<not> ngx_queue_empty h (queue s)
      then case body q s of
             Abort \<Rightarrow> Some Abort
           | Starve \<Rightarrow> Some Starve
           | Ret s \<Rightarrow> ngx_walk queue h body (ngx_queue_next q (queue s)) s
      else Some (Ret s))"

definition ngx_foreach_do ::
    "('s \<Rightarrow> 'n ngx_heap) \<Rightarrow> 'n \<Rightarrow> ('n \<Rightarrow> 's \<Rightarrow> 's outcome) \<Rightarrow> 's \<Rightarrow> 's outcome option" where
  "ngx_foreach_do queue h body s = ngx_walk queue h body (ngx_queue_head h (queue s)) s"

text \<open>The next pointer of a node, also of one that has just been taken out.\<close>

lemma qrep_next: "qrep m h (xs @ x # ys) \<Longrightarrow> ngx_queue_next x m = hd (ys @ [h])"
  by (auto simp: qrep_def ngx_queue_next_def dest: linked_first)

lemma remove_keeps_next:
  assumes "qrep m h (xs @ x # ys)"
  shows "ngx_queue_next x (ngx_queue_remove x m) = ngx_queue_next x m"
  using assms
  by (cases ys; cases xs rule: rev_cases)
    (auto simp: qrep_def ngx_queue_remove_def ngx_queue_next_def set_next_def set_prev_def)

end
