(* ===== verification/Loop_Watcher.thy ===== *)
theory Loop_Watcher
  imports Walk Sys
begin

text \<open>
  Prepare, check and idle handles: \<open>src/unix/loop-watcher.c\<close>, whose macro defines the same
  five functions for each of the three types. The queues are kept at pointer level, because a
  callback may stop its own handle (or others) while the loop walks the queue.
\<close>

section \<open>State and operations\<close>

datatype lw_kind = PREPARE | CHECK | IDLE

text \<open>The nodes of the queues: the heads in the loop, and the field \<open>queue\<close> of a handle.\<close>

datatype lw_node = Head lw_kind | Node nat

record lw_loop = net_loop +
  lw_queues :: "lw_node ngx_heap"
  lw_cb :: "nat \<Rightarrow> nat option"

primrec lw_type :: "lw_kind \<Rightarrow> uv_handle_type" where
  "lw_type PREPARE = UV_PREPARE"
| "lw_type CHECK = UV_CHECK"
| "lw_type IDLE = UV_IDLE"

definition uv_name_init :: "lw_kind \<Rightarrow> ('m) lw_loop_scheme \<Rightarrow> nat \<Rightarrow> int \<times> ('m) lw_loop_scheme" where
  "uv_name_init k L h =
     (let L = uv__handle_init L h (lw_type k) in (0, L\<lparr>lw_cb := (lw_cb L)(h := None)\<rparr>))"

definition uv_name_start :: "lw_kind \<Rightarrow> ('m) lw_loop_scheme \<Rightarrow> nat \<Rightarrow> nat option \<Rightarrow> int \<times> ('m) lw_loop_scheme" where
  "uv_name_start k L h cb =
     (if uv__is_active L h then (0, L)
      else if cb = None then uv__set_artificial_error L UV_EINVAL
      else (0, uv__handle_start
        (L\<lparr>lw_queues := ngx_queue_insert_head (Head k) (Node h) (lw_queues L), lw_cb := (lw_cb L)(h := cb)\<rparr>) h))"

definition uv_name_stop :: "('m) lw_loop_scheme \<Rightarrow> nat \<Rightarrow> int \<times> ('m) lw_loop_scheme" where
  "uv_name_stop L h =
     (if \<not> uv__is_active L h then (0, L)
      else (0, uv__handle_stop (L\<lparr>lw_queues := ngx_queue_remove (Node h) (lw_queues L)\<rparr>) h))"

definition uv__name_close :: "('m) lw_loop_scheme \<Rightarrow> nat \<Rightarrow> ('m) lw_loop_scheme" where
  "uv__name_close L h = snd (uv_name_stop L h)"

text \<open>
  \<open>uv__run_name\<close>: \<open>cb c h L\<close> is the user's callback \<open>c\<close> on the handle \<open>h\<close>, an arbitrary change of
  the loop. \<open>None\<close> is a walk that never ends; a head of another queue in this one, or a
  handle without a callback, stops the process.
\<close>

definition lw_call :: "(nat \<Rightarrow> nat \<Rightarrow> ('m) lw_loop_scheme \<Rightarrow> ('m) lw_loop_scheme outcome) \<Rightarrow>
    lw_node \<Rightarrow> ('m) lw_loop_scheme \<Rightarrow> ('m) lw_loop_scheme outcome" where
  "lw_call cb q L =
     (case q of
        Head k \<Rightarrow> Abort
      | Node h \<Rightarrow> obind (ptr_ok (lw_cb L h)) (\<lambda>c. cb c h L))"

definition uv__run_name ::
    "(nat \<Rightarrow> nat \<Rightarrow> ('m) lw_loop_scheme \<Rightarrow> ('m) lw_loop_scheme outcome) \<Rightarrow> lw_kind \<Rightarrow>
     ('m) lw_loop_scheme \<Rightarrow> ('m) lw_loop_scheme outcome option" where
  "uv__run_name cb k L = ngx_foreach_do lw_queues (Head k) (lw_call cb) L"

section \<open>The queues as lists\<close>

text \<open>
  What a program does with its handles. \<open>kind\<close> is the C type of a handle, \<open>None\<close> for handles of
  other types, which these operations do not see.
\<close>

datatype lw_op = Lw_init nat | Lw_start nat "nat option" | Lw_stop nat | Lw_close nat

fun lw_handle :: "lw_op \<Rightarrow> nat" where
  "lw_handle (Lw_init h) = h"
| "lw_handle (Lw_start h c) = h"
| "lw_handle (Lw_stop h) = h"
| "lw_handle (Lw_close h) = h"

fun lw_do :: "(nat \<Rightarrow> lw_kind option) \<Rightarrow> lw_op \<Rightarrow> ('m) lw_loop_scheme \<Rightarrow> ('m) lw_loop_scheme" where
  "lw_do kind (Lw_init h) L = snd (uv_name_init (the (kind h)) L h)"
| "lw_do kind (Lw_start h c) L = snd (uv_name_start (the (kind h)) L h c)"
| "lw_do kind (Lw_stop h) L = snd (uv_name_stop L h)"
| "lw_do kind (Lw_close h) L = uv__name_close L h"

fun lw_legal :: "(nat \<Rightarrow> lw_kind option) \<Rightarrow> lw_op \<Rightarrow> ('m) lw_loop_scheme \<Rightarrow> bool" where
  "lw_legal kind (Lw_init h) L \<longleftrightarrow> kind h \<noteq> None \<and> \<not> uv__is_active L h"
| "lw_legal kind (Lw_start h c) L \<longleftrightarrow> kind h \<noteq> None"
| "lw_legal kind (Lw_stop h) L \<longleftrightarrow> kind h \<noteq> None"
| "lw_legal kind (Lw_close h) L \<longleftrightarrow> kind h \<noteq> None"

text \<open>The specification: a start puts a handle in front of the list of its kind.\<close>

fun lw_abs :: "(nat \<Rightarrow> lw_kind option) \<Rightarrow> lw_op \<Rightarrow> (lw_kind \<Rightarrow> nat list) \<Rightarrow> lw_kind \<Rightarrow> nat list" where
  "lw_abs kind (Lw_init h) q = q"
| "lw_abs kind (Lw_start h c) q =
     (let k = the (kind h) in if c = None \<or> h \<in> set (q k) then q else q(k := h # q k))"
| "lw_abs kind (Lw_stop h) q = (let k = the (kind h) in q(k := remove1 h (q k)))"
| "lw_abs kind (Lw_close h) q = (let k = the (kind h) in q(k := remove1 h (q k)))"

definition lw_rep :: "(nat \<Rightarrow> lw_kind option) \<Rightarrow> ('m) lw_loop_scheme \<Rightarrow> (lw_kind \<Rightarrow> nat list) \<Rightarrow> bool" where
  "lw_rep kind L q \<longleftrightarrow>
     (\<forall>k. qrep (lw_queues L) (Head k) (map Node (q k))) \<and>
     (\<forall>k. \<forall>h \<in> set (q k). kind h = Some k \<and> lw_cb L h \<noteq> None) \<and>
     (\<forall>h k. kind h = Some k \<longrightarrow> (uv__is_active L h \<longleftrightarrow> h \<in> set (q k)))"

lemma lw_fields [simp]:
  fixes L :: "('m) lw_loop_scheme"
  shows "lw_queues (uv__handle_start L h) = lw_queues L" "lw_cb (uv__handle_start L h) = lw_cb L"
    "lw_queues (uv__handle_stop L h) = lw_queues L" "lw_cb (uv__handle_stop L h) = lw_cb L"
    "lw_queues (uv__handle_init L h ty) = lw_queues L" "lw_cb (uv__handle_init L h ty) = lw_cb L"
  by (simp_all add: handle_op_defs uv__active_handle_add_def uv__active_handle_rm_def set_flags_def
      uv__handle_init_def)

lemma lw_error [simp]:
  fixes L :: "('m) lw_loop_scheme"
  shows "lw_queues (snd (uv__set_artificial_error L e)) = lw_queues L"
    "lw_cb (snd (uv__set_artificial_error L e)) = lw_cb L"
    "uv__is_active (snd (uv__set_artificial_error L e)) h = uv__is_active L h"
  by (simp_all add: uv__set_artificial_error_def uv__is_active_def flags_of_def)

lemma lw_active [simp]:
  fixes L :: "('m) lw_loop_scheme"
  shows "uv__is_active (L\<lparr>lw_queues := m\<rparr>) h = uv__is_active L h" "uv__is_active (L\<lparr>lw_cb := c\<rparr>) h = uv__is_active L h"
  by (simp_all add: uv__is_active_def flags_of_def)

lemma lw_rep_distinct:
  assumes "lw_rep kind L q"
  shows "distinct (q k)" "k \<noteq> k' \<Longrightarrow> set (q k) \<inter> set (q k') = {}"
    "h \<in> set (q k) \<Longrightarrow> kind h = Some k"
proof -
  have "distinct (map Node (q k))" using assms by (auto simp: lw_rep_def qrep_def)
  then show "distinct (q k)" by (simp add: distinct_map)
  have kd: "kind h = Some k" if "h \<in> set (q k)" for h k using assms that by (auto simp: lw_rep_def)
  then show "h \<in> set (q k) \<Longrightarrow> kind h = Some k" .
  show "set (q k) \<inter> set (q k') = {}" if "k \<noteq> k'"
  proof (rule ccontr)
    assume "set (q k) \<inter> set (q k') \<noteq> {}"
    then obtain h where "h \<in> set (q k)" "h \<in> set (q k')" by auto
    from kd [OF this(1)] kd [OF this(2)] that show False by simp
  qed
qed

text \<open>Two changes of the pointers are enough for all operations.\<close>

lemma lw_rep_insert:
  assumes rep: "lw_rep kind L q" and k: "kind h = Some k" "h \<notin> set (q k)"
  shows "qrep (ngx_queue_insert_head (Head k) (Node h) (lw_queues L)) (Head k')
    (map Node ((q(k := h # q k)) k'))"
proof -
  have q: "qrep (lw_queues L) (Head k) (map Node (q k))" for k using rep by (simp add: lw_rep_def)
  show ?thesis
  proof (cases "k' = k")
    case True
    with qrep_insert_head [OF q [of k], of "Node h"] k(2) show ?thesis by auto
  next
    case False
    have "set (Node h # Head k # map Node (q k)) \<inter> set (Head k' # map Node (q k')) = {}"
      using False lw_rep_distinct(2,3) [OF rep] k(1) by fastforce
    from qrep_insert_head_frame [OF q q this] False show ?thesis by simp
  qed
qed

lemma lw_rep_take:
  assumes rep: "lw_rep kind L q" and h: "h \<in> set (q k)"
  shows "qrep (ngx_queue_remove (Node h) (lw_queues L)) (Head k') (map Node ((q(k := remove1 h (q k))) k'))"
proof -
  have q: "qrep (lw_queues L) (Head k) (map Node (q k))" for k using rep by (simp add: lw_rep_def)
  from split_list_first [OF h] obtain xs ys where s: "q k = xs @ h # ys" "h \<notin> set xs" by blast
  then have m: "map Node (q k) = map Node xs @ Node h # map Node ys" by simp
  show ?thesis
  proof (cases "k' = k")
    case True
    with qrep_remove [OF q [of k, unfolded m]] s show ?thesis by (simp add: remove1_append)
  next
    case False
    have "set (Head k # map Node (q k)) \<inter> set (Head k' # map Node (q k')) = {}"
      using False lw_rep_distinct(2) [OF rep False] by auto
    from qrep_remove_frame [OF q [of k, unfolded m] q, of k'] this m False show ?thesis by simp
  qed
qed

lemma lw_rep_stop:
  assumes rep: "lw_rep kind L q" and k: "kind h = Some k"
  shows "lw_rep kind (snd (uv_name_stop L h)) (q(k := remove1 h (q k)))"
proof (cases "h \<in> set (q k)")
  case True
  then have act: "uv__is_active L h" using rep k by (simp add: lw_rep_def)
  have set: "set ((q(k := remove1 h (q k))) k') = set (q k') - (if k' = k then {h} else {})" for k'
    using lw_rep_distinct(1) [OF rep, of k] by simp
  have "h \<noteq> g" if "g \<in> set (q k')" "k' \<noteq> k" for g k' using lw_rep_distinct(3) [OF rep that(1)] k that(2) by auto
  with rep True k act lw_rep_take [OF rep True] show ?thesis
    unfolding lw_rep_def set by (auto simp: uv_name_stop_def)
next
  case False
  then have "\<not> uv__is_active L h" using rep k by (simp add: lw_rep_def)
  with rep False show ?thesis by (simp add: uv_name_stop_def remove1_idem fun_upd_idem)
qed

lemma lw_rep_do:
  assumes rep: "lw_rep kind L q" and legal: "lw_legal kind op L"
  shows "lw_rep kind (lw_do kind op L) (lw_abs kind op q)"
proof (cases op)
  case (Lw_init h)
  have "h \<notin> set (q k)" for k
  proof
    assume h: "h \<in> set (q k)"
    from lw_rep_distinct(3) [OF rep h] h rep have "uv__is_active L h" by (auto simp: lw_rep_def)
    with legal Lw_init show False by simp
  qed
  with rep Lw_init legal show ?thesis
    by (auto simp: lw_rep_def uv_name_init_def Let_def)
next
  case (Lw_start h c)
  with legal obtain k where k: "kind h = Some k" by auto
  have act: "uv__is_active L h \<longleftrightarrow> h \<in> set (q k)" using rep k by (simp add: lw_rep_def)
  show ?thesis
  proof (cases "c = None \<or> h \<in> set (q k)")
    case True
    with rep Lw_start k act show ?thesis by (auto simp: uv_name_start_def lw_rep_def)
  next
    case False
    have new: "h \<notin> set (q k')" for k' using lw_rep_distinct(3) [OF rep, of h k'] k False by auto
    with rep False Lw_start k act lw_rep_insert [OF rep k] show ?thesis
      by (auto simp: uv_name_start_def lw_rep_def Let_def)
  qed
next
  case (Lw_stop h)
  with legal lw_rep_stop [OF rep] show ?thesis by (auto simp: Let_def)
next
  case (Lw_close h)
  with legal lw_rep_stop [OF rep] show ?thesis by (auto simp: Let_def uv__name_close_def)
qed

text \<open>
  The states that a program reaches: a loop whose queues are empty, any operations, and entries
  of the log in which callbacks write down that they have been called.
\<close>

record lw_logged = lw_loop +
  lw_log :: "(nat \<times> nat) list"

inductive lw_reach :: "(nat \<Rightarrow> lw_kind option) \<Rightarrow> ('m) lw_logged_scheme \<Rightarrow> (lw_kind \<Rightarrow> nat list) \<Rightarrow> bool" for kind where
  start: "\<forall>k. qrep (lw_queues L) (Head k) [] \<Longrightarrow> \<forall>h. kind h \<noteq> None \<longrightarrow> \<not> uv__is_active L h \<Longrightarrow>
    lw_reach kind L (\<lambda>_. [])"
| op: "lw_reach kind L q \<Longrightarrow> lw_legal kind op L \<Longrightarrow> lw_reach kind (lw_do kind op L) (lw_abs kind op q)"
| log: "lw_reach kind L q \<Longrightarrow> lw_reach kind (L\<lparr>lw_log := es\<rparr>) q"

lemma lw_reach_rep: "lw_reach kind L q \<Longrightarrow> lw_rep kind L q"
proof (induction rule: lw_reach.induct)
  case (start L)
  then show ?case by (auto simp: lw_rep_def)
next
  case (op L q op)
  then show ?case by (blast intro: lw_rep_do)
next
  case (log L q es)
  then show ?case by (auto simp: lw_rep_def uv__is_active_def flags_of_def)
qed

section \<open>Callbacks\<close>

text \<open>
  The callback of the handle \<open>h\<close> writes down its call and executes the operations \<open>prog h\<close>. It
  starts and stops handles of any kind, but does not restart its own handle, and stops no other
  handle after its own.
\<close>

definition lw_user :: "(nat \<Rightarrow> lw_kind option) \<Rightarrow> (nat \<Rightarrow> lw_op list) \<Rightarrow> nat \<Rightarrow> nat \<Rightarrow>
    ('m) lw_logged_scheme \<Rightarrow> ('m) lw_logged_scheme outcome" where
  "lw_user kind prog c h L = Ret (fold (lw_do kind) (prog h) (L\<lparr>lw_log := lw_log L @ [(h, c)]\<rparr>))"

definition stops :: "lw_op list \<Rightarrow> nat set" where
  "stops p = {g. Lw_stop g \<in> set p \<or> Lw_close g \<in> set p}"

fun own_stop_last :: "nat \<Rightarrow> lw_op list \<Rightarrow> bool" where
  "own_stop_last h [] \<longleftrightarrow> True"
| "own_stop_last h (op # p) \<longleftrightarrow>
     (if op = Lw_stop h \<or> op = Lw_close h
      then list_all (\<lambda>op. case op of Lw_stop g \<Rightarrow> g = h | Lw_close g \<Rightarrow> g = h | _ \<Rightarrow> True) p
      else own_stop_last h p)"

definition callback_ok :: "(nat \<Rightarrow> lw_kind option) \<Rightarrow> nat \<Rightarrow> lw_op list \<Rightarrow> bool" where
  "callback_ok kind h p \<longleftrightarrow> own_stop_last h p \<and>
     list_all (\<lambda>op. kind (lw_handle op) \<noteq> None \<and>
       (case op of Lw_init g \<Rightarrow> False | Lw_start g c \<Rightarrow> g \<noteq> h | _ \<Rightarrow> True)) p"

text \<open>Who is called: the handles in order, less those that are stopped before their turn.\<close>

function phase_calls :: "(nat \<Rightarrow> lw_op list) \<Rightarrow> nat list \<Rightarrow> nat list" where
  "phase_calls prog [] = []"
| "phase_calls prog (h # hs) = h # phase_calls prog (filter (\<lambda>g. g \<notin> stops (prog h)) hs)"
  by pat_completeness auto
termination by (relation "measure (\<lambda>(prog, hs). length hs)") (auto simp: le_imp_less_Suc length_filter_le)

lemma stops_Cons:
  "stops (Lw_stop g # p) = insert g (stops p)" "stops (Lw_close g # p) = insert g (stops p)"
  "stops (Lw_start g c # p) = stops p" "stops (Lw_init g # p) = stops p" "stops [] = {}"
  by (auto simp: stops_def)

lemma fold_reach:
  assumes "lw_reach kind L q" and "callback_ok kind h p"
  shows "lw_reach kind (fold (lw_do kind) p L) (fold (lw_abs kind) p q)"
  using assms(1) assms(2) [unfolded callback_ok_def, THEN conjunct2]
proof (induction p arbitrary: L q)
  case (Cons op p)
  from Cons.prems(2) have "lw_legal kind op L" by (cases op) auto
  from Cons.IH [OF lw_reach.op [OF Cons.prems(1) this]] Cons.prems(2) show ?case by simp
qed simp

text \<open>What one operation does to the queue that is walked, seen from the handle \<open>h\<close> that is called.\<close>

lemma op_on_walk:
  assumes rep: "lw_rep kind L q" and legal: "lw_legal kind op L" and q: "q k = xs @ h # ys"
    and other: "lw_handle op \<noteq> h"
  shows "\<exists>xs'. lw_abs kind op q k = xs' @ h # filter (\<lambda>g. g \<notin> stops [op]) ys \<and>
    (\<forall>g \<in> set ys. g \<notin> stops [op] \<longrightarrow> lw_cb (lw_do kind op L) g = lw_cb L g)"
proof -
  have d: "distinct (xs @ h # ys)" using lw_rep_distinct(1) [OF rep, of k] q by simp
  have kys: "kind g = Some k" if "g \<in> set ys" for g using lw_rep_distinct(3) [OF rep, of g k] q that by simp
  have take: "\<exists>xs'. (q(the (kind g) := remove1 g (q (the (kind g))))) k = xs' @ h # filter (\<lambda>x. x \<noteq> g) ys"
    if "g \<noteq> h" "kind g \<noteq> None" for g
  proof (cases "kind g = Some k")
    case True
    have "filter (\<lambda>x. x \<noteq> g) ys = remove1 g ys"
      using d by (auto simp: distinct_remove1_removeAll removeAll_filter_not_eq intro: filter_cong)
    moreover have "remove1 g (xs @ h # ys) = (if g \<in> set xs then remove1 g xs @ h # ys else xs @ h # remove1 g ys)"
      using that(1) by (simp add: remove1_append)
    moreover have "remove1 g ys = ys" if "g \<in> set xs" using that d by (intro remove1_idem) auto
    ultimately show ?thesis using True q by auto
  next
    case False
    then have "g \<notin> set ys" using kys by auto
    then have "filter (\<lambda>x. x \<noteq> g) ys = ys" by (auto simp: filter_id_conv)
    with False that(2) q show ?thesis by (auto simp: fun_upd_def)
  qed
  show ?thesis
  proof (cases op)
    case (Lw_init g)
    have "g \<notin> set ys"
    proof
      assume g: "g \<in> set ys"
      from rep kys [OF g] have "uv__is_active L g \<longleftrightarrow> g \<in> set (q k)" by (simp add: lw_rep_def)
      with g q have "uv__is_active L g" by simp
      with legal Lw_init show False by simp
    qed
    with Lw_init q show ?thesis by (auto simp: stops_Cons uv_name_init_def)
  next
    case (Lw_start g c)
    with legal obtain kg where kg: "kind g = Some kg" by auto
    have act: "uv__is_active L g \<longleftrightarrow> g \<in> set (q kg)" using rep kg by (simp add: lw_rep_def)
    show ?thesis
    proof (cases "c = None \<or> g \<in> set (q kg)")
      case True
      with Lw_start kg q act show ?thesis by (auto simp: stops_Cons uv_name_start_def)
    next
      case False
      have "g \<notin> set ys" using False kg kys [of g] q by auto
      with False Lw_start kg q act show ?thesis
        by (cases "kg = k") (auto simp: stops_Cons uv_name_start_def Let_def)
    qed
  next
    case (Lw_stop g)
    with take [of g] legal other show ?thesis by (auto simp: Let_def stops_Cons uv_name_stop_def)
  next
    case (Lw_close g)
    with take [of g] legal other show ?thesis
      by (auto simp: Let_def stops_Cons uv_name_stop_def uv__name_close_def)
  qed
qed

text \<open>Before the handle \<open>h\<close> stops itself, it stays in the queue.\<close>

lemma script_before:
  assumes "lw_reach kind L q" and "q k = xs @ h # ys"
    and "list_all (\<lambda>op. lw_handle op \<noteq> h \<and> kind (lw_handle op) \<noteq> None \<and> (\<forall>g. op \<noteq> Lw_init g)) p"
  shows "\<exists>xs'. fold (lw_abs kind) p q k = xs' @ h # filter (\<lambda>g. g \<notin> stops p) ys \<and>
    (\<forall>g \<in> set ys. g \<notin> stops p \<longrightarrow> lw_cb (fold (lw_do kind) p L) g = lw_cb L g) \<and>
    lw_reach kind (fold (lw_do kind) p L) (fold (lw_abs kind) p q)"
  using assms
proof (induction p arbitrary: L q xs ys)
  case Nil
  then show ?case by (auto simp: stops_Cons)
next
  case (Cons op p)
  from Cons.prems(3) have legal: "lw_legal kind op L" and other: "lw_handle op \<noteq> h" by (cases op; simp)+
  let ?L = "lw_do kind op L" and ?q = "lw_abs kind op q" and ?ys = "filter (\<lambda>g. g \<notin> stops [op]) ys"
  from op_on_walk [OF lw_reach_rep [OF Cons.prems(1)] legal Cons.prems(2) other]
  obtain xs1 where q1: "?q k = xs1 @ h # ?ys"
    and cb1: "\<forall>g \<in> set ys. g \<notin> stops [op] \<longrightarrow> lw_cb ?L g = lw_cb L g" by blast
  have "stops (op # p) = stops [op] \<union> stops p" by (auto simp: stops_def)
  with Cons.IH [OF lw_reach.op [OF Cons.prems(1) legal] q1] Cons.prems(3) cb1 show ?case
    by (auto simp: conj_commute cong: filter_cong)
qed

lemma insert_head_next:
  "y \<noteq> h \<Longrightarrow> y \<noteq> x \<Longrightarrow> ngx_queue_next y (ngx_queue_insert_head h x m) = ngx_queue_next y m"
  by (simp add: ngx_queue_insert_head_def ngx_queue_next_def Let_def)

text \<open>After it, the walk goes on by the pointer that the handle still has.\<close>

lemma script_after:
  assumes "lw_reach kind L q" and "q k = xs @ ys" and "kind h = Some k" and "h \<notin> set (q k)"
    and "list_all (\<lambda>op. kind (lw_handle op) \<noteq> None \<and>
      (case op of Lw_init g \<Rightarrow> False | Lw_start g c \<Rightarrow> g \<noteq> h | Lw_stop g \<Rightarrow> g = h | Lw_close g \<Rightarrow> g = h)) p"
  shows "\<exists>xs'. fold (lw_abs kind) p q k = xs' @ ys \<and> h \<notin> set (fold (lw_abs kind) p q k) \<and>
    (\<forall>g \<in> set ys. lw_cb (fold (lw_do kind) p L) g = lw_cb L g) \<and>
    ngx_queue_next (Node h) (lw_queues (fold (lw_do kind) p L)) = ngx_queue_next (Node h) (lw_queues L) \<and>
    lw_reach kind (fold (lw_do kind) p L) (fold (lw_abs kind) p q)"
  using assms
proof (induction p arbitrary: L q xs)
  case Nil
  then show ?case by auto
next
  case (Cons op p)
  note rep = lw_reach_rep [OF Cons.prems(1)]
  from Cons.prems(5) have legal: "lw_legal kind op L" by (cases op) auto
  have inact: "\<not> uv__is_active L h" using rep Cons.prems(3,4) by (simp add: lw_rep_def)
  have "\<exists>xs'. lw_abs kind op q k = xs' @ ys \<and> h \<notin> set (lw_abs kind op q k) \<and>
      (\<forall>g \<in> set ys. lw_cb (lw_do kind op L) g = lw_cb L g) \<and>
      ngx_queue_next (Node h) (lw_queues (lw_do kind op L)) = ngx_queue_next (Node h) (lw_queues L)"
  proof (cases op)
    case (Lw_start g c)
    with legal obtain kg where kg: "kind g = Some kg" by auto
    have act: "uv__is_active L g \<longleftrightarrow> g \<in> set (q kg)" using rep kg by (simp add: lw_rep_def)
    have "g \<noteq> h" using Cons.prems(5) Lw_start by simp
    moreover have "g \<notin> set ys" if "g \<notin> set (q kg)"
      using that lw_rep_distinct(3) [OF rep, of g k] Cons.prems(2) kg by auto
    ultimately show ?thesis
      using Lw_start kg act Cons.prems(2,4)
      by (cases "kg = k"; cases c) (auto simp: uv_name_start_def Let_def insert_head_next)
  next
    case (Lw_stop g)
    with Cons.prems inact show ?thesis by (auto simp: Let_def uv_name_stop_def remove1_idem)
  next
    case (Lw_close g)
    with Cons.prems inact show ?thesis
      by (auto simp: Let_def uv_name_stop_def uv__name_close_def remove1_idem)
  qed (use Cons.prems(5) in simp)
  then obtain xs1 where q1: "lw_abs kind op q k = xs1 @ ys" "h \<notin> set (lw_abs kind op q k)"
    "\<forall>g \<in> set ys. lw_cb (lw_do kind op L) g = lw_cb L g"
    "ngx_queue_next (Node h) (lw_queues (lw_do kind op L)) = ngx_queue_next (Node h) (lw_queues L)" by blast
  from Cons.IH [OF lw_reach.op [OF Cons.prems(1) legal] q1(1) Cons.prems(3) q1(2)] Cons.prems(5) q1(3,4)
  show ?case by auto
qed

lemma own_stop_split:
  "own_stop_last h p \<Longrightarrow> h \<in> stops p \<Longrightarrow>
   \<exists>p1 op p2. p = p1 @ op # p2 \<and> (op = Lw_stop h \<or> op = Lw_close h) \<and> h \<notin> stops p1 \<and>
     list_all (\<lambda>op. case op of Lw_stop g \<Rightarrow> g = h | Lw_close g \<Rightarrow> g = h | _ \<Rightarrow> True) p2"
proof (induction p)
  case (Cons op p)
  show ?case
  proof (cases "op = Lw_stop h \<or> op = Lw_close h")
    case True
    with Cons.prems(1) show ?thesis by (intro exI [of _ "[]"]) (auto simp: stops_Cons)
  next
    case False
    with Cons.prems have "own_stop_last h p" "h \<in> stops p" by (auto simp: stops_def split: if_splits)
    from Cons.IH [OF this] obtain p1 op' p2 where "p = p1 @ op' # p2" "op' = Lw_stop h \<or> op' = Lw_close h"
      "h \<notin> stops p1" "list_all (\<lambda>op. case op of Lw_stop g \<Rightarrow> g = h | Lw_close g \<Rightarrow> g = h | _ \<Rightarrow> True) p2" by blast
    with False show ?thesis by (intro exI [of _ "op # p1"]) (auto simp: stops_def)
  qed
qed (simp add: stops_def)

text \<open>One call of the walk: the pointer of the handle leads to the rest that was not stopped.\<close>

lemma one_call:
  assumes reach: "lw_reach kind L q" and q: "q k = xs @ h # ys" and ok: "callback_ok kind h p"
  defines "L' \<equiv> fold (lw_do kind) p L" and "q' \<equiv> fold (lw_abs kind) p q"
    and "zs \<equiv> filter (\<lambda>g. g \<notin> stops p) ys"
  shows "\<exists>xs'. q' k = xs' @ zs \<and> lw_reach kind L' q' \<and>
    ngx_queue_next (Node h) (lw_queues L') = hd (map Node zs @ [Head k]) \<and>
    (\<forall>g \<in> set zs. lw_cb L' g = lw_cb L g)"
proof -
  have kh: "kind h = Some k" using lw_rep_distinct(3) [OF lw_reach_rep [OF reach], of h k] q by simp
  have scr: "own_stop_last h p" "list_all (\<lambda>op. kind (lw_handle op) \<noteq> None \<and>
      (case op of Lw_init g \<Rightarrow> False | Lw_start g c \<Rightarrow> g \<noteq> h | _ \<Rightarrow> True)) p"
    using ok by (simp_all add: callback_ok_def)
  have before: "list_all (\<lambda>op. lw_handle op \<noteq> h \<and> kind (lw_handle op) \<noteq> None \<and> (\<forall>g. op \<noteq> Lw_init g)) p1"
    if "h \<notin> stops p1" "set p1 \<subseteq> set p" for p1
    unfolding list_all_iff
  proof
    fix op assume op: "op \<in> set p1"
    with that(2) scr(2) have "kind (lw_handle op) \<noteq> None \<and>
      (case op of Lw_init g \<Rightarrow> False | Lw_start g c \<Rightarrow> g \<noteq> h | _ \<Rightarrow> True)" by (auto simp: list_all_iff)
    moreover have "op \<noteq> Lw_stop h" "op \<noteq> Lw_close h" using op that(1) by (auto simp: stops_def)
    ultimately show "lw_handle op \<noteq> h \<and> kind (lw_handle op) \<noteq> None \<and> (\<forall>g. op \<noteq> Lw_init g)"
      by (cases op) simp_all
  qed
  show ?thesis
  proof (cases "h \<in> stops p")
    case False
    from script_before [OF reach q before [OF False subset_refl]] obtain xs' where
      s: "q' k = xs' @ h # zs" "\<forall>g \<in> set ys. g \<notin> stops p \<longrightarrow> lw_cb L' g = lw_cb L g" "lw_reach kind L' q'"
      unfolding L'_def q'_def zs_def by blast
    have "qrep (lw_queues L') (Head k) (map Node xs' @ Node h # map Node zs)"
      using lw_reach_rep [OF s(3)] s(1) unfolding lw_rep_def by (metis list.simps(9) map_append)
    from qrep_next [OF this] s show ?thesis by (intro exI [of _ "xs' @ [h]"]) (simp add: zs_def)
  next
    case True
    from own_stop_split [OF scr(1) True] obtain p1 op p2 where p: "p = p1 @ op # p2"
      "op = Lw_stop h \<or> op = Lw_close h" "h \<notin> stops p1"
      "list_all (\<lambda>op. case op of Lw_stop g \<Rightarrow> g = h | Lw_close g \<Rightarrow> g = h | _ \<Rightarrow> True) p2" by blast
    have "set p1 \<subseteq> set p" using p(1) by auto
    let ?L1 = "fold (lw_do kind) p1 L" and ?q1 = "fold (lw_abs kind) p1 q"
    let ?zs = "filter (\<lambda>g. g \<notin> stops p1) ys"
    from script_before [OF reach q before [OF p(3) \<open>set p1 \<subseteq> set p\<close>]] obtain xs1 where
      s1: "?q1 k = xs1 @ h # ?zs" "\<forall>g \<in> set ys. g \<notin> stops p1 \<longrightarrow> lw_cb ?L1 g = lw_cb L g"
        "lw_reach kind ?L1 ?q1" by blast
    note rep1 = lw_reach_rep [OF s1(3)]
    have d: "distinct (xs1 @ h # ?zs)" using lw_rep_distinct(1) [OF rep1, of k] s1(1) by simp
    have "h \<in> set (?q1 k)" using s1(1) by simp
    then have act: "uv__is_active ?L1 h" using rep1 kh by (simp add: lw_rep_def)
    have q1: "qrep (lw_queues ?L1) (Head k) (map Node xs1 @ Node h # map Node ?zs)"
      using rep1 s1(1) unfolding lw_rep_def by (metis list.simps(9) map_append)
    let ?L2 = "lw_do kind op ?L1" and ?q2 = "lw_abs kind op ?q1"
    have L2: "lw_queues ?L2 = ngx_queue_remove (Node h) (lw_queues ?L1)" "lw_cb ?L2 = lw_cb ?L1"
      using p(2) act by (auto simp: uv_name_stop_def uv__name_close_def)
    have q2: "?q2 k = xs1 @ ?zs" "h \<notin> set (?q2 k)"
      using p(2) kh s1(1) d by (auto simp: Let_def remove1_append)
    have "lw_legal kind op ?L1" using p(2) kh by auto
    note r2 = lw_reach.op [OF s1(3) this]
    have "list_all (\<lambda>op. kind (lw_handle op) \<noteq> None \<and> (case op of Lw_init g \<Rightarrow> False
        | Lw_start g c \<Rightarrow> g \<noteq> h | Lw_stop g \<Rightarrow> g = h | Lw_close g \<Rightarrow> g = h)) p2"
      unfolding list_all_iff
    proof
      fix o2 assume o2: "o2 \<in> set p2"
      then have "o2 \<in> set p" using p(1) by simp
      with scr(2) have "kind (lw_handle o2) \<noteq> None \<and>
          (case o2 of Lw_init g \<Rightarrow> False | Lw_start g c \<Rightarrow> g \<noteq> h | _ \<Rightarrow> True)" by (simp add: list_all_iff)
      moreover from o2 p(4) have "case o2 of Lw_stop g \<Rightarrow> g = h | Lw_close g \<Rightarrow> g = h | _ \<Rightarrow> True"
        by (simp add: list_all_iff)
      ultimately show "kind (lw_handle o2) \<noteq> None \<and> (case o2 of Lw_init g \<Rightarrow> False
          | Lw_start g c \<Rightarrow> g \<noteq> h | Lw_stop g \<Rightarrow> g = h | Lw_close g \<Rightarrow> g = h)"
        by (cases o2) simp_all
    qed
    from script_after [OF r2 q2(1) kh q2(2) this] obtain xs2 where
      s2: "q' k = xs2 @ ?zs" "\<forall>g \<in> set ?zs. lw_cb L' g = lw_cb ?L2 g" "lw_reach kind L' q'"
        "ngx_queue_next (Node h) (lw_queues L') = ngx_queue_next (Node h) (lw_queues ?L2)"
      unfolding L'_def q'_def p(1) by auto
    have "g \<notin> stops p1 \<longleftrightarrow> g \<notin> stops p" if "g \<in> set ys" for g
    proof -
      have "g \<noteq> h" using that lw_rep_distinct(1) [OF lw_reach_rep [OF reach], of k] q by auto
      moreover have "g \<in> stops p2 \<Longrightarrow> g = h" using p(4) by (auto simp: stops_def list_all_iff)
      moreover have "g \<in> stops p \<longleftrightarrow> g \<in> stops p1 \<or> g \<in> stops [op] \<or> g \<in> stops p2"
        unfolding p(1) by (auto simp: stops_def)
      moreover have "stops [op] = {h}" using p(2) by (auto simp: stops_def)
      ultimately show ?thesis by auto
    qed
    then have zs: "zs = ?zs" unfolding zs_def by (auto intro: filter_cong)
    have "ngx_queue_next (Node h) (lw_queues L') = hd (map Node ?zs @ [Head k])"
      using s2(4) L2(1) remove_keeps_next [OF q1] qrep_next [OF q1] by simp
    with s2 L2(2) s1(2) show ?thesis unfolding zs by auto
  qed
qed

section \<open>The phase\<close>

lemma lw_log_do [simp]: "lw_log (fold (lw_do kind) p L) = lw_log L"
proof (induction p arbitrary: L)
  case (Cons op p)
  have "lw_log (lw_do kind op L) = lw_log L"
    by (cases op) (simp_all add: uv_name_init_def uv_name_start_def uv_name_stop_def uv__name_close_def
        handle_op_defs uv__handle_init_def uv__set_artificial_error_def uv__active_handle_add_def
        uv__active_handle_rm_def set_flags_def)
  with Cons show ?case by simp
qed simp

lemma lw_cb_log [simp]: "lw_cb (L\<lparr>lw_log := es\<rparr>) = lw_cb L" "lw_queues (L\<lparr>lw_log := es\<rparr>) = lw_queues L"
  by simp_all

lemma walk_phase:
  assumes ok: "\<forall>h. callback_ok kind h (prog h)"
  shows "lw_reach kind L q \<Longrightarrow> q k = xs @ ys \<Longrightarrow>
    \<exists>L'. ngx_walk lw_queues (Head k) (lw_call (lw_user kind prog)) (hd (map Node ys @ [Head k])) L = Some (Ret L') \<and>
      lw_log L' = lw_log L @ map (\<lambda>h. (h, the (lw_cb L h))) (phase_calls prog ys) \<and>
      lw_reach kind L' (fold (lw_abs kind) (concat (map prog (phase_calls prog ys))) q)"
proof (induction ys arbitrary: L q xs rule: measure_induct_rule [of length])
  case (less ys)
  show ?case
  proof (cases ys)
    case Nil
    with less.prems show ?thesis by (subst ngx_walk.simps) simp
  next
    case (Cons h hs)
    note rep = lw_reach_rep [OF less.prems(1)]
    have "h \<in> set (q k)" using less.prems(2) Cons by simp
    then have "lw_cb L h \<noteq> None" using rep unfolding lw_rep_def by blast
    then obtain c where c: "lw_cb L h = Some c" by blast
    have "qrep (lw_queues L) (Head k) (map Node xs @ Node h # map Node hs)"
      using rep less.prems(2) Cons unfolding lw_rep_def by (metis list.simps(9) map_append)
    then have ne: "\<not> ngx_queue_empty (Head k) (lw_queues L)" using qrep_empty by fastforce
    let ?L = "L\<lparr>lw_log := lw_log L @ [(h, c)]\<rparr>"
    let ?L1 = "fold (lw_do kind) (prog h) ?L" and ?q1 = "fold (lw_abs kind) (prog h) q"
    let ?zs = "filter (\<lambda>g. g \<notin> stops (prog h)) hs"
    have call: "lw_call (lw_user kind prog) (Node h) L = Ret ?L1" by (simp add: lw_call_def lw_user_def c)
    have q: "q k = xs @ h # hs" using less.prems(2) Cons by simp
    from one_call [OF lw_reach.log [OF less.prems(1)] q ok [rule_format]] obtain xs1 where
      s1: "?q1 k = xs1 @ ?zs" "lw_reach kind ?L1 ?q1"
        "ngx_queue_next (Node h) (lw_queues ?L1) = hd (map Node ?zs @ [Head k])"
        "\<forall>g \<in> set ?zs. lw_cb ?L1 g = lw_cb L g" by fastforce
    have "length ?zs < length ys" using Cons length_filter_le [of _ hs] by (simp add: le_imp_less_Suc)
    from less.IH [OF this s1(2,1)] obtain L' where L':
      "ngx_walk lw_queues (Head k) (lw_call (lw_user kind prog)) (hd (map Node ?zs @ [Head k])) ?L1 = Some (Ret L')"
      "lw_log L' = lw_log ?L1 @ map (\<lambda>h. (h, the (lw_cb ?L1 h))) (phase_calls prog ?zs)"
      "lw_reach kind L' (fold (lw_abs kind) (concat (map prog (phase_calls prog ?zs))) ?q1)" by blast
    have sub: "set (phase_calls prog zs) \<subseteq> set zs" for zs
      by (induction prog zs rule: phase_calls.induct) auto
    have "map (\<lambda>h. (h, the (lw_cb ?L1 h))) (phase_calls prog ?zs) =
        map (\<lambda>h. (h, the (lw_cb L h))) (phase_calls prog ?zs)"
      by (intro map_cong refl) (use s1(4) sub [of ?zs] in auto)
    with L'(2) have "lw_log L' = lw_log L @ map (\<lambda>h. (h, the (lw_cb L h))) (phase_calls prog ys)"
      using Cons c by simp
    moreover have "ngx_walk lw_queues (Head k) (lw_call (lw_user kind prog)) (Node h) L = Some (Ret L')"
      using ne call s1(3) L'(1) by (subst ngx_walk.simps) simp
    ultimately show ?thesis using L'(3) Cons by (intro exI [of _ L']) simp
  qed
qed

lemma phase_calls_all:
  "distinct hs \<Longrightarrow> (\<And>g h. g \<in> set hs \<Longrightarrow> h \<in> set hs \<Longrightarrow> h \<in> stops (prog g) \<Longrightarrow> h = g) \<Longrightarrow> phase_calls prog hs = hs"
proof (induction hs)
  case (Cons h hs)
  have "filter (\<lambda>g. g \<notin> stops (prog h)) hs = hs"
    using Cons.prems by (auto simp: filter_id_conv)
  with Cons show ?case by simp
qed simp

text \<open>
  C32. The prepare, check and idle phases. In every state that a program reaches by initializing,
  starting, stopping and closing handles of the three types, the queue of a type stands for a list
  in which the handle started last comes first. A phase calls the handles of that list in order,
  each at most once and with the callback it was started with, and ends, although the callbacks
  start and stop handles while the pointers are walked: a handle that is stopped before its turn
  is left out, a handle that is started meanwhile waits for the next phase, and when no callback
  stops another handle of the list, every one is called. The queues stand for the right lists
  afterwards, too. A callback may stop its own handle, but not restart it, and may not stop another
  handle after its own.
\<close>

theorem uv__run_name_calls_all:
  assumes "lw_reach kind L q" and "\<forall>h. callback_ok kind h (prog h)"
  shows "\<exists>L'. uv__run_name (lw_user kind prog) k L = Some (Ret L') \<and>
    lw_log L' = lw_log L @ map (\<lambda>h. (h, the (lw_cb L h))) (phase_calls prog (q k)) \<and>
    lw_reach kind L' (fold (lw_abs kind) (concat (map prog (phase_calls prog (q k)))) q) \<and>
    ((\<forall>g \<in> set (q k). \<forall>h \<in> set (q k). h \<in> stops (prog g) \<longrightarrow> h = g) \<longrightarrow> phase_calls prog (q k) = q k)"
proof -
  note rep = lw_reach_rep [OF assms(1)]
  have "qrep (lw_queues L) (Head k) (map Node (q k))" using rep by (simp add: lw_rep_def)
  then have "ngx_queue_head (Head k) (lw_queues L) = hd (map Node (q k) @ [Head k])"
    by (auto simp: qrep_def ngx_queue_head_def dest: linked_first)
  with walk_phase [OF assms(2,1), of k "[]" "q k"] phase_calls_all [OF lw_rep_distinct(1) [OF rep]] show ?thesis
    unfolding uv__run_name_def ngx_foreach_do_def by auto
qed

text \<open>A loop without handles, and one with three idle handles, started in the order 1, 2, 3.\<close>

definition blank_os :: os where
  "blank_os = \<lparr>script = [], calls = [], no_accept4 = False, no_cloexec = False, no_pipe2 = False\<rparr>"

definition blank_lw :: "uint64 \<Rightarrow> lw_loop" where
  "blank_lw now =
     \<lparr>handles = (\<lambda>_. \<lparr>h_type = UV_UNKNOWN_HANDLE, h_flags = 0, h_close_cb = None\<rparr>),
      handle_queue = [], active_handles = 0, active_reqs = [], closing_handles = [],
      last_err = uv_ok_err, loop_time = now,
      timers = (\<lambda>_. \<lparr>timer_cb = None, timer_timeout = 0, timer_repeat = 0\<rparr>),
      timer_handles = RB_NULL,
      ios = (\<lambda>_. \<lparr>w_cb = 0, w_fd = - 1, w_events = 0, w_pevents = 0\<rparr>),
      watchers = [], nwatchers = 0, nfds = 0, watcher_queue = [], pending_queue = [],
      osys = blank_os,
      lw_queues = fold (\<lambda>k. ngx_queue_init (Head k)) [PREPARE, CHECK, IDLE]
        \<lparr>q_prev = (\<lambda>_. Head IDLE), q_next = (\<lambda>_. Head IDLE)\<rparr>,
      lw_cb = (\<lambda>_. None)\<rparr>"

definition no_watchers :: lw_logged where
  "no_watchers = lw_loop.extend (blank_lw 0) (lw_logged.fields [])"

definition idle_kind :: "nat \<Rightarrow> lw_kind option" where
  "idle_kind h = (if h \<in> {1, 2, 3, 4} then Some IDLE else None)"

definition idle_ops :: "lw_op list" where
  "idle_ops = [Lw_init 1, Lw_init 2, Lw_init 3, Lw_init 4, Lw_start 1 (Some 10), Lw_start 2 (Some 20),
     Lw_start 3 (Some 30)]"

definition three_idle :: lw_logged where
  "three_idle = fold (lw_do idle_kind) idle_ops no_watchers"

text \<open>Handle 3 stops handle 1 and starts handle 4; handle 2 stops itself.\<close>

definition idle_prog :: "nat \<Rightarrow> lw_op list" where
  "idle_prog h = (if h = 3 then [Lw_stop 1, Lw_start 4 (Some 40)] else if h = 2 then [Lw_stop 2] else [])"

fun abs_legal :: "(nat \<Rightarrow> lw_kind option) \<Rightarrow> lw_op list \<Rightarrow> (lw_kind \<Rightarrow> nat list) \<Rightarrow> bool" where
  "abs_legal kind [] q \<longleftrightarrow> True"
| "abs_legal kind (op # ops) q \<longleftrightarrow> kind (lw_handle op) \<noteq> None \<and>
     (case op of Lw_init h \<Rightarrow> h \<notin> set (q (the (kind h))) | _ \<Rightarrow> True) \<and> abs_legal kind ops (lw_abs kind op q)"

lemma abs_legal_reach:
  "lw_reach kind L q \<Longrightarrow> abs_legal kind ops q \<Longrightarrow> lw_reach kind (fold (lw_do kind) ops L) (fold (lw_abs kind) ops q)"
proof (induction ops arbitrary: L q)
  case (Cons op ops)
  from lw_reach_rep [OF Cons.prems(1)] Cons.prems(2) have "lw_legal kind op L"
    by (cases op) (auto simp: lw_rep_def)
  with Cons lw_reach.op [OF Cons.prems(1)] show ?case by simp
qed simp

lemma three_idle_reach: "lw_reach idle_kind three_idle (\<lambda>k. if k = IDLE then [3, 2, 1] else [])"
proof -
  have all: "(k = PREPARE \<or> k = CHECK \<or> k = IDLE)" for k by (cases k) auto
  have "lw_queues no_watchers = lw_queues (blank_lw 0)" "uv__is_active no_watchers h = uv__is_active (blank_lw 0) h" for h
    by (simp_all add: no_watchers_def lw_loop.defs uv__is_active_def flags_of_def)
  moreover have "qrep (lw_queues (blank_lw 0)) (Head k) []" for k
    using all [of k] by (auto simp: blank_lw_def qrep_def ngx_queue_init_def)
  moreover have "\<not> uv__is_active (blank_lw 0) h" for h
    by (simp add: blank_lw_def uv__is_active_def flags_of_def flag_on_def)
  ultimately have "lw_reach idle_kind no_watchers (\<lambda>_. [])" by (intro lw_reach.start) simp_all
  then have "lw_reach idle_kind three_idle (fold (lw_abs idle_kind) idle_ops (\<lambda>_. []))"
    unfolding three_idle_def by (rule abs_legal_reach) (simp add: idle_ops_def idle_kind_def Let_def)
  moreover have "fold (lw_abs idle_kind) idle_ops (\<lambda>_. []) = (\<lambda>k. if k = IDLE then [3, 2, 1] else [])"
    by (simp add: idle_ops_def idle_kind_def Let_def fun_eq_iff)
  ultimately show ?thesis by simp
qed

theorem uv__run_name_calls_all_witness:
  "\<exists>L. uv__run_name (lw_user idle_kind idle_prog) IDLE three_idle = Some (Ret L) \<and>
     map fst (lw_log L) = [3, 2]"
proof -
  have "\<forall>h. callback_ok idle_kind h (idle_prog h)"
    by (simp add: callback_ok_def idle_prog_def idle_kind_def)
  from uv__run_name_calls_all [OF three_idle_reach this, of IDLE] obtain L where
    L: "uv__run_name (lw_user idle_kind idle_prog) IDLE three_idle = Some (Ret L)"
      "lw_log L = lw_log three_idle @ map (\<lambda>h. (h, the (lw_cb three_idle h))) (phase_calls idle_prog [3, 2, 1])"
    by auto
  have "phase_calls idle_prog [3, 2, 1] = [3, 2]" by (simp add: idle_prog_def stops_Cons)
  moreover have "lw_log three_idle = []" by (simp add: three_idle_def no_watchers_def lw_logged.defs lw_loop.defs)
  ultimately show ?thesis using L by (intro exI [of _ L]) (simp add: comp_def)
qed

text \<open>
  Why the order of stops matters: a handle that has stopped itself keeps its pointer to the next
  handle, which is called although the same callback has stopped it afterwards.
\<close>

definition wrong_order :: "nat \<Rightarrow> lw_op list" where
  "wrong_order h = (if h = 3 then [Lw_stop 3, Lw_stop 2] else [])"

primrec wrong_calls :: "nat list \<Rightarrow> lw_logged" where
  "wrong_calls [] = three_idle"
| "wrong_calls (h # hs) = (let L = wrong_calls hs in
     fold (lw_do idle_kind) (wrong_order h) (L\<lparr>lw_log := lw_log L @ [(h, the (lw_cb L h))]\<rparr>))"

lemma uv__run_name_calls_stopped:
  "\<exists>L. uv__run_name (lw_user idle_kind wrong_order) IDLE three_idle = Some (Ret L) \<and>
     map fst (lw_log L) = [3, 2, 1] \<and> \<not> uv__is_active L 2"
proof -
  let ?w = "ngx_walk lw_queues (Head IDLE) (lw_call (lw_user idle_kind wrong_order))"
  have call: "lw_call (lw_user idle_kind wrong_order) (Node h) (wrong_calls hs) = Ret (wrong_calls (h # hs))"
    if "lw_cb (wrong_calls hs) h = Some c" for h hs c
    using that by (simp add: lw_call_def lw_user_def Let_def)
  have step: "?w (Node h) (wrong_calls hs) =
      ?w (ngx_queue_next (Node h) (lw_queues (wrong_calls (h # hs)))) (wrong_calls (h # hs))"
    if "lw_cb (wrong_calls hs) h = Some c" "\<not> ngx_queue_empty (Head IDLE) (lw_queues (wrong_calls hs))" for h hs c
    using call [OF that(1)] that(2) by (subst ngx_walk.simps) simp
  have "lw_cb (wrong_calls []) 3 = Some 30" "lw_cb (wrong_calls [3]) 2 = Some 20"
    "lw_cb (wrong_calls [2, 3]) 1 = Some 10"
    "\<not> ngx_queue_empty (Head IDLE) (lw_queues (wrong_calls []))"
    "\<not> ngx_queue_empty (Head IDLE) (lw_queues (wrong_calls [3]))"
    "\<not> ngx_queue_empty (Head IDLE) (lw_queues (wrong_calls [2, 3]))"
    "ngx_queue_head (Head IDLE) (lw_queues three_idle) = Node 3"
    "ngx_queue_next (Node 3) (lw_queues (wrong_calls [3])) = Node 2"
    "ngx_queue_next (Node 2) (lw_queues (wrong_calls [2, 3])) = Node 1"
    "ngx_queue_next (Node 1) (lw_queues (wrong_calls [1, 2, 3])) = Head IDLE" by code_simp+
  note f = this
  have "uv__run_name (lw_user idle_kind wrong_order) IDLE three_idle = ?w (Node 3) (wrong_calls [])"
    by (simp add: uv__run_name_def ngx_foreach_do_def f(7))
  also have "\<dots> = ?w (Head IDLE) (wrong_calls [1, 2, 3])"
    unfolding step [OF f(1,4)] f(8) step [OF f(2,5)] f(9) step [OF f(3,6)] f(10) ..
  also have "\<dots> = Some (Ret (wrong_calls [1, 2, 3]))" by (subst ngx_walk.simps) simp
  finally have "uv__run_name (lw_user idle_kind wrong_order) IDLE three_idle = Some (Ret (wrong_calls [1, 2, 3]))" .
  moreover have "map fst (lw_log (wrong_calls [1, 2, 3])) = [3, 2, 1]" "\<not> uv__is_active (wrong_calls [1, 2, 3]) 2"
    by code_simp+
  ultimately show ?thesis by (intro exI conjI)
qed

end
