(* ===== verification/Async.thy ===== *)
theory Async
  imports Loop_Watcher
begin

text \<open>
  Async handles: \<open>src/unix/async.c\<close>. A handle has a flag \<open>pending\<close>; \<open>uv_async_send\<close>, which other
  threads may call, sets it and writes one byte to a pipe unless it was set before; the loop
  empties the pipe and calls the callbacks of the pending handles.

  The pipe is a parameter: a record of functions on the state of the kernel. The queue of the
  handles is kept at pointer level; its head is \<open>None\<close>.
\<close>

section \<open>State\<close>

record 'k pipe_kernel =
  pipe_read :: "'k \<Rightarrow> int \<Rightarrow> nat \<Rightarrow> answer \<times> 'k"
  pipe_write :: "'k \<Rightarrow> int \<Rightarrow> answer \<times> 'k"

record async_loop = lw_loop +
  async_handles :: "nat option ngx_heap"
  async_pending :: "nat \<Rightarrow> bool"
  async_cb :: "nat \<Rightarrow> nat"
  async_pipefd :: "int \<times> int"
  async_watcher :: nat

section \<open>Operations\<close>

text \<open>The exchange of \<open>pending\<close> with 1; the result is its old value. A cheap read comes first.\<close>

definition async_exchange :: "('m) async_loop_scheme \<Rightarrow> nat \<Rightarrow> bool \<times> ('m) async_loop_scheme" where
  "async_exchange L h = (async_pending L h, L\<lparr>async_pending := (async_pending L)(h := True)\<rparr>)"

definition uv__async_make_pending :: "('m) async_loop_scheme \<Rightarrow> nat \<Rightarrow> bool \<times> ('m) async_loop_scheme" where
  "uv__async_make_pending L h = (if async_pending L h then (True, L) else async_exchange L h)"

text \<open>\<open>uv__async_init\<close> makes the pipe when the first handle needs it. The callback
  of the watcher, \<open>uv__async_io\<close>, has the number \<open>io_cb\<close>.\<close>

definition uv__async_init :: "nat \<Rightarrow> ('m) async_loop_scheme \<Rightarrow> (answer \<times> ('m) async_loop_scheme) outcome" where
  "uv__async_init io_cb L =
     (if fst (async_pipefd L) \<noteq> - 1 then Ret (Val 0, L)
      else obind (on_os (uv__make_pipe UV__F_NONBLOCK) L) (\<lambda>(r, L).
        case r of
          Fds a b \<Rightarrow>
            let L = L\<lparr>async_pipefd := (a, b)\<rparr>
            in obind (uv__io_init L (async_watcher L) (Some io_cb) a) (\<lambda>L.
               obind (uv__io_start L (async_watcher L) UV__POLLIN) (\<lambda>L. Ret (Val 0, L)))
        | _ \<Rightarrow> Ret (r, L)))"

definition uv_async_init :: "nat \<Rightarrow> ('m) async_loop_scheme \<Rightarrow> nat \<Rightarrow> nat \<Rightarrow>
    (int \<times> ('m) async_loop_scheme) outcome" where
  "uv_async_init io_cb L h cb =
     obind (uv__async_init io_cb L) (\<lambda>(r, L).
       case r of
         Err e \<Rightarrow> Ret (uv__set_sys_error L e)
       | _ \<Rightarrow>
           let L = uv__handle_init L h UV_ASYNC;
               L = L\<lparr>async_cb := (async_cb L)(h := cb), async_pending := (async_pending L)(h := False),
                     async_handles := ngx_queue_insert_tail None (Some h) (async_handles L)\<rparr>
           in Ret (0, uv__handle_start L h))"

text \<open>One try of the \<open>write\<close>, and the loop around it.\<close>

definition async_write_result :: "answer \<Rightarrow> ('m) async_loop_scheme \<Rightarrow> (int \<times> ('m) async_loop_scheme) outcome" where
  "async_write_result r L =
     (case r of
        Err e \<Rightarrow> if e \<noteq> EAGAIN then Ret (uv__set_sys_error L e) else Ret (0, L)
      | Val n \<Rightarrow> assert_that (n = 1) (Ret (0, L))
      | _ \<Rightarrow> Abort)"

partial_function (option) async_write ::
    "'k pipe_kernel \<Rightarrow> 'k \<Rightarrow> ('m) async_loop_scheme \<Rightarrow> ((int \<times> ('m) async_loop_scheme) outcome \<times> 'k) option" where
  "async_write K k L =
     (case pipe_write K k (snd (async_pipefd L)) of
        (r, k) \<Rightarrow>
          if r = Err EINTR then async_write K k L else Some (async_write_result r L, k))"

definition uv_async_send ::
    "'k pipe_kernel \<Rightarrow> 'k \<Rightarrow> ('m) async_loop_scheme \<Rightarrow> nat \<Rightarrow>
     ((int \<times> ('m) async_loop_scheme) outcome \<times> 'k) option" where
  "uv_async_send K k L h =
     (case uv__async_make_pending L h of
        (was, L) \<Rightarrow> if was then Some (Ret (0, L), k) else async_write K k L)"

definition uv__async_close :: "('m) async_loop_scheme \<Rightarrow> nat \<Rightarrow> ('m) async_loop_scheme" where
  "uv__async_close L h =
     uv__handle_stop (L\<lparr>async_handles := ngx_queue_remove (Some h) (async_handles L)\<rparr>) h"

text \<open>What a result of \<open>read\<close> into the buffer of 1024 bytes means for the loop around it.\<close>

datatype read_next = Read_more | Read_done | Read_abort

definition async_read_next :: "answer \<Rightarrow> read_next" where
  "async_read_next r =
     (case r of
        Val n \<Rightarrow> if n = 1024 then Read_more else Read_done
      | Err e \<Rightarrow> if e = EAGAIN then Read_done else if e = EINTR then Read_more else Read_abort
      | _ \<Rightarrow> Read_abort)"

partial_function (option) async_drain :: "'k pipe_kernel \<Rightarrow> int \<Rightarrow> 'k \<Rightarrow> (unit outcome \<times> 'k) option" where
  "async_drain K fd k =
     (case pipe_read K k fd 1024 of
        (r, k) \<Rightarrow>
          (case async_read_next r of
             Read_more \<Rightarrow> async_drain K fd k
           | Read_done \<Rightarrow> Some (Ret (), k)
           | Read_abort \<Rightarrow> Some (Abort, k)))"

text \<open>The body of the walk: \<open>cb c h L\<close> is the user's callback \<open>c\<close> on the handle \<open>h\<close>.\<close>

definition async_clear :: "nat \<Rightarrow> ('m) async_loop_scheme \<Rightarrow> ('m) async_loop_scheme" where
  "async_clear h L = L\<lparr>async_pending := (async_pending L)(h := False)\<rparr>"

definition async_visit :: "(nat \<Rightarrow> nat \<Rightarrow> ('m) async_loop_scheme \<Rightarrow> ('m) async_loop_scheme outcome) \<Rightarrow>
    nat option \<Rightarrow> ('m) async_loop_scheme \<Rightarrow> ('m) async_loop_scheme outcome" where
  "async_visit cb q L =
     (case q of
        None \<Rightarrow> Abort
      | Some h \<Rightarrow>
          if \<not> async_pending L h then Ret L
          else cb (async_cb L h) h (async_clear h L))"

definition uv__async_io ::
    "'k pipe_kernel \<Rightarrow> (nat \<Rightarrow> nat \<Rightarrow> ('m) async_loop_scheme \<Rightarrow> ('m) async_loop_scheme outcome) \<Rightarrow>
     'k \<Rightarrow> ('m) async_loop_scheme \<Rightarrow> (('m) async_loop_scheme outcome \<times> 'k) option" where
  "uv__async_io K cb k L =
     (case async_drain K (fst (async_pipefd L)) k of
        None \<Rightarrow> None
      | Some (r, k) \<Rightarrow>
          (case r of
             Abort \<Rightarrow> Some (Abort, k)
           | Starve \<Rightarrow> Some (Starve, k)
           | Ret _ \<Rightarrow> map_option (\<lambda>r. (r, k)) (ngx_foreach_do async_handles None (async_visit cb) L)))"

section \<open>Senders in other threads\<close>

text \<open>
  The loop thread and any number of sending threads, statement by statement. A sender reads the
  flag, exchanges it when it was 0, and writes when the exchange gave 0. The loop reads the pipe,
  and for each handle of the queue tests the flag, clears it and calls the callback; between any
  two of these other threads run. \<open>Idle\<close> is the loop outside \<open>uv__async_io\<close>; the poll may start it at
  any time. What a callback sends is a step of a sender.

  \<open>peeked\<close> holds the handles of the senders between the cheap read and the exchange, \<open>unwritten\<close>
  those between the exchange and the write. \<open>owed h\<close> says that some \<open>uv_async_send\<close> on \<open>h\<close> has passed
  its last look at the flag (and so returns, or writes and returns) since the last time a callback
  of \<open>h\<close> began: a callback must still come. \<open>raised\<close> records the exchanges that found 0, \<open>called\<close>
  the callbacks.
\<close>

datatype async_pc = Idle | Reading | Testing "nat option" | Clearing nat | Calling nat

record ('k, 'm) async_sys =
  as_kernel :: 'k
  as_loop :: "'m async_loop_scheme"
  as_pc :: async_pc
  peeked :: "nat list"
  unwritten :: "nat list"
  owed :: "nat \<Rightarrow> bool"
  raised :: "nat list"
  called :: "nat list"

inductive async_step :: "'k pipe_kernel \<Rightarrow> ('k, 'm) async_sys \<Rightarrow> ('k, 'm) async_sys \<Rightarrow> bool"
  for K where
  peek_set: "async_pending (as_loop S) h \<Longrightarrow> async_step K S (S\<lparr>owed := (owed S)(h := True)\<rparr>)"
| peek_clear: "\<not> async_pending (as_loop S) h \<Longrightarrow> async_step K S (S\<lparr>peeked := peeked S @ [h]\<rparr>)"
| exchange: "h \<in> set (peeked S) \<Longrightarrow> async_exchange (as_loop S) h = (was, L) \<Longrightarrow>
    async_step K S (S\<lparr>as_loop := L, peeked := remove1 h (peeked S), owed := (owed S)(h := True),
      unwritten := (if was then unwritten S else unwritten S @ [h]),
      raised := (if was then raised S else raised S @ [h])\<rparr>)"
| push: "h \<in> set (unwritten S) \<Longrightarrow> pipe_write K (as_kernel S) (snd (async_pipefd (as_loop S))) = (r, k) \<Longrightarrow>
    async_step K S (S\<lparr>as_kernel := k,
      unwritten := (if r = Err EINTR then unwritten S else remove1 h (unwritten S))\<rparr>)"
| wake: "as_pc S = Idle \<Longrightarrow> async_step K S (S\<lparr>as_pc := Reading\<rparr>)"
| read_more: "as_pc S = Reading \<Longrightarrow> pipe_read K (as_kernel S) (fst (async_pipefd (as_loop S))) 1024 = (r, k) \<Longrightarrow>
    async_read_next r = Read_more \<Longrightarrow> async_step K S (S\<lparr>as_kernel := k\<rparr>)"
| read_done: "as_pc S = Reading \<Longrightarrow> pipe_read K (as_kernel S) (fst (async_pipefd (as_loop S))) 1024 = (r, k) \<Longrightarrow>
    async_read_next r = Read_done \<Longrightarrow>
    async_step K S (S\<lparr>as_kernel := k, as_pc := Testing (ngx_queue_head None (async_handles (as_loop S)))\<rparr>)"
| not_pending: "as_pc S = Testing (Some h) \<Longrightarrow> \<not> async_pending (as_loop S) h \<Longrightarrow>
    async_step K S (S\<lparr>as_pc := Testing (ngx_queue_next (Some h) (async_handles (as_loop S)))\<rparr>)"
| is_pending: "as_pc S = Testing (Some h) \<Longrightarrow> async_pending (as_loop S) h \<Longrightarrow>
    async_step K S (S\<lparr>as_pc := Clearing h\<rparr>)"
| clear: "as_pc S = Clearing h \<Longrightarrow>
    async_step K S (S\<lparr>as_loop := async_clear h (as_loop S), as_pc := Calling h\<rparr>)"
| call: "as_pc S = Calling h \<Longrightarrow>
    async_step K S (S\<lparr>owed := (owed S)(h := False), called := called S @ [h],
      as_pc := Testing (ngx_queue_next (Some h) (async_handles (as_loop S)))\<rparr>)"
| finish: "as_pc S = Testing None \<Longrightarrow> async_step K S (S\<lparr>as_pc := Idle\<rparr>)"

text \<open>Without other threads in between, these steps of the loop are \<open>async_visit\<close>.\<close>

lemma visit_steps:
  assumes "as_pc S = Testing (Some h)"
  shows "\<exists>S'. (async_step K)\<^sup>*\<^sup>* S S' \<and> async_visit (\<lambda>c h. Ret) (Some h) (as_loop S) = Ret (as_loop S') \<and>
    as_pc S' = Testing (ngx_queue_next (Some h) (async_handles (as_loop S)))"
proof (cases "async_pending (as_loop S) h")
  case False
  from r_into_rtranclp [of "async_step K", OF async_step.not_pending [OF assms False]] False show ?thesis
    by (intro exI [of _ "S\<lparr>as_pc := Testing (ngx_queue_next (Some h) (async_handles (as_loop S)))\<rparr>"])
      (simp add: async_visit_def)
next
  case True
  let ?S1 = "S\<lparr>as_pc := Clearing h\<rparr>"
  let ?S2 = "?S1\<lparr>as_loop := async_clear h (as_loop S), as_pc := Calling h\<rparr>"
  let ?S3 = "?S2\<lparr>owed := (owed S)(h := False), called := called S @ [h],
    as_pc := Testing (ngx_queue_next (Some h) (async_handles (as_loop ?S2)))\<rparr>"
  have "async_step K S ?S1" by (rule async_step.is_pending [OF assms True])
  moreover have "async_step K ?S1 ?S2" using async_step.clear [of ?S1 h K] by simp
  moreover have "async_step K ?S2 ?S3" using async_step.call [of ?S2 h K] by simp
  ultimately have "(async_step K)\<^sup>*\<^sup>* S ?S3" by (meson converse_rtranclp_into_rtranclp rtranclp.rtrancl_refl)
  with True show ?thesis by (intro exI [of _ ?S3]) (simp add: async_visit_def async_clear_def)
qed

text \<open>The start: the handles \<open>hs\<close> are in the queue and nothing has been sent.\<close>

inductive async_reach :: "'k pipe_kernel \<Rightarrow> nat list \<Rightarrow> ('k, 'm) async_sys \<Rightarrow> bool" for K hs where
  start: "qrep (async_handles (as_loop S)) None (map Some hs) \<Longrightarrow> distinct hs \<Longrightarrow>
    (\<forall>h. \<not> async_pending (as_loop S) h) \<Longrightarrow> as_pc S = Idle \<Longrightarrow> peeked S = [] \<Longrightarrow> unwritten S = [] \<Longrightarrow>
    (\<forall>h. \<not> owed S h) \<Longrightarrow> raised S = [] \<Longrightarrow> called S = [] \<Longrightarrow> async_reach K hs S"
| step: "async_reach K hs S \<Longrightarrow> async_step K S S' \<Longrightarrow> async_reach K hs S'"

text \<open>What a pipe documents, for its number of bytes \<open>level\<close>.\<close>

definition pipe_documented :: "'k pipe_kernel \<Rightarrow> ('k \<Rightarrow> nat) \<Rightarrow> bool" where
  "pipe_documented K level \<longleftrightarrow>
     (\<forall>k fd r k'. pipe_write K k fd = (r, k') \<longrightarrow>
        r = Err EINTR \<and> level k' = level k \<or> r = Val 1 \<and> level k' = Suc (level k) \<or>
        r = Err EAGAIN \<and> level k' = level k \<and> 0 < level k) \<and>
     (\<forall>k fd n r k'. 0 < n \<longrightarrow> pipe_read K k fd n = (r, k') \<longrightarrow>
        r = Err EINTR \<and> level k' = level k \<or> r = Err EAGAIN \<and> level k = 0 \<and> level k' = 0 \<or>
        (\<exists>m. r = Val (int m) \<and> 0 < m \<and> m \<le> n \<and> m \<le> level k \<and> level k' = level k - m))"

definition ahead :: "nat list \<Rightarrow> nat option \<Rightarrow> nat set" where
  "ahead hs q = (case q of None \<Rightarrow> {} | Some h \<Rightarrow> set (dropWhile (\<lambda>x. x \<noteq> h) hs))"

text \<open>The loop has still to look at the handle \<open>h\<close>, or to clear its flag.\<close>

fun still_seen :: "nat list \<Rightarrow> nat option ngx_heap \<Rightarrow> async_pc \<Rightarrow> nat \<Rightarrow> bool" where
  "still_seen hs m Idle h \<longleftrightarrow> False"
| "still_seen hs m Reading h \<longleftrightarrow> True"
| "still_seen hs m (Testing q) h \<longleftrightarrow> h \<in> ahead hs q"
| "still_seen hs m (Clearing g) h \<longleftrightarrow> h \<in> ahead hs (Some g)"
| "still_seen hs m (Calling g) h \<longleftrightarrow> h \<in> ahead hs (ngx_queue_next (Some g) m)"

text \<open>Somebody will still look at a pending handle.\<close>

definition noticed :: "nat list \<Rightarrow> ('k \<Rightarrow> nat) \<Rightarrow> ('k, 'm) async_sys \<Rightarrow> nat \<Rightarrow> bool" where
  "noticed hs level S h \<longleftrightarrow> 0 < level (as_kernel S) \<or> h \<in> set (unwritten S) \<or> still_seen hs (async_handles (as_loop S)) (as_pc S) h"

definition async_inv :: "nat list \<Rightarrow> ('k \<Rightarrow> nat) \<Rightarrow> ('k, 'm) async_sys \<Rightarrow> bool" where
  "async_inv hs level S \<longleftrightarrow>
     qrep (async_handles (as_loop S)) None (map Some hs) \<and> distinct hs \<and>
     (\<forall>h. as_pc S \<in> {Testing (Some h), Clearing h, Calling h} \<longrightarrow> h \<in> set hs) \<and>
     (\<forall>h. as_pc S = Clearing h \<longrightarrow> async_pending (as_loop S) h) \<and>
     (\<forall>h. owed S h \<longrightarrow> async_pending (as_loop S) h \<or> as_pc S = Calling h) \<and>
     (\<forall>h \<in> set hs. async_pending (as_loop S) h \<longrightarrow> noticed hs level S h) \<and>
     (\<forall>h. count_list (raised S) h = count_list (called S) h +
        of_bool (async_pending (as_loop S) h) + of_bool (as_pc S = Calling h))"

lemma walk_node:
  assumes "qrep m None (map Some hs)" and "distinct hs" and "h \<in> set hs"
  obtains xs ys where "hs = xs @ h # ys" "ngx_queue_next (Some h) m = hd (map Some ys @ [None])"
    "ahead hs (Some h) = insert h (ahead hs (ngx_queue_next (Some h) m))"
    "\<And>v. ngx_queue_next (Some h) m = Some v \<Longrightarrow> v \<in> set hs"
proof -
  from assms(3) obtain xs ys where hs: "hs = xs @ h # ys" by (auto simp: in_set_conv_decomp)
  have nxt: "ngx_queue_next (Some h) m = hd (map Some ys @ [None])"
    using assms(1) hs qrep_next [of m None "map Some xs" "Some h" "map Some ys"] by simp
  have dw: "dropWhile (\<lambda>x. x \<noteq> v) hs = v # zs" if "hs = us @ v # zs" for us v zs
    using that assms(2) by (subst that) (auto simp: dropWhile_append3 intro!: dropWhile_eq_self_iff [THEN iffD2])
  have "ahead hs (Some h) = insert h (ahead hs (ngx_queue_next (Some h) m))"
  proof (cases ys)
    case Nil
    with dw [OF hs] nxt show ?thesis by (simp add: ahead_def)
  next
    case (Cons y zs)
    then have "hs = (xs @ [h]) @ y # zs" using hs by simp
    from dw [OF this] dw [OF hs] nxt Cons show ?thesis by (simp add: ahead_def)
  qed
  moreover have "v \<in> set hs" if "ngx_queue_next (Some h) m = Some v" for v
    using that nxt hs by (cases ys) auto
  ultimately show ?thesis using that hs nxt by blast
qed

lemma async_inv_step:
  assumes "pipe_documented K level"
  shows "async_step K S S' \<Longrightarrow> async_inv hs level S \<Longrightarrow> async_inv hs level S'"
proof (induction rule: async_step.induct)
  case (peek_set S h)
  then show ?case by (auto simp: async_inv_def noticed_def)
next
  case (peek_clear S h)
  then show ?case by (auto simp: async_inv_def noticed_def)
next
  case (exchange h S was L)
  then have L: "L = (as_loop S)\<lparr>async_pending := (async_pending (as_loop S))(h := True)\<rparr>"
      "was = async_pending (as_loop S) h"
    by (auto simp: async_exchange_def)
  show ?case
    using exchange.prems unfolding async_inv_def L by (auto simp: noticed_def)
next
  case (push h S r k)
  from assms push.hyps(2) have "r = Err EINTR \<and> level k = level (as_kernel S) \<or> 0 < level k"
    unfolding pipe_documented_def by (metis zero_less_Suc)
  with push.prems show ?case by (auto simp: async_inv_def noticed_def)
next
  case (wake S)
  then show ?case by (auto simp: async_inv_def noticed_def)
next
  case (read_more S r k)
  then show ?case by (auto simp: async_inv_def noticed_def)
next
  case (read_done S r k)
  let ?q = "ngx_queue_head None (async_handles (as_loop S))"
  have q: "?q = hd (map Some hs @ [None])"
    using read_done.prems by (auto simp: async_inv_def qrep_def ngx_queue_head_def dest: linked_first)
  then have "ahead hs ?q = set hs" "\<And>h. ?q = Some h \<Longrightarrow> h \<in> set hs"
    by (cases hs; auto simp: ahead_def)+
  with read_done.prems read_done.hyps(1) show ?case by (auto simp: async_inv_def noticed_def)
next
  case (not_pending S h)
  have inv: "qrep (async_handles (as_loop S)) None (map Some hs)" "distinct hs" "h \<in> set hs"
    using not_pending.prems not_pending.hyps(1) by (auto simp: async_inv_def)
  from walk_node [OF inv] obtain xs ys where
      "ahead hs (Some h) = insert h (ahead hs (ngx_queue_next (Some h) (async_handles (as_loop S))))"
      "\<And>v. ngx_queue_next (Some h) (async_handles (as_loop S)) = Some v \<Longrightarrow> v \<in> set hs" by blast
  with not_pending.prems not_pending.hyps show ?case by (auto simp: async_inv_def noticed_def)
next
  case (is_pending S h)
  then show ?case by (auto simp: async_inv_def noticed_def)
next
  case (clear S h)
  have inv: "qrep (async_handles (as_loop S)) None (map Some hs)" "distinct hs" "h \<in> set hs"
    using clear.prems clear.hyps by (auto simp: async_inv_def)
  from walk_node [OF inv] obtain xs ys where
      "ahead hs (Some h) = insert h (ahead hs (ngx_queue_next (Some h) (async_handles (as_loop S))))" by blast
  with clear.prems clear.hyps show ?case by (auto simp: async_inv_def noticed_def async_clear_def)
next
  case (call S h)
  have inv: "qrep (async_handles (as_loop S)) None (map Some hs)" "distinct hs" "h \<in> set hs"
    using call.prems call.hyps by (auto simp: async_inv_def)
  from walk_node [OF inv] obtain xs ys where
      "\<And>v. ngx_queue_next (Some h) (async_handles (as_loop S)) = Some v \<Longrightarrow> v \<in> set hs" by blast
  with call.prems call.hyps show ?case by (auto simp: async_inv_def noticed_def)
next
  case (finish S)
  then show ?case by (auto simp: async_inv_def noticed_def ahead_def)
qed

lemma async_reach_inv:
  assumes "pipe_documented K level"
  shows "async_reach K hs S \<Longrightarrow> async_inv hs level S"
proof (induction rule: async_reach.induct)
  case (start S)
  then show ?case by (auto simp: async_inv_def)
next
  case (step S S')
  with async_inv_step [OF assms] show ?case by blast
qed

text \<open>
  C21. No wakeup is lost and none is invented, with any number of threads calling
  \<open>uv_async_send\<close> while the loop runs, in every interleaving of their statements. While a send on
  \<open>h\<close> has passed its last look at the flag and no callback of \<open>h\<close> has begun since, either the loop
  stands right before that callback, or the flag is set and will still be looked at: a byte is in
  the pipe, its sender has yet to write, or the loop is reading or has not come to the test or the
  reset of \<open>h\<close> in its walk. The callbacks made, the flag that is set and the callback that is about
  to begin are together exactly the exchanges that found 0. In particular, when no thread is between exchange
  and write, the pipe is empty and the loop is idle, every send has been followed by the beginning
  of a callback.
\<close>

theorem async_no_lost_wakeup:
  assumes "pipe_documented K level" and "async_reach K hs S"
  shows "(\<forall>h \<in> set hs. owed S h \<longrightarrow>
       as_pc S = Calling h \<or> async_pending (as_loop S) h \<and> noticed hs level S h) \<and>
    (\<forall>h \<in> set hs. async_pending (as_loop S) h \<longrightarrow> noticed hs level S h) \<and>
    (\<forall>h. count_list (raised S) h = count_list (called S) h +
       of_bool (async_pending (as_loop S) h) + of_bool (as_pc S = Calling h)) \<and>
    (unwritten S = [] \<and> level (as_kernel S) = 0 \<and> as_pc S = Idle \<longrightarrow>
       (\<forall>h \<in> set hs. \<not> owed S h \<and> count_list (raised S) h = count_list (called S) h))"
proof -
  have inv: "async_inv hs level S" by (rule async_reach_inv [OF assms])
  moreover have "\<not> async_pending (as_loop S) h"
    if "unwritten S = []" "level (as_kernel S) = 0" "as_pc S = Idle" "h \<in> set hs" for h
    using inv that by (auto simp: async_inv_def noticed_def)
  ultimately show ?thesis by (auto simp: async_inv_def)
qed

text \<open>A pipe that is a counter, and one handle of which a thread has just raised the flag.\<close>

definition counter_pipe :: "nat pipe_kernel" where
  "counter_pipe = \<lparr>pipe_read = (\<lambda>k fd n. if k = 0 then (Err EAGAIN, 0) else (Val (int (min n k)), k - min n k)),
     pipe_write = (\<lambda>k fd. (Val 1, Suc k))\<rparr>"

definition one_async :: async_loop where
  "one_async = lw_loop.extend (blank_lw 0)
     (async_loop.fields (ngx_queue_insert_tail None (Some 1)
        (ngx_queue_init None \<lparr>q_prev = (\<lambda>_. None), q_next = (\<lambda>_. None)\<rparr>))
      (\<lambda>_. False) (\<lambda>_. 0) (3, 4) 9)"

definition quiet_one :: "(nat, unit) async_sys" where
  "quiet_one = \<lparr>as_kernel = 0, as_loop = one_async, as_pc = Idle, peeked = [], unwritten = [],
     owed = (\<lambda>_. False), raised = [], called = []\<rparr>"

definition raised_one :: "(nat, unit) async_sys" where
  "raised_one = quiet_one\<lparr>as_loop := snd (async_exchange one_async 1), owed := (\<lambda>_. False)(1 := True),
     unwritten := [1], raised := [1]\<rparr>"

theorem async_no_lost_wakeup_witness:
  "owed raised_one 1 \<and> noticed [1] (\<lambda>k. k) raised_one 1 \<and> count_list (raised raised_one) 1 = 1"
proof -
  have flag: "\<not> async_pending one_async h" for h by (simp add: one_async_def async_loop.defs lw_loop.defs)
  have doc: "pipe_documented counter_pipe (\<lambda>k. k)"
    by (auto simp: pipe_documented_def counter_pipe_def)
  have "qrep (async_handles one_async) None (map Some [1])"
    using qrep_insert_tail [OF qrep_init, of "Some (1::nat)" None] by (simp add: one_async_def async_loop.defs lw_loop.defs)
  then have r0: "async_reach counter_pipe [1] quiet_one"
    by (intro async_reach.start) (simp_all add: quiet_one_def flag)
  have "async_step counter_pipe quiet_one (quiet_one\<lparr>peeked := [1]\<rparr>)"
    using async_step.peek_clear [of quiet_one 1 counter_pipe] by (simp add: quiet_one_def flag)
  then have r1: "async_reach counter_pipe [1] (quiet_one\<lparr>peeked := [1]\<rparr>)" by (rule async_reach.step [OF r0])
  have "async_step counter_pipe (quiet_one\<lparr>peeked := [1]\<rparr>) raised_one"
    using async_step.exchange [of 1 "quiet_one\<lparr>peeked := [1]\<rparr>" False "snd (async_exchange one_async 1)" counter_pipe]
    by (simp add: quiet_one_def raised_one_def async_exchange_def flag)
  then have r: "async_reach counter_pipe [1] raised_one" by (rule async_reach.step [OF r1])
  have o: "owed raised_one 1" "as_pc raised_one \<noteq> Calling 1" by (simp_all add: raised_one_def quiet_one_def)
  from async_no_lost_wakeup [OF doc r] o have "noticed [1] (\<lambda>k. k) raised_one 1" by simp
  with o show ?thesis by (simp add: raised_one_def)
qed

end
