(* ===== verification/Stream.thy ===== *)
theory Stream
  imports Async
begin

text \<open>
  Streams: \<open>src/unix/stream.c\<close> without its macOS parts. The watcher of a stream has the address
  of the stream, requests have addresses of their own. User callbacks are one function of the
  event; a callback of type \<open>uv_alloc_cb\<close> answers with the length of the buffer it hands out.
\<close>

section \<open>State\<close>

record uv_stream =
  read_cb :: "nat option"
  read2_cb :: "nat option"
  alloc_cb :: "nat option"
  connection_cb :: "nat option"
  connect_req :: "nat option"
  shutdown_req :: "nat option"
  accepted_fd :: int
  delayed_error :: int
  write_queue :: "nat list"
  write_completed_queue :: "nat list"
  write_queue_size :: nat
  ipc :: bool
  pipe_fname :: "string option"

text \<open>The fields of write, connect and shutdown requests; \<open>rq_index\<close> is \<open>write_index\<close>, and the
  length of \<open>rq_bufs\<close> is \<open>bufcnt\<close>.\<close>

record uv_stream_req =
  rq_type :: uv_req_type
  rq_cb :: "nat option"
  rq_handle :: nat
  rq_error :: int
  rq_send_handle :: "nat option"
  rq_bufs :: "byte list list"
  rq_index :: nat

text \<open>\<open>emfile_trick\<close> and \<open>single_accept\<close> are what the environment variables of these names say.\<close>

record stream_loop = async_loop +
  streams :: "nat \<Rightarrow> uv_stream"
  sreqs :: "nat \<Rightarrow> uv_stream_req"
  emfile_fd :: int
  emfile_trick :: bool
  single_accept :: bool

datatype stream_event =
    Ev_write nat nat int
  | Ev_shutdown nat nat int
  | Ev_connect nat nat int
  | Ev_connection nat nat int
  | Ev_read nat nat int
  | Ev_read2 nat nat int uv_handle_type

text \<open>The numbers of the library's own watcher callbacks.\<close>

abbreviation (input) CB_STREAM_IO :: nat where "CB_STREAM_IO \<equiv> 1"
abbreviation (input) CB_SERVER_IO :: nat where "CB_SERVER_IO \<equiv> 2"
abbreviation (input) CB_PIPE_ACCEPT :: nat where "CB_PIPE_ACCEPT \<equiv> 3"
abbreviation (input) O_RDONLY :: uint32 where "O_RDONLY \<equiv> 0"
abbreviation (input) O_RDWR :: uint32 where "O_RDWR \<equiv> 2"
abbreviation (input) O_CLOEXEC :: uint32 where "O_CLOEXEC \<equiv> 0x80000"
abbreviation (input) AF_INET :: int where "AF_INET \<equiv> 2"
abbreviation (input) AF_INET6 :: int where "AF_INET6 \<equiv> 10"
abbreviation (input) SOL_SOCKET :: int where "SOL_SOCKET \<equiv> 1"
abbreviation (input) SO_KEEPALIVE :: int where "SO_KEEPALIVE \<equiv> 9"
abbreviation (input) IPPROTO_TCP :: int where "IPPROTO_TCP \<equiv> 6"
abbreviation (input) TCP_NODELAY :: int where "TCP_NODELAY \<equiv> 1"
abbreviation (input) TCP_KEEPIDLE :: int where "TCP_KEEPIDLE \<equiv> 4"

definition upd_stream :: "nat \<Rightarrow> (uv_stream \<Rightarrow> uv_stream) \<Rightarrow> ('m) stream_loop_scheme \<Rightarrow> ('m) stream_loop_scheme" where
  "upd_stream h f L = L\<lparr>streams := (streams L)(h := f (streams L h))\<rparr>"

definition upd_req :: "nat \<Rightarrow> (uv_stream_req \<Rightarrow> uv_stream_req) \<Rightarrow> ('m) stream_loop_scheme \<Rightarrow> ('m) stream_loop_scheme" where
  "upd_req r f L = L\<lparr>sreqs := (sreqs L)(r := f (sreqs L r))\<rparr>"

definition uv__stream_fd :: "('m) stream_loop_scheme \<Rightarrow> nat \<Rightarrow> int" where
  "uv__stream_fd L h = w_fd (ios L h)"

definition set_fd :: "nat \<Rightarrow> int \<Rightarrow> ('m) stream_loop_scheme \<Rightarrow> ('m) stream_loop_scheme" where
  "set_fd h fd L = set_io h ((ios L h)\<lparr>w_fd := fd\<rparr>) L"

text \<open>A request is initialised and registered.\<close>

definition uv__req_init :: "('m) stream_loop_scheme \<Rightarrow> nat \<Rightarrow> uv_req_type \<Rightarrow> ('m) stream_loop_scheme" where
  "uv__req_init L r ty = uv__req_register (upd_req r (\<lambda>q. q\<lparr>rq_type := ty\<rparr>) L) r"

text \<open>The end of a request: an optional callback with a status.\<close>

definition call_opt :: "(stream_event \<Rightarrow> 's \<Rightarrow> 's outcome) \<Rightarrow> nat option \<Rightarrow> (nat \<Rightarrow> stream_event) \<Rightarrow> 's \<Rightarrow> 's outcome" where
  "call_opt user cb ev L = (case cb of None \<Rightarrow> Ret L | Some c \<Rightarrow> user (ev c) L)"

section \<open>Opening\<close>

definition uv__open_cloexec :: "string \<Rightarrow> uint32 \<Rightarrow> os \<Rightarrow> (answer \<times> os) outcome" where
  "uv__open_cloexec path flags s =
     obind (sys (Sys_open path (flags OR O_CLOEXEC)) s) (\<lambda>(r, s).
       if r \<noteq> Err EINVAL then Ret (r, s)
       else obind (sys (Sys_open path flags) s) (\<lambda>(r, s).
         case r of
           Val fd \<Rightarrow> obind (uv__cloexec fd True s) (\<lambda>(_, s). Ret (Val fd, s))
         | _ \<Rightarrow> Ret (r, s)))"

definition answer_fd :: "answer \<Rightarrow> int" where
  "answer_fd r = (case r of Val fd \<Rightarrow> fd | _ \<Rightarrow> - 1)"

definition uv__stream_init :: "('m) stream_loop_scheme \<Rightarrow> nat \<Rightarrow> uv_handle_type \<Rightarrow> ('m) stream_loop_scheme outcome" where
  "uv__stream_init L h ty =
     (let L = uv__handle_init L h ty;
          L = L\<lparr>handles := (handles L)(h := (handles L h)\<lparr>h_close_cb := None\<rparr>)\<rparr>;
          L = upd_stream h (\<lambda>s. s\<lparr>read_cb := None, read2_cb := None, alloc_cb := None,
            connection_cb := None, connect_req := None, shutdown_req := None, accepted_fd := - 1,
            delayed_error := 0, write_queue := [], write_completed_queue := [], write_queue_size := 0\<rparr>) L
      in obind (if emfile_fd L = - 1
                then obind (on_os (uv__open_cloexec ''/'' O_RDONLY) L) (\<lambda>(r, L). Ret (L\<lparr>emfile_fd := answer_fd r\<rparr>))
                else Ret L) (\<lambda>L.
         uv__io_init L h (Some CB_STREAM_IO) (- 1)))"

text \<open>Two functions of \<open>tcp.c\<close> that opening a stream calls; the answers are \<open>failed\<close> or not.\<close>

definition uv__tcp_nodelay :: "int \<Rightarrow> int \<Rightarrow> os \<Rightarrow> (answer \<times> os) outcome" where
  "uv__tcp_nodelay fd on s = sys (Sys_setsockopt fd IPPROTO_TCP TCP_NODELAY) s"

definition uv__tcp_keepalive :: "int \<Rightarrow> int \<Rightarrow> int \<Rightarrow> os \<Rightarrow> (answer \<times> os) outcome" where
  "uv__tcp_keepalive fd on delay s =
     obind (sys (Sys_setsockopt fd SOL_SOCKET SO_KEEPALIVE) s) (\<lambda>(r, s).
       if failed r then Ret (r, s)
       else if on \<noteq> 0
       then obind (sys (Sys_setsockopt fd IPPROTO_TCP TCP_KEEPIDLE) s) (\<lambda>(r, s).
              Ret (if failed r then r else Val 0, s))
       else Ret (Val 0, s))"

definition answer_errno :: "answer \<Rightarrow> int" where
  "answer_errno r = (case r of Err e \<Rightarrow> e | _ \<Rightarrow> 0)"

definition uv__stream_open :: "('m) stream_loop_scheme \<Rightarrow> nat \<Rightarrow> int \<Rightarrow> uint32 \<Rightarrow>
    (int \<times> ('m) stream_loop_scheme) outcome" where
  "uv__stream_open L h fd flags =
     assert_that (0 \<le> fd)
       (let L = set_flags h (flag_set (flags_of L h) flags) L;
            tcp = (h_type (handles L h) = UV_TCP);
            opt = (\<lambda>flag call L. if tcp \<and> flag_on (flags_of L h) flag then on_os call L else Ret (Val 0, L))
        in obind (opt UV_TCP_NODELAY (uv__tcp_nodelay fd 1) L) (\<lambda>(r, L).
             if failed r then Ret (uv__set_sys_error L (answer_errno r))
             else obind (opt UV_TCP_KEEPALIVE (uv__tcp_keepalive fd 1 60) L) (\<lambda>(r, L).
               if failed r then Ret (uv__set_sys_error L (answer_errno r))
               else Ret (0, set_fd h fd L))))"

section \<open>Writing\<close>

definition uv__buf_count :: "byte list list \<Rightarrow> nat" where
  "uv__buf_count bufs = sum_list (map length bufs)"

definition uv_write_queue_head :: "('m) stream_loop_scheme \<Rightarrow> nat \<Rightarrow> nat option" where
  "uv_write_queue_head L h = (case write_queue (streams L h) of [] \<Rightarrow> None | r # _ \<Rightarrow> Some r)"

definition uv__drain :: "(stream_event \<Rightarrow> ('m) stream_loop_scheme \<Rightarrow> ('m) stream_loop_scheme outcome) \<Rightarrow>
    ('m) stream_loop_scheme \<Rightarrow> nat \<Rightarrow> ('m) stream_loop_scheme outcome" where
  "uv__drain user L h =
     assert_that (uv_write_queue_head L h = None)
    (assert_that (write_queue_size (streams L h) = 0)
      (obind (uv__io_stop L h UV__POLLOUT) (\<lambda>L.
        if flag_on (flags_of L h) UV_STREAM_SHUTTING \<and> \<not> flag_on (flags_of L h) UV_CLOSING \<and>
           \<not> flag_on (flags_of L h) UV_STREAM_SHUT
        then obind (ptr_ok (shutdown_req (streams L h))) (\<lambda>r.
             let L = upd_stream h (\<lambda>s. s\<lparr>shutdown_req := None\<rparr>) L
             in obind (uv__req_unregister L r) (\<lambda>L.
                obind (on_os (sys (Sys_shutdown (uv__stream_fd L h))) L) (\<lambda>(a, L).
                if failed a
                then let L = snd (uv__set_sys_error L (answer_errno a))
                     in call_opt user (rq_cb (sreqs L r)) (\<lambda>c. Ev_shutdown c r (- 1)) L
                else let L = snd (uv__set_sys_error L 0);
                         L = set_flags h (flag_set (flags_of L h) UV_STREAM_SHUT) L
                     in call_opt user (rq_cb (sreqs L r)) (\<lambda>c. Ev_shutdown c r 0) L)))
        else Ret L)))"

definition uv__write_req_size :: "('m) stream_loop_scheme \<Rightarrow> nat \<Rightarrow> nat outcome" where
  "uv__write_req_size L r =
     (let sz = uv__buf_count (drop (rq_index (sreqs L r)) (rq_bufs (sreqs L r)))
      in assert_that (sz \<le> write_queue_size (streams L (rq_handle (sreqs L r)))) (Ret sz))"

definition uv__write_req_finish :: "('m) stream_loop_scheme \<Rightarrow> nat \<Rightarrow> ('m) stream_loop_scheme" where
  "uv__write_req_finish L r =
     (let h = rq_handle (sreqs L r);
          L = upd_req r (\<lambda>q. q\<lparr>rq_bufs := []\<rparr>) L;
          L = upd_stream h (\<lambda>s. s\<lparr>write_queue := remove1 r (write_queue s),
                write_completed_queue := write_completed_queue s @ [r]\<rparr>) L
      in uv__io_feed L h)"

text \<open>
  The loop \<open>while (n >= 0)\<close> after a successful write of \<open>n\<close> bytes, on the buffers, the index
  and the size of the queue; the result says whether the request is done.
\<close>

function write_advance :: "nat \<Rightarrow> byte list list \<Rightarrow> nat \<Rightarrow> nat \<Rightarrow> (byte list list \<times> nat \<times> nat \<times> bool) outcome" where
  "write_advance n bufs i sz =
     assert_that (i < length bufs)
       (let len = length (bufs ! i)
        in if n < len then Ret (bufs[i := drop n (bufs ! i)], i, sz - n, False)
           else assert_that (len \<le> sz)
             (if Suc i = length bufs then assert_that (n - len = 0) (Ret (bufs, Suc i, sz - len, True))
              else if Suc i < length bufs then write_advance (n - len) bufs (Suc i) (sz - len)
              else Abort))"
  by pat_completeness auto
termination by (relation "measure (\<lambda>(n, bufs, i, sz). length bufs - i)") auto

declare write_advance.simps [simp del]

definition write_call :: "('m) stream_loop_scheme \<Rightarrow> nat \<Rightarrow> nat \<Rightarrow> sysc outcome" where
  "write_call L h r =
     (let q = sreqs L r; iov = drop (rq_index q) (rq_bufs q); fd = uv__stream_fd L h
      in case rq_send_handle q of
           Some s \<Rightarrow> assert_that (0 \<le> uv__stream_fd L s) (Ret (Sys_sendmsg fd iov (uv__stream_fd L s)))
         | None \<Rightarrow> Ret (if length iov = 1 then Sys_write fd (hd iov) else Sys_writev fd iov))"

text \<open>What the answer to the write means: the request goes on at once, or the write is over.\<close>

datatype 's write_next = Write_again 's | Write_over 's

definition uv__write_answer :: "('m) stream_loop_scheme \<Rightarrow> nat \<Rightarrow> nat \<Rightarrow> answer \<Rightarrow>
    ('m) stream_loop_scheme write_next outcome" where
  "uv__write_answer L h r a =
     (let blocking = flag_on (flags_of L h) UV_STREAM_BLOCKING;
          wait = (\<lambda>L. assert_that (\<not> blocking) (obind (uv__io_start L h UV__POLLOUT) (\<lambda>L. Ret (Write_over L))))
      in case a of
           Err e \<Rightarrow>
             if e \<noteq> EAGAIN
             then let L = upd_req r (\<lambda>q. q\<lparr>rq_error := e\<rparr>) L
                  in obind (uv__write_req_size L r) (\<lambda>sz.
                     let L = upd_stream h (\<lambda>s. s\<lparr>write_queue_size := write_queue_size s - sz\<rparr>) L
                     in Ret (Write_over (uv__write_req_finish L r)))
             else if blocking then Ret (Write_again L)
             else wait L
         | Val n \<Rightarrow>
             obind (write_advance (nat n) (rq_bufs (sreqs L r)) (rq_index (sreqs L r))
                     (write_queue_size (streams L h))) (\<lambda>(bufs, i, sz, fin).
               let L = upd_req r (\<lambda>q. q\<lparr>rq_bufs := bufs, rq_index := i\<rparr>) L;
                   L = upd_stream h (\<lambda>s. s\<lparr>write_queue_size := sz\<rparr>) L
               in if fin then Ret (Write_over (uv__write_req_finish L r))
                  else if blocking then Ret (Write_again L)
                  else wait L)
         | _ \<Rightarrow> Abort)"

text \<open>
  \<open>uv__write\<close> along the script: each turn of \<open>start:\<close> makes one call, repeated while the kernel
  answers EINTR.
\<close>

fun uv__write_on :: "answer list \<Rightarrow> ('m) stream_loop_scheme \<Rightarrow> nat \<Rightarrow> ('m) stream_loop_scheme outcome" where
  "uv__write_on as L h =
     assert_that (0 \<le> uv__stream_fd L h)
       (case uv_write_queue_head L h of
          None \<Rightarrow> assert_that (write_queue_size (streams L h) = 0) (Ret L)
        | Some r \<Rightarrow>
            assert_that (rq_handle (sreqs L r) = h)
              (obind (write_call L h r) (\<lambda>c.
                case as of
                  [] \<Rightarrow> Starve
                | a # as \<Rightarrow>
                    let L = L\<lparr>osys := (osys L)\<lparr>script := as, calls := calls (osys L) @ [(c, a)]\<rparr>\<rparr>
                    in if a = Err EINTR then uv__write_on as L h
                       else obind (uv__write_answer L h r a) (\<lambda>x.
                         case x of Write_over L \<Rightarrow> Ret L | Write_again L \<Rightarrow> uv__write_on as L h))))"

declare uv__write_on.simps [simp del]

definition uv__write :: "('m) stream_loop_scheme \<Rightarrow> nat \<Rightarrow> ('m) stream_loop_scheme outcome" where
  "uv__write L h =
     (if flag_on (flags_of L h) UV_CLOSING then Ret L else uv__write_on (script (osys L)) L h)"

text \<open>\<open>uv_write2\<close> queues the request; \<open>uv_write\<close> sends no handle.\<close>

definition queue_write :: "('m) stream_loop_scheme \<Rightarrow> nat \<Rightarrow> nat \<Rightarrow> byte list list \<Rightarrow> nat option \<Rightarrow> nat option \<Rightarrow>
    ('m) stream_loop_scheme" where
  "queue_write L r h bufs send cb =
     (let L = uv__req_init L r UV_WRITE;
          L = upd_req r (\<lambda>q. q\<lparr>rq_cb := cb, rq_handle := h, rq_error := 0, rq_send_handle := send,
                rq_bufs := bufs, rq_index := 0\<rparr>) L
      in upd_stream h (\<lambda>s. s\<lparr>write_queue_size := write_queue_size s + uv__buf_count bufs,
           write_queue := write_queue s @ [r]\<rparr>) L)"

definition uv_write2 :: "('m) stream_loop_scheme \<Rightarrow> nat \<Rightarrow> nat \<Rightarrow> byte list list \<Rightarrow> nat option \<Rightarrow> nat option \<Rightarrow>
    (int \<times> ('m) stream_loop_scheme) outcome" where
  "uv_write2 L r h bufs send cb =
     assert_that (0 < length bufs)
    (assert_that (h_type (handles L h) = UV_TCP \<or> h_type (handles L h) = UV_NAMED_PIPE \<or> h_type (handles L h) = UV_TTY)
      (if uv__stream_fd L h < 0 then Ret (uv__set_sys_error L EBADF)
       else if send \<noteq> None \<and> (h_type (handles L h) \<noteq> UV_NAMED_PIPE \<or> \<not> ipc (streams L h))
       then Ret (uv__set_sys_error L EOPNOTSUPP)
       else
         let empty_queue = (write_queue_size (streams L h) = 0);
             L = queue_write L r h bufs send cb
         in obind
              (if connect_req (streams L h) \<noteq> None then Ret L
               else if empty_queue then uv__write L h
               else assert_that (\<not> flag_on (flags_of L h) UV_STREAM_BLOCKING) (uv__io_start L h UV__POLLOUT))
              (\<lambda>L. Ret (0, L))))"

definition uv_write :: "('m) stream_loop_scheme \<Rightarrow> nat \<Rightarrow> nat \<Rightarrow> byte list list \<Rightarrow> nat option \<Rightarrow>
    (int \<times> ('m) stream_loop_scheme) outcome" where
  "uv_write L r h bufs cb = uv_write2 L r h bufs None cb"

text \<open>The callback of a finished request.\<close>

definition write_done :: "(stream_event \<Rightarrow> ('m) stream_loop_scheme \<Rightarrow> ('m) stream_loop_scheme outcome) \<Rightarrow>
    ('m) stream_loop_scheme \<Rightarrow> nat \<Rightarrow> ('m) stream_loop_scheme outcome" where
  "write_done user L r =
     (case rq_cb (sreqs L r) of
        None \<Rightarrow> Ret L
      | Some c \<Rightarrow>
          let L = snd (uv__set_sys_error L (rq_error (sreqs L r)))
          in user (Ev_write c r (if rq_error (sreqs L r) \<noteq> 0 then - 1 else 0)) L)"

text \<open>The loop over the completed requests, here and in \<open>uv__stream_destroy\<close>.\<close>

definition pop_completed :: "('m) stream_loop_scheme \<Rightarrow> nat \<Rightarrow> nat \<Rightarrow> ('m) stream_loop_scheme outcome" where
  "pop_completed L h r =
     uv__req_unregister
       (upd_stream h (\<lambda>s. s\<lparr>write_completed_queue := remove1 r (write_completed_queue s)\<rparr>) L) r"

partial_function (option) run_completed ::
    "(stream_event \<Rightarrow> ('m) stream_loop_scheme \<Rightarrow> ('m) stream_loop_scheme outcome) \<Rightarrow>
     ('m) stream_loop_scheme \<Rightarrow> nat \<Rightarrow> ('m) stream_loop_scheme run" where
  "run_completed user L h =
     (case write_completed_queue (streams L h) of
        [] \<Rightarrow> Some (Ret L)
      | r # _ \<Rightarrow>
          rbind (Some (obind (pop_completed L h r) (\<lambda>L. write_done user L r))) (\<lambda>L. run_completed user L h))"

definition uv__write_callbacks ::
    "(stream_event \<Rightarrow> ('m) stream_loop_scheme \<Rightarrow> ('m) stream_loop_scheme outcome) \<Rightarrow>
     ('m) stream_loop_scheme \<Rightarrow> nat \<Rightarrow> ('m) stream_loop_scheme run" where
  "uv__write_callbacks user L h =
     rbind (run_completed user L h) (\<lambda>L. Some
       (if uv_write_queue_head L h = None then uv__drain user L h else Ret L))"

definition uv_shutdown :: "('m) stream_loop_scheme \<Rightarrow> nat \<Rightarrow> nat \<Rightarrow> nat option \<Rightarrow>
    (int \<times> ('m) stream_loop_scheme) outcome" where
  "uv_shutdown L r h cb =
     assert_that (h_type (handles L h) = UV_TCP \<or> h_type (handles L h) = UV_NAMED_PIPE)
    (assert_that (0 \<le> uv__stream_fd L h)
      (let f = flags_of L h
       in if \<not> flag_on f UV_STREAM_WRITABLE \<or> flag_on f UV_STREAM_SHUT \<or> flag_on f UV_CLOSED \<or> flag_on f UV_CLOSING
          then Ret (uv__set_artificial_error L UV_ENOTCONN)
          else
            let L = uv__req_init L r UV_SHUTDOWN;
                L = upd_req r (\<lambda>q. q\<lparr>rq_handle := h, rq_cb := cb\<rparr>) L;
                L = upd_stream h (\<lambda>s. s\<lparr>shutdown_req := Some r\<rparr>) L;
                L = set_flags h (flag_set (flags_of L h) UV_STREAM_SHUTTING) L
            in obind (uv__io_start L h UV__POLLOUT) (\<lambda>L. Ret (0, L))))"

section \<open>Reading\<close>

definition uv__handle_type :: "int \<Rightarrow> os \<Rightarrow> (uv_handle_type \<times> os) outcome" where
  "uv__handle_type fd s =
     obind (sys (Sys_getsockname fd) s) (\<lambda>(r, s).
       Ret (if r = Val AF_UNIX then UV_NAMED_PIPE
            else if r = Val AF_INET \<or> r = Val AF_INET6 then UV_TCP
            else UV_UNKNOWN_HANDLE, s))"

text \<open>Either read callback, with the type of a received handle for the second kind.\<close>

definition call_read :: "(stream_event \<Rightarrow> ('m) stream_loop_scheme \<Rightarrow> ('m) stream_loop_scheme outcome) \<Rightarrow>
    ('m) stream_loop_scheme \<Rightarrow> nat \<Rightarrow> int \<Rightarrow> uv_handle_type \<Rightarrow> ('m) stream_loop_scheme outcome" where
  "call_read user L h n ty =
     (case read_cb (streams L h) of
        Some c \<Rightarrow> user (Ev_read c h n) L
      | None \<Rightarrow> obind (ptr_ok (read2_cb (streams L h))) (\<lambda>c. user (Ev_read2 c h n ty) L))"

text \<open>
  The result of one read into a buffer of \<open>len\<close> bytes: the new state and whether the loop of
  \<open>uv__read\<close> goes on.
\<close>

definition uv__read_result :: "(stream_event \<Rightarrow> ('m) stream_loop_scheme \<Rightarrow> ('m) stream_loop_scheme outcome) \<Rightarrow>
    ('m) stream_loop_scheme \<Rightarrow> nat \<Rightarrow> int \<Rightarrow> answer \<Rightarrow> (('m) stream_loop_scheme \<times> bool) outcome" where
  "uv__read_result user L h len a =
     (case a of
        Err e \<Rightarrow>
          if e = EAGAIN
          then obind (if flag_on (flags_of L h) UV_STREAM_READING then uv__io_start L h UV__POLLIN else Ret L) (\<lambda>L.
               obind (call_read user (snd (uv__set_sys_error L EAGAIN)) h 0 UV_UNKNOWN_HANDLE) (\<lambda>L. Ret (L, False)))
          else obind (call_read user (snd (uv__set_sys_error L e)) h (- 1) UV_UNKNOWN_HANDLE) (\<lambda>L.
               obind (uv__io_active L h UV__POLLIN) (\<lambda>act. assert_that (\<not> act) (Ret (L, False))))
      | _ \<Rightarrow>
          let (n, fds) = (case a of Val n \<Rightarrow> (n, []) | Msg n fds \<Rightarrow> (n, fds) | _ \<Rightarrow> (0, []))
          in if n = 0
             then let L = snd (uv__set_artificial_error L UV_EOF)
                  in obind (uv__io_stop L h UV__POLLIN) (\<lambda>L.
                     obind (uv__io_active L h UV__POLLOUT) (\<lambda>act.
                     let L = (if \<not> act then uv__handle_stop L h else L)
                     in obind (call_read user L h (- 1) UV_UNKNOWN_HANDLE) (\<lambda>L. Ret (L, False))))
             else if read_cb (streams L h) \<noteq> None
             then obind (call_read user L h n UV_UNKNOWN_HANDLE) (\<lambda>L. Ret (L, len \<le> n))
             else let L = (if fds = [] then L else upd_stream h (\<lambda>s. s\<lparr>accepted_fd := last fds\<rparr>) L)
                  in obind (if 0 \<le> accepted_fd (streams L h)
                            then on_os (uv__handle_type (accepted_fd (streams L h))) L
                            else Ret (UV_UNKNOWN_HANDLE, L)) (\<lambda>(ty, L).
                     obind (call_read user L h n ty) (\<lambda>L. Ret (L, len \<le> n))))"

text \<open>\<open>uv__read\<close>: at most \<open>count\<close> reads; \<open>alloc c h L\<close> is the length of the buffer.\<close>

primrec uv__read_loop ::
    "(stream_event \<Rightarrow> ('m) stream_loop_scheme \<Rightarrow> ('m) stream_loop_scheme outcome) \<Rightarrow>
     (nat \<Rightarrow> nat \<Rightarrow> ('m) stream_loop_scheme \<Rightarrow> nat \<times> ('m) stream_loop_scheme) \<Rightarrow> nat \<Rightarrow>
     ('m) stream_loop_scheme \<Rightarrow> nat \<Rightarrow> ('m) stream_loop_scheme outcome" where
  "uv__read_loop user alloc 0 L h = Ret L"
| "uv__read_loop user alloc (Suc count) L h =
     (if (read_cb (streams L h) = None \<and> read2_cb (streams L h) = None) \<or>
         \<not> flag_on (flags_of L h) UV_STREAM_READING
      then Ret L
      else obind (ptr_ok (alloc_cb (streams L h))) (\<lambda>c.
        let (len, L) = alloc c h L; fd = uv__stream_fd L h
        in assert_that (0 < len)
          (assert_that (0 \<le> fd)
            (assert_that (read_cb (streams L h) \<noteq> None \<or> read2_cb (streams L h) \<noteq> None)
            (obind (on_os (sys_retry (if read_cb (streams L h) \<noteq> None then Sys_read fd len else Sys_recvmsg fd len)) L)
              (\<lambda>(a, L).
               obind (uv__read_result user L h (int len) a) (\<lambda>(L, more).
                 if more then uv__read_loop user alloc count L h else Ret L)))))))"

definition uv__read ::
    "(stream_event \<Rightarrow> ('m) stream_loop_scheme \<Rightarrow> ('m) stream_loop_scheme outcome) \<Rightarrow>
     (nat \<Rightarrow> nat \<Rightarrow> ('m) stream_loop_scheme \<Rightarrow> nat \<times> ('m) stream_loop_scheme) \<Rightarrow>
     ('m) stream_loop_scheme \<Rightarrow> nat \<Rightarrow> ('m) stream_loop_scheme outcome" where
  "uv__read user alloc L h = uv__read_loop user alloc 32 L h"

definition uv__read_start_common :: "('m) stream_loop_scheme \<Rightarrow> nat \<Rightarrow> nat option \<Rightarrow> nat option \<Rightarrow> nat option \<Rightarrow>
    (int \<times> ('m) stream_loop_scheme) outcome" where
  "uv__read_start_common L h alloc rcb r2cb =
     assert_that (h_type (handles L h) = UV_TCP \<or> h_type (handles L h) = UV_NAMED_PIPE \<or> h_type (handles L h) = UV_TTY)
      (if flag_on (flags_of L h) UV_CLOSING then Ret (uv__set_sys_error L EINVAL)
       else
         let L = set_flags h (flag_set (flags_of L h) UV_STREAM_READING) L
         in assert_that (0 \<le> uv__stream_fd L h)
           (assert_that (alloc \<noteq> None)
             (let L = upd_stream h (\<lambda>s. s\<lparr>read_cb := rcb, read2_cb := r2cb, alloc_cb := alloc\<rparr>) L
              in obind (uv__io_start L h UV__POLLIN) (\<lambda>L. Ret (0, uv__handle_start L h)))))"

definition uv_read_start :: "('m) stream_loop_scheme \<Rightarrow> nat \<Rightarrow> nat option \<Rightarrow> nat option \<Rightarrow>
    (int \<times> ('m) stream_loop_scheme) outcome" where
  "uv_read_start L h alloc cb = uv__read_start_common L h alloc cb None"

definition uv_read2_start :: "('m) stream_loop_scheme \<Rightarrow> nat \<Rightarrow> nat option \<Rightarrow> nat option \<Rightarrow>
    (int \<times> ('m) stream_loop_scheme) outcome" where
  "uv_read2_start L h alloc cb = uv__read_start_common L h alloc None cb"

definition uv_read_stop :: "('m) stream_loop_scheme \<Rightarrow> nat \<Rightarrow> (int \<times> ('m) stream_loop_scheme) outcome" where
  "uv_read_stop L h =
     obind (uv__io_stop L h UV__POLLIN) (\<lambda>L.
       let L = uv__handle_stop L h;
           L = set_flags h (flag_clr (flags_of L h) UV_STREAM_READING) L;
           L = upd_stream h (\<lambda>s. s\<lparr>read_cb := None, read2_cb := None, alloc_cb := None\<rparr>) L
       in Ret (0, L))"

definition uv_is_readable :: "('m) stream_loop_scheme \<Rightarrow> nat \<Rightarrow> bool" where
  "uv_is_readable L h \<longleftrightarrow> flag_on (flags_of L h) UV_STREAM_READABLE"

definition uv_is_writable :: "('m) stream_loop_scheme \<Rightarrow> nat \<Rightarrow> bool" where
  "uv_is_writable L h \<longleftrightarrow> flag_on (flags_of L h) UV_STREAM_WRITABLE"

section \<open>Listening\<close>

text \<open>\<open>uv__emfile_trick\<close>: the result is 0 or -1.\<close>

partial_function (option) emfile_loop :: "int \<Rightarrow> os \<Rightarrow> (int \<times> answer \<times> os) run" where
  "emfile_loop afd s =
     rbind (Some (uv__accept afd s)) (\<lambda>(r, s).
       case r of
         Val fd \<Rightarrow> rbind (Some (sys (Sys_close fd) s)) (\<lambda>(_, s). emfile_loop afd s)
       | _ \<Rightarrow>
           if r = Err EINTR then emfile_loop afd s
           else Some (obind (uv__open_cloexec ''/'' O_RDONLY s) (\<lambda>(fd, s).
             Ret (if r = Err EAGAIN then 0 else - 1, fd, s))))"

definition uv__emfile_trick :: "('m) stream_loop_scheme \<Rightarrow> int \<Rightarrow> (int \<times> ('m) stream_loop_scheme) run" where
  "uv__emfile_trick L afd =
     (if emfile_fd L = - 1 then Some (Ret (- 1, L))
      else rbind (Some (sys (Sys_close (emfile_fd L)) (osys L))) (\<lambda>(_, s).
           rbind (emfile_loop afd s) (\<lambda>(r, fd, s).
             Some (Ret (r, L\<lparr>osys := s, emfile_fd := answer_fd fd\<rparr>)))))"

text \<open>The error branch of \<open>uv__server_io\<close> after a failed \<open>accept\<close>: stop (\<open>False\<close>) or go on.\<close>

definition server_error ::
    "(stream_event \<Rightarrow> ('m) stream_loop_scheme \<Rightarrow> ('m) stream_loop_scheme outcome) \<Rightarrow>
     ('m) stream_loop_scheme \<Rightarrow> nat \<Rightarrow> int \<Rightarrow> (('m) stream_loop_scheme \<times> bool) run" where
  "server_error user L h e =
     (let report = (\<lambda>L.
        let L = snd (uv__set_sys_error L e)
        in Some (obind (ptr_ok (connection_cb (streams L h))) (\<lambda>c.
             obind (user (Ev_connection c h (- 1)) L) (\<lambda>L. Ret (L, True)))))
      in if e = EAGAIN then Some (Ret (L, False))
         else if e = ECONNABORTED then Some (Ret (L, True))
         else if (e = EMFILE \<or> e = ENFILE) \<and> emfile_trick L
         then rbind (uv__emfile_trick L (uv__stream_fd L h)) (\<lambda>(r, L).
                if r = 0 then Some (Ret (L, True)) else report L)
         else report L)"

text \<open>One accepted connection: the callback, and whether the loop goes on. \<open>nanosleep\<close> for
  \<open>UV_TCP_SINGLE_ACCEPT\<close> changes nothing.\<close>

definition server_accepted ::
    "(stream_event \<Rightarrow> ('m) stream_loop_scheme \<Rightarrow> ('m) stream_loop_scheme outcome) \<Rightarrow>
     ('m) stream_loop_scheme \<Rightarrow> nat \<Rightarrow> int \<Rightarrow> (('m) stream_loop_scheme \<times> bool) outcome" where
  "server_accepted user L h fd =
     (let L = upd_stream h (\<lambda>s. s\<lparr>accepted_fd := fd\<rparr>) L
      in obind (ptr_ok (connection_cb (streams L h))) (\<lambda>c.
         obind (user (Ev_connection c h 0) L) (\<lambda>L.
           if accepted_fd (streams L h) \<noteq> - 1
           then obind (uv__io_stop L h UV__POLLIN) (\<lambda>L. Ret (L, False))
           else Ret (L, True))))"

partial_function (option) server_loop ::
    "(stream_event \<Rightarrow> ('m) stream_loop_scheme \<Rightarrow> ('m) stream_loop_scheme outcome) \<Rightarrow>
     ('m) stream_loop_scheme \<Rightarrow> nat \<Rightarrow> ('m) stream_loop_scheme run" where
  "server_loop user L h =
     (if uv__stream_fd L h = - 1 then Some (Ret L)
      else if accepted_fd (streams L h) \<noteq> - 1 then Some Abort
      else rbind (Some (on_os (uv__accept (uv__stream_fd L h)) L)) (\<lambda>(r, L).
        rbind (case r of Val fd \<Rightarrow> Some (server_accepted user L h fd) | _ \<Rightarrow> server_error user L h (answer_errno r))
          (\<lambda>(L, more). if more then server_loop user L h else Some (Ret L))))"

definition uv__server_io ::
    "(stream_event \<Rightarrow> ('m) stream_loop_scheme \<Rightarrow> ('m) stream_loop_scheme outcome) \<Rightarrow>
     ('m) stream_loop_scheme \<Rightarrow> nat \<Rightarrow> uint32 \<Rightarrow> ('m) stream_loop_scheme run" where
  "uv__server_io user L h events =
     rbind (Some (assert_that (events = UV__POLLIN)
       (assert_that (accepted_fd (streams L h) = - 1)
         (assert_that (\<not> flag_on (flags_of L h) UV_CLOSING) (uv__io_start L h UV__POLLIN))))) (\<lambda>L.
     server_loop user L h)"

definition uv_accept :: "('m) stream_loop_scheme \<Rightarrow> nat \<Rightarrow> nat \<Rightarrow> (int \<times> ('m) stream_loop_scheme) outcome" where
  "uv_accept L server client =
     (let fd = accepted_fd (streams L server)
      in if fd < 0 then Ret (uv__set_sys_error L EAGAIN)
         else obind (uv__stream_open L client fd (UV_STREAM_READABLE OR UV_STREAM_WRITABLE)) (\<lambda>(r, L).
           if r \<noteq> 0
           then obind (on_os (sys (Sys_close (accepted_fd (streams L server)))) L) (\<lambda>(_, L).
                Ret (- 1, upd_stream server (\<lambda>s. s\<lparr>accepted_fd := - 1\<rparr>) L))
           else obind (uv__io_start L server UV__POLLIN) (\<lambda>L.
                Ret (0, upd_stream server (\<lambda>s. s\<lparr>accepted_fd := - 1\<rparr>) L))))"

section \<open>Connecting, events, closing\<close>

definition uv__stream_connect ::
    "(stream_event \<Rightarrow> ('m) stream_loop_scheme \<Rightarrow> ('m) stream_loop_scheme outcome) \<Rightarrow>
     ('m) stream_loop_scheme \<Rightarrow> nat \<Rightarrow> ('m) stream_loop_scheme outcome" where
  "uv__stream_connect user L h =
     assert_that (h_type (handles L h) = UV_TCP \<or> h_type (handles L h) = UV_NAMED_PIPE)
       (obind (ptr_ok (connect_req (streams L h))) (\<lambda>r.
        obind (if delayed_error (streams L h) \<noteq> 0
               then Ret (delayed_error (streams L h), upd_stream h (\<lambda>s. s\<lparr>delayed_error := 0\<rparr>) L)
               else assert_that (0 \<le> uv__stream_fd L h)
                 (obind (on_os (sys (Sys_getsockopt (uv__stream_fd L h) 4)) L) (\<lambda>(a, L).
                    Ret (case a of Val e \<Rightarrow> e | _ \<Rightarrow> 0, L)))) (\<lambda>(err, L).
          if err = EINPROGRESS then Ret L
          else obind (uv__req_unregister (upd_stream h (\<lambda>s. s\<lparr>connect_req := None\<rparr>) L) r) (\<lambda>L.
            case rq_cb (sreqs L r) of
              None \<Rightarrow> Ret L
            | Some c \<Rightarrow> user (Ev_connect c r (if err \<noteq> 0 then - 1 else 0)) (snd (uv__set_sys_error L err))))))"

definition uv__stream_io ::
    "(stream_event \<Rightarrow> ('m) stream_loop_scheme \<Rightarrow> ('m) stream_loop_scheme outcome) \<Rightarrow>
     (nat \<Rightarrow> nat \<Rightarrow> ('m) stream_loop_scheme \<Rightarrow> nat \<times> ('m) stream_loop_scheme) \<Rightarrow>
     ('m) stream_loop_scheme \<Rightarrow> nat \<Rightarrow> uint32 \<Rightarrow> ('m) stream_loop_scheme run" where
  "uv__stream_io user alloc L h events =
     (if \<not> (h_type (handles L h) = UV_TCP \<or> h_type (handles L h) = UV_NAMED_PIPE \<or> h_type (handles L h) = UV_TTY) \<or>
         flag_on (flags_of L h) UV_CLOSING
      then Some Abort
      else if connect_req (streams L h) \<noteq> None then Some (uv__stream_connect user L h)
      else rbind (Some (if flag_on events UV__POLLIN
                        then assert_that (0 \<le> uv__stream_fd L h) (uv__read user alloc L h)
                        else Ret L)) (\<lambda>L.
        if flag_on events UV__POLLIN \<and> uv__stream_fd L h = - 1 then Some (Ret L)
        else if flag_on events UV__POLLOUT
        then rbind (Some (assert_that (0 \<le> uv__stream_fd L h) (uv__write L h))) (\<lambda>L. uv__write_callbacks user L h)
        else Some (Ret L)))"

text \<open>\<open>uv__stream_destroy\<close>: every request that is still open is cancelled.\<close>

definition cancel_req ::
    "(stream_event \<Rightarrow> ('m) stream_loop_scheme \<Rightarrow> ('m) stream_loop_scheme outcome) \<Rightarrow>
     ('m) stream_loop_scheme \<Rightarrow> nat \<Rightarrow> (nat \<Rightarrow> stream_event) \<Rightarrow> ('m) stream_loop_scheme outcome" where
  "cancel_req user L r ev =
     obind (uv__req_unregister L r) (\<lambda>L.
       case rq_cb (sreqs L r) of
         None \<Rightarrow> Ret L
       | Some c \<Rightarrow> user (ev c) (snd (uv__set_artificial_error L UV_ECANCELED)))"

text \<open>Connect and shutdown requests are called back without a test of \<open>cb\<close>.\<close>

definition cancel_single ::
    "(stream_event \<Rightarrow> ('m) stream_loop_scheme \<Rightarrow> ('m) stream_loop_scheme outcome) \<Rightarrow>
     ('m) stream_loop_scheme \<Rightarrow> nat option \<Rightarrow> (nat \<Rightarrow> nat \<Rightarrow> stream_event) \<Rightarrow> ('m) stream_loop_scheme outcome" where
  "cancel_single user L r ev =
     (case r of
        None \<Rightarrow> Ret L
      | Some r \<Rightarrow>
          obind (uv__req_unregister L r) (\<lambda>L.
          obind (ptr_ok (rq_cb (sreqs L r))) (\<lambda>c.
            user (ev c r) (snd (uv__set_artificial_error L UV_ECANCELED)))))"

partial_function (option) cancel_writes ::
    "(stream_event \<Rightarrow> ('m) stream_loop_scheme \<Rightarrow> ('m) stream_loop_scheme outcome) \<Rightarrow>
     ('m) stream_loop_scheme \<Rightarrow> nat \<Rightarrow> ('m) stream_loop_scheme run" where
  "cancel_writes user L h =
     (case write_queue (streams L h) of
        [] \<Rightarrow> Some (Ret L)
      | r # rs \<Rightarrow>
          rbind (Some (cancel_req user (upd_stream h (\<lambda>s. s\<lparr>write_queue := rs\<rparr>) L) r (\<lambda>c. Ev_write c r (- 1))))
            (\<lambda>L. cancel_writes user L h))"

definition uv__stream_destroy ::
    "(stream_event \<Rightarrow> ('m) stream_loop_scheme \<Rightarrow> ('m) stream_loop_scheme outcome) \<Rightarrow>
     ('m) stream_loop_scheme \<Rightarrow> nat \<Rightarrow> ('m) stream_loop_scheme run" where
  "uv__stream_destroy user L h =
     rbind (Some (obind (uv__io_active L h (UV__POLLIN OR UV__POLLOUT)) (\<lambda>act.
       assert_that (\<not> act) (assert_that (flag_on (flags_of L h) UV_CLOSED)
         (cancel_single user L (connect_req (streams L h)) (\<lambda>c r. Ev_connect c r (- 1))))))) (\<lambda>L.
     rbind (cancel_writes user (upd_stream h (\<lambda>s. s\<lparr>connect_req := None\<rparr>) L) h) (\<lambda>L.
     rbind (run_completed user L h) (\<lambda>L.
     rbind (Some (cancel_single user L (shutdown_req (streams L h)) (\<lambda>c r. Ev_shutdown c r (- 1)))) (\<lambda>L.
       Some (Ret (upd_stream h (\<lambda>s. s\<lparr>shutdown_req := None\<rparr>) L))))))"

definition uv__stream_close :: "('m) stream_loop_scheme \<Rightarrow> nat \<Rightarrow> ('m) stream_loop_scheme outcome" where
  "uv__stream_close L h =
     obind (uv_read_stop L h) (\<lambda>(_, L).
     obind (uv__io_close L h) (\<lambda>L.
     obind (on_os (sys (Sys_close (uv__stream_fd L h))) L) (\<lambda>(_, L).
       let L = set_fd h (- 1) L
       in obind (if 0 \<le> accepted_fd (streams L h)
                 then obind (on_os (sys (Sys_close (accepted_fd (streams L h)))) L) (\<lambda>(_, L).
                      Ret (upd_stream h (\<lambda>s. s\<lparr>accepted_fd := - 1\<rparr>) L))
                 else Ret L) (\<lambda>L.
          obind (uv__io_active L h (UV__POLLIN OR UV__POLLOUT)) (\<lambda>act. assert_that (\<not> act) (Ret L))))))"

end
