(* ===== verification/Stream_Props.thy ===== *)
theory Stream_Props
  imports Stream
begin

text \<open>
  What streams promise: the bytes that the kernel takes are the bytes submitted, in order;
  the accounting of the queue never fails an assertion; requests are called back.
\<close>

section \<open>Updates\<close>

lemma stream_update_simps [simp]:
  "streams (upd_stream h f L) k = (if k = h then f (streams L h) else streams L k)"
  "streams (upd_req r g L) = streams L"
  "sreqs (upd_req r g L) k = (if k = r then g (sreqs L r) else sreqs L k)"
  "sreqs (upd_stream h f L) = sreqs L"
  "osys (upd_stream h f L) = osys L" "osys (upd_req r g L) = osys L"
  "ios (upd_stream h f L) = ios L" "ios (upd_req r g L) = ios L"
  "handles (upd_stream h f L) = handles L" "handles (upd_req r g L) = handles L"
  "active_reqs (upd_stream h f L) = active_reqs L" "active_reqs (upd_req r g L) = active_reqs L"
  "pending_queue (upd_stream h f L) = pending_queue L" "pending_queue (upd_req r g L) = pending_queue L"
  "uv__stream_fd (upd_stream h f L) k = uv__stream_fd L k"
  "uv__stream_fd (upd_req r g L) k = uv__stream_fd L k"
  "flags_of (upd_stream h f L) = flags_of L" "flags_of (upd_req r g L) = flags_of L"
  by (auto simp: upd_stream_def upd_req_def uv__stream_fd_def flags_of_def)

text \<open>Starting and stopping a watcher and feeding it leave the fields of the streams alone.\<close>

lemma io_feed_frame [simp]:
  "streams (uv__io_feed L h) = streams L" "sreqs (uv__io_feed L h) = sreqs L"
  "osys (uv__io_feed L h) = osys L" "ios (uv__io_feed L h) = ios L" "handles (uv__io_feed L h) = handles L"
  "active_reqs (uv__io_feed L h) = active_reqs L"
  by (simp_all add: uv__io_feed_def)

lemma io_start_frame:
  assumes "uv__io_start L h e = Ret L'"
  shows "streams L' = streams L" "sreqs L' = sreqs L" "osys L' = osys L" "handles L' = handles L"
    "active_reqs L' = active_reqs L" "w_fd (ios L' k) = w_fd (ios L k)"
    "w_pevents (ios L' h) = w_pevents (ios L h) OR e"
  using assms
  by (auto simp: uv__io_start_def Let_def maybe_resize_def set_io_def split: if_splits)

lemma io_start_returns:
  assumes "valid_events e" and "0 \<le> w_fd (ios L h)" and "w_fd (ios L h) < INT_MAX"
  obtains L' where "uv__io_start L h e = Ret L'"
  using assms by (cases "uv__io_start L h e") (auto simp: uv__io_start_def Let_def split: if_splits)

section \<open>The bytes of a request\<close>

definition req_bytes :: "('m) stream_loop_scheme \<Rightarrow> nat \<Rightarrow> byte list" where
  "req_bytes L r = concat (drop (rq_index (sreqs L r)) (rq_bufs (sreqs L r)))"

definition pending_bytes :: "('m) stream_loop_scheme \<Rightarrow> nat \<Rightarrow> byte list" where
  "pending_bytes L h = concat (map (req_bytes L) (write_queue (streams L h)))"

lemma length_concat_sum: "length (concat xs) = uv__buf_count xs"
  by (simp add: uv__buf_count_def length_concat)

text \<open>The loop after a successful write takes exactly the bytes written off the buffers.\<close>

lemma write_advance_takes:
  "i < length bufs \<Longrightarrow> n \<le> length (concat (drop i bufs)) \<Longrightarrow> length (concat (drop i bufs)) \<le> sz \<Longrightarrow>
   \<exists>bufs' i'. write_advance n bufs i sz =
       Ret (bufs', i', sz - n, n = length (concat (drop i bufs))) \<and>
     (n < length (concat (drop i bufs)) \<longrightarrow>
        i' < length bufs' \<and> concat (drop i' bufs') = drop n (concat (drop i bufs)))"
proof (induction n bufs i sz rule: write_advance.induct)
  case (1 n bufs i sz)
  let ?len = "length (bufs ! i)"
  have split: "drop i bufs = bufs ! i # drop (Suc i) bufs" using "1.prems"(1) by (rule Cons_nth_drop_Suc [symmetric])
  consider "n < ?len" | "?len \<le> n" "Suc i = length bufs" | "?len \<le> n" "Suc i < length bufs"
    using "1.prems"(1) by linarith
  then show ?case
  proof cases
    case 1
    have "drop i (bufs[i := drop n (bufs ! i)]) = drop n (bufs ! i) # drop (Suc i) bufs"
      using "1.prems"(1) by (simp add: drop_update_swap split)
    then have "concat (drop i (bufs[i := drop n (bufs ! i)])) = drop n (concat (drop i bufs))"
      using 1 by (simp add: split)
    moreover have "n < length (concat (drop i bufs))" using 1 by (simp add: split)
    ultimately show ?thesis
      using 1 "1.prems"(1) by (subst write_advance.simps) (simp add: Let_def)
  next
    case 2
    then have "n = ?len" using "1.prems"(2) by (simp add: split)
    moreover have "?len \<le> sz" using "1.prems"(3) by (simp add: split)
    ultimately show ?thesis
      using 2 "1.prems"(1) by (subst write_advance.simps) (simp add: Let_def split)
  next
    case 3
    have sz: "?len \<le> sz" using "1.prems"(3) by (simp add: split)
    have "\<exists>bufs' i'. write_advance (n - ?len) bufs (Suc i) (sz - ?len) =
       Ret (bufs', i', sz - ?len - (n - ?len), n - ?len = length (concat (drop (Suc i) bufs))) \<and>
     (n - ?len < length (concat (drop (Suc i) bufs)) \<longrightarrow>
        i' < length bufs' \<and> concat (drop i' bufs') = drop (n - ?len) (concat (drop (Suc i) bufs)))"
      using 3 "1.prems" by (intro "1.IH" [OF refl]) (auto simp: split)
    moreover have "(n - ?len = length (concat (drop (Suc i) bufs))) = (n = length (concat (drop i bufs)))"
      using 3(1) by (auto simp: split)
    moreover have "sz - ?len - (n - ?len) = sz - n" using 3(1) sz by simp
    ultimately show ?thesis
      using 3 sz "1.prems"(1) by (subst write_advance.simps) (auto simp: Let_def split)
  qed
qed

section \<open>One write\<close>

text \<open>An open, connected, non-blocking stream whose accounting is right.\<close>

definition req_ok :: "('m) stream_loop_scheme \<Rightarrow> nat \<Rightarrow> nat \<Rightarrow> bool" where
  "req_ok L h r \<longleftrightarrow> rq_handle (sreqs L r) = h \<and> rq_index (sreqs L r) < length (rq_bufs (sreqs L r)) \<and>
     rq_send_handle (sreqs L r) = None"

definition stream_ok :: "('m) stream_loop_scheme \<Rightarrow> nat \<Rightarrow> bool" where
  "stream_ok L h \<longleftrightarrow> 0 \<le> uv__stream_fd L h \<and> uv__stream_fd L h < INT_MAX \<and>
     \<not> flag_on (flags_of L h) UV_CLOSING \<and> \<not> flag_on (flags_of L h) UV_STREAM_BLOCKING \<and>
     connect_req (streams L h) = None \<and> distinct (write_queue (streams L h)) \<and>
     (\<forall>r \<in> set (write_queue (streams L h)). req_ok L h r) \<and>
     write_queue_size (streams L h) = length (pending_bytes L h)"

text \<open>What the kernel took of one call on the descriptor \<open>fd\<close>, and of all calls.\<close>

definition taken :: "int \<Rightarrow> sysc \<times> answer \<Rightarrow> byte list" where
  "taken fd x = (case snd x of
       Val n \<Rightarrow> (case fst x of
           Sys_write f d \<Rightarrow> if f = fd then take (nat n) d else []
         | Sys_writev f ds \<Rightarrow> if f = fd then take (nat n) (concat ds) else []
         | Sys_sendmsg f ds s \<Rightarrow> if f = fd then take (nat n) (concat ds) else []
         | _ \<Rightarrow> [])
     | _ \<Rightarrow> [])"

definition bytes_out :: "('m) stream_loop_scheme \<Rightarrow> nat \<Rightarrow> byte list" where
  "bytes_out L h = concat (map (taken (uv__stream_fd L h)) (calls (osys L)))"

text \<open>The bytes that have left plus the bytes that wait: no operation may change them but a
  new write, which appends.\<close>

definition stream_data :: "('m) stream_loop_scheme \<Rightarrow> nat \<Rightarrow> byte list" where
  "stream_data L h = bytes_out L h @ pending_bytes L h"

lemma taken_err [simp]: "taken fd (c, Err e) = []"
  by (simp add: taken_def)

lemma write_call_ok:
  assumes "req_ok L h r"
  obtains c where "write_call L h r = Ret c" "\<And>n. taken (uv__stream_fd L h) (c, Val n) = take (nat n) (req_bytes L r)"
proof -
  let ?iov = "drop (rq_index (sreqs L r)) (rq_bufs (sreqs L r))"
  have "?iov \<noteq> []" using assms by (simp add: req_ok_def)
  then have "length ?iov = 1 \<Longrightarrow> concat ?iov = hd ?iov" by (cases ?iov) auto
  then show ?thesis
    using that assms by (cases "length ?iov = 1") (auto simp: write_call_def req_ok_def Let_def taken_def req_bytes_def)
qed

text \<open>A legal answer: the kernel takes no more than it was given, or asks to wait.\<close>

definition legal_answer :: "('m) stream_loop_scheme \<Rightarrow> nat \<Rightarrow> answer \<Rightarrow> bool" where
  "legal_answer L r a \<longleftrightarrow> a = Err EAGAIN \<or> (\<exists>n. a = Val n \<and> 0 \<le> n \<and> nat n \<le> length (req_bytes L r))"

definition after_call :: "('m) stream_loop_scheme \<Rightarrow> answer list \<Rightarrow> sysc \<Rightarrow> answer \<Rightarrow> ('m) stream_loop_scheme" where
  "after_call L as c a = L\<lparr>osys := (osys L)\<lparr>script := as, calls := calls (osys L) @ [(c, a)]\<rparr>\<rparr>"

lemma after_call_simps [simp]:
  "streams (after_call L as c a) = streams L" "sreqs (after_call L as c a) = sreqs L"
  "handles (after_call L as c a) = handles L" "ios (after_call L as c a) = ios L"
  "req_bytes (after_call L as c a) = req_bytes L" "pending_bytes (after_call L as c a) = pending_bytes L"
  "uv__stream_fd (after_call L as c a) = uv__stream_fd L" "flags_of (after_call L as c a) = flags_of L"
  "bytes_out (after_call L as c a) h = bytes_out L h @ taken (uv__stream_fd L h) (c, a)"
  by (auto simp: after_call_def req_bytes_def [abs_def] pending_bytes_def [abs_def] uv__stream_fd_def [abs_def]
      flags_of_def [abs_def] bytes_out_def)

lemma stream_ok_after_call [simp]: "stream_ok (after_call L as c a) h = stream_ok L h"
  by (simp add: stream_ok_def req_ok_def)

text \<open>When no request but \<open>r\<close> changes, the bytes of the others stay.\<close>

lemma bytes_of_others:
  assumes "\<And>k. k \<in> set rs \<Longrightarrow> sreqs L' k = sreqs L k"
  shows "map (req_bytes L') rs = map (req_bytes L) rs"
  using assms by (simp add: req_bytes_def)

lemma write_done_step:
  assumes ok: "stream_ok L h" and q: "write_queue (streams L h) = r # rs" and n: "n = length (req_bytes L r)"
    and L': "L' = uv__write_req_finish (upd_stream h (\<lambda>s. s\<lparr>write_queue_size := write_queue_size s - n\<rparr>)
      (upd_req r (\<lambda>q. q\<lparr>rq_bufs := b, rq_index := i\<rparr>) L)) r"
  shows "stream_ok L' h \<and> pending_bytes L' h = drop n (pending_bytes L h) \<and> osys L' = osys L \<and>
    uv__stream_fd L' h = uv__stream_fd L h \<and> write_queue (streams L' h) = rs \<and>
    write_completed_queue (streams L' h) = write_completed_queue (streams L h) @ [r] \<and>
    rq_error (sreqs L' r) = rq_error (sreqs L r)"
proof -
  have r: "rq_handle (sreqs L r) = h" "r \<notin> set rs" "distinct rs"
    using ok q by (auto simp: stream_ok_def req_ok_def)
  have f: "streams L' h = (streams L h)\<lparr>write_queue_size := write_queue_size (streams L h) - n, write_queue := rs,
        write_completed_queue := write_completed_queue (streams L h) @ [r]\<rparr>"
      "\<And>k. k \<noteq> r \<Longrightarrow> sreqs L' k = sreqs L k" "rq_error (sreqs L' r) = rq_error (sreqs L r)"
      "ios L' = ios L" "handles L' = handles L" "osys L' = osys L"
    unfolding L' using r q by (auto simp: uv__write_req_finish_def Let_def)
  have p: "pending_bytes L' h = concat (map (req_bytes L) rs)"
  proof -
    have "map (req_bytes L') rs = map (req_bytes L) rs"
      by (rule bytes_of_others, rule f(2)) (use r(2) in auto)
    then show ?thesis by (simp add: pending_bytes_def f(1) del: map_eq_conv)
  qed
  moreover have "pending_bytes L h = req_bytes L r @ concat (map (req_bytes L) rs)"
    by (simp add: pending_bytes_def q)
  moreover have "\<forall>k \<in> set rs. sreqs L' k = sreqs L k" using f(2) r(2) by metis
  moreover from this have "stream_ok L' h"
    using ok r q f(1,3,4,5,6) p n calculation(2)
    by (auto simp: stream_ok_def req_ok_def uv__stream_fd_def flags_of_def)
  ultimately show ?thesis using f n by (simp add: uv__stream_fd_def)
qed

lemma write_part_step:
  assumes ok: "stream_ok L h" and q: "write_queue (streams L h) = r # rs" and n: "n < length (req_bytes L r)"
    and b: "i < length b" "concat (drop i b) = drop n (req_bytes L r)"
    and L1: "L1 = upd_stream h (\<lambda>s. s\<lparr>write_queue_size := write_queue_size s - n\<rparr>)
      (upd_req r (\<lambda>q. q\<lparr>rq_bufs := b, rq_index := i\<rparr>) L)"
    and L': "uv__io_start L1 h UV__POLLOUT = Ret L'"
  shows "stream_ok L' h \<and> pending_bytes L' h = drop n (pending_bytes L h) \<and> osys L' = osys L \<and>
    uv__stream_fd L' h = uv__stream_fd L h \<and> write_queue (streams L' h) = r # rs"
proof -
  have r: "rq_handle (sreqs L r) = h" "r \<notin> set rs" "distinct rs"
    using ok q by (auto simp: stream_ok_def req_ok_def)
  note fr = io_start_frame [OF L']
  have rb: "req_bytes L' r = drop n (req_bytes L r)" using fr b(2) by (simp add: req_bytes_def L1)
  have m: "map (req_bytes L') rs = map (req_bytes L) rs"
    using fr r(2) by (intro bytes_of_others) (auto simp: L1)
  have "write_queue (streams L' h) = r # rs" using fr(1) q by (simp add: L1)
  with m have p: "pending_bytes L' h = drop n (req_bytes L r) @ concat (map (req_bytes L) rs)"
    using rb by (simp add: pending_bytes_def del: map_eq_conv)
  have p0: "pending_bytes L h = req_bytes L r @ concat (map (req_bytes L) rs)"
    by (simp add: pending_bytes_def q)
  have "stream_ok L' h"
    using ok r q fr p p0 n b(1)
    by (auto simp: stream_ok_def req_ok_def uv__stream_fd_def flags_of_def L1)
  with p p0 n fr q show ?thesis by (simp add: L1 uv__stream_fd_def)
qed

lemma write_answer_ok:
  assumes ok: "stream_ok L h" and q: "write_queue (streams L h) = r # rs" and legal: "legal_answer L r a"
  shows "\<exists>L'. uv__write_answer L h r a = Ret (Write_over L') \<and> stream_ok L' h \<and> osys L' = osys L \<and>
    uv__stream_fd L' h = uv__stream_fd L h \<and>
    pending_bytes L' h = drop (case a of Val n \<Rightarrow> nat n | _ \<Rightarrow> 0) (pending_bytes L h) \<and>
    (a = Val (int (length (req_bytes L r))) \<longrightarrow> write_queue (streams L' h) = rs)"
proof -
  have blk: "\<not> flag_on (flags_of L h) UV_STREAM_BLOCKING" and fd: "0 \<le> w_fd (ios L h)" "w_fd (ios L h) < INT_MAX"
    and ro: "req_ok L h r" and sz: "write_queue_size (streams L h) = length (pending_bytes L h)"
    using ok q by (auto simp: stream_ok_def uv__stream_fd_def)
  have ev: "valid_events UV__POLLOUT" by (simp add: valid_events_def)
  have len: "length (req_bytes L r) \<le> write_queue_size (streams L h)" using sz q by (simp add: pending_bytes_def)
  from legal show ?thesis
    unfolding legal_answer_def
  proof (elim disjE exE conjE)
    assume a: "a = Err EAGAIN"
    obtain L' where L': "uv__io_start L h UV__POLLOUT = Ret L'" using io_start_returns [OF ev fd] .
    note fr = io_start_frame [OF L']
    have "req_bytes L' = req_bytes L" using fr by (simp add: req_bytes_def fun_eq_iff)
    then have "pending_bytes L' h = pending_bytes L h" using fr by (simp add: pending_bytes_def)
    moreover from this ok fr have "stream_ok L' h"
      by (simp add: stream_ok_def req_ok_def uv__stream_fd_def flags_of_def)
    ultimately show ?thesis
      using a L' fr blk by (intro exI [of _ L']) (simp add: uv__write_answer_def Let_def uv__stream_fd_def)
  next
    fix n assume a: "a = Val n" and n: "0 \<le> n" "nat n \<le> length (req_bytes L r)"
    obtain b i where adv: "write_advance (nat n) (rq_bufs (sreqs L r)) (rq_index (sreqs L r))
        (write_queue_size (streams L h)) =
        Ret (b, i, write_queue_size (streams L h) - nat n, nat n = length (req_bytes L r))"
      "nat n < length (req_bytes L r) \<longrightarrow> i < length b \<and> concat (drop i b) = drop (nat n) (req_bytes L r)"
      using write_advance_takes [of "rq_index (sreqs L r)" "rq_bufs (sreqs L r)" "nat n" "write_queue_size (streams L h)"]
        ro n(2) len unfolding req_ok_def req_bytes_def by blast
    let ?L1 = "upd_stream h (\<lambda>s. s\<lparr>write_queue_size := write_queue_size s - nat n\<rparr>)
      (upd_req r (\<lambda>q. q\<lparr>rq_bufs := b, rq_index := i\<rparr>) L)"
    have L1: "upd_stream h (\<lambda>s. s\<lparr>write_queue_size := write_queue_size (streams L h) - nat n\<rparr>)
      (upd_req r (\<lambda>q. q\<lparr>rq_bufs := b, rq_index := i\<rparr>) L) = ?L1"
      by (simp add: upd_stream_def upd_req_def)
    show ?thesis
    proof (cases "nat n = length (req_bytes L r)")
      case True
      with write_done_step [OF ok q this refl, where b = b and i = i] a adv(1) L1 show ?thesis
        by (simp add: uv__write_answer_def Let_def)
    next
      case False
      then have lt: "nat n < length (req_bytes L r)" using n(2) by simp
      with adv(2) have b: "i < length b" "concat (drop i b) = drop (nat n) (req_bytes L r)" by auto
      obtain L' where L': "uv__io_start ?L1 h UV__POLLOUT = Ret L'"
        using io_start_returns [of UV__POLLOUT ?L1 h] ev fd by auto
      from write_part_step [OF ok q lt b refl L'] a adv(1) False L1 L' blk n(1) show ?thesis
        by (intro exI [of _ L']) (auto simp: uv__write_answer_def Let_def)
    qed
  qed
qed

text \<open>\<open>uv__write\<close> on a stream with something to write, when the kernel gives a legal answer
  after any number of interruptions.\<close>

lemma write_on_ok:
  "stream_ok L h \<Longrightarrow> write_queue (streams L h) = r # rs \<Longrightarrow> find (\<lambda>a. a \<noteq> Err EINTR) as = Some a \<Longrightarrow>
   legal_answer L r a \<Longrightarrow>
   \<exists>L'. uv__write_on as L h = Ret L' \<and> stream_ok L' h \<and> uv__stream_fd L' h = uv__stream_fd L h \<and>
     stream_data L' h = stream_data L h \<and>
     bytes_out L' h = bytes_out L h @ take (case a of Val n \<Rightarrow> nat n | _ \<Rightarrow> 0) (req_bytes L r)"
proof (induction as arbitrary: L)
  case Nil
  then show ?case by simp
next
  case (Cons x xs)
  have ro: "req_ok L h r" and fd: "0 \<le> uv__stream_fd L h" using Cons.prems(1,2) by (auto simp: stream_ok_def)
  obtain c where c: "write_call L h r = Ret c"
    "\<And>n. taken (uv__stream_fd L h) (c, Val n) = take (nat n) (req_bytes L r)"
    using write_call_ok [OF ro] by blast
  have turn: "uv__write_on (x # xs) L h =
      (if x = Err EINTR then uv__write_on xs (after_call L xs c x) h
       else obind (uv__write_answer (after_call L xs c x) h r x) (\<lambda>y.
         case y of Write_over L \<Rightarrow> Ret L | Write_again L \<Rightarrow> uv__write_on xs L h))"
    using c(1) fd ro Cons.prems(2)
    by (subst uv__write_on.simps)
      (simp add: uv_write_queue_head_def after_call_def req_ok_def Let_def)
  show ?case
  proof (cases "x = Err EINTR")
    case True
    let ?L = "after_call L xs c x"
    have "\<exists>L'. uv__write_on xs ?L h = Ret L' \<and> stream_ok L' h \<and> uv__stream_fd L' h = uv__stream_fd ?L h \<and>
     stream_data L' h = stream_data ?L h \<and>
     bytes_out L' h = bytes_out ?L h @ take (case a of Val n \<Rightarrow> nat n | _ \<Rightarrow> 0) (req_bytes ?L r)"
      using Cons.prems True by (intro Cons.IH) (auto simp: legal_answer_def)
    with turn True show ?thesis by (simp add: stream_data_def)
  next
    case False
    with Cons.prems(3) have "x = a" by simp
    let ?L = "after_call L xs c a"
    have "legal_answer ?L r a" using Cons.prems(4) by (simp add: legal_answer_def)
    from write_answer_ok [OF _ _ this, of h rs] Cons.prems(1,2)
    obtain L' where L': "uv__write_answer ?L h r a = Ret (Write_over L')" "stream_ok L' h" "osys L' = osys ?L"
      "uv__stream_fd L' h = uv__stream_fd L h"
      "pending_bytes L' h = drop (case a of Val n \<Rightarrow> nat n | _ \<Rightarrow> 0) (pending_bytes L h)" by auto
    have pb: "pending_bytes L h = req_bytes L r @ concat (map (req_bytes L) rs)"
      by (simp add: pending_bytes_def Cons.prems(2))
    have out: "bytes_out L' h = bytes_out ?L h" using L'(3,4) by (simp add: bytes_out_def)
    from Cons.prems(4) show ?thesis
      unfolding legal_answer_def
    proof (elim disjE exE conjE)
      assume "a = Err EAGAIN"
      with turn False \<open>x = a\<close> L' out show ?thesis by (intro exI [of _ L']) (simp add: stream_data_def)
    next
      fix n assume "a = Val n" "0 \<le> n" "nat n \<le> length (req_bytes L r)"
      with turn False \<open>x = a\<close> L' out pb c(2) show ?thesis
        by (intro exI [of _ L']) (simp add: stream_data_def)
    qed
  qed
qed

section \<open>Runs of writes\<close>

text \<open>The kernel's next answer that is not an interruption is legal for the head of the queue.\<close>

definition kernel_legal :: "('m) stream_loop_scheme \<Rightarrow> nat \<Rightarrow> bool" where
  "kernel_legal L h \<longleftrightarrow> write_queue (streams L h) = [] \<or>
     (\<exists>a. find (\<lambda>a. a \<noteq> Err EINTR) (script (osys L)) = Some a \<and>
        legal_answer L (hd (write_queue (streams L h))) a)"

lemma write_ok:
  assumes "stream_ok L h" and "kernel_legal L h"
  shows "\<exists>L'. uv__write L h = Ret L' \<and> stream_ok L' h \<and> stream_data L' h = stream_data L h"
proof (cases "write_queue (streams L h)")
  case Nil
  with assms(1) have "uv__write L h = Ret L"
    by (subst uv__write_def, subst uv__write_on.simps)
      (simp add: stream_ok_def uv_write_queue_head_def pending_bytes_def)
  with assms(1) show ?thesis by simp
next
  case (Cons r rs)
  with assms(2) obtain a where "find (\<lambda>a. a \<noteq> Err EINTR) (script (osys L)) = Some a" "legal_answer L r a"
    by (auto simp: kernel_legal_def)
  from write_on_ok [OF assms(1) Cons this] assms(1) show ?thesis
    by (auto simp: uv__write_def stream_ok_def)
qed

lemma queue_write_ok:
  assumes "stream_ok L h" and "bufs \<noteq> []" and "r \<notin> set (write_queue (streams L h))"
  shows "stream_ok (queue_write L r h bufs None cb) h \<and>
    stream_data (queue_write L r h bufs None cb) h = stream_data L h @ concat bufs"
proof -
  let ?L = "queue_write L r h bufs None cb"
  have q: "write_queue (streams ?L h) = write_queue (streams L h) @ [r]"
    "ios ?L = ios L" "handles ?L = handles L" "osys ?L = osys L"
    by (auto simp: queue_write_def uv__req_init_def uv__req_register_def Let_def upd_req_def upd_stream_def)
  have r: "rq_handle (sreqs ?L r) = h" "rq_index (sreqs ?L r) = 0" "rq_bufs (sreqs ?L r) = bufs"
    "rq_send_handle (sreqs ?L r) = None"
    "connect_req (streams ?L h) = connect_req (streams L h)"
    "write_queue_size (streams ?L h) = write_queue_size (streams L h) + length (concat bufs)"
    by (simp_all add: queue_write_def uv__req_init_def uv__req_register_def Let_def upd_req_def upd_stream_def
        length_concat_sum)
  have others: "\<forall>k \<in> set (write_queue (streams L h)). sreqs ?L k = sreqs L k"
    using assms(3) by (auto simp: queue_write_def uv__req_init_def uv__req_register_def Let_def upd_req_def upd_stream_def)
  then have "map (req_bytes ?L) (write_queue (streams L h)) = map (req_bytes L) (write_queue (streams L h))"
    by (intro bytes_of_others) simp
  then have p: "pending_bytes ?L h = pending_bytes L h @ concat bufs"
    by (simp add: pending_bytes_def q(1) req_bytes_def [of ?L r] r del: map_eq_conv)
  with assms others q r have "stream_ok ?L h"
    by (auto simp: stream_ok_def req_ok_def uv__stream_fd_def flags_of_def)
  moreover have "bytes_out ?L h = bytes_out L h" using q by (simp add: bytes_out_def uv__stream_fd_def)
  ultimately show ?thesis using p by (simp add: stream_data_def)
qed

text \<open>
  A stream that is written to, and whose queue is worked on when the poll says so, with the
  kernel's script changing in between.
\<close>

inductive stream_run :: "nat \<Rightarrow> ('m) stream_loop_scheme \<Rightarrow> byte list \<Rightarrow> bool" for h where
  start: "stream_ok L h \<Longrightarrow> write_queue (streams L h) = [] \<Longrightarrow> calls (osys L) = [] \<Longrightarrow> stream_run h L []"
| kernel: "stream_run h L bs \<Longrightarrow> stream_run h (L\<lparr>osys := (osys L)\<lparr>script := as\<rparr>\<rparr>) bs"
| submit: "stream_run h L bs \<Longrightarrow> r \<notin> set (write_queue (streams L h)) \<Longrightarrow>
    kernel_legal (queue_write L r h bufs None cb) h \<Longrightarrow> uv_write L r h bufs cb = Ret (0, L') \<Longrightarrow>
    stream_run h L' (bs @ concat bufs)"
| writable: "stream_run h L bs \<Longrightarrow> kernel_legal L h \<Longrightarrow> uv__write L h = Ret L' \<Longrightarrow> stream_run h L' bs"

lemma stream_run_data: "stream_run h L bs \<Longrightarrow> stream_ok L h \<and> stream_data L h = bs"
proof (induction rule: stream_run.induct)
  case (start L)
  then show ?case by (simp add: stream_data_def bytes_out_def pending_bytes_def)
next
  case (kernel L bs as)
  let ?L = "L\<lparr>osys := (osys L)\<lparr>script := as\<rparr>\<rparr>"
  have "pending_bytes ?L h = pending_bytes L h" by (simp add: pending_bytes_def req_bytes_def [abs_def])
  with kernel show ?case
    by (simp add: stream_ok_def req_ok_def uv__stream_fd_def flags_of_def stream_data_def bytes_out_def)
next
  case (submit L bs r bufs cb L')
  let ?L = "queue_write L r h bufs None cb"
  have bufs: "bufs \<noteq> []" using submit.hyps(4) by (auto simp: uv_write_def uv_write2_def)
  have ok: "stream_ok ?L h" "stream_data ?L h = bs @ concat bufs"
    using queue_write_ok [OF _ bufs submit.hyps(2), of cb] submit.IH by auto
  have cases: "uv__write ?L h = Ret L' \<or> uv__io_start ?L h UV__POLLOUT = Ret L'"
    using submit.hyps(4) ok(1)
    by (auto simp: uv_write_def uv_write2_def Let_def obind_eq_Ret stream_ok_def split: if_splits
        simp: uv__set_sys_error_def)
  then show ?case
  proof
    assume "uv__write ?L h = Ret L'"
    with write_ok [OF ok(1) submit.hyps(3)] ok(2) show ?thesis by auto
  next
    assume st: "uv__io_start ?L h UV__POLLOUT = Ret L'"
    note fr = io_start_frame [OF st]
    have "req_bytes L' = req_bytes ?L" using fr by (simp add: req_bytes_def fun_eq_iff)
    then have "pending_bytes L' h = pending_bytes ?L h" using fr by (simp add: pending_bytes_def)
    with fr ok show ?thesis
      by (simp add: stream_ok_def req_ok_def uv__stream_fd_def flags_of_def stream_data_def bytes_out_def)
  qed
next
  case (writable L bs L')
  with write_ok [of L h] show ?case by auto
qed

text \<open>
  C6. A stream is a byte queue: over any sequence of \<open>uv_write\<close> calls and writable events,
  with partial writes, interruptions and full socket buffers at any point, the bytes that the
  kernel has taken followed by the bytes still queued are exactly the bytes submitted, in
  order; the size the stream keeps is the number of bytes that wait, so that none of the
  assertions on it fails and \<open>uv__write\<close> returns.
\<close>

theorem stream_is_byte_queue:
  assumes "stream_run h L bs"
  shows "bytes_out L h @ pending_bytes L h = bs \<and>
    write_queue_size (streams L h) = length (pending_bytes L h) \<and>
    (kernel_legal L h \<longrightarrow> (\<exists>L'. uv__write L h = Ret L' \<and>
       bytes_out L' h @ pending_bytes L' h = bs))"
  using stream_run_data [OF assms] write_ok [of L h]
  by (auto simp: stream_data_def stream_ok_def)

text \<open>A connected TCP stream on descriptor 3; the kernel is interrupted, then takes two bytes.\<close>

definition blank_stream :: uv_stream where
  "blank_stream = \<lparr>read_cb = None, read2_cb = None, alloc_cb = None, connection_cb = None, connect_req = None,
     shutdown_req = None, accepted_fd = - 1, delayed_error = 0, write_queue = [], write_completed_queue = [],
     write_queue_size = 0, ipc = False, pipe_fname = None\<rparr>"

definition blank_req :: uv_stream_req where
  "blank_req = \<lparr>rq_type = UV_WRITE, rq_cb = None, rq_handle = 0, rq_error = 0, rq_send_handle = None,
     rq_bufs = [], rq_index = 0\<rparr>"

definition open_stream :: "answer list \<Rightarrow> stream_loop" where
  "open_stream as = (async_loop.extend one_async
     (stream_loop.fields (\<lambda>_. blank_stream) (\<lambda>_. blank_req) (- 1) True False))
     \<lparr>handles := (\<lambda>_. \<lparr>h_type = UV_TCP, h_flags = UV_STREAM_WRITABLE, h_close_cb = None\<rparr>),
      ios := (\<lambda>_. \<lparr>w_cb = CB_STREAM_IO, w_fd = 3, w_events = 0, w_pevents = 0\<rparr>),
      osys := \<lparr>script = as, calls = [], no_accept4 = False, no_cloexec = False, no_pipe2 = False\<rparr>\<rparr>"

lemma open_stream_simps [simp]:
  "streams (open_stream as) h = blank_stream" "sreqs (open_stream as) r = blank_req"
  "osys (open_stream as) = \<lparr>script = as, calls = [], no_accept4 = False, no_cloexec = False, no_pipe2 = False\<rparr>"
  "uv__stream_fd (open_stream as) h = 3" "h_type (handles (open_stream as) h) = UV_TCP"
  "flags_of (open_stream as) h = UV_STREAM_WRITABLE" "active_reqs (open_stream as) = []"
  "w_fd (ios (open_stream as) h) = 3"
  by (simp_all add: open_stream_def uv__stream_fd_def flags_of_def one_async_def blank_lw_def
      stream_loop.defs async_loop.defs lw_loop.defs)

lemma open_stream_ok: "stream_ok (open_stream as) h"
  by (simp add: stream_ok_def blank_stream_def pending_bytes_def flag_on_def)

theorem stream_is_byte_queue_witness:
  "\<exists>L. uv_write (open_stream [Err EINTR, Val 2]) 7 5 [[10, 11, 12]] None = Ret (0, L) \<and>
     bytes_out L 5 @ pending_bytes L 5 = [10, 11, 12]"
proof -
  let ?L0 = "open_stream [Err EINTR, Val 2]"
  let ?Q = "queue_write ?L0 7 5 [[10, 11, 12]] None None"
  have q: "write_queue (streams ?L0 5) = []" by (simp add: blank_stream_def)
  have Q: "write_queue (streams ?Q 5) = [7]" "osys ?Q = osys ?L0" "req_bytes ?Q 7 = [10, 11, 12]"
    "connect_req (streams ?Q 5) = None"
    using q by (simp_all add: queue_write_def uv__req_init_def uv__req_register_def Let_def upd_req_def
        upd_stream_def req_bytes_def blank_stream_def)
  have legal: "kernel_legal ?Q 5" by (simp add: kernel_legal_def Q legal_answer_def)
  from queue_write_ok [OF open_stream_ok, of "[[10, 11, 12]]" 7] q
  have "stream_ok ?Q 5" by simp
  from write_ok [OF this legal] obtain L where "uv__write ?Q 5 = Ret L" by blast
  with Q have w: "uv_write ?L0 7 5 [[10, 11, 12]] None = Ret (0, L)"
    by (simp add: uv_write_def uv_write2_def Let_def blank_stream_def)
  have "stream_run 5 ?L0 []" by (rule stream_run.start [OF open_stream_ok]) (simp_all add: blank_stream_def)
  from stream_run.submit [OF this _ legal w] q have "stream_run 5 L [10, 11, 12]" by simp
  from stream_is_byte_queue [OF this] w show ?thesis by blast
qed

section \<open>Shutting down twice\<close>

lemma uv_shutdown_success:
  assumes "uv_shutdown L r h cb = Ret (0, L')"
  shows "active_reqs L' = active_reqs L @ [r]" "shutdown_req (streams L' h) = Some r"
proof -
  let ?L1 = "upd_stream h (\<lambda>s. s\<lparr>shutdown_req := Some r\<rparr>)
    (upd_req r (\<lambda>q. q\<lparr>rq_handle := h, rq_cb := cb\<rparr>) (uv__req_init L r UV_SHUTDOWN))"
  from assms have "uv__io_start (set_flags h (flag_set (flags_of ?L1 h) UV_STREAM_SHUTTING) ?L1) h UV__POLLOUT = Ret L'"
    by (auto simp: uv_shutdown_def Let_def obind_eq_Ret uv__set_artificial_error_def split: if_splits)
  note fr = io_start_frame [OF this]
  show "active_reqs L' = active_reqs L @ [r]" "shutdown_req (streams L' h) = Some r"
    using fr by (simp_all add: set_flags_def uv__req_init_def uv__req_register_def upd_req_def upd_stream_def)
qed

text \<open>
  C33. A second \<open>uv_shutdown\<close> loses the first one: the request overwrites \<open>shutdown_req\<close> without
  a test of \<open>UV_STREAM_SHUTTING\<close>, so that the drain answers the second request only. The first
  stays registered, is never called back, and keeps the loop alive.
\<close>

theorem uv_shutdown_twice_loses_first:
  assumes "uv_shutdown L r1 h cb1 = Ret (0, L1)" and "uv_shutdown L1 r2 h cb2 = Ret (0, L2)"
    and "r1 \<noteq> r2" and "\<And>e L L'. user e L = Ret L' \<Longrightarrow> active_reqs L' = active_reqs L"
    and "uv__drain user L2 h = Ret L3"
  shows "shutdown_req (streams L2 h) = Some r2 \<and> r1 \<in> set (active_reqs L3) \<and> uv__loop_alive L3"
proof -
  note one = uv_shutdown_success [OF assms(1)] and two = uv_shutdown_success [OF assms(2)]
  have in2: "r1 \<in> set (active_reqs L2)" using one two by simp
  from assms(5) obtain L2' where stop: "uv__io_stop L2 h UV__POLLOUT = Ret L2'"
    by (auto simp: uv__drain_def obind_eq_Ret)
  then have st: "streams L2' = streams L2" "active_reqs L2' = active_reqs L2"
    by (auto simp: uv__io_stop_def Let_def set_io_def split: if_splits)
  have "r1 \<in> set (active_reqs L3)"
    using assms(3,5) stop st in2 two(2)
    by (auto simp: uv__drain_def obind_eq_Ret uv__req_unregister_def on_os_def call_opt_def
        uv__set_sys_error_def set_flags_def upd_stream_def Let_def dest!: assms(4) split: if_splits option.splits)
  then show ?thesis
    using two(2) by (auto simp: uv__loop_alive_def uv__has_active_reqs_def)
qed

lemma shut_twice_runs:
  "case uv_shutdown (open_stream [Val 0]) 7 5 (Some 4) of
     Ret (a, L1) \<Rightarrow> a = 0 \<and> (case uv_shutdown L1 8 5 (Some 2) of
       Ret (b, L2) \<Rightarrow> b = 0 \<and> (case uv__drain (\<lambda>e. Ret) L2 5 of Ret L3 \<Rightarrow> True | _ \<Rightarrow> False) | _ \<Rightarrow> False)
   | _ \<Rightarrow> False"
  by code_simp

theorem uv_shutdown_twice_loses_first_witness:
  "\<exists>L1 L2 L3. uv_shutdown (open_stream [Val 0]) 7 5 (Some 4) = Ret (0, L1) \<and>
     uv_shutdown L1 8 5 (Some 2) = Ret (0, L2) \<and> uv__drain (\<lambda>e. Ret) L2 5 = Ret L3 \<and>
     7 \<in> set (active_reqs L3) \<and> uv__loop_alive L3"
proof -
  obtain L1 L2 L3 where r: "uv_shutdown (open_stream [Val 0]) 7 5 (Some 4) = Ret (0, L1)"
      "uv_shutdown L1 8 5 (Some 2) = Ret (0, L2)" "uv__drain (\<lambda>e. Ret) L2 5 = Ret L3"
  proof -
    obtain a L1 where 1: "uv_shutdown (open_stream [Val 0]) 7 5 (Some 4) = Ret (a, L1)"
      using shut_twice_runs by (cases "uv_shutdown (open_stream [Val 0]) 7 5 (Some 4)") auto
    note s1 = shut_twice_runs [unfolded 1, simplified]
    obtain b L2 where 2: "uv_shutdown L1 8 5 (Some 2) = Ret (b, L2)"
      using s1 by (cases "uv_shutdown L1 8 5 (Some 2)") auto
    note s2 = s1 [unfolded 2, simplified]
    obtain L3 where "uv__drain (\<lambda>e. Ret) L2 5 = Ret L3"
      using s2 by (cases "uv__drain (\<lambda>e. Ret) L2 5") auto
    moreover have "a = 0" "b = 0" using s1 s2 by auto
    ultimately show thesis using 1 2 that by blast
  qed
  from uv_shutdown_twice_loses_first [OF r(1,2) _ _ r(3)] r show ?thesis by auto
qed

section \<open>Closing a stream\<close>

text \<open>A user that records the callbacks it gets.\<close>

record recorded_loop = stream_loop +
  events :: "stream_event list"

definition recorder :: "stream_event \<Rightarrow> ('m) recorded_loop_scheme \<Rightarrow> ('m) recorded_loop_scheme outcome" where
  "recorder ev L = Ret (L\<lparr>events := events L @ [ev]\<rparr>)"

definition status_of :: "uv_stream_req \<Rightarrow> int" where
  "status_of q = (if rq_error q \<noteq> 0 then - 1 else 0)"

text \<open>The callbacks that the open requests of a stream are still owed.\<close>

definition owed :: "('m) recorded_loop_scheme \<Rightarrow> nat \<Rightarrow> stream_event list" where
  "owed L h =
     (case connect_req (streams L h) of None \<Rightarrow> [] | Some r \<Rightarrow> [Ev_connect (the (rq_cb (sreqs L r))) r (- 1)]) @
     concat (map (\<lambda>r. case rq_cb (sreqs L r) of None \<Rightarrow> [] | Some c \<Rightarrow> [Ev_write c r (- 1)]) (write_queue (streams L h))) @
     concat (map (\<lambda>r. case rq_cb (sreqs L r) of None \<Rightarrow> [] | Some c \<Rightarrow> [Ev_write c r (status_of (sreqs L r))])
       (write_completed_queue (streams L h))) @
     (case shutdown_req (streams L h) of None \<Rightarrow> [] | Some r \<Rightarrow> [Ev_shutdown (the (rq_cb (sreqs L r))) r (- 1)])"

definition open_reqs :: "('m) stream_loop_scheme \<Rightarrow> nat \<Rightarrow> nat list" where
  "open_reqs L h = (case connect_req (streams L h) of None \<Rightarrow> [] | Some r \<Rightarrow> [r]) @ write_queue (streams L h) @
     write_completed_queue (streams L h) @ (case shutdown_req (streams L h) of None \<Rightarrow> [] | Some r \<Rightarrow> [r])"

text \<open>What the steps of \<open>uv__stream_destroy\<close> change: the requests \<open>rs\<close> are released, the
  callbacks \<open>evs\<close> made.\<close>

definition released_by :: "('m) recorded_loop_scheme \<Rightarrow> nat list \<Rightarrow> stream_event list \<Rightarrow> ('m) recorded_loop_scheme \<Rightarrow> bool" where
  "released_by L rs evs L' \<longleftrightarrow> sreqs L' = sreqs L \<and> ios L' = ios L \<and> handles L' = handles L \<and>
     active_reqs L' = fold remove1 rs (active_reqs L) \<and> events L' = events L @ evs"

lemma released_by_trans:
  "released_by L rs evs L1 \<Longrightarrow> released_by L1 rs' evs' L2 \<Longrightarrow> released_by L (rs @ rs') (evs @ evs') L2"
  by (simp add: released_by_def)

lemma in_fold_remove1: "x \<in> set xs \<Longrightarrow> x \<notin> set rs \<Longrightarrow> x \<in> set (fold remove1 rs xs)"
  by (induction rs arbitrary: xs) auto

lemma unregister_ok:
  "r \<in> set (active_reqs L) \<Longrightarrow> uv__req_unregister L r = Ret (L\<lparr>active_reqs := remove1 r (active_reqs L)\<rparr>)"
  by (auto simp: uv__req_unregister_def uv__has_active_reqs_def)

lemma rest_registered:
  "distinct (r # rs) \<Longrightarrow> set (r # rs) \<subseteq> set xs \<Longrightarrow> set rs \<subseteq> set (remove1 r xs)"
  by (induction rs) auto

lemma cancel_req_ok:
  assumes "r \<in> set (active_reqs L)"
  shows "\<exists>L'. cancel_req recorder L r ev = Ret L' \<and> streams L' = streams L \<and>
    released_by L [r] (case rq_cb (sreqs L r) of None \<Rightarrow> [] | Some c \<Rightarrow> [ev c]) L'"
  using assms
  by (cases "rq_cb (sreqs L r)")
    (simp_all add: cancel_req_def unregister_ok recorder_def uv__set_artificial_error_def released_by_def)

lemma cancel_single_ok:
  assumes "\<And>r. x = Some r \<Longrightarrow> r \<in> set (active_reqs L) \<and> rq_cb (sreqs L r) \<noteq> None"
  shows "\<exists>L'. cancel_single recorder L x ev = Ret L' \<and> streams L' = streams L \<and>
    released_by L (case x of None \<Rightarrow> [] | Some r \<Rightarrow> [r])
      (case x of None \<Rightarrow> [] | Some r \<Rightarrow> [ev (the (rq_cb (sreqs L r))) r]) L'"
proof (cases x)
  case None
  then show ?thesis by (simp add: cancel_single_def released_by_def)
next
  case (Some r)
  with assms obtain c where "r \<in> set (active_reqs L)" "rq_cb (sreqs L r) = Some c" by auto
  with Some show ?thesis
    by (simp add: cancel_single_def unregister_ok recorder_def uv__set_artificial_error_def released_by_def)
qed

lemma stream_same [simp]: "write_queue s = [] \<Longrightarrow> s\<lparr>write_queue := []\<rparr> = s"
  "write_completed_queue s = [] \<Longrightarrow> s\<lparr>write_completed_queue := []\<rparr> = s"
  by (cases s, simp)+

text \<open>The loop over the queue \<open>rs\<close> of the requests that did not finish.\<close>

lemma cancel_writes_ok:
  "write_queue (streams L h) = rs \<Longrightarrow> distinct rs \<Longrightarrow> set rs \<subseteq> set (active_reqs L) \<Longrightarrow>
   \<exists>L'. cancel_writes recorder L h = Some (Ret L') \<and>
     streams L' = (streams L)(h := (streams L h)\<lparr>write_queue := []\<rparr>) \<and>
     released_by L rs
       (concat (map (\<lambda>r. case rq_cb (sreqs L r) of None \<Rightarrow> [] | Some c \<Rightarrow> [Ev_write c r (- 1)]) rs)) L'"
proof (induction rs arbitrary: L)
  case Nil
  then show ?case by (subst cancel_writes.simps) (simp add: released_by_def fun_upd_idem)
next
  case (Cons r rs)
  let ?ev = "\<lambda>L r. case rq_cb (sreqs L r) of None \<Rightarrow> [] | Some c \<Rightarrow> [Ev_write c r (- 1)]"
  let ?L1 = "upd_stream h (\<lambda>s. s\<lparr>write_queue := rs\<rparr>) L"
  have "r \<in> set (active_reqs ?L1)" using Cons.prems(3) by simp
  from cancel_req_ok [OF this, of "\<lambda>c. Ev_write c r (- 1)"] obtain L2 where
    L2: "cancel_req recorder ?L1 r (\<lambda>c. Ev_write c r (- 1)) = Ret L2" "streams L2 = streams ?L1"
      "released_by ?L1 [r] (?ev ?L1 r) L2" by blast
  have rel: "released_by L [r] (?ev L r) L2" "sreqs L2 = sreqs L"
    using L2(3) by (simp_all add: released_by_def upd_stream_def)
  have "write_queue (streams L2 h) = rs" "set rs \<subseteq> set (active_reqs L2)"
    using L2(2) rel(1) Cons.prems(2,3) rest_registered [of r rs] by (auto simp: released_by_def)
  moreover have "distinct rs" using Cons.prems(2) by simp
  ultimately obtain L' where L': "cancel_writes recorder L2 h = Some (Ret L')"
      "streams L' = (streams L2)(h := (streams L2 h)\<lparr>write_queue := []\<rparr>)"
      "released_by L2 rs (concat (map (?ev L2) rs)) L'" using Cons.IH by blast
  have "released_by L ([r] @ rs) (?ev L r @ concat (map (?ev L) rs)) L'"
    using released_by_trans [OF rel(1) L'(3)] rel(2) by simp
  moreover have "streams L' = (streams L)(h := (streams L h)\<lparr>write_queue := []\<rparr>)"
    using L'(2) L2(2) by (simp add: fun_eq_iff)
  moreover have "cancel_writes recorder L h = Some (Ret L')"
    using Cons.prems(1) L2(1) L'(1) by (subst cancel_writes.simps) simp
  ultimately show ?case by auto
qed

text \<open>The loop over the queue of the requests that finished.\<close>

lemma run_completed_ok:
  "write_completed_queue (streams L h) = rs \<Longrightarrow> distinct rs \<Longrightarrow> set rs \<subseteq> set (active_reqs L) \<Longrightarrow>
   \<exists>L'. run_completed recorder L h = Some (Ret L') \<and>
     streams L' = (streams L)(h := (streams L h)\<lparr>write_completed_queue := []\<rparr>) \<and>
     released_by L rs
       (concat (map (\<lambda>r. case rq_cb (sreqs L r) of None \<Rightarrow> [] | Some c \<Rightarrow> [Ev_write c r (status_of (sreqs L r))]) rs)) L'"
proof (induction rs arbitrary: L)
  case Nil
  then show ?case by (subst run_completed.simps) (simp add: released_by_def fun_upd_idem)
next
  case (Cons r rs)
  let ?ev = "\<lambda>L r. case rq_cb (sreqs L r) of None \<Rightarrow> [] | Some c \<Rightarrow> [Ev_write c r (status_of (sreqs L r))]"
  obtain L2 where L2: "obind (pop_completed L h r) (\<lambda>L. write_done recorder L r) = Ret L2"
      "streams L2 = (streams L)(h := (streams L h)\<lparr>write_completed_queue := rs\<rparr>)"
      "released_by L [r] (?ev L r) L2"
  proof -
    have pop: "pop_completed L h r = Ret ((upd_stream h (\<lambda>s. s\<lparr>write_completed_queue := remove1 r (write_completed_queue s)\<rparr>) L)
        \<lparr>active_reqs := remove1 r (active_reqs L)\<rparr>)"
      using Cons.prems(3) by (simp add: pop_completed_def unregister_ok)
    show thesis
      using that Cons.prems(1) pop
      by (cases "rq_cb (sreqs L r)")
        (simp_all add: write_done_def recorder_def uv__set_sys_error_def released_by_def status_of_def upd_stream_def Let_def)
  qed
  have rel: "sreqs L2 = sreqs L" using L2(3) by (simp add: released_by_def)
  have "write_completed_queue (streams L2 h) = rs" "set rs \<subseteq> set (active_reqs L2)"
    using L2(2,3) Cons.prems(2,3) rest_registered [of r rs] by (auto simp: released_by_def)
  moreover have "distinct rs" using Cons.prems(2) by simp
  ultimately obtain L' where L': "run_completed recorder L2 h = Some (Ret L')"
      "streams L' = (streams L2)(h := (streams L2 h)\<lparr>write_completed_queue := []\<rparr>)"
      "released_by L2 rs (concat (map (?ev L2) rs)) L'" using Cons.IH by blast
  have "released_by L ([r] @ rs) (?ev L r @ concat (map (?ev L) rs)) L'"
    using released_by_trans [OF L2(3) L'(3) [unfolded rel]] by simp
  moreover have "streams L' = (streams L)(h := (streams L h)\<lparr>write_completed_queue := []\<rparr>)"
    using L'(2) L2(2) by (simp add: fun_eq_iff)
  moreover have "run_completed recorder L h = Some (Ret L')"
    using Cons.prems(1) L2(1) L'(1) by (subst run_completed.simps) simp
  ultimately show ?case by auto
qed

text \<open>
  C20. Closing a stream answers every request exactly once. When the stream is destroyed after
  the close, with its watcher stopped and its requests registered, \<open>uv__stream_destroy\<close> returns;
  it has called back the pending connect, every queued write as cancelled, every completed
  write with its own status, and the pending shutdown, each once and in this order; it has
  released all of them from the loop, and nothing is left in the queues.
\<close>

theorem uv__stream_destroy_answers_all:
  assumes "uv__io_active L h (UV__POLLIN OR UV__POLLOUT) = Ret False" and "flag_on (flags_of L h) UV_CLOSED"
    and "distinct (open_reqs L h)" and "set (open_reqs L h) \<subseteq> set (active_reqs L)"
    and "\<And>r. connect_req (streams L h) = Some r \<Longrightarrow> rq_cb (sreqs L r) \<noteq> None"
    and "\<And>r. shutdown_req (streams L h) = Some r \<Longrightarrow> rq_cb (sreqs L r) \<noteq> None"
  shows "\<exists>L'. uv__stream_destroy recorder L h = Some (Ret L') \<and> events L' = events L @ owed L h \<and>
    active_reqs L' = fold remove1 (open_reqs L h) (active_reqs L) \<and> open_reqs L' h = []"
proof -
  let ?s = "streams L h"
  let ?con = "case connect_req ?s of None \<Rightarrow> [] | Some r \<Rightarrow> [r]"
  let ?ws = "write_queue ?s" and ?cs = "write_completed_queue ?s"
  have reg: "set ?con \<subseteq> set (active_reqs L)" "set ?ws \<subseteq> set (active_reqs L)" "set ?cs \<subseteq> set (active_reqs L)"
    "\<And>r. shutdown_req ?s = Some r \<Longrightarrow> r \<in> set (active_reqs L)"
    using assms(4) by (auto simp: open_reqs_def)
  have dis: "distinct ?ws" "distinct ?cs" "set ?con \<inter> set ?ws = {}" "set (?con @ ?ws) \<inter> set ?cs = {}"
    "\<And>r. shutdown_req ?s = Some r \<Longrightarrow> r \<notin> set (?con @ ?ws @ ?cs)"
    using assms(3) by (auto simp: open_reqs_def)
  have keep: "set as \<subseteq> set (fold remove1 rs xs)" if "set as \<subseteq> set xs" "set rs \<inter> set as = {}"
    for as rs xs :: "nat list" using that by (auto intro: in_fold_remove1)
  have "r \<in> set (active_reqs L) \<and> rq_cb (sreqs L r) \<noteq> None" if "connect_req ?s = Some r" for r
    using reg(1) assms(5) [OF that] that by simp
  from cancel_single_ok [OF this, where ev = "\<lambda>c r. Ev_connect c r (- 1)"]
  obtain L1 where L1: "cancel_single recorder L (connect_req ?s) (\<lambda>c r. Ev_connect c r (- 1)) = Ret L1"
      "streams L1 = streams L" "released_by L ?con
        (case connect_req ?s of None \<Rightarrow> [] | Some r \<Rightarrow> [Ev_connect (the (rq_cb (sreqs L r))) r (- 1)]) L1"
    by blast
  let ?L1 = "upd_stream h (\<lambda>s. s\<lparr>connect_req := None\<rparr>) L1"
  have q1: "write_queue (streams ?L1 h) = ?ws" "set ?ws \<subseteq> set (active_reqs ?L1)" "sreqs ?L1 = sreqs L"
    using L1(2,3) keep [OF reg(2) dis(3)] by (auto simp: released_by_def)
  from cancel_writes_ok [OF q1(1) dis(1) q1(2)] q1(3) obtain L2 where
    L2: "cancel_writes recorder ?L1 h = Some (Ret L2)"
      "streams L2 = (streams ?L1)(h := (streams ?L1 h)\<lparr>write_queue := []\<rparr>)"
      "released_by ?L1 ?ws (concat (map (\<lambda>r. case rq_cb (sreqs L r) of None \<Rightarrow> []
         | Some c \<Rightarrow> [Ev_write c r (- 1)]) ?ws)) L2" by auto
  have up: "released_by L (?con @ ?ws) ((case connect_req ?s of None \<Rightarrow> []
        | Some r \<Rightarrow> [Ev_connect (the (rq_cb (sreqs L r))) r (- 1)]) @
      concat (map (\<lambda>r. case rq_cb (sreqs L r) of None \<Rightarrow> [] | Some c \<Rightarrow> [Ev_write c r (- 1)]) ?ws)) L2"
    using L1(3) L2(3) by (simp add: released_by_def upd_stream_def)
  have q2: "write_completed_queue (streams L2 h) = ?cs" "set ?cs \<subseteq> set (active_reqs L2)" "sreqs L2 = sreqs L"
    using L2(2) L1(2) up keep [OF reg(3) dis(4)] by (auto simp: released_by_def)
  from run_completed_ok [OF q2(1) dis(2) q2(2), unfolded q2(3)] obtain L3 where
    L3: "run_completed recorder L2 h = Some (Ret L3)"
      "streams L3 = (streams L2)(h := (streams L2 h)\<lparr>write_completed_queue := []\<rparr>)"
      "released_by L2 ?cs (concat (map (\<lambda>r. case rq_cb (sreqs L r) of None \<Rightarrow> []
         | Some c \<Rightarrow> [Ev_write c r (status_of (sreqs L r))]) ?cs)) L3" by blast
  note up3 = released_by_trans [OF up L3(3)]
  have sd: "shutdown_req (streams L3 h) = shutdown_req ?s" using L3(2) L2(2) L1(2) by simp
  have "r \<in> set (active_reqs L3) \<and> rq_cb (sreqs L3 r) \<noteq> None" if "shutdown_req ?s = Some r" for r
    using up3 in_fold_remove1 [OF reg(4) [OF that] dis(5) [OF that]] assms(6) [OF that]
    by (simp add: released_by_def)
  from cancel_single_ok [OF this, where ev = "\<lambda>c r. Ev_shutdown c r (- 1)"] obtain L4 where
    L4: "cancel_single recorder L3 (shutdown_req ?s) (\<lambda>c r. Ev_shutdown c r (- 1)) = Ret L4" "streams L4 = streams L3"
      "released_by L3 (case shutdown_req ?s of None \<Rightarrow> [] | Some r \<Rightarrow> [r])
        (case shutdown_req ?s of None \<Rightarrow> [] | Some r \<Rightarrow> [Ev_shutdown (the (rq_cb (sreqs L3 r))) r (- 1)]) L4" by blast
  have "sreqs L3 = sreqs L" using up3 by (simp add: released_by_def)
  from released_by_trans [OF up3 L4(3) [unfolded this]]
  have "released_by L (open_reqs L h) (owed L h) L4" by (simp add: open_reqs_def owed_def)
  moreover have "uv__stream_destroy recorder L h = Some (Ret (upd_stream h (\<lambda>s. s\<lparr>shutdown_req := None\<rparr>) L4))"
    using assms(1,2) L1(1) L2(1) L3(1) L4(1) sd by (simp add: uv__stream_destroy_def)
  moreover have "open_reqs (upd_stream h (\<lambda>s. s\<lparr>shutdown_req := None\<rparr>) L4) h = []"
    using L4(2) L3(2) L2(2) by (simp add: open_reqs_def)
  ultimately show ?thesis by (auto simp: released_by_def upd_stream_def)
qed

text \<open>A closed stream with a queued write, a failed one and a shutdown.\<close>

definition closed_stream :: recorded_loop where
  "closed_stream = (stream_loop.extend (open_stream []) (recorded_loop.fields []))
     \<lparr>active_reqs := [7, 8, 9],
      handles := (\<lambda>_. \<lparr>h_type = UV_TCP, h_flags = UV_CLOSING OR UV_CLOSED, h_close_cb = None\<rparr>),
      streams := (\<lambda>_. blank_stream\<lparr>write_queue := [7], write_completed_queue := [8], shutdown_req := Some 9\<rparr>),
      sreqs := (\<lambda>r. blank_req\<lparr>rq_cb := Some 4, rq_error := (if r = 8 then EPIPE else 0)\<rparr>)\<rparr>"

theorem uv__stream_destroy_answers_all_witness:
  "\<exists>L'. uv__stream_destroy recorder closed_stream 5 = Some (Ret L') \<and>
     events L' = [Ev_write 4 7 (- 1), Ev_write 4 8 (- 1), Ev_shutdown 4 9 (- 1)]"
proof -
  have f: "streams closed_stream 5 = blank_stream\<lparr>write_queue := [7], write_completed_queue := [8], shutdown_req := Some 9\<rparr>"
    "events closed_stream = []" "active_reqs closed_stream = [7, 8, 9]"
    "rq_cb (sreqs closed_stream r) = Some 4" "rq_error (sreqs closed_stream r) = (if r = 8 then EPIPE else 0)" for r
    by (simp_all add: closed_stream_def stream_loop.defs recorded_loop.defs)
  have "uv__io_active closed_stream 5 (UV__POLLIN OR UV__POLLOUT) = Ret False" by code_simp
  moreover have "flag_on (flags_of closed_stream 5) UV_CLOSED" by code_simp
  ultimately show ?thesis
    using uv__stream_destroy_answers_all [of closed_stream 5]
    by (force simp: f blank_stream_def open_reqs_def owed_def status_of_def)
qed

end
