(* ===== verification/Tcp_Pipe.thy ===== *)
theory Tcp_Pipe
  imports Stream_Props
begin

text \<open>
  TCP sockets (\<open>src/unix/tcp.c\<close>) and pipes (\<open>src/unix/pipe.c\<close>), the two kinds of stream that
  connect and listen. An address is the string of its bytes, with its family beside it;
  \<open>errno\<close> is restored by these functions and is not part of the state.
\<close>

section \<open>TCP\<close>

definition uv_tcp_init :: "('m) stream_loop_scheme \<Rightarrow> nat \<Rightarrow> (int \<times> ('m) stream_loop_scheme) outcome" where
  "uv_tcp_init L h = obind (uv__stream_init L h UV_TCP) (\<lambda>L. Ret (0, L))"

definition maybe_new_socket :: "('m) stream_loop_scheme \<Rightarrow> nat \<Rightarrow> int \<Rightarrow> uint32 \<Rightarrow>
    (int \<times> ('m) stream_loop_scheme) outcome" where
  "maybe_new_socket L h family flags =
     (if uv__stream_fd L h \<noteq> - 1 then Ret (0, L)
      else obind (on_os (uv__socket family (word_of_int SOCK_STREAM) 0) L) (\<lambda>(r, L).
        case r of
          Val fd \<Rightarrow>
            obind (uv__stream_open L h fd flags) (\<lambda>(x, L).
              if x \<noteq> 0 then obind (on_os (sys (Sys_close fd)) L) (\<lambda>(_, L). Ret (- 1, L))
              else Ret (0, L))
        | _ \<Rightarrow> Ret (uv__set_sys_error L (answer_errno r))))"

abbreviation (input) SO_REUSEADDR :: int where "SO_REUSEADDR \<equiv> 2"

definition uv__bind :: "('m) stream_loop_scheme \<Rightarrow> nat \<Rightarrow> int \<Rightarrow> string \<Rightarrow> (int \<times> ('m) stream_loop_scheme) outcome" where
  "uv__bind L h family addr =
     obind (maybe_new_socket L h family (UV_STREAM_READABLE OR UV_STREAM_WRITABLE)) (\<lambda>(x, L).
       if x \<noteq> 0 then Ret (- 1, L)
       else obind (on_os (sys (Sys_setsockopt (uv__stream_fd L h) SOL_SOCKET SO_REUSEADDR)) L) (\<lambda>(r, L).
         if failed r then Ret (uv__set_sys_error L (answer_errno r))
         else obind (on_os (sys (Sys_bind (uv__stream_fd L h) addr)) L) (\<lambda>(r, L).
           if failed r \<and> r \<noteq> Err EADDRINUSE then Ret (uv__set_sys_error L (answer_errno r))
           else Ret (0, upd_stream h (\<lambda>s. s\<lparr>delayed_error := answer_errno r\<rparr>) L))))"

definition uv__connect :: "('m) stream_loop_scheme \<Rightarrow> nat \<Rightarrow> nat \<Rightarrow> int \<Rightarrow> string \<Rightarrow> nat option \<Rightarrow>
    (int \<times> ('m) stream_loop_scheme) outcome" where
  "uv__connect L r h family addr cb =
     assert_that (h_type (handles L h) = UV_TCP)
      (if connect_req (streams L h) \<noteq> None then Ret (uv__set_sys_error L EALREADY)
       else obind (maybe_new_socket L h family (UV_STREAM_READABLE OR UV_STREAM_WRITABLE)) (\<lambda>(x, L).
         if x \<noteq> 0 then Ret (- 1, L)
         else obind (on_os (sys_retry (Sys_connect (uv__stream_fd L h) addr))
                (upd_stream h (\<lambda>s. s\<lparr>delayed_error := 0\<rparr>) L)) (\<lambda>(a, L).
           if failed a \<and> a \<noteq> Err EINPROGRESS \<and> a \<noteq> Err ECONNREFUSED
           then Ret (uv__set_sys_error L (answer_errno a))
           else
             let L = (if a = Err ECONNREFUSED then upd_stream h (\<lambda>s. s\<lparr>delayed_error := ECONNREFUSED\<rparr>) L else L);
                 L = uv__req_init L r UV_CONNECT;
                 L = upd_req r (\<lambda>q. q\<lparr>rq_cb := cb, rq_handle := h\<rparr>) L;
                 L = upd_stream h (\<lambda>s. s\<lparr>connect_req := Some r\<rparr>) L
             in obind (uv__io_start L h UV__POLLOUT) (\<lambda>L.
                  Ret (0, if delayed_error (streams L h) \<noteq> 0 then uv__io_feed L h else L)))))"

definition uv__tcp_bind :: "('m) stream_loop_scheme \<Rightarrow> nat \<Rightarrow> string \<Rightarrow> (int \<times> ('m) stream_loop_scheme) outcome" where
  "uv__tcp_bind L h addr = uv__bind L h AF_INET addr"

definition uv__tcp_bind6 :: "('m) stream_loop_scheme \<Rightarrow> nat \<Rightarrow> string \<Rightarrow> (int \<times> ('m) stream_loop_scheme) outcome" where
  "uv__tcp_bind6 L h addr = uv__bind L h AF_INET6 addr"

definition uv__tcp_connect :: "('m) stream_loop_scheme \<Rightarrow> nat \<Rightarrow> nat \<Rightarrow> string \<Rightarrow> nat option \<Rightarrow>
    (int \<times> ('m) stream_loop_scheme) outcome" where
  "uv__tcp_connect L r h addr cb = uv__connect L r h AF_INET addr cb"

definition uv__tcp_connect6 :: "('m) stream_loop_scheme \<Rightarrow> nat \<Rightarrow> nat \<Rightarrow> string \<Rightarrow> nat option \<Rightarrow>
    (int \<times> ('m) stream_loop_scheme) outcome" where
  "uv__tcp_connect6 L r h addr cb = uv__connect L r h AF_INET6 addr cb"

definition uv_tcp_open :: "('m) stream_loop_scheme \<Rightarrow> nat \<Rightarrow> int \<Rightarrow> (int \<times> ('m) stream_loop_scheme) outcome" where
  "uv_tcp_open L h fd = uv__stream_open L h fd (UV_STREAM_READABLE OR UV_STREAM_WRITABLE)"

text \<open>The name itself is the kernel's; the model has the result and the error.\<close>

definition tcp_name :: "(int \<Rightarrow> sysc) \<Rightarrow> ('m) stream_loop_scheme \<Rightarrow> nat \<Rightarrow> (int \<times> ('m) stream_loop_scheme) outcome" where
  "tcp_name call L h =
     (if delayed_error (streams L h) \<noteq> 0 then Ret (uv__set_sys_error L (delayed_error (streams L h)))
      else if uv__stream_fd L h < 0 then Ret (uv__set_sys_error L EINVAL)
      else obind (on_os (sys (call (uv__stream_fd L h))) L) (\<lambda>(r, L).
        if failed r then Ret (uv__set_sys_error L (answer_errno r)) else Ret (0, L)))"

definition uv_tcp_getsockname :: "('m) stream_loop_scheme \<Rightarrow> nat \<Rightarrow> (int \<times> ('m) stream_loop_scheme) outcome" where
  "uv_tcp_getsockname L h = tcp_name Sys_getsockname L h"

definition uv_tcp_getpeername :: "('m) stream_loop_scheme \<Rightarrow> nat \<Rightarrow> (int \<times> ('m) stream_loop_scheme) outcome" where
  "uv_tcp_getpeername L h = tcp_name Sys_getpeername L h"

text \<open>From here on the watcher's callback is the one that accepts.\<close>

definition listen_on :: "('m) stream_loop_scheme \<Rightarrow> nat \<Rightarrow> nat \<Rightarrow> nat option \<Rightarrow> ('m) stream_loop_scheme outcome" where
  "listen_on L h io_cb cb =
     (let L = upd_stream h (\<lambda>s. s\<lparr>connection_cb := cb\<rparr>) L
      in uv__io_start (set_io h ((ios L h)\<lparr>w_cb := io_cb\<rparr>) L) h UV__POLLIN)"

definition uv_tcp_listen :: "('m) stream_loop_scheme \<Rightarrow> nat \<Rightarrow> int \<Rightarrow> nat option \<Rightarrow>
    (int \<times> ('m) stream_loop_scheme) outcome" where
  "uv_tcp_listen L h backlog cb =
     (if delayed_error (streams L h) \<noteq> 0 then Ret (uv__set_sys_error L (delayed_error (streams L h)))
      else
        let L = (if single_accept L then set_flags h (flag_set (flags_of L h) UV_TCP_SINGLE_ACCEPT) L else L)
        in obind (maybe_new_socket L h AF_INET UV_STREAM_READABLE) (\<lambda>(x, L).
          if x \<noteq> 0 then Ret (- 1, L)
          else obind (on_os (sys (Sys_listen (uv__stream_fd L h) backlog)) L) (\<lambda>(r, L).
            if failed r then Ret (uv__set_sys_error L (answer_errno r))
            else obind (listen_on L h CB_SERVER_IO cb) (\<lambda>L. Ret (0, L)))))"

definition set_option_flag :: "uint32 \<Rightarrow> (os \<Rightarrow> (answer \<times> os) outcome) \<Rightarrow> ('m) stream_loop_scheme \<Rightarrow> nat \<Rightarrow> int \<Rightarrow>
    (int \<times> ('m) stream_loop_scheme) outcome" where
  "set_option_flag flag call L h on =
     obind (if uv__stream_fd L h \<noteq> - 1 then on_os call L else Ret (Val 0, L)) (\<lambda>(r, L).
       if failed r then Ret (- 1, L)
       else Ret (0, set_flags h (if on \<noteq> 0 then flag_set (flags_of L h) flag else flag_clr (flags_of L h) flag) L))"

definition uv_tcp_nodelay :: "('m) stream_loop_scheme \<Rightarrow> nat \<Rightarrow> int \<Rightarrow> (int \<times> ('m) stream_loop_scheme) outcome" where
  "uv_tcp_nodelay L h on = set_option_flag UV_TCP_NODELAY (uv__tcp_nodelay (uv__stream_fd L h) on) L h on"

definition uv_tcp_keepalive :: "('m) stream_loop_scheme \<Rightarrow> nat \<Rightarrow> int \<Rightarrow> int \<Rightarrow> (int \<times> ('m) stream_loop_scheme) outcome" where
  "uv_tcp_keepalive L h on delay =
     set_option_flag UV_TCP_KEEPALIVE (uv__tcp_keepalive (uv__stream_fd L h) on delay) L h on"

definition uv_tcp_simultaneous_accepts :: "('m) stream_loop_scheme \<Rightarrow> nat \<Rightarrow> int \<Rightarrow> int \<times> ('m) stream_loop_scheme" where
  "uv_tcp_simultaneous_accepts L h on =
     (0, set_flags h (if on \<noteq> 0 then flag_set (flags_of L h) UV_TCP_SINGLE_ACCEPT
                      else flag_clr (flags_of L h) UV_TCP_SINGLE_ACCEPT) L)"

definition uv__tcp_close :: "('m) stream_loop_scheme \<Rightarrow> nat \<Rightarrow> ('m) stream_loop_scheme outcome" where
  "uv__tcp_close L h = uv__stream_close L h"

section \<open>Pipes\<close>

definition uv_pipe_init :: "('m) stream_loop_scheme \<Rightarrow> nat \<Rightarrow> bool \<Rightarrow> (int \<times> ('m) stream_loop_scheme) outcome" where
  "uv_pipe_init L h i =
     obind (uv__stream_init L h UV_NAMED_PIPE) (\<lambda>L.
       Ret (0, upd_stream h (\<lambda>s. s\<lparr>shutdown_req := None, connect_req := None, pipe_fname := None, ipc := i\<rparr>) L))"

text \<open>\<open>sun_path\<close> holds 108 bytes; the name is cut to fit. \<open>strdup\<close> finds memory.\<close>

definition sun_path :: "string \<Rightarrow> string" where
  "sun_path name = butlast (fst (uv_strlcpy name 108))"

definition uv_pipe_bind :: "('m) stream_loop_scheme \<Rightarrow> nat \<Rightarrow> string \<Rightarrow> (int \<times> ('m) stream_loop_scheme) outcome" where
  "uv_pipe_bind L h name =
     (let fail = (\<lambda>fd L. obind (on_os (sys (Sys_close fd)) L) (\<lambda>(_, L). Ret (- 1, L)))
      in if 0 \<le> uv__stream_fd L h then fail (- 1) (snd (uv__set_artificial_error L UV_EINVAL))
         else obind (on_os (uv__socket AF_UNIX (word_of_int SOCK_STREAM) 0) L) (\<lambda>(r, L).
           case r of
             Val fd \<Rightarrow>
               obind (on_os (sys (Sys_bind fd (sun_path name))) L) (\<lambda>(b, L).
                 if failed b
                 then fail fd (snd (uv__set_sys_error L (if b = Err ENOENT then EACCES else answer_errno b)))
                 else Ret (0, set_fd h fd (upd_stream h (\<lambda>s. s\<lparr>pipe_fname := Some name\<rparr>) L)))
           | _ \<Rightarrow> fail (- 1) (snd (uv__set_sys_error L (answer_errno r)))))"

definition uv_pipe_listen :: "('m) stream_loop_scheme \<Rightarrow> nat \<Rightarrow> int \<Rightarrow> nat option \<Rightarrow>
    (int \<times> ('m) stream_loop_scheme) outcome" where
  "uv_pipe_listen L h backlog cb =
     (if uv__stream_fd L h = - 1 then Ret (uv__set_artificial_error L UV_EINVAL)
      else assert_that (0 \<le> uv__stream_fd L h)
        (obind (on_os (sys (Sys_listen (uv__stream_fd L h) backlog)) L) (\<lambda>(r, L).
          if failed r then Ret (uv__set_sys_error L (answer_errno r))
          else obind (listen_on L h CB_PIPE_ACCEPT cb) (\<lambda>L. Ret (0, L)))))"

definition uv__pipe_close :: "('m) stream_loop_scheme \<Rightarrow> nat \<Rightarrow> ('m) stream_loop_scheme outcome" where
  "uv__pipe_close L h =
     obind (case pipe_fname (streams L h) of
              None \<Rightarrow> Ret L
            | Some f \<Rightarrow> obind (on_os (sys (Sys_unlink f)) L) (\<lambda>(_, L).
                Ret (upd_stream h (\<lambda>s. s\<lparr>pipe_fname := None\<rparr>) L))) (\<lambda>L.
     uv__stream_close L h)"

definition uv_pipe_open :: "('m) stream_loop_scheme \<Rightarrow> nat \<Rightarrow> int \<Rightarrow> (int \<times> ('m) stream_loop_scheme) outcome" where
  "uv_pipe_open L h fd = uv__stream_open L h fd (UV_STREAM_READABLE OR UV_STREAM_WRITABLE)"

text \<open>
  \<open>uv_pipe_connect\<close> up to the label \<open>out\<close>: the value of \<open>delayed_error\<close>, which is \<open>errno\<close> after
  an error and 0 otherwise.
\<close>

definition pipe_connect_try :: "('m) stream_loop_scheme \<Rightarrow> nat \<Rightarrow> string \<Rightarrow> (int \<times> ('m) stream_loop_scheme) outcome" where
  "pipe_connect_try L h name =
     (let new_sock = (uv__stream_fd L h = - 1)
      in obind (if new_sock then on_os (uv__socket AF_UNIX (word_of_int SOCK_STREAM) 0) L
                else Ret (Val (uv__stream_fd L h), L)) (\<lambda>(r, L).
         let L = (if new_sock then set_fd h (answer_fd r) L else L)
         in if failed r then Ret (answer_errno r, L)
            else obind (on_os (sys_retry (Sys_connect (uv__stream_fd L h) (sun_path name))) L) (\<lambda>(r, L).
              if failed r then Ret (answer_errno r, L)
              else obind (if new_sock
                          then uv__stream_open L h (uv__stream_fd L h) (UV_STREAM_READABLE OR UV_STREAM_WRITABLE)
                          else Ret (0, L)) (\<lambda>(x, L).
                if x \<noteq> 0 then Ret (sys_errno (last_err L), L)
                else obind (uv__io_start L h (UV__POLLIN OR UV__POLLOUT)) (\<lambda>L. Ret (0, L))))))"

definition uv_pipe_connect :: "('m) stream_loop_scheme \<Rightarrow> nat \<Rightarrow> nat \<Rightarrow> string \<Rightarrow> nat option \<Rightarrow>
    ('m) stream_loop_scheme outcome" where
  "uv_pipe_connect L r h name cb =
     obind (pipe_connect_try L h name) (\<lambda>(e, L).
       let L = upd_stream h (\<lambda>s. s\<lparr>delayed_error := e, connect_req := Some r\<rparr>) L;
           L = uv__req_init L r UV_CONNECT;
           L = upd_req r (\<lambda>q. q\<lparr>rq_handle := h, rq_cb := cb\<rparr>) L
       in Ret (uv__io_feed L h))"

definition uv__pipe_accept ::
    "(stream_event \<Rightarrow> ('m) stream_loop_scheme \<Rightarrow> ('m) stream_loop_scheme outcome) \<Rightarrow>
     ('m) stream_loop_scheme \<Rightarrow> nat \<Rightarrow> ('m) stream_loop_scheme outcome" where
  "uv__pipe_accept user L h =
     assert_that (h_type (handles L h) = UV_NAMED_PIPE)
      (obind (on_os (uv__accept (uv__stream_fd L h)) L) (\<lambda>(r, L).
        case r of
          Val fd \<Rightarrow>
            let L = upd_stream h (\<lambda>s. s\<lparr>accepted_fd := fd\<rparr>) L
            in obind (ptr_ok (connection_cb (streams L h))) (\<lambda>c.
               obind (user (Ev_connection c h 0) L) (\<lambda>L.
                 if accepted_fd (streams L h) = fd then uv__io_stop L h UV__POLLIN else Ret L))
        | _ \<Rightarrow>
            if r = Err EAGAIN then Ret L
            else let L = snd (uv__set_sys_error L (answer_errno r))
                 in obind (ptr_ok (connection_cb (streams L h))) (\<lambda>c. user (Ev_connection c h (- 1)) L)))"

section \<open>Listening\<close>

definition uv_listen :: "('m) stream_loop_scheme \<Rightarrow> nat \<Rightarrow> int \<Rightarrow> nat option \<Rightarrow> (int \<times> ('m) stream_loop_scheme) outcome" where
  "uv_listen L h backlog cb =
     obind (if h_type (handles L h) = UV_TCP then uv_tcp_listen L h backlog cb
            else if h_type (handles L h) = UV_NAMED_PIPE then uv_pipe_listen L h backlog cb
            else Abort) (\<lambda>(r, L).
       Ret (r, if r = 0 then uv__handle_start L h else L))"

section \<open>A refused connection\<close>


text \<open>
  A refused connection is never reported by \<open>uv_tcp_connect\<close> itself: when the kernel
  answers ECONNREFUSED (after any number of interruptions) the call returns 0, sets no error,
  registers the request and feeds the watcher; the next event of the stream releases the
  request and calls back with -1 and the error ECONNREFUSED.
\<close>

theorem uv_tcp_connect_refused_later:
  assumes "h_type (handles L h) = UV_TCP" and "connect_req (streams L h) = None"
    and "0 \<le> uv__stream_fd L h" and "uv__stream_fd L h < INT_MAX"
    and "script (osys L) = replicate n (Err EINTR) @ Err ECONNREFUSED # as"
  shows "\<exists>L'. uv__tcp_connect L r h addr (Some c) = Ret (0, L') \<and> last_err L' = last_err L \<and>
    active_reqs L' = active_reqs L @ [r] \<and> h \<in> set (pending_queue L') \<and>
    (\<exists>L''. uv__stream_connect user L' h = user (Ev_connect c r (- 1)) L'' \<and>
       err_code (last_err L'') = UV_ECONNREFUSED \<and> connect_req (streams L'' h) = None \<and>
       active_reqs L'' = remove1 r (active_reqs L @ [r]))"
proof -
  let ?L0 = "upd_stream h (\<lambda>s. s\<lparr>delayed_error := 0\<rparr>) L"
  let ?call = "Sys_connect (uv__stream_fd L h) addr"
  have retry: "\<exists>s'. sys_retry_on ?call (replicate n (Err EINTR) @ Err ECONNREFUSED # as) s = Ret (Err ECONNREFUSED, s')" for s
    by (induction n arbitrary: s) (simp_all add: Let_def)
  then obtain s' where s': "sys_retry ?call (osys L) = Ret (Err ECONNREFUSED, s')"
    using assms(5) by (auto simp: sys_retry_def)
  let ?L2 = "upd_stream h (\<lambda>s. s\<lparr>connect_req := Some r\<rparr>)
    (upd_req r (\<lambda>q. q\<lparr>rq_cb := Some c, rq_handle := h\<rparr>)
      (uv__req_init (upd_stream h (\<lambda>s. s\<lparr>delayed_error := ECONNREFUSED\<rparr>) (?L0\<lparr>osys := s'\<rparr>)) r UV_CONNECT))"
  have fd: "w_fd (ios ?L2 h) = w_fd (ios L h)"
    by (simp add: uv__req_init_def uv__req_register_def upd_req_def upd_stream_def)
  have "valid_events UV__POLLOUT" by (simp add: valid_events_def)
  then obtain L3 where L3: "uv__io_start ?L2 h UV__POLLOUT = Ret L3"
    using io_start_returns [of UV__POLLOUT ?L2 h] fd assms(3,4) by (auto simp: uv__stream_fd_def)
  note fr = io_start_frame [OF L3]
  have le: "last_err L3 = last_err L"
    using L3 by (auto simp: uv__io_start_def Let_def maybe_resize_def set_io_def uv__req_init_def
        uv__req_register_def upd_req_def upd_stream_def split: if_splits)
  have f: "delayed_error (streams L3 h) = ECONNREFUSED" "connect_req (streams L3 h) = Some r"
    "rq_cb (sreqs L3 r) = Some c" "active_reqs L3 = active_reqs L @ [r]" "h_type (handles L3 h) = UV_TCP"
    using fr assms(1)
    by (simp_all add: uv__req_init_def uv__req_register_def upd_req_def upd_stream_def)
  let ?L' = "uv__io_feed L3 h"
  have "uv__tcp_connect L r h addr (Some c) = Ret (0, ?L')"
    using assms(1,2,3) s' L3 f(1)
    by (simp add: uv__tcp_connect_def uv__connect_def maybe_new_socket_def on_os_def Let_def)
  moreover have "last_err ?L' = last_err L" "h \<in> set (pending_queue ?L')"
    using le by (simp_all add: uv__io_feed_def)
  moreover have "\<exists>L''. uv__stream_connect user ?L' h = user (Ev_connect c r (- 1)) L'' \<and>
       err_code (last_err L'') = UV_ECONNREFUSED \<and> connect_req (streams L'' h) = None \<and>
       active_reqs L'' = remove1 r (active_reqs L @ [r])"
    using f
    by (simp add: uv__stream_connect_def unregister_ok uv__set_sys_error_def uv_translate_sys_error_def
        errno_table_def upd_stream_def)
      (rule exI, rule conjI, rule refl, simp)
  ultimately show ?thesis using f(4) by auto
qed

text \<open>With an interruption before the refusal.\<close>

theorem uv_tcp_connect_refused_later_witness:
  "\<exists>L'. uv__tcp_connect (open_stream [Err EINTR, Err ECONNREFUSED]) 7 5 ''a'' (Some 4) = Ret (0, L') \<and>
     active_reqs L' = [7]"
  using uv_tcp_connect_refused_later [of "open_stream [Err EINTR, Err ECONNREFUSED]" 5 1 "[]" 7 "''a''" 4 "\<lambda>e. Ret"]
  by (auto simp: blank_stream_def)

end
