(* ===== verification/Threadpool.thy ===== *)
theory Threadpool
  imports Tcp_Pipe "HOL-Library.Multiset"
begin

text \<open>
  The thread pool: \<open>src/unix/threadpool.c\<close>, with the requests of \<open>uv_queue_work\<close> and of
  \<open>src/unix/getaddrinfo.c\<close>. Four workers and the loop thread interleave; a step is one critical
  section (or one stretch between two of them), so that every order the locks allow is a run.
\<close>

section \<open>State\<close>

text \<open>An element of the global queue: the work of a request, or the message to exit.\<close>

datatype wq_item = Exit_message | Item nat

text \<open>The field \<open>work\<close> of \<open>struct uv__work\<close>: the function to run, \<open>uv__cancelled\<close>, or NULL.\<close>

datatype work_fn = Work_fn | Uv_cancelled | Work_null

text \<open>Where a worker stands: waiting for work, about to call \<open>w->work(w)\<close>, after it, or left.\<close>

datatype worker_pc = Waiting | Taken nat | Worked nat | Exited

text \<open>
  \<open>w_linked w\<close> says that the node \<open>w->wq\<close> is not linked to itself (what \<open>ngx_queue_empty\<close> on
  the node tests). \<open>local_wq\<close> is the local queue of \<open>uv__work_done\<close>, \<open>cancelling\<close> the requests
  between the two critical sections of \<open>uv__work_cancel\<close>. The last three fields record the
  submissions, the work functions run, and the calls of \<open>done\<close> with their status.
\<close>

record tpool =
  global_wq :: "wq_item list"
  w_work :: "nat \<Rightarrow> work_fn"
  w_linked :: "nat \<Rightarrow> bool"
  workers :: "nat \<Rightarrow> worker_pc"
  loop_wq :: "nat list"
  local_wq :: "nat list"
  cancelling :: "nat list"
  async_sends :: nat
  submitted :: "nat list"
  worked :: "nat list"
  completed :: "(nat \<times> int) list"

section \<open>Operations\<close>

definition post :: "wq_item \<Rightarrow> tpool \<Rightarrow> tpool" where
  "post q P = P\<lparr>global_wq := global_wq P @ [q]\<rparr>"

definition uv__work_submit :: "nat \<Rightarrow> tpool \<Rightarrow> tpool" where
  "uv__work_submit w P =
     (post (Item w) P)\<lparr>w_work := (w_work P)(w := Work_fn), w_linked := (w_linked P)(w := True),
       submitted := submitted P @ [w]\<rparr>"

text \<open>The three stretches of \<open>worker\<close>. A worker that finds the queue empty waits.\<close>

definition worker_take :: "nat \<Rightarrow> tpool \<Rightarrow> tpool option" where
  "worker_take i P =
     (case global_wq P of
        [] \<Rightarrow> None
      | Exit_message # _ \<Rightarrow> Some (P\<lparr>workers := (workers P)(i := Exited)\<rparr>)
      | Item w # qs \<Rightarrow>
          Some (P\<lparr>global_wq := qs, w_linked := (w_linked P)(w := False), workers := (workers P)(i := Taken w)\<rparr>))"

definition worker_run :: "nat \<Rightarrow> nat \<Rightarrow> tpool \<Rightarrow> tpool outcome" where
  "worker_run i w P =
     (case w_work P w of
        Work_fn \<Rightarrow> Ret (P\<lparr>worked := worked P @ [w], workers := (workers P)(i := Worked w)\<rparr>)
      | Uv_cancelled \<Rightarrow> Abort
      | Work_null \<Rightarrow> Abort)"

definition worker_finish :: "nat \<Rightarrow> nat \<Rightarrow> tpool \<Rightarrow> tpool" where
  "worker_finish i w P =
     P\<lparr>w_work := (w_work P)(w := Work_null), w_linked := (w_linked P)(w := True),
       loop_wq := loop_wq P @ [w], async_sends := Suc (async_sends P), workers := (workers P)(i := Waiting)\<rparr>"

definition cleanup :: "tpool \<Rightarrow> tpool" where
  "cleanup P = post Exit_message P"

text \<open>
  \<open>uv__work_cancel\<close>: the first critical section decides, the second hands the request to the
  loop. \<open>ngx_queue_remove\<close> takes the node out of the queue that holds it.
\<close>

definition unlink_work :: "nat \<Rightarrow> tpool \<Rightarrow> tpool" where
  "unlink_work w P =
     P\<lparr>global_wq := remove1 (Item w) (global_wq P), loop_wq := remove1 w (loop_wq P),
       local_wq := remove1 w (local_wq P)\<rparr>"

definition work_cancel_try :: "nat \<Rightarrow> tpool \<Rightarrow> int \<times> tpool" where
  "work_cancel_try w P =
     (if w_linked P w \<and> w_work P w \<noteq> Work_null
      then (0, (unlink_work w P)\<lparr>cancelling := cancelling P @ [w]\<rparr>)
      else (- 1, P))"

definition work_cancel_post :: "nat \<Rightarrow> tpool \<Rightarrow> tpool" where
  "work_cancel_post w P =
     P\<lparr>w_work := (w_work P)(w := Uv_cancelled), loop_wq := loop_wq P @ [w],
       async_sends := Suc (async_sends P), cancelling := remove1 w (cancelling P)\<rparr>"

definition uv__work_cancel :: "nat \<Rightarrow> tpool \<Rightarrow> int \<times> tpool" where
  "uv__work_cancel w P =
     (let (r, P) = work_cancel_try w P in if r \<noteq> 0 then (- 1, P) else (0, work_cancel_post w P))"

text \<open>\<open>uv__work_done\<close>: the queue of the loop is taken over as a whole, then walked.\<close>

definition work_done_take :: "tpool \<Rightarrow> tpool" where
  "work_done_take P = P\<lparr>local_wq := loop_wq P, loop_wq := []\<rparr>"

abbreviation (input) "work_ECANCELED \<equiv> - (uv_err_val UV_ECANCELED)"

definition work_done_next :: "tpool \<Rightarrow> ((nat \<times> int) \<times> tpool) option" where
  "work_done_next P =
     (case local_wq P of
        [] \<Rightarrow> None
      | w # ws \<Rightarrow>
          let err = (if w_work P w = Uv_cancelled then work_ECANCELED else 0)
          in Some ((w, err), P\<lparr>local_wq := ws, completed := completed P @ [(w, err)]\<rparr>))"

section \<open>Steps\<close>

text \<open>
  A request is submitted again only after its \<open>done\<close>; \<open>uv_cancel\<close> is called on requests that
  are not completed. \<open>outstanding\<close> lists the requests with the place they are in.
\<close>

definition in_worker :: "worker_pc \<Rightarrow> nat list" where
  "in_worker pc = (case pc of Taken w \<Rightarrow> [w] | Worked w \<Rightarrow> [w] | _ \<Rightarrow> [])"

definition items :: "wq_item list \<Rightarrow> nat list" where
  "items qs = concat (map (\<lambda>q. case q of Exit_message \<Rightarrow> [] | Item w \<Rightarrow> [w]) qs)"

definition with_workers :: "tpool \<Rightarrow> nat list" where
  "with_workers P = concat (map (\<lambda>i. in_worker (workers P i)) [0..<4])"

definition outstanding :: "tpool \<Rightarrow> nat list" where
  "outstanding P = items (global_wq P) @ with_workers P @ cancelling P @ loop_wq P @ local_wq P"

inductive pool_step :: "tpool \<Rightarrow> tpool \<Rightarrow> bool" where
  submit: "w \<notin> set (outstanding P) \<Longrightarrow> pool_step P (uv__work_submit w P)"
| take: "i < 4 \<Longrightarrow> workers P i = Waiting \<Longrightarrow> worker_take i P = Some P' \<Longrightarrow> pool_step P P'"
| run: "i < 4 \<Longrightarrow> workers P i = Taken w \<Longrightarrow> worker_run i w P = Ret P' \<Longrightarrow> pool_step P P'"
| finish: "i < 4 \<Longrightarrow> workers P i = Worked w \<Longrightarrow> pool_step P (worker_finish i w P)"
| cancel_try: "w \<in> set (outstanding P) \<Longrightarrow> w \<notin> set (cancelling P) \<Longrightarrow>
    pool_step P (snd (work_cancel_try w P))"
| cancel_post: "w \<in> set (cancelling P) \<Longrightarrow> pool_step P (work_cancel_post w P)"
| done_take: "local_wq P = [] \<Longrightarrow> pool_step P (work_done_take P)"
| done_next: "work_done_next P = Some (x, P') \<Longrightarrow> pool_step P P'"
| exit: "pool_step P (cleanup P)"

definition fresh_pool :: tpool where
  "fresh_pool = \<lparr>global_wq = [], w_work = (\<lambda>_. Work_null), w_linked = (\<lambda>_. False), workers = (\<lambda>_. Waiting),
     loop_wq = [], local_wq = [], cancelling = [], async_sends = 0, submitted = [], worked = [], completed = []\<rparr>"

inductive pool_reach :: "tpool \<Rightarrow> bool" where
  start: "pool_reach fresh_pool"
| step: "pool_reach P \<Longrightarrow> pool_step P P' \<Longrightarrow> pool_reach P'"

section \<open>Requests of the pool\<close>

text \<open>\<open>uv_queue_work\<close> and the \<open>done\<close> function of its requests; the loop and the pool together.\<close>

definition uv_queue_work :: "('m) stream_loop_scheme \<Rightarrow> tpool \<Rightarrow> nat \<Rightarrow> bool \<Rightarrow> int \<times> ('m) stream_loop_scheme \<times> tpool" where
  "uv_queue_work L P r work_cb =
     (if \<not> work_cb then (let (x, L) = uv__set_artificial_error L UV_EINVAL in (x, L, P))
      else (0, uv__req_init L r UV_WORK, uv__work_submit r P))"

definition uv__queue_done ::
    "(nat \<Rightarrow> nat \<Rightarrow> int \<Rightarrow> ('m) stream_loop_scheme \<Rightarrow> ('m) stream_loop_scheme outcome) \<Rightarrow>
     ('m) stream_loop_scheme \<Rightarrow> nat \<Rightarrow> nat option \<Rightarrow> int \<Rightarrow> ('m) stream_loop_scheme outcome" where
  "uv__queue_done user L r cb status =
     obind (uv__req_unregister L r) (\<lambda>L.
       case cb of
         None \<Rightarrow> Ret L
       | Some c \<Rightarrow>
           let L = (if status = work_ECANCELED then snd (uv__set_artificial_error L UV_ECANCELED) else L)
           in user c r (if status \<noteq> 0 then - 1 else 0) L)"

definition uv_cancel :: "('m) stream_loop_scheme \<Rightarrow> tpool \<Rightarrow> nat \<Rightarrow> int \<times> tpool" where
  "uv_cancel L P r =
     (case rq_type (sreqs L r) of
        UV_FS \<Rightarrow> uv__work_cancel r P
      | UV_GETADDRINFO \<Rightarrow> uv__work_cancel r P
      | UV_WORK \<Rightarrow> uv__work_cancel r P
      | _ \<Rightarrow> (- 1, P))"

text \<open>
  \<open>uv_getaddrinfo\<close>; the strings are opaque, so the request keeps which of hints, service and
  host name it has. Memory is found. The result of the resolver is its \<open>retcode\<close>.
\<close>

record gai_req =
  gai_hints :: bool
  gai_service :: bool
  gai_hostname :: bool
  gai_retcode :: int

definition uv_getaddrinfo :: "('m) stream_loop_scheme \<Rightarrow> tpool \<Rightarrow> nat option \<Rightarrow> bool \<Rightarrow> bool \<Rightarrow> bool \<Rightarrow> bool \<Rightarrow>
    int \<times> gai_req option \<times> ('m) stream_loop_scheme \<times> tpool" where
  "uv_getaddrinfo L P req cb hostname service hints =
     (case req of
        None \<Rightarrow> (let (x, L) = uv__set_artificial_error L UV_EINVAL in (x, None, L, P))
      | Some r \<Rightarrow>
          if \<not> cb \<or> (\<not> hostname \<and> \<not> service)
          then (let (x, L) = uv__set_artificial_error L UV_EINVAL in (x, None, L, P))
          else (0, Some \<lparr>gai_hints = hints, gai_service = service, gai_hostname = hostname, gai_retcode = 0\<rparr>,
                uv__req_init L r UV_GETADDRINFO, uv__work_submit r P))"

definition uv__getaddrinfo_work :: "(gai_req \<Rightarrow> int) \<Rightarrow> gai_req \<Rightarrow> gai_req" where
  "uv__getaddrinfo_work resolver g = g\<lparr>gai_retcode := resolver g\<rparr>"

definition uv__getaddrinfo_done ::
    "(nat \<Rightarrow> int \<Rightarrow> ('m) stream_loop_scheme \<Rightarrow> ('m) stream_loop_scheme outcome) \<Rightarrow>
     ('m) stream_loop_scheme \<Rightarrow> nat \<Rightarrow> gai_req \<Rightarrow> int \<Rightarrow> ('m) stream_loop_scheme outcome" where
  "uv__getaddrinfo_done user L r g status =
     obind (uv__req_unregister L r) (\<lambda>L.
       assert_that (gai_hints g \<or> gai_service g \<or> gai_hostname g)
        (let code = gai_retcode g;
             L = (if code = 0 then L
                  else if code = EAI_NONAME \<or> code = EAI_NODATA then snd (uv__set_sys_error L ENOENT)
                  else snd (uv__set_error L UV_EADDRINFO code))
         in if status = work_ECANCELED
            then assert_that (code = 0)
              (user r (uv_err_val UV_ECANCELED) (snd (uv__set_artificial_error L UV_ECANCELED)))
            else user r code L))"


section \<open>Where a request is\<close>

lemma with_workers_unfold:
  "with_workers P = in_worker (workers P 0) @ in_worker (workers P 1) @ in_worker (workers P 2) @ in_worker (workers P 3)"
  by (simp add: with_workers_def numeral_eq_Suc)

lemma mset_with_workers_upd:
  assumes "i < 4"
  shows "mset (with_workers (P\<lparr>workers := (workers P)(i := pc)\<rparr>)) + mset (in_worker (workers P i)) =
    mset (with_workers P) + mset (in_worker pc)"
proof -
  consider "i = 0" | "i = 1" | "i = 2" | "i = 3" using assms by linarith
  then show ?thesis by cases (simp_all add: with_workers_unfold)
qed

lemma with_workers_cong: "workers P = workers P' \<Longrightarrow> with_workers P = with_workers P'"
  by (simp add: with_workers_def)

lemma items_append [simp]: "items (xs @ ys) = items xs @ items ys"
  by (simp add: items_def)

lemma items_Item [simp]: "items (Item w # qs) = w # items qs"
  and items_Exit [simp]: "items (Exit_message # qs) = items qs"
  and items_Nil [simp]: "items [] = []"
  by (simp_all add: items_def)

lemma items_remove1 [simp]: "items (remove1 (Item w) qs) = remove1 w (items qs)"
  by (induction qs) (auto simp: items_def split: wq_item.splits)

lemma mset_in_worker [simp]:
  "mset (in_worker (Taken w)) = {#w#}" "mset (in_worker (Worked w)) = {#w#}" "mset (in_worker Waiting) = {#}"
  "mset (in_worker Exited) = {#}"
  by (simp_all add: in_worker_def)

definition places :: "tpool \<Rightarrow> nat multiset" where
  "places P = mset (items (global_wq P)) + mset (with_workers P) + mset (cancelling P) + mset (loop_wq P) + mset (local_wq P)"

lemma mset_outstanding: "mset (outstanding P) = places P"
  by (simp add: outstanding_def places_def)

lemma distinct_outstanding: "distinct (outstanding P) \<longleftrightarrow> (\<forall>w. count (places P) w \<le> 1)"
  by (simp add: distinct_count_atmost_1 mset_outstanding[symmetric])
     (metis One_nat_def count_mset_0_iff le_0_eq le_SucE order_refl zero_le)

definition run_in_workers :: "tpool \<Rightarrow> nat list" where
  "run_in_workers P = concat (map (\<lambda>i. case workers P i of Worked w \<Rightarrow> [w] | _ \<Rightarrow> []) [0..<4])"

lemma run_in_workers_unfold:
  "run_in_workers P = (let f = (\<lambda>i. case workers P i of Worked w \<Rightarrow> [w] | _ \<Rightarrow> []) in f 0 @ f 1 @ f 2 @ f 3)"
  by (simp add: run_in_workers_def numeral_eq_Suc)

lemma mset_run_in_workers_upd:
  assumes "i < 4"
  shows "mset (run_in_workers (P\<lparr>workers := (workers P)(i := pc)\<rparr>)) + mset (case workers P i of Worked w \<Rightarrow> [w] | _ \<Rightarrow> []) =
    mset (run_in_workers P) + mset (case pc of Worked w \<Rightarrow> [w] | _ \<Rightarrow> [])"
proof -
  consider "i = 0" | "i = 1" | "i = 2" | "i = 3" using assms by linarith
  then show ?thesis by cases (simp_all add: run_in_workers_unfold Let_def)
qed

lemma run_in_workers_cong: "workers P = workers P' \<Longrightarrow> run_in_workers P = run_in_workers P'"
  by (simp add: run_in_workers_def)

text \<open>What holds of a request in each place, and what the three records add up to.\<close>

definition located :: "tpool \<Rightarrow> bool" where
  "located P \<longleftrightarrow>
     (\<forall>w\<in>set (items (global_wq P)). w_linked P w \<and> w_work P w = Work_fn) \<and>
     (\<forall>i<4. \<forall>w. workers P i = Taken w \<or> workers P i = Worked w \<longrightarrow> \<not> w_linked P w \<and> w_work P w = Work_fn) \<and>
     (\<forall>w\<in>set (loop_wq P) \<union> set (local_wq P). w_linked P w \<and> w_work P w \<noteq> Work_fn) \<and>
     (\<forall>w\<in>set (cancelling P). w_linked P w \<and> w_work P w \<noteq> Work_null)"

lemma locatedD:
  assumes "located P"
  shows "w \<in> set (items (global_wq P)) \<Longrightarrow> w_linked P w \<and> w_work P w = Work_fn"
    and "i < 4 \<Longrightarrow> workers P i = Taken w \<or> workers P i = Worked w \<Longrightarrow> \<not> w_linked P w \<and> w_work P w = Work_fn"
    and "w \<in> set (loop_wq P) \<or> w \<in> set (local_wq P) \<Longrightarrow> w_linked P w \<and> w_work P w \<noteq> Work_fn"
    and "w \<in> set (cancelling P) \<Longrightarrow> w_linked P w \<and> w_work P w \<noteq> Work_null"
  using assms unfolding located_def by blast+

definition accounted :: "tpool \<Rightarrow> bool" where
  "accounted P \<longleftrightarrow>
     mset (submitted P) = places P + mset (map fst (completed P)) \<and>
     mset (worked P) = mset (run_in_workers P) +
       filter_mset (\<lambda>w. w_work P w = Work_null) (mset (loop_wq P) + mset (local_wq P)) +
       mset (map fst (filter (\<lambda>x. snd x = 0) (completed P))) \<and>
     (\<forall>x\<in>set (completed P). snd x = 0 \<or> snd x = work_ECANCELED)"

definition pool_inv :: "tpool \<Rightarrow> bool" where
  "pool_inv P \<longleftrightarrow> (\<forall>w. count (places P) w \<le> 1) \<and> located P \<and> accounted P \<and>
     ((\<exists>i. workers P i = Exited) \<longrightarrow> Exit_message \<in> set (global_wq P))"

lemma places_count:
  "count (places P) w = count (mset (items (global_wq P))) w + count (mset (with_workers P)) w +
     count (mset (cancelling P)) w + count (mset (loop_wq P)) w + count (mset (local_wq P)) w"
  by (simp add: places_def)

lemma in_worker_mem: "i < 4 \<Longrightarrow> workers P i = Taken w \<or> workers P i = Worked w \<Longrightarrow> w \<in> set (with_workers P)"
  by (auto simp: with_workers_def in_worker_def intro!: bexI [of _ i])

lemma count_pos: "w \<in> set xs \<Longrightarrow> count (mset xs) w \<ge> 1"
  by (metis count_greater_eq_one_iff set_mset_mset)

lemma not_in_two:
  assumes "count (places P) w \<le> 1"
  shows "w \<in> set (items (global_wq P)) \<Longrightarrow> w \<notin> set (with_workers P) \<and> w \<notin> set (cancelling P) \<and> w \<notin> set (loop_wq P) \<and> w \<notin> set (local_wq P)"
    and "w \<in> set (with_workers P) \<Longrightarrow> w \<notin> set (items (global_wq P)) \<and> w \<notin> set (cancelling P) \<and> w \<notin> set (loop_wq P) \<and> w \<notin> set (local_wq P)"
    and "w \<in> set (cancelling P) \<Longrightarrow> w \<notin> set (items (global_wq P)) \<and> w \<notin> set (with_workers P) \<and> w \<notin> set (loop_wq P) \<and> w \<notin> set (local_wq P)"
    and "w \<in> set (loop_wq P) \<Longrightarrow> w \<notin> set (items (global_wq P)) \<and> w \<notin> set (with_workers P) \<and> w \<notin> set (cancelling P) \<and> w \<notin> set (local_wq P)"
    and "w \<in> set (local_wq P) \<Longrightarrow> w \<notin> set (items (global_wq P)) \<and> w \<notin> set (with_workers P) \<and> w \<notin> set (cancelling P) \<and> w \<notin> set (loop_wq P)"
  using assms unfolding places_count
  by (auto dest!: count_pos simp: not_le)

lemma pool_inv_submit:
  assumes inv: "pool_inv P" and new: "w \<notin> set (outstanding P)"
  shows "pool_inv (uv__work_submit w P)"
proof -
  let ?P = "uv__work_submit w P"
  have ww: "with_workers ?P = with_workers P" "run_in_workers ?P = run_in_workers P"
    by (simp_all add: with_workers_def run_in_workers_def uv__work_submit_def post_def)
  have pl: "places ?P = places P + {#w#}"
    using ww by (simp add: places_def) (simp add: uv__work_submit_def post_def)
  have nw: "w \<notin> set (items (global_wq P))" "w \<notin> set (with_workers P)" "w \<notin> set (cancelling P)"
    "w \<notin> set (loop_wq P)" "w \<notin> set (local_wq P)"
    using new by (auto simp: outstanding_def)
  have c0: "count (places P) w = 0"
    using new by (metis count_mset_0_iff mset_outstanding)
  have "located ?P"
    using inv nw in_worker_mem [of _ P w]
    by (auto simp: pool_inv_def located_def uv__work_submit_def post_def)
  moreover have "filter_mset (\<lambda>v. w_work ?P v = Work_null) (mset (loop_wq P) + mset (local_wq P)) =
      filter_mset (\<lambda>v. w_work P v = Work_null) (mset (loop_wq P) + mset (local_wq P))"
    using nw by (intro filter_mset_cong) (auto simp: uv__work_submit_def post_def)
  then have "accounted ?P"
    using inv ww pl by (simp add: pool_inv_def accounted_def) (simp add: uv__work_submit_def post_def)
  moreover have "\<forall>v. count (places ?P) v \<le> 1" using inv pl c0 by (simp add: pool_inv_def)
  moreover have "(\<exists>i. workers ?P i = Exited) \<longrightarrow> Exit_message \<in> set (global_wq ?P)"
    using inv by (simp add: pool_inv_def uv__work_submit_def post_def)
  ultimately show ?thesis by (simp add: pool_inv_def)
qed

lemma workers_upd_frame:
  assumes "i < 4" "workers P' = (workers P)(i := pc)"
  shows "mset (with_workers P') + mset (in_worker (workers P i)) = mset (with_workers P) + mset (in_worker pc)"
    and "mset (run_in_workers P') + mset (case workers P i of Worked w \<Rightarrow> [w] | _ \<Rightarrow> []) =
      mset (run_in_workers P) + mset (case pc of Worked w \<Rightarrow> [w] | _ \<Rightarrow> [])"
  using mset_with_workers_upd [OF assms(1), of P pc] mset_run_in_workers_upd [OF assms(1), of P pc]
    with_workers_cong [of P' "P\<lparr>workers := (workers P)(i := pc)\<rparr>"]
    run_in_workers_cong [of P' "P\<lparr>workers := (workers P)(i := pc)\<rparr>"] assms(2) by simp_all

lemma pool_inv_take:
  assumes inv: "pool_inv P" and i: "i < 4" "workers P i = Waiting" and t: "worker_take i P = Some P'"
  shows "pool_inv P'"
proof (cases "global_wq P")
  case Nil
  then show ?thesis using t by (simp add: worker_take_def)
next
  case (Cons q qs)
  show ?thesis
  proof (cases q)
    case Exit_message
    then have P': "P' = P\<lparr>workers := (workers P)(i := Exited)\<rparr>" using t Cons by (simp add: worker_take_def)
    have "places P' = places P" "mset (run_in_workers P') = mset (run_in_workers P)"
      using workers_upd_frame [OF i(1), of P' P Exited] i(2) by (simp_all add: P' places_def)
    then show ?thesis
      using inv Cons Exit_message i by (auto simp: pool_inv_def located_def accounted_def P')
  next
    case (Item w)
    then have P': "P' = P\<lparr>global_wq := qs, w_linked := (w_linked P)(w := False), workers := (workers P)(i := Taken w)\<rparr>"
      using t Cons by (simp add: worker_take_def)
    have fr: "places P' = places P" "mset (run_in_workers P') = mset (run_in_workers P)"
      using workers_upd_frame [OF i(1), of P' P "Taken w"] i(2) Cons Item by (simp_all add: P' places_def)
    have ww: "w \<in> set (items (global_wq P))" using Cons Item by simp
    have le: "count (places P) w \<le> 1" using inv by (simp add: pool_inv_def)
    have "w \<notin> set (items qs)"
      using le Cons Item unfolding places_count by (auto dest!: count_pos)
    moreover have "w \<notin> set (with_workers P)" "w \<notin> set (cancelling P)" "w \<notin> set (loop_wq P)" "w \<notin> set (local_wq P)"
      using not_in_two(1) [OF le ww] by simp_all
    ultimately have "located P'"
      using inv Cons Item in_worker_mem [of _ P w] by (auto simp: pool_inv_def located_def P')
    moreover have "accounted P'"
      using inv fr by (simp add: pool_inv_def accounted_def) (simp add: P')
    moreover have "(\<exists>j. workers P' j = Exited) \<longrightarrow> Exit_message \<in> set (global_wq P')"
      using inv Cons Item by (auto simp: pool_inv_def P')
    ultimately show ?thesis using inv fr(1) by (simp add: pool_inv_def)
  qed
qed

lemma pool_inv_run:
  assumes inv: "pool_inv P" and i: "i < 4" "workers P i = Taken w" and t: "worker_run i w P = Ret P'"
  shows "pool_inv P'"
proof -
  have wf: "w_work P w = Work_fn" using inv i by (simp add: pool_inv_def located_def)
  then have P': "P' = P\<lparr>worked := worked P @ [w], workers := (workers P)(i := Worked w)\<rparr>"
    using t by (simp add: worker_run_def)
  have fr: "places P' = places P" "mset (run_in_workers P') = add_mset w (mset (run_in_workers P))"
    using workers_upd_frame [OF i(1), of P' P "Worked w"] i(2) by (simp_all add: P' places_def)
  have "located P'" using inv i by (auto simp: pool_inv_def located_def P')
  moreover have "accounted P'"
    using inv fr by (simp add: pool_inv_def accounted_def) (simp add: P')
  ultimately show ?thesis using inv fr i by (auto simp: pool_inv_def P')
qed

lemma pool_inv_finish:
  assumes inv: "pool_inv P" and i: "i < 4" "workers P i = Worked w"
  shows "pool_inv (worker_finish i w P)"
proof -
  let ?P = "worker_finish i w P"
  have f: "workers ?P = (workers P)(i := Waiting)" by (simp add: worker_finish_def)
  have fr: "places ?P = places P" "add_mset w (mset (run_in_workers ?P)) = mset (run_in_workers P)"
    using workers_upd_frame [OF i(1) f] i(2) by (simp_all add: places_def) (simp add: worker_finish_def)
  have ww: "w \<in> set (with_workers P)" using in_worker_mem [of i P w] i by simp
  have le: "count (places P) w \<le> 1" using inv by (simp add: pool_inv_def)
  have n: "w \<notin> set (items (global_wq P))" "w \<notin> set (cancelling P)" "w \<notin> set (loop_wq P)" "w \<notin> set (local_wq P)"
    using not_in_two(2) [OF le ww] by simp_all
  have "add_mset w (mset (with_workers ?P)) = mset (with_workers P)"
    using workers_upd_frame(1) [OF i(1) f] i(2) by simp
  moreover have "count (mset (with_workers P)) w \<le> 1" using le by (simp add: places_count)
  ultimately have "count (mset (with_workers ?P)) w = 0"
    by (metis Suc_le_mono count_add_mset le_zero_eq One_nat_def)
  then have nw: "w \<notin> set (with_workers ?P)" by (simp only: count_mset_0_iff not_False_eq_True)
  have others: "j = i \<or> workers P j \<noteq> Taken w \<and> workers P j \<noteq> Worked w" if "j < 4" for j
    using in_worker_mem [OF that, of ?P w] nw by (auto simp: f)
  have "located ?P"
    using inv n others by (fastforce simp: pool_inv_def located_def worker_finish_def)
  moreover have "filter_mset (\<lambda>v. w_work ?P v = Work_null) (mset (loop_wq P) + mset (local_wq P)) =
      filter_mset (\<lambda>v. w_work P v = Work_null) (mset (loop_wq P) + mset (local_wq P))"
    using n by (intro filter_mset_cong) (auto simp: worker_finish_def)
  then have "accounted ?P"
    using inv fr by (simp add: pool_inv_def accounted_def) (simp add: worker_finish_def)
  ultimately show ?thesis using inv fr by (auto simp: pool_inv_def worker_finish_def)
qed

lemma one_of_three: "a \<ge> 1 \<or> b \<ge> 1 \<or> c \<ge> 1 \<Longrightarrow> a + b + c \<ge> (1::nat)"
  by linarith

lemma pool_inv_cancel_try:
  assumes inv: "pool_inv P" and w: "w \<in> set (outstanding P)" "w \<notin> set (cancelling P)"
  shows "pool_inv (snd (work_cancel_try w P))"
proof (cases "w_linked P w \<and> w_work P w \<noteq> Work_null")
  case False
  then show ?thesis using inv by (auto simp: work_cancel_try_def)
next
  case True
  let ?P = "(unlink_work w P)\<lparr>cancelling := cancelling P @ [w]\<rparr>"
  have P': "snd (work_cancel_try w P) = ?P" using True by (simp add: work_cancel_try_def)
  have le: "count (places P) w \<le> 1" using inv by (simp add: pool_inv_def)
  have not_busy: "workers P i \<noteq> Taken w" "workers P i \<noteq> Worked w" if "i < 4" for i
    using inv True that by (auto simp: pool_inv_def located_def)
  have "w \<notin> set (with_workers P)"
    using not_busy by (auto simp: with_workers_def in_worker_def split: worker_pc.splits)
  then have "w \<in> set (items (global_wq P)) \<or> w \<in> set (loop_wq P) \<or> w \<in> set (local_wq P)"
    using w by (auto simp: outstanding_def)
  then have "count (mset (items (global_wq P))) w \<ge> 1 \<or> count (mset (loop_wq P)) w \<ge> 1 \<or> count (mset (local_wq P)) w \<ge> 1"
    by (elim disjE) (simp_all only: count_pos simp_thms)
  then have "count (mset (items (global_wq P))) w + count (mset (loop_wq P)) w + count (mset (local_wq P)) w \<ge> 1"
    by (rule one_of_three)
  moreover have "count (mset (items (global_wq P))) w + count (mset (loop_wq P)) w + count (mset (local_wq P)) w \<le> 1"
    using le by (simp add: places_count)
  ultimately have one: "count (mset (items (global_wq P))) w + count (mset (loop_wq P)) w + count (mset (local_wq P)) w = 1"
    by (rule antisym [rotated])
  have ww: "with_workers ?P = with_workers P" "run_in_workers ?P = run_in_workers P"
    by (simp_all add: with_workers_def run_in_workers_def unlink_work_def)
  have pl: "places ?P = places P"
  proof (rule multiset_eqI)
    fix v
    show "count (places ?P) v = count (places P) v"
    proof (cases "v = w")
      case True
      then show ?thesis using one w(2) ww(1) unfolding places_count
        by (simp add: unlink_work_def)
    next
      case False
      then show ?thesis using ww(1) unfolding places_count by (simp add: unlink_work_def)
    qed
  qed
  have sub: "v \<in> set (remove1 w xs) \<Longrightarrow> v \<in> set xs" for v xs by (meson notin_set_remove1)
  have loc: "located P" using inv by (simp add: pool_inv_def)
  have fields: "w_linked ?P = w_linked P" "w_work ?P = w_work P" "workers ?P = workers P"
    "items (global_wq ?P) = remove1 w (items (global_wq P))" "loop_wq ?P = remove1 w (loop_wq P)"
    "local_wq ?P = remove1 w (local_wq P)" "cancelling ?P = cancelling P @ [w]"
    by (simp_all add: unlink_work_def)
  have "located ?P"
    unfolding located_def fields
  proof (intro conjI ballI allI impI)
    fix v assume "v \<in> set (cancelling P @ [w])"
    then show "w_linked P v" "w_work P v \<noteq> Work_null"
      using True locatedD(4) [OF loc, of v] by (cases "v = w"; simp)+
  qed (use locatedD [OF loc] sub in \<open>(metis Un_iff)+\<close>)
  moreover have "filter_mset (\<lambda>v. w_work P v = Work_null) (mset (remove1 w xs)) = filter_mset (\<lambda>v. w_work P v = Work_null) (mset xs)" for xs
    using True by simp
  then have "accounted ?P"
    using inv ww pl by (simp add: pool_inv_def accounted_def) (simp add: unlink_work_def)
  moreover have "Exit_message \<in> set (global_wq ?P) \<longleftrightarrow> Exit_message \<in> set (global_wq P)"
    by (simp add: unlink_work_def in_set_remove1)
  ultimately show ?thesis using inv pl unfolding P' by (simp add: pool_inv_def) (simp add: unlink_work_def)
qed

lemma pool_inv_cancel_post:
  assumes inv: "pool_inv P" and w: "w \<in> set (cancelling P)"
  shows "pool_inv (work_cancel_post w P)"
proof -
  let ?P = "work_cancel_post w P"
  have le: "count (places P) w \<le> 1" using inv by (simp add: pool_inv_def)
  have n: "w \<notin> set (items (global_wq P))" "w \<notin> set (with_workers P)" "w \<notin> set (loop_wq P)" "w \<notin> set (local_wq P)"
    using not_in_two(3) [OF le w] by simp_all
  have one: "count (mset (cancelling P)) w = 1"
    using le count_pos [OF w] unfolding places_count by linarith
  then have gone: "w \<notin> set (remove1 w (cancelling P))"
    by (simp add: count_mset_0_iff [symmetric] del: count_mset_0_iff)
  have ww: "with_workers ?P = with_workers P" "run_in_workers ?P = run_in_workers P"
    by (simp_all add: with_workers_def run_in_workers_def work_cancel_post_def)
  have "places ?P = places P"
    using w ww(1) unfolding places_def by (simp add: work_cancel_post_def)
  moreover have loc: "located P" using inv by (simp add: pool_inv_def)
  have fields: "w_linked ?P = w_linked P" "w_work ?P = (w_work P)(w := Uv_cancelled)" "workers ?P = workers P"
    "global_wq ?P = global_wq P" "loop_wq ?P = loop_wq P @ [w]" "local_wq ?P = local_wq P"
    "cancelling ?P = remove1 w (cancelling P)"
    by (simp_all add: work_cancel_post_def)
  have lw: "w_linked P w" using locatedD(4) [OF loc w] by simp
  have sub: "v \<in> set (remove1 w (cancelling P)) \<Longrightarrow> v \<in> set (cancelling P) \<and> v \<noteq> w" for v
    using gone by (meson notin_set_remove1)
  have "located ?P"
    unfolding located_def fields
  proof (intro conjI ballI allI impI)
    fix v assume "v \<in> set (loop_wq P @ [w]) \<union> set (local_wq P)"
    then show "w_linked P v" "((w_work P)(w := Uv_cancelled)) v \<noteq> Work_fn"
      using lw locatedD(3) [OF loc, of v] by (cases "v = w"; simp)+
  qed (use locatedD [OF loc] n(1) lw sub in \<open>(metis fun_upd_other)+\<close>)
  moreover have "filter_mset (\<lambda>v. w_work ?P v = Work_null) (mset xs) = filter_mset (\<lambda>v. w_work P v = Work_null) (mset xs)"
    if "w \<notin> set xs" for xs
    using that by (intro filter_mset_cong) (auto simp: work_cancel_post_def)
  note this [OF n(3)] this [OF n(4)]
  then have "accounted ?P"
    using inv ww calculation(1) by (simp add: pool_inv_def accounted_def) (simp add: work_cancel_post_def)
  ultimately show ?thesis using inv by (simp add: pool_inv_def) (simp add: work_cancel_post_def)
qed

lemma pool_inv_done_take:
  assumes "pool_inv P" "local_wq P = []"
  shows "pool_inv (work_done_take P)"
proof -
  let ?P = "work_done_take P"
  have ww: "with_workers ?P = with_workers P" "run_in_workers ?P = run_in_workers P"
    by (simp_all add: with_workers_def run_in_workers_def work_done_take_def)
  have "places ?P = places P" using assms(2) ww(1) by (simp add: places_def work_done_take_def)
  then show ?thesis
    using assms ww by (simp add: pool_inv_def accounted_def located_def) (simp add: work_done_take_def)
qed

lemma pool_inv_done_next:
  assumes inv: "pool_inv P" and d: "work_done_next P = Some (x, P')"
  shows "pool_inv P'"
proof (cases "local_wq P")
  case Nil
  then show ?thesis using d by (simp add: work_done_next_def)
next
  case (Cons w ws)
  define e where "e = (if w_work P w = Uv_cancelled then work_ECANCELED else 0)"
  have P': "P' = P\<lparr>local_wq := ws, completed := completed P @ [(w, e)]\<rparr>"
    using d Cons by (auto simp: work_done_next_def Let_def e_def)
  have ww: "with_workers P' = with_workers P" "run_in_workers P' = run_in_workers P"
    by (simp_all add: with_workers_def run_in_workers_def P')
  have pl: "places P = places P' + {#w#}" using ww(1) Cons by (simp add: places_def P')
  then have "count (places P') v \<le> count (places P) v" for v by simp
  moreover have "located P'" using inv Cons by (simp add: pool_inv_def located_def P')
  moreover have nf: "w_work P w = Work_null \<or> w_work P w = Uv_cancelled"
    using inv Cons by (cases "w_work P w") (auto simp: pool_inv_def located_def)
  then have "accounted P'"
    using inv Cons pl ww by (auto simp: pool_inv_def accounted_def P' e_def uv_err_val_def)
  ultimately show ?thesis
    using inv unfolding pool_inv_def by (simp add: P') (meson order_trans)
qed

theorem pool_reach_inv: "pool_reach P \<Longrightarrow> pool_inv P"
proof (induction rule: pool_reach.induct)
  case start
  then show ?case
    by (auto simp: pool_inv_def located_def accounted_def places_def fresh_pool_def with_workers_def run_in_workers_def
        in_worker_def items_def numeral_eq_Suc)
next
  case (step P P')
  from step.hyps(2) step.IH show ?case
  proof cases
    case exit
    then show ?thesis using step.IH
      by (simp add: pool_inv_def located_def accounted_def places_def with_workers_def run_in_workers_def cleanup_def post_def)
  qed (auto intro: pool_inv_submit pool_inv_take pool_inv_run pool_inv_finish pool_inv_cancel_try
      pool_inv_cancel_post pool_inv_done_take pool_inv_done_next)
qed

section \<open>No request is lost, none is answered twice\<close>

text \<open>
  C7. In every state that the four workers, the loop and \<open>uv_cancel\<close> can reach, in any order the
  locks allow: a request submitted is in exactly one place (the global queue, a worker, a
  cancellation, the queue of the loop) or its \<open>done\<close> was called, as often as it was submitted;
  the work functions run are those of requests that a worker still holds or hands back, and of those
  whose \<open>done\<close> got status 0, so a request whose \<open>done\<close> gets \<open>-UV_ECANCELED\<close> was never run;
  and no worker ever calls \<open>uv__cancelled\<close>, which aborts.
\<close>

theorem pool_exactly_once:
  assumes "pool_reach P"
  shows "distinct (outstanding P) \<and>
    mset (submitted P) = mset (outstanding P) + mset (map fst (completed P)) \<and>
    mset (worked P) = mset (run_in_workers P) +
      filter_mset (\<lambda>w. w_work P w = Work_null) (mset (loop_wq P) + mset (local_wq P)) +
      mset (map fst (filter (\<lambda>x. snd x = 0) (completed P))) \<and>
    (\<forall>x\<in>set (completed P). snd x = 0 \<or> snd x = work_ECANCELED) \<and>
    (\<forall>i w. i < 4 \<and> workers P i = Taken w \<longrightarrow> worker_run i w P \<noteq> Abort)"
proof -
  have inv: "located P" "accounted P" "\<forall>w. count (places P) w \<le> 1"
    using pool_reach_inv [OF assms] by (simp_all add: pool_inv_def)
  have "worker_run i w P \<noteq> Abort" if "i < 4 \<and> workers P i = Taken w" for i w
  proof -
    have "w_work P w = Work_fn" using inv(1) that unfolding located_def by blast
    then show ?thesis by (simp add: worker_run_def)
  qed
  with inv show ?thesis
    unfolding accounted_def mset_outstanding distinct_outstanding by blast
qed

text \<open>A run: two requests, the second cancelled while a worker runs the first.\<close>

definition one_taken :: tpool where
  "one_taken = the (worker_take 0 (uv__work_submit 9 (uv__work_submit 7 fresh_pool)))"

definition one_cancelled :: tpool where
  "one_cancelled = snd (the (work_done_next (work_done_take (work_cancel_post 9 (snd (work_cancel_try 9 one_taken))))))"

lemma one_taken_reach: "pool_reach one_taken"
proof -
  have "pool_reach (uv__work_submit 9 (uv__work_submit 7 fresh_pool))"
    by (rule pool_reach.step [OF pool_reach.step [OF pool_reach.start]]; rule pool_step.submit)
      (simp_all add: outstanding_def with_workers_unfold in_worker_def uv__work_submit_def post_def fresh_pool_def)
  then show ?thesis
    by (rule pool_reach.step, intro pool_step.take [of 0])
      (simp_all add: one_taken_def worker_take_def uv__work_submit_def post_def fresh_pool_def)
qed

lemma one_cancelled_reach: "pool_reach one_cancelled"
proof -
  let ?t = "snd (work_cancel_try 9 one_taken)"
  have "pool_reach ?t"
    by (rule pool_reach.step [OF one_taken_reach], rule pool_step.cancel_try)
      (simp_all add: outstanding_def with_workers_unfold in_worker_def one_taken_def worker_take_def uv__work_submit_def
        post_def fresh_pool_def)
  moreover have "pool_step ?t (work_cancel_post 9 ?t)"
    by (rule pool_step.cancel_post)
      (simp add: work_cancel_try_def unlink_work_def one_taken_def worker_take_def uv__work_submit_def post_def fresh_pool_def)
  moreover have "pool_step (work_cancel_post 9 ?t) (work_done_take (work_cancel_post 9 ?t))"
    by (rule pool_step.done_take)
      (simp add: work_cancel_post_def work_cancel_try_def unlink_work_def one_taken_def worker_take_def uv__work_submit_def
        post_def fresh_pool_def)
  moreover have "pool_step (work_done_take (work_cancel_post 9 ?t)) one_cancelled"
    by (rule pool_step.done_next [of _ "(9, work_ECANCELED)"])
      (simp add: one_cancelled_def work_done_next_def work_done_take_def work_cancel_post_def work_cancel_try_def
        unlink_work_def one_taken_def worker_take_def uv__work_submit_def post_def fresh_pool_def)
  ultimately show ?thesis by (meson pool_reach.step)
qed

lemma one_cancelled_values:
  "completed one_cancelled = [(9, work_ECANCELED)]" "submitted one_cancelled = [7, 9]" "worked one_cancelled = []"
  "workers one_cancelled 0 = Taken 7" "global_wq one_cancelled = []"
  by (simp_all add: one_cancelled_def work_done_next_def work_done_take_def work_cancel_post_def work_cancel_try_def
      unlink_work_def one_taken_def worker_take_def uv__work_submit_def post_def fresh_pool_def)

lemma pool_exactly_once_witness:
  "mset [7, 9] = mset (outstanding one_cancelled) + mset [9] \<and> worker_run 0 7 one_cancelled \<noteq> Abort"
  using pool_exactly_once [OF one_cancelled_reach] one_cancelled_values by simp

section \<open>The pool drains\<close>











end
