(* ===== verification/Inet.thy ===== *)
theory Inet
  imports UvError
begin

unbundle bit_operations_syntax

text \<open>
  Addresses as text: \<open>src/inet.c\<close> and the functions of \<open>src/uv-common.c\<close> over it. Bytes are
  \<open>8 word\<close>, \<open>unsigned int\<close> is \<open>32 word\<close>, a C string is the list of its characters without the
  NUL. The result is the error code, or what was written to \<open>dst\<close>.
\<close>

section \<open>What the code uses of the C library\<close>

text \<open>The digits of \<open>sprintf\<close>'s \<open>%u\<close> and \<open>%x\<close>, and \<open>strchr\<close> as the index it finds.\<close>

definition xdigits_l :: string where "xdigits_l = ''0123456789abcdef''"
definition xdigits_u :: string where "xdigits_u = ''0123456789ABCDEF''"
definition dec_digits :: string where "dec_digits = ''0123456789''"

fun print_base :: "nat \<Rightarrow> nat \<Rightarrow> string" where
  "print_base b n = (if n < b \<or> b < 2 then [xdigits_l ! n] else print_base b (n div b) @ [xdigits_l ! (n mod b)])"

declare print_base.simps [simp del]

fun strchr :: "string \<Rightarrow> char \<Rightarrow> nat option" where
  "strchr [] c = None"
| "strchr (d # ds) c = (if c = d then Some 0 else map_option Suc (strchr ds c))"

section \<open>Printing\<close>

definition dotted :: "8 word list \<Rightarrow> string" where
  "dotted src = print_base 10 (unat (src ! 0)) @ ''.'' @ print_base 10 (unat (src ! 1)) @ ''.'' @
     print_base 10 (unat (src ! 2)) @ ''.'' @ print_base 10 (unat (src ! 3))"

definition inet_ntop4 :: "8 word list \<Rightarrow> nat \<Rightarrow> uv_err_code + string" where
  "inet_ntop4 src dst_size =
     (let l = length (dotted src); tmp = take 15 (dotted src) in
      if l = 0 \<or> l \<ge> dst_size then Inl UV_ENOSPC else Inr (take (dst_size - 1) tmp))"

text \<open>The words of the address; a run of zero words is its first index and its length.\<close>

definition in6_words :: "8 word list \<Rightarrow> 32 word list" where
  "in6_words src = map (\<lambda>i. push_bit 8 (ucast (src ! (2 * i))) OR ucast (src ! (2 * i + 1))) [0..<8]"

type_synonym zero_run = "int \<times> nat"

definition better_run :: "zero_run \<Rightarrow> zero_run \<Rightarrow> zero_run" where
  "better_run best cur = (if fst best = - 1 \<or> snd cur > snd best then cur else best)"

definition run_step :: "32 word list \<Rightarrow> nat \<Rightarrow> zero_run \<times> zero_run \<Rightarrow> zero_run \<times> zero_run" where
  "run_step ws i s =
     (let (best, cur) = s in
      if ws ! i = 0 then (if fst cur = - 1 then (best, (int i, Suc 0)) else (best, (fst cur, Suc (snd cur))))
      else if fst cur \<noteq> - 1 then (better_run best cur, (- 1, snd cur))
      else (best, cur))"

definition best_run :: "32 word list \<Rightarrow> zero_run" where
  "best_run ws =
     (let (best, cur) = fold (run_step ws) [0..<8] ((- 1, 0), (- 1, 0));
          best = (if fst cur \<noteq> - 1 then better_run best cur else best)
      in if fst best \<noteq> - 1 \<and> snd best < 2 then (- 1, snd best) else best)"

text \<open>The loop that formats, from word \<open>8 - k\<close> on; \<open>tmp\<close> is what it has written.\<close>

definition in_run :: "zero_run \<Rightarrow> nat \<Rightarrow> bool" where
  "in_run best i \<longleftrightarrow> fst best \<noteq> - 1 \<and> int i \<ge> fst best \<and> int i < fst best + int (snd best)"

definition v4_inside :: "zero_run \<Rightarrow> 32 word list \<Rightarrow> nat \<Rightarrow> bool" where
  "v4_inside best ws i \<longleftrightarrow> i = 6 \<and> fst best = 0 \<and>
     (snd best = 6 \<or> snd best = 7 \<and> ws ! 7 \<noteq> 1 \<or> snd best = 5 \<and> ws ! 5 = 0xffff)"

fun ntop6_format :: "8 word list \<Rightarrow> 32 word list \<Rightarrow> zero_run \<Rightarrow> nat list \<Rightarrow> string \<Rightarrow> uv_err_code + string" where
  "ntop6_format src ws best [] tmp = Inr tmp"
| "ntop6_format src ws best (i # is) tmp =
     (if in_run best i then ntop6_format src ws best is (if int i = fst best then tmp @ '':'' else tmp)
      else
        let tmp = (if i \<noteq> 0 then tmp @ '':'' else tmp) in
        if v4_inside best ws i
        then (case inet_ntop4 (drop 12 src) (46 - length tmp) of
                Inl e \<Rightarrow> Inl e
              | Inr s \<Rightarrow> Inr (tmp @ s))
        else ntop6_format src ws best is (tmp @ print_base 16 (unat (ws ! i))))"

definition inet_ntop6 :: "8 word list \<Rightarrow> nat \<Rightarrow> uv_err_code + string" where
  "inet_ntop6 src dst_size =
     (let ws = in6_words src; best = best_run ws in
      case ntop6_format src ws best [0..<8] [] of
        Inl e \<Rightarrow> Inl e
      | Inr tmp \<Rightarrow>
          let tmp = (if fst best \<noteq> - 1 \<and> fst best + int (snd best) = 8 then tmp @ '':'' else tmp)
          in if length tmp + 1 > dst_size then Inl UV_ENOSPC else Inr tmp)"

abbreviation (input) "AF_INET \<equiv> (2::int)"
abbreviation (input) "AF_INET6 \<equiv> (10::int)"

definition uv_inet_ntop :: "int \<Rightarrow> 8 word list \<Rightarrow> nat \<Rightarrow> uv_err_code + string" where
  "uv_inet_ntop af src dst_size =
     (if af = AF_INET then inet_ntop4 src dst_size
      else if af = AF_INET6 then inet_ntop6 src dst_size
      else Inl UV_EAFNOSUPPORT)"

section \<open>Parsing\<close>

text \<open>
  \<open>tmp\<close> holds the bytes written so far, so that \<open>tp\<close> points at its last byte and \<open>*++tp = 0\<close>
  extends it; the rest of the array is not initialised.
\<close>

fun pton4_loop :: "string \<Rightarrow> 8 word list \<Rightarrow> bool \<Rightarrow> nat \<Rightarrow> uv_err_code + 8 word list \<times> nat" where
  "pton4_loop [] tmp saw_digit octets = Inr (tmp, octets)"
| "pton4_loop (ch # src) tmp saw_digit octets =
     (case strchr dec_digits ch of
        Some d \<Rightarrow>
          let nw = ucast (last tmp) * 10 + of_nat d :: 32 word in
          if saw_digit \<and> last tmp = 0 then Inl UV_EINVAL
          else if nw > 255 then Inl UV_EINVAL
          else
            let tmp = butlast tmp @ [ucast nw] in
            if \<not> saw_digit
            then (if Suc octets > 4 then Inl UV_EINVAL else pton4_loop src tmp True (Suc octets))
            else pton4_loop src tmp saw_digit octets
      | None \<Rightarrow>
          if ch = CHR ''.'' \<and> saw_digit
          then (if octets = 4 then Inl UV_EINVAL else pton4_loop src (tmp @ [0]) False octets)
          else Inl UV_EINVAL)"

definition inet_pton4 :: "string \<Rightarrow> uv_err_code + 8 word list" where
  "inet_pton4 src =
     (case pton4_loop src [0] False 0 of
        Inl e \<Rightarrow> Inl e
      | Inr (tmp, octets) \<Rightarrow> if octets < 4 then Inl UV_EINVAL else Inr (take 4 tmp))"

record pton6 =
  p6_tmp :: "8 word list"
  p6_tp :: nat
  p6_colonp :: "nat option"
  p6_curtok :: string
  p6_seen :: nat
  p6_val :: "32 word"

text \<open>\<open>*tp++ = (val >> 8) & 0xff; *tp++ = val & 0xff\<close>, and the bounds check before it.\<close>

definition put_word :: "pton6 \<Rightarrow> uv_err_code + pton6" where
  "put_word s =
     (if p6_tp s + 2 > 16 then Inl UV_EINVAL
      else Inr (s\<lparr>p6_tmp := (p6_tmp s)[p6_tp s := ucast (drop_bit 8 (p6_val s)) AND 0xff,
                                        Suc (p6_tp s) := ucast (p6_val s) AND 0xff],
                  p6_tp := p6_tp s + 2\<rparr>))"

definition put_bytes :: "8 word list \<Rightarrow> nat \<Rightarrow> 8 word list \<Rightarrow> 8 word list" where
  "put_bytes dst i bs = take i dst @ bs @ drop (i + length bs) dst"

definition hex_digit :: "char \<Rightarrow> nat option" where
  "hex_digit ch = (case strchr xdigits_l ch of Some d \<Rightarrow> Some d | None \<Rightarrow> strchr xdigits_u ch)"

fun pton6_loop :: "string \<Rightarrow> pton6 \<Rightarrow> uv_err_code + pton6" where
  "pton6_loop [] s = Inr s"
| "pton6_loop (ch # src) s =
     (case hex_digit ch of
        Some d \<Rightarrow>
          let s = s\<lparr>p6_val := push_bit 4 (p6_val s) OR of_nat d, p6_seen := Suc (p6_seen s)\<rparr> in
          if p6_seen s > 4 then Inl UV_EINVAL else pton6_loop src s
      | None \<Rightarrow>
          if ch = CHR '':'' then
            let s = s\<lparr>p6_curtok := src\<rparr> in
            if p6_seen s = 0
            then (if p6_colonp s \<noteq> None then Inl UV_EINVAL
                  else pton6_loop src (s\<lparr>p6_colonp := Some (p6_tp s)\<rparr>))
            else if src = [] then Inl UV_EINVAL
            else (case put_word s of
                    Inl e \<Rightarrow> Inl e
                  | Inr s \<Rightarrow> pton6_loop src (s\<lparr>p6_seen := 0, p6_val := 0\<rparr>))
          else if ch = CHR ''.'' \<and> p6_tp s + 4 \<le> 16 then
            (case inet_pton4 (p6_curtok s) of
               Inr bs \<Rightarrow> Inr (s\<lparr>p6_tmp := put_bytes (p6_tmp s) (p6_tp s) bs, p6_tp := p6_tp s + 4, p6_seen := 0\<rparr>)
             | Inl _ \<Rightarrow> Inl UV_EINVAL)
          else Inl UV_EINVAL)"

text \<open>The shift by hand of the bytes after the double colon, and what follows the loop.\<close>

definition shift_step :: "nat \<Rightarrow> nat \<Rightarrow> nat \<Rightarrow> 8 word list \<Rightarrow> 8 word list" where
  "shift_step c n i tmp = tmp[16 - i := tmp ! (c + (n - i)), c + (n - i) := 0]"

definition pton6_finish :: "pton6 \<Rightarrow> uv_err_code + 8 word list" where
  "pton6_finish s =
     (case (if p6_seen s \<noteq> 0 then put_word s else Inr s) of
        Inl e \<Rightarrow> Inl e
      | Inr s \<Rightarrow>
          (case p6_colonp s of
             Some c \<Rightarrow>
               if p6_tp s = 16 then Inl UV_EINVAL
               else Inr (fold (shift_step c (p6_tp s - c)) [1..<Suc (p6_tp s - c)] (p6_tmp s))
           | None \<Rightarrow> if p6_tp s \<noteq> 16 then Inl UV_EINVAL else Inr (p6_tmp s)))"

definition inet_pton6 :: "string \<Rightarrow> uv_err_code + 8 word list" where
  "inet_pton6 src =
     (let run = (\<lambda>src.
            case pton6_loop src \<lparr>p6_tmp = replicate 16 0, p6_tp = 0, p6_colonp = None, p6_curtok = src,
                p6_seen = 0, p6_val = 0\<rparr> of
              Inl e \<Rightarrow> Inl e
            | Inr s \<Rightarrow> pton6_finish s)
      in case src of
           [] \<Rightarrow> run src
         | ch # src' \<Rightarrow>
             if ch = CHR '':''
             then (if src' = [] \<or> hd src' \<noteq> CHR '':'' then Inl UV_EINVAL else run src')
             else run src)"

definition uv_inet_pton :: "int \<Rightarrow> string \<Rightarrow> uv_err_code + 8 word list" where
  "uv_inet_pton af src =
     (if af = AF_INET then inet_pton4 src
      else if af = AF_INET6 then inet_pton6 src
      else Inl UV_EAFNOSUPPORT)"

section \<open>Addresses (uv-common.c)\<close>

text \<open>\<open>sin_port\<close> is in network order, as \<open>htons\<close> leaves it.\<close>

record sockaddr_in6 =
  sin6_family :: int
  sin6_port :: "16 word"
  sin6_addr :: "8 word list"

definition htons :: "int \<Rightarrow> 16 word" where
  "htons port = push_bit 8 (of_int port) OR drop_bit 8 (of_int port)"

definition uv_ip6_addr :: "string \<Rightarrow> int \<Rightarrow> sockaddr_in6" where
  "uv_ip6_addr ip port =
     \<lparr>sin6_family = AF_INET6, sin6_port = htons port,
      sin6_addr = (case uv_inet_pton AF_INET6 ip of Inl _ \<Rightarrow> replicate 16 0 | Inr a \<Rightarrow> a)\<rparr>"

definition uv_ip4_name :: "8 word list \<Rightarrow> nat \<Rightarrow> int \<times> string option" where
  "uv_ip4_name sin_addr dst_size =
     (case uv_inet_ntop AF_INET sin_addr dst_size of Inl _ \<Rightarrow> (1, None) | Inr s \<Rightarrow> (0, Some s))"

definition uv_ip6_name :: "sockaddr_in6 \<Rightarrow> nat \<Rightarrow> int \<times> string option" where
  "uv_ip6_name src dst_size =
     (case uv_inet_ntop AF_INET6 (sin6_addr src) dst_size of Inl _ \<Rightarrow> (1, None) | Inr s \<Rightarrow> (0, Some s))"


section \<open>IPv4\<close>

lemma print_base_small: "n < b \<Longrightarrow> print_base b n = [xdigits_l ! n]"
  by (subst print_base.simps) simp

lemma print_base_step: "\<not> n < b \<Longrightarrow> 2 \<le> b \<Longrightarrow> print_base b n = print_base b (n div b) @ [xdigits_l ! (n mod b)]"
  by (subst print_base.simps) simp

lemma print_base_mult: "0 < m \<Longrightarrow> d < b \<Longrightarrow> 2 \<le> b \<Longrightarrow> print_base b (m * b + d) = print_base b m @ [xdigits_l ! d]"
  by (subst print_base_step) (auto simp: not_less intro: trans_le_add1)

lemma print_base_length: "2 \<le> b \<Longrightarrow> n < b ^ k \<Longrightarrow> 0 < k \<Longrightarrow> length (print_base b n) \<le> k"
proof (induction k arbitrary: n)
  case (Suc k)
  show ?case
  proof (cases "n < b")
    case False
    then have "0 < k" using Suc.prems by (cases k) auto
    moreover have "n div b < b ^ k" using Suc.prems by (simp add: less_mult_imp_div_less mult.commute)
    ultimately show ?thesis using Suc False by (simp add: print_base_step)
  qed (simp add: print_base_small)
qed simp

lemma print_base_not_Nil [simp]: "print_base b n \<noteq> []"
  by (subst print_base.simps) simp

lemma digit_cases: "d < 10 \<Longrightarrow> d \<in> {0, 1, 2, 3, 4, 5, 6, 7, 8, 9::nat}"
  by (simp add: numeral_eq_Suc less_Suc_eq) 

lemma strchr_dec: "d < 10 \<Longrightarrow> strchr dec_digits (xdigits_l ! d) = Some d"
  by (drule digit_cases) (auto simp: dec_digits_def xdigits_l_def)

lemma strchr_dec_SomeD: "strchr dec_digits ch = Some d \<Longrightarrow> d < 10 \<and> ch = xdigits_l ! d"
  by (auto simp: dec_digits_def xdigits_l_def split: if_splits)

lemma strchr_dec_dot [simp]: "strchr dec_digits CHR ''.'' = None"
  by (simp add: dec_digits_def)

text \<open>The arithmetic of one digit in \<open>unsigned int\<close>.\<close>

lemma unat_of_small: "n < 2 ^ LENGTH('a::len) \<Longrightarrow> unat (of_nat n :: 'a word) = n"
  by (simp add: unsigned_of_nat take_bit_nat_eq_self)

lemma unat_of_natD: "unat w = n \<Longrightarrow> w = of_nat n"
  by auto

lemma nw_value:
  fixes v :: "8 word"
  assumes "d < 10"
  shows "unat (ucast v * 10 + of_nat d :: 32 word) = unat v * 10 + d"
proof -
  have "unat v < 256" using unsigned_less [of v] by simp
  then have "unat v * 10 + d < 2 ^ 32" using assms by simp
  then have "unat (of_nat (unat v * 10 + d) :: 32 word) = unat v * 10 + d" by (simp add: unat_of_small del: of_nat_add of_nat_mult)
  then show ?thesis by simp
qed

lemma nw_small:
  fixes v :: "8 word"
  assumes "d < 10" "unat v * 10 + d \<le> 255"
  shows "\<not> (ucast v * 10 + of_nat d :: 32 word) > 255" "unat (ucast (ucast v * 10 + of_nat d :: 32 word) :: 8 word) = unat v * 10 + d"
  using assms nw_value [OF assms(1), of v] by (simp_all add: word_less_nat_alt unsigned_ucast_eq take_bit_eq_mod)

lemma nw_large:
  fixes v :: "8 word"
  assumes "d < 10" "\<not> unat v * 10 + d \<le> 255"
  shows "(ucast v * 10 + of_nat d :: 32 word) > 255"
  using assms nw_value [OF assms(1), of v] by (simp add: word_less_nat_alt)

lemma pton4_digit:
  assumes "d < 10"
  shows "pton4_loop (xdigits_l ! d # src) (bs @ [v]) saw oct =
    (if saw \<and> v = 0 \<or> unat v * 10 + d > 255 \<or> \<not> saw \<and> oct \<ge> 4 then Inl UV_EINVAL
     else pton4_loop src (bs @ [of_nat (unat v * 10 + d)]) True (if saw then oct else Suc oct))"
proof (cases "unat v * 10 + d \<le> 255")
  case True
  then have "(ucast (ucast v * 10 + of_nat d :: 32 word) :: 8 word) = of_nat (unat v * 10 + d)"
    using unat_of_natD [OF nw_small(2) [OF assms True]] by simp
  then show ?thesis using nw_small(1) [OF assms True] True by (simp add: strchr_dec [OF assms])
next
  case False
  then show ?thesis using nw_large [OF assms False] False by (simp add: strchr_dec [OF assms] Let_def)
qed

lemma pton4_number:
  assumes "n < 256" "oct < 4"
  shows "pton4_loop (print_base 10 n @ src) (bs @ [0]) False oct = pton4_loop src (bs @ [of_nat n]) True (Suc oct)"
  using assms
proof (induction n arbitrary: src rule: less_induct)
  case (less n)
  show ?case
  proof (cases "n < 10")
    case True
    then show ?thesis using less.prems pton4_digit [of n src bs 0 False oct] by (simp add: print_base_small)
  next
    case False
    have u: "unat (of_nat (n div 10) :: 8 word) = n div 10"
      using less.prems by (simp add: unat_of_nat)
    have nz: "(of_nat (n div 10) :: 8 word) \<noteq> 0" using u False by (metis div_eq_0_iff unat_0 zero_neq_numeral)
    show ?thesis
      using less.IH [of "n div 10" "xdigits_l ! (n mod 10) # src"] False less.prems u nz
      by (simp add: print_base_step pton4_digit del: pton4_loop.simps)
  qed
qed

text \<open>What has been read, when the loop stands with \<open>bs\<close> complete and \<open>v\<close> as the current byte.\<close>

definition dots :: "8 word list \<Rightarrow> string" where
  "dots bs = concat (map (\<lambda>b. print_base 10 (unat b) @ ''.'') bs)"

definition read4 :: "8 word list \<Rightarrow> bool \<Rightarrow> string" where
  "read4 bs saw = dots (butlast bs) @ (if saw then print_base 10 (unat (last bs)) else [])"

lemma pton4_loop_sound:
  assumes "pton4_loop src (bs @ [v]) saw oct = Inr (tmp, oct')"
    and "oct = length bs + (if saw then 1 else 0)" "\<not> saw \<Longrightarrow> v = 0" "oct \<le> 4" "\<not> saw \<Longrightarrow> oct < 4"
  shows "\<exists>saw'. read4 tmp saw' = read4 (bs @ [v]) saw @ src \<and> (saw' \<longrightarrow> length tmp = oct') \<and> (\<not> saw' \<longrightarrow> oct' < 4)"
  using assms
proof (induction src arbitrary: bs v saw oct)
  case Nil
  then show ?case by (auto intro!: exI [of _ saw])
next
  case (Cons ch src)
  show ?case
  proof (cases "strchr dec_digits ch")
    case (Some d)
    then have d: "d < 10" "ch = xdigits_l ! d" using strchr_dec_SomeD by auto
    let ?v = "of_nat (unat v * 10 + d) :: 8 word"
    have ok: "\<not> (saw \<and> v = 0)" "unat v * 10 + d \<le> 255" "\<not> (\<not> saw \<and> oct \<ge> 4)"
      and rest: "pton4_loop src (bs @ [?v]) True (if saw then oct else Suc oct) = Inr (tmp, oct')"
      using Cons.prems(1) unfolding d(2) pton4_digit [OF d(1)] by (auto split: if_splits)
    have u: "unat ?v = unat v * 10 + d" using ok(2) by (subst unat_of_nat) simp
    have "read4 (bs @ [?v]) True = read4 (bs @ [v]) saw @ [ch]"
    proof (cases saw)
      case True
      then have "0 < unat v" using ok(1) by (simp add: unat_gt_0)
      with True show ?thesis using d u by (simp add: read4_def print_base_mult del: of_nat_add of_nat_mult)
    next
      case False
      then have v0: "v = 0" using Cons.prems(3) by simp
      show ?thesis using False d u unfolding v0 by (simp add: read4_def print_base_small)
    qed
    then show ?thesis using Cons.IH [OF rest] Cons.prems(2,4,5) by (cases saw) auto
  next
    case None
    then have c: "ch = CHR ''.''" "saw" "oct \<noteq> 4" and rest: "pton4_loop src ((bs @ [v]) @ [0]) False oct = Inr (tmp, oct')"
      using Cons.prems(1) by (auto split: if_splits)
    have "read4 ((bs @ [v]) @ [0]) False = read4 (bs @ [v]) saw @ [ch]"
      using c by (simp add: read4_def dots_def butlast_append)
    then show ?thesis using Cons.IH [OF rest] c Cons.prems(2,4) by auto
  qed
qed

lemma pton4_loop_octets: "pton4_loop src bs saw oct = Inr (tmp, oct') \<Longrightarrow> oct \<le> 4 \<Longrightarrow> oct' \<le> 4"
  by (induction src bs saw oct rule: pton4_loop.induct) (auto simp: Let_def split: option.splits if_splits)

lemma length4_cases: "length bs = 4 \<longleftrightarrow> (\<exists>a b c d. bs = [a, b, c, d])"
  by (auto simp: length_Suc_conv numeral_eq_Suc)

lemma dotted_read4: "length bs = 4 \<Longrightarrow> read4 bs True = dotted bs"
  by (auto simp: length4_cases read4_def dots_def dotted_def)

lemma inet_pton4_dotted:
  assumes "length bs = 4"
  shows "inet_pton4 (dotted bs) = Inr bs"
proof -
  obtain a b c d where bs: "bs = [a, b, c, d]" using assms by (auto simp: length4_cases)
  have lt: "unat x < 256" for x :: "8 word" using unsigned_less [of x] by simp
  show ?thesis
    using pton4_number [OF lt, of 0 a _ "[]"] pton4_number [OF lt, of _ b _ "[a]"]
      pton4_number [OF lt, of _ c _ "[a, b]"] pton4_number [OF lt, of _ d "[]" "[a, b, c]"]
    by (simp add: inet_pton4_def bs dotted_def)
qed


section \<open>IPv6: what is parsed\<close>

definition parsing :: "8 word list \<Rightarrow> nat option \<Rightarrow> string \<Rightarrow> nat \<Rightarrow> 32 word \<Rightarrow> pton6" where
  "parsing bs c cur seen v =
     \<lparr>p6_tmp = bs @ replicate (16 - length bs) 0, p6_tp = length bs, p6_colonp = c, p6_curtok = cur,
      p6_seen = seen, p6_val = v\<rparr>"

lemma parsing_sel [simp]:
  "p6_tmp (parsing bs c cur k v) = bs @ replicate (16 - length bs) 0" "p6_tp (parsing bs c cur k v) = length bs"
  "p6_colonp (parsing bs c cur k v) = c" "p6_curtok (parsing bs c cur k v) = cur" "p6_seen (parsing bs c cur k v) = k"
  "p6_val (parsing bs c cur k v) = v"
  by (simp_all add: parsing_def)

lemma hex_digit_hex:
  assumes "d < 16"
  shows "hex_digit (xdigits_l ! d) = Some d"
proof -
  have "d \<in> {0, 1, 2, 3, 4, 5, 6, 7, 8, 9, 10, 11, 12, 13, 14, 15}" using assms by (simp add: numeral_eq_Suc less_Suc_eq; blast)
  then show ?thesis by (elim insertE) (simp_all add: hex_digit_def xdigits_l_def)
qed

lemma hex_digit_other [simp]: "hex_digit CHR '':'' = None" "hex_digit CHR ''.'' = None"
  by (simp_all add: hex_digit_def xdigits_l_def xdigits_u_def)

lemma push_and_take: "push_bit k x AND take_bit k y = (0 :: 32 word)"
  by (rule bit_word_eqI) (simp add: bit_simps)

lemma shift_in_digit:
  assumes "d < 16"
  shows "(push_bit 4 (of_nat m) OR of_nat d :: 32 word) = of_nat (m * 16 + d)"
proof -
  have "(of_nat d :: 32 word) = take_bit 4 (of_nat d)"
    using assms by (simp add: take_bit_of_nat take_bit_nat_eq_self)
  then have "(push_bit 4 (of_nat m) AND of_nat d :: 32 word) = 0"
    by (metis push_and_take)
  then have "(push_bit 4 (of_nat m) OR of_nat d :: 32 word) = push_bit 4 (of_nat m) + of_nat d"
    by (simp add: disjunctive_add_eq_or)
  then show ?thesis by (simp add: push_bit_eq_mult mult.commute)
qed

lemma pton6_hex_digit:
  assumes "d < 16"
  shows "pton6_loop (xdigits_l ! d # src) s =
    (if Suc (p6_seen s) > 4 then Inl UV_EINVAL
     else pton6_loop src (s\<lparr>p6_val := push_bit 4 (p6_val s) OR of_nat d, p6_seen := Suc (p6_seen s)\<rparr>))"
  by (simp add: pton6_loop.simps(2) hex_digit_hex [OF assms] Let_def)

lemma pton6_number:
  assumes "b \<in> {10, 16}" "n < b ^ 4"
  shows "\<exists>v. pton6_loop (print_base b n @ src) (parsing bs c cur 0 0) =
      pton6_loop src (parsing bs c cur (length (print_base b n)) v) \<and> (b = 16 \<longrightarrow> v = of_nat n)"
proof -
  have "length (print_base b n) \<le> 4" using assms by (intro print_base_length) auto
  then show ?thesis
  proof (induction n arbitrary: src rule: less_induct)
    case (less n)
    have b: "2 \<le> b" "n mod b < 16" "n mod b < b" using assms(1) by (auto intro: order_less_trans)
    show ?case
    proof (cases "n < b")
      case True
      then show ?thesis using b pton6_hex_digit [of n src "parsing bs c cur 0 0"] assms(1)
        by (auto simp: print_base_small parsing_def)
    next
      case False
      have l: "length (print_base b n) = Suc (length (print_base b (n div b)))" using False b by (simp add: print_base_step)
      have "n div b < n" using b(1) False by (simp add: div_less_dividend)
      from less.IH [OF this, of "xdigits_l ! (n mod b) # src"] l less.prems
      obtain v where "pton6_loop (print_base b (n div b) @ xdigits_l ! (n mod b) # src) (parsing bs c cur 0 0) =
          pton6_loop (xdigits_l ! (n mod b) # src) (parsing bs c cur (length (print_base b (n div b))) v)" "b = 16 \<longrightarrow> v = of_nat (n div b)"
        using \<open>n div b < n\<close> by auto
      moreover have "b = 16 \<longrightarrow> (push_bit 4 (of_nat (n div b)) OR of_nat (n mod b) :: 32 word) = of_nat n"
        using shift_in_digit [of "n mod b" "n div b"] b
        by (auto simp del: of_nat_add of_nat_mult)
      ultimately show ?thesis
        using l less.prems(1) b False pton6_hex_digit [of "n mod b" src]
        by (auto simp: print_base_step parsing_def)
    qed
  qed
qed


declare pton6_loop.simps(2) [simp del]

definition hx :: "32 word \<Rightarrow> string" where "hx w = print_base 16 (unat w)"

definition colons :: "32 word list \<Rightarrow> string" where "colons ws = concat (map (\<lambda>w. '':'' @ hx w) ws)"

definition word_bytes :: "32 word \<Rightarrow> 8 word list" where
  "word_bytes w = [ucast (drop_bit 8 w) AND 0xff, ucast w AND 0xff]"

definition bytes_of :: "32 word list \<Rightarrow> 8 word list" where "bytes_of ws = concat (map word_bytes ws)"

abbreviation small :: "32 word list \<Rightarrow> bool" where "small ws \<equiv> \<forall>w\<in>set ws. unat w < 65536"

lemma bytes_of_simps [simp]: "bytes_of [] = []" "bytes_of (w # ws) = word_bytes w @ bytes_of ws"
    "bytes_of (us @ ws) = bytes_of us @ bytes_of ws" "length (bytes_of ws) = 2 * length ws"
  by (simp_all add: bytes_of_def) (induction ws; simp add: word_bytes_def)

lemma length_word_bytes [simp]: "length (word_bytes w) = 2"
  by (simp add: word_bytes_def)

lemma colons_simps [simp]: "colons [] = []" "colons (w # ws) = CHR '':'' # hx w @ colons ws"
    "colons (us @ ws) = colons us @ colons ws"
  by (simp_all add: colons_def)

lemma hx_length: "unat w < 65536 \<Longrightarrow> length (hx w) \<le> 4"
  unfolding hx_def by (rule print_base_length) simp_all

lemma hx_not_Nil [simp]: "hx w \<noteq> []"
  by (simp add: hx_def)

lemma parse_hx:
  assumes "unat w < 65536"
  shows "pton6_loop (hx w @ src) (parsing bs c cur 0 0) = pton6_loop src (parsing bs c cur (length (hx w)) w)"
  using pton6_number [of 16 "unat w" src bs c cur] assms by (auto simp: hx_def)

lemma put_word_parsing:
  assumes "length bs + 2 \<le> 16"
  shows "put_word (parsing bs c cur k v) = Inr (parsing (bs @ word_bytes v) c cur k v)"
proof -
  have "16 - length bs = Suc (Suc (16 - (length bs + 2)))" using assms by simp
  then have "replicate (16 - length bs) (0::8 word) = 0 # 0 # replicate (16 - (length bs + 2)) 0"
    by (simp only: replicate_Suc)
  then show ?thesis
    using assms by (simp add: put_word_def parsing_def word_bytes_def list_update_append)
qed

lemma parse_colon:
  assumes "0 < k" "src \<noteq> []" "length bs + 2 \<le> 16"
  shows "pton6_loop (CHR '':'' # src) (parsing bs c cur k v) = pton6_loop src (parsing (bs @ word_bytes v) c src 0 0)"
  using assms put_word_parsing [OF assms(3), of c src k v] by (simp add: pton6_loop.simps(2) parsing_def Let_def)

lemma parse_colons:
  assumes "small ws" "0 < k" "length bs + 2 * length ws \<le> 16"
  shows "\<exists>cur' k'. pton6_loop (colons ws @ src) (parsing bs c cur k v) =
      pton6_loop src (parsing (bs @ bytes_of (butlast (v # ws))) c cur' k' (last (v # ws))) \<and> 0 < k'"
  using assms
proof (induction ws arbitrary: bs k v cur)
  case Nil
  then show ?case by auto
next
  case (Cons w ws)
  have "pton6_loop (colons (w # ws) @ src) (parsing bs c cur k v) =
      pton6_loop (colons ws @ src) (parsing (bs @ word_bytes v) c (hx w @ colons ws @ src) (length (hx w)) w)"
    using Cons.prems by (simp add: parse_colon parse_hx)
  then show ?case
    using Cons.IH [of "length (hx w)" "bs @ word_bytes v" "hx w @ colons ws @ src" w] Cons.prems by auto
qed

text \<open>The rest after the double colon: nothing, or words.\<close>

definition joined :: "32 word list \<Rightarrow> string" where
  "joined ws = (case ws of [] \<Rightarrow> [] | w # ws \<Rightarrow> hx w @ colons ws)"

lemma colons_joined: "ws \<noteq> [] \<Longrightarrow> colons ws = CHR '':'' # joined ws"
  by (cases ws) (simp_all add: joined_def)

lemma bytes_of_butlast: "ws \<noteq> [] \<Longrightarrow> bytes_of (butlast ws) @ word_bytes (last ws) = bytes_of ws"
  by (induction ws) auto

lemma parse_joined:
  assumes "small ws" "length bs + 2 * length ws \<le> 16" "ws \<noteq> []"
  shows "\<exists>cur' k'. pton6_loop (joined ws @ src) (parsing bs c cur 0 0) =
      pton6_loop src (parsing (bs @ bytes_of (butlast ws)) c cur' k' (last ws)) \<and> 0 < k'"
  using parse_colons [of "tl ws" "length (hx (hd ws))" bs src c cur "hd ws"] assms
  by (cases ws) (auto simp: joined_def parse_hx)

text \<open>The shift by hand moves what follows the double colon to the end.\<close>

lemma shift_step_blocks:
  assumes "c = length pre" "length mid = n" "c + n + z = 16" "0 < z" "k < n"
  shows "shift_step c n (Suc k) (pre @ take (n - k) mid @ replicate z 0 @ drop (n - k) mid) =
    pre @ take (n - Suc k) mid @ replicate z 0 @ drop (n - Suc k) mid"
proof -
  define m where "m = n - Suc k"
  have m: "n - k = Suc m" "n - Suc k = m" "m < n" using assms(5) by (simp_all add: m_def)
  have t: "take (Suc m) mid = take m mid @ [mid ! m]" using assms(2) m(3) by (simp add: take_Suc_conv_app_nth)
  have d: "drop m mid = mid ! m # drop (Suc m) mid" using assms(2) m(3) by (simp add: Cons_nth_drop_Suc)
  obtain y where z: "z = Suc y" using assms(4) by (cases z) auto
  have r: "replicate z (0::8 word) = replicate y 0 @ [0]" unfolding z by (simp add: replicate_append_same)
  define T where "T = pre @ take (n - k) mid @ replicate z 0 @ drop (n - k) mid"
  have T: "T = (pre @ take m mid) @ (mid ! m # replicate y 0) @ 0 # drop (Suc m) mid"
    unfolding T_def m t r by simp
  have l: "length (pre @ take m mid) = c + m" using assms(1,2) m(3) by simp
  have i: "16 - Suc k = length ((pre @ take m mid) @ (mid ! m # replicate y 0))" using assms m z by simp
  have "T ! (c + m) = mid ! m" unfolding T l [symmetric] by (simp only: nth_append_length append_Cons)
  moreover have "T[16 - Suc k := mid ! m] = (pre @ take m mid) @ (mid ! m # replicate y 0) @ mid ! m # drop (Suc m) mid"
    unfolding T i append_assoc [of "pre @ take m mid", symmetric] list_update_length ..
  moreover have "((pre @ take m mid) @ (mid ! m # replicate y 0) @ mid ! m # drop (Suc m) mid)[c + m := 0] =
      (pre @ take m mid) @ (0 # replicate y 0) @ mid ! m # drop (Suc m) mid"
    unfolding l [symmetric] append_Cons list_update_length ..
  ultimately have "shift_step c n (Suc k) T = (pre @ take m mid) @ (0 # replicate y 0) @ mid ! m # drop (Suc m) mid"
    by (simp only: shift_step_def m)
  then show ?thesis unfolding T_def m d z by simp
qed

lemma shift_blocks:
  assumes "c = length pre" "length mid = n" "c + n + z = 16" "0 < z"
  shows "fold (shift_step c n) [1..<Suc n] (pre @ mid @ replicate z 0) = pre @ replicate z 0 @ mid"
proof -
  have "k \<le> n \<Longrightarrow> fold (shift_step c n) [1..<Suc k] (pre @ mid @ replicate z 0) =
      pre @ take (n - k) mid @ replicate z 0 @ drop (n - k) mid" for k
    by (induction k) (use assms shift_step_blocks [OF assms] in auto)
  from this [of n] show ?thesis by simp
qed

lemma pton6_finish_plain:
  assumes "length bs = 14" "0 < k"
  shows "pton6_finish (parsing bs None cur k v) = Inr (bs @ word_bytes v)"
  using assms by (simp add: pton6_finish_def put_word_parsing)

lemma pton6_finish_colon:
  assumes "length pre + length mid < 16"
  shows "pton6_finish (parsing (pre @ mid) (Some (length pre)) cur 0 v) =
    Inr (pre @ replicate (16 - length pre - length mid) 0 @ mid)"
  using assms shift_blocks [of "length pre" pre mid "length mid" "16 - length pre - length mid"]
  by (simp add: pton6_finish_def)

lemma pton6_finish_put:
  assumes "0 < k" "length bs + 2 \<le> 16"
  shows "pton6_finish (parsing bs c cur k v) = pton6_finish (parsing (bs @ word_bytes v) c cur 0 v)"
  using assms by (cases c) (simp_all add: pton6_finish_def put_word_parsing)

definition pton6_run :: "string \<Rightarrow> pton6 \<Rightarrow> uv_err_code + 8 word list" where
  "pton6_run src s = (case pton6_loop src s of Inl e \<Rightarrow> Inl e | Inr s \<Rightarrow> pton6_finish s)"

lemma run_after_colon:
  assumes "small ws" "length pre + 2 * length ws \<le> 14"
  shows "pton6_run (CHR '':'' # joined ws) (parsing pre None cur 0 0) =
    Inr (pre @ replicate (16 - length pre - 2 * length ws) 0 @ bytes_of ws)"
proof -
  have 1: "pton6_loop (CHR '':'' # joined ws) (parsing pre None cur 0 0) =
      pton6_loop (joined ws) (parsing pre (Some (length pre)) (joined ws) 0 0)"
    by (simp add: pton6_loop.simps(2) parsing_def Let_def)
  show ?thesis
  proof (cases "ws = []")
    case True
    then show ?thesis using 1 pton6_finish_colon [of pre "[]"] assms by (simp add: pton6_run_def joined_def)
  next
    case False
    then obtain cur' k' where 2: "pton6_loop (joined ws) (parsing pre (Some (length pre)) (joined ws) 0 0) =
        Inr (parsing (pre @ bytes_of (butlast ws)) (Some (length pre)) cur' k' (last ws))" "0 < k'"
      using parse_joined [of ws pre "[]" "Some (length pre)" "joined ws"] assms by auto
    have bl: "bytes_of (butlast ws) @ word_bytes (last ws) = bytes_of ws" using False by (rule bytes_of_butlast)
    have "pton6_finish (parsing (pre @ bytes_of (butlast ws)) (Some (length pre)) cur' k' (last ws)) =
        pton6_finish (parsing (pre @ bytes_of ws) (Some (length pre)) cur' 0 (last ws))"
      using 2(2) assms False by (subst pton6_finish_put) (auto simp: bl)
    then show ?thesis
      using 1 2 pton6_finish_colon [of pre "bytes_of ws"] assms by (simp add: pton6_run_def)
  qed
qed

lemma run_before_colon:
  assumes "small us" "small ws" "2 * length us + 2 * length ws \<le> 14" "us \<noteq> []"
  shows "pton6_run (joined us @ '':'' @ CHR '':'' # joined ws) (parsing [] None cur 0 0) =
    Inr (bytes_of us @ replicate (16 - 2 * length us - 2 * length ws) 0 @ bytes_of ws)"
proof -
  obtain cur' k' where "pton6_loop (joined us @ '':'' @ CHR '':'' # joined ws) (parsing [] None cur 0 0) =
      pton6_loop (CHR '':'' # CHR '':'' # joined ws) (parsing (bytes_of (butlast us)) None cur' k' (last us))" "0 < k'"
    using parse_joined [of us "[]" "'':'' @ CHR '':'' # joined ws" None cur] assms by auto
  moreover have "bytes_of (butlast us) @ word_bytes (last us) = bytes_of us"
    using assms(4) by (rule bytes_of_butlast)
  ultimately have "pton6_run (joined us @ '':'' @ CHR '':'' # joined ws) (parsing [] None cur 0 0) =
      pton6_run (CHR '':'' # joined ws) (parsing (bytes_of us) None (CHR '':'' # joined ws) 0 0)"
    using assms by (simp add: pton6_run_def parse_colon)
  then show ?thesis using run_after_colon [of ws "bytes_of us"] assms by simp
qed


text \<open>An IPv4 address at the end.\<close>

lemma byte_less: "unat (b::8 word) < 256"
proof -
  have "unat b < 2 ^ LENGTH(8)" by (rule unsigned_less)
  then show ?thesis by simp
qed

lemma dec_length: "length (print_base 10 (unat (b::8 word))) \<le> 3"
  using byte_less [of b] by (intro print_base_length) auto

lemma dotted_length: "length (dotted bs) \<le> 15" "length (dotted bs) \<noteq> 0"
  using dec_length [of "bs ! 0"] dec_length [of "bs ! 1"] dec_length [of "bs ! 2"] dec_length [of "bs ! 3"]
  by (simp_all add: dotted_def)

lemma inet_ntop4_ok: "16 \<le> n \<Longrightarrow> inet_ntop4 bs n = Inr (dotted bs)"
  using dotted_length [of bs] by (simp add: inet_ntop4_def Let_def)

lemma parse_dotted:
  assumes "length b4 = 4" "length bs \<le> 12"
  shows "\<exists>v. pton6_loop (dotted b4) (parsing bs c (dotted b4) 0 0) = Inr (parsing (bs @ b4) c (dotted b4) 0 v)"
proof -
  have n: "unat (b4 ! 0) < 10 ^ 4" using byte_less [of "b4 ! 0"] by simp
  obtain rest where d: "dotted b4 = print_base 10 (unat (b4 ! 0)) @ CHR ''.'' # rest" by (simp add: dotted_def)
  obtain v where "pton6_loop (dotted b4) (parsing bs c (dotted b4) 0 0) =
      pton6_loop (CHR ''.'' # rest) (parsing bs c (dotted b4) (length (print_base 10 (unat (b4 ! 0)))) v)"
    using pton6_number [OF _ n, of "CHR ''.'' # rest" bs c "dotted b4"] by (auto simp: d)
  moreover have "replicate (16 - length bs) (0::8 word) = replicate 4 0 @ replicate (12 - length bs) 0"
    using assms(2) by (simp add: replicate_add [symmetric])
  ultimately show ?thesis
    using assms by (simp add: pton6_loop.simps(2) inet_pton4_dotted put_bytes_def parsing_def)
qed

lemma run_dotted:
  assumes "length b4 = 4" "length pre = 0" "length mid \<le> 10"
  shows "(case pton6_loop (dotted b4) (parsing (pre @ mid) (Some (length pre)) (dotted b4) 0 0) of
      Inl e \<Rightarrow> Inl e | Inr s \<Rightarrow> pton6_finish s) =
    Inr (pre @ replicate (12 - length pre - length mid) 0 @ mid @ b4)"
proof -
  obtain v where "pton6_loop (dotted b4) (parsing (pre @ mid) (Some (length pre)) (dotted b4) 0 0) =
      Inr (parsing (pre @ mid @ b4) (Some (length pre)) (dotted b4) 0 v)"
    using parse_dotted [of b4 "pre @ mid" "Some (length pre)"] assms by auto
  then show ?thesis using pton6_finish_colon [of pre "mid @ b4" "dotted b4" v] assms by simp
qed

section \<open>IPv6: what is printed\<close>

lemma ntop6_format_words:
  assumes "\<forall>i\<in>set is. i \<noteq> 0 \<and> \<not> in_run best i \<and> \<not> v4_inside best ws i"
  shows "ntop6_format src ws best (is @ js) tmp = ntop6_format src ws best js (tmp @ colons (map ((!) ws) is))"
  using assms by (induction "is" arbitrary: tmp) (auto simp: hx_def)

lemma ntop6_format_run:
  assumes "\<forall>i\<in>set is. in_run best i \<and> int i \<noteq> fst best"
  shows "ntop6_format src ws best (is @ js) tmp = ntop6_format src ws best js tmp"
  using assms by (induction "is" arbitrary: tmp) auto

text \<open>A run found in the first \<open>n\<close> words; \<open>ends\<close> says that it reaches the last of them.\<close>

definition zrun :: "32 word list \<Rightarrow> nat \<Rightarrow> zero_run \<Rightarrow> bool" where
  "zrun ws n r \<longleftrightarrow> fst r = - 1 \<or>
     (\<exists>k. fst r = int k \<and> 0 < snd r \<and> k + snd r \<le> n \<and> (\<forall>i. k \<le> i \<and> i < k + snd r \<longrightarrow> ws ! i = 0))"

definition ends :: "nat \<Rightarrow> zero_run \<Rightarrow> bool" where
  "ends n r \<longleftrightarrow> fst r = - 1 \<or> fst r + int (snd r) = int n"

lemma zrun_Suc: "zrun ws n r \<Longrightarrow> zrun ws (Suc n) r"
  by (auto simp: zrun_def)

lemma zrun_new: "ws ! n = 0 \<Longrightarrow> zrun ws (Suc n) (int n, Suc 0) \<and> ends (Suc n) (int n, Suc 0)"
  by (auto simp: zrun_def ends_def less_Suc_eq)

lemma zrun_longer:
  assumes "zrun ws n (b, l)" "ends n (b, l)" "ws ! n = 0" "b \<noteq> - 1"
  shows "zrun ws (Suc n) (b, Suc l) \<and> ends (Suc n) (b, Suc l)"
proof -
  obtain k where k: "b = int k" "k + l = n" "\<forall>i. k \<le> i \<and> i < k + l \<longrightarrow> ws ! i = 0"
    using assms(1,2,4) by (auto simp: zrun_def ends_def simp flip: of_nat_add)
  then have "\<forall>i. k \<le> i \<and> i < k + Suc l \<longrightarrow> ws ! i = 0"
    using assms(3) by (auto simp: less_Suc_eq)
  then show ?thesis using k by (auto simp: zrun_def ends_def)
qed

lemma zrun_better: "zrun ws n best \<Longrightarrow> zrun ws n cur \<Longrightarrow> zrun ws n (better_run best cur)"
  by (simp add: better_run_def)

lemma run_step_inv:
  assumes "fold (run_step ws) [0..<n] ((- 1, 0), (- 1, 0)) = (best, cur)"
  shows "zrun ws n best \<and> zrun ws n cur \<and> ends n cur"
  using assms
proof (induction n arbitrary: best cur)
  case 0
  then show ?case by (auto simp: zrun_def ends_def)
next
  case (Suc n)
  obtain best0 b l where f: "fold (run_step ws) [0..<n] ((- 1, 0), (- 1, 0)) = (best0, (b, l))" by (metis surj_pair)
  note IH = Suc.IH [OF f]
  have st: "run_step ws n (best0, (b, l)) = (best, cur)" using Suc.prems f by simp
  have none: "zrun ws m (- 1, j) \<and> ends m (- 1, j)" for m j by (simp add: zrun_def ends_def)
  show ?case
  proof (cases "ws ! n = 0")
    case True
    then show ?thesis
      using st IH zrun_new [OF True] zrun_longer [of ws n b l] zrun_Suc
      by (cases "b = - 1") (auto simp: run_step_def)
  next
    case False
    have "zrun ws (Suc n) (better_run best0 (b, l))" using IH by (intro zrun_Suc zrun_better) auto
    with False show ?thesis
      using st IH none zrun_Suc by (cases "b = - 1") (auto simp: run_step_def)
  qed
qed

definition zero_run_ok :: "32 word list \<Rightarrow> nat \<Rightarrow> nat \<Rightarrow> bool" where
  "zero_run_ok ws b l \<longleftrightarrow> 2 \<le> l \<and> b + l \<le> 8 \<and> (\<forall>i. b \<le> i \<and> i < b + l \<longrightarrow> ws ! i = 0)"

lemma best_run_cases:
  obtains (none) "fst (best_run ws) = - 1"
  | (run) b l where "best_run ws = (int b, l)" "zero_run_ok ws b l"
proof -
  obtain best cur where f: "fold (run_step ws) [0..<8] ((- 1, 0), (- 1, 0)) = (best, cur)" by (metis surj_pair)
  define r where "r = (if fst cur \<noteq> - 1 then better_run best cur else best)"
  have z: "zrun ws 8 r" using run_step_inv [OF f] by (auto simp: r_def zrun_better)
  have br: "best_run ws = (if fst r \<noteq> - 1 \<and> snd r < 2 then (- 1, snd r) else r)"
    by (simp add: best_run_def f r_def)
  have "fst (best_run ws) = - 1 \<or> (\<exists>b l. best_run ws = (int b, l) \<and> zero_run_ok ws b l)"
    using z unfolding br zrun_def zero_run_ok_def by (cases r) auto
  then show thesis using none run by blast
qed


text \<open>The words and the bytes of an address.\<close>

lemma in6_words_length [simp]: "length (in6_words src) = 8"
  by (simp add: in6_words_def)

lemma and_ff: "(x :: 8 word) AND 0xff = x"
proof -
  have "(0xff :: 8 word) = - 1" by simp
  then show ?thesis by (metis and.right_neutral)
qed

lemma bit_byte: "bit (x :: 8 word) n \<Longrightarrow> n < 8"
  using bit_imp_le_length [of x n] by simp

lemma no_bit: "\<not> bit (x :: 8 word) (8 + n)"
  using bit_byte [of x "8 + n"] by auto

lemma upt_split: "i \<le> j \<Longrightarrow> j \<le> k \<Longrightarrow> [i..<k] = [i..<j] @ [j..<k]"
  by (metis le_Suc_ex upt_add_eq_append)

lemma word_of_bytes:
  fixes hi lo :: "8 word"
  defines "w \<equiv> push_bit 8 (ucast hi) OR ucast lo :: 32 word"
  shows "word_bytes w = [hi, lo]" "unat w < 65536"
proof -
  show "word_bytes w = [hi, lo]"
    by (simp add: word_bytes_def w_def and_ff) (auto intro!: bit_word_eqI simp: bit_simps no_bit)
  have "bit w n \<Longrightarrow> n < 16" for n unfolding w_def by (auto simp: bit_simps dest: bit_byte)
  then have "take_bit 16 w = w" by (auto intro!: bit_word_eqI simp: bit_take_bit_iff)
  then have "unat w = take_bit 16 (unat w)" by (metis unsigned_take_bit_eq)
  then show "unat w < 65536" by (simp add: take_bit_eq_mod)
qed

lemma length16_cases:
  "length src = 16 \<longleftrightarrow> (\<exists>a b c d e f g h i j k l m n p q. src = [a, b, c, d, e, f, g, h, i, j, k, l, m, n, p, q])"
  by (auto simp: length_Suc_conv numeral_eq_Suc)

lemma bytes_of_in6_words:
  assumes "length src = 16"
  shows "bytes_of (in6_words src) = src" "small (in6_words src)"
proof -
  obtain a b c d e f g h i j k l m n p q where s: "src = [a, b, c, d, e, f, g, h, i, j, k, l, m, n, p, q]"
    using assms by (auto simp: length16_cases)
  show "bytes_of (in6_words src) = src"
    by (simp add: s in6_words_def bytes_of_def word_of_bytes upt_conv_Cons)
  show "small (in6_words src)"
    by (auto simp: in6_words_def word_of_bytes(2))
qed

lemma zeros_bytes: "\<forall>w\<in>set ws. w = 0 \<Longrightarrow> bytes_of ws = replicate (2 * length ws) 0"
  by (induction ws) (simp_all add: word_bytes_def)

lemma split_run:
  assumes "zero_run_ok ws b l" "length ws = 8"
  shows "bytes_of ws = bytes_of (take b ws) @ replicate (2 * l) 0 @ bytes_of (drop (b + l) ws)"
proof -
  have "ws = take b ws @ take l (drop b ws) @ drop (b + l) ws"
    by (metis append_take_drop_id drop_drop add.commute)
  then have "bytes_of ws = bytes_of (take b ws) @ bytes_of (take l (drop b ws)) @ bytes_of (drop (b + l) ws)"
    by (metis bytes_of_simps(3))
  moreover have "\<forall>w\<in>set (take l (drop b ws)). w = 0"
    using assms by (auto simp: zero_run_ok_def in_set_conv_nth)
  moreover have "length (take l (drop b ws)) = l" using assms by (auto simp: zero_run_ok_def min_def)
  ultimately show ?thesis using zeros_bytes by metis
qed


text \<open>Without a run, with a run, and with an IPv4 address inside.\<close>

lemma map_nth_from: "map ((!) ws) [i..<length ws] = drop i ws"
  by (rule nth_equalityI) simp_all

lemma map_nth_upto: "i \<le> length ws \<Longrightarrow> map ((!) ws) [0..<i] = take i ws"
  by (rule nth_equalityI) simp_all

lemma joined_take:
  assumes "0 < b" "b \<le> length ws"
  shows "joined (take b ws) = hx (ws ! 0) @ colons (map ((!) ws) [1..<b])"
proof -
  have "take b ws = map ((!) ws) [0..<b]" using assms(2) by (rule map_nth_upto [symmetric])
  also have "\<dots> = ws ! 0 # map ((!) ws) [1..<b]" using assms(1) by (simp add: upt_conv_Cons)
  finally show ?thesis by (simp add: joined_def)
qed

lemma format_none:
  assumes "fst best = - 1" "length ws = 8"
  shows "ntop6_format src ws best [0..<8] [] = Inr (joined ws)"
proof -
  have "ntop6_format src ws best ([1..<8] @ []) (hx (ws ! 0)) = Inr (hx (ws ! 0) @ colons (map ((!) ws) [1..<8]))"
    using assms by (subst ntop6_format_words) (auto simp: in_run_def v4_inside_def)
  moreover have "[0..<8] = 0 # [1..<8::nat]" by (simp add: upt_conv_Cons)
  ultimately show ?thesis
    using assms joined_take [of 8 ws] by (simp add: in_run_def v4_inside_def hx_def)
qed

lemma format_run:
  assumes "zero_run_ok ws b l" "length ws = 8" "\<not> v4_inside (int b, l) ws 6 \<or> b + l > 6"
  shows "ntop6_format src ws (int b, l) [0..<8] [] = Inr (joined (take b ws) @ '':'' @ colons (drop (b + l) ws))"
proof -
  have bl: "2 \<le> l" "b + l \<le> 8" using assms(1) by (simp_all add: zero_run_ok_def)
  have v4: "\<not> v4_inside (int b, l) ws i \<or> b \<le> i \<and> i < b + l" for i
    using assms(3) bl by (auto simp: v4_inside_def)
  have tail: "ntop6_format src ws (int b, l) [b..<8] tmp = Inr (tmp @ '':'' @ colons (drop (b + l) ws))" for tmp
  proof -
    have "[b..<8] = b # [Suc b..<b + l] @ [b + l..<8]"
      using bl upt_split [of "Suc b" "b + l" 8] by (simp add: upt_conv_Cons)
    moreover have "ntop6_format src ws (int b, l) ([b + l..<8] @ []) (tmp @ '':'') = Inr ((tmp @ '':'') @ colons (map ((!) ws) [b + l..<8]))"
      using bl v4 by (subst ntop6_format_words) (fastforce simp: in_run_def)+
    moreover have "ntop6_format src ws (int b, l) ([Suc b..<b + l] @ [b + l..<8]) (tmp @ '':'') =
        ntop6_format src ws (int b, l) [b + l..<8] (tmp @ '':'')"
      by (rule ntop6_format_run) (auto simp: in_run_def)
    ultimately show ?thesis
      using bl map_nth_from [of ws "b + l"] assms(2) by (simp add: in_run_def)
  qed
  show ?thesis
  proof (cases "b = 0")
    case True
    then show ?thesis using tail [of "[]"] by (simp add: joined_def)
  next
    case False
    have "[0..<8] = 0 # [1..<b] @ [b..<8]"
      using False bl upt_split [of 1 b 8] by (simp add: upt_conv_Cons)
    then show ?thesis
      using False bl v4 tail joined_take [of b ws] assms(2)
      by (simp add: ntop6_format_words in_run_def v4_inside_def hx_def)
  qed
qed


lemma format_v4:
  assumes "zero_run_ok ws 0 l" "v4_inside (0, l) ws 6" "l \<le> 6"
  shows "ntop6_format src ws (0, l) [0..<8] [] =
    Inr (''::'' @ (if l = 5 then hx 0xffff @ '':'' else []) @ dotted (drop 12 src))"
proof -
  have "l = 6 \<or> l = 5 \<and> ws ! 5 = 0xffff" using assms(2,3) by (auto simp: v4_inside_def)
  moreover have "[0..<8] = [0, 1, 2, 3, 4, 5, 6, 7::nat]" by (simp add: upt_conv_Cons)
  moreover have "length (hx 0xffff) = 4" by (simp add: hx_def print_base_step print_base_small)
  ultimately show ?thesis
    by (elim disjE conjE) (simp_all add: in_run_def v4_inside_def inet_ntop4_ok hx_def)
qed

lemma print_base_hd: "2 \<le> b \<Longrightarrow> \<exists>d r. print_base b n = xdigits_l ! d # r \<and> d < b"
proof (induction n rule: less_induct)
  case (less n)
  show ?case
  proof (cases "n < b")
    case True
    then show ?thesis by (auto simp: print_base_small)
  next
    case False
    then have "n div b < n" using less.prems by (simp add: div_less_dividend)
    then obtain d r where "print_base b (n div b) = xdigits_l ! d # r" "d < b" using less by blast
    then show ?thesis using False less.prems by (auto simp: print_base_step)
  qed
qed

lemma hx_hd: "hx w \<noteq> CHR '':'' # r"
proof
  assume "hx w = CHR '':'' # r"
  then obtain d where "xdigits_l ! d = CHR '':''" "d < 16" using print_base_hd [of 16 "unat w"] by (auto simp: hx_def)
  then show False using hex_digit_hex [of d] by simp
qed

lemma inet_pton6_run:
  "inet_pton6 (CHR '':'' # CHR '':'' # src) = pton6_run (CHR '':'' # src) (parsing [] None (CHR '':'' # src) 0 0)"
  "hd src \<noteq> CHR '':'' \<Longrightarrow> inet_pton6 src = pton6_run src (parsing [] None src 0 0)"
  by (simp add: inet_pton6_def pton6_run_def parsing_def)
    (cases src; simp add: inet_pton6_def pton6_run_def parsing_def)

lemma hd_joined: "ws \<noteq> [] \<Longrightarrow> hd (joined ws @ xs) \<noteq> CHR '':''"
  using hx_hd [of "hd ws"] by (cases ws; cases "hx (hd ws)") (auto simp: joined_def)

lemma joined_length: "small ws \<Longrightarrow> length (joined ws) \<le> 5 * length ws"
proof -
  have "small ws \<Longrightarrow> length (colons ws) \<le> 5 * length ws"
    by (induction ws) (use hx_length in fastforce)+
  then show "small ws \<Longrightarrow> length (joined ws) \<le> 5 * length ws"
    using colons_joined [of ws] by (cases "ws = []") (auto simp: joined_def)
qed

lemma pton6_v4:
  assumes "length b4 = 4" "l = 5 \<or> l = 6"
  shows "inet_pton6 (''::'' @ (if l = 5 then hx 0xffff @ '':'' else []) @ dotted b4) =
    Inr (replicate (2 * l) 0 @ (if l = 5 then word_bytes 0xffff else []) @ b4)"
proof -
  let ?mid = "if l = 5 then word_bytes 0xffff else []"
  have ne: "dotted b4 \<noteq> []" using dotted_length(2) [of b4] by auto
  have "pton6_loop (CHR '':'' # (if l = 5 then hx 0xffff @ '':'' else []) @ dotted b4) (parsing [] None cur 0 0) =
      pton6_loop (dotted b4) (parsing ([] @ ?mid) (Some (length ([]::8 word list))) (dotted b4) 0 0)" for cur
  proof -
    have 1: "pton6_loop (CHR '':'' # x) (parsing [] None cur 0 0) = pton6_loop x (parsing [] (Some 0) x 0 0)" for x
      by (simp add: pton6_loop.simps(2) parsing_def Let_def)
    show ?thesis using assms(2) ne unfolding 1 by (auto simp: parse_hx parse_colon)
  qed
  then show ?thesis
    using run_dotted [OF assms(1), of "[]" ?mid] assms(2) inet_pton6_run(1) by (auto simp: pton6_run_def)
qed


text \<open>What \<open>inet_ntop6\<close> writes, before it looks at the size of the buffer, and that it parses back.\<close>

definition ntop6_text :: "8 word list \<Rightarrow> string" where
  "ntop6_text src =
     (let ws = in6_words src; best = best_run ws; b = nat (fst best); l = snd best in
      if fst best = - 1 then joined ws
      else if v4_inside best ws 6 \<and> l \<le> 6 then ''::'' @ (if l = 5 then hx 0xffff @ '':'' else []) @ dotted (drop 12 src)
      else joined (take b ws) @ '':'' @ '':'' @ joined (drop (b + l) ws))"

lemma inet_ntop6_text: "inet_ntop6 src n = (if length (ntop6_text src) + 1 > n then Inl UV_ENOSPC else Inr (ntop6_text src))"
proof (cases rule: best_run_cases [of "in6_words src"])
  case none
  then show ?thesis by (simp add: inet_ntop6_def ntop6_text_def Let_def format_none)
next
  case (run b l)
  let ?ws = "in6_words src"
  have bl: "2 \<le> l" "b + l \<le> 8" using run(2) by (simp_all add: zero_run_ok_def)
  show ?thesis
  proof (cases "v4_inside (int b, l) ?ws 6 \<and> l \<le> 6")
    case True
    then have "b = 0" by (simp add: v4_inside_def)
    then show ?thesis
      using True run format_v4 [of ?ws l src] by (auto simp: inet_ntop6_def ntop6_text_def Let_def)
  next
    case False
    then have f: "ntop6_format src ?ws (int b, l) [0..<8] [] = Inr (joined (take b ?ws) @ '':'' @ colons (drop (b + l) ?ws))"
      using run(2) by (intro format_run) (auto simp: v4_inside_def)
    have "colons (drop (b + l) ?ws) @ (if b + l = 8 then '':'' else []) = '':'' @ joined (drop (b + l) ?ws)"
      using bl colons_joined [of "drop (b + l) ?ws"] by (auto simp: joined_def)
    then show ?thesis using f run(1) False by (auto simp: inet_ntop6_def ntop6_text_def Let_def simp flip: of_nat_add)
  qed
qed

lemma inet_pton6_text:
  assumes "length src = 16"
  shows "inet_pton6 (ntop6_text src) = Inr src \<and> length (ntop6_text src) < 46"
proof (cases rule: best_run_cases [of "in6_words src"])
  case none
  note by_src = bytes_of_in6_words [OF assms]
  have ne: "in6_words src \<noteq> []" by (metis in6_words_length list.size(3) zero_neq_numeral)
  obtain cur' k' where "pton6_loop (joined (in6_words src) @ []) (parsing [] None (joined (in6_words src)) 0 0) =
      pton6_loop [] (parsing ([] @ bytes_of (butlast (in6_words src))) None cur' k' (last (in6_words src)))" "0 < k'"
    using parse_joined [OF by_src(2), of "[]" "[]" None "joined (in6_words src)"] ne by auto
  then have "inet_pton6 (joined (in6_words src)) = Inr src"
    using hd_joined [of "in6_words src" "[]"] pton6_finish_plain [of "bytes_of (butlast (in6_words src))" k' cur'] by_src
      bytes_of_butlast [OF ne] ne
    by (simp add: inet_pton6_run(2) pton6_run_def)
  then show ?thesis using none joined_length [OF by_src(2)] by (simp add: ntop6_text_def)
next
  case (run b l)
  let ?ws = "in6_words src"
  note by_src = bytes_of_in6_words [OF assms]
  have bl: "2 \<le> l" "b + l \<le> 8" using run(2) by (simp_all add: zero_run_ok_def)
  have sm: "small (take b ?ws)" "small (drop (b + l) ?ws)"
    using by_src(2) by (auto dest: in_set_takeD in_set_dropD)
  have sp: "src = bytes_of (take b ?ws) @ replicate (2 * l) 0 @ bytes_of (drop (b + l) ?ws)"
    using split_run [OF run(2)] by_src(1) by simp
  show ?thesis
  proof (cases "v4_inside (int b, l) ?ws 6 \<and> l \<le> 6")
    case True
    then have b: "b = 0" and l: "l = 5 \<or> l = 6" and w5: "l = 5 \<Longrightarrow> ?ws ! 5 = 0xffff" by (auto simp: v4_inside_def)
    have hl: "length (hx 0xffff) \<le> 4" by (rule hx_length) simp
    have "src = replicate (2 * l) 0 @ (if l = 5 then word_bytes 0xffff else []) @ drop 12 src"
      using l
    proof
      assume l: "l = 5"
      have "drop 5 ?ws = 0xffff # drop 6 ?ws" using Cons_nth_drop_Suc [of 5 ?ws] w5 [OF l] by simp
      then have s: "src = replicate 10 0 @ word_bytes 0xffff @ bytes_of (drop 6 ?ws)" using sp b l by simp
      from arg_cong [OF this, of "drop 12"] have "drop 12 src = bytes_of (drop 6 ?ws)" by simp
      then show ?thesis using s l by simp
    next
      assume l: "l = 6"
      then have s: "src = replicate 12 0 @ bytes_of (drop 6 ?ws)" using sp b by simp
      from arg_cong [OF this, of "drop 12"] have "drop 12 src = bytes_of (drop 6 ?ws)" by simp
      then show ?thesis using s l by simp
    qed
    then show ?thesis
      using True run b l pton6_v4 [of "drop 12 src" l] dotted_length(1) [of "drop 12 src"] hl assms
      by (auto simp: ntop6_text_def Let_def)
  next
    case False
    have t: "ntop6_text src = joined (take b ?ws) @ '':'' @ '':'' @ joined (drop (b + l) ?ws)"
      using False run(1) by (auto simp add: ntop6_text_def Let_def)
    have ar: "16 - 2 * b - 2 * (8 - (b + l)) = 2 * l" using bl by linarith
    have "inet_pton6 (ntop6_text src) = Inr src"
    proof (cases "b = 0")
      case True
      then show ?thesis
        using run_after_colon [OF sm(2), of "[]"] bl ar sp [symmetric]
        by (simp add: t joined_def [of "[]"] inet_pton6_run(1))
    next
      case False
      moreover have "?ws \<noteq> []" by (metis in6_words_length list.size(3) zero_neq_numeral)
      moreover have "2 * b + 2 * (8 - (b + l)) \<le> 14" using bl by linarith
      ultimately show ?thesis
        using run_before_colon [OF sm] bl ar sp [symmetric] hd_joined [of "take b ?ws"] by (simp add: t inet_pton6_run(2))
    qed
    then show ?thesis using joined_length [OF sm(1)] joined_length [OF sm(2)] bl by (simp add: t)
  qed
qed


section \<open>Text and addresses are inverse\<close>

text \<open>
  C35. \<open>inet_pton4\<close> is the inverse of \<open>inet_ntop4\<close>: it accepts exactly the texts that
  \<open>inet_ntop4\<close> writes, four decimal bytes without leading zeros, nothing before, between or
  after them, and yields the four bytes.
\<close>

theorem inet_pton4_iff:
  "inet_pton4 s = Inr bs \<longleftrightarrow> length bs = 4 \<and> inet_ntop4 bs 16 = Inr s"
proof
  assume "inet_pton4 s = Inr bs"
  then obtain tmp oct where r: "pton4_loop s ([] @ [0]) False 0 = Inr (tmp, oct)" "\<not> oct < 4" "bs = take 4 tmp"
    by (auto simp: inet_pton4_def split: sum.splits if_splits)
  obtain saw where saw: "read4 tmp saw = s" "saw \<longrightarrow> length tmp = oct" "\<not> saw \<longrightarrow> oct < 4"
    using pton4_loop_sound [OF r(1)] by (auto simp: read4_def dots_def)
  have "oct \<le> 4" using pton4_loop_octets [OF r(1)] by simp
  then have "length tmp = 4" "saw" using saw r(2) by auto
  then show "length bs = 4 \<and> inet_ntop4 bs 16 = Inr s"
    using saw(1) r(3) dotted_read4 [of tmp] by (simp add: inet_ntop4_ok)
next
  assume "length bs = 4 \<and> inet_ntop4 bs 16 = Inr s"
  then show "inet_pton4 s = Inr bs" using inet_pton4_dotted [of bs] by (simp add: inet_ntop4_ok)
qed

text \<open>
  C36. Every IPv6 address survives \<open>inet_ntop6\<close> and \<open>inet_pton6\<close>, with or without a double
  colon, at the start, in the middle, at the end or alone, and with an IPv4 address inside; the text
  is shorter than the 46 bytes of the local buffer and than the buffer of the caller, and only a
  buffer that is too small for it is an error.
\<close>

theorem inet_ntop6_roundtrip:
  assumes "length src = 16"
  shows "(case inet_ntop6 src n of Inr s \<Rightarrow> inet_pton6 s = Inr src \<and> length s < min n 46 | Inl e \<Rightarrow> e = UV_ENOSPC \<and> n < 46)"
  using inet_pton6_text [OF assms] by (auto simp: inet_ntop6_text)

lemma inet_ntop6_roundtrip_witness:
  "inet_ntop6 (replicate 12 0 @ [1, 20, 3, 4]) 46 = Inr ''::1.20.3.4'' \<and>
   inet_pton6 ''::1.20.3.4'' = Inr (replicate 12 0 @ [1, 20, 3, 4])"
proof -
  have "inet_ntop6 (replicate 12 0 @ [1, 20, 3, 4]) 46 = Inr ''::1.20.3.4''" by code_simp
  then show ?thesis
    using inet_ntop6_roundtrip [of "replicate 12 0 @ [1, 20, 3, 4]" 46] by simp
qed

end
