(* ===== verification/Udp_Poll.thy ===== *)
theory Udp_Poll
  imports Tcp_Pipe
begin

text \<open>
  UDP sockets (\<open>src/unix/udp.c\<close>), descriptor polling (\<open>src/unix/poll.c\<close>) and the checks that
  \<open>src/uv-common.c\<close> makes before it calls TCP and UDP. The watcher of a handle has the address of
  the handle. \<open>so_reuseport\<close> says whether the C headers define \<open>SO_REUSEPORT\<close>. The functions
  restore \<open>errno\<close>, which is not part of the state.
\<close>

section \<open>State\<close>

record uv_udp =
  udp_alloc_cb :: "nat option"
  udp_recv_cb :: "nat option"
  udp_write_queue :: "nat list"
  udp_completed_queue :: "nat list"

record uv_udp_send_req =
  us_bufs :: "byte list list"
  us_addr :: string
  us_status :: int
  us_cb :: "nat option"
  us_handle :: nat

record udp_loop = stream_loop +
  udps :: "nat \<Rightarrow> uv_udp"
  usends :: "nat \<Rightarrow> uv_udp_send_req"
  polls :: "nat \<Rightarrow> nat option"
  so_reuseport :: bool

datatype udp_event =
    Ev_udp_send nat nat int
  | Ev_udp_recv nat nat int uint32
  | Ev_poll nat nat int uint32

abbreviation (input) SOCK_DGRAM :: uint32 where "SOCK_DGRAM \<equiv> 2"
abbreviation (input) SO_REUSEPORT :: int where "SO_REUSEPORT \<equiv> 15"
abbreviation (input) SO_BROADCAST :: int where "SO_BROADCAST \<equiv> 6"
abbreviation (input) IPPROTO_IP :: int where "IPPROTO_IP \<equiv> 0"
abbreviation (input) IPPROTO_IPV6 :: int where "IPPROTO_IPV6 \<equiv> 41"
abbreviation (input) IPV6_V6ONLY :: int where "IPV6_V6ONLY \<equiv> 26"
abbreviation (input) IP_TTL :: int where "IP_TTL \<equiv> 2"
abbreviation (input) IP_MULTICAST_TTL :: int where "IP_MULTICAST_TTL \<equiv> 33"
abbreviation (input) IP_MULTICAST_LOOP :: int where "IP_MULTICAST_LOOP \<equiv> 34"
abbreviation (input) IP_ADD_MEMBERSHIP :: int where "IP_ADD_MEMBERSHIP \<equiv> 35"
abbreviation (input) IP_DROP_MEMBERSHIP :: int where "IP_DROP_MEMBERSHIP \<equiv> 36"
abbreviation (input) UV_UDP_IPV6ONLY :: uint32 where "UV_UDP_IPV6ONLY \<equiv> 1"
abbreviation (input) UV_UDP_PARTIAL :: uint32 where "UV_UDP_PARTIAL \<equiv> 2"
abbreviation (input) UV_READABLE :: uint32 where "UV_READABLE \<equiv> 1"
abbreviation (input) UV_WRITABLE :: uint32 where "UV_WRITABLE \<equiv> 2"
abbreviation (input) CB_UDP_IO :: nat where "CB_UDP_IO \<equiv> 4"
abbreviation (input) CB_POLL_IO :: nat where "CB_POLL_IO \<equiv> 5"

definition upd_udp :: "nat \<Rightarrow> (uv_udp \<Rightarrow> uv_udp) \<Rightarrow> ('m) udp_loop_scheme \<Rightarrow> ('m) udp_loop_scheme" where
  "upd_udp h f L = L\<lparr>udps := (udps L)(h := f (udps L h))\<rparr>"

definition upd_usend :: "nat \<Rightarrow> (uv_udp_send_req \<Rightarrow> uv_udp_send_req) \<Rightarrow> ('m) udp_loop_scheme \<Rightarrow> ('m) udp_loop_scheme" where
  "upd_usend r f L = L\<lparr>usends := (usends L)(r := f (usends L r))\<rparr>"

section \<open>Sending\<close>

text \<open>
  \<open>uv__udp_run_pending\<close> along the script: the datagram at the head of the queue is sent, again
  while the kernel answers EINTR; EAGAIN ends the loop.
\<close>

definition udp_sent :: "('m) udp_loop_scheme \<Rightarrow> nat \<Rightarrow> nat \<Rightarrow> int \<Rightarrow> ('m) udp_loop_scheme" where
  "udp_sent L h r status =
     upd_udp h (\<lambda>u. u\<lparr>udp_write_queue := remove1 r (udp_write_queue u),
         udp_completed_queue := udp_completed_queue u @ [r]\<rparr>)
       (upd_usend r (\<lambda>q. q\<lparr>us_status := status\<rparr>) L)"

fun udp_run_pending_on :: "answer list \<Rightarrow> ('m) udp_loop_scheme \<Rightarrow> nat \<Rightarrow> ('m) udp_loop_scheme outcome" where
  "udp_run_pending_on as L h =
     (case udp_write_queue (udps L h) of
        [] \<Rightarrow> Ret L
      | r # _ \<Rightarrow>
          (case as of
             [] \<Rightarrow> Starve
           | a # as \<Rightarrow>
               let c = Sys_sendto (w_fd (ios L h)) (us_bufs (usends L r)) (us_addr (usends L r));
                   L = L\<lparr>osys := (osys L)\<lparr>script := as, calls := calls (osys L) @ [(c, a)]\<rparr>\<rparr>
               in case a of
                    Err e \<Rightarrow>
                      if e = EINTR then udp_run_pending_on as L h
                      else if e = EAGAIN then Ret L
                      else udp_run_pending_on as (udp_sent L h r (- e)) h
                  | Val n \<Rightarrow>
                      assert_that (n = int (uv__buf_count (us_bufs (usends L r))))
                        (udp_run_pending_on as (udp_sent L h r n) h)
                  | _ \<Rightarrow> Abort))"

declare udp_run_pending_on.simps [simp del]

definition uv__udp_run_pending :: "('m) udp_loop_scheme \<Rightarrow> nat \<Rightarrow> ('m) udp_loop_scheme outcome" where
  "uv__udp_run_pending L h = udp_run_pending_on (script (osys L)) L h"

definition udp_send_done :: "(udp_event \<Rightarrow> ('m) udp_loop_scheme \<Rightarrow> ('m) udp_loop_scheme outcome) \<Rightarrow>
    ('m) udp_loop_scheme \<Rightarrow> nat \<Rightarrow> ('m) udp_loop_scheme outcome" where
  "udp_send_done user L r =
     obind (uv__req_unregister L r) (\<lambda>L.
       let L = upd_usend r (\<lambda>q. q\<lparr>us_bufs := []\<rparr>) L
       in case us_cb (usends L r) of
            None \<Rightarrow> Ret L
          | Some c \<Rightarrow>
              if us_status (usends L r) \<ge> 0 then user (Ev_udp_send c r 0) L
              else user (Ev_udp_send c r (- 1)) (snd (uv__set_sys_error L (- us_status (usends L r)))))"

partial_function (option) uv__udp_run_completed ::
    "(udp_event \<Rightarrow> ('m) udp_loop_scheme \<Rightarrow> ('m) udp_loop_scheme outcome) \<Rightarrow>
     ('m) udp_loop_scheme \<Rightarrow> nat \<Rightarrow> ('m) udp_loop_scheme run" where
  "uv__udp_run_completed user L h =
     (case udp_completed_queue (udps L h) of
        [] \<Rightarrow> Some (Ret L)
      | r # rs \<Rightarrow>
          rbind (Some (udp_send_done user (upd_udp h (\<lambda>u. u\<lparr>udp_completed_queue := rs\<rparr>) L) r))
            (\<lambda>L. uv__udp_run_completed user L h))"

definition uv__udp_sendmsg :: "(udp_event \<Rightarrow> ('m) udp_loop_scheme \<Rightarrow> ('m) udp_loop_scheme outcome) \<Rightarrow>
    ('m) udp_loop_scheme \<Rightarrow> nat \<Rightarrow> uint32 \<Rightarrow> ('m) udp_loop_scheme run" where
  "uv__udp_sendmsg user L h revents =
     rbind (Some (assert_that (h_type (handles L h) = UV_UDP)
       (assert_that (flag_on revents UV__POLLOUT)
         (assert_that (udp_write_queue (udps L h) \<noteq> [] \<or> udp_completed_queue (udps L h) \<noteq> [])
           (uv__udp_run_pending L h))))) (\<lambda>L.
     rbind (uv__udp_run_completed user L h) (\<lambda>L. Some
       (if udp_completed_queue (udps L h) \<noteq> [] then Ret (uv__io_feed L h)
        else if udp_write_queue (udps L h) = []
        then obind (uv__io_stop L h UV__POLLOUT) (\<lambda>L.
             obind (uv__io_active L h UV__POLLIN) (\<lambda>act. Ret (if \<not> act then uv__handle_stop L h else L)))
        else Ret L)))"

section \<open>Receiving\<close>

text \<open>
  One turn of the loop of \<open>uv__udp_recvmsg\<close>; the answer to \<open>recvmsg\<close> is the length of the datagram,
  with a nonempty list when it was cut (\<open>MSG_TRUNC\<close>).
\<close>

definition udp_recv_answer :: "(udp_event \<Rightarrow> ('m) udp_loop_scheme \<Rightarrow> ('m) udp_loop_scheme outcome) \<Rightarrow>
    ('m) udp_loop_scheme \<Rightarrow> nat \<Rightarrow> answer \<Rightarrow> ('m) udp_loop_scheme outcome" where
  "udp_recv_answer user L h a =
     obind (ptr_ok (udp_recv_cb (udps L h))) (\<lambda>c.
       case a of
         Err e \<Rightarrow>
           if e = EAGAIN then user (Ev_udp_recv c h 0 0) (snd (uv__set_sys_error L EAGAIN))
           else user (Ev_udp_recv c h (- 1) 0) (snd (uv__set_sys_error L e))
       | Val n \<Rightarrow> user (Ev_udp_recv c h n 0) L
       | Msg n trunc \<Rightarrow> user (Ev_udp_recv c h n (if trunc \<noteq> [] then UV_UDP_PARTIAL else 0)) L
       | Fds _ _ \<Rightarrow> Abort)"

text \<open>\<open>count\<close> is the number of turns left after this one: 32 at first, so 33 turns at most.\<close>

primrec udp_recv_loop :: "(udp_event \<Rightarrow> ('m) udp_loop_scheme \<Rightarrow> ('m) udp_loop_scheme outcome) \<Rightarrow>
    (nat \<Rightarrow> nat \<Rightarrow> ('m) udp_loop_scheme \<Rightarrow> nat \<times> ('m) udp_loop_scheme) \<Rightarrow> nat \<Rightarrow>
    ('m) udp_loop_scheme \<Rightarrow> nat \<Rightarrow> ('m) udp_loop_scheme outcome" where
  "udp_recv_loop user alloc 0 L h = Ret L"
| "udp_recv_loop user alloc (Suc turns) L h =
     obind (ptr_ok (udp_alloc_cb (udps L h))) (\<lambda>c.
       let (len, L) = alloc c h L
       in assert_that (0 < len)
         (obind (on_os (sys_retry (Sys_recvmsg (w_fd (ios L h)) len)) L) (\<lambda>(a, L).
          obind (udp_recv_answer user L h a) (\<lambda>L.
            if \<not> failed a \<and> w_fd (ios L h) \<noteq> - 1 \<and> udp_recv_cb (udps L h) \<noteq> None
            then udp_recv_loop user alloc turns L h else Ret L))))"

definition uv__udp_recvmsg :: "(udp_event \<Rightarrow> ('m) udp_loop_scheme \<Rightarrow> ('m) udp_loop_scheme outcome) \<Rightarrow>
    (nat \<Rightarrow> nat \<Rightarrow> ('m) udp_loop_scheme \<Rightarrow> nat \<times> ('m) udp_loop_scheme) \<Rightarrow>
    ('m) udp_loop_scheme \<Rightarrow> nat \<Rightarrow> uint32 \<Rightarrow> ('m) udp_loop_scheme outcome" where
  "uv__udp_recvmsg user alloc L h revents =
     assert_that (h_type (handles L h) = UV_UDP)
    (assert_that (flag_on revents UV__POLLIN)
    (assert_that (udp_recv_cb (udps L h) \<noteq> None)
    (assert_that (udp_alloc_cb (udps L h) \<noteq> None)
      (udp_recv_loop user alloc 33 L h))))"

definition uv__udp_io :: "(udp_event \<Rightarrow> ('m) udp_loop_scheme \<Rightarrow> ('m) udp_loop_scheme outcome) \<Rightarrow>
    (nat \<Rightarrow> nat \<Rightarrow> ('m) udp_loop_scheme \<Rightarrow> nat \<times> ('m) udp_loop_scheme) \<Rightarrow>
    ('m) udp_loop_scheme \<Rightarrow> nat \<Rightarrow> uint32 \<Rightarrow> ('m) udp_loop_scheme run" where
  "uv__udp_io user alloc L h revents =
     rbind (Some (if flag_on revents UV__POLLIN then uv__udp_recvmsg user alloc L h revents else Ret L)) (\<lambda>L.
       if flag_on revents UV__POLLOUT then uv__udp_sendmsg user L h revents else Some (Ret L))"

section \<open>Binding\<close>

text \<open>The end of \<open>uv__bind\<close> when something failed: the descriptor is closed.\<close>

definition udp_bind_fails :: "('m) udp_loop_scheme \<Rightarrow> nat \<Rightarrow> int \<Rightarrow> (int \<times> ('m) udp_loop_scheme) outcome" where
  "udp_bind_fails L h e =
     obind (on_os (sys (Sys_close (w_fd (ios L h)))) (snd (uv__set_sys_error L e))) (\<lambda>(_, L).
       Ret (- 1, set_fd h (- 1) L))"

text \<open>\<open>opt_or_fail\<close> sets an option, unless it is not asked for, and goes on.\<close>

definition opt_or_fail :: "bool \<Rightarrow> ('m) udp_loop_scheme \<Rightarrow> nat \<Rightarrow> sysc \<Rightarrow>
    (('m) udp_loop_scheme \<Rightarrow> (int \<times> ('m) udp_loop_scheme) outcome) \<Rightarrow> (int \<times> ('m) udp_loop_scheme) outcome" where
  "opt_or_fail wanted L h call k =
     (if \<not> wanted then k L
      else obind (on_os (sys call) L) (\<lambda>(r, L).
        if failed r then udp_bind_fails L h (answer_errno r) else k L))"

definition udp_bind_fd :: "('m) udp_loop_scheme \<Rightarrow> nat \<Rightarrow> string \<Rightarrow> uint32 \<Rightarrow> (int \<times> ('m) udp_loop_scheme) outcome" where
  "udp_bind_fd L h addr flags =
     (let fd = w_fd (ios L h)
      in opt_or_fail True L h (Sys_setsockopt fd SOL_SOCKET SO_REUSEADDR) (\<lambda>L.
         opt_or_fail (so_reuseport L) L h (Sys_setsockopt fd SOL_SOCKET SO_REUSEPORT) (\<lambda>L.
         opt_or_fail (flag_on flags UV_UDP_IPV6ONLY) L h (Sys_setsockopt fd IPPROTO_IPV6 IPV6_V6ONLY) (\<lambda>L.
         opt_or_fail True L h (Sys_bind fd addr) (\<lambda>L. Ret (0, set_fd h fd L))))))"

definition uv__bind_udp :: "('m) udp_loop_scheme \<Rightarrow> nat \<Rightarrow> int \<Rightarrow> string \<Rightarrow> uint32 \<Rightarrow>
    (int \<times> ('m) udp_loop_scheme) outcome" where
  "uv__bind_udp L h family addr flags =
     (if flags AND NOT UV_UDP_IPV6ONLY \<noteq> 0 then udp_bind_fails L h EINVAL
      else if flag_on flags UV_UDP_IPV6ONLY \<and> family \<noteq> AF_INET6 then udp_bind_fails L h EINVAL
      else if w_fd (ios L h) = - 1
      then obind (on_os (uv__socket family SOCK_DGRAM 0) L) (\<lambda>(r, L).
        case r of
          Val fd \<Rightarrow> udp_bind_fd (set_fd h fd L) h addr flags
        | _ \<Rightarrow> udp_bind_fails L h (answer_errno r))
      else udp_bind_fd L h addr flags)"

text \<open>The address of a deferred bind is all zero; \<open>any family\<close> stands for it.\<close>

definition uv__udp_maybe_deferred_bind :: "(int \<Rightarrow> string) \<Rightarrow> ('m) udp_loop_scheme \<Rightarrow> nat \<Rightarrow> int \<Rightarrow>
    (int \<times> ('m) udp_loop_scheme) outcome" where
  "uv__udp_maybe_deferred_bind any L h family =
     assert_that (family = AF_INET \<or> family = AF_INET6)
      (if w_fd (ios L h) \<noteq> - 1 then Ret (0, L) else uv__bind_udp L h family (any family) 0)"

text \<open>\<open>found\<close> says that \<open>malloc\<close> finds memory; it is asked for more than four buffers only.\<close>

definition uv__udp_send :: "(int \<Rightarrow> string) \<Rightarrow> bool \<Rightarrow> ('m) udp_loop_scheme \<Rightarrow> nat \<Rightarrow> nat \<Rightarrow> byte list list \<Rightarrow> int \<Rightarrow>
    string \<Rightarrow> nat option \<Rightarrow> (int \<times> ('m) udp_loop_scheme) outcome" where
  "uv__udp_send any found L r h bufs family addr cb =
     assert_that (0 < length bufs)
      (obind (uv__udp_maybe_deferred_bind any L h family) (\<lambda>(x, L).
        if x \<noteq> 0 then Ret (- 1, L)
        else
          let L = uv__req_init L r UV_UDP_SEND;
              L = upd_usend r (\<lambda>q. q\<lparr>us_addr := addr, us_cb := cb, us_handle := h\<rparr>) L
          in if length bufs > 4 \<and> \<not> found then Ret (- 1, snd (uv__set_sys_error L ENOMEM))
             else
               let L = upd_usend r (\<lambda>q. q\<lparr>us_bufs := bufs\<rparr>) L;
                   L = upd_udp h (\<lambda>u. u\<lparr>udp_write_queue := udp_write_queue u @ [r]\<rparr>) L
               in obind (uv__io_start L h UV__POLLOUT) (\<lambda>L. Ret (0, uv__handle_start L h))))"

definition uv_udp_send :: "(int \<Rightarrow> string) \<Rightarrow> bool \<Rightarrow> ('m) udp_loop_scheme \<Rightarrow> nat \<Rightarrow> nat \<Rightarrow> byte list list \<Rightarrow>
    string \<Rightarrow> nat option \<Rightarrow> (int \<times> ('m) udp_loop_scheme) outcome" where
  "uv_udp_send any found L r h bufs addr cb = uv__udp_send any found L r h bufs AF_INET addr cb"

definition uv_udp_send6 :: "(int \<Rightarrow> string) \<Rightarrow> bool \<Rightarrow> ('m) udp_loop_scheme \<Rightarrow> nat \<Rightarrow> nat \<Rightarrow> byte list list \<Rightarrow>
    string \<Rightarrow> nat option \<Rightarrow> (int \<times> ('m) udp_loop_scheme) outcome" where
  "uv_udp_send6 any found L r h bufs addr cb = uv__udp_send any found L r h bufs AF_INET6 addr cb"

section \<open>Handles\<close>

definition uv_udp_init :: "('m) udp_loop_scheme \<Rightarrow> nat \<Rightarrow> (int \<times> ('m) udp_loop_scheme) outcome" where
  "uv_udp_init L h =
     (let L = uv__handle_init L h UV_UDP;
          L = upd_udp h (\<lambda>u. u\<lparr>udp_alloc_cb := None, udp_recv_cb := None\<rparr>) L
      in obind (uv__io_init L h (Some CB_UDP_IO) (- 1)) (\<lambda>L.
           Ret (0, upd_udp h (\<lambda>u. u\<lparr>udp_write_queue := [], udp_completed_queue := []\<rparr>) L)))"

definition uv__udp_bind :: "('m) udp_loop_scheme \<Rightarrow> nat \<Rightarrow> string \<Rightarrow> uint32 \<Rightarrow> (int \<times> ('m) udp_loop_scheme) outcome" where
  "uv__udp_bind L h addr flags = uv__bind_udp L h AF_INET addr flags"

definition uv__udp_bind6 :: "('m) udp_loop_scheme \<Rightarrow> nat \<Rightarrow> string \<Rightarrow> uint32 \<Rightarrow> (int \<times> ('m) udp_loop_scheme) outcome" where
  "uv__udp_bind6 L h addr flags = uv__bind_udp L h AF_INET6 addr flags"

definition uv_udp_open :: "('m) udp_loop_scheme \<Rightarrow> nat \<Rightarrow> int \<Rightarrow> (int \<times> ('m) udp_loop_scheme) outcome" where
  "uv_udp_open L h sock =
     (if w_fd (ios L h) \<noteq> - 1 then Ret (uv__set_artificial_error L UV_EALREADY)
      else obind (on_os (sys (Sys_setsockopt sock SOL_SOCKET SO_REUSEADDR)) L) (\<lambda>(r, L).
        if failed r then Ret (- 1, snd (uv__set_sys_error L (answer_errno r)))
        else obind (if so_reuseport L then on_os (sys (Sys_setsockopt sock SOL_SOCKET SO_REUSEPORT)) L
                    else Ret (Val 0, L)) (\<lambda>(r, L).
          if failed r then Ret (- 1, snd (uv__set_sys_error L (answer_errno r)))
          else Ret (0, set_fd h sock L))))"

definition set_udp_option :: "('m) udp_loop_scheme \<Rightarrow> nat \<Rightarrow> int \<Rightarrow> int \<Rightarrow> (int \<times> ('m) udp_loop_scheme) outcome" where
  "set_udp_option L h level name =
     obind (on_os (sys (Sys_setsockopt (w_fd (ios L h)) level name)) L) (\<lambda>(r, L).
       Ret (if failed r then uv__set_sys_error L (answer_errno r) else (0, L)))"

definition uv_udp_set_membership :: "('m) udp_loop_scheme \<Rightarrow> nat \<Rightarrow> int \<Rightarrow> (int \<times> ('m) udp_loop_scheme) outcome" where
  "uv_udp_set_membership L h membership =
     (if membership = 1 then set_udp_option L h IPPROTO_IP IP_ADD_MEMBERSHIP
      else if membership = 0 then set_udp_option L h IPPROTO_IP IP_DROP_MEMBERSHIP
      else Ret (uv__set_sys_error L EFAULT))"

definition uv__setsockopt_maybe_char :: "('m) udp_loop_scheme \<Rightarrow> nat \<Rightarrow> int \<Rightarrow> int \<Rightarrow>
    (int \<times> ('m) udp_loop_scheme) outcome" where
  "uv__setsockopt_maybe_char L h option val =
     (if val < 0 \<or> val > 255 then Ret (uv__set_sys_error L EINVAL) else set_udp_option L h IPPROTO_IP option)"

definition uv_udp_set_broadcast :: "('m) udp_loop_scheme \<Rightarrow> nat \<Rightarrow> int \<Rightarrow> (int \<times> ('m) udp_loop_scheme) outcome" where
  "uv_udp_set_broadcast L h on = set_udp_option L h SOL_SOCKET SO_BROADCAST"

definition uv_udp_set_ttl :: "('m) udp_loop_scheme \<Rightarrow> nat \<Rightarrow> int \<Rightarrow> (int \<times> ('m) udp_loop_scheme) outcome" where
  "uv_udp_set_ttl L h ttl =
     (if ttl < 1 \<or> ttl > 255 then Ret (uv__set_sys_error L EINVAL) else set_udp_option L h IPPROTO_IP IP_TTL)"

definition uv_udp_set_multicast_ttl :: "('m) udp_loop_scheme \<Rightarrow> nat \<Rightarrow> int \<Rightarrow> (int \<times> ('m) udp_loop_scheme) outcome" where
  "uv_udp_set_multicast_ttl L h ttl = uv__setsockopt_maybe_char L h IP_MULTICAST_TTL ttl"

definition uv_udp_set_multicast_loop :: "('m) udp_loop_scheme \<Rightarrow> nat \<Rightarrow> int \<Rightarrow> (int \<times> ('m) udp_loop_scheme) outcome" where
  "uv_udp_set_multicast_loop L h on = uv__setsockopt_maybe_char L h IP_MULTICAST_LOOP on"

definition uv_udp_getsockname :: "('m) udp_loop_scheme \<Rightarrow> nat \<Rightarrow> (int \<times> ('m) udp_loop_scheme) outcome" where
  "uv_udp_getsockname L h =
     (if w_fd (ios L h) = - 1 then Ret (uv__set_sys_error L EINVAL)
      else obind (on_os (sys (Sys_getsockname (w_fd (ios L h)))) L) (\<lambda>(r, L).
        Ret (if failed r then uv__set_sys_error L (answer_errno r) else (0, L))))"

definition uv_udp_recv_start :: "(int \<Rightarrow> string) \<Rightarrow> ('m) udp_loop_scheme \<Rightarrow> nat \<Rightarrow> nat option \<Rightarrow> nat option \<Rightarrow>
    (int \<times> ('m) udp_loop_scheme) outcome" where
  "uv_udp_recv_start any L h alloc cb =
     (if alloc = None \<or> cb = None then Ret (- 1, snd (uv__set_artificial_error L UV_EINVAL))
      else obind (uv__io_active L h UV__POLLIN) (\<lambda>act.
        if act then Ret (- 1, snd (uv__set_artificial_error L UV_EALREADY))
        else obind (uv__udp_maybe_deferred_bind any L h AF_INET) (\<lambda>(x, L).
          if x \<noteq> 0 then Ret (- 1, L)
          else obind (uv__io_start (upd_udp h (\<lambda>u. u\<lparr>udp_alloc_cb := alloc, udp_recv_cb := cb\<rparr>) L) h UV__POLLIN) (\<lambda>L.
            Ret (0, uv__handle_start L h)))))"

definition uv_udp_recv_stop :: "('m) udp_loop_scheme \<Rightarrow> nat \<Rightarrow> (int \<times> ('m) udp_loop_scheme) outcome" where
  "uv_udp_recv_stop L h =
     obind (uv__io_stop L h UV__POLLIN) (\<lambda>L.
     obind (uv__io_active L h UV__POLLOUT) (\<lambda>act.
       let L = (if \<not> act then uv__handle_stop L h else L)
       in Ret (0, upd_udp h (\<lambda>u. u\<lparr>udp_alloc_cb := None, udp_recv_cb := None\<rparr>) L)))"

section \<open>Closing\<close>

definition uv__udp_close :: "('m) udp_loop_scheme \<Rightarrow> nat \<Rightarrow> ('m) udp_loop_scheme outcome" where
  "uv__udp_close L h =
     obind (uv__io_close L h) (\<lambda>L.
     obind (on_os (sys (Sys_close (w_fd (ios L h)))) (uv__handle_stop L h)) (\<lambda>(_, L).
       Ret (set_fd h (- 1) L)))"

partial_function (option) udp_cancel_sends :: "(udp_event \<Rightarrow> ('m) udp_loop_scheme \<Rightarrow> ('m) udp_loop_scheme outcome) \<Rightarrow>
    ('m) udp_loop_scheme \<Rightarrow> nat \<Rightarrow> ('m) udp_loop_scheme run" where
  "udp_cancel_sends user L h =
     (case udp_write_queue (udps L h) of
        [] \<Rightarrow> Some (Ret L)
      | r # rs \<Rightarrow>
          rbind (Some (obind (uv__req_unregister (upd_udp h (\<lambda>u. u\<lparr>udp_write_queue := rs\<rparr>) L) r) (\<lambda>L.
            let L = upd_usend r (\<lambda>q. q\<lparr>us_bufs := []\<rparr>) L
            in case us_cb (usends L r) of
                 None \<Rightarrow> Ret L
               | Some c \<Rightarrow> user (Ev_udp_send c r (- 1)) (snd (uv__set_artificial_error L UV_ECANCELED)))))
            (\<lambda>L. udp_cancel_sends user L h))"

definition uv__udp_finish_close :: "(udp_event \<Rightarrow> ('m) udp_loop_scheme \<Rightarrow> ('m) udp_loop_scheme outcome) \<Rightarrow>
    ('m) udp_loop_scheme \<Rightarrow> nat \<Rightarrow> ('m) udp_loop_scheme run" where
  "uv__udp_finish_close user L h =
     rbind (Some (obind (uv__io_active L h (UV__POLLIN OR UV__POLLOUT)) (\<lambda>act.
       assert_that (\<not> act) (assert_that (w_fd (ios L h) = - 1) (Ret L))))) (\<lambda>L.
     rbind (uv__udp_run_completed user L h) (\<lambda>L.
     rbind (udp_cancel_sends user L h) (\<lambda>L.
       Some (Ret (upd_udp h (\<lambda>u. u\<lparr>udp_recv_cb := None, udp_alloc_cb := None\<rparr>) (set_flags h 0 L))))))"

section \<open>Polling a descriptor\<close>

definition uv__poll_stop :: "('m) udp_loop_scheme \<Rightarrow> nat \<Rightarrow> ('m) udp_loop_scheme outcome" where
  "uv__poll_stop L h = obind (uv__io_stop L h (UV__POLLIN OR UV__POLLOUT)) (\<lambda>L. Ret (uv__handle_stop L h))"

definition uv__poll_io :: "(udp_event \<Rightarrow> ('m) udp_loop_scheme \<Rightarrow> ('m) udp_loop_scheme outcome) \<Rightarrow>
    ('m) udp_loop_scheme \<Rightarrow> nat \<Rightarrow> uint32 \<Rightarrow> ('m) udp_loop_scheme outcome" where
  "uv__poll_io user L h pevents =
     (if flag_on pevents UV__POLLERR
      then obind (uv__io_stop L h (UV__POLLIN OR UV__POLLOUT)) (\<lambda>L.
           let L = snd (uv__set_sys_error (uv__handle_stop L h) EBADF)
           in obind (ptr_ok (polls L h)) (\<lambda>c. user (Ev_poll c h (- 1) 0) L))
      else
        let p = (if flag_on pevents UV__POLLIN then UV_READABLE else 0) OR
                (if flag_on pevents UV__POLLOUT then UV_WRITABLE else 0)
        in obind (ptr_ok (polls L h)) (\<lambda>c. user (Ev_poll c h 0 p) L))"

definition uv_poll_init :: "('m) udp_loop_scheme \<Rightarrow> nat \<Rightarrow> int \<Rightarrow> (int \<times> ('m) udp_loop_scheme) outcome" where
  "uv_poll_init L h fd =
     obind (uv__io_init (uv__handle_init L h UV_POLL) h (Some CB_POLL_IO) fd) (\<lambda>L.
       Ret (0, L\<lparr>polls := (polls L)(h := None)\<rparr>))"

definition uv_poll_init_socket :: "('m) udp_loop_scheme \<Rightarrow> nat \<Rightarrow> int \<Rightarrow> (int \<times> ('m) udp_loop_scheme) outcome" where
  "uv_poll_init_socket L h socket = uv_poll_init L h socket"

definition uv_poll_stop :: "('m) udp_loop_scheme \<Rightarrow> nat \<Rightarrow> (int \<times> ('m) udp_loop_scheme) outcome" where
  "uv_poll_stop L h =
     assert_that (\<not> flag_on (flags_of L h) (UV_CLOSING OR UV_CLOSED))
       (obind (uv__poll_stop L h) (\<lambda>L. Ret (0, L)))"

definition uv_poll_start :: "('m) udp_loop_scheme \<Rightarrow> nat \<Rightarrow> uint32 \<Rightarrow> nat option \<Rightarrow> (int \<times> ('m) udp_loop_scheme) outcome" where
  "uv_poll_start L h p cb =
     assert_that (p AND NOT (UV_READABLE OR UV_WRITABLE) = 0)
    (assert_that (\<not> flag_on (flags_of L h) (UV_CLOSING OR UV_CLOSED))
      (obind (uv__poll_stop L h) (\<lambda>L.
        if p = 0 then Ret (0, L)
        else
          let pevents = (if flag_on p UV_READABLE then UV__POLLIN else 0) OR
                       (if flag_on p UV_WRITABLE then UV__POLLOUT else 0)
          in obind (uv__io_start L h pevents) (\<lambda>L.
               let L = uv__handle_start L h in Ret (0, L\<lparr>polls := (polls L)(h := cb)\<rparr>)))))"

definition uv__poll_close :: "('m) udp_loop_scheme \<Rightarrow> nat \<Rightarrow> ('m) udp_loop_scheme outcome" where
  "uv__poll_close L h = uv__poll_stop L h"

section \<open>The checks of uv-common.c\<close>

definition checked :: "uv_handle_type \<Rightarrow> int \<Rightarrow> uv_err_code \<Rightarrow> int \<Rightarrow> ('m) udp_loop_scheme \<Rightarrow> nat \<Rightarrow>
    (int \<times> ('m) udp_loop_scheme) outcome \<Rightarrow> (int \<times> ('m) udp_loop_scheme) outcome" where
  "checked ty wanted e family L h k =
     (if h_type (handles L h) \<noteq> ty \<or> family \<noteq> wanted then Ret (- 1, snd (uv__set_artificial_error L e)) else k)"

definition uv_tcp_bind :: "('m) udp_loop_scheme \<Rightarrow> nat \<Rightarrow> int \<Rightarrow> string \<Rightarrow> (int \<times> ('m) udp_loop_scheme) outcome" where
  "uv_tcp_bind L h family addr = checked UV_TCP AF_INET UV_EFAULT family L h (uv__tcp_bind L h addr)"

definition uv_tcp_bind6 :: "('m) udp_loop_scheme \<Rightarrow> nat \<Rightarrow> int \<Rightarrow> string \<Rightarrow> (int \<times> ('m) udp_loop_scheme) outcome" where
  "uv_tcp_bind6 L h family addr = checked UV_TCP AF_INET6 UV_EFAULT family L h (uv__tcp_bind6 L h addr)"

definition uv_udp_bind :: "('m) udp_loop_scheme \<Rightarrow> nat \<Rightarrow> int \<Rightarrow> string \<Rightarrow> uint32 \<Rightarrow> (int \<times> ('m) udp_loop_scheme) outcome" where
  "uv_udp_bind L h family addr flags = checked UV_UDP AF_INET UV_EFAULT family L h (uv__udp_bind L h addr flags)"

definition uv_udp_bind6 :: "('m) udp_loop_scheme \<Rightarrow> nat \<Rightarrow> int \<Rightarrow> string \<Rightarrow> uint32 \<Rightarrow> (int \<times> ('m) udp_loop_scheme) outcome" where
  "uv_udp_bind6 L h family addr flags = checked UV_UDP AF_INET6 UV_EFAULT family L h (uv__udp_bind6 L h addr flags)"

definition uv_tcp_connect :: "('m) udp_loop_scheme \<Rightarrow> nat \<Rightarrow> nat \<Rightarrow> int \<Rightarrow> string \<Rightarrow> nat option \<Rightarrow>
    (int \<times> ('m) udp_loop_scheme) outcome" where
  "uv_tcp_connect L r h family addr cb = checked UV_TCP AF_INET UV_EINVAL family L h (uv__tcp_connect L r h addr cb)"

definition uv_tcp_connect6 :: "('m) udp_loop_scheme \<Rightarrow> nat \<Rightarrow> nat \<Rightarrow> int \<Rightarrow> string \<Rightarrow> nat option \<Rightarrow>
    (int \<times> ('m) udp_loop_scheme) outcome" where
  "uv_tcp_connect6 L r h family addr cb = checked UV_TCP AF_INET6 UV_EINVAL family L h (uv__tcp_connect6 L r h addr cb)"


section \<open>Datagrams go out in order\<close>

definition datagram :: "('m) udp_loop_scheme \<Rightarrow> nat \<Rightarrow> nat \<Rightarrow> sysc" where
  "datagram L h r = Sys_sendto (w_fd (ios L h)) (us_bufs (usends L r)) (us_addr (usends L r))"

definition final_status :: "answer \<Rightarrow> int" where
  "final_status a = (case a of Err e \<Rightarrow> - e | Val n \<Rightarrow> n | _ \<Rightarrow> 0)"

definition final_answer :: "answer \<Rightarrow> bool" where
  "final_answer a \<longleftrightarrow> a \<noteq> Err EINTR \<and> a \<noteq> Err EAGAIN"

text \<open>What one run of \<open>uv__udp_run_pending\<close> does: \<open>k\<close> datagrams of the queue are over.\<close>

definition pending_run :: "('m) udp_loop_scheme \<Rightarrow> nat \<Rightarrow> ('m) udp_loop_scheme \<Rightarrow> bool" where
  "pending_run L h L' \<longleftrightarrow>
     (\<exists>k cs.
        udp_write_queue (udps L' h) = drop k (udp_write_queue (udps L h)) \<and>
        udp_completed_queue (udps L' h) = udp_completed_queue (udps L h) @ take k (udp_write_queue (udps L h)) \<and>
        calls (osys L') = calls (osys L) @ cs \<and>
        map fst (filter (\<lambda>x. final_answer (snd x)) cs) = map (datagram L h) (take k (udp_write_queue (udps L h))) \<and>
        map (\<lambda>r. us_status (usends L' r)) (take k (udp_write_queue (udps L h))) =
          map (\<lambda>x. final_status (snd x)) (filter (\<lambda>x. final_answer (snd x)) cs) \<and>
        (drop k (udp_write_queue (udps L h)) \<noteq> [] \<longrightarrow> cs \<noteq> [] \<and> snd (last cs) = Err EAGAIN) \<and>
        (\<forall>r. r \<notin> set (take k (udp_write_queue (udps L h))) \<longrightarrow> usends L' r = usends L r))"

lemma pending_run_done: "udp_write_queue (udps L h) = [] \<Longrightarrow> pending_run L h L"
  unfolding pending_run_def by (intro exI [of _ 0] exI [of _ "[]"]) simp

definition took_answer :: "answer list \<Rightarrow> sysc \<Rightarrow> answer \<Rightarrow> ('m) udp_loop_scheme \<Rightarrow> ('m) udp_loop_scheme" where
  "took_answer as c a L = L\<lparr>osys := (osys L)\<lparr>script := as, calls := calls (osys L) @ [(c, a)]\<rparr>\<rparr>"

lemma took_answer_frame [simp]:
  "udps (took_answer as c a L) = udps L" "usends (took_answer as c a L) = usends L" "ios (took_answer as c a L) = ios L"
  "calls (osys (took_answer as c a L)) = calls (osys L) @ [(c, a)]" "datagram (took_answer as c a L) h = datagram L h"
  by (auto simp: took_answer_def datagram_def)

lemma pending_run_retry:
  assumes "pending_run (took_answer as c a L) h L'" "\<not> final_answer a"
  shows "pending_run L h L'"
proof -
  from assms(1) obtain k cs where "calls (osys L') = calls (osys L) @ (c, a) # cs"
      "udp_write_queue (udps L' h) = drop k (udp_write_queue (udps L h))"
      "udp_completed_queue (udps L' h) = udp_completed_queue (udps L h) @ take k (udp_write_queue (udps L h))"
      "map fst (filter (\<lambda>x. final_answer (snd x)) cs) = map (datagram L h) (take k (udp_write_queue (udps L h)))"
      "map (\<lambda>r. us_status (usends L' r)) (take k (udp_write_queue (udps L h))) =
         map (\<lambda>x. final_status (snd x)) (filter (\<lambda>x. final_answer (snd x)) cs)"
      "drop k (udp_write_queue (udps L h)) \<noteq> [] \<longrightarrow> cs \<noteq> [] \<and> snd (last cs) = Err EAGAIN"
      "\<forall>r. r \<notin> set (take k (udp_write_queue (udps L h))) \<longrightarrow> usends L' r = usends L r"
    unfolding pending_run_def by auto
  then show ?thesis
    unfolding pending_run_def using assms(2) by (intro exI [of _ k] exI [of _ "(c, a) # cs"]) simp
qed

lemma pending_run_stop:
  assumes "udp_write_queue (udps L h) = r # rs"
  shows "pending_run L h (took_answer as c (Err EAGAIN) L)"
  unfolding pending_run_def by (intro exI [of _ 0] exI [of _ "[(c, Err EAGAIN)]"]) (simp add: final_answer_def)

lemma pending_run_sent:
  assumes q: "udp_write_queue (udps L h) = r # rs" "r \<notin> set rs" and c: "c = datagram L h r"
    and run: "pending_run (udp_sent (took_answer as c a L) h r (final_status a)) h L'" and fin: "final_answer a"
  shows "pending_run L h L'"
proof -
  let ?M = "udp_sent (took_answer as c a L) h r (final_status a)"
  have m: "udp_write_queue (udps ?M h) = rs" "udp_completed_queue (udps ?M h) = udp_completed_queue (udps L h) @ [r]"
    "calls (osys ?M) = calls (osys L) @ [(c, a)]" "us_status (usends ?M r) = final_status a"
    "v \<noteq> r \<Longrightarrow> usends ?M v = usends L v" "datagram ?M h v = datagram L h v" for v
    using q by (simp_all add: udp_sent_def upd_udp_def upd_usend_def datagram_def)
  obtain k cs where k: "udp_write_queue (udps L' h) = drop k rs"
      "udp_completed_queue (udps L' h) = udp_completed_queue (udps L h) @ r # take k rs"
      "calls (osys L') = calls (osys L) @ (c, a) # cs"
      "map fst (filter (\<lambda>x. final_answer (snd x)) cs) = map (datagram L h) (take k rs)"
      "map (\<lambda>r. us_status (usends L' r)) (take k rs) = map (\<lambda>x. final_status (snd x)) (filter (\<lambda>x. final_answer (snd x)) cs)"
      "drop k rs \<noteq> [] \<longrightarrow> cs \<noteq> [] \<and> snd (last cs) = Err EAGAIN"
      "\<forall>v. v \<notin> set (take k rs) \<longrightarrow> usends L' v = usends ?M v"
    using run unfolding pending_run_def m by auto
  have "r \<notin> set (take k rs)" using q(2) by (meson in_set_takeD)
  then have "us_status (usends L' r) = final_status a" using k(7) m(4) by simp
  then show ?thesis
    unfolding pending_run_def using k q fin c m(5)
    by (intro exI [of _ "Suc k"] exI [of _ "(c, a) # cs"]) simp
qed

lemma udp_run_pending_on_run:
  "udp_run_pending_on as L h = Ret L' \<Longrightarrow> distinct (udp_write_queue (udps L h)) \<Longrightarrow> pending_run L h L'"
proof (induction as arbitrary: L)
  case Nil
  then show ?case
    by (subst (asm) udp_run_pending_on.simps) (simp add: pending_run_done split: list.splits)
next
  case (Cons a as)
  show ?case
  proof (cases "udp_write_queue (udps L h)")
    case Nil
    then show ?thesis using Cons.prems(1)
      by (subst (asm) udp_run_pending_on.simps) (simp add: pending_run_done)
  next
    case q: (Cons r rs)
    let ?L = "took_answer as (datagram L h r) a L"
    have d: "distinct rs" "r \<notin> set rs" using Cons.prems(2) q by auto
    have sent: "pending_run L h L'"
      if "udp_run_pending_on as (udp_sent ?L h r (final_status a)) h = Ret L'" "final_answer a"
      using pending_run_sent [OF q d(2) refl _ that(2)] Cons.IH [OF that(1)] q d(1)
      by (simp add: udp_sent_def upd_udp_def upd_usend_def)
    have step: "udp_run_pending_on (a # as) L h = (case a of
        Err e \<Rightarrow> if e = EINTR then udp_run_pending_on as ?L h else if e = EAGAIN then Ret ?L
                 else udp_run_pending_on as (udp_sent ?L h r (- e)) h
      | Val n \<Rightarrow> assert_that (n = int (uv__buf_count (us_bufs (usends L r)))) (udp_run_pending_on as (udp_sent ?L h r n) h)
      | _ \<Rightarrow> Abort)"
      by (subst udp_run_pending_on.simps; cases a) (simp_all add: q took_answer_def datagram_def Let_def)
    show ?thesis
    proof (cases a)
      case (Err e)
      consider "e = EINTR" | "e = EAGAIN" | "e \<noteq> EINTR" "e \<noteq> EAGAIN" by blast
      then show ?thesis
      proof cases
        case 1
        then have "pending_run ?L h L'" using Cons.IH [of ?L] Cons.prems step Err by simp
        then show ?thesis by (rule pending_run_retry) (simp add: final_answer_def Err 1)
      next
        case 2
        then show ?thesis using Cons.prems(1) step Err pending_run_stop [OF q] by auto
      next
        case 3
        then show ?thesis using Cons.prems(1) step Err sent by (simp add: final_status_def final_answer_def)
      qed
    next
      case (Val n)
      then have "udp_run_pending_on as (udp_sent ?L h r n) h = Ret L'"
        using Cons.prems(1) unfolding step by (auto simp: Val)
      then show ?thesis using sent Val by (simp add: final_status_def final_answer_def)
    qed (use Cons.prems(1) step in simp_all)
  qed
qed

text \<open>
  C37. \<open>uv__udp_run_pending\<close> hands the datagrams to the kernel in the order of the queue, each in
  one call that the kernel answers for good, whole and once: those over move to the completed queue,
  in order, with what the kernel answered as their status, the others stay where they are, untouched,
  and some stay only when the kernel said \<open>EAGAIN\<close>.
\<close>

theorem uv__udp_run_pending_fifo:
  assumes "uv__udp_run_pending L h = Ret L'" "distinct (udp_write_queue (udps L h))"
  shows "\<exists>k cs.
    udp_write_queue (udps L' h) = drop k (udp_write_queue (udps L h)) \<and>
    udp_completed_queue (udps L' h) = udp_completed_queue (udps L h) @ take k (udp_write_queue (udps L h)) \<and>
    calls (osys L') = calls (osys L) @ cs \<and>
    map fst (filter (\<lambda>x. final_answer (snd x)) cs) = map (datagram L h) (take k (udp_write_queue (udps L h))) \<and>
    map (\<lambda>r. us_status (usends L' r)) (take k (udp_write_queue (udps L h))) =
      map (\<lambda>x. final_status (snd x)) (filter (\<lambda>x. final_answer (snd x)) cs) \<and>
    (drop k (udp_write_queue (udps L h)) \<noteq> [] \<longrightarrow> cs \<noteq> [] \<and> snd (last cs) = Err EAGAIN) \<and>
    (\<forall>r. r \<notin> set (take k (udp_write_queue (udps L h))) \<longrightarrow> usends L' r = usends L r)"
  using udp_run_pending_on_run [OF assms(1) [unfolded uv__udp_run_pending_def] assms(2)]
  unfolding pending_run_def .

section \<open>A failed bind\<close>

definition bind_failed :: "('m) udp_loop_scheme \<Rightarrow> nat \<Rightarrow> ('m) udp_loop_scheme \<Rightarrow> bool" where
  "bind_failed L h L' \<longleftrightarrow> w_fd (ios L' h) = - 1 \<and> watchers L' = watchers L \<and>
     (\<exists>a. (Sys_close (w_fd (ios L h)), a) \<in> set (calls (osys L')))"

lemma sys_Ret: "sys c s = Ret (a, s') \<longleftrightarrow> (\<exists>as. script s = a # as \<and> s' = s\<lparr>script := as, calls := calls s @ [(c, a)]\<rparr>)"
  by (auto simp: sys_def split: list.splits)

lemma udp_bind_fails_Ret:
  assumes "udp_bind_fails M h e = Ret (x, L')" "ios M = ios L" "watchers M = watchers L"
  shows "x = - 1 \<and> bind_failed L h L'"
  using assms
  by (auto simp: udp_bind_fails_def obind_eq_Ret on_os_def sys_Ret bind_failed_def set_fd_def set_io_def
      uv__set_sys_error_def uv__set_error_def)

lemma opt_or_fail_Ret:
  assumes "opt_or_fail wanted M h c k = Ret (x, L')" "ios M = ios L" "watchers M = watchers L"
    and "\<And>N. ios N = ios L \<Longrightarrow> watchers N = watchers L \<Longrightarrow> k N = Ret (x, L') \<Longrightarrow> x = 0 \<or> bind_failed L h L'"
  shows "x = 0 \<or> bind_failed L h L'"
proof (cases wanted)
  case False
  then show ?thesis using assms by (simp add: opt_or_fail_def)
next
  case True
  then obtain r N where N: "on_os (sys c) M = Ret (r, N)"
      "(if failed r then udp_bind_fails N h (answer_errno r) else k N) = Ret (x, L')"
    using assms(1) by (auto simp: opt_or_fail_def obind_eq_Ret)
  then have "ios N = ios L" "watchers N = watchers L"
    using assms(2,3) by (auto simp: on_os_def obind_eq_Ret)
  then show ?thesis using N(2) assms(4) udp_bind_fails_Ret [of N h _ x L' L] by (auto split: if_splits)
qed

lemma handle_stop_watchers [simp]: "watchers (uv__handle_stop L h) = watchers L" "ios (uv__handle_stop L h) = ios L"
  by (simp_all add: uv__handle_stop_def uv__active_handle_rm_def set_flags_def Let_def)

lemma bind_udp_Ret:
  assumes "uv__bind_udp L h family addr flags = Ret (x, L')" "w_fd (ios L h) \<noteq> - 1"
  shows "x = 0 \<or> bind_failed L h L'"
proof (cases "flags AND NOT UV_UDP_IPV6ONLY \<noteq> 0 \<or> flag_on flags UV_UDP_IPV6ONLY \<and> family \<noteq> AF_INET6")
  case True
  then have "udp_bind_fails L h EINVAL = Ret (x, L')" using assms(1) by (auto simp: uv__bind_udp_def split: if_splits)
  then show ?thesis using udp_bind_fails_Ret by blast
next
  case False
  then have "udp_bind_fd L h addr flags = Ret (x, L')"
    using assms False by (auto simp: uv__bind_udp_def split: if_splits)
  note r = this [unfolded udp_bind_fd_def Let_def]
  show ?thesis
    by (rule opt_or_fail_Ret [OF r refl refl], rule opt_or_fail_Ret, assumption+,
        rule opt_or_fail_Ret, assumption+, rule opt_or_fail_Ret, assumption+) simp
qed

text \<open>
  A \<open>bind\<close> that fails on a socket that is already open and watched (after a deferred bind, say)
  closes the descriptor and forgets it, but leaves its entry in the table of watchers, and closing the
  handle afterwards does not remove it either: the table keeps pointing to a closed handle.
\<close>

theorem uv__bind_udp_failure_leaves_watcher:
  assumes "uv__bind_udp L h family addr flags = Ret (x, L')" "x \<noteq> 0"
    and "w_fd (ios L h) = fd" "0 \<le> fd" "watchers L ! nat fd = Some h"
  shows "w_fd (ios L' h) = - 1 \<and> (\<exists>a. (Sys_close fd, a) \<in> set (calls (osys L'))) \<and>
    watchers L' ! nat fd = Some h \<and> (\<forall>L''. uv__udp_close L' h = Ret L'' \<longrightarrow> watchers L'' ! nat fd = Some h)"
proof -
  have "x = 0 \<or> bind_failed L h L'"
    by (rule bind_udp_Ret [OF assms(1)]) (use assms(3,4) in simp)
  then have f: "bind_failed L h L'" using assms(2) by simp
  have "watchers L'' = watchers L'" if "uv__udp_close L' h = Ret L''" for L''
    using that f
    by (auto simp: uv__udp_close_def uv__io_close_def uv__io_stop_def bind_failed_def obind_eq_Ret on_os_def
        sys_Ret set_fd_def set_io_def split: if_splits)
  then show ?thesis using f assms(3,5) by (auto simp: bind_failed_def)
qed


text \<open>A UDP handle with an open, watched socket; the kernel refuses to bind it again.\<close>

definition bound_udp :: "answer list \<Rightarrow> udp_loop" where
  "bound_udp as = (stream_loop.extend (open_stream as)
     (udp_loop.fields
        (\<lambda>_. \<lparr>udp_alloc_cb = Some 1, udp_recv_cb = Some 1, udp_write_queue = [7, 8], udp_completed_queue = []\<rparr>)
        (\<lambda>_. \<lparr>us_bufs = [[42]], us_addr = [], us_status = 0, us_cb = None, us_handle = 5\<rparr>) (\<lambda>_. None) False))
     \<lparr>handles := (\<lambda>_. \<lparr>h_type = UV_UDP, h_flags = 0, h_close_cb = None\<rparr>),
      watchers := [None, None, None, Some 5], nwatchers := 4, nfds := 1\<rparr>"

lemma bound_udp_simps [simp]:
  "udp_write_queue (udps (bound_udp as) h) = [7, 8]" "us_bufs (usends (bound_udp as) r) = [[42]]"
  "osys (bound_udp as) = \<lparr>script = as, calls = [], no_accept4 = False, no_cloexec = False, no_pipe2 = False\<rparr>"
  "w_fd (ios (bound_udp as) h) = 3" "watchers (bound_udp as) = [None, None, None, Some 5]"
  "so_reuseport (bound_udp as) = False"
  by (simp_all add: bound_udp_def open_stream_def stream_loop.defs udp_loop.defs async_loop.defs lw_loop.defs one_async_def)

lemma uv__udp_run_pending_fifo_witness:
  "\<exists>(L' :: udp_loop) k cs. udp_write_queue (udps L' 5) = drop k [7, 8] \<and> udp_completed_queue (udps L' 5) = take k [7, 8] \<and>
     calls (osys L') = cs \<and> (drop k [7, 8::nat] \<noteq> [] \<longrightarrow> snd (last cs) = Err EAGAIN)"
proof -
  have "\<exists>L'. uv__udp_run_pending (bound_udp [Val 1, Err EAGAIN]) 5 = Ret L'"
    by (simp add: uv__udp_run_pending_def udp_run_pending_on.simps uv__buf_count_def udp_sent_def upd_udp_def upd_usend_def)
  then obtain L' where L': "uv__udp_run_pending (bound_udp [Val 1, Err EAGAIN]) 5 = Ret L'" by blast
  have "udp_completed_queue (udps (bound_udp [Val 1, Err EAGAIN]) 5) = []" by (simp add: bound_udp_def udp_loop.defs stream_loop.defs)
  from uv__udp_run_pending_fifo [OF L'] obtain k cs where
    "udp_write_queue (udps L' 5) = drop k [7, 8]" "udp_completed_queue (udps L' 5) = take k [7, 8]"
    "calls (osys L') = cs" "drop k [7, 8::nat] \<noteq> [] \<longrightarrow> snd (last cs) = Err EAGAIN"
    using \<open>udp_completed_queue (udps (bound_udp [Val 1, Err EAGAIN]) 5) = []\<close> by auto
  then show ?thesis by blast
qed

lemma uv__bind_udp_failure_leaves_watcher_witness:
  "\<exists>L'. uv__bind_udp (bound_udp [Val 0, Err EINVAL, Val 0]) 5 2 [] 0 = Ret (- 1, L') \<and>
     w_fd (ios L' 5) = - 1 \<and> watchers L' ! 3 = Some 5"
proof -
  have "\<exists>L'. uv__bind_udp (bound_udp [Val 0, Err EINVAL, Val 0]) 5 2 [] 0 = Ret (- 1, L')"
    by (simp add: uv__bind_udp_def udp_bind_fd_def opt_or_fail_def on_os_def sys_def udp_bind_fails_def uv__set_sys_error_def
        uv__set_error_def flag_on_def)
  then obtain L' where L': "uv__bind_udp (bound_udp [Val 0, Err EINVAL, Val 0]) 5 2 [] 0 = Ret (- 1, L')" by blast
  have "w_fd (ios L' 5) = - 1 \<and> watchers L' ! nat 3 = Some 5"
    using uv__bind_udp_failure_leaves_watcher [OF L', of 3] by simp
  with L' show ?thesis by (intro exI [of _ L']) simp
qed

end
