(* ===== verification/Signal.thy ===== *)
theory Signal
  imports Udp_Poll
begin

text \<open>
  Signal watchers: \<open>src/unix/signal.c\<close>. The handler that the kernel runs when a signal arrives
  writes one message for each watcher of the signal to the pipe of the watcher's loop; the loop
  reads the messages and calls back. The watchers of all loops are in one red-black tree, ordered
  by signal, loop and address, under a lock that is a pipe with one byte in it.

  The tree, the lock and the dispositions of the signals belong to the process; the state of a
  loop has them as fields. The bytes in the message pipes are \<open>signal_bytes\<close>, by loop; the kernel's
  answers to \<open>write\<close> and \<open>read\<close> say how many bytes went in or out. \<open>sigfillset\<close> and
  \<open>pthread_sigmask\<close> fail for invalid arguments only and are left out.
\<close>

section \<open>State\<close>

record uv_signal =
  sig_signum :: int
  sig_cb :: nat
  sig_caught :: uint32
  sig_dispatched :: uint32
  sig_loop :: nat

record signal_loop = udp_loop +
  loop_addr :: nat
  sigs :: "nat \<Rightarrow> uv_signal"
  signal_tree :: "nat rb_tree"
  signal_lock_pipefd :: "int \<times> int"
  signal_actions :: "int \<Rightarrow> bool"
  signal_pipefd :: "nat \<Rightarrow> int \<times> int"
  signal_bytes :: "nat \<Rightarrow> byte list"
  signal_io_watcher :: nat

abbreviation (input) CB_SIGNAL_EVENT :: nat where "CB_SIGNAL_EVENT \<equiv> 6"

definition upd_sig :: "nat \<Rightarrow> (uv_signal \<Rightarrow> uv_signal) \<Rightarrow> ('m) signal_loop_scheme \<Rightarrow> ('m) signal_loop_scheme" where
  "upd_sig h f L = L\<lparr>sigs := (sigs L)(h := f (sigs L h))\<rparr>"

definition signum_of :: "('m) signal_loop_scheme \<Rightarrow> nat \<Rightarrow> int" where
  "signum_of L h = sig_signum (sigs L h)"

text \<open>
  A message is the address of the handle, eight bytes, the signal, four bytes, and four bytes
  of padding that \<open>memset\<close> cleared; the least significant byte is first.
\<close>

definition le_bytes :: "nat \<Rightarrow> nat \<Rightarrow> byte list" where
  "le_bytes n x = map (\<lambda>i. of_nat (x div 256 ^ i mod 256)) [0..<n]"

primrec le_nat :: "byte list \<Rightarrow> nat" where
  "le_nat [] = 0"
| "le_nat (b # bs) = unat b + 256 * le_nat bs"

definition signal_msg :: "nat \<Rightarrow> int \<Rightarrow> byte list" where
  "signal_msg h signum = le_bytes 8 h @ le_bytes 4 (nat signum) @ replicate 4 0"

definition msg_handle :: "byte list \<Rightarrow> nat" where
  "msg_handle bs = le_nat (take 8 bs)"

definition msg_signum :: "byte list \<Rightarrow> int" where
  "msg_signum bs = int (le_nat (take 4 (drop 8 bs)))"

section \<open>The lock\<close>

definition uv__signal_lock :: "('m) signal_loop_scheme \<Rightarrow> (int \<times> ('m) signal_loop_scheme) outcome" where
  "uv__signal_lock L =
     obind (on_os (sys_retry (Sys_read (fst (signal_lock_pipefd L)) 1)) L) (\<lambda>(r, L).
       Ret (if failed r then - 1 else 0, L))"

definition uv__signal_unlock :: "('m) signal_loop_scheme \<Rightarrow> (int \<times> ('m) signal_loop_scheme) outcome" where
  "uv__signal_unlock L =
     obind (on_os (sys_retry (Sys_write (snd (signal_lock_pipefd L)) [42])) L) (\<lambda>(r, L).
       Ret (if failed r then - 1 else 0, L))"

definition uv__signal_block_and_lock :: "('m) signal_loop_scheme \<Rightarrow> ('m) signal_loop_scheme outcome" where
  "uv__signal_block_and_lock L =
     obind (uv__signal_lock L) (\<lambda>(r, L). assert_that (r = 0) (Ret L))"

definition uv__signal_unlock_and_unblock :: "('m) signal_loop_scheme \<Rightarrow> ('m) signal_loop_scheme outcome" where
  "uv__signal_unlock_and_unblock L =
     obind (uv__signal_unlock L) (\<lambda>(r, L). assert_that (r = 0) (Ret L))"

definition uv__signal_global_init :: "('m) signal_loop_scheme \<Rightarrow> ('m) signal_loop_scheme outcome" where
  "uv__signal_global_init L =
     obind (on_os (uv__make_pipe 0) L) (\<lambda>(r, L).
       case r of
         Fds a b \<Rightarrow>
           obind (uv__signal_unlock (L\<lparr>signal_lock_pipefd := (a, b)\<rparr>)) (\<lambda>(r, L).
             assert_that (r = 0) (Ret L))
       | _ \<Rightarrow> Abort)"

section \<open>The tree\<close>

text \<open>The comparison reads the signal and the loop of a handle (\<open>key\<close>).\<close>

definition uv__signal_compare :: "(nat \<Rightarrow> int \<times> nat) \<Rightarrow> nat \<Rightarrow> nat \<Rightarrow> int" where
  "uv__signal_compare key a b =
     (if fst (key a) < fst (key b) then - 1
      else if fst (key a) > fst (key b) then 1
      else if snd (key a) < snd (key b) then - 1
      else if snd (key a) > snd (key b) then 1
      else if a < b then - 1
      else if a > b then 1
      else 0)"

definition sig_key :: "('m) signal_loop_scheme \<Rightarrow> nat \<Rightarrow> int \<times> nat" where
  "sig_key L h = (sig_signum (sigs L h), sig_loop (sigs L h))"

text \<open>The local variable \<open>lookup\<close> has the loop \<open>NULL\<close>; its address, 0 here, is never compared with
  that of a handle, whose loop is not \<open>NULL\<close>.\<close>

definition uv__signal_first_handle :: "('m) signal_loop_scheme \<Rightarrow> int \<Rightarrow> nat option" where
  "uv__signal_first_handle L signum =
     (case rb_nfind (uv__signal_compare ((sig_key L)(0 := (signum, 0)))) 0 (signal_tree L) of
        Some h \<Rightarrow> if signum_of L h = signum then Some h else None
      | None \<Rightarrow> None)"

section \<open>The handler\<close>

text \<open>One message for one handle. A \<open>write\<close> that the kernel took is in the pipe of the handle's loop.\<close>

definition signal_send :: "('m) signal_loop_scheme \<Rightarrow> nat \<Rightarrow> int \<Rightarrow> ('m) signal_loop_scheme outcome" where
  "signal_send L h signum =
     (let loop = sig_loop (sigs L h); msg = signal_msg h signum
      in obind (on_os (sys_retry (Sys_write (snd (signal_pipefd L loop)) msg)) L) (\<lambda>(r, L).
           case r of
             Val n \<Rightarrow>
               assert_that (n = int (length msg))
                 (Ret (upd_sig h (\<lambda>s. s\<lparr>sig_caught := sig_caught s + 1\<rparr>)
                   (L\<lparr>signal_bytes := (signal_bytes L)(loop := signal_bytes L loop @ msg)\<rparr>)))
           | Err e \<Rightarrow> assert_that (e \<noteq> EAGAIN) (Ret L)
           | _ \<Rightarrow> Abort))"

partial_function (option) signal_send_all ::
    "('m) signal_loop_scheme \<Rightarrow> nat option \<Rightarrow> int \<Rightarrow> ('m) signal_loop_scheme run" where
  "signal_send_all L hp signum =
     (case hp of
        None \<Rightarrow> Some (Ret L)
      | Some h \<Rightarrow>
          if signum_of L h \<noteq> signum then Some (Ret L)
          else rbind (Some (signal_send L h signum)) (\<lambda>L.
            signal_send_all L (rb_next h (signal_tree L)) signum))"

text \<open>The handler does not look at the results of the lock.\<close>

definition uv__signal_handler :: "('m) signal_loop_scheme \<Rightarrow> int \<Rightarrow> ('m) signal_loop_scheme run" where
  "uv__signal_handler L signum =
     rbind (Some (uv__signal_lock L)) (\<lambda>(_, L).
     rbind (signal_send_all L (uv__signal_first_handle L signum) signum) (\<lambda>L.
       Some (obind (uv__signal_unlock L) (\<lambda>(_, L). Ret L))))"

definition uv__signal_register_handler :: "int \<Rightarrow> ('m) signal_loop_scheme \<Rightarrow> (uv_err \<times> ('m) signal_loop_scheme) outcome" where
  "uv__signal_register_handler signum L =
     obind (on_os (sys (Sys_sigaction signum True)) L) (\<lambda>(r, L).
       case r of
         Err e \<Rightarrow> Ret (uv__new_sys_error e, L)
       | _ \<Rightarrow> Ret (uv_ok_err, L\<lparr>signal_actions := (signal_actions L)(signum := True)\<rparr>))"

definition uv__signal_unregister_handler :: "int \<Rightarrow> ('m) signal_loop_scheme \<Rightarrow> ('m) signal_loop_scheme outcome" where
  "uv__signal_unregister_handler signum L =
     obind (on_os (sys (Sys_sigaction signum False)) L) (\<lambda>(r, L).
       assert_that (\<not> failed r) (Ret (L\<lparr>signal_actions := (signal_actions L)(signum := False)\<rparr>)))"

section \<open>Starting and stopping\<close>

definition uv__signal_loop_once_init :: "('m) signal_loop_scheme \<Rightarrow> (answer \<times> ('m) signal_loop_scheme) outcome" where
  "uv__signal_loop_once_init L =
     (if fst (signal_pipefd L (loop_addr L)) \<noteq> - 1 then Ret (Val 0, L)
      else obind (on_os (uv__make_pipe UV__F_NONBLOCK) L) (\<lambda>(r, L).
        case r of
          Fds a b \<Rightarrow>
            let L = L\<lparr>signal_pipefd := (signal_pipefd L)(loop_addr L := (a, b)),
                      signal_bytes := (signal_bytes L)(loop_addr L := [])\<rparr>
            in obind (uv__io_init L (signal_io_watcher L) (Some CB_SIGNAL_EVENT) a) (\<lambda>L.
               obind (uv__io_start L (signal_io_watcher L) UV__POLLIN) (\<lambda>L. Ret (Val 0, L)))
        | _ \<Rightarrow> Ret (r, L)))"

definition uv_signal_init :: "('m) signal_loop_scheme \<Rightarrow> nat \<Rightarrow> (int \<times> ('m) signal_loop_scheme) outcome" where
  "uv_signal_init L h =
     obind (uv__signal_loop_once_init L) (\<lambda>(r, L).
       case r of
         Err e \<Rightarrow> Ret (uv__set_sys_error L e)
       | _ \<Rightarrow>
           let L = uv__handle_init L h UV_SIGNAL
           in Ret (0, upd_sig h (\<lambda>s. s\<lparr>sig_signum := 0, sig_caught := 0, sig_dispatched := 0,
                sig_loop := loop_addr L\<rparr>) L))"

definition uv__signal_stop :: "('m) signal_loop_scheme \<Rightarrow> nat \<Rightarrow> ('m) signal_loop_scheme outcome" where
  "uv__signal_stop L h =
     (if signum_of L h = 0 then Ret L
      else
        obind (uv__signal_block_and_lock L) (\<lambda>L.
        obind (ptr_ok (rb_remove h (signal_tree L))) (\<lambda>t.
          let L = L\<lparr>signal_tree := t\<rparr>; signum = signum_of L h
          in obind (if uv__signal_first_handle L signum = None
                    then uv__signal_unregister_handler signum L else Ret L) (\<lambda>L.
             obind (uv__signal_unlock_and_unblock L) (\<lambda>L.
               Ret (uv__handle_stop (upd_sig h (\<lambda>s. s\<lparr>sig_signum := 0\<rparr>) L) h))))))"

definition uv_signal_stop :: "('m) signal_loop_scheme \<Rightarrow> nat \<Rightarrow> (int \<times> ('m) signal_loop_scheme) outcome" where
  "uv_signal_stop L h =
     assert_that (\<not> flag_on (flags_of L h) (UV_CLOSING OR UV_CLOSED))
       (obind (uv__signal_stop L h) (\<lambda>L. Ret (0, L)))"

definition uv__signal_close :: "('m) signal_loop_scheme \<Rightarrow> nat \<Rightarrow> ('m) signal_loop_scheme outcome" where
  "uv__signal_close L h =
     obind (uv__signal_stop L h) (\<lambda>L.
       if sig_caught (sigs L h) = sig_dispatched (sigs L h) then uv__make_close_pending L h else Ret L)"

text \<open>The part of \<open>uv_signal_start\<close> that needs the lock, and what follows it.\<close>

definition signal_start_locked :: "('m) signal_loop_scheme \<Rightarrow> nat \<Rightarrow> int \<Rightarrow> (int \<times> ('m) signal_loop_scheme) outcome" where
  "signal_start_locked L h signum =
     obind (uv__signal_block_and_lock L) (\<lambda>L.
     obind (if uv__signal_first_handle L signum = None
            then uv__signal_register_handler signum L else Ret (uv_ok_err, L)) (\<lambda>(err, L).
       if err_code err \<noteq> UV_OK
       then obind (uv__signal_unlock_and_unblock (L\<lparr>last_err := err\<rparr>)) (\<lambda>L. Ret (- 1, L))
       else
         let L = upd_sig h (\<lambda>s. s\<lparr>sig_signum := signum\<rparr>) L
         in obind (ptr_ok (rb_insert (uv__signal_compare (sig_key L)) h (signal_tree L))) (\<lambda>(_, t).
            obind (uv__signal_unlock_and_unblock (L\<lparr>signal_tree := t\<rparr>)) (\<lambda>L. Ret (0, L)))))"

definition uv_signal_start :: "('m) signal_loop_scheme \<Rightarrow> nat \<Rightarrow> nat \<Rightarrow> int \<Rightarrow> (int \<times> ('m) signal_loop_scheme) outcome" where
  "uv_signal_start L h cb signum =
     assert_that (\<not> flag_on (flags_of L h) (UV_CLOSING OR UV_CLOSED))
       (if signum = 0 then Ret (uv__set_artificial_error L UV_EINVAL)
        else if signum = signum_of L h then Ret (0, upd_sig h (\<lambda>s. s\<lparr>sig_cb := cb\<rparr>) L)
        else
          obind (if signum_of L h \<noteq> 0 then uv__signal_stop L h else Ret L) (\<lambda>L.
          obind (signal_start_locked L h signum) (\<lambda>(r, L).
            if r \<noteq> 0 then Ret (r, L)
            else Ret (0, uv__handle_start (upd_sig h (\<lambda>s. s\<lparr>sig_cb := cb\<rparr>) L) h))))"

text \<open>\<open>uv__signal_loop_cleanup\<close> walks over the handles of the loop; stopping a handle does not
  change their queue.\<close>

primrec signal_stop_all :: "nat list \<Rightarrow> ('m) signal_loop_scheme \<Rightarrow> ('m) signal_loop_scheme outcome" where
  "signal_stop_all [] L = Ret L"
| "signal_stop_all (h # hs) L =
     obind (if h_type (handles L h) = UV_SIGNAL then uv__signal_stop L h else Ret L) (signal_stop_all hs)"

definition loop_close_fd :: "int \<Rightarrow> ('m) net_loop_scheme \<Rightarrow> ('m) net_loop_scheme outcome" where
  "loop_close_fd fd L = obind (on_os (sys (Sys_close fd)) L) (\<lambda>(_, L). Ret L)"

definition uv__signal_loop_cleanup :: "('m) signal_loop_scheme \<Rightarrow> ('m) signal_loop_scheme outcome" where
  "uv__signal_loop_cleanup L =
     obind (signal_stop_all (handle_queue L) L) (\<lambda>L.
     let me = loop_addr L in
     obind (if fst (signal_pipefd L me) \<noteq> - 1
            then obind (loop_close_fd (fst (signal_pipefd L me)) L) (\<lambda>L.
              Ret (L\<lparr>signal_pipefd := (signal_pipefd L)(me := (- 1, snd (signal_pipefd L me)))\<rparr>))
            else Ret L) (\<lambda>L.
       if snd (signal_pipefd L me) \<noteq> - 1
       then obind (loop_close_fd (snd (signal_pipefd L me)) L) (\<lambda>L.
         Ret (L\<lparr>signal_pipefd := (signal_pipefd L)(me := (fst (signal_pipefd L me), - 1))\<rparr>))
       else Ret L))"

section \<open>Dispatching\<close>

text \<open>
  One message: \<open>user c h s L\<close> is the callback \<open>c\<close> of the handle \<open>h\<close>. The second half counts
  the message and ends a close that waited for it.
\<close>

definition signal_call :: "(nat \<Rightarrow> nat \<Rightarrow> int \<Rightarrow> ('m) signal_loop_scheme \<Rightarrow> ('m) signal_loop_scheme outcome) \<Rightarrow>
    byte list \<Rightarrow> ('m) signal_loop_scheme \<Rightarrow> ('m) signal_loop_scheme outcome" where
  "signal_call user msg L =
     (let h = msg_handle msg
      in if msg_signum msg = signum_of L h
         then assert_that (\<not> flag_on (flags_of L h) UV_CLOSING) (user (sig_cb (sigs L h)) h (signum_of L h) L)
         else Ret L)"

definition signal_count :: "nat \<Rightarrow> ('m) signal_loop_scheme \<Rightarrow> ('m) signal_loop_scheme outcome" where
  "signal_count h L =
     (let L = upd_sig h (\<lambda>s. s\<lparr>sig_dispatched := sig_dispatched s + 1\<rparr>) L
      in if flag_on (flags_of L h) UV_CLOSING \<and> sig_caught (sigs L h) = sig_dispatched (sigs L h)
         then uv__make_close_pending L h else Ret L)"

definition signal_msg_size :: nat where
  "signal_msg_size = 16"

text \<open>The loop over the whole messages in the first \<open>n * 16\<close> bytes of the buffer.\<close>

primrec signal_dispatch :: "(nat \<Rightarrow> nat \<Rightarrow> int \<Rightarrow> ('m) signal_loop_scheme \<Rightarrow> ('m) signal_loop_scheme outcome) \<Rightarrow>
    nat \<Rightarrow> byte list \<Rightarrow> ('m) signal_loop_scheme \<Rightarrow> ('m) signal_loop_scheme outcome" where
  "signal_dispatch user 0 buf L = Ret L"
| "signal_dispatch user (Suc n) buf L =
     obind (signal_call user (take signal_msg_size buf) L) (\<lambda>L.
     obind (signal_count (msg_handle (take signal_msg_size buf)) L) (\<lambda>L.
       signal_dispatch user n (drop signal_msg_size buf) L))"

text \<open>
  One turn of the loop around \<open>read\<close>; it returns from the function (\<open>None\<close>) or comes to the
  condition of the loop. \<open>buf\<close> holds the bytes left from the last turn; \<open>lim\<close> is the variable
  \<open>end\<close>, which the condition reads after every \<open>continue\<close>, also before it was set.
\<close>

definition signal_event_turn ::
    "(nat \<Rightarrow> nat \<Rightarrow> int \<Rightarrow> ('m) signal_loop_scheme \<Rightarrow> ('m) signal_loop_scheme outcome) \<Rightarrow>
     byte list \<Rightarrow> nat \<Rightarrow> ('m) signal_loop_scheme \<Rightarrow> ((byte list \<times> nat) option \<times> ('m) signal_loop_scheme) outcome" where
  "signal_event_turn user buf lim L =
     (let me = loop_addr L
      in obind (on_os (sys (Sys_read (fst (signal_pipefd L me)) (32 * signal_msg_size - length buf))) L)
        (\<lambda>(r, L).
          case r of
            Err e \<Rightarrow>
              if e = EINTR then Ret (Some (buf, lim), L)
              else if e = EAGAIN then Ret (if buf \<noteq> [] then Some (buf, lim) else None, L)
              else Abort
          | Val n \<Rightarrow>
              let buf = buf @ take (nat n) (signal_bytes L me);
                  L = L\<lparr>signal_bytes := (signal_bytes L)(me := drop (nat n) (signal_bytes L me))\<rparr>;
                  msgs = length buf div signal_msg_size;
                  lim = msgs * signal_msg_size
              in obind (signal_dispatch user msgs buf L) (\<lambda>L. Ret (Some (drop lim buf, lim), L))
          | _ \<Rightarrow> Abort))"

partial_function (option) signal_event_loop ::
    "(nat \<Rightarrow> nat \<Rightarrow> int \<Rightarrow> ('m) signal_loop_scheme \<Rightarrow> ('m) signal_loop_scheme outcome) \<Rightarrow>
     byte list \<Rightarrow> nat \<Rightarrow> ('m) signal_loop_scheme \<Rightarrow> ('m) signal_loop_scheme run" where
  "signal_event_loop user buf lim L =
     rbind (Some (signal_event_turn user buf lim L)) (\<lambda>(go, L).
       case go of
         None \<Rightarrow> Some (Ret L)
       | Some (buf, lim) \<Rightarrow>
           if lim = 32 * signal_msg_size then signal_event_loop user buf lim L else Some (Ret L))"

definition uv__signal_event ::
    "(nat \<Rightarrow> nat \<Rightarrow> int \<Rightarrow> ('m) signal_loop_scheme \<Rightarrow> ('m) signal_loop_scheme outcome) \<Rightarrow>
     nat \<Rightarrow> ('m) signal_loop_scheme \<Rightarrow> ('m) signal_loop_scheme run" where
  "uv__signal_event user uninit L = signal_event_loop user [] uninit L"

end
