(* ===== verification/Process.thy ===== *)
theory Process
  imports Signal
begin

text \<open>
  Child processes: \<open>src/unix/process.c\<close>. \<open>uv_spawn\<close> makes the pipes for the standard streams,
  forks, and waits on a pipe until the child has called \<open>execvp\<close> or written the error that kept
  it from doing so; the watcher of \<open>SIGCHLD\<close> reaps children and calls their exit callbacks.

  \<open>fork\<close> answers 0 in the child: \<open>uv_spawn\<close> then ends in the child, with a new program or with
  \<open>_exit\<close>, and the script has the answers that the child gets. The answer of \<open>waitpid\<close> is
  the pair of process and status, or 0; the answer of the \<open>read\<close> that waits for the child is a
  number or a message with the integer that came.
\<close>

section \<open>State\<close>

record uv_process =
  p_pid :: int
  p_errorno :: int
  p_exit_cb :: "nat option"

text \<open>\<open>process_handles\<close> is the array of queues, of length 1 in \<open>uv_loop_t\<close>.\<close>

record process_loop = signal_loop +
  procs :: "nat \<Rightarrow> uv_process"
  process_handles :: "nat list list"
  child_watcher :: nat

abbreviation (input) UV_IGNORE :: uint32 where "UV_IGNORE \<equiv> 0"
abbreviation (input) UV_CREATE_PIPE :: uint32 where "UV_CREATE_PIPE \<equiv> 1"
abbreviation (input) UV_INHERIT_FD :: uint32 where "UV_INHERIT_FD \<equiv> 2"
abbreviation (input) UV_INHERIT_STREAM :: uint32 where "UV_INHERIT_STREAM \<equiv> 4"
abbreviation (input) UV_PROCESS_SETUID :: uint32 where "UV_PROCESS_SETUID \<equiv> 1"
abbreviation (input) UV_PROCESS_SETGID :: uint32 where "UV_PROCESS_SETGID \<equiv> 2"
abbreviation (input) UV_PROCESS_WINDOWS_VERBATIM :: uint32 where "UV_PROCESS_WINDOWS_VERBATIM \<equiv> 4"
abbreviation (input) UV_PROCESS_DETACHED :: uint32 where "UV_PROCESS_DETACHED \<equiv> 8"
abbreviation (input) UV_PROCESS_WINDOWS_HIDE :: uint32 where "UV_PROCESS_WINDOWS_HIDE \<equiv> 16"
abbreviation (input) SIGCHLD :: int where "SIGCHLD \<equiv> 17"
abbreviation (input) CB_CHLD :: nat where "CB_CHLD \<equiv> 7"

text \<open>\<open>c_stream\<close> and \<open>c_fd\<close> are the members of the union \<open>data\<close>; the flags say which one counts.\<close>

record uv_stdio_container =
  c_flags :: uint32
  c_stream :: "nat option"
  c_fd :: int

record uv_process_options =
  o_exit_cb :: "nat option"
  o_file :: "string option"
  o_cwd :: "string option"
  o_flags :: uint32
  o_stdio :: "uv_stdio_container list"
  o_uid :: int
  o_gid :: int

section \<open>Reaping children\<close>

definition uv__process_queue :: "('m) process_loop_scheme \<Rightarrow> int \<Rightarrow> nat outcome" where
  "uv__process_queue L pid =
     assert_that (0 < pid) (Ret (nat (pid mod int (length (process_handles L)))))"

definition uv__process_find :: "('m) process_loop_scheme \<Rightarrow> int \<Rightarrow> nat option outcome" where
  "uv__process_find L pid =
     obind (uv__process_queue L pid) (\<lambda>i.
       Ret (find (\<lambda>h. p_pid (procs L h) = pid) (process_handles L ! i)))"

text \<open>The macros \<open>WIFEXITED\<close>, \<open>WEXITSTATUS\<close>, \<open>WIFSIGNALED\<close> and \<open>WTERMSIG\<close> of the C library.\<close>

definition exit_status_of :: "int \<Rightarrow> int" where
  "exit_status_of status = (if status mod 128 = 0 then status div 256 mod 256 else 0)"

definition term_signal_of :: "int \<Rightarrow> int" where
  "term_signal_of status =
     (if 0 < status mod 128 \<and> status mod 128 < 127 then status mod 128 else 0)"

text \<open>One reaped child; \<open>user c h e s L\<close> is the exit callback \<open>c\<close> of the process \<open>h\<close>.\<close>

definition chld_report :: "(nat \<Rightarrow> nat \<Rightarrow> int \<Rightarrow> int \<Rightarrow> ('m) process_loop_scheme \<Rightarrow> ('m) process_loop_scheme outcome) \<Rightarrow>
    int \<Rightarrow> int \<Rightarrow> ('m) process_loop_scheme \<Rightarrow> ('m) process_loop_scheme outcome" where
  "chld_report user pid status L =
     obind (uv__process_find L pid) (\<lambda>found.
       case found of
         None \<Rightarrow> Ret L
       | Some h \<Rightarrow>
           (case p_exit_cb (procs L h) of
              None \<Rightarrow> Ret L
            | Some c \<Rightarrow>
                if p_errorno (procs L h) \<noteq> 0
                then user c h (- 1) (term_signal_of status) (snd (uv__set_sys_error L (p_errorno (procs L h))))
                else user c h (exit_status_of status) (term_signal_of status) L))"

partial_function (option) chld_loop ::
    "(nat \<Rightarrow> nat \<Rightarrow> int \<Rightarrow> int \<Rightarrow> ('m) process_loop_scheme \<Rightarrow> ('m) process_loop_scheme outcome) \<Rightarrow>
     ('m) process_loop_scheme \<Rightarrow> ('m) process_loop_scheme run" where
  "chld_loop user L =
     rbind (Some (on_os (sys Sys_waitpid) L)) (\<lambda>(r, L).
       case r of
         Val n \<Rightarrow> if n = 0 then Some (Ret L) else Some Abort
       | Err e \<Rightarrow> if e = ECHILD then Some (Ret L) else Some Abort
       | Fds pid status \<Rightarrow> rbind (Some (chld_report user pid status L)) (chld_loop user)
       | Msg n fds \<Rightarrow> Some Abort)"

definition uv__chld :: "(nat \<Rightarrow> nat \<Rightarrow> int \<Rightarrow> int \<Rightarrow> ('m) process_loop_scheme \<Rightarrow> ('m) process_loop_scheme outcome) \<Rightarrow>
    int \<Rightarrow> ('m) process_loop_scheme \<Rightarrow> ('m) process_loop_scheme run" where
  "uv__chld user signum L = (if signum = SIGCHLD then chld_loop user L else Some Abort)"

section \<open>Standard streams\<close>

text \<open>The result is the \<open>errno\<close>, 0 for success, and the pair of descriptors.\<close>

definition uv__process_init_stdio :: "('m) process_loop_scheme \<Rightarrow> uv_stdio_container \<Rightarrow> int \<times> int \<Rightarrow>
    (int \<times> (int \<times> int) \<times> ('m) process_loop_scheme) outcome" where
  "uv__process_init_stdio L c fds =
     (let mode = c_flags c AND (UV_CREATE_PIPE OR UV_INHERIT_FD OR UV_INHERIT_STREAM)
      in if mode = UV_IGNORE then Ret (0, fds, L)
         else if mode = UV_CREATE_PIPE
         then obind (ptr_ok (c_stream c)) (\<lambda>s.
           if h_type (handles L s) \<noteq> UV_NAMED_PIPE then Ret (EINVAL, fds, L)
           else obind (on_os (uv__make_socketpair 0) L) (\<lambda>(r, L).
             case r of
               Fds a b \<Rightarrow> Ret (0, (a, b), L)
             | _ \<Rightarrow> Ret (answer_errno r, fds, L)))
         else if mode = UV_INHERIT_FD \<or> mode = UV_INHERIT_STREAM
         then obind (if flag_on (c_flags c) UV_INHERIT_FD then Ret (c_fd c)
                     else obind (ptr_ok (c_stream c)) (\<lambda>s. Ret (uv__stream_fd L s))) (\<lambda>fd.
           if fd = - 1 then Ret (EINVAL, fds, L) else Ret (0, (fst fds, fd), L))
         else Abort)"

definition uv__process_stdio_flags :: "('m) process_loop_scheme \<Rightarrow> nat \<Rightarrow> bool \<Rightarrow> uint32" where
  "uv__process_stdio_flags L s writable =
     (if h_type (handles L s) = UV_NAMED_PIPE \<and> ipc (streams L s)
      then UV_STREAM_READABLE OR UV_STREAM_WRITABLE
      else if writable then UV_STREAM_WRITABLE
      else UV_STREAM_READABLE)"

definition uv__process_open_stream :: "('m) process_loop_scheme \<Rightarrow> uv_stdio_container \<Rightarrow> int \<times> int \<Rightarrow> bool \<Rightarrow>
    (int \<times> ('m) process_loop_scheme) outcome" where
  "uv__process_open_stream L c fds writable =
     (let (fd, child_fd) = fds
      in if \<not> flag_on (c_flags c) UV_CREATE_PIPE \<or> fd < 0 then Ret (0, L)
         else assert_that (0 \<le> child_fd)
           (obind (loop_close_fd child_fd L) (\<lambda>L.
            obind (on_os (uv__nonblock fd True) L) (\<lambda>(_, L).
            obind (ptr_ok (c_stream c)) (\<lambda>s.
              uv__stream_open L s fd (uv__process_stdio_flags L s writable))))))"

definition uv__process_close_stream :: "('m) process_loop_scheme \<Rightarrow> uv_stdio_container \<Rightarrow> ('m) process_loop_scheme outcome" where
  "uv__process_close_stream L c =
     (if \<not> flag_on (c_flags c) UV_CREATE_PIPE then Ret L
      else obind (ptr_ok (c_stream c)) (uv__stream_close L))"

section \<open>The child\<close>

definition int_bytes :: "int \<Rightarrow> byte list" where
  "int_bytes n = le_bytes 4 (nat (n mod 2 ^ 32))"

definition uv__write_int :: "int \<Rightarrow> int \<Rightarrow> os \<Rightarrow> os outcome" where
  "uv__write_int fd n s =
     obind (sys_retry (Sys_write fd (int_bytes n)) s) (\<lambda>(r, s).
       if r = Err EPIPE then Ret s else assert_that (r = Val 4) (Ret s))"

text \<open>The end of the child: its program was replaced, or it left with a status.\<close>

datatype child_end = Executed | Exited int

definition child_fail :: "int \<Rightarrow> int \<Rightarrow> os \<Rightarrow> (child_end \<times> os) outcome" where
  "child_fail error_fd e s = obind (uv__write_int error_fd e s) (\<lambda>s. Ret (Exited 127, s))"

text \<open>
  The loop over the descriptors, from \<open>fd\<close> on; each pair is what \<open>pipes\<close> has for it. A descriptor
  that could not be opened ends the child (\<open>Inl\<close>).
\<close>

definition child_dup :: "int \<Rightarrow> int \<Rightarrow> os \<Rightarrow> os outcome" where
  "child_dup fd use_fd s =
     obind (if fd = use_fd then obind (uv__cloexec use_fd False s) (\<lambda>(_, s). Ret s)
            else obind (sys (Sys_dup2 use_fd fd) s) (\<lambda>(_, s).
                 obind (sys (Sys_close use_fd) s) (\<lambda>(_, s). Ret s))) (\<lambda>s.
       if fd \<le> 2 then obind (uv__nonblock fd False s) (\<lambda>(_, s). Ret s) else Ret s)"

primrec child_stdio :: "int \<Rightarrow> int \<Rightarrow> (int \<times> int) list \<Rightarrow> os \<Rightarrow> ((child_end + unit) \<times> os) outcome" where
  "child_stdio error_fd fd [] s = Ret (Inr (), s)"
| "child_stdio error_fd fd (p # ps) s =
     (let (close_fd, use_fd) = p
      in if 0 \<le> use_fd
         then obind (sys (Sys_close close_fd) s) (\<lambda>(_, s).
              obind (child_dup fd use_fd s) (child_stdio error_fd (fd + 1) ps))
         else if 3 \<le> fd then child_stdio error_fd (fd + 1) ps s
         else obind (sys (Sys_open ''/dev/null'' (if fd = 0 then O_RDONLY else O_RDWR)) s) (\<lambda>(r, s).
           case r of
             Val n \<Rightarrow> obind (child_dup fd n s) (child_stdio error_fd (fd + 1) ps)
           | _ \<Rightarrow> obind (child_fail error_fd (answer_errno r) s) (\<lambda>(e, s). Ret (Inl e, s))))"

text \<open>A step that ends the child when its call fails.\<close>

definition child_try :: "int \<Rightarrow> sysc option \<Rightarrow> (os \<Rightarrow> (child_end \<times> os) outcome) \<Rightarrow> os \<Rightarrow> (child_end \<times> os) outcome" where
  "child_try error_fd c k s =
     (case c of
        None \<Rightarrow> k s
      | Some c \<Rightarrow>
          obind (sys c s) (\<lambda>(r, s). if failed r then child_fail error_fd (answer_errno r) s else k s))"

definition child_exec :: "uv_process_options \<Rightarrow> int \<Rightarrow> os \<Rightarrow> (child_end \<times> os) outcome" where
  "child_exec opts error_fd s =
     obind (ptr_ok (o_file opts)) (\<lambda>file.
     obind (sys (Sys_execvp file) s) (\<lambda>(r, s).
       case r of
         Err e \<Rightarrow> child_fail error_fd e s
       | _ \<Rightarrow> Ret (Executed, s)))"

definition uv__process_child_init :: "uv_process_options \<Rightarrow> (int \<times> int) list \<Rightarrow> int \<Rightarrow> os \<Rightarrow> (child_end \<times> os) outcome" where
  "uv__process_child_init opts pipes error_fd s =
     obind (if flag_on (o_flags opts) UV_PROCESS_DETACHED
            then obind (sys Sys_setsid s) (\<lambda>(_, s). Ret s) else Ret s) (\<lambda>s.
     obind (child_stdio error_fd 0 pipes s) (\<lambda>(r, s).
       case r of
         Inl e \<Rightarrow> Ret (e, s)
       | Inr _ \<Rightarrow>
           child_try error_fd (map_option Sys_chdir (o_cwd opts))
             (child_try error_fd
                (if flag_on (o_flags opts) UV_PROCESS_SETGID then Some (Sys_setgid (o_gid opts)) else None)
                (child_try error_fd
                   (if flag_on (o_flags opts) UV_PROCESS_SETUID then Some (Sys_setuid (o_uid opts)) else None)
                   (child_exec opts error_fd))) s))"

section \<open>Spawning\<close>

text \<open>The first loop of \<open>uv_spawn\<close> fills \<open>pipes\<close>; it stops with an \<open>errno\<close>.\<close>

primrec spawn_stdio :: "uv_stdio_container list \<Rightarrow> nat \<Rightarrow> (int \<times> int) list \<Rightarrow> ('m) process_loop_scheme \<Rightarrow>
    (int \<times> (int \<times> int) list \<times> ('m) process_loop_scheme) outcome" where
  "spawn_stdio [] i pipes L = Ret (0, pipes, L)"
| "spawn_stdio (c # cs) i pipes L =
     obind (uv__process_init_stdio L c (pipes ! i)) (\<lambda>(e, fds, L).
       let pipes = pipes[i := fds]
       in if e \<noteq> 0 then Ret (e, pipes, L) else spawn_stdio cs (Suc i) pipes L)"

text \<open>The error path: \<open>errno\<close> is in the error of the loop, and every number in \<open>pipes\<close> is closed.\<close>

primrec close_pipes :: "(int \<times> int) list \<Rightarrow> ('m) process_loop_scheme \<Rightarrow> ('m) process_loop_scheme outcome" where
  "close_pipes [] L = Ret L"
| "close_pipes (p # ps) L =
     obind (loop_close_fd (fst p) L) (\<lambda>L. obind (loop_close_fd (snd p) L) (close_pipes ps))"

definition spawn_error :: "int \<Rightarrow> (int \<times> int) list \<Rightarrow> ('m) process_loop_scheme \<Rightarrow> (int \<times> ('m) process_loop_scheme) outcome" where
  "spawn_error e pipes L =
     obind (close_pipes pipes (snd (uv__set_sys_error L e))) (\<lambda>L. Ret (- 1, L))"

text \<open>The loop \<open>while (i--)\<close> after a stream could not be opened; the containers come last first.\<close>

primrec close_streams :: "uv_stdio_container list \<Rightarrow> ('m) process_loop_scheme \<Rightarrow> ('m) process_loop_scheme outcome" where
  "close_streams [] L = Ret L"
| "close_streams (c # cs) L = obind (uv__process_close_stream L c) (close_streams cs)"

text \<open>Opening the parent's ends; \<open>opened\<close> has the containers before this one, last first. The
  \<open>errno\<close> that the error path reports is the one in the loop's error.\<close>

primrec open_streams :: "uv_stdio_container list \<Rightarrow> uv_stdio_container list \<Rightarrow> (int \<times> int) list \<Rightarrow>
    ('m) process_loop_scheme \<Rightarrow> (int \<times> ('m) process_loop_scheme) outcome" where
  "open_streams [] opened pipes L = Ret (0, L)"
| "open_streams (c # cs) opened pipes L =
     obind (uv__process_open_stream L c (hd pipes) (opened = [])) (\<lambda>(r, L).
       if r \<noteq> 0 then obind (close_streams opened L) (\<lambda>L. Ret (r, L))
       else open_streams cs (c # opened) (tl pipes) L)"

text \<open>The \<open>read\<close> that waits until the child has its program: end of file, or the child's error.\<close>

definition wait_child :: "int \<Rightarrow> nat \<Rightarrow> ('m) process_loop_scheme \<Rightarrow> ('m) process_loop_scheme outcome" where
  "wait_child fd h L =
     (let L = L\<lparr>procs := (procs L)(h := (procs L h)\<lparr>p_errorno := 0\<rparr>)\<rparr>
      in obind (on_os (sys_retry (Sys_read fd 4)) L) (\<lambda>(r, L).
        case r of
          Val n \<Rightarrow> assert_that (n = 0) (Ret L)
        | Msg n ints \<Rightarrow>
            assert_that (n = 4)
              (Ret (L\<lparr>procs := (procs L)(h := (procs L h)\<lparr>p_errorno := hd ints\<rparr>)\<rparr>))
        | Err e \<Rightarrow> assert_that (e = EPIPE) (Ret L)
        | Fds a b \<Rightarrow> Abort))"

text \<open>\<open>uv_spawn\<close> returns in the parent and ends in the child.\<close>

datatype 'a spawned = Parent int 'a | Child child_end

definition spawn_parent :: "('m) process_loop_scheme \<Rightarrow> nat \<Rightarrow> uv_process_options \<Rightarrow> (int \<times> int) list \<Rightarrow>
    int \<times> int \<Rightarrow> int \<Rightarrow> (int \<times> ('m) process_loop_scheme) outcome" where
  "spawn_parent L h opts pipes signal_pipe pid =
     obind (loop_close_fd (snd signal_pipe) L) (\<lambda>L.
     obind (wait_child (fst signal_pipe) h L) (\<lambda>L.
     obind (loop_close_fd (fst signal_pipe) L) (\<lambda>L.
     obind (open_streams (o_stdio opts) [] pipes L) (\<lambda>(r, L).
       if r \<noteq> 0 then spawn_error (sys_errno (last_err L)) pipes L
       else obind (uv__process_queue L pid) (\<lambda>i.
         let L = L\<lparr>process_handles := (process_handles L)[i := process_handles L ! i @ [h]],
                   procs := (procs L)(h := (procs L h)\<lparr>p_pid := pid, p_exit_cb := o_exit_cb opts\<rparr>)\<rparr>
         in Ret (0, uv__handle_start L h))))))"

definition spawn_fork :: "('m) process_loop_scheme \<Rightarrow> nat \<Rightarrow> uv_process_options \<Rightarrow> (int \<times> int) list \<Rightarrow>
    int \<times> int \<Rightarrow> (('m) process_loop_scheme) spawned outcome" where
  "spawn_fork L h opts pipes signal_pipe =
     obind (uv_signal_start L (child_watcher L) CB_CHLD SIGCHLD) (\<lambda>(_, L).
     obind (on_os (sys Sys_fork) L) (\<lambda>(r, L).
       case r of
         Val pid \<Rightarrow>
           if pid = 0
           then obind (uv__process_child_init opts pipes (snd signal_pipe) (osys L)) (\<lambda>(e, _). Ret (Child e))
           else obind (spawn_parent L h opts pipes signal_pipe pid) (\<lambda>(r, L). Ret (Parent r L))
       | Err e \<Rightarrow>
           obind (on_os (sys (Sys_close (fst signal_pipe))) L) (\<lambda>(r1, L).
           obind (on_os (sys (Sys_close (snd signal_pipe))) L) (\<lambda>(r2, L).
           obind (spawn_error (if failed r2 then answer_errno r2 else if failed r1 then answer_errno r1 else e)
                    pipes L) (\<lambda>(r, L). Ret (Parent r L))))
       | _ \<Rightarrow> Abort))"

text \<open>\<open>mem\<close> says whether \<open>malloc\<close> finds memory: the error path dereferences \<open>pipes\<close> when not.\<close>

definition uv_spawn :: "bool \<Rightarrow> ('m) process_loop_scheme \<Rightarrow> nat \<Rightarrow> uv_process_options \<Rightarrow>
    (('m) process_loop_scheme) spawned outcome" where
  "uv_spawn mem L h opts =
     assert_that (o_file opts \<noteq> None)
    (assert_that (o_flags opts AND NOT (UV_PROCESS_DETACHED OR UV_PROCESS_SETGID OR UV_PROCESS_SETUID OR
         UV_PROCESS_WINDOWS_HIDE OR UV_PROCESS_WINDOWS_VERBATIM) = 0)
    (assert_that mem
      (let L = uv__handle_init L h UV_PROCESS;
           stdio_count = max 3 (length (o_stdio opts));
           pipes = replicate stdio_count (- 1, - 1)
       in obind (spawn_stdio (o_stdio opts) 0 pipes L) (\<lambda>(e, pipes, L).
            if e \<noteq> 0 then obind (spawn_error e pipes L) (\<lambda>(r, L). Ret (Parent r L))
            else
              let pipes = (snd (hd pipes), fst (hd pipes)) # tl pipes
              in obind (on_os (uv__make_pipe 0) L) (\<lambda>(r, L).
                   case r of
                     Fds a b \<Rightarrow> spawn_fork L h opts pipes (a, b)
                   | _ \<Rightarrow> obind (spawn_error (answer_errno r) pipes L) (\<lambda>(r, L). Ret (Parent r L)))))))"

section \<open>Killing and closing\<close>

definition uv_process_kill :: "('m) process_loop_scheme \<Rightarrow> nat \<Rightarrow> int \<Rightarrow> (int \<times> ('m) process_loop_scheme) outcome" where
  "uv_process_kill L h signum =
     obind (on_os (sys (Sys_kill (p_pid (procs L h)) signum)) L) (\<lambda>(r, L).
       Ret (if failed r then uv__set_sys_error L (answer_errno r) else (0, L)))"

definition uv_kill :: "int \<Rightarrow> int \<Rightarrow> os \<Rightarrow> (uv_err \<times> os) outcome" where
  "uv_kill pid signum s =
     obind (sys (Sys_kill pid signum) s) (\<lambda>(r, s).
       Ret (if failed r then uv__new_sys_error (answer_errno r) else uv_ok_err, s))"

definition uv__process_close :: "('m) process_loop_scheme \<Rightarrow> nat \<Rightarrow> ('m) process_loop_scheme" where
  "uv__process_close L h =
     uv__handle_stop (L\<lparr>process_handles := map (remove1 h) (process_handles L)\<rparr>) h"

end
