(* ===== verification/Fs_Event.thy ===== *)
theory Fs_Event
  imports Process
begin

text \<open>
  File system watchers over inotify, \<open>src/unix/linux/inotify.c\<close>, and terminals,
  \<open>src/unix/tty.c\<close>. The handles that watch the same path share a watch descriptor and a list;
  the lists are in a red-black tree, ordered by descriptor.

  A \<open>watcher_list\<close> has an address; \<open>None\<close> is one that is not allocated. The queue \<open>watchers\<close> of a list
  and the nodes of the handles are kept at pointer level. The bytes that the kernel has ready
  on the inotify descriptor are \<open>inotify_bytes\<close>; the answer to \<open>read\<close> says how many of them come.
  Names are the bytes up to the first NUL.
\<close>

section \<open>State\<close>

datatype fs_node = FS_head nat | FS_node nat

record watcher_list =
  wl_wd :: int
  wl_path :: string

record uv_fs_event =
  fse_wd :: int
  fse_filename :: "string option"
  fse_cb :: nat

record uv_tty =
  tty_mode :: int
  tty_orig :: nat

record fs_event_loop = process_loop +
  inotify_fd :: int
  inotify_read_watcher :: nat
  inotify_watchers :: "nat rb_tree"
  inotify_bytes :: "byte list"
  watcher_lists :: "nat \<Rightarrow> watcher_list option"
  fs_nodes :: "fs_node ngx_heap"
  fs_event_handles :: "nat \<Rightarrow> uv_fs_event"
  ttys :: "nat \<Rightarrow> uv_tty"
  orig_termios_fd :: int
  orig_termios :: nat

abbreviation (input) UV__IN_MODIFY :: uint32 where "UV__IN_MODIFY \<equiv> 0x002"
abbreviation (input) UV__IN_ATTRIB :: uint32 where "UV__IN_ATTRIB \<equiv> 0x004"
abbreviation (input) UV__IN_MOVED_FROM :: uint32 where "UV__IN_MOVED_FROM \<equiv> 0x040"
abbreviation (input) UV__IN_MOVED_TO :: uint32 where "UV__IN_MOVED_TO \<equiv> 0x080"
abbreviation (input) UV__IN_CREATE :: uint32 where "UV__IN_CREATE \<equiv> 0x100"
abbreviation (input) UV__IN_DELETE :: uint32 where "UV__IN_DELETE \<equiv> 0x200"
abbreviation (input) UV__IN_DELETE_SELF :: uint32 where "UV__IN_DELETE_SELF \<equiv> 0x400"
abbreviation (input) UV__IN_MOVE_SELF :: uint32 where "UV__IN_MOVE_SELF \<equiv> 0x800"
abbreviation (input) UV__IN_CLOEXEC :: uint32 where "UV__IN_CLOEXEC \<equiv> 0x80000"
abbreviation (input) UV__IN_NONBLOCK :: uint32 where "UV__IN_NONBLOCK \<equiv> 0x800"
abbreviation (input) UV_RENAME :: uint32 where "UV_RENAME \<equiv> 1"
abbreviation (input) UV_CHANGE :: uint32 where "UV_CHANGE \<equiv> 2"
abbreviation (input) CB_INOTIFY_READ :: nat where "CB_INOTIFY_READ \<equiv> 8"

section \<open>Watch lists\<close>

text \<open>\<open>strrchr(path, '/')\<close>: what follows the last slash.\<close>

definition basename_r :: "string \<Rightarrow> string" where
  "basename_r path = rev (takeWhile (\<lambda>c. c \<noteq> CHR ''/'') (rev path))"

definition compare_watchers :: "(nat \<Rightarrow> int) \<Rightarrow> nat \<Rightarrow> nat \<Rightarrow> int" where
  "compare_watchers wd a b = (if wd a < wd b then - 1 else if wd a > wd b then 1 else 0)"

definition list_wd :: "('m) fs_event_loop_scheme \<Rightarrow> nat \<Rightarrow> int" where
  "list_wd L w = (case watcher_lists L w of Some l \<Rightarrow> wl_wd l | None \<Rightarrow> - 1)"

text \<open>The local variable \<open>w\<close> of \<open>find_watcher\<close> has the address 0.\<close>

definition find_watcher :: "('m) fs_event_loop_scheme \<Rightarrow> int \<Rightarrow> nat option" where
  "find_watcher L wd = rb_find (compare_watchers ((list_wd L)(0 := wd))) 0 (inotify_watchers L)"

definition new_inotify_fd :: "os \<Rightarrow> (answer \<times> os) outcome" where
  "new_inotify_fd s =
     obind (sys (Sys_inotify_init1 (UV__IN_NONBLOCK OR UV__IN_CLOEXEC)) s) (\<lambda>(r, s).
       if r \<noteq> Err ENOSYS then Ret (r, s)
       else obind (sys Sys_inotify_init s) (\<lambda>(r, s).
         case r of
           Val fd \<Rightarrow>
             obind (uv__cloexec fd True s) (\<lambda>(r1, s).
             obind (if failed r1 then Ret (r1, s) else uv__nonblock fd True s) (\<lambda>(r2, s).
               if failed r2 then obind (sys (Sys_close fd) s) (\<lambda>(_, s). Ret (r2, s))
               else Ret (Val fd, s)))
         | _ \<Rightarrow> Ret (r, s)))"

definition init_inotify :: "('m) fs_event_loop_scheme \<Rightarrow> (int \<times> ('m) fs_event_loop_scheme) outcome" where
  "init_inotify L =
     (if inotify_fd L \<noteq> - 1 then Ret (0, L)
      else obind (on_os new_inotify_fd L) (\<lambda>(r, L).
        let L = L\<lparr>inotify_fd := answer_fd r\<rparr>
        in if inotify_fd L = - 1 then Ret (uv__set_sys_error L (answer_errno r))
           else obind (uv__io_init L (inotify_read_watcher L) (Some CB_INOTIFY_READ) (inotify_fd L)) (\<lambda>L.
                obind (uv__io_start L (inotify_read_watcher L) UV__POLLIN) (\<lambda>L. Ret (0, L)))))"

section \<open>Handles\<close>

definition fs_event_mask :: uint32 where
  "fs_event_mask = UV__IN_ATTRIB OR UV__IN_CREATE OR UV__IN_MODIFY OR UV__IN_DELETE OR
     UV__IN_DELETE_SELF OR UV__IN_MOVE_SELF OR UV__IN_MOVED_FROM OR UV__IN_MOVED_TO"

text \<open>The label \<open>no_insert\<close>.\<close>

definition fs_event_join :: "('m) fs_event_loop_scheme \<Rightarrow> nat \<Rightarrow> nat \<Rightarrow> int \<Rightarrow> nat \<Rightarrow> (int \<times> ('m) fs_event_loop_scheme) outcome" where
  "fs_event_join L h w wd cb =
     obind (ptr_ok (watcher_lists L w)) (\<lambda>l.
       let L = uv__handle_start (uv__handle_init L h UV_FS_EVENT) h;
           L = L\<lparr>fs_nodes := ngx_queue_insert_tail (FS_head w) (FS_node h) (fs_nodes L)\<rparr>
       in Ret (0, L\<lparr>fs_event_handles := (fs_event_handles L)
            (h := \<lparr>fse_wd = wd, fse_filename = Some (wl_path l), fse_cb = cb\<rparr>)\<rparr>))"

text \<open>\<open>mem\<close> is the result of \<open>malloc\<close>: the address of a new list, or \<open>NULL\<close>.\<close>

definition uv_fs_event_init :: "nat option \<Rightarrow> ('m) fs_event_loop_scheme \<Rightarrow> nat \<Rightarrow> string \<Rightarrow> nat \<Rightarrow>
    (int \<times> ('m) fs_event_loop_scheme) outcome" where
  "uv_fs_event_init mem L h path cb =
     obind (init_inotify L) (\<lambda>(r, L).
       if r \<noteq> 0 then Ret (- 1, L)
       else obind (on_os (sys (Sys_inotify_add_watch (inotify_fd L) path fs_event_mask)) L) (\<lambda>(r, L).
         case r of
           Val wd \<Rightarrow>
             (case find_watcher L wd of
                Some w \<Rightarrow> fs_event_join L h w wd cb
              | None \<Rightarrow>
                  (case mem of
                     None \<Rightarrow> Ret (uv__set_sys_error L ENOMEM)
                   | Some w \<Rightarrow>
                       let L = L\<lparr>watcher_lists := (watcher_lists L)(w := Some \<lparr>wl_wd = wd, wl_path = path\<rparr>),
                                 fs_nodes := ngx_queue_init (FS_head w) (fs_nodes L)\<rparr>
                       in obind (ptr_ok (rb_insert (compare_watchers (list_wd L)) w (inotify_watchers L))) (\<lambda>(_, t).
                            fs_event_join (L\<lparr>inotify_watchers := t\<rparr>) h w wd cb)))
         | _ \<Rightarrow> Ret (uv__set_sys_error L (answer_errno r))))"

definition uv__fs_event_close :: "('m) fs_event_loop_scheme \<Rightarrow> nat \<Rightarrow> ('m) fs_event_loop_scheme outcome" where
  "uv__fs_event_close L h =
     obind (ptr_ok (find_watcher L (fse_wd (fs_event_handles L h)))) (\<lambda>w.
       let L = L\<lparr>fs_event_handles := (fs_event_handles L)
                  (h := (fs_event_handles L h)\<lparr>fse_wd := - 1, fse_filename := None\<rparr>)\<rparr>;
           L = uv__handle_stop L h;
           L = L\<lparr>fs_nodes := ngx_queue_remove (FS_node h) (fs_nodes L)\<rparr>
       in if ngx_queue_empty (FS_head w) (fs_nodes L)
          then obind (ptr_ok (rb_remove w (inotify_watchers L))) (\<lambda>t.
               obind (on_os (sys (Sys_inotify_rm_watch (inotify_fd L) (list_wd L w)))
                        (L\<lparr>inotify_watchers := t\<rparr>)) (\<lambda>(_, L).
                 Ret (L\<lparr>watcher_lists := (watcher_lists L)(w := None)\<rparr>)))
          else Ret L)"

section \<open>Events\<close>

text \<open>An \<open>inotify_event\<close>: four integers of four bytes, the least significant byte first, the last
  one the length of the name that follows.\<close>

record inotify_ev =
  ie_wd :: int
  ie_mask :: uint32
  ie_len :: nat
  ie_name :: "byte list"

definition inotify_parse :: "byte list \<Rightarrow> inotify_ev" where
  "inotify_parse bs =
     (let len = le_nat (take 4 (drop 12 bs))
      in \<lparr>ie_wd = sint (word_of_nat (le_nat (take 4 bs)) :: uint32),
          ie_mask = word_of_nat (le_nat (take 4 (drop 4 bs))),
          ie_len = len, ie_name = take len (drop 16 bs)\<rparr>)"

definition c_string :: "byte list \<Rightarrow> string" where
  "c_string bs = map (\<lambda>b. char_of (unat b)) (takeWhile (\<lambda>b. b \<noteq> 0) bs)"

definition fs_events_of :: "uint32 \<Rightarrow> uint32" where
  "fs_events_of em =
     (if em AND (UV__IN_ATTRIB OR UV__IN_MODIFY) \<noteq> 0 then UV_CHANGE else 0) OR
     (if em AND NOT (UV__IN_ATTRIB OR UV__IN_MODIFY) \<noteq> 0 then UV_RENAME else 0)"

text \<open>
  The body of the walk over a list: \<open>user c h path ev L\<close> is the callback \<open>c\<close> of the handle \<open>h\<close>. Without
  a name in the event, \<open>path\<close> points into the list: a list that a callback freed is not read.
\<close>

definition inotify_visit ::
    "(nat \<Rightarrow> nat \<Rightarrow> string \<Rightarrow> uint32 \<Rightarrow> ('m) fs_event_loop_scheme \<Rightarrow> ('m) fs_event_loop_scheme outcome) \<Rightarrow>
     inotify_ev \<Rightarrow> nat \<Rightarrow> fs_node \<Rightarrow> ('m) fs_event_loop_scheme \<Rightarrow> ('m) fs_event_loop_scheme outcome" where
  "inotify_visit user e w q L =
     (case q of
        FS_head w' \<Rightarrow> Abort
      | FS_node h \<Rightarrow>
          obind (if ie_len e \<noteq> 0 then Ret (c_string (ie_name e))
                 else obind (ptr_ok (watcher_lists L w)) (\<lambda>l. Ret (basename_r (wl_path l)))) (\<lambda>path.
            user (fse_cb (fs_event_handles L h)) h path (fs_events_of (ie_mask e)) L))"

definition inotify_event ::
    "(nat \<Rightarrow> nat \<Rightarrow> string \<Rightarrow> uint32 \<Rightarrow> ('m) fs_event_loop_scheme \<Rightarrow> ('m) fs_event_loop_scheme outcome) \<Rightarrow>
     inotify_ev \<Rightarrow> ('m) fs_event_loop_scheme \<Rightarrow> ('m) fs_event_loop_scheme run" where
  "inotify_event user e L =
     (case find_watcher L (ie_wd e) of
        None \<Rightarrow> Some (Ret L)
      | Some w \<Rightarrow> ngx_foreach_do fs_nodes (FS_head w) (inotify_visit user e w) L)"

text \<open>The loop over the events in the bytes read.\<close>

function inotify_events ::
    "(nat \<Rightarrow> nat \<Rightarrow> string \<Rightarrow> uint32 \<Rightarrow> ('m) fs_event_loop_scheme \<Rightarrow> ('m) fs_event_loop_scheme outcome) \<Rightarrow>
     byte list \<Rightarrow> ('m) fs_event_loop_scheme \<Rightarrow> ('m) fs_event_loop_scheme run" where
  "inotify_events user bs L =
     (if bs = [] then Some (Ret L)
      else let e = inotify_parse bs
           in rbind (inotify_event user e L) (inotify_events user (drop (16 + ie_len e) bs)))"
  by pat_completeness auto
termination by (relation "measure (\<lambda>(user, bs, L). length bs)") (auto simp: length_greater_0_conv)

declare inotify_events.simps [simp del]

partial_function (option) uv__inotify_read ::
    "(nat \<Rightarrow> nat \<Rightarrow> string \<Rightarrow> uint32 \<Rightarrow> ('m) fs_event_loop_scheme \<Rightarrow> ('m) fs_event_loop_scheme outcome) \<Rightarrow>
     ('m) fs_event_loop_scheme \<Rightarrow> ('m) fs_event_loop_scheme run" where
  "uv__inotify_read user L =
     rbind (Some (on_os (sys_retry (Sys_read (inotify_fd L) 4096)) L)) (\<lambda>(r, L).
       case r of
         Err e \<Rightarrow> Some (assert_that (e = EAGAIN) (Ret L))
       | Val n \<Rightarrow>
           if n \<le> 0 then Some Abort
           else let bs = take (nat n) (inotify_bytes L);
                    L = L\<lparr>inotify_bytes := drop (nat n) (inotify_bytes L)\<rparr>
                in rbind (inotify_events user bs L) (uv__inotify_read user)
       | _ \<Rightarrow> Some Abort)"

definition uv__platform_loop_delete :: "('m) fs_event_loop_scheme \<Rightarrow> ('m) fs_event_loop_scheme outcome" where
  "uv__platform_loop_delete L =
     (if inotify_fd L = - 1 then Ret L
      else obind (uv__io_stop L (inotify_read_watcher L) UV__POLLIN) (\<lambda>L.
           obind (loop_close_fd (inotify_fd L) L) (\<lambda>L. Ret (L\<lparr>inotify_fd := - 1\<rparr>))))"

section \<open>Terminals\<close>

text \<open>\<open>uv__stream_open\<close> is called without a look at its result.\<close>

definition uv_tty_init :: "('m) fs_event_loop_scheme \<Rightarrow> nat \<Rightarrow> int \<Rightarrow> bool \<Rightarrow> (int \<times> ('m) fs_event_loop_scheme) outcome" where
  "uv_tty_init L h fd readable =
     obind (uv__stream_init L h UV_TTY) (\<lambda>L.
     obind (if readable
            then obind (on_os (uv__nonblock fd True) L) (\<lambda>(_, L).
                 obind (uv__stream_open L h fd UV_STREAM_READABLE) (\<lambda>(_, L). Ret L))
            else obind (uv__stream_open L h fd UV_STREAM_WRITABLE) (\<lambda>(_, L).
                 Ret (set_flags h (flag_set (flags_of L h) UV_STREAM_BLOCKING) L))) (\<lambda>L.
       Ret (0, L\<lparr>ttys := (ttys L)(h := (ttys L h)\<lparr>tty_mode := 0\<rparr>)\<rparr>)))"

text \<open>
  The attributes of a terminal are opaque: \<open>tcgetattr\<close> answers with their number, \<open>tcsetattr\<close> sets
  those of a number with an action, 0 for raw attributes after draining, 1 for the
  original ones after flushing, 2 at once. The last error is the one at the label \<open>fatal\<close>;
  \<open>errno\<close> is what the last call that failed left.
\<close>

definition tty_fatal :: "int \<Rightarrow> ('m) fs_event_loop_scheme \<Rightarrow> (int \<times> ('m) fs_event_loop_scheme) outcome" where
  "tty_fatal e L = Ret (uv__set_sys_error L e)"

definition uv_tty_set_mode :: "int \<Rightarrow> ('m) fs_event_loop_scheme \<Rightarrow> nat \<Rightarrow> int \<Rightarrow> (int \<times> ('m) fs_event_loop_scheme) outcome" where
  "uv_tty_set_mode stale_errno L h mode =
     (let fd = uv__stream_fd L h; set_mode = (\<lambda>m L. L\<lparr>ttys := (ttys L)(h := (ttys L h)\<lparr>tty_mode := m\<rparr>)\<rparr>)
      in if mode \<noteq> 0 \<and> tty_mode (ttys L h) = 0
         then obind (on_os (sys (Sys_tcgetattr fd)) L) (\<lambda>(r, L).
           case r of
             Val a \<Rightarrow>
               let L = L\<lparr>ttys := (ttys L)(h := (ttys L h)\<lparr>tty_orig := nat a\<rparr>)\<rparr>;
                   L = (if orig_termios_fd L = - 1
                        then L\<lparr>orig_termios := tty_orig (ttys L h), orig_termios_fd := fd\<rparr> else L)
               in obind (on_os (sys (Sys_tcsetattr fd 0)) L) (\<lambda>(r, L).
                    if failed r then tty_fatal (answer_errno r) L else Ret (0, set_mode 1 L))
           | _ \<Rightarrow> tty_fatal (answer_errno r) L)
         else if mode = 0 \<and> tty_mode (ttys L h) \<noteq> 0
         then obind (on_os (sys (Sys_tcsetattr fd 1)) L) (\<lambda>(r, L).
           if failed r then tty_fatal (answer_errno r) L else Ret (0, set_mode 0 L))
         else tty_fatal stale_errno L)"

text \<open>The answer to \<open>TIOCGWINSZ\<close> is the pair of columns and rows.\<close>

definition uv_tty_get_winsize :: "('m) fs_event_loop_scheme \<Rightarrow> nat \<Rightarrow> (int \<times> (int \<times> int) option \<times> ('m) fs_event_loop_scheme) outcome" where
  "uv_tty_get_winsize L h =
     obind (on_os (sys (Sys_tiocgwinsz (uv__stream_fd L h))) L) (\<lambda>(r, L).
       case r of
         Fds w ht \<Rightarrow> Ret (0, Some (w, ht), L)
       | _ \<Rightarrow> Ret (- 1, None, snd (uv__set_sys_error L (answer_errno r))))"

text \<open>The answer to \<open>isatty\<close> is 1 or 0; that of \<open>fstat\<close> the mode of the file.\<close>

definition s_isfmt :: "int \<Rightarrow> int \<Rightarrow> bool" where
  "s_isfmt mode fmt \<longleftrightarrow> mode div 0x1000 mod 16 = fmt div 0x1000"

definition uv_guess_handle :: "int \<Rightarrow> os \<Rightarrow> (uv_handle_type \<times> os) outcome" where
  "uv_guess_handle file s =
     (if file < 0 then Ret (UV_UNKNOWN_HANDLE, s)
      else obind (sys (Sys_isatty file) s) (\<lambda>(r, s).
        if r = Val 1 then Ret (UV_TTY, s)
        else obind (sys (Sys_fstat file) s) (\<lambda>(r, s).
          case r of
            Val mode \<Rightarrow>
              if \<not> s_isfmt mode 0xC000 \<and> \<not> s_isfmt mode 0x1000 then Ret (UV_FILE, s)
              else Ret (UV_NAMED_PIPE, s)
          | _ \<Rightarrow> Ret (UV_UNKNOWN_HANDLE, s))))"

definition uv_tty_reset_mode :: "('m) fs_event_loop_scheme \<Rightarrow> ('m) fs_event_loop_scheme outcome" where
  "uv_tty_reset_mode L =
     (if 0 \<le> orig_termios_fd L
      then obind (on_os (sys (Sys_tcsetattr (orig_termios_fd L) 2)) L) (\<lambda>(_, L). Ret L)
      else Ret L)"

end
