(* ===== verification/Fs.thy ===== *)
theory Fs
  imports Fs_Event Threadpool
begin

text \<open>
  File system requests: \<open>src/unix/fs.c\<close>. A request is initialised, and then either given to the
  thread pool or run at once: \<open>uv__fs_work\<close> makes the system call of its type, \<open>uv__fs_done\<close> tells
  the user.

  A worker has the calls and answers of the kernel and the variable \<open>errno\<close>, which a call that
  fails sets and a call that succeeds leaves alone. File system calls are recorded by name, with
  their integers and their paths. The answer to a call that reads data is \<open>Msg n data\<close>. Times are
  opaque numbers.
\<close>

section \<open>Requests\<close>

datatype (plugins only: code) uv_fs_type =
    UV_FS_UNKNOWN | UV_FS_CUSTOM | UV_FS_OPEN | UV_FS_CLOSE | UV_FS_READ | UV_FS_WRITE
  | UV_FS_SENDFILE | UV_FS_STAT | UV_FS_LSTAT | UV_FS_FSTAT | UV_FS_FTRUNCATE | UV_FS_UTIME
  | UV_FS_FUTIME | UV_FS_CHMOD | UV_FS_FCHMOD | UV_FS_FSYNC | UV_FS_FDATASYNC | UV_FS_UNLINK
  | UV_FS_RMDIR | UV_FS_MKDIR | UV_FS_RENAME | UV_FS_READDIR | UV_FS_LINK | UV_FS_SYMLINK
  | UV_FS_READLINK | UV_FS_CHOWN | UV_FS_FCHOWN

text \<open>The field \<open>ptr\<close>: \<open>NULL\<close>, the field \<open>statbuf\<close>, or bytes that were allocated.\<close>

datatype fs_ptr = Ptr_null | Ptr_statbuf | Ptr_bytes "byte list"

record uv_fs =
  fs_type :: uv_fs_type
  fs_cb :: "nat option"
  fs_result :: int
  fs_ptr :: fs_ptr
  fs_path :: "string option"
  fs_new_path :: "string option"
  fs_errorno :: int
  fs_file :: int
  fs_flags :: int
  fs_mode :: int
  fs_buf :: "byte list"
  fs_len :: nat
  fs_off :: int
  fs_uid :: int
  fs_gid :: int
  fs_atime :: int
  fs_mtime :: int
  fs_statbuf :: "int list"

record fs_loop = fs_event_loop +
  fs_reqs :: "nat \<Rightarrow> uv_fs"

definition upd_fs :: "nat \<Rightarrow> (uv_fs \<Rightarrow> uv_fs) \<Rightarrow> ('m) fs_loop_scheme \<Rightarrow> ('m) fs_loop_scheme" where
  "upd_fs r f L = L\<lparr>fs_reqs := (fs_reqs L)(r := f (fs_reqs L r))\<rparr>"

section \<open>Calls of a worker\<close>

type_synonym fs_worker = "os \<times> int"

definition errno_after :: "answer \<Rightarrow> int \<Rightarrow> int" where
  "errno_after r en = (case r of Err e \<Rightarrow> e | _ \<Rightarrow> en)"

definition fs_sys :: "sysc \<Rightarrow> fs_worker \<Rightarrow> (answer \<times> fs_worker) outcome" where
  "fs_sys c w = (let (s, en) = w in obind (sys c s) (\<lambda>(r, s). Ret (r, s, errno_after r en)))"

text \<open>The loop \<open>do r = call; while (r == -1 && errno == EINTR)\<close>.\<close>

primrec fs_retry_on :: "sysc \<Rightarrow> answer list \<Rightarrow> fs_worker \<Rightarrow> (answer \<times> fs_worker) outcome" where
  "fs_retry_on c [] w = Starve"
| "fs_retry_on c (r # rs) w =
     (let (s, en) = w; w = (s\<lparr>script := rs, calls := calls s @ [(c, r)]\<rparr>, errno_after r en)
      in if r = Err EINTR then fs_retry_on c rs w else Ret (r, w))"

definition fs_retry :: "sysc \<Rightarrow> fs_worker \<Rightarrow> (answer \<times> fs_worker) outcome" where
  "fs_retry c w = fs_retry_on c (script (fst w)) w"

definition ret_of :: "answer \<Rightarrow> int" where
  "ret_of r = (case r of Err e \<Rightarrow> - 1 | Val n \<Rightarrow> n | Msg n d \<Rightarrow> n | Fds a b \<Rightarrow> 0)"

definition data_of :: "answer \<Rightarrow> byte list" where
  "data_of r = (case r of Msg n d \<Rightarrow> map word_of_int d | _ \<Rightarrow> [])"

section \<open>Copying a file by hand\<close>

text \<open>
  \<open>uv__fs_sendfile_emul\<close>. The inner loop writes \<open>data\<close>; the answer to \<open>poll\<close> is the set of events of the
  descriptor. The result says whether all of it was written.
\<close>

abbreviation (input) POLLOUT :: int where "POLLOUT \<equiv> 4"

definition emul_poll :: "int \<Rightarrow> fs_worker \<Rightarrow> (bool \<times> fs_worker) outcome" where
  "emul_poll out_fd w =
     obind (fs_retry (Sys_poll out_fd) w) (\<lambda>(r, w).
       Ret (case r of Val revents \<Rightarrow> revents = POLLOUT \<or> revents = 0 | _ \<Rightarrow> False, w))"

partial_function (option) emul_write :: "int \<Rightarrow> byte list \<Rightarrow> fs_worker \<Rightarrow> (bool \<times> fs_worker) run" where
  "emul_write out_fd data w =
     (if data = [] then Some (Ret (True, w))
      else rbind (Some (fs_retry (Sys_write out_fd data) w)) (\<lambda>(r, w).
        case r of
          Err e \<Rightarrow>
            if e \<noteq> EAGAIN then Some (Ret (False, w))
            else rbind (Some (emul_poll out_fd w)) (\<lambda>(ok, w).
              if ok then emul_write out_fd data w else Some (Ret (False, w)))
        | _ \<Rightarrow> emul_write out_fd (drop (nat (ret_of r)) data) w))"

text \<open>One read of the outer loop: \<open>pread\<close> at the offset or \<open>read\<close>, at most 8192 bytes.\<close>

definition emul_read :: "uv_fs \<Rightarrow> bool \<Rightarrow> int \<Rightarrow> nat \<Rightarrow> fs_worker \<Rightarrow> (answer \<times> fs_worker) outcome" where
  "emul_read q use_pread offset nsent w =
     (let buflen = min (fs_len q - nsent) 8192
      in fs_retry (if use_pread then Sys_pread (fs_flags q) buflen offset else Sys_read (fs_flags q) buflen) w)"

text \<open>The result is \<open>nsent\<close> with the offset; the offset is stored unless \<open>nsent\<close> is -1.\<close>

partial_function (option) emul_loop :: "uv_fs \<Rightarrow> bool \<Rightarrow> int \<Rightarrow> nat \<Rightarrow> fs_worker \<Rightarrow> (int \<times> int \<times> fs_worker) run" where
  "emul_loop q use_pread offset nsent w =
     (if fs_len q \<le> nsent then Some (Ret (int nsent, offset, w))
      else rbind (Some (emul_read q use_pread offset nsent w)) (\<lambda>(r, w).
        case r of
          Err e \<Rightarrow>
            if use_pread \<and> nsent = 0 \<and> (e = EIO \<or> e = ESPIPE) then emul_loop q False offset nsent w
            else Some (Ret (if nsent = 0 then - 1 else int nsent, offset, w))
        | _ \<Rightarrow>
            if ret_of r = 0 then Some (Ret (int nsent, offset, w))
            else rbind (emul_write (fs_file q) (data_of r) w) (\<lambda>(ok, w).
              if \<not> ok then Some (Ret (- 1, offset, w))
              else emul_loop q use_pread (offset + ret_of r) (nsent + nat (ret_of r)) w)))"

definition uv__fs_sendfile_emul :: "uv_fs \<Rightarrow> fs_worker \<Rightarrow> (int \<times> uv_fs \<times> fs_worker) run" where
  "uv__fs_sendfile_emul q w =
     rbind (emul_loop q True (fs_off q) 0 w) (\<lambda>(nsent, offset, w).
       Some (Ret (nsent, if nsent \<noteq> - 1 then q\<lparr>fs_off := offset\<rparr> else q, w)))"

definition uv__fs_sendfile :: "uv_fs \<Rightarrow> fs_worker \<Rightarrow> (int \<times> uv_fs \<times> fs_worker) run" where
  "uv__fs_sendfile q w =
     rbind (Some (fs_sys (Sys_sendfile (fs_file q) (fs_flags q) (fs_off q) (fs_len q)) w)) (\<lambda>(r, w).
       case r of
         Err e \<Rightarrow>
           if e = EINVAL \<or> e = EIO \<or> e = ENOTSOCK \<or> e = EXDEV then uv__fs_sendfile_emul q (fst w, 0)
           else Some (Ret (- 1, q, w))
       | _ \<Rightarrow> Some (Ret (ret_of r, q\<lparr>fs_off := fs_off q + ret_of r\<rparr>, w)))"

section \<open>Reading, writing, directories, links\<close>

definition uv__fs_read :: "uv_fs \<Rightarrow> fs_worker \<Rightarrow> (int \<times> uv_fs \<times> fs_worker) outcome" where
  "uv__fs_read q w =
     obind (fs_sys (if fs_off q < 0 then Sys_read (fs_file q) (fs_len q)
                    else Sys_pread (fs_file q) (fs_len q) (fs_off q)) w) (\<lambda>(r, w).
       Ret (ret_of r, if failed r then q else q\<lparr>fs_buf := data_of r\<rparr>, w))"

definition uv__fs_write :: "uv_fs \<Rightarrow> fs_worker \<Rightarrow> (int \<times> uv_fs \<times> fs_worker) outcome" where
  "uv__fs_write q w =
     obind (fs_sys (if fs_off q < 0 then Sys_write (fs_file q) (take (fs_len q) (fs_buf q))
                    else Sys_pwrite (fs_file q) (take (fs_len q) (fs_buf q)) (fs_off q)) w) (\<lambda>(r, w).
       Ret (ret_of r, q, w))"

definition uv__fs_readdir_filter :: "byte list \<Rightarrow> bool" where
  "uv__fs_readdir_filter name \<longleftrightarrow> name \<noteq> [46] \<and> name \<noteq> [46, 46]"

text \<open>The answer to \<open>scandir\<close> has the names in alphabetical order, each with its NUL.\<close>

fun nul_names :: "byte list \<Rightarrow> byte list list" where
  "nul_names [] = []"
| "nul_names (b # bs) =
     (if b = 0 then [] # nul_names bs
      else case nul_names bs of [] \<Rightarrow> [[b]] | n # ns \<Rightarrow> (b # n) # ns)"

definition uv__fs_readdir :: "uv_fs \<Rightarrow> fs_worker \<Rightarrow> (int \<times> uv_fs \<times> fs_worker) outcome" where
  "uv__fs_readdir q w =
     obind (ptr_ok (fs_path q)) (\<lambda>path.
     obind (fs_sys (Sys_file ''scandir'' [] [path]) w) (\<lambda>(r, w).
       if failed r then Ret (- 1, q, w)
       else let dents = filter uv__fs_readdir_filter (nul_names (data_of r))
            in if dents = [] then Ret (0, q, w)
               else Ret (int (length dents), q\<lparr>fs_ptr := Ptr_bytes (concat (map (\<lambda>d. d @ [0]) dents))\<rparr>, w)))"

text \<open>The answer to \<open>pathconf\<close> is the size of the buffer; \<open>PATH_MAX\<close> is 4096.\<close>

definition uv__fs_readlink :: "uv_fs \<Rightarrow> fs_worker \<Rightarrow> (int \<times> uv_fs \<times> fs_worker) outcome" where
  "uv__fs_readlink q w =
     obind (ptr_ok (fs_path q)) (\<lambda>path.
     obind (fs_sys (Sys_file ''pathconf'' [] [path]) w) (\<lambda>(r, w).
       let len = (if ret_of r = - 1 then 4096 else ret_of r)
       in obind (fs_sys (Sys_file ''readlink'' [len] [path]) w) (\<lambda>(r, w).
            if failed r then Ret (- 1, q, w)
            else Ret (0, q\<lparr>fs_ptr := Ptr_bytes (data_of r @ [0])\<rparr>, w))))"

section \<open>The work of a request\<close>

text \<open>A type whose action is one call: its name, integers and paths.\<close>

definition fs_plain :: "string \<Rightarrow> int list \<Rightarrow> string option list \<Rightarrow> uv_fs \<Rightarrow> fs_worker \<Rightarrow> (int \<times> uv_fs \<times> fs_worker) outcome" where
  "fs_plain name ints paths q w =
     (if None \<in> set paths then Abort
      else obind (fs_sys (Sys_file name ints (map the paths)) w) (\<lambda>(r, w). Ret (ret_of r, q, w)))"

text \<open>The three forms of \<open>stat\<close> fill \<open>statbuf\<close>.\<close>

definition fs_stat :: "string \<Rightarrow> int list \<Rightarrow> string option list \<Rightarrow> uv_fs \<Rightarrow> fs_worker \<Rightarrow> (int \<times> uv_fs \<times> fs_worker) outcome" where
  "fs_stat name ints paths q w =
     (if None \<in> set paths then Abort
      else obind (fs_sys (Sys_file name ints (map the paths)) w) (\<lambda>(r, w).
        Ret (case r of
               Msg n d \<Rightarrow> (n, q\<lparr>fs_statbuf := d\<rparr>, w)
             | _ \<Rightarrow> (ret_of r, q, w))))"

definition fs_action :: "uv_fs \<Rightarrow> fs_worker \<Rightarrow> (int \<times> uv_fs \<times> fs_worker) run" where
  "fs_action q w =
     (let path = [fs_path q]; paths = [fs_path q, fs_new_path q]; file = [fs_file q]
      in case fs_type q of
           UV_FS_CHMOD \<Rightarrow> Some (fs_plain ''chmod'' [fs_mode q] path q w)
         | UV_FS_CHOWN \<Rightarrow> Some (fs_plain ''chown'' [fs_uid q, fs_gid q] path q w)
         | UV_FS_CLOSE \<Rightarrow> Some (fs_plain ''close'' file [] q w)
         | UV_FS_FCHMOD \<Rightarrow> Some (fs_plain ''fchmod'' [fs_file q, fs_mode q] [] q w)
         | UV_FS_FCHOWN \<Rightarrow> Some (fs_plain ''fchown'' [fs_file q, fs_uid q, fs_gid q] [] q w)
         | UV_FS_FDATASYNC \<Rightarrow> Some (fs_plain ''fdatasync'' file [] q w)
         | UV_FS_FSTAT \<Rightarrow> Some (fs_stat ''fstat'' file [] q w)
         | UV_FS_FSYNC \<Rightarrow> Some (fs_plain ''fsync'' file [] q w)
         | UV_FS_FTRUNCATE \<Rightarrow> Some (fs_plain ''ftruncate'' [fs_file q, fs_off q] [] q w)
         | UV_FS_FUTIME \<Rightarrow> Some (fs_plain ''utimesat'' [fs_file q, fs_atime q, fs_mtime q] [] q w)
         | UV_FS_LSTAT \<Rightarrow> Some (fs_stat ''lstat'' [] path q w)
         | UV_FS_LINK \<Rightarrow> Some (fs_plain ''link'' [] paths q w)
         | UV_FS_MKDIR \<Rightarrow> Some (fs_plain ''mkdir'' [fs_mode q] path q w)
         | UV_FS_OPEN \<Rightarrow> Some (fs_plain ''open'' [fs_flags q, fs_mode q] path q w)
         | UV_FS_READ \<Rightarrow> Some (uv__fs_read q w)
         | UV_FS_READDIR \<Rightarrow> Some (uv__fs_readdir q w)
         | UV_FS_READLINK \<Rightarrow> Some (uv__fs_readlink q w)
         | UV_FS_RENAME \<Rightarrow> Some (fs_plain ''rename'' [] paths q w)
         | UV_FS_RMDIR \<Rightarrow> Some (fs_plain ''rmdir'' [] path q w)
         | UV_FS_SENDFILE \<Rightarrow> uv__fs_sendfile q w
         | UV_FS_STAT \<Rightarrow> Some (fs_stat ''stat'' [] path q w)
         | UV_FS_SYMLINK \<Rightarrow> Some (fs_plain ''symlink'' [] paths q w)
         | UV_FS_UNLINK \<Rightarrow> Some (fs_plain ''unlink'' [] path q w)
         | UV_FS_UTIME \<Rightarrow> Some (fs_plain ''utime'' [fs_atime q, fs_mtime q] path q w)
         | UV_FS_WRITE \<Rightarrow> Some (uv__fs_write q w)
         | _ \<Rightarrow> Some Abort)"

text \<open>The loop of \<open>uv__fs_work\<close>: again after EINTR, except for \<open>close\<close>; \<open>errno\<close> is cleared before
  each try.\<close>

partial_function (option) fs_tries :: "uv_fs \<Rightarrow> fs_worker \<Rightarrow> (int \<times> uv_fs \<times> fs_worker) run" where
  "fs_tries q w =
     rbind (fs_action q (fst w, 0)) (\<lambda>(r, q, w).
       if r = - 1 \<and> snd w = EINTR \<and> fs_type q \<noteq> UV_FS_CLOSE then fs_tries q w
       else Some (Ret (r, q, w)))"

definition uv__fs_work :: "uv_fs \<Rightarrow> fs_worker \<Rightarrow> (uv_fs \<times> fs_worker) run" where
  "uv__fs_work q w =
     rbind (fs_tries q w) (\<lambda>(r, q, w).
       let q = q\<lparr>fs_errorno := snd w, fs_result := r\<rparr>
       in Some (Ret (if r = 0 \<and> (fs_type q = UV_FS_STAT \<or> fs_type q = UV_FS_FSTAT \<or> fs_type q = UV_FS_LSTAT)
                     then q\<lparr>fs_ptr := Ptr_statbuf\<rparr> else q, w)))"

text \<open>\<open>user c r L\<close> is the callback \<open>c\<close> of the request \<open>r\<close>.\<close>

definition uv__fs_done :: "(nat \<Rightarrow> nat \<Rightarrow> ('m) fs_loop_scheme \<Rightarrow> ('m) fs_loop_scheme outcome) \<Rightarrow>
    ('m) fs_loop_scheme \<Rightarrow> nat \<Rightarrow> int \<Rightarrow> ('m) fs_loop_scheme outcome" where
  "uv__fs_done user L r status =
     obind (uv__req_unregister L r) (\<lambda>L.
     let e = fs_errorno (fs_reqs L r); c = uv_translate_sys_error e;
         L = (if e \<noteq> 0 then snd (uv__set_artificial_error (upd_fs r (\<lambda>q. q\<lparr>fs_errorno := uv_err_val c\<rparr>) L) c) else L)
     in obind (if status = - uv_err_val UV_ECANCELED
               then assert_that (fs_errorno (fs_reqs L r) = 0)
                 (Ret (snd (uv__set_artificial_error
                    (upd_fs r (\<lambda>q. q\<lparr>fs_errorno := uv_err_val UV_ECANCELED\<rparr>) L) UV_ECANCELED)))
               else Ret L) (\<lambda>L.
          case fs_cb (fs_reqs L r) of None \<Rightarrow> Ret L | Some c \<Rightarrow> user c r L))"

section \<open>Starting requests\<close>

text \<open>
  The macros \<open>INIT\<close>, \<open>PATH\<close>, \<open>PATH2\<close> and \<open>POST\<close>. \<open>mem\<close> says whether the copy of the paths finds
  memory. A request without a callback is run at once, in the calling thread, and its result is
  returned as an \<open>int\<close>.
\<close>

definition fs_init :: "uv_fs_type \<Rightarrow> nat option \<Rightarrow> ('m) fs_loop_scheme \<Rightarrow> nat \<Rightarrow> ('m) fs_loop_scheme" where
  "fs_init t cb L r =
     upd_fs r (\<lambda>q. q\<lparr>fs_type := t, fs_errorno := 0, fs_result := 0, fs_ptr := Ptr_null,
         fs_path := None, fs_new_path := None, fs_cb := cb\<rparr>) (uv__req_init L r UV_FS)"

type_synonym 'l fs_started = "(int \<times> 'l \<times> tpool) run"

definition with_path :: "bool \<Rightarrow> string \<Rightarrow> ('m) fs_loop_scheme \<Rightarrow> tpool \<Rightarrow> nat \<Rightarrow>
    (('m) fs_loop_scheme \<Rightarrow> ('m) fs_loop_scheme fs_started) \<Rightarrow> ('m) fs_loop_scheme fs_started" where
  "with_path mem path L P r k =
     (if \<not> mem then Some (Ret (- 1, snd (uv__set_sys_error L ENOMEM), P))
      else k (upd_fs r (\<lambda>q. q\<lparr>fs_path := Some path\<rparr>) L))"

definition with_path2 :: "bool \<Rightarrow> string \<Rightarrow> string \<Rightarrow> ('m) fs_loop_scheme \<Rightarrow> tpool \<Rightarrow> nat \<Rightarrow>
    (('m) fs_loop_scheme \<Rightarrow> ('m) fs_loop_scheme fs_started) \<Rightarrow> ('m) fs_loop_scheme fs_started" where
  "with_path2 mem path new_path L P r k =
     (if \<not> mem then Some (Ret (- 1, snd (uv__set_sys_error L ENOMEM), P))
      else k (upd_fs r (\<lambda>q. q\<lparr>fs_path := Some path, fs_new_path := Some new_path\<rparr>) L))"

definition fs_post :: "(nat \<Rightarrow> nat \<Rightarrow> ('m) fs_loop_scheme \<Rightarrow> ('m) fs_loop_scheme outcome) \<Rightarrow> tpool \<Rightarrow> nat \<Rightarrow>
    ('m) fs_loop_scheme \<Rightarrow> ('m) fs_loop_scheme fs_started" where
  "fs_post user P r L =
     (if fs_cb (fs_reqs L r) \<noteq> None then Some (Ret (0, L, uv__work_submit r P))
      else rbind (uv__fs_work (fs_reqs L r) (osys L, 0)) (\<lambda>(q, w).
           rbind (Some (uv__fs_done user (upd_fs r (\<lambda>_. q) (L\<lparr>osys := fst w\<rparr>)) r 0)) (\<lambda>L.
             Some (Ret (sint (word_of_int (fs_result (fs_reqs L r)) :: uint32), L, P)))))"

definition uv_fs_chmod ::
    "(nat \<Rightarrow> nat \<Rightarrow> ('m) fs_loop_scheme \<Rightarrow> ('m) fs_loop_scheme outcome) \<Rightarrow> bool \<Rightarrow> ('m) fs_loop_scheme \<Rightarrow> tpool \<Rightarrow> nat \<Rightarrow> string \<Rightarrow> int \<Rightarrow> nat option \<Rightarrow>
     ('m) fs_loop_scheme fs_started" where
  "uv_fs_chmod user mem L P r path mode cb =
     with_path mem path (fs_init UV_FS_CHMOD cb L r) P r (\<lambda>L.
       fs_post user P r (upd_fs r (\<lambda>q. q\<lparr>fs_mode := mode\<rparr>) L))"

definition uv_fs_chown ::
    "(nat \<Rightarrow> nat \<Rightarrow> ('m) fs_loop_scheme \<Rightarrow> ('m) fs_loop_scheme outcome) \<Rightarrow> bool \<Rightarrow> ('m) fs_loop_scheme \<Rightarrow> tpool \<Rightarrow> nat \<Rightarrow> string \<Rightarrow> int \<Rightarrow> int \<Rightarrow> nat option \<Rightarrow>
     ('m) fs_loop_scheme fs_started" where
  "uv_fs_chown user mem L P r path uid gid cb =
     with_path mem path (fs_init UV_FS_CHOWN cb L r) P r (\<lambda>L.
       fs_post user P r (upd_fs r (\<lambda>q. q\<lparr>fs_uid := uid, fs_gid := gid\<rparr>) L))"

definition uv_fs_close ::
    "(nat \<Rightarrow> nat \<Rightarrow> ('m) fs_loop_scheme \<Rightarrow> ('m) fs_loop_scheme outcome) \<Rightarrow> ('m) fs_loop_scheme \<Rightarrow> tpool \<Rightarrow> nat \<Rightarrow> int \<Rightarrow> nat option \<Rightarrow>
     ('m) fs_loop_scheme fs_started" where
  "uv_fs_close user L P r file cb =
     fs_post user P r (upd_fs r (\<lambda>q. q\<lparr>fs_file := file\<rparr>) (fs_init UV_FS_CLOSE cb L r))"

definition uv_fs_fchmod ::
    "(nat \<Rightarrow> nat \<Rightarrow> ('m) fs_loop_scheme \<Rightarrow> ('m) fs_loop_scheme outcome) \<Rightarrow> ('m) fs_loop_scheme \<Rightarrow> tpool \<Rightarrow> nat \<Rightarrow> int \<Rightarrow> int \<Rightarrow> nat option \<Rightarrow>
     ('m) fs_loop_scheme fs_started" where
  "uv_fs_fchmod user L P r file mode cb =
     fs_post user P r (upd_fs r (\<lambda>q. q\<lparr>fs_file := file, fs_mode := mode\<rparr>) (fs_init UV_FS_FCHMOD cb L r))"

definition uv_fs_fchown ::
    "(nat \<Rightarrow> nat \<Rightarrow> ('m) fs_loop_scheme \<Rightarrow> ('m) fs_loop_scheme outcome) \<Rightarrow> ('m) fs_loop_scheme \<Rightarrow> tpool \<Rightarrow> nat \<Rightarrow> int \<Rightarrow> int \<Rightarrow> int \<Rightarrow> nat option \<Rightarrow>
     ('m) fs_loop_scheme fs_started" where
  "uv_fs_fchown user L P r file uid gid cb =
     fs_post user P r (upd_fs r (\<lambda>q. q\<lparr>fs_file := file, fs_uid := uid, fs_gid := gid\<rparr>) (fs_init UV_FS_FCHOWN cb L r))"

definition uv_fs_fdatasync ::
    "(nat \<Rightarrow> nat \<Rightarrow> ('m) fs_loop_scheme \<Rightarrow> ('m) fs_loop_scheme outcome) \<Rightarrow> ('m) fs_loop_scheme \<Rightarrow> tpool \<Rightarrow> nat \<Rightarrow> int \<Rightarrow> nat option \<Rightarrow>
     ('m) fs_loop_scheme fs_started" where
  "uv_fs_fdatasync user L P r file cb =
     fs_post user P r (upd_fs r (\<lambda>q. q\<lparr>fs_file := file\<rparr>) (fs_init UV_FS_FDATASYNC cb L r))"

definition uv_fs_fstat ::
    "(nat \<Rightarrow> nat \<Rightarrow> ('m) fs_loop_scheme \<Rightarrow> ('m) fs_loop_scheme outcome) \<Rightarrow> ('m) fs_loop_scheme \<Rightarrow> tpool \<Rightarrow> nat \<Rightarrow> int \<Rightarrow> nat option \<Rightarrow>
     ('m) fs_loop_scheme fs_started" where
  "uv_fs_fstat user L P r file cb =
     fs_post user P r (upd_fs r (\<lambda>q. q\<lparr>fs_file := file\<rparr>) (fs_init UV_FS_FSTAT cb L r))"

definition uv_fs_fsync ::
    "(nat \<Rightarrow> nat \<Rightarrow> ('m) fs_loop_scheme \<Rightarrow> ('m) fs_loop_scheme outcome) \<Rightarrow> ('m) fs_loop_scheme \<Rightarrow> tpool \<Rightarrow> nat \<Rightarrow> int \<Rightarrow> nat option \<Rightarrow>
     ('m) fs_loop_scheme fs_started" where
  "uv_fs_fsync user L P r file cb =
     fs_post user P r (upd_fs r (\<lambda>q. q\<lparr>fs_file := file\<rparr>) (fs_init UV_FS_FSYNC cb L r))"

definition uv_fs_ftruncate ::
    "(nat \<Rightarrow> nat \<Rightarrow> ('m) fs_loop_scheme \<Rightarrow> ('m) fs_loop_scheme outcome) \<Rightarrow> ('m) fs_loop_scheme \<Rightarrow> tpool \<Rightarrow> nat \<Rightarrow> int \<Rightarrow> int \<Rightarrow> nat option \<Rightarrow>
     ('m) fs_loop_scheme fs_started" where
  "uv_fs_ftruncate user L P r file off cb =
     fs_post user P r (upd_fs r (\<lambda>q. q\<lparr>fs_file := file, fs_off := off\<rparr>) (fs_init UV_FS_FTRUNCATE cb L r))"

definition uv_fs_futime ::
    "(nat \<Rightarrow> nat \<Rightarrow> ('m) fs_loop_scheme \<Rightarrow> ('m) fs_loop_scheme outcome) \<Rightarrow> ('m) fs_loop_scheme \<Rightarrow> tpool \<Rightarrow> nat \<Rightarrow> int \<Rightarrow> int \<Rightarrow> int \<Rightarrow> nat option \<Rightarrow>
     ('m) fs_loop_scheme fs_started" where
  "uv_fs_futime user L P r file atime mtime cb =
     fs_post user P r (upd_fs r (\<lambda>q. q\<lparr>fs_file := file, fs_atime := atime, fs_mtime := mtime\<rparr>) (fs_init UV_FS_FUTIME cb L r))"

definition uv_fs_lstat ::
    "(nat \<Rightarrow> nat \<Rightarrow> ('m) fs_loop_scheme \<Rightarrow> ('m) fs_loop_scheme outcome) \<Rightarrow> bool \<Rightarrow> ('m) fs_loop_scheme \<Rightarrow> tpool \<Rightarrow> nat \<Rightarrow> string \<Rightarrow> nat option \<Rightarrow>
     ('m) fs_loop_scheme fs_started" where
  "uv_fs_lstat user mem L P r path cb =
     with_path mem path (fs_init UV_FS_LSTAT cb L r) P r (fs_post user P r)"

definition uv_fs_link ::
    "(nat \<Rightarrow> nat \<Rightarrow> ('m) fs_loop_scheme \<Rightarrow> ('m) fs_loop_scheme outcome) \<Rightarrow> bool \<Rightarrow> ('m) fs_loop_scheme \<Rightarrow> tpool \<Rightarrow> nat \<Rightarrow> string \<Rightarrow> string \<Rightarrow> nat option \<Rightarrow>
     ('m) fs_loop_scheme fs_started" where
  "uv_fs_link user mem L P r path new_path cb =
     with_path2 mem path new_path (fs_init UV_FS_LINK cb L r) P r (fs_post user P r)"

definition uv_fs_mkdir ::
    "(nat \<Rightarrow> nat \<Rightarrow> ('m) fs_loop_scheme \<Rightarrow> ('m) fs_loop_scheme outcome) \<Rightarrow> bool \<Rightarrow> ('m) fs_loop_scheme \<Rightarrow> tpool \<Rightarrow> nat \<Rightarrow> string \<Rightarrow> int \<Rightarrow> nat option \<Rightarrow>
     ('m) fs_loop_scheme fs_started" where
  "uv_fs_mkdir user mem L P r path mode cb =
     with_path mem path (fs_init UV_FS_MKDIR cb L r) P r (\<lambda>L.
       fs_post user P r (upd_fs r (\<lambda>q. q\<lparr>fs_mode := mode\<rparr>) L))"

definition uv_fs_open ::
    "(nat \<Rightarrow> nat \<Rightarrow> ('m) fs_loop_scheme \<Rightarrow> ('m) fs_loop_scheme outcome) \<Rightarrow> bool \<Rightarrow> ('m) fs_loop_scheme \<Rightarrow> tpool \<Rightarrow> nat \<Rightarrow> string \<Rightarrow> int \<Rightarrow> int \<Rightarrow> nat option \<Rightarrow>
     ('m) fs_loop_scheme fs_started" where
  "uv_fs_open user mem L P r path flags mode cb =
     with_path mem path (fs_init UV_FS_OPEN cb L r) P r (\<lambda>L.
       fs_post user P r (upd_fs r (\<lambda>q. q\<lparr>fs_flags := flags, fs_mode := mode\<rparr>) L))"

definition uv_fs_read ::
    "(nat \<Rightarrow> nat \<Rightarrow> ('m) fs_loop_scheme \<Rightarrow> ('m) fs_loop_scheme outcome) \<Rightarrow> ('m) fs_loop_scheme \<Rightarrow> tpool \<Rightarrow> nat \<Rightarrow> int \<Rightarrow> (byte list) \<Rightarrow> nat \<Rightarrow> int \<Rightarrow> nat option \<Rightarrow>
     ('m) fs_loop_scheme fs_started" where
  "uv_fs_read user L P r file buf len off cb =
     fs_post user P r (upd_fs r (\<lambda>q. q\<lparr>fs_file := file, fs_buf := buf, fs_len := len, fs_off := off\<rparr>) (fs_init UV_FS_READ cb L r))"

definition uv_fs_readdir ::
    "(nat \<Rightarrow> nat \<Rightarrow> ('m) fs_loop_scheme \<Rightarrow> ('m) fs_loop_scheme outcome) \<Rightarrow> bool \<Rightarrow> ('m) fs_loop_scheme \<Rightarrow> tpool \<Rightarrow> nat \<Rightarrow> string \<Rightarrow> int \<Rightarrow> nat option \<Rightarrow>
     ('m) fs_loop_scheme fs_started" where
  "uv_fs_readdir user mem L P r path flags cb =
     with_path mem path (fs_init UV_FS_READDIR cb L r) P r (\<lambda>L.
       fs_post user P r (upd_fs r (\<lambda>q. q\<lparr>fs_flags := flags\<rparr>) L))"

definition uv_fs_readlink ::
    "(nat \<Rightarrow> nat \<Rightarrow> ('m) fs_loop_scheme \<Rightarrow> ('m) fs_loop_scheme outcome) \<Rightarrow> bool \<Rightarrow> ('m) fs_loop_scheme \<Rightarrow> tpool \<Rightarrow> nat \<Rightarrow> string \<Rightarrow> nat option \<Rightarrow>
     ('m) fs_loop_scheme fs_started" where
  "uv_fs_readlink user mem L P r path cb =
     with_path mem path (fs_init UV_FS_READLINK cb L r) P r (fs_post user P r)"

definition uv_fs_rename ::
    "(nat \<Rightarrow> nat \<Rightarrow> ('m) fs_loop_scheme \<Rightarrow> ('m) fs_loop_scheme outcome) \<Rightarrow> bool \<Rightarrow> ('m) fs_loop_scheme \<Rightarrow> tpool \<Rightarrow> nat \<Rightarrow> string \<Rightarrow> string \<Rightarrow> nat option \<Rightarrow>
     ('m) fs_loop_scheme fs_started" where
  "uv_fs_rename user mem L P r path new_path cb =
     with_path2 mem path new_path (fs_init UV_FS_RENAME cb L r) P r (fs_post user P r)"

definition uv_fs_rmdir ::
    "(nat \<Rightarrow> nat \<Rightarrow> ('m) fs_loop_scheme \<Rightarrow> ('m) fs_loop_scheme outcome) \<Rightarrow> bool \<Rightarrow> ('m) fs_loop_scheme \<Rightarrow> tpool \<Rightarrow> nat \<Rightarrow> string \<Rightarrow> nat option \<Rightarrow>
     ('m) fs_loop_scheme fs_started" where
  "uv_fs_rmdir user mem L P r path cb =
     with_path mem path (fs_init UV_FS_RMDIR cb L r) P r (fs_post user P r)"

definition uv_fs_sendfile ::
    "(nat \<Rightarrow> nat \<Rightarrow> ('m) fs_loop_scheme \<Rightarrow> ('m) fs_loop_scheme outcome) \<Rightarrow> ('m) fs_loop_scheme \<Rightarrow> tpool \<Rightarrow> nat \<Rightarrow> int \<Rightarrow> int \<Rightarrow> int \<Rightarrow> nat \<Rightarrow> nat option \<Rightarrow>
     ('m) fs_loop_scheme fs_started" where
  "uv_fs_sendfile user L P r out_fd in_fd off len cb =
     fs_post user P r (upd_fs r (\<lambda>q. q\<lparr>fs_file := out_fd, fs_flags := in_fd, fs_off := off, fs_len := len\<rparr>) (fs_init UV_FS_SENDFILE cb L r))"

definition uv_fs_stat ::
    "(nat \<Rightarrow> nat \<Rightarrow> ('m) fs_loop_scheme \<Rightarrow> ('m) fs_loop_scheme outcome) \<Rightarrow> bool \<Rightarrow> ('m) fs_loop_scheme \<Rightarrow> tpool \<Rightarrow> nat \<Rightarrow> string \<Rightarrow> nat option \<Rightarrow>
     ('m) fs_loop_scheme fs_started" where
  "uv_fs_stat user mem L P r path cb =
     with_path mem path (fs_init UV_FS_STAT cb L r) P r (fs_post user P r)"

definition uv_fs_symlink ::
    "(nat \<Rightarrow> nat \<Rightarrow> ('m) fs_loop_scheme \<Rightarrow> ('m) fs_loop_scheme outcome) \<Rightarrow> bool \<Rightarrow> ('m) fs_loop_scheme \<Rightarrow> tpool \<Rightarrow> nat \<Rightarrow> string \<Rightarrow> string \<Rightarrow> int \<Rightarrow> nat option \<Rightarrow>
     ('m) fs_loop_scheme fs_started" where
  "uv_fs_symlink user mem L P r path new_path flags cb =
     with_path2 mem path new_path (fs_init UV_FS_SYMLINK cb L r) P r (\<lambda>L.
       fs_post user P r (upd_fs r (\<lambda>q. q\<lparr>fs_flags := flags\<rparr>) L))"

definition uv_fs_unlink ::
    "(nat \<Rightarrow> nat \<Rightarrow> ('m) fs_loop_scheme \<Rightarrow> ('m) fs_loop_scheme outcome) \<Rightarrow> bool \<Rightarrow> ('m) fs_loop_scheme \<Rightarrow> tpool \<Rightarrow> nat \<Rightarrow> string \<Rightarrow> nat option \<Rightarrow>
     ('m) fs_loop_scheme fs_started" where
  "uv_fs_unlink user mem L P r path cb =
     with_path mem path (fs_init UV_FS_UNLINK cb L r) P r (fs_post user P r)"

definition uv_fs_utime ::
    "(nat \<Rightarrow> nat \<Rightarrow> ('m) fs_loop_scheme \<Rightarrow> ('m) fs_loop_scheme outcome) \<Rightarrow> bool \<Rightarrow> ('m) fs_loop_scheme \<Rightarrow> tpool \<Rightarrow> nat \<Rightarrow> string \<Rightarrow> int \<Rightarrow> int \<Rightarrow> nat option \<Rightarrow>
     ('m) fs_loop_scheme fs_started" where
  "uv_fs_utime user mem L P r path atime mtime cb =
     with_path mem path (fs_init UV_FS_UTIME cb L r) P r (\<lambda>L.
       fs_post user P r (upd_fs r (\<lambda>q. q\<lparr>fs_atime := atime, fs_mtime := mtime\<rparr>) L))"

definition uv_fs_write ::
    "(nat \<Rightarrow> nat \<Rightarrow> ('m) fs_loop_scheme \<Rightarrow> ('m) fs_loop_scheme outcome) \<Rightarrow> ('m) fs_loop_scheme \<Rightarrow> tpool \<Rightarrow> nat \<Rightarrow> int \<Rightarrow> (byte list) \<Rightarrow> nat \<Rightarrow> int \<Rightarrow> nat option \<Rightarrow>
     ('m) fs_loop_scheme fs_started" where
  "uv_fs_write user L P r file buf len off cb =
     fs_post user P r (upd_fs r (\<lambda>q. q\<lparr>fs_file := file, fs_buf := buf, fs_len := len, fs_off := off\<rparr>) (fs_init UV_FS_WRITE cb L r))"

definition uv_fs_req_cleanup :: "('m) fs_loop_scheme \<Rightarrow> nat \<Rightarrow> ('m) fs_loop_scheme" where
  "uv_fs_req_cleanup L r = upd_fs r (\<lambda>q. q\<lparr>fs_path := None, fs_new_path := None, fs_ptr := Ptr_null\<rparr>) L"

end
