(* ===== verification/Fs_Poll.thy ===== *)
theory Fs_Poll
  imports Fs
begin

text \<open>
  Watching a path by polling it: \<open>src/fs-poll.c\<close>. A handle that is started allocates a context
  with a timer and a \<open>stat\<close> request of its own; the context outlives a stopped handle until the
  request has come back and the timer is closed.

  A context has an address and the addresses of the two objects inside it; \<open>container_of\<close> is the
  identification of these. \<open>None\<close> is a context that is not allocated.
\<close>

section \<open>State\<close>

record poll_ctx =
  pc_parent :: "nat option"
  pc_busy_polling :: int
  pc_interval :: uint32
  pc_start_time :: uint64
  pc_poll_cb :: nat
  pc_timer :: nat
  pc_fs_req :: nat
  pc_statbuf :: "int list"
  pc_path :: string

record fs_poll_loop = fs_loop +
  poll_ctxs :: "nat \<Rightarrow> poll_ctx option"
  fs_poll_ctx :: "nat \<Rightarrow> nat option"
  tpool_of :: tpool

abbreviation (input) CB_FS_POLL_TIMER :: nat where "CB_FS_POLL_TIMER \<equiv> 9"
abbreviation (input) CB_FS_POLL_STAT :: nat where "CB_FS_POLL_STAT \<equiv> 10"
abbreviation (input) CB_FS_POLL_CLOSE :: nat where "CB_FS_POLL_CLOSE \<equiv> 11"

definition upd_ctx :: "nat \<Rightarrow> (poll_ctx \<Rightarrow> poll_ctx) \<Rightarrow> ('m) fs_poll_loop_scheme \<Rightarrow> ('m) fs_poll_loop_scheme" where
  "upd_ctx c f L = L\<lparr>poll_ctxs := (poll_ctxs L)(c := map_option f (poll_ctxs L c))\<rparr>"

text \<open>The start of \<open>uv_close\<close>, and all of it for a timer.\<close>

definition close_begin :: "('m) uv_loop_scheme \<Rightarrow> nat \<Rightarrow> nat option \<Rightarrow> ('m) uv_loop_scheme outcome" where
  "close_begin L h cb =
     assert_that (\<not> flag_on (flags_of L h) (UV_CLOSING OR UV_CLOSED))
       (let L = set_flags h (flag_set (flags_of L h) UV_CLOSING) L
        in Ret (L\<lparr>handles := (handles L)(h := (handles L h)\<lparr>h_close_cb := cb\<rparr>)\<rparr>))"

definition close_timer :: "('m) timer_loop_scheme \<Rightarrow> nat \<Rightarrow> nat option \<Rightarrow> ('m) timer_loop_scheme outcome" where
  "close_timer L h cb =
     obind (close_begin L h cb) (\<lambda>L. obind (uv__timer_close L h) (\<lambda>L. uv__make_close_pending L h))"

section \<open>Operations\<close>

definition uv_fs_poll_init :: "('m) fs_poll_loop_scheme \<Rightarrow> nat \<Rightarrow> int \<times> ('m) fs_poll_loop_scheme" where
  "uv_fs_poll_init L h = (0, uv__handle_init L h UV_FS_POLL)"

text \<open>The request is always asynchronous here: it has a callback.\<close>

definition ctx_stat :: "(nat \<Rightarrow> nat \<Rightarrow> ('m) fs_poll_loop_scheme \<Rightarrow> ('m) fs_poll_loop_scheme outcome) \<Rightarrow> bool \<Rightarrow>
    ('m) fs_poll_loop_scheme \<Rightarrow> nat \<Rightarrow> ('m) fs_poll_loop_scheme run" where
  "ctx_stat user mem L c =
     (case poll_ctxs L c of
        None \<Rightarrow> Some Abort
      | Some x \<Rightarrow>
          rbind (uv_fs_stat user mem L (tpool_of L) (pc_fs_req x) (pc_path x) (Some CB_FS_POLL_STAT)) (\<lambda>(r, L, P).
            if r \<noteq> 0 then Some Abort else Some (Ret (L\<lparr>tpool_of := P\<rparr>))))"

text \<open>\<open>mem\<close> is what \<open>calloc\<close> found: a context with its timer and its request, or nothing; \<open>mem2\<close>
  says whether the copy of the path finds memory.\<close>

definition uv_fs_poll_start :: "(nat \<Rightarrow> nat \<Rightarrow> ('m) fs_poll_loop_scheme \<Rightarrow> ('m) fs_poll_loop_scheme outcome) \<Rightarrow>
    (nat \<times> nat \<times> nat) option \<Rightarrow> bool \<Rightarrow> ('m) fs_poll_loop_scheme \<Rightarrow> nat \<Rightarrow> nat \<Rightarrow> string \<Rightarrow> uint32 \<Rightarrow>
    (int \<times> ('m) fs_poll_loop_scheme) run" where
  "uv_fs_poll_start user mem mem2 L h cb path interval =
     (if uv__is_active L h then Some (Ret (0, L))
      else case mem of
        None \<Rightarrow> Some (Ret (uv__set_artificial_error L UV_ENOMEM))
      | Some (c, t, r) \<Rightarrow>
          let x = \<lparr>pc_parent = Some h, pc_busy_polling = 0, pc_interval = (if interval \<noteq> 0 then interval else 1),
                   pc_start_time = loop_time L, pc_poll_cb = cb, pc_timer = t, pc_fs_req = r,
                   pc_statbuf = [], pc_path = path\<rparr>;
              L = L\<lparr>poll_ctxs := (poll_ctxs L)(c := Some x)\<rparr>;
              (e, L) = uv_timer_init L t
          in if e \<noteq> 0 then Some Abort
             else
               let L = set_flags t (flag_set (flags_of L t) UV__HANDLE_INTERNAL) L;
                   L = uv__handle_unref L t
               in rbind (ctx_stat user mem2 L c) (\<lambda>L.
                    Some (Ret (0, uv__handle_start (L\<lparr>fs_poll_ctx := (fs_poll_ctx L)(h := Some c)\<rparr>) h))))"

definition uv_fs_poll_stop :: "('m) fs_poll_loop_scheme \<Rightarrow> nat \<Rightarrow> (int \<times> ('m) fs_poll_loop_scheme) outcome" where
  "uv_fs_poll_stop L h =
     (if \<not> uv__is_active L h then Ret (0, L)
      else obind (ptr_ok (fs_poll_ctx L h)) (\<lambda>c.
           obind (ptr_ok (poll_ctxs L c)) (\<lambda>x.
             assert_that (pc_parent x \<noteq> None)
               (let L = upd_ctx c (\<lambda>x. x\<lparr>pc_parent := None\<rparr>) L;
                    L = L\<lparr>fs_poll_ctx := (fs_poll_ctx L)(h := None)\<rparr>
                in obind (if uv__is_active L (pc_timer x) then close_timer L (pc_timer x) (Some CB_FS_POLL_CLOSE)
                          else Ret L) (\<lambda>L. Ret (0, uv__handle_stop L h))))))"

definition uv__fs_poll_close :: "('m) fs_poll_loop_scheme \<Rightarrow> nat \<Rightarrow> ('m) fs_poll_loop_scheme outcome" where
  "uv__fs_poll_close L h = obind (uv_fs_poll_stop L h) (\<lambda>(_, L). Ret L)"

text \<open>The static functions \<open>timer_cb\<close> and \<open>timer_close_cb\<close>, on the context of the timer.\<close>

definition fs_poll_timer_cb :: "(nat \<Rightarrow> nat \<Rightarrow> ('m) fs_poll_loop_scheme \<Rightarrow> ('m) fs_poll_loop_scheme outcome) \<Rightarrow> bool \<Rightarrow>
    ('m) fs_poll_loop_scheme \<Rightarrow> nat \<Rightarrow> ('m) fs_poll_loop_scheme run" where
  "fs_poll_timer_cb user mem L c =
     (case poll_ctxs L c of
        None \<Rightarrow> Some Abort
      | Some x \<Rightarrow>
          (case pc_parent x of
             None \<Rightarrow> Some Abort
           | Some h \<Rightarrow>
               if fs_poll_ctx L h \<noteq> Some c then Some Abort
               else ctx_stat user mem (upd_ctx c (\<lambda>x. x\<lparr>pc_start_time := loop_time L\<rparr>) L) c))"

definition timer_close_cb :: "('m) fs_poll_loop_scheme \<Rightarrow> nat \<Rightarrow> ('m) fs_poll_loop_scheme" where
  "timer_close_cb L c = L\<lparr>poll_ctxs := (poll_ctxs L)(c := None)\<rparr>"

section \<open>The result of a stat\<close>

text \<open>
  A \<open>statbuf\<close> is a list of numbers; the first ten are those that \<open>statbuf_eq\<close> compares: the
  nanoseconds of the change and modification times, the two times in seconds, size, mode, user,
  group, inode and device. A buffer that \<open>calloc\<close> cleared is all zeros.
\<close>

definition stat_field :: "int list \<Rightarrow> nat \<Rightarrow> int" where
  "stat_field s i = (if i < length s then s ! i else 0)"

definition statbuf_eq :: "int list \<Rightarrow> int list \<Rightarrow> bool" where
  "statbuf_eq a b \<longleftrightarrow> map (stat_field a) [0..<10] = map (stat_field b) [0..<10]"

definition uv_err_codes :: "uv_err_code list" where
  "uv_err_codes = [UV_UNKNOWN, UV_OK, UV_EOF, UV_EADDRINFO, UV_EACCES, UV_EAGAIN, UV_EADDRINUSE,
     UV_EADDRNOTAVAIL, UV_EAFNOSUPPORT, UV_EALREADY, UV_EBADF, UV_EBUSY, UV_ECONNABORTED,
     UV_ECONNREFUSED, UV_ECONNRESET, UV_EDESTADDRREQ, UV_EFAULT, UV_EHOSTUNREACH, UV_EINTR, UV_EINVAL,
     UV_EISCONN, UV_EMFILE, UV_EMSGSIZE, UV_ENETDOWN, UV_ENETUNREACH, UV_ENFILE, UV_ENOBUFS, UV_ENOMEM,
     UV_ENOTDIR, UV_EISDIR, UV_ENONET, UV_ENOTCONN, UV_ENOTSOCK, UV_ENOTSUP, UV_ENOENT, UV_ENOSYS,
     UV_EPIPE, UV_EPROTO, UV_EPROTONOSUPPORT, UV_EPROTOTYPE, UV_ETIMEDOUT, UV_ECHARSET,
     UV_EAIFAMNOSUPPORT, UV_EAISERVICE, UV_EAISOCKTYPE, UV_ESHUTDOWN, UV_EEXIST, UV_ESRCH,
     UV_ENAMETOOLONG, UV_EPERM, UV_ELOOP, UV_EXDEV, UV_ENOTEMPTY, UV_ENOSPC, UV_EIO, UV_EROFS,
     UV_ENODEV, UV_ESPIPE, UV_ECANCELED]"

definition err_code_of :: "int \<Rightarrow> uv_err_code" where
  "err_code_of v = (case find (\<lambda>c. uv_err_val c = v) uv_err_codes of Some c \<Rightarrow> c | None \<Rightarrow> UV_UNKNOWN)"

text \<open>What \<open>poll_cb\<close> reports of a result and does to the context before the label \<open>out\<close>:
  \<open>user c h status prev cur L\<close> is the callback \<open>c\<close> of the handle \<open>h\<close>.\<close>

type_synonym 'l poll_user = "nat \<Rightarrow> nat \<Rightarrow> int \<Rightarrow> int list \<Rightarrow> int list \<Rightarrow> 'l \<Rightarrow> 'l outcome"

definition poll_failed :: "('m) fs_poll_loop_scheme poll_user \<Rightarrow> ('m) fs_poll_loop_scheme \<Rightarrow> nat \<Rightarrow> poll_ctx \<Rightarrow> nat \<Rightarrow>
    int \<Rightarrow> ('m) fs_poll_loop_scheme outcome" where
  "poll_failed user L c x h e =
     (if pc_busy_polling x \<noteq> - e
      then obind (user (pc_poll_cb x) h (- 1) (pc_statbuf x) []
                    (snd (uv__set_artificial_error L (err_code_of e)))) (\<lambda>L.
             Ret (upd_ctx c (\<lambda>x. x\<lparr>pc_busy_polling := - e\<rparr>) L))
      else Ret L)"

definition poll_ok :: "('m) fs_poll_loop_scheme poll_user \<Rightarrow> ('m) fs_poll_loop_scheme \<Rightarrow> nat \<Rightarrow> poll_ctx \<Rightarrow> nat \<Rightarrow>
    int list \<Rightarrow> ('m) fs_poll_loop_scheme outcome" where
  "poll_ok user L c x h statbuf =
     obind (if pc_busy_polling x \<noteq> 0 \<and> (pc_busy_polling x < 0 \<or> \<not> statbuf_eq (pc_statbuf x) statbuf)
            then user (pc_poll_cb x) h 0 (pc_statbuf x) statbuf L else Ret L) (\<lambda>L.
       Ret (upd_ctx c (\<lambda>x. x\<lparr>pc_statbuf := statbuf, pc_busy_polling := 1\<rparr>) L))"

text \<open>The delay until the next \<open>stat\<close>.\<close>

definition poll_delay :: "uint32 \<Rightarrow> uint64 \<Rightarrow> uint64 \<Rightarrow> uint64" where
  "poll_delay interval now start = (let i = ucast interval in i - (now - start) mod i)"

definition poll_rearm :: "('m) fs_poll_loop_scheme \<Rightarrow> nat \<Rightarrow> ('m) fs_poll_loop_scheme outcome" where
  "poll_rearm L c =
     obind (ptr_ok (poll_ctxs L c)) (\<lambda>x.
       let L = uv_fs_req_cleanup L (pc_fs_req x)
       in if pc_parent x = None then close_timer L (pc_timer x) (Some CB_FS_POLL_CLOSE)
          else obind (uv_timer_start L (pc_timer x) (Some CB_FS_POLL_TIMER)
                 (poll_delay (pc_interval x) (loop_time L) (pc_start_time x)) 0) (\<lambda>(r, L).
            assert_that (r = 0) (Ret L)))"

definition poll_cb :: "('m) fs_poll_loop_scheme poll_user \<Rightarrow> ('m) fs_poll_loop_scheme \<Rightarrow> nat \<Rightarrow> ('m) fs_poll_loop_scheme outcome" where
  "poll_cb user L c =
     obind (ptr_ok (poll_ctxs L c)) (\<lambda>x.
       let q = fs_reqs L (pc_fs_req x)
       in case pc_parent x of
            None \<Rightarrow>
              obind (close_timer L (pc_timer x) (Some CB_FS_POLL_CLOSE)) (\<lambda>L. Ret (uv_fs_req_cleanup L (pc_fs_req x)))
          | Some h \<Rightarrow>
              obind (if fs_result q \<noteq> 0 then poll_failed user L c x h (fs_errorno q)
                     else poll_ok user L c x h (fs_statbuf q)) (\<lambda>L. poll_rearm L c))"

end
