(* ===== verification/Core.thy ===== *)
theory Core
  imports Fs_Poll
begin

text \<open>
  The loop: \<open>uv_close\<close>, \<open>uv_run\<close> and what they are made of in \<open>src/unix/core.c\<close>, and the life of a
  loop in \<open>src/unix/loop.c\<close> and \<open>src/unix/linux/linux-core.c\<close>. Here the components meet: the type of a
  handle decides how it is closed, the number of a watcher's callback which component gets an
  event, the type of a request what is done when its work is.

  User code is a record of functions, one for each kind of callback. The kernel behind the poll
  and the pipe of the async handles has a state \<open>k\<close> of its own next to the loop. Library code that
  never returns is, seen from the poll, still waiting (\<open>Starve\<close>).
\<close>

section \<open>State and callbacks\<close>

record core_loop = fs_poll_loop +
  backend_fd :: int
  wq_async :: nat
  work_cbs :: "nat \<Rightarrow> nat option"
  gai_reqs :: "nat \<Rightarrow> gai_req"
  ctx_of_timer :: "nat \<Rightarrow> nat"
  ctx_of_req :: "nat \<Rightarrow> nat"
  stack_garbage :: nat

record 'l callbacks =
  on_stream :: "stream_event \<Rightarrow> 'l \<Rightarrow> 'l outcome"
  on_udp :: "udp_event \<Rightarrow> 'l \<Rightarrow> 'l outcome"
  on_alloc :: "nat \<Rightarrow> nat \<Rightarrow> 'l \<Rightarrow> nat \<times> 'l"
  on_timer :: "nat \<Rightarrow> nat \<Rightarrow> 'l \<Rightarrow> 'l outcome"
  on_watcher :: "nat \<Rightarrow> nat \<Rightarrow> 'l \<Rightarrow> 'l outcome"
  on_async :: "nat \<Rightarrow> nat \<Rightarrow> 'l \<Rightarrow> 'l outcome"
  on_signal :: "nat \<Rightarrow> nat \<Rightarrow> int \<Rightarrow> 'l \<Rightarrow> 'l outcome"
  on_exit :: "nat \<Rightarrow> nat \<Rightarrow> int \<Rightarrow> int \<Rightarrow> 'l \<Rightarrow> 'l outcome"
  on_fs_event :: "nat \<Rightarrow> nat \<Rightarrow> string \<Rightarrow> uint32 \<Rightarrow> 'l \<Rightarrow> 'l outcome"
  on_fs :: "nat \<Rightarrow> nat \<Rightarrow> 'l \<Rightarrow> 'l outcome"
  on_fs_poll :: "nat \<Rightarrow> nat \<Rightarrow> int \<Rightarrow> int list \<Rightarrow> int list \<Rightarrow> 'l \<Rightarrow> 'l outcome"
  on_work :: "nat \<Rightarrow> nat \<Rightarrow> int \<Rightarrow> 'l \<Rightarrow> 'l outcome"
  on_getaddrinfo :: "nat \<Rightarrow> int \<Rightarrow> 'l \<Rightarrow> 'l outcome"
  on_close :: "nat \<Rightarrow> nat \<Rightarrow> 'l \<Rightarrow> 'l outcome"

abbreviation (input) CB_ASYNC_IO :: nat where "CB_ASYNC_IO \<equiv> 12"
abbreviation (input) CB_WORK_DONE :: nat where "CB_WORK_DONE \<equiv> 13"

definition settle :: "'a run \<Rightarrow> 'a outcome" where
  "settle r = (case r of None \<Rightarrow> Starve | Some x \<Rightarrow> x)"

section \<open>Closing\<close>

text \<open>The switch of \<open>uv_close\<close>; a signal handle makes itself pending.\<close>

definition close_by_type :: "('m) core_loop_scheme \<Rightarrow> nat \<Rightarrow> ('m) core_loop_scheme outcome" where
  "close_by_type L h =
     (case h_type (handles L h) of
        UV_NAMED_PIPE \<Rightarrow> uv__pipe_close L h
      | UV_TTY \<Rightarrow> uv__stream_close L h
      | UV_TCP \<Rightarrow> uv__tcp_close L h
      | UV_UDP \<Rightarrow> uv__udp_close L h
      | UV_PREPARE \<Rightarrow> Ret (uv__name_close L h)
      | UV_CHECK \<Rightarrow> Ret (uv__name_close L h)
      | UV_IDLE \<Rightarrow> Ret (uv__name_close L h)
      | UV_ASYNC \<Rightarrow> Ret (uv__async_close L h)
      | UV_TIMER \<Rightarrow> uv__timer_close L h
      | UV_PROCESS \<Rightarrow> Ret (uv__process_close L h)
      | UV_FS_EVENT \<Rightarrow> uv__fs_event_close L h
      | UV_POLL \<Rightarrow> uv__poll_close L h
      | UV_FS_POLL \<Rightarrow> uv__fs_poll_close L h
      | UV_SIGNAL \<Rightarrow> uv__signal_close L h
      | _ \<Rightarrow> Abort)"

definition uv_close :: "('m) core_loop_scheme \<Rightarrow> nat \<Rightarrow> nat option \<Rightarrow> ('m) core_loop_scheme outcome" where
  "uv_close L h cb =
     obind (close_begin L h cb) (\<lambda>L.
     let ty = h_type (handles L h) in
     obind (close_by_type L h) (\<lambda>L.
       if ty = UV_SIGNAL then Ret L else uv__make_close_pending L h))"

text \<open>The switch of \<open>uv__finish_close\<close>.\<close>

definition finish_by_type :: "(('m) core_loop_scheme) callbacks \<Rightarrow> ('m) core_loop_scheme \<Rightarrow> nat \<Rightarrow> ('m) core_loop_scheme run" where
  "finish_by_type U L h =
     (case h_type (handles L h) of
        UV_NAMED_PIPE \<Rightarrow> uv__stream_destroy (on_stream U) L h
      | UV_TCP \<Rightarrow> uv__stream_destroy (on_stream U) L h
      | UV_TTY \<Rightarrow> uv__stream_destroy (on_stream U) L h
      | UV_UDP \<Rightarrow> uv__udp_finish_close (on_udp U) L h
      | UV_UNKNOWN_HANDLE \<Rightarrow> Some Abort
      | UV_HANDLE \<Rightarrow> Some Abort
      | UV_STREAM \<Rightarrow> Some Abort
      | UV_FILE \<Rightarrow> Some Abort
      | _ \<Rightarrow> Some (Ret L))"

text \<open>The close callback of the timer in a polling context is the library's own.\<close>

definition call_close :: "(('m) core_loop_scheme) callbacks \<Rightarrow> ('m) core_loop_scheme \<Rightarrow> nat \<Rightarrow> ('m) core_loop_scheme outcome" where
  "call_close U L h =
     (case h_close_cb (handles L h) of
        None \<Rightarrow> Ret L
      | Some c \<Rightarrow> if c = CB_FS_POLL_CLOSE then Ret (timer_close_cb L (ctx_of_timer L h)) else on_close U c h L)"

definition uv__finish_close :: "(('m) core_loop_scheme) callbacks \<Rightarrow> ('m) core_loop_scheme \<Rightarrow> nat \<Rightarrow> ('m) core_loop_scheme run" where
  "uv__finish_close U L h =
     rbind (Some (assert_that (\<not> uv__is_active L h)
       (assert_that (flag_on (flags_of L h) UV_CLOSING)
         (assert_that (\<not> flag_on (flags_of L h) UV_CLOSED)
           (Ret (set_flags h (flag_set (flags_of L h) UV_CLOSED) L)))))) (\<lambda>L.
     rbind (finish_by_type U L h) (\<lambda>L.
       let L = uv__handle_unref L h;
           L = L\<lparr>handle_queue := remove1 h (handle_queue L)\<rparr>
       in Some (call_close U L h)))"

text \<open>The list is taken over before the first handle is finished.\<close>

primrec finish_all :: "(('m) core_loop_scheme) callbacks \<Rightarrow> nat list \<Rightarrow> ('m) core_loop_scheme \<Rightarrow> ('m) core_loop_scheme run" where
  "finish_all U [] L = Some (Ret L)"
| "finish_all U (h # hs) L = rbind (uv__finish_close U L h) (finish_all U hs)"

definition uv__run_closing_handles :: "(('m) core_loop_scheme) callbacks \<Rightarrow> ('m) core_loop_scheme \<Rightarrow> ('m) core_loop_scheme run" where
  "uv__run_closing_handles U L = finish_all U (closing_handles L) (L\<lparr>closing_handles := []\<rparr>)"

section \<open>Events\<close>

definition signal_dispatch_cb :: "(('m) core_loop_scheme) callbacks \<Rightarrow> nat \<Rightarrow> nat \<Rightarrow> int \<Rightarrow>
    ('m) core_loop_scheme \<Rightarrow> ('m) core_loop_scheme outcome" where
  "signal_dispatch_cb U c h signum L =
     (if c = CB_CHLD then settle (uv__chld (on_exit U) signum L) else on_signal U c h signum L)"

definition fs_dispatch_cb :: "(('m) core_loop_scheme) callbacks \<Rightarrow> nat \<Rightarrow> nat \<Rightarrow>
    ('m) core_loop_scheme \<Rightarrow> ('m) core_loop_scheme outcome" where
  "fs_dispatch_cb U c r L =
     (if c = CB_FS_POLL_STAT then poll_cb (on_fs_poll U) L (ctx_of_req L r) else on_fs U c r L)"

definition timer_dispatch_cb :: "(('m) core_loop_scheme) callbacks \<Rightarrow> nat \<Rightarrow> nat \<Rightarrow>
    ('m) core_loop_scheme \<Rightarrow> ('m) core_loop_scheme outcome" where
  "timer_dispatch_cb U c h L =
     (if c = CB_FS_POLL_TIMER then settle (fs_poll_timer_cb (fs_dispatch_cb U) True L (ctx_of_timer L h))
      else on_timer U c h L)"

text \<open>\<open>uv__work_done\<close>: the \<open>done\<close> function of every finished request, by the type of the request.\<close>

definition work_done_one :: "(('m) core_loop_scheme) callbacks \<Rightarrow> nat \<Rightarrow> int \<Rightarrow> ('m) core_loop_scheme \<Rightarrow> ('m) core_loop_scheme outcome" where
  "work_done_one U r err L =
     (case rq_type (sreqs L r) of
        UV_FS \<Rightarrow> uv__fs_done (fs_dispatch_cb U) L r err
      | UV_WORK \<Rightarrow> uv__queue_done (on_work U) L r (work_cbs L r) err
      | UV_GETADDRINFO \<Rightarrow> uv__getaddrinfo_done (on_getaddrinfo U) L r (gai_reqs L r) err
      | _ \<Rightarrow> Abort)"

partial_function (option) work_done_loop :: "(('m) core_loop_scheme) callbacks \<Rightarrow> ('m) core_loop_scheme \<Rightarrow> ('m) core_loop_scheme run" where
  "work_done_loop U L =
     (case work_done_next (tpool_of L) of
        None \<Rightarrow> Some (Ret L)
      | Some ((r, err), P) \<Rightarrow>
          rbind (Some (work_done_one U r err (L\<lparr>tpool_of := P\<rparr>))) (work_done_loop U))"

definition uv__work_done :: "(('m) core_loop_scheme) callbacks \<Rightarrow> ('m) core_loop_scheme \<Rightarrow> ('m) core_loop_scheme run" where
  "uv__work_done U L = work_done_loop U (L\<lparr>tpool_of := work_done_take (tpool_of L)\<rparr>)"

definition async_dispatch_cb :: "(('m) core_loop_scheme) callbacks \<Rightarrow> nat \<Rightarrow> nat \<Rightarrow>
    ('m) core_loop_scheme \<Rightarrow> ('m) core_loop_scheme outcome" where
  "async_dispatch_cb U c h L =
     (if c = CB_WORK_DONE then settle (uv__work_done U L) else on_async U c h L)"

text \<open>The callback of a watcher; the watcher of a stream, socket or poll handle has its address.\<close>

definition watcher_dispatch :: "(('m) core_loop_scheme) callbacks \<Rightarrow> nat \<Rightarrow> nat \<Rightarrow> uint32 \<Rightarrow>
    ('m) core_loop_scheme \<Rightarrow> ('m) core_loop_scheme outcome" where
  "watcher_dispatch U c w ev L =
     (if c = CB_STREAM_IO then settle (uv__stream_io (on_stream U) (on_alloc U) L w ev)
      else if c = CB_SERVER_IO then settle (uv__server_io (on_stream U) L w ev)
      else if c = CB_PIPE_ACCEPT then uv__pipe_accept (on_stream U) L w
      else if c = CB_UDP_IO then settle (uv__udp_io (on_udp U) (on_alloc U) L w ev)
      else if c = CB_POLL_IO then uv__poll_io (on_udp U) L w ev
      else if c = CB_SIGNAL_EVENT then settle (uv__signal_event (signal_dispatch_cb U) (stack_garbage L) L)
      else if c = CB_INOTIFY_READ then settle (uv__inotify_read (on_fs_event U) L)
      else Abort)"

definition io_dispatch_cb :: "'k pipe_kernel \<Rightarrow> (('m) core_loop_scheme) callbacks \<Rightarrow> nat \<Rightarrow> nat \<Rightarrow> uint32 \<Rightarrow>
    'k \<times> ('m) core_loop_scheme \<Rightarrow> ('k \<times> ('m) core_loop_scheme) outcome" where
  "io_dispatch_cb PK U c w ev x =
     (let (k, L) = x
      in if c = CB_ASYNC_IO
         then (case uv__async_io PK (async_dispatch_cb U) k L of
                 None \<Rightarrow> Starve
               | Some (r, k) \<Rightarrow> obind r (\<lambda>L. Ret (k, L)))
         else obind (watcher_dispatch U c w ev L) (\<lambda>L. Ret (k, L)))"

section \<open>Running\<close>

datatype uv_run_mode = UV_RUN_DEFAULT | UV_RUN_ONCE | UV_RUN_NOWAIT

definition uv_backend_fd :: "('m) core_loop_scheme \<Rightarrow> int" where
  "uv_backend_fd L = backend_fd L"

definition uv_backend_timeout :: "('m) core_loop_scheme \<Rightarrow> int" where
  "uv_backend_timeout L =
     (if \<not> uv__has_active_handles L \<and> \<not> uv__has_active_reqs L then 0
      else if \<not> ngx_queue_empty (Head IDLE) (lw_queues L) then 0
      else if closing_handles L \<noteq> [] then 0
      else uv__next_timeout L)"

text \<open>The clock of the poll counts milliseconds already.\<close>

definition uv_update_time :: "'k epoll_kernel \<Rightarrow> 'k \<Rightarrow> ('m) uv_loop_scheme \<Rightarrow> ('m) uv_loop_scheme" where
  "uv_update_time K k L = L\<lparr>loop_time := hrtime_ms K k\<rparr>"

definition uv_now :: "('m) uv_loop_scheme \<Rightarrow> uint64" where
  "uv_now L = loop_time L"

text \<open>One turn of \<open>uv_run2\<close>.\<close>

definition run_turn :: "'k epoll_kernel \<Rightarrow> 'k pipe_kernel \<Rightarrow> (('m) core_loop_scheme) callbacks \<Rightarrow> uv_run_mode \<Rightarrow>
    'k \<times> ('m) core_loop_scheme \<Rightarrow> ('k \<times> ('m) core_loop_scheme) run" where
  "run_turn K PK U mode x =
     (let (k, L) = x
      in rbind (uv__run_timers (timer_dispatch_cb U) (uv_update_time K k L)) (\<lambda>L.
         rbind (uv__run_name (on_watcher U) IDLE L) (\<lambda>L.
         rbind (uv__run_name (on_watcher U) PREPARE L) (\<lambda>L.
         rbind (uv__run_pending (watcher_dispatch U) L) (\<lambda>L.
         rbind (uv__io_poll K (io_dispatch_cb PK U)
                  (if mode = UV_RUN_NOWAIT then 0 else uv_backend_timeout L) (k, L)) (\<lambda>(k, L).
         rbind (uv__run_name (on_watcher U) CHECK L) (\<lambda>L.
         rbind (uv__run_closing_handles U L) (\<lambda>L. Some (Ret (k, L))))))))))"

partial_function (option) run_loop :: "'k epoll_kernel \<Rightarrow> 'k pipe_kernel \<Rightarrow> (('m) core_loop_scheme) callbacks \<Rightarrow> uv_run_mode \<Rightarrow>
    'k \<times> ('m) core_loop_scheme \<Rightarrow> (bool \<times> 'k \<times> ('m) core_loop_scheme) run" where
  "run_loop K PK U mode x =
     rbind (run_turn K PK U mode x) (\<lambda>(k, L).
       if uv__loop_alive L \<and> mode = UV_RUN_DEFAULT then run_loop K PK U mode (k, L)
       else Some (Ret (uv__loop_alive L, k, L)))"

definition uv_run2 :: "'k epoll_kernel \<Rightarrow> 'k pipe_kernel \<Rightarrow> (('m) core_loop_scheme) callbacks \<Rightarrow> uv_run_mode \<Rightarrow>
    'k \<times> ('m) core_loop_scheme \<Rightarrow> (bool \<times> 'k \<times> ('m) core_loop_scheme) run" where
  "uv_run2 K PK U mode x =
     (if \<not> uv__loop_alive (snd x) then Some (Ret (False, x)) else run_loop K PK U mode x)"

definition uv_run :: "'k epoll_kernel \<Rightarrow> 'k pipe_kernel \<Rightarrow> (('m) core_loop_scheme) callbacks \<Rightarrow>
    'k \<times> ('m) core_loop_scheme \<Rightarrow> (bool \<times> 'k \<times> ('m) core_loop_scheme) run" where
  "uv_run K PK U x = uv_run2 K PK U UV_RUN_DEFAULT x"

section \<open>The life of a loop\<close>

abbreviation (input) UV__EPOLL_CLOEXEC :: uint32 where "UV__EPOLL_CLOEXEC \<equiv> 0x80000"

definition uv__platform_loop_init :: "('m) core_loop_scheme \<Rightarrow> (answer \<times> ('m) core_loop_scheme) outcome" where
  "uv__platform_loop_init L =
     obind (on_os (sys (Sys_epoll_create1 UV__EPOLL_CLOEXEC)) L) (\<lambda>(r, L).
     obind (if r = Err ENOSYS \<or> r = Err EINVAL
            then obind (on_os (sys Sys_epoll_create) L) (\<lambda>(r, L).
                 case r of
                   Val fd \<Rightarrow> obind (on_os (uv__cloexec fd True) L) (\<lambda>(_, L). Ret (r, L))
                 | _ \<Rightarrow> Ret (r, L))
            else Ret (r, L)) (\<lambda>(r, L).
       Ret (r, L\<lparr>backend_fd := answer_fd r, inotify_fd := - 1, inotify_watchers := RB_NULL\<rparr>)))"

definition null_handle :: uv_handle where
  "null_handle = \<lparr>h_type = UV_UNKNOWN_HANDLE, h_flags = 0, h_close_cb = None\<rparr>"

text \<open>The assignments of \<open>uv__loop_init\<close>, after \<open>memset\<close>, before the first call.\<close>

definition loop_clear :: "uint64 \<Rightarrow> ('m) core_loop_scheme \<Rightarrow> ('m) core_loop_scheme" where
  "loop_clear now L =
     L\<lparr>handles := (handles L)(child_watcher L := null_handle, wq_async L := null_handle),
       handle_queue := [], active_handles := 0, active_reqs := [], closing_handles := [],
       last_err := \<lparr>err_code = UV_OK, sys_errno = 0\<rparr>, loop_time := now, timer_handles := RB_NULL,
       watchers := [], nwatchers := 0, nfds := 0, watcher_queue := [], pending_queue := [],
       lw_queues := ngx_queue_init (Head IDLE) (ngx_queue_init (Head CHECK) (ngx_queue_init (Head PREPARE) (lw_queues L))),
       async_handles := ngx_queue_init None (async_handles L),
       async_pipefd := (- 1, - 1), signal_pipefd := (signal_pipefd L)(loop_addr L := (- 1, - 1)),
       backend_fd := - 1, emfile_fd := - 1, process_handles := [[]]\<rparr>"

definition mark_internal :: "nat \<Rightarrow> ('m) uv_loop_scheme \<Rightarrow> ('m) uv_loop_scheme" where
  "mark_internal h L =
     (let L = uv__handle_unref L h in set_flags h (flag_set (flags_of L h) UV__HANDLE_INTERNAL) L)"

text \<open>\<open>once\<close> says that the signal lock was made before; mutexes can always be made.\<close>

definition uv__loop_init :: "bool \<Rightarrow> uint64 \<Rightarrow> ('m) core_loop_scheme \<Rightarrow> (int \<times> ('m) core_loop_scheme) outcome" where
  "uv__loop_init once now L =
     obind (if once then Ret L else uv__signal_global_init L) (\<lambda>L.
     obind (uv__platform_loop_init (loop_clear now L)) (\<lambda>(r, L).
       if failed r then Ret (- 1, L)
       else
         obind (uv_signal_init L (child_watcher L)) (\<lambda>(_, L).
         let L = mark_internal (child_watcher L) L
         in obind (uv_async_init CB_ASYNC_IO L (wq_async L) CB_WORK_DONE) (\<lambda>(r, L).
              assert_that (r = 0) (Ret (0, mark_internal (wq_async L) L))))))"

definition close_if_open :: "int \<Rightarrow> (('m) core_loop_scheme \<Rightarrow> ('m) core_loop_scheme) \<Rightarrow>
    ('m) core_loop_scheme \<Rightarrow> ('m) core_loop_scheme outcome" where
  "close_if_open fd clear L =
     (if fd \<noteq> - 1 then obind (loop_close_fd fd L) (\<lambda>L. Ret (clear L)) else Ret L)"

definition uv__loop_delete :: "('m) core_loop_scheme \<Rightarrow> ('m) core_loop_scheme outcome" where
  "uv__loop_delete L =
     obind (uv__signal_loop_cleanup L) (\<lambda>L.
     obind (uv__platform_loop_delete L) (\<lambda>L.
     obind (close_if_open (fst (async_pipefd L)) (\<lambda>L. L\<lparr>async_pipefd := (- 1, snd (async_pipefd L))\<rparr>) L) (\<lambda>L.
     obind (close_if_open (snd (async_pipefd L)) (\<lambda>L. L\<lparr>async_pipefd := (fst (async_pipefd L), - 1)\<rparr>) L) (\<lambda>L.
     obind (close_if_open (emfile_fd L) (\<lambda>L. L\<lparr>emfile_fd := - 1\<rparr>) L) (\<lambda>L.
     obind (close_if_open (backend_fd L) (\<lambda>L. L\<lparr>backend_fd := - 1\<rparr>) L) (\<lambda>L.
       assert_that (loop_wq (tpool_of L) = [])
         (Ret (L\<lparr>watchers := [], nwatchers := 0\<rparr>))))))))"

text \<open>
  \<open>default_loop_ptr\<close> is a flag: it points to the default loop or is \<open>NULL\<close>. The first result of
  \<open>uv_default_loop\<close> and \<open>uv_loop_new\<close> says whether the pointer returned is not \<open>NULL\<close>; \<open>mem\<close> is the result of
  \<open>malloc\<close>. A deleted loop is not read again.
\<close>

definition uv_default_loop :: "bool \<Rightarrow> uint64 \<Rightarrow> bool \<Rightarrow> ('m) core_loop_scheme \<Rightarrow> (bool \<times> bool \<times> ('m) core_loop_scheme) outcome" where
  "uv_default_loop once now default_ptr L =
     (if default_ptr then Ret (True, True, L)
      else obind (uv__loop_init once now L) (\<lambda>(r, L). Ret (if r \<noteq> 0 then (False, False, L) else (True, True, L))))"

definition uv_loop_new :: "bool \<Rightarrow> bool \<Rightarrow> uint64 \<Rightarrow> ('m) core_loop_scheme \<Rightarrow> (bool \<times> ('m) core_loop_scheme) outcome" where
  "uv_loop_new mem once now L =
     (if \<not> mem then Ret (False, L)
      else obind (uv__loop_init once now L) (\<lambda>(r, L). Ret (r = 0, L)))"

definition uv_loop_delete :: "bool \<Rightarrow> bool \<Rightarrow> ('m) core_loop_scheme \<Rightarrow> (bool \<times> ('m) core_loop_scheme) outcome" where
  "uv_loop_delete is_default default_ptr L =
     obind (uv__loop_delete L) (\<lambda>L. Ret (if is_default then False else default_ptr, L))"

section \<open>A loop for examples\<close>

text \<open>The loop as \<open>uv__loop_init\<close> leaves it, with one descriptor in the table of watchers.\<close>

definition blank_core :: "uint64 \<Rightarrow> 'm \<Rightarrow> 'm core_loop_scheme" where
  "blank_core now m =
     \<lparr>handles = (\<lambda>_. null_handle), handle_queue = [], active_handles = 0, active_reqs = [],
      closing_handles = [], last_err = uv_ok_err, loop_time = now,
      timers = (\<lambda>_. \<lparr>timer_cb = None, timer_timeout = 0, timer_repeat = 0\<rparr>), timer_handles = RB_NULL,
      ios = (\<lambda>_. \<lparr>w_cb = 0, w_fd = - 1, w_events = 0, w_pevents = 0\<rparr>),
      watchers = [Some 1], nwatchers = 1, nfds = 1, watcher_queue = [], pending_queue = [],
      osys = blank_os,
      lw_queues = ngx_queue_init (Head IDLE) (ngx_queue_init (Head CHECK) (ngx_queue_init (Head PREPARE)
        \<lparr>q_prev = (\<lambda>_. Head IDLE), q_next = (\<lambda>_. Head IDLE)\<rparr>)),
      lw_cb = (\<lambda>_. None),
      async_handles = \<lparr>q_prev = (\<lambda>_. None), q_next = (\<lambda>_. None)\<rparr>, async_pending = (\<lambda>_. False),
      async_cb = (\<lambda>_. 0), async_pipefd = (- 1, - 1), async_watcher = 1,
      streams = (\<lambda>_. \<lparr>read_cb = None, read2_cb = None, alloc_cb = None, connection_cb = None,
        connect_req = None, shutdown_req = None, accepted_fd = - 1, delayed_error = 0, write_queue = [],
        write_completed_queue = [], write_queue_size = 0, ipc = False, pipe_fname = None\<rparr>),
      sreqs = (\<lambda>_. \<lparr>rq_type = UV_UNKNOWN_REQ, rq_cb = None, rq_handle = 0, rq_error = 0,
        rq_send_handle = None, rq_bufs = [], rq_index = 0\<rparr>),
      emfile_fd = - 1, emfile_trick = False, single_accept = True,
      udps = (\<lambda>_. \<lparr>udp_alloc_cb = None, udp_recv_cb = None, udp_write_queue = [], udp_completed_queue = []\<rparr>),
      usends = (\<lambda>_. \<lparr>us_bufs = [], us_addr = [], us_status = 0, us_cb = None, us_handle = 0\<rparr>),
      polls = (\<lambda>_. None), so_reuseport = True,
      loop_addr = 1,
      sigs = (\<lambda>_. \<lparr>sig_signum = 0, sig_cb = 0, sig_caught = 0, sig_dispatched = 0, sig_loop = 1\<rparr>),
      signal_tree = RB_NULL, signal_lock_pipefd = (10, 11), signal_actions = (\<lambda>_. False),
      signal_pipefd = (\<lambda>_. (12, 13)), signal_bytes = (\<lambda>_. []), signal_io_watcher = 2,
      procs = (\<lambda>_. \<lparr>p_pid = 0, p_errorno = 0, p_exit_cb = None\<rparr>), process_handles = [[]], child_watcher = 3,
      inotify_fd = - 1, inotify_read_watcher = 4, inotify_watchers = RB_NULL, inotify_bytes = [],
      watcher_lists = (\<lambda>_. None), fs_nodes = \<lparr>q_prev = (\<lambda>n. n), q_next = (\<lambda>n. n)\<rparr>,
      fs_event_handles = (\<lambda>_. \<lparr>fse_wd = - 1, fse_filename = None, fse_cb = 0\<rparr>),
      ttys = (\<lambda>_. \<lparr>tty_mode = 0, tty_orig = 0\<rparr>), orig_termios_fd = - 1, orig_termios = 0,
      fs_reqs = (\<lambda>_. \<lparr>fs_type = UV_FS_UNKNOWN, fs_cb = None, fs_result = 0, fs_ptr = Ptr_null, fs_path = None,
        fs_new_path = None, fs_errorno = 0, fs_file = - 1, fs_flags = 0, fs_mode = 0, fs_buf = [], fs_len = 0,
        fs_off = 0, fs_uid = 0, fs_gid = 0, fs_atime = 0, fs_mtime = 0, fs_statbuf = []\<rparr>),
      poll_ctxs = (\<lambda>_. None), fs_poll_ctx = (\<lambda>_. None), tpool_of = fresh_pool,
      backend_fd = 9, wq_async = 5, work_cbs = (\<lambda>_. None),
      gai_reqs = (\<lambda>_. \<lparr>gai_hints = False, gai_service = False, gai_hostname = False, gai_retcode = 0\<rparr>),
      ctx_of_timer = (\<lambda>_. 0), ctx_of_req = (\<lambda>_. 0), stack_garbage = 0, \<dots> = m\<rparr>"

end
