(* ===== verification/Signal_Props.thy ===== *)
theory Signal_Props
  imports Core
begin

text \<open>
  What signal watchers promise: the messages in the pipe and in the buffer are exactly those that
  the counters of the handles expect, so that a handle is closed after its last message and
  never before; the tree has the started watchers, and a signal has the library's handler exactly
  while some watcher is started for it.
\<close>

section \<open>The order of the tree\<close>

lemma uv__signal_compare_simps:
  "uv__signal_compare key a b < 0 \<longleftrightarrow> fst (key a) < fst (key b) \<or> fst (key a) = fst (key b) \<and>
     (snd (key a) < snd (key b) \<or> snd (key a) = snd (key b) \<and> a < b)"
  "0 < uv__signal_compare key b a \<longleftrightarrow> fst (key a) < fst (key b) \<or> fst (key a) = fst (key b) \<and>
     (snd (key a) < snd (key b) \<or> snd (key a) = snd (key b) \<and> a < b)"
  "uv__signal_compare key a b \<le> 0 \<longleftrightarrow> fst (key a) < fst (key b) \<or> fst (key a) = fst (key b) \<and>
     (snd (key a) < snd (key b) \<or> snd (key a) = snd (key b) \<and> a \<le> b)"
  "uv__signal_compare key a b = 0 \<longleftrightarrow> a = b"
  by (auto simp: uv__signal_compare_def)

interpretation signal_order: rb_order "uv__signal_compare key" for key
  by (rule rb_order.intro) (unfold uv__signal_compare_simps, auto)

lemma signal_sorted_cong:
  assumes "signal_order.sorted_tree key t" and "\<And>h. h \<in> set (rb_inorder t) \<Longrightarrow> key h = key' h"
  shows "signal_order.sorted_tree key' t"
proof -
  have "sorted_wrt (\<lambda>a b. uv__signal_compare key a b < 0) (rb_inorder t)"
    using assms(1) unfolding signal_order.sorted_tree_def by (rule conjunct2)
  then have "sorted_wrt (\<lambda>a b. uv__signal_compare key' a b < 0) (rb_inorder t)"
    by (rule sorted_wrt_mono_rel [rotated]) (simp add: uv__signal_compare_simps assms(2))
  with assms(1) show ?thesis by (simp add: signal_order.sorted_tree_def)
qed

text \<open>A tree of started handles.\<close>

definition signal_tree_ok :: "('m) signal_loop_scheme \<Rightarrow> bool" where
  "signal_tree_ok L \<longleftrightarrow> signal_order.sorted_tree (sig_key L) (signal_tree L) \<and>
     (\<forall>h \<in> set (rb_inorder (signal_tree L)). h \<noteq> 0 \<and> sig_loop (sigs L h) \<noteq> 0)"

lemma find_cong_on: "(\<And>x. x \<in> set xs \<Longrightarrow> P x = Q x) \<Longrightarrow> find P xs = find Q xs"
  by (induction xs) auto

text \<open>The first handle of a signal, and the handles of a signal are next to each other.\<close>

lemma find_first_eq:
  assumes "sorted_wrt (\<lambda>a b. f a \<le> (f b :: int)) xs"
  shows "(case find (\<lambda>y. s \<le> f y) xs of None \<Rightarrow> None | Some h \<Rightarrow> if f h = s then Some h else None) =
    find (\<lambda>y. f y = s) xs"
  using assms
proof (induction xs)
  case (Cons x xs)
  show ?case
  proof (cases "s < f x")
    case True
    then have "find (\<lambda>y. f y = s) xs = None" using Cons.prems by (auto simp: find_None_iff)
    with True show ?thesis by simp
  next
    case False
    with Cons show ?thesis by (cases "f x = s") auto
  qed
qed simp

lemma tree_signums_sorted:
  "signal_tree_ok L \<Longrightarrow> sorted_wrt (\<lambda>a b. signum_of L a \<le> signum_of L b) (rb_inorder (signal_tree L))"
  unfolding signal_tree_ok_def signal_order.sorted_tree_def
  by (elim conjE, rule sorted_wrt_mono_rel [rotated], assumption)
    (auto simp: uv__signal_compare_simps sig_key_def signum_of_def)

lemma first_handle_find:
  assumes "signal_tree_ok L"
  shows "uv__signal_first_handle L s = find (\<lambda>h. signum_of L h = s) (rb_inorder (signal_tree L))"
proof -
  let ?key = "(sig_key L)(0 := (s, 0))"
  have "signal_order.sorted_tree ?key (signal_tree L)"
  proof (rule signal_sorted_cong [of "sig_key L"])
    show "signal_order.sorted_tree (sig_key L) (signal_tree L)" using assms by (simp add: signal_tree_ok_def)
    fix h assume "h \<in> set (rb_inorder (signal_tree L))"
    then have "h \<noteq> 0" using assms by (simp add: signal_tree_ok_def)
    then show "sig_key L h = ?key h" by simp
  qed
  then have "rb_nfind (uv__signal_compare ?key) 0 (signal_tree L) =
      find (\<lambda>y. uv__signal_compare ?key 0 y \<le> 0) (rb_inorder (signal_tree L))"
    by (rule signal_order.nfind_inorder)
  also have "\<dots> = find (\<lambda>y. s \<le> signum_of L y) (rb_inorder (signal_tree L))"
    using assms by (intro find_cong_on)
      (auto simp: signal_tree_ok_def uv__signal_compare_simps sig_key_def signum_of_def)
  finally show ?thesis
    using find_first_eq [OF tree_signums_sorted [OF assms], of s]
    by (simp add: uv__signal_first_handle_def cong: option.case_cong)
qed

lemma first_handle_None:
  "signal_tree_ok L \<Longrightarrow> uv__signal_first_handle L s = None \<longleftrightarrow>
     (\<forall>h \<in> set (rb_inorder (signal_tree L)). signum_of L h \<noteq> s)"
  by (auto simp: first_handle_find find_None_iff)

section \<open>The handler\<close>

text \<open>The sends of the handler, one after the other.\<close>

primrec send_each :: "nat list \<Rightarrow> int \<Rightarrow> ('m) signal_loop_scheme \<Rightarrow> ('m) signal_loop_scheme outcome" where
  "send_each [] s L = Ret L"
| "send_each (h # hs) s L = obind (signal_send L h s) (send_each hs s)"

lemma on_os_Ret: "on_os f L = Ret (r, L') \<longleftrightarrow> (\<exists>s. f (osys L) = Ret (r, s) \<and> L' = L\<lparr>osys := s\<rparr>)"
  by (auto simp: on_os_def obind_eq_Ret)

lemma signal_send_cases:
  assumes "signal_send L h s = Ret L'"
  obtains os where "L' = L\<lparr>osys := os\<rparr>"
  | os where "L' = upd_sig h (\<lambda>s. s\<lparr>sig_caught := sig_caught s + 1\<rparr>)
      (L\<lparr>osys := os, signal_bytes := (signal_bytes L)(sig_loop (sigs L h) :=
         signal_bytes L (sig_loop (sigs L h)) @ signal_msg h s)\<rparr>)"
proof -
  let ?fd = "snd (signal_pipefd L (sig_loop (sigs L h)))"
  from assms obtain r os where
    r: "on_os (sys_retry (Sys_write ?fd (signal_msg h s))) L = Ret (r, L\<lparr>osys := os\<rparr>)"
    by (auto simp: signal_send_def Let_def obind_eq_Ret on_os_Ret)
  show thesis
    using assms by (cases r) (auto simp: signal_send_def Let_def r intro: that)
qed

lemma signal_send_frame:
  assumes "signal_send L h s = Ret L'"
  shows "signal_tree L' = signal_tree L" "signum_of L' k = signum_of L k" "sig_loop (sigs L' k) = sig_loop (sigs L k)"
  using assms by (cases rule: signal_send_cases; simp add: upd_sig_def signum_of_def)+

lemma send_all_from:
  assumes "rb_inorder (signal_tree L) = xs @ ys" and "distinct (rb_inorder (signal_tree L))"
  shows "signal_send_all L (case ys of [] \<Rightarrow> None | y # _ \<Rightarrow> Some y) s =
    Some (send_each (takeWhile (\<lambda>h. signum_of L h = s) ys) s L)"
  using assms
proof (induction ys arbitrary: xs L)
  case Nil
  then show ?case by (subst signal_send_all.simps) simp
next
  case (Cons h ys)
  show ?case
  proof (cases "signum_of L h = s")
    case False
    then show ?thesis by (subst signal_send_all.simps) simp
  next
    case True
    have "signal_send_all L' (rb_next h (signal_tree L')) s =
        Some (send_each (takeWhile (\<lambda>h. signum_of L h = s) ys) s L')"
      if "signal_send L h s = Ret L'" for L'
    proof -
      note fr = signal_send_frame [OF that]
      have io: "rb_inorder (signal_tree L') = (xs @ [h]) @ ys" and d: "distinct (rb_inorder (signal_tree L'))"
        using Cons.prems by (simp_all add: fr)
      have "rb_next h (signal_tree L') = (case ys of [] \<Rightarrow> None | y # _ \<Rightarrow> Some y)"
        using rb_next_inorder [of "signal_tree L'" xs h ys] io d by simp
      with Cons.IH [OF io d] show ?thesis by (simp add: fr)
    qed
    with True show ?thesis
      by (subst signal_send_all.simps) (cases "signal_send L h s"; simp)
  qed
qed

lemma takeWhile_dropWhile_filter:
  assumes "sorted_wrt (\<lambda>a b. f a \<le> (f b :: int)) xs"
  shows "takeWhile (\<lambda>x. f x = s) (dropWhile (\<lambda>x. f x \<noteq> s) xs) = filter (\<lambda>x. f x = s) xs"
  using assms
proof (induction xs)
  case (Cons x xs)
  have "takeWhile (\<lambda>x. f x = s) xs = filter (\<lambda>x. f x = s) xs" if "sorted_wrt (\<lambda>a b. f a \<le> f b) xs" "\<forall>y \<in> set xs. s \<le> f y" for xs
    using that by (induction xs) (auto simp: filter_empty_conv[symmetric] intro!: filter_False [symmetric])
  with Cons show ?case by auto
qed simp

lemma find_dropWhile: "find P xs = (case dropWhile (\<lambda>x. \<not> P x) xs of [] \<Rightarrow> None | y # _ \<Rightarrow> Some y)"
  by (induction xs) auto

text \<open>The handler writes to all the watchers of the signal, in the order of the tree.\<close>

lemma send_all_tree:
  assumes "signal_tree_ok L"
  shows "signal_send_all L (uv__signal_first_handle L s) s =
    Some (send_each (filter (\<lambda>h. signum_of L h = s) (rb_inorder (signal_tree L))) s L)"
proof -
  let ?xs = "rb_inorder (signal_tree L)"
  let ?ys = "dropWhile (\<lambda>h. signum_of L h \<noteq> s) ?xs"
  have xs: "?xs = takeWhile (\<lambda>h. signum_of L h \<noteq> s) ?xs @ ?ys" by simp
  have "distinct ?xs" using assms signal_order.sorted_tree_distinct by (auto simp: signal_tree_ok_def)
  from send_all_from [OF xs this, of s] show ?thesis
    unfolding first_handle_find [OF assms] find_dropWhile
      takeWhile_dropWhile_filter [OF tree_signums_sorted [OF assms]] .
qed

section \<open>Messages as bytes\<close>

lemma le_bytes_Suc: "le_bytes (Suc n) x = of_nat (x mod 256) # le_bytes n (x div 256)"
  by (simp add: le_bytes_def upt_conv_Cons div_mult2_eq flip: map_Suc_upt del: upt_Suc)

lemma length_le_bytes [simp]: "length (le_bytes n x) = n"
  by (simp add: le_bytes_def)

lemma le_nat_bytes: "x < 256 ^ n \<Longrightarrow> le_nat (le_bytes n x) = x"
proof (induction n arbitrary: x)
  case (Suc n)
  have "unat (of_nat (x mod 256) :: byte) = x mod 256"
    by (simp add: unsigned_of_nat take_bit_nat_eq_self)
  moreover have "le_nat (le_bytes n (x div 256)) = x div 256"
    using Suc by (simp add: less_mult_imp_div_less mult.commute)
  ultimately show ?case by (simp add: le_bytes_Suc)
qed (simp add: le_bytes_def)

lemma length_signal_msg [simp]: "length (signal_msg h s) = 16"
  by (simp add: signal_msg_def)

lemma msg_handle_signal_msg: "h < 2 ^ 64 \<Longrightarrow> msg_handle (signal_msg h s) = h"
  by (simp add: msg_handle_def signal_msg_def le_nat_bytes)

lemma msg_signum_signal_msg: "0 \<le> s \<Longrightarrow> s < 2 ^ 32 \<Longrightarrow> msg_signum (signal_msg h s) = s"
  by (simp add: msg_signum_def signal_msg_def le_nat_bytes)

text \<open>The whole messages in a sequence of bytes.\<close>

fun chunks :: "byte list \<Rightarrow> byte list list" where
  "chunks bs = (if length bs < 16 then [] else take 16 bs # chunks (drop 16 bs))"

declare chunks.simps [simp del]

lemma chunks_msg: "length m = 16 \<Longrightarrow> chunks (m @ bs) = m # chunks bs"
  by (subst chunks.simps) simp

lemma chunks_Nil [simp]: "chunks [] = []"
  by (subst chunks.simps) simp

lemma chunks_append: "16 dvd length a \<Longrightarrow> chunks (a @ b) = chunks a @ chunks b"
proof (induction a rule: chunks.induct)
  case (1 a)
  show ?case
  proof (cases "a = []")
    case False
    then have long: "16 \<le> length a" using "1.prems" dvd_imp_le by auto
    then have "a = take 16 a @ drop 16 a" "16 dvd length (drop 16 a)"
      using "1.prems" by (simp_all add: dvd_diff_nat)
    with "1.IH" long show ?thesis
      by (metis append.assoc append_Cons chunks_msg length_take min.absorb2 not_less)
  qed simp
qed

lemma length_chunks: "length (chunks bs) \<le> length bs"
  by (induction bs rule: chunks.induct) (subst chunks.simps, auto)

definition messages_for :: "nat \<Rightarrow> byte list \<Rightarrow> nat" where
  "messages_for h bs = count_list (map msg_handle (chunks bs)) h"

lemma messages_for_append: "16 dvd length a \<Longrightarrow> messages_for h (a @ b) = messages_for h a + messages_for h b"
  by (simp add: messages_for_def chunks_append)

lemma messages_for_msg:
  "length m = 16 \<Longrightarrow> messages_for h (m @ bs) = (if msg_handle m = h then 1 else 0) + messages_for h bs"
  by (simp add: messages_for_def chunks_msg)

lemma messages_for_le: "messages_for h bs \<le> length bs"
  unfolding messages_for_def by (metis count_le_length le_trans length_chunks length_map)

section \<open>The invariant\<close>

text \<open>The watchers: tree, dispositions and activity agree with the signals of the handles.\<close>

definition watchers_ok :: "('m) signal_loop_scheme \<Rightarrow> bool" where
  "watchers_ok L \<longleftrightarrow> signal_tree_ok L \<and>
     set (rb_inorder (signal_tree L)) = {h \<in> set (handle_queue L). signum_of L h \<noteq> 0} \<and>
     (\<forall>s. signal_actions L s \<longleftrightarrow> s \<noteq> 0 \<and> (\<exists>h \<in> set (handle_queue L). signum_of L h = s)) \<and>
     (\<forall>h \<in> set (handle_queue L). 0 \<le> signum_of L h \<and> signum_of L h \<le> 64 \<and>
        (uv__is_active L h \<longleftrightarrow> signum_of L h \<noteq> 0))"

definition closing_stopped :: "('m) signal_loop_scheme \<Rightarrow> bool" where
  "closing_stopped L \<longleftrightarrow> (\<forall>h \<in> set (handle_queue L). flag_on (flags_of L h) UV_CLOSING \<longrightarrow> signum_of L h = 0)"

text \<open>The bytes in the message pipe of the loop.\<close>

definition own_bytes :: "('m) signal_loop_scheme \<Rightarrow> byte list" where
  "own_bytes L = signal_bytes L (loop_addr L)"

text \<open>The messages: \<open>bs\<close> are the bytes in the buffer and in the pipe.\<close>

definition counts_ok :: "('m) signal_loop_scheme \<Rightarrow> byte list \<Rightarrow> bool" where
  "counts_ok L bs \<longleftrightarrow> distinct (handle_queue L) \<and> loop_addr L \<noteq> 0 \<and>
     fst (signal_pipefd L (loop_addr L)) \<noteq> - 1 \<and>
     (\<forall>m \<in> set (chunks bs). msg_signum m \<noteq> 0 \<and> msg_handle m \<in> set (handle_queue L)) \<and>
     (\<forall>h \<in> set (handle_queue L). 0 < h \<and> h < 2 ^ 64 \<and> sig_loop (sigs L h) = loop_addr L \<and>
        h_type (handles L h) = UV_SIGNAL \<and> \<not> flag_on (flags_of L h) UV_CLOSED \<and>
        sig_caught (sigs L h) = sig_dispatched (sigs L h) + of_nat (messages_for h bs)) \<and>
     distinct (closing_handles L) \<and>
     set (closing_handles L) =
       {h \<in> set (handle_queue L). flag_on (flags_of L h) UV_CLOSING \<and> messages_for h bs = 0}"

text \<open>What the operations on one watcher leave alone.\<close>

definition sig_frame :: "('m) signal_loop_scheme \<Rightarrow> ('m) signal_loop_scheme \<Rightarrow> bool" where
  "sig_frame L L' \<longleftrightarrow> handle_queue L' = handle_queue L \<and> closing_handles L' = closing_handles L \<and>
     loop_addr L' = loop_addr L \<and> signal_pipefd L' = signal_pipefd L \<and> signal_bytes L' = signal_bytes L \<and>
     (\<forall>k. h_type (handles L' k) = h_type (handles L k)) \<and>
     (\<forall>k. flag_on (flags_of L' k) UV_CLOSING = flag_on (flags_of L k) UV_CLOSING) \<and>
     (\<forall>k. flag_on (flags_of L' k) UV_CLOSED = flag_on (flags_of L k) UV_CLOSED) \<and>
     (\<forall>k. sig_caught (sigs L' k) = sig_caught (sigs L k) \<and> sig_dispatched (sigs L' k) = sig_dispatched (sigs L k) \<and>
        sig_loop (sigs L' k) = sig_loop (sigs L k)) \<and>
     set (script (osys L')) \<subseteq> set (script (osys L))"

lemma sig_frame_refl: "sig_frame L L"
  by (simp add: sig_frame_def)

lemma sig_frame_trans: "sig_frame L L' \<Longrightarrow> sig_frame L' L'' \<Longrightarrow> sig_frame L L''"
  by (auto simp: sig_frame_def)

lemma counts_frame: "sig_frame L L' \<Longrightarrow> counts_ok L' bs = counts_ok L bs"
  by (simp add: sig_frame_def counts_ok_def cong: conj_cong)

lemma own_bytes_frame: "sig_frame L L' \<Longrightarrow> own_bytes L' = own_bytes L"
  by (simp add: sig_frame_def own_bytes_def)

lemma handle_stop_sig [simp]:
  "sigs (uv__handle_stop L h) = sigs L" "signal_tree (uv__handle_stop L h) = signal_tree L"
  "signal_actions (uv__handle_stop L h) = signal_actions L" "loop_addr (uv__handle_stop L h) = loop_addr L"
  "signal_pipefd (uv__handle_stop L h) = signal_pipefd L" "signal_bytes (uv__handle_stop L h) = signal_bytes L"
  "sigs (uv__handle_start L h) = sigs L" "signal_tree (uv__handle_start L h) = signal_tree L"
  "signal_actions (uv__handle_start L h) = signal_actions L" "loop_addr (uv__handle_start L h) = loop_addr L"
  "osys (uv__handle_stop L h) = osys L" "osys (uv__handle_start L h) = osys L"
  "signal_pipefd (uv__handle_start L h) = signal_pipefd L" "signal_bytes (uv__handle_start L h) = signal_bytes L"
  by (simp_all add: handle_op_defs uv__active_handle_add_def uv__active_handle_rm_def set_flags_def)

lemma handle_stop_closing [simp]:
  "flag_on (flags_of (uv__handle_stop L h) k) UV_CLOSING = flag_on (flags_of L k) UV_CLOSING"
  "flag_on (flags_of (uv__handle_stop L h) k) UV_CLOSED = flag_on (flags_of L k) UV_CLOSED"
  "flag_on (flags_of (uv__handle_start L h) k) UV_CLOSING = flag_on (flags_of L k) UV_CLOSING"
  "flag_on (flags_of (uv__handle_start L h) k) UV_CLOSED = flag_on (flags_of L k) UV_CLOSED"
  by (auto simp: handle_op_defs flag_simps)

lemma upd_sig_fields [simp]:
  "handles (upd_sig h f L) = handles L" "handle_queue (upd_sig h f L) = handle_queue L"
  "closing_handles (upd_sig h f L) = closing_handles L" "flags_of (upd_sig h f L) k = flags_of L k"
  "uv__is_active (upd_sig h f L) k = uv__is_active L k"
  "signal_tree (upd_sig h f L) = signal_tree L" "signal_actions (upd_sig h f L) = signal_actions L"
  "loop_addr (upd_sig h f L) = loop_addr L" "signal_pipefd (upd_sig h f L) = signal_pipefd L"
  "signal_bytes (upd_sig h f L) = signal_bytes L" "osys (upd_sig h f L) = osys L"
  "sigs (upd_sig h f L) = (sigs L)(h := f (sigs L h))"
  by (simp_all add: upd_sig_def flags_of_def uv__is_active_def)

lemma flags_of_record [simp]:
  "flags_of (L\<lparr>osys := os\<rparr>) k = flags_of L k" "flags_of (L\<lparr>signal_tree := t\<rparr>) k = flags_of L k"
  "flags_of (L\<lparr>signal_actions := a\<rparr>) k = flags_of L k" "flags_of (L\<lparr>signal_bytes := b\<rparr>) k = flags_of L k"
  "flags_of (L\<lparr>last_err := e\<rparr>) k = flags_of L k" "flags_of (L\<lparr>closing_handles := c\<rparr>) k = flags_of L k"
  by (simp_all add: flags_of_def)

lemma is_active_record [simp]:
  "uv__is_active (L\<lparr>osys := os\<rparr>) k = uv__is_active L k" "uv__is_active (L\<lparr>signal_tree := t\<rparr>) k = uv__is_active L k"
  "uv__is_active (L\<lparr>signal_actions := a\<rparr>) k = uv__is_active L k"
  "uv__is_active (L\<lparr>signal_bytes := b\<rparr>) k = uv__is_active L k"
  "uv__is_active (L\<lparr>last_err := e\<rparr>) k = uv__is_active L k"
  "uv__is_active (L\<lparr>closing_handles := c\<rparr>) k = uv__is_active L k"
  by (simp_all add: uv__is_active_def)

lemma sys_script: "sys c s = Ret (r, s') \<Longrightarrow> r \<in> set (script s) \<and> set (script s') \<subseteq> set (script s)"
  by (auto simp: sys_def split: list.splits)

lemma sys_retry_script: "sys_retry c s = Ret (r, s') \<Longrightarrow> set (script s') \<subseteq> set (script s)"
proof -
  have "sys_retry_on c rs s = Ret (r, s') \<Longrightarrow> script s = rs \<Longrightarrow> set (script s') \<subseteq> set rs" for rs
    by (induction rs arbitrary: s) (fastforce simp: Let_def split: if_splits)+
  then show "sys_retry c s = Ret (r, s') \<Longrightarrow> set (script s') \<subseteq> set (script s)" by (simp add: sys_retry_def)
qed

text \<open>\<open>os_step L os\<close>: the answers that are left after some calls of the process \<open>L\<close>.\<close>

definition os_step :: "('m) net_loop_scheme \<Rightarrow> os \<Rightarrow> bool" where
  "os_step L os \<longleftrightarrow> set (script os) \<subseteq> set (script (osys L))"

lemma lock_Ret:
  "uv__signal_lock L = Ret (r, L') \<Longrightarrow> \<exists>os. L' = L\<lparr>osys := os\<rparr> \<and> os_step L os"
  "uv__signal_unlock L = Ret (r, L') \<Longrightarrow> \<exists>os. L' = L\<lparr>osys := os\<rparr> \<and> os_step L os"
  "uv__signal_block_and_lock L = Ret L' \<Longrightarrow> \<exists>os. L' = L\<lparr>osys := os\<rparr> \<and> os_step L os"
  "uv__signal_unlock_and_unblock L = Ret L' \<Longrightarrow> \<exists>os. L' = L\<lparr>osys := os\<rparr> \<and> os_step L os"
proof -
  show *: "uv__signal_lock L = Ret (r, L') \<Longrightarrow> \<exists>os. L' = L\<lparr>osys := os\<rparr> \<and> os_step L os" for r
    by (auto simp: uv__signal_lock_def obind_eq_Ret on_os_Ret os_step_def dest: sys_retry_script)
  show **: "uv__signal_unlock L = Ret (r, L') \<Longrightarrow> \<exists>os. L' = L\<lparr>osys := os\<rparr> \<and> os_step L os" for r
    by (auto simp: uv__signal_unlock_def obind_eq_Ret on_os_Ret os_step_def dest: sys_retry_script)
  show "uv__signal_block_and_lock L = Ret L' \<Longrightarrow> \<exists>os. L' = L\<lparr>osys := os\<rparr> \<and> os_step L os"
    by (auto simp: uv__signal_block_and_lock_def obind_eq_Ret dest!: *)
  show "uv__signal_unlock_and_unblock L = Ret L' \<Longrightarrow> \<exists>os. L' = L\<lparr>osys := os\<rparr> \<and> os_step L os"
    by (auto simp: uv__signal_unlock_and_unblock_def obind_eq_Ret dest!: **)
qed

lemma tree_ok_cong:
  assumes "signal_tree_ok L" and "signal_tree L' = signal_tree L"
    and "\<And>h. h \<in> set (rb_inorder (signal_tree L)) \<Longrightarrow> sig_key L' h = sig_key L h"
  shows "signal_tree_ok L'"
proof -
  have "signal_order.sorted_tree (sig_key L') (signal_tree L)"
    using assms(1,3) by (auto simp: signal_tree_ok_def intro: signal_sorted_cong [of "sig_key L"])
  moreover have "sig_loop (sigs L' h) = sig_loop (sigs L h)" if "h \<in> set (rb_inorder (signal_tree L))" for h
    using assms(3) [OF that] by (simp add: sig_key_def)
  ultimately show ?thesis using assms(1,2) by (simp add: signal_tree_ok_def)
qed

lemma osys_first [simp]:
  "L\<lparr>signal_tree := t, osys := s\<rparr> = L\<lparr>osys := s, signal_tree := t\<rparr>"
  "L\<lparr>signal_actions := a, osys := s\<rparr> = L\<lparr>osys := s, signal_actions := a\<rparr>"
  "L\<lparr>osys := s, signal_tree := t, signal_actions := signal_actions L\<rparr> = L\<lparr>osys := s, signal_tree := t\<rparr>"
  for L :: "('m) signal_loop_scheme"
  by (cases L; simp)+

lemma obind_RetE: "obind m f = Ret y \<Longrightarrow> (\<And>x. m = Ret x \<Longrightarrow> f x = Ret y \<Longrightarrow> P) \<Longrightarrow> P"
  by (cases m) simp_all

lemma first_handle_os [simp]:
  "uv__signal_first_handle (L\<lparr>osys := os\<rparr>) s = uv__signal_first_handle L s"
  "uv__signal_first_handle (L\<lparr>osys := os, signal_tree := t\<rparr>) s = uv__signal_first_handle (L\<lparr>signal_tree := t\<rparr>) s"
  for L :: "('m) signal_loop_scheme"
  by (simp_all add: uv__signal_first_handle_def sig_key_def [abs_def] signum_of_def cong: option.case_cong)

lemma signum_of_record [simp]:
  "signum_of (L\<lparr>osys := os\<rparr>) h = signum_of L h" "signum_of (L\<lparr>signal_tree := t\<rparr>) h = signum_of L h"
  "signum_of (L\<lparr>last_err := e\<rparr>) h = signum_of L h" "signum_of (L\<lparr>signal_actions := a\<rparr>) h = signum_of L h"
  "signum_of (L\<lparr>signal_bytes := b\<rparr>) h = signum_of L h" "signum_of (L\<lparr>closing_handles := c\<rparr>) h = signum_of L h"
  by (simp_all add: signum_of_def)

text \<open>A stop takes the handle out of the tree and gives the signal back when no other watcher is left.\<close>

lemma stop_unfold:
  assumes "uv__signal_stop L h = Ret L'" and "signum_of L h \<noteq> 0"
  obtains t where "rb_remove h (signal_tree L) = Some t" and "signal_tree L' = t" and "sig_frame L L'"
    and "\<And>s. signal_actions L' s \<longleftrightarrow> signal_actions L s \<and>
      (uv__signal_first_handle (L\<lparr>signal_tree := t\<rparr>) (signum_of L h) = None \<longrightarrow> s \<noteq> signum_of L h)"
    and "\<And>k. signum_of L' k = (if k = h then 0 else signum_of L k)"
    and "\<And>k. uv__is_active L' k \<longleftrightarrow> k \<noteq> h \<and> uv__is_active L k"
proof -
  from assms obtain L1 t L2 L3 where L1: "uv__signal_block_and_lock L = Ret L1"
    and t: "rb_remove h (signal_tree L1) = Some t"
    and L2: "(if uv__signal_first_handle (L1\<lparr>signal_tree := t\<rparr>) (signum_of (L1\<lparr>signal_tree := t\<rparr>) h) = None
      then uv__signal_unregister_handler (signum_of (L1\<lparr>signal_tree := t\<rparr>) h) (L1\<lparr>signal_tree := t\<rparr>)
      else Ret (L1\<lparr>signal_tree := t\<rparr>)) = Ret L2"
    and L3: "uv__signal_unlock_and_unblock L2 = Ret L3"
    and L': "L' = uv__handle_stop (upd_sig h (\<lambda>s. s\<lparr>sig_signum := 0\<rparr>) L3) h"
    by (auto simp: uv__signal_stop_def obind_eq_Ret Let_def simp del: signum_of_record)
  obtain os where os: "L1 = L\<lparr>osys := os\<rparr>" "os_step L os" using lock_Ret(3) [OF L1] by blast
  obtain os3 where os3: "L3 = L2\<lparr>osys := os3\<rparr>" "os_step L2 os3" using lock_Ret(4) [OF L3] by blast
  let ?none = "uv__signal_first_handle (L\<lparr>signal_tree := t\<rparr>) (signum_of L h) = None"
  have L2': "sigs L2 = sigs L \<and> signal_tree L2 = t \<and> handles L2 = handles L \<and> sig_frame L L2 \<and>
      signal_actions L2 = (if ?none then (signal_actions L)(signum_of L h := False) else signal_actions L)"
    using L2 os unfolding os(1)
    by (cases ?none) (auto simp: uv__signal_unregister_handler_def obind_eq_Ret on_os_Ret os_step_def sig_frame_def
      dest!: sys_script)
  show thesis
  proof (rule that [of t])
    have "uv__is_active L2 k = uv__is_active L k" for k
      using L2' by (simp add: uv__is_active_def flags_of_def)
    then show "uv__is_active L' k \<longleftrightarrow> k \<noteq> h \<and> uv__is_active L k" for k
      by (simp add: L' os3(1))
    show "sig_frame L L'" using L2' os3(2) by (auto simp: L' os3(1) sig_frame_def os_step_def)
  qed (use t L2' in \<open>auto simp: os L' os3(1) signum_of_def split: if_splits\<close>)
qed

lemma stop_effect:
  assumes "watchers_ok L" and "h \<in> set (handle_queue L)" and "uv__signal_stop L h = Ret L'"
  shows "sig_frame L L' \<and> watchers_ok L' \<and> (\<forall>k. signum_of L' k = (if k = h then 0 else signum_of L k))"
proof (cases "signum_of L h = 0")
  case True
  with assms(1,3) show ?thesis by (auto simp: uv__signal_stop_def sig_frame_refl)
next
  case False
  obtain t where
    t: "rb_remove h (signal_tree L) = Some t" "signal_tree L' = t" and fr: "sig_frame L L'"
    and a: "\<And>s. signal_actions L' s \<longleftrightarrow> signal_actions L s \<and>
      (uv__signal_first_handle (L\<lparr>signal_tree := t\<rparr>) (signum_of L h) = None \<longrightarrow> s \<noteq> signum_of L h)"
    and sg: "\<And>k. signum_of L' k = (if k = h then 0 else signum_of L k)"
    and act: "\<And>k. uv__is_active L' k \<longleftrightarrow> k \<noteq> h \<and> uv__is_active L k"
    by (rule stop_unfold [OF assms(3) False], rule that)
  have q: "handle_queue L' = handle_queue L" using fr by (simp add: sig_frame_def)
  have ok: "signal_tree_ok L" and elems: "set (rb_inorder (signal_tree L)) = {h \<in> set (handle_queue L). signum_of L h \<noteq> 0}"
    using assms(1) by (simp_all add: watchers_ok_def)
  have "h \<in> set (rb_inorder (signal_tree L))" using elems assms(2) False by simp
  with t ok have sorted: "signal_order.sorted_tree (sig_key L) t" and io: "rb_inorder t = remove1 h (rb_inorder (signal_tree L))"
    using signal_order.remove_present [of "sig_key L" "signal_tree L" h] by (auto simp: signal_tree_ok_def)
  have "distinct (rb_inorder (signal_tree L))"
    using ok signal_order.sorted_tree_distinct by (auto simp: signal_tree_ok_def)
  then have set_t: "set (rb_inorder t) = {k \<in> set (handle_queue L). signum_of L k \<noteq> 0 \<and> k \<noteq> h}"
    using elems by (auto simp: io set_remove1_distinct)
  have okt: "signal_tree_ok (L\<lparr>signal_tree := t\<rparr>)"
    using sorted ok set_t elems by (auto simp: signal_tree_ok_def sig_key_def [abs_def])
  have "sig_key L' k = sig_key (L\<lparr>signal_tree := t\<rparr>) k" if "k \<in> set (rb_inorder t)" for k
    using that set_t sg [of k] fr by (simp add: sig_key_def signum_of_def sig_frame_def)
  then have ok': "signal_tree_ok L'"
    by (intro tree_ok_cong [OF okt]) (simp_all add: t)
  have "uv__signal_first_handle (L\<lparr>signal_tree := t\<rparr>) (signum_of L h) = None \<longleftrightarrow>
      (\<forall>k \<in> set (handle_queue L). k \<noteq> h \<longrightarrow> signum_of L k \<noteq> signum_of L h)"
    using first_handle_None [OF okt, of "signum_of L h"] False by (auto simp: set_t signum_of_def)
  then have acts: "signal_actions L' s \<longleftrightarrow> s \<noteq> 0 \<and> (\<exists>k \<in> set (handle_queue L'). signum_of L' k = s)" for s
    using assms(1,2) False unfolding sg q
    by (cases "s = signum_of L h") (auto simp: a watchers_ok_def)
  have "watchers_ok L'"
    using assms(1) ok' set_t acts unfolding watchers_ok_def sg q by (auto simp: act t)
  with fr sg show ?thesis by simp
qed

text \<open>Starting: what the section under the lock does to a stopped watcher, and the whole.\<close>

lemma register_effect:
  assumes "uv__signal_register_handler s L = Ret (e, L')" and "Err 0 \<notin> set (script (osys L))"
  shows "sigs L' = sigs L \<and> signal_tree L' = signal_tree L \<and> handles L' = handles L \<and> sig_frame L L' \<and>
    signal_actions L' = (if err_code e = UV_OK then (signal_actions L)(s := True) else signal_actions L)"
proof -
  from assms(1) obtain r os where r: "sys (Sys_sigaction s True) (osys L) = Ret (r, os)"
    and res: "(case r of Err e \<Rightarrow> Ret (uv__new_sys_error e, L\<lparr>osys := os\<rparr>)
       | _ \<Rightarrow> Ret (uv_ok_err, L\<lparr>osys := os, signal_actions := (signal_actions (L\<lparr>osys := os\<rparr>))(s := True)\<rparr>)) = Ret (e, L')"
    by (auto simp: uv__signal_register_handler_def on_os_def obind_eq_Ret)
  have "r \<noteq> Err 0" "set (script os) \<subseteq> set (script (osys L))" using sys_script [OF r] assms(2) by auto
  with res show ?thesis
    by (cases r) (auto simp: sig_frame_def uv_new_sys_error_ok uv_ok_err_def)
qed

lemma start_locked_unfold:
  assumes "signal_start_locked L h s = Ret (r, L')" and "Err 0 \<notin> set (script (osys L))"
  obtains (failed) "r = - 1" and "sig_frame L L'" and "signal_tree L' = signal_tree L"
      and "signal_actions L' = signal_actions L" and "sigs L' = sigs L"
      and "\<And>k. uv__is_active L' k = uv__is_active L k"
  | (started) x t where "r = 0" and "sig_frame L L'" and "signal_tree L' = t"
      and "rb_insert (uv__signal_compare ((sig_key L)(h := (s, sig_loop (sigs L h))))) h (signal_tree L) = Some (x, t)"
      and "\<And>s'. signal_actions L' s' \<longleftrightarrow> signal_actions L s' \<or> uv__signal_first_handle L s = None \<and> s' = s"
      and "\<And>k. signum_of L' k = (if k = h then s else signum_of L k)"
      and "\<And>k. uv__is_active L' k = uv__is_active L k"
proof -
  let ?none = "uv__signal_first_handle L s = None"
  have key: "sig_key (upd_sig h (\<lambda>x. x\<lparr>sig_signum := s\<rparr>) M) = (sig_key M)(h := (s, sig_loop (sigs M h)))"
    for M :: "('a) signal_loop_scheme" by (rule ext) (simp add: sig_key_def)
  obtain L1 where L1: "uv__signal_block_and_lock L = Ret L1"
    using assms(1) by (cases "uv__signal_block_and_lock L") (simp_all add: signal_start_locked_def)
  let ?m = "if uv__signal_first_handle L1 s = None then uv__signal_register_handler s L1 else Ret (uv_ok_err, L1)"
  note eq = assms(1) [unfolded signal_start_locked_def L1 obind.simps]
  then obtain p where p: "?m = Ret p" by (cases ?m) simp_all
  note rest = eq [unfolded p obind.simps]
  obtain err L2 where pe: "p = (err, L2)" by (cases p)
  obtain os where os: "L1 = L\<lparr>osys := os\<rparr>" "os_step L os" using lock_Ret(3) [OF L1] by blast
  have L2': "sigs L2 = sigs L \<and> signal_tree L2 = signal_tree L \<and> handles L2 = handles L \<and> sig_frame L L2 \<and>
      signal_actions L2 = (if ?none \<and> err_code err = UV_OK then (signal_actions L)(s := True) else signal_actions L)"
  proof (cases ?none)
    case True
    then have "uv__signal_register_handler s L1 = Ret (err, L2)" using p by (simp add: pe os)
    moreover have "Err 0 \<notin> set (script (osys L1))" using os assms(2) by (auto simp: os_step_def)
    ultimately have "sigs L2 = sigs L1 \<and> signal_tree L2 = signal_tree L1 \<and> handles L2 = handles L1 \<and> sig_frame L1 L2 \<and>
        signal_actions L2 = (if err_code err = UV_OK then (signal_actions L1)(s := True) else signal_actions L1)"
      by (rule register_effect)
    moreover have "sig_frame L L1" using os by (simp add: sig_frame_def os_step_def)
    ultimately show ?thesis using True sig_frame_trans by (auto simp: os)
  next
    case False
    then obtain y where y: "uv__signal_first_handle L s = Some y" by auto
    with p have "L2 = L1" by (simp add: pe os)
    with y os show ?thesis by (simp add: sig_frame_def os_step_def)
  qed
  show thesis
  proof (cases "err_code err = UV_OK")
    case False
    with rest obtain os3 where "r = - 1" "L' = L2\<lparr>last_err := err, osys := os3\<rparr>" "os_step L2 os3"
      by (auto simp: pe obind_eq_Ret os_step_def dest!: lock_Ret(4))
    with False L2' show thesis
      by (intro failed) (auto simp: sig_frame_def os_step_def uv__is_active_def flags_of_def)
  next
    case True
    let ?M = "upd_sig h (\<lambda>x. x\<lparr>sig_signum := s\<rparr>) L2"
    from True rest obtain x t L3 where ins: "rb_insert (uv__signal_compare (sig_key ?M)) h (signal_tree ?M) = Some (x, t)"
      and L3: "uv__signal_unlock_and_unblock (?M\<lparr>signal_tree := t\<rparr>) = Ret L'" "r = 0"
      by (auto simp: pe obind_eq_Ret Let_def)
    obtain os3 where os3: "L' = ?M\<lparr>signal_tree := t, osys := os3\<rparr>" "os_step L2 os3"
      using lock_Ret(4) [OF L3(1)] by (auto simp: os_step_def)
    have "sig_key ?M = (sig_key L)(h := (s, sig_loop (sigs L h)))"
      using L2' by (auto simp: key sig_key_def fun_eq_iff)
    with ins L2' have ins': "rb_insert (uv__signal_compare ((sig_key L)(h := (s, sig_loop (sigs L h))))) h
        (signal_tree L) = Some (x, t)" by simp
    have "uv__is_active L2 k = uv__is_active L k" for k
      using L2' by (simp add: uv__is_active_def flags_of_def)
    with True L2' os3 L3 ins' show thesis
      by (intro started [of t x]) (auto simp: sig_frame_def os_step_def signum_of_def)
  qed
qed

lemma start_locked_effect:
  assumes "watchers_ok L" and "h \<in> set (handle_queue L)" and "h \<noteq> 0" and "sig_loop (sigs L h) \<noteq> 0"
    and "signum_of L h = 0" and "1 \<le> s" and "s \<le> 64"
    and "signal_start_locked L h s = Ret (0, L')" and "Err 0 \<notin> set (script (osys L))"
  shows "sig_frame L L' \<and> watchers_ok (uv__handle_start (upd_sig h (\<lambda>x. x\<lparr>sig_cb := cb\<rparr>) L') h) \<and>
    (\<forall>k. signum_of L' k = (if k = h then s else signum_of L k))"
proof -
  obtain x t where fr: "sig_frame L L'" and t: "signal_tree L' = t"
    and ins: "rb_insert (uv__signal_compare ((sig_key L)(h := (s, sig_loop (sigs L h))))) h (signal_tree L) = Some (x, t)"
    and acts: "\<And>s'. signal_actions L' s' \<longleftrightarrow> signal_actions L s' \<or> uv__signal_first_handle L s = None \<and> s' = s"
    and sg: "\<And>k. signum_of L' k = (if k = h then s else signum_of L k)"
    and act: "\<And>k. uv__is_active L' k = uv__is_active L k"
    by (cases rule: start_locked_unfold [OF assms(8,9)]) auto
  let ?key = "(sig_key L)(h := (s, sig_loop (sigs L h)))"
  let ?N = "uv__handle_start (upd_sig h (\<lambda>x. x\<lparr>sig_cb := cb\<rparr>) L') h"
  have ok: "signal_tree_ok L" and elems: "set (rb_inorder (signal_tree L)) = {h \<in> set (handle_queue L). signum_of L h \<noteq> 0}"
    using assms(1) by (simp_all add: watchers_ok_def)
  have notin: "h \<notin> set (rb_inorder (signal_tree L))" using elems assms(5) by simp
  have "signal_order.sorted_tree (sig_key L) (signal_tree L)" using ok by (simp add: signal_tree_ok_def)
  then have "signal_order.sorted_tree ?key (signal_tree L)"
    by (rule signal_sorted_cong) (use notin in auto)
  from signal_order.insert_new [OF this, of h] notin obtain t' xs ys where
    "rb_insert (uv__signal_compare ?key) h (signal_tree L) = Some (None, t')" "signal_order.sorted_tree ?key t'"
    "rb_inorder (signal_tree L) = xs @ ys" "rb_inorder t' = xs @ h # ys"
    by (auto simp: uv__signal_compare_simps)
  then have sorted: "signal_order.sorted_tree ?key t" and set_t: "set (rb_inorder t) = insert h (set (rb_inorder (signal_tree L)))"
    using ins by auto
  have q: "handle_queue ?N = handle_queue L" using fr by (simp add: sig_frame_def)
  have sgN: "signum_of ?N k = (if k = h then s else signum_of L k)" for k
    using sg [of k] by (auto simp: signum_of_def)
  have keyN: "sig_key ?N = ?key"
    using fr sg by (auto simp: sig_key_def sig_frame_def fun_eq_iff signum_of_def)
  have "signal_tree_ok ?N"
    using sorted set_t ok assms(3,4) fr by (auto simp: signal_tree_ok_def keyN t sig_frame_def)
  moreover have "set (rb_inorder (signal_tree ?N)) = {k \<in> set (handle_queue ?N). signum_of ?N k \<noteq> 0}"
    using set_t elems assms(2,6) unfolding sgN q by (auto simp: t)
  moreover have "signal_actions ?N s' \<longleftrightarrow> s' \<noteq> 0 \<and> (\<exists>k \<in> set (handle_queue ?N). signum_of ?N k = s')" for s'
    using assms(1,2,5,6) first_handle_None [OF ok, of s] elems unfolding sgN q
    by (cases "s' = s") (auto simp: watchers_ok_def acts)
  moreover have "uv__is_active ?N k \<longleftrightarrow> k = h \<or> uv__is_active L k" for k by (simp add: act)
  ultimately have "watchers_ok ?N"
    using assms(1,2,6,7) unfolding watchers_ok_def sgN q by auto
  with fr sg show ?thesis by simp
qed

lemma watchers_same:
  assumes "handle_queue L' = handle_queue L" and "signal_tree L' = signal_tree L"
    and "signal_actions L' = signal_actions L" and "\<And>k. signum_of L' k = signum_of L k"
    and "\<And>k. sig_loop (sigs L' k) = sig_loop (sigs L k)" and "\<And>k. uv__is_active L' k = uv__is_active L k"
  shows "watchers_ok L' = watchers_ok L"
proof -
  have "sig_key L' = sig_key L" using assms(4,5) by (auto simp: sig_key_def signum_of_def)
  then show ?thesis using assms by (simp add: watchers_ok_def signal_tree_ok_def)
qed

lemma not_closing: "flag_on f (UV_CLOSING OR UV_CLOSED) \<longleftrightarrow> flag_on f UV_CLOSING \<or> flag_on f UV_CLOSED"
proof -
  have "f AND (UV_CLOSING OR UV_CLOSED) = (f AND UV_CLOSING) OR (f AND UV_CLOSED)"
    by (rule bit.conj_disj_distrib)
  then show ?thesis by (simp only: flag_on_def or_eq_0_iff) blast
qed

lemma start_effect:
  assumes "watchers_ok L" and "closing_stopped L" and "h \<in> set (handle_queue L)" and "h \<noteq> 0" and "sig_loop (sigs L h) \<noteq> 0"
    and "uv_signal_start L h cb s = Ret (r, L')" and "r = 0 \<longrightarrow> 1 \<le> s \<and> s \<le> 64" and "Err 0 \<notin> set (script (osys L))"
  shows "sig_frame L L' \<and> watchers_ok L' \<and> closing_stopped L'"
proof -
  have open_h: "\<not> flag_on (flags_of L h) (UV_CLOSING OR UV_CLOSED)" using assms(6) by (simp add: uv_signal_start_def)
  consider (zero) "s = 0" | (same) "s \<noteq> 0" "s = signum_of L h" | (new) "s \<noteq> 0" "s \<noteq> signum_of L h" by blast
  then show ?thesis
  proof cases
    case zero
    then have L': "L' = snd (uv__set_artificial_error L UV_EINVAL)"
      using assms(6) open_h by (auto simp: uv_signal_start_def)
    have "sig_frame L L'" by (simp add: L' uv__set_artificial_error_def uv__set_error_def sig_frame_def)
    moreover have "watchers_ok L'"
      using assms(1) by (subst watchers_same [of L' L])
        (auto simp: L' uv__set_artificial_error_def uv__set_error_def)
    ultimately show ?thesis
      using assms(2) by (simp add: closing_stopped_def L' uv__set_artificial_error_def uv__set_error_def)
  next
    case same
    then have L': "L' = upd_sig h (\<lambda>s. s\<lparr>sig_cb := cb\<rparr>) L"
      using assms(6) open_h by (auto simp: uv_signal_start_def)
    have sg: "signum_of L' k = signum_of L k" for k by (simp add: L' signum_of_def)
    have "watchers_ok L'" using assms(1) by (subst watchers_same [of L' L]) (auto simp: sg, auto simp: L')
    then show ?thesis using assms(2) sg by (auto simp: L' sig_frame_def closing_stopped_def)
  next
    case new
    obtain L1 where L1: "(if signum_of L h \<noteq> 0 then uv__signal_stop L h else Ret L) = Ret L1"
      and more: "obind (signal_start_locked L1 h s) (\<lambda>(r, L). if r \<noteq> 0 then Ret (r, L)
            else Ret (0, uv__handle_start (upd_sig h (\<lambda>s. s\<lparr>sig_cb := cb\<rparr>) L) h)) = Ret (r, L')"
      using assms(6) new open_h by (auto simp: uv_signal_start_def obind_eq_Ret)
    then have "uv__signal_stop L h = Ret L1" by (auto simp: uv__signal_stop_def split: if_splits)
    from stop_effect [OF assms(1,3) this]
    have fr1: "sig_frame L L1" and ok1: "watchers_ok L1" and sg1: "\<And>k. signum_of L1 k = (if k = h then 0 else signum_of L k)"
      by auto
    have nocl: "\<not> flag_on (flags_of L1 h) UV_CLOSING"
      using open_h fr1 unfolding not_closing by (simp add: sig_frame_def)
    have cl1: "closing_stopped L1" using assms(2) fr1 sg1 by (simp add: closing_stopped_def sig_frame_def)
    have e1: "Err 0 \<notin> set (script (osys L1))" using assms(8) fr1 by (auto simp: sig_frame_def)
    obtain r2 L2 where L2: "signal_start_locked L1 h s = Ret (r2, L2)"
      and more2: "(if r2 \<noteq> 0 then Ret (r2, L2)
         else Ret (0, uv__handle_start (upd_sig h (\<lambda>s. s\<lparr>sig_cb := cb\<rparr>) L2) h)) = Ret (r, L')"
      using more by (cases "signal_start_locked L1 h s") auto
    show ?thesis
    proof (cases "r2 = 0")
      case True
      with more2 have r: "r = 0" and L': "L' = uv__handle_start (upd_sig h (\<lambda>s. s\<lparr>sig_cb := cb\<rparr>) L2) h" by auto
      have fr2: "sig_frame L1 L2" and ok2: "watchers_ok L'" and sg2: "\<And>k. signum_of L2 k = (if k = h then s else signum_of L1 k)"
        using start_locked_effect [OF ok1, of h s L2 cb] assms(3-5,7) fr1 sg1 r L2 True e1
        by (auto simp: sig_frame_def L')
      have "signum_of L' k = signum_of L2 k" for k by (simp add: L' signum_of_def)
      then have "closing_stopped L'"
        using cl1 nocl fr2 sg2 by (simp add: closing_stopped_def sig_frame_def L')
      moreover have "sig_frame L1 L'" using fr2 by (simp add: sig_frame_def L')
      ultimately show ?thesis using ok2 sig_frame_trans [OF fr1] by blast
    next
      case False
      with more2 have L': "L' = L2" by simp
      have fr2: "sig_frame L1 L2" and same: "signal_tree L2 = signal_tree L1"
        "signal_actions L2 = signal_actions L1" "sigs L2 = sigs L1" "\<And>k. uv__is_active L2 k = uv__is_active L1 k"
        using False by (cases rule: start_locked_unfold [OF L2 e1]; simp)+
      have "watchers_ok L2"
        using ok1 by (subst watchers_same [of L2 L1]) (use fr2 same in \<open>auto simp: sig_frame_def signum_of_def\<close>)
      moreover have "closing_stopped L2" using cl1 fr2 same by (simp add: closing_stopped_def sig_frame_def signum_of_def)
      ultimately show ?thesis using sig_frame_trans [OF fr1 fr2] by (simp add: L')
    qed
  qed
qed

text \<open>A started watcher can always be taken out of the tree.\<close>

lemma stop_finds:
  assumes "watchers_ok L" and "h \<in> set (handle_queue L)" and "signum_of L h \<noteq> 0"
  shows "rb_remove h (signal_tree L) \<noteq> None"
  using assms signal_order.remove_present [of "sig_key L" "signal_tree L" h]
  by (auto simp: watchers_ok_def signal_tree_ok_def)

end
