(* ===== verification/Signal_Run.thy ===== *)
theory Signal_Run
  imports Signal_Props
begin

text \<open>
  Signals and the loop as interleaved steps, and what holds in every state that they reach: the
  messages on their way are those that the counters of the handles expect, and a closing handle is
  closed exactly when its last message has been taken.
\<close>

section \<open>Runs\<close>

text \<open>
  The steps of one loop and of the signals that arrive: user code starts, stops and closes
  handles; a signal may arrive between any two steps, and finds the tree as it is; the loop reads
  messages, at most 32 at once and all that are there, and takes them one by one, where the
  callback may do other steps before the message is counted; a handle whose close is pending is
  finished. \<open>ss_buf\<close> are the messages read and not counted, \<open>ss_cur\<close> the handle whose callback runs.
  The sections under the lock are single steps, since a signal waits for the lock, and the
  fields of a handle outside the tree are the loop's alone. The kernel accepts the signals 1 to
  64, its pipes hold 65536 bytes, and no call fails with the \<open>errno\<close> 0.
\<close>

record 'm sig_sys =
  ss_loop :: "'m core_loop_scheme"
  ss_buf :: "byte list"
  ss_cur :: "nat option"

inductive sig_step :: "('m core_loop_scheme) callbacks \<Rightarrow> 'm sig_sys \<Rightarrow> 'm sig_sys \<Rightarrow> bool" for U where
  init: "0 < h \<Longrightarrow> h < 2 ^ 64 \<Longrightarrow> h \<notin> set (handle_queue (ss_loop S)) \<Longrightarrow>
    uv_signal_init (ss_loop S) h = Ret (r, L) \<Longrightarrow> sig_step U S (S\<lparr>ss_loop := L\<rparr>)"
| start: "h \<in> set (handle_queue (ss_loop S)) \<Longrightarrow> uv_signal_start (ss_loop S) h cb s = Ret (r, L) \<Longrightarrow>
    r = 0 \<longrightarrow> 1 \<le> s \<and> s \<le> 64 \<Longrightarrow> Err 0 \<notin> set (script (osys (ss_loop S))) \<Longrightarrow>
    sig_step U S (S\<lparr>ss_loop := L\<rparr>)"
| stop: "h \<in> set (handle_queue (ss_loop S)) \<Longrightarrow> uv_signal_stop (ss_loop S) h = Ret (r, L) \<Longrightarrow>
    sig_step U S (S\<lparr>ss_loop := L\<rparr>)"
| close: "h \<in> set (handle_queue (ss_loop S)) \<Longrightarrow> uv_close (ss_loop S) h cb = Ret L \<Longrightarrow>
    sig_step U S (S\<lparr>ss_loop := L\<rparr>)"
| arrive: "uv__signal_handler (ss_loop S) s = Some (Ret L) \<Longrightarrow> 1 \<le> s \<Longrightarrow> s \<le> 64 \<Longrightarrow> length (own_bytes L) \<le> 65536 \<Longrightarrow>
    sig_step U S (S\<lparr>ss_loop := L\<rparr>)"
| receive: "ss_buf S = [] \<Longrightarrow> n = min (32 * signal_msg_size) (length (own_bytes (ss_loop S))) \<Longrightarrow>
    sig_step U S (S\<lparr>ss_buf := take n (own_bytes (ss_loop S)),
      ss_loop := (ss_loop S)\<lparr>signal_bytes := (signal_bytes (ss_loop S))
        (loop_addr (ss_loop S) := drop n (own_bytes (ss_loop S)))\<rparr>\<rparr>)"
| call: "ss_buf S \<noteq> [] \<Longrightarrow> ss_cur S = None \<Longrightarrow>
    signal_call (\<lambda>_ _ _. Ret) (take signal_msg_size (ss_buf S)) (ss_loop S) = Ret L \<Longrightarrow>
    sig_step U S (S\<lparr>ss_loop := L, ss_cur := Some (msg_handle (take signal_msg_size (ss_buf S)))\<rparr>)"
| counted: "ss_cur S = Some h \<Longrightarrow> signal_count h (ss_loop S) = Ret L \<Longrightarrow>
    sig_step U S (S\<lparr>ss_loop := L, ss_buf := drop signal_msg_size (ss_buf S), ss_cur := None\<rparr>)"
| finish: "h \<in> set (closing_handles (ss_loop S)) \<Longrightarrow>
    uv__finish_close U ((ss_loop S)\<lparr>closing_handles := remove1 h (closing_handles (ss_loop S))\<rparr>) h = Some (Ret L) \<Longrightarrow>
    on_close U = (\<lambda>c h. Ret) \<Longrightarrow> sig_step U S (S\<lparr>ss_loop := L\<rparr>)"

inductive sig_reach :: "('m core_loop_scheme) callbacks \<Rightarrow> 'm sig_sys \<Rightarrow> bool" for U where
  start: "handle_queue (ss_loop S) = [] \<Longrightarrow> closing_handles (ss_loop S) = [] \<Longrightarrow>
    signal_tree (ss_loop S) = RB_NULL \<Longrightarrow> (\<forall>s. \<not> signal_actions (ss_loop S) s) \<Longrightarrow>
    loop_addr (ss_loop S) \<noteq> 0 \<Longrightarrow> fst (signal_pipefd (ss_loop S) (loop_addr (ss_loop S))) \<noteq> - 1 \<Longrightarrow>
    own_bytes (ss_loop S) = [] \<Longrightarrow> ss_buf S = [] \<Longrightarrow> ss_cur S = None \<Longrightarrow> sig_reach U S"
| step: "sig_reach U S \<Longrightarrow> sig_step U S S' \<Longrightarrow> sig_reach U S'"

definition sig_inv :: "'m sig_sys \<Rightarrow> bool" where
  "sig_inv S \<longleftrightarrow> watchers_ok (ss_loop S) \<and> closing_stopped (ss_loop S) \<and> counts_ok (ss_loop S) (ss_buf S @ own_bytes (ss_loop S)) \<and>
     16 dvd length (ss_buf S) \<and> 16 dvd length (own_bytes (ss_loop S)) \<and>
     length (ss_buf S) \<le> 512 \<and> length (own_bytes (ss_loop S)) \<le> 65536 \<and>
     (\<forall>h. ss_cur S = Some h \<longrightarrow> ss_buf S \<noteq> [] \<and> h = msg_handle (take 16 (ss_buf S)))"

section \<open>Every step keeps it\<close>

lemma inv_frame:
  assumes "sig_inv S" and "sig_frame (ss_loop S) L" and "watchers_ok L" and "closing_stopped L"
  shows "sig_inv (S\<lparr>ss_loop := L\<rparr>)"
  using assms by (simp add: sig_inv_def counts_frame own_bytes_frame)

lemma inv_handle:
  assumes "sig_inv S" and "h \<in> set (handle_queue (ss_loop S))"
  shows "h \<noteq> 0" and "sig_loop (sigs (ss_loop S) h) \<noteq> 0" and "h_type (handles (ss_loop S) h) = UV_SIGNAL"
    and "\<not> flag_on (flags_of (ss_loop S) h) UV_CLOSED" and "h < 2 ^ 64"
    and "sig_loop (sigs (ss_loop S) h) = loop_addr (ss_loop S)"
  using assms by (auto simp: sig_inv_def counts_ok_def)

lemma messages_none:
  assumes "\<forall>m \<in> set (chunks bs). msg_handle m \<in> A" and "h \<notin> A"
  shows "messages_for h bs = 0"
  using assms by (auto simp: messages_for_def count_list_0_iff)

lemma init_inv:
  assumes "sig_inv S" and "0 < h" and "h < 2 ^ 64" and "h \<notin> set (handle_queue (ss_loop S))"
    and "uv_signal_init (ss_loop S) h = Ret (r, L)"
  shows "sig_inv (S\<lparr>ss_loop := L\<rparr>)"
proof -
  let ?L = "ss_loop S" and ?bs = "ss_buf S @ own_bytes (ss_loop S)"
  have w: "watchers_ok ?L" and c: "closing_stopped ?L" and k: "counts_ok ?L ?bs" using assms(1) by (auto simp: sig_inv_def)
  have L: "L = upd_sig h (\<lambda>s. s\<lparr>sig_signum := 0, sig_caught := 0, sig_dispatched := 0, sig_loop := loop_addr ?L\<rparr>)
      (uv__handle_init ?L h UV_SIGNAL)"
    using assms(5) k by (auto simp: uv_signal_init_def uv__signal_loop_once_init_def counts_ok_def Let_def uv__handle_init_def)
  have none: "messages_for h ?bs = 0" using k assms(4) by (intro messages_none) (auto simp: counts_ok_def)
  have q: "handle_queue L = handle_queue ?L @ [h]" using assms(4) by (simp add: L)
  have same [simp]: "signal_tree L = signal_tree ?L" "signal_actions L = signal_actions ?L" "loop_addr L = loop_addr ?L"
    "signal_pipefd L = signal_pipefd ?L" "signal_bytes L = signal_bytes ?L" "closing_handles L = closing_handles ?L"
    by (simp_all add: L uv__handle_init_def)
  have sigs: "sigs L = (sigs ?L)(h := (sigs L h))" by (simp add: L uv__handle_init_def)
  have at_h: "signum_of L h = 0" "sig_caught (sigs L h) = 0" "sig_dispatched (sigs L h) = 0" "sig_loop (sigs L h) = loop_addr ?L"
    "\<not> flag_on (flags_of L h) UV_CLOSING" "\<not> flag_on (flags_of L h) UV_CLOSED" "\<not> uv__is_active L h" "h_type (handles L h) = UV_SIGNAL"
    by (simp_all add: L signum_of_def uv__handle_init_def flags_of_def flag_simps uv__is_active_def)
  have other: "sigs L k = sigs ?L k \<and> flags_of L k = flags_of ?L k \<and> uv__is_active L k = uv__is_active ?L k \<and>
      h_type (handles L k) = h_type (handles ?L k) \<and> signum_of L k = signum_of ?L k" if "k \<noteq> h" for k
    using that by (simp add: L signum_of_def uv__handle_init_def flags_of_def uv__is_active_def)
  have mem: "k \<noteq> h" if "k \<in> set (handle_queue ?L)" for k using assms(4) that by auto
  have eqs: "signum_of L k = signum_of ?L k" "sigs L k = sigs ?L k" "flags_of L k = flags_of ?L k"
    "uv__is_active L k = uv__is_active ?L k" "h_type (handles L k) = h_type (handles ?L k)"
    if "k \<in> set (handle_queue ?L)" for k using other [OF mem [OF that]] by simp_all
  have w1: "set (rb_inorder (signal_tree ?L)) = {k \<in> set (handle_queue ?L). signum_of ?L k \<noteq> 0}"
    and w2: "\<And>s. signal_actions ?L s \<longleftrightarrow> s \<noteq> 0 \<and> (\<exists>k \<in> set (handle_queue ?L). signum_of ?L k = s)"
    using w by (simp_all add: watchers_ok_def)
  have notin: "h \<notin> set (rb_inorder (signal_tree ?L))" using w assms(4) by (auto simp: watchers_ok_def)
  have "signal_tree_ok L"
  proof (rule tree_ok_cong [of ?L])
    show "signal_tree_ok ?L" using w by (simp add: watchers_ok_def)
    show "sig_key L x = sig_key ?L x" if "x \<in> set (rb_inorder (signal_tree ?L))" for x
    proof -
      have "x \<noteq> h" using notin that by auto
      with other show ?thesis by (simp add: sig_key_def)
    qed
  qed simp
  moreover have "set (rb_inorder (signal_tree L)) = {k \<in> set (handle_queue L). signum_of L k \<noteq> 0}"
  proof -
    have "{k \<in> set (handle_queue L). signum_of L k \<noteq> 0} = {k \<in> set (handle_queue ?L). signum_of ?L k \<noteq> 0}"
      unfolding q using at_h(1) eqs(1) by fastforce
    then show ?thesis using w1 by simp
  qed
  moreover have "signal_actions L s \<longleftrightarrow> s \<noteq> 0 \<and> (\<exists>k \<in> set (handle_queue L). signum_of L k = s)" for s
  proof -
    have "(\<exists>k \<in> set (handle_queue L). signum_of L k = s) \<longleftrightarrow> (\<exists>k \<in> set (handle_queue ?L). signum_of ?L k = s)" if "s \<noteq> 0"
      unfolding q using at_h(1) eqs(1) that by fastforce
    then show ?thesis using w2 [of s] by auto
  qed
  moreover have "\<forall>k \<in> set (handle_queue L). 0 \<le> signum_of L k \<and> signum_of L k \<le> 64 \<and>
      (uv__is_active L k \<longleftrightarrow> signum_of L k \<noteq> 0)"
    using w at_h(1,7) by (simp add: q eqs watchers_ok_def)
  ultimately have "watchers_ok L" unfolding watchers_ok_def by blast
  moreover have "closing_stopped L"
    using c at_h(5) by (simp add: closing_stopped_def q eqs)
  moreover have "counts_ok L ?bs"
  proof -
    have "set (closing_handles L) = {k \<in> set (handle_queue L). flag_on (flags_of L k) UV_CLOSING \<and> messages_for k ?bs = 0}"
      using k at_h(5) by (auto simp: q eqs counts_ok_def)
    then show ?thesis
      using k assms(2-4) at_h none by (simp add: counts_ok_def q eqs)
  qed
  ultimately show ?thesis using assms(1) by (simp add: sig_inv_def own_bytes_def)
qed

lemma start_inv:
  assumes "sig_inv S" and "h \<in> set (handle_queue (ss_loop S))" and "uv_signal_start (ss_loop S) h cb s = Ret (r, L)"
    and "r = 0 \<longrightarrow> 1 \<le> s \<and> s \<le> 64" and "Err 0 \<notin> set (script (osys (ss_loop S)))"
  shows "sig_inv (S\<lparr>ss_loop := L\<rparr>)"
proof -
  have "sig_frame (ss_loop S) L \<and> watchers_ok L \<and> closing_stopped L"
    by (rule start_effect [OF _ _ assms(2) inv_handle(1,2) [OF assms(1,2)] assms(3-5)])
      (use assms(1) in \<open>auto simp: sig_inv_def\<close>)
  with assms(1) show ?thesis by (blast intro: inv_frame)
qed

lemma stop_inv:
  assumes "sig_inv S" and "h \<in> set (handle_queue (ss_loop S))" and "uv_signal_stop (ss_loop S) h = Ret (r, L)"
  shows "sig_inv (S\<lparr>ss_loop := L\<rparr>)"
proof -
  have "uv__signal_stop (ss_loop S) h = Ret L"
    using assms(3) by (auto simp: uv_signal_stop_def obind_eq_Ret)
  from stop_effect [OF _ assms(2) this] assms(1) have "sig_frame (ss_loop S) L \<and> watchers_ok L"
    and "\<And>k. signum_of L k = (if k = h then 0 else signum_of (ss_loop S) k)" by (auto simp: sig_inv_def)
  moreover from this assms(1) have "closing_stopped L"
    by (auto simp: sig_inv_def closing_stopped_def sig_frame_def)
  ultimately show ?thesis using assms(1) by (blast intro: inv_frame)
qed

text \<open>With a bounded pipe the counters cannot wrap: they are equal exactly when no message is left.\<close>

lemma counters_equal:
  assumes "counts_ok L bs" and "h \<in> set (handle_queue L)" and "length bs < 2 ^ 32"
  shows "sig_caught (sigs L h) = sig_dispatched (sigs L h) \<longleftrightarrow> messages_for h bs = 0"
proof -
  have "messages_for h bs < 2 ^ 32" using messages_for_le [of h bs] assms(3) by simp
  then have "(of_nat (messages_for h bs) :: uint32) = 0 \<longleftrightarrow> messages_for h bs = 0"
    by (simp add: unat_eq_zero [symmetric] unsigned_of_nat take_bit_nat_eq_self)
  then show ?thesis using assms(1,2) by (simp add: counts_ok_def)
qed

lemma close_begin_effect:
  assumes "close_begin L h cb = Ret L1" and "h_type (handles L h) = UV_SIGNAL"
  shows "\<not> flag_on (flags_of L h) UV_CLOSING" and "handle_queue L1 = handle_queue L" and "closing_handles L1 = closing_handles L"
    and "uv_loop.more L1 = uv_loop.more L" and "h_type (handles L1 k) = h_type (handles L k)"
    and "uv__is_active L1 k = uv__is_active L k"
    and "flag_on (flags_of L1 k) UV_CLOSING \<longleftrightarrow> k = h \<or> flag_on (flags_of L k) UV_CLOSING"
    and "flag_on (flags_of L1 k) UV_CLOSED \<longleftrightarrow> flag_on (flags_of L k) UV_CLOSED"
proof -
  have nc: "\<not> flag_on (flags_of L h) (UV_CLOSING OR UV_CLOSED)" and
    L1: "L1 = L\<lparr>handles := (handles L)(h := (handles L h)\<lparr>h_flags := flag_set (flags_of L h) UV_CLOSING, h_close_cb := cb\<rparr>)\<rparr>"
    using assms(1) by (auto simp: close_begin_def set_flags_def Let_def)
  show "\<not> flag_on (flags_of L h) UV_CLOSING" using nc unfolding not_closing by blast
  have fl: "flags_of L1 k = (if k = h then flag_set (flags_of L h) UV_CLOSING else flags_of L k)" for k
    by (simp add: L1 flags_of_def)
  show "uv__is_active L1 k = uv__is_active L k"
    "flag_on (flags_of L1 k) UV_CLOSING \<longleftrightarrow> k = h \<or> flag_on (flags_of L k) UV_CLOSING"
    "flag_on (flags_of L1 k) UV_CLOSED \<longleftrightarrow> flag_on (flags_of L k) UV_CLOSED"
    by (auto simp: uv__is_active_def fl flag_simps)
qed (use assms in \<open>auto simp: close_begin_def set_flags_def Let_def\<close>)

lemma more_fields:
  fixes L :: "('m) core_loop_scheme"
  assumes "uv_loop.more L1 = uv_loop.more L"
  shows "sigs L1 = sigs L" "signal_tree L1 = signal_tree L" "signal_actions L1 = signal_actions L"
    "loop_addr L1 = loop_addr L" "signal_pipefd L1 = signal_pipefd L" "signal_bytes L1 = signal_bytes L" "osys L1 = osys L"
  using assms by (cases L; cases L1; simp)+

lemma close_inv:
  assumes "sig_inv S" and "h \<in> set (handle_queue (ss_loop S))" and "uv_close (ss_loop S) h cb = Ret L"
  shows "sig_inv (S\<lparr>ss_loop := L\<rparr>)"
proof -
  let ?L = "ss_loop S" and ?bs = "ss_buf S @ own_bytes (ss_loop S)"
  have w: "watchers_ok ?L" and c: "closing_stopped ?L" and k: "counts_ok ?L ?bs" using assms(1) by (auto simp: sig_inv_def)
  have ty: "h_type (handles ?L h) = UV_SIGNAL" using inv_handle(3) [OF assms(1,2)] .
  obtain L1 where L1: "close_begin ?L h cb = Ret L1" and more: "obind (close_by_type L1 h) (\<lambda>L.
      if h_type (handles L1 h) = UV_SIGNAL then Ret L else uv__make_close_pending L h) = Ret L"
    using assms(3) by (auto simp: uv_close_def obind_eq_Ret Let_def)
  note cb1 = close_begin_effect [OF L1 ty] and m1 = more_fields [OF close_begin_effect(4) [OF L1 ty]]
  have "uv__signal_close L1 h = Ret L" using more ty by (auto simp: close_by_type_def cb1 obind_eq_Ret)
  then obtain L2 where L2: "uv__signal_stop L1 h = Ret L2"
    and fin: "(if sig_caught (sigs L2 h) = sig_dispatched (sigs L2 h) then uv__make_close_pending L2 h else Ret L2) = Ret L"
    by (auto simp: uv__signal_close_def obind_eq_Ret)
  have "watchers_ok L1" using w by (subst watchers_same [of L1 ?L]) (auto simp: cb1 m1 signum_of_def)
  from stop_effect [OF this _ L2] assms(2) have fr: "sig_frame L1 L2" and w2: "watchers_ok L2"
    and sg: "\<And>k. signum_of L2 k = (if k = h then 0 else signum_of L1 k)" by (auto simp: cb1)
  have sg1: "signum_of L1 k = signum_of ?L k" for k by (simp add: signum_of_def m1)
  have "length ?bs < 2 ^ 32" using assms(1) by (simp add: sig_inv_def)
  from counters_equal [OF k assms(2) this] have eq: "sig_caught (sigs L2 h) = sig_dispatched (sigs L2 h) \<longleftrightarrow> messages_for h ?bs = 0"
    using fr by (simp add: sig_frame_def m1)
  have L: "L = (if messages_for h ?bs = 0 then L2\<lparr>closing_handles := h # closing_handles L2\<rparr> else L2)"
    using fin unfolding eq by (auto simp: uv__make_close_pending_def split: if_splits)
  have q: "handle_queue L = handle_queue ?L" and cl: "closing_handles L = (if messages_for h ?bs = 0 then h # closing_handles ?L else closing_handles ?L)"
    and addr: "loop_addr L = loop_addr ?L" "signal_pipefd L = signal_pipefd ?L" "signal_bytes L = signal_bytes ?L"
    and ctr: "\<And>k. sig_caught (sigs L k) = sig_caught (sigs ?L k)" "\<And>k. sig_dispatched (sigs L k) = sig_dispatched (sigs ?L k)"
      "\<And>k. sig_loop (sigs L k) = sig_loop (sigs ?L k)" "\<And>k. h_type (handles L k) = h_type (handles ?L k)"
    and fl: "\<And>k. flag_on (flags_of L k) UV_CLOSING \<longleftrightarrow> k = h \<or> flag_on (flags_of ?L k) UV_CLOSING"
      "\<And>k. flag_on (flags_of L k) UV_CLOSED \<longleftrightarrow> flag_on (flags_of ?L k) UV_CLOSED"
    using fr by (simp_all add: L sig_frame_def cb1 m1)
  have "h \<notin> set (closing_handles ?L)" using k cb1(1) by (simp add: counts_ok_def)
  then have "counts_ok L ?bs"
    using k assms(2) by (auto simp: counts_ok_def q cl addr ctr fl)
  moreover have "watchers_ok L"
    using w2 by (subst watchers_same [of L L2]) (auto simp: L)
  moreover have "closing_stopped L"
  proof -
    have "signum_of L k = (if k = h then 0 else signum_of ?L k)" for k using sg sg1 by (simp add: L)
    then show ?thesis using c by (simp add: closing_stopped_def q fl)
  qed
  ultimately show ?thesis using assms(1) by (simp add: sig_inv_def own_bytes_def addr)
qed

text \<open>The handler: the part of the invariant that holds between two writes.\<close>

definition sending :: "byte list \<Rightarrow> ('m) signal_loop_scheme \<Rightarrow> bool" where
  "sending buf L \<longleftrightarrow> watchers_ok L \<and> closing_stopped L \<and> counts_ok L (buf @ own_bytes L) \<and>
     16 dvd length buf \<and> 16 dvd length (own_bytes L)"

lemma sending_os: "sending buf (L\<lparr>osys := os\<rparr>) = sending buf L"
  by (simp add: sending_def closing_stopped_def counts_ok_def own_bytes_def watchers_same [of "L\<lparr>osys := os\<rparr>" L])

lemma send_sending:
  assumes inv: "sending buf L" and h: "h \<in> set (handle_queue L)" and s: "signum_of L h = s" "1 \<le> s" "s \<le> 64"
    and send: "signal_send L h s = Ret L'"
  shows "sending buf L' \<and> handle_queue L' = handle_queue L \<and> (\<forall>k. signum_of L' k = signum_of L k)"
  using send
proof (cases rule: signal_send_cases)
  case (1 os)
  then show ?thesis using inv by (simp add: sending_os)
next
  case (2 os)
  let ?bs = "buf @ own_bytes L" and ?m = "signal_msg h s"
  have w: "watchers_ok L" and c: "closing_stopped L" and k: "counts_ok L ?bs" and d: "16 dvd length ?bs"
    using inv by (simp_all add: sending_def)
  have loop: "sig_loop (sigs L h) = loop_addr L" "h < 2 ^ 64" using k h by (auto simp: counts_ok_def)
  have own: "own_bytes L' = own_bytes L @ ?m" using 2 loop by (simp add: own_bytes_def)
  have same: "handle_queue L' = handle_queue L" "closing_handles L' = closing_handles L" "loop_addr L' = loop_addr L"
    "signal_pipefd L' = signal_pipefd L" "signal_tree L' = signal_tree L" "signal_actions L' = signal_actions L"
    "handles L' = handles L" "\<And>k. flags_of L' k = flags_of L k" "\<And>k. signum_of L' k = signum_of L k"
    "\<And>k. uv__is_active L' k = uv__is_active L k" "\<And>k. sig_loop (sigs L' k) = sig_loop (sigs L k)"
    "\<And>k. sig_dispatched (sigs L' k) = sig_dispatched (sigs L k)"
    "\<And>k. sig_caught (sigs L' k) = (if k = h then sig_caught (sigs L k) + 1 else sig_caught (sigs L k))"
    using 2 by (auto simp: signum_of_def)
  have msg: "chunks ?m = [?m]" using chunks_msg [of ?m "[]"] by simp
  have cnt: "messages_for k (?bs @ ?m) = messages_for k ?bs + (if k = h then 1 else 0)" for k
    using messages_for_append [OF d] loop(2) by (simp add: messages_for_def msg msg_handle_signal_msg)
  have open_h: "\<not> flag_on (flags_of L h) UV_CLOSING" using c h s by (auto simp: closing_stopped_def)
  have "messages_for k (?bs @ ?m) = 0 \<longleftrightarrow> messages_for k ?bs = 0" if "flag_on (flags_of L k) UV_CLOSING" for k
    using cnt [of k] open_h that by auto
  then have "set (closing_handles L') = {k \<in> set (handle_queue L'). flag_on (flags_of L' k) UV_CLOSING \<and>
      messages_for k (?bs @ ?m) = 0}"
    using k unfolding same by (auto simp: counts_ok_def)
  moreover have "\<forall>m \<in> set (chunks (?bs @ ?m)). msg_signum m \<noteq> 0 \<and> msg_handle m \<in> set (handle_queue L')"
    using k h s loop(2) unfolding chunks_append [OF d] msg same
    by (auto simp: counts_ok_def msg_handle_signal_msg msg_signum_signal_msg)
  ultimately have "counts_ok L' (?bs @ ?m)"
    using k unfolding counts_ok_def cnt same by (simp add: algebra_simps)
  moreover have "watchers_ok L'" using w by (subst watchers_same [of L' L]) (simp_all add: same)
  ultimately show ?thesis using inv by (simp add: sending_def closing_stopped_def own same)
qed

lemma send_each_sending:
  assumes "sending buf L" and "set hs \<subseteq> {h \<in> set (handle_queue L). signum_of L h = s}" and "1 \<le> s" and "s \<le> 64"
    and "send_each hs s L = Ret L'"
  shows "sending buf L'"
  using assms(1,2,5)
proof (induction hs arbitrary: L)
  case (Cons h hs)
  then obtain L1 where L1: "signal_send L h s = Ret L1" and more: "send_each hs s L1 = Ret L'"
    by (auto simp: obind_eq_Ret)
  with send_sending [OF Cons.prems(1) _ _ assms(3,4) L1] Cons.prems(2)
  have "sending buf L1 \<and> handle_queue L1 = handle_queue L \<and> (\<forall>k. signum_of L1 k = signum_of L k)" by auto
  with Cons.IH [OF _ _ more] Cons.prems(2) show ?case by auto
qed simp

lemma arrive_inv:
  assumes "sig_inv S" and "uv__signal_handler (ss_loop S) s = Some (Ret L)" and "1 \<le> s" and "s \<le> 64"
    and "length (own_bytes L) \<le> 65536"
  shows "sig_inv (S\<lparr>ss_loop := L\<rparr>)"
proof -
  let ?L = "ss_loop S"
  have inv: "sending (ss_buf S) ?L" using assms(1) by (simp add: sig_inv_def sending_def)
  from assms(2) obtain r1 L1 where L1: "uv__signal_lock ?L = Ret (r1, L1)"
    and more: "rbind (signal_send_all L1 (uv__signal_first_handle L1 s) s) (\<lambda>L.
       Some (obind (uv__signal_unlock L) (\<lambda>(_, L). Ret L))) = Some (Ret L)"
    unfolding uv__signal_handler_def by (cases "uv__signal_lock ?L") auto
  have inv1: "sending (ss_buf S) L1" using lock_Ret(1) [OF L1] inv by (auto simp: sending_os)
  then have ok: "signal_tree_ok L1" and elems: "set (rb_inorder (signal_tree L1)) = {h \<in> set (handle_queue L1). signum_of L1 h \<noteq> 0}"
    by (simp_all add: sending_def watchers_ok_def)
  let ?hs = "filter (\<lambda>h. signum_of L1 h = s) (rb_inorder (signal_tree L1))"
  obtain L2 where L2: "send_each ?hs s L1 = Ret L2" and fin: "obind (uv__signal_unlock L2) (\<lambda>(_, L). Ret L) = Ret L"
    using more unfolding send_all_tree [OF ok] by (cases "send_each ?hs s L1") auto
  have "set ?hs \<subseteq> {h \<in> set (handle_queue L1). signum_of L1 h = s}" using elems by auto
  from send_each_sending [OF inv1 this assms(3,4) L2] have "sending (ss_buf S) L2" .
  moreover obtain os where "L = L2\<lparr>osys := os\<rparr>" using fin by (auto simp: obind_eq_Ret dest!: lock_Ret(2))
  ultimately have "sending (ss_buf S) L" by (simp add: sending_os)
  with assms(1,5) show ?thesis by (simp add: sig_inv_def sending_def)
qed

lemma receive_inv:
  assumes "sig_inv S" and "ss_buf S = []" and n: "n = min (32 * signal_msg_size) (length (own_bytes (ss_loop S)))"
  shows "sig_inv (S\<lparr>ss_buf := take n (own_bytes (ss_loop S)),
      ss_loop := (ss_loop S)\<lparr>signal_bytes := (signal_bytes (ss_loop S))
        (loop_addr (ss_loop S) := drop n (own_bytes (ss_loop S)))\<rparr>\<rparr>)"
proof -
  let ?L = "ss_loop S"
  let ?L' = "?L\<lparr>signal_bytes := (signal_bytes ?L)(loop_addr ?L := drop n (own_bytes ?L))\<rparr>"
  have own: "own_bytes ?L' = drop n (own_bytes ?L)" by (simp add: own_bytes_def)
  have d: "16 dvd length (own_bytes ?L)" using assms(1) by (simp add: sig_inv_def)
  then have "16 dvd n" by (simp add: n signal_msg_size_def min_def)
  have n512: "n \<le> 512" by (simp add: n signal_msg_size_def)
  from \<open>16 dvd n\<close> d have "16 dvd length (take n (own_bytes ?L))" "16 dvd length (drop n (own_bytes ?L))"
    by (simp_all add: n signal_msg_size_def min_def dvd_diff_nat)
  moreover have "watchers_ok ?L' = watchers_ok ?L" by (rule watchers_same) simp_all
  moreover have "counts_ok ?L' bs = counts_ok ?L bs" for bs by (simp add: counts_ok_def)
  moreover have "ss_cur S = None" using assms(1,2) by (cases "ss_cur S") (auto simp: sig_inv_def)
  ultimately show ?thesis
    using assms(1,2) n512 by (simp add: sig_inv_def closing_stopped_def own min_le_iff_disj diff_le_mono2 le_diff_conv)
qed

lemma first_message:
  assumes "sig_inv S" and "ss_buf S \<noteq> []"
  shows "length (take 16 (ss_buf S)) = 16"
    and "chunks (ss_buf S @ own_bytes (ss_loop S)) = take 16 (ss_buf S) # chunks (drop 16 (ss_buf S) @ own_bytes (ss_loop S))"
proof -
  show len: "length (take 16 (ss_buf S)) = 16" using assms dvd_imp_le by (fastforce simp: sig_inv_def)
  from chunks_msg [OF len, of "drop 16 (ss_buf S) @ own_bytes (ss_loop S)"] show
    "chunks (ss_buf S @ own_bytes (ss_loop S)) = take 16 (ss_buf S) # chunks (drop 16 (ss_buf S) @ own_bytes (ss_loop S))"
    by (metis append.assoc append_take_drop_id)
qed

lemma call_inv:
  assumes "sig_inv S" and "ss_buf S \<noteq> []"
    and "signal_call (\<lambda>_ _ _. Ret) (take signal_msg_size (ss_buf S)) (ss_loop S) = Ret L"
  shows "sig_inv (S\<lparr>ss_loop := L, ss_cur := Some (msg_handle (take signal_msg_size (ss_buf S)))\<rparr>)"
proof -
  have "L = ss_loop S" using assms(3) by (auto simp: signal_call_def Let_def split: if_splits)
  with assms(1,2) show ?thesis by (simp add: sig_inv_def signal_msg_size_def)
qed

text \<open>A message never names a closing handle with the signal it is started for.\<close>

lemma call_no_abort:
  assumes "sig_inv S" and "ss_buf S \<noteq> []"
  shows "signal_call (\<lambda>_ _ _. Ret) (take signal_msg_size (ss_buf S)) (ss_loop S) = Ret (ss_loop S)"
proof -
  let ?m = "take 16 (ss_buf S)"
  have "?m \<in> set (chunks (ss_buf S @ own_bytes (ss_loop S)))" using first_message(2) [OF assms] by simp
  then have "msg_signum ?m \<noteq> 0" "msg_handle ?m \<in> set (handle_queue (ss_loop S))"
    using assms(1) by (auto simp: sig_inv_def counts_ok_def)
  with assms(1) show ?thesis
    by (auto simp: signal_call_def signal_msg_size_def Let_def sig_inv_def closing_stopped_def)
qed

lemma counted_inv:
  assumes "sig_inv S" and "ss_cur S = Some h" and "signal_count h (ss_loop S) = Ret L"
  shows "sig_inv (S\<lparr>ss_loop := L, ss_buf := drop signal_msg_size (ss_buf S), ss_cur := None\<rparr>)"
proof -
  let ?L = "ss_loop S" and ?bs = "ss_buf S @ own_bytes (ss_loop S)"
  let ?rest = "drop 16 (ss_buf S) @ own_bytes ?L"
  have buf: "ss_buf S \<noteq> []" and h: "h = msg_handle (take 16 (ss_buf S))" using assms(1,2) by (auto simp: sig_inv_def)
  have w: "watchers_ok ?L" and c: "closing_stopped ?L" and k: "counts_ok ?L ?bs" using assms(1) by (auto simp: sig_inv_def)
  note ch = first_message(2) [OF assms(1) buf]
  have cnt: "messages_for x ?bs = (if x = h then 1 else 0) + messages_for x ?rest" for x
    by (simp add: messages_for_def ch h)
  have hq: "h \<in> set (handle_queue ?L)" using k ch h by (simp add: counts_ok_def)
  have ctr: "sig_caught (sigs ?L x) = sig_dispatched (sigs ?L x) + of_nat (messages_for x ?bs)" if "x \<in> set (handle_queue ?L)" for x
    using k that by (simp add: counts_ok_def)
  have "length ?rest \<le> 2 ^ 17" using assms(1) by (simp add: sig_inv_def) linarith
  then have "messages_for h ?rest < 2 ^ 32" using messages_for_le [of h ?rest] by simp
  then have zero: "(of_nat (messages_for h ?rest) :: uint32) = 0 \<longleftrightarrow> messages_for h ?rest = 0"
    by (simp add: unat_eq_zero [symmetric] unsigned_of_nat take_bit_nat_eq_self)
  let ?L1 = "upd_sig h (\<lambda>s. s\<lparr>sig_dispatched := sig_dispatched s + 1\<rparr>) ?L"
  let ?pend = "flag_on (flags_of ?L h) UV_CLOSING \<and> messages_for h ?rest = 0"
  have "sig_caught (sigs ?L1 h) = sig_dispatched (sigs ?L1 h) \<longleftrightarrow> messages_for h ?rest = 0"
    using ctr [OF hq] zero by (simp add: cnt)
  then have L: "L = (if ?pend then ?L1\<lparr>closing_handles := h # closing_handles ?L\<rparr> else ?L1)"
    using assms(3) by (auto simp: signal_count_def Let_def uv__make_close_pending_def split: if_splits)
  have notin: "h \<notin> set (closing_handles ?L)" using k by (auto simp: counts_ok_def cnt)
  have fields: "handle_queue L = handle_queue ?L" "loop_addr L = loop_addr ?L" "signal_pipefd L = signal_pipefd ?L"
    "signal_bytes L = signal_bytes ?L" "handles L = handles ?L" "\<And>x. flags_of L x = flags_of ?L x"
    "\<And>x. sig_caught (sigs L x) = sig_caught (sigs ?L x)" "\<And>x. sig_loop (sigs L x) = sig_loop (sigs ?L x)"
    "\<And>x. sig_dispatched (sigs L x) = (if x = h then sig_dispatched (sigs ?L x) + 1 else sig_dispatched (sigs ?L x))"
    "\<And>x. signum_of L x = signum_of ?L x"
    "closing_handles L = (if ?pend then h # closing_handles ?L else closing_handles ?L)"
    by (simp_all add: L signum_of_def)
  have "set (closing_handles L) = {x \<in> set (handle_queue L). flag_on (flags_of L x) UV_CLOSING \<and> messages_for x ?rest = 0}"
    using k hq by (auto simp: fields counts_ok_def cnt)
  then have "counts_ok L ?rest"
    using k ch ctr notin by (simp add: counts_ok_def fields cnt)
  moreover have "watchers_ok L" using w by (subst watchers_same [of L ?L]) (auto simp: L signum_of_def)
  ultimately show ?thesis
    using assms(1) c by (simp add: sig_inv_def own_bytes_def fields closing_stopped_def signal_msg_size_def dvd_diff_nat le_diff_conv)
qed

lemma finish_unfold:
  assumes "uv__finish_close U (L\<lparr>closing_handles := cl\<rparr>) h = Some (Ret L')" and "on_close U = (\<lambda>c h. Ret)"
    and "h_type (handles L h) = UV_SIGNAL"
  shows "handle_queue L' = remove1 h (handle_queue L)" and "closing_handles L' = cl" and "sigs L' = sigs L"
    and "signal_tree L' = signal_tree L" and "signal_actions L' = signal_actions L" and "loop_addr L' = loop_addr L"
    and "signal_pipefd L' = signal_pipefd L" and "signal_bytes L' = signal_bytes L"
    and "h_type (handles L' k) = h_type (handles L k)" and "uv__is_active L' k = uv__is_active L k"
    and "k \<noteq> h \<Longrightarrow> flags_of L' k = flags_of L k"
proof -
  let ?N = "uv__handle_unref (set_flags h (flag_set (flags_of L h) UV_CLOSED) (L\<lparr>closing_handles := cl\<rparr>)) h"
  let ?M = "?N\<lparr>handle_queue := remove1 h (handle_queue ?N)\<rparr>"
  have fin: "call_close U ?M h = Ret L'"
    using assms(1,3) by (simp add: uv__finish_close_def finish_by_type_def set_flags_def flags_of_def assert_that_def split: if_splits)
  have keep: "?M = ?M\<lparr>poll_ctxs := poll_ctxs ?M\<rparr>" by simp
  have "L' = ?M \<or> L' = ?M\<lparr>poll_ctxs := (poll_ctxs ?M)(ctx_of_timer ?M h := None)\<rparr>"
    using fin assms(2) by (auto simp: call_close_def timer_close_cb_def split: option.splits if_splits)
  with keep obtain pc where L': "L' = ?M\<lparr>poll_ctxs := pc\<rparr>" by metis
  show "uv__is_active L' k = uv__is_active L k" and "k \<noteq> h \<Longrightarrow> flags_of L' k = flags_of L k"
    by (auto simp: L' uv__handle_unref_def uv__active_handle_rm_def set_flags_def flags_of_def uv__is_active_def
      uv__has_ref_def Let_def flag_simps)
  show "handle_queue L' = remove1 h (handle_queue L)" "closing_handles L' = cl" "sigs L' = sigs L"
    "signal_tree L' = signal_tree L" "signal_actions L' = signal_actions L" "loop_addr L' = loop_addr L"
    "signal_pipefd L' = signal_pipefd L" "signal_bytes L' = signal_bytes L" "h_type (handles L' k) = h_type (handles L k)"
    by (simp_all add: L' uv__handle_unref_def uv__active_handle_rm_def set_flags_def Let_def)
qed

lemma finish_inv:
  assumes "sig_inv S" and "h \<in> set (closing_handles (ss_loop S))" and "on_close U = (\<lambda>c h. Ret)"
    and fin: "uv__finish_close U ((ss_loop S)\<lparr>closing_handles := remove1 h (closing_handles (ss_loop S))\<rparr>) h = Some (Ret L)"
  shows "sig_inv (S\<lparr>ss_loop := L\<rparr>)"
proof -
  let ?L = "ss_loop S" and ?bs = "ss_buf S @ own_bytes (ss_loop S)"
  have w: "watchers_ok ?L" and c: "closing_stopped ?L" and k: "counts_ok ?L ?bs" using assms(1) by (auto simp: sig_inv_def)
  have h: "h \<in> set (handle_queue ?L)" "flag_on (flags_of ?L h) UV_CLOSING" "messages_for h ?bs = 0"
    and dist: "distinct (handle_queue ?L)" "distinct (closing_handles ?L)"
    using assms(2) k by (auto simp: counts_ok_def)
  note L = finish_unfold [OF fin assms(3) inv_handle(3) [OF assms(1) h(1)]]
  have sg: "signum_of L x = signum_of ?L x" for x by (simp add: signum_of_def L)
  have stopped: "signum_of ?L h = 0" using c h by (simp add: closing_stopped_def)
  have q: "set (handle_queue L) = set (handle_queue ?L) - {h}" using dist by (simp add: L set_remove1_distinct)
  have none: "\<forall>m \<in> set (chunks ?bs). msg_handle m \<noteq> h" using h(3) by (auto simp: messages_for_def count_list_0_iff)
  have key: "sig_key L = sig_key ?L" using L(3) by (simp add: sig_key_def [abs_def])
  have "signal_tree_ok L"
    using w by (simp add: watchers_ok_def signal_tree_ok_def key L(3,4))
  moreover have "s \<noteq> 0 \<and> (\<exists>x \<in> set (handle_queue L). signum_of L x = s) \<longleftrightarrow>
      s \<noteq> 0 \<and> (\<exists>x \<in> set (handle_queue ?L). signum_of ?L x = s)" for s
    using stopped unfolding q sg by auto
  moreover have "{x \<in> set (handle_queue L). signum_of L x \<noteq> 0} = {x \<in> set (handle_queue ?L). signum_of ?L x \<noteq> 0}"
    using stopped unfolding q sg by auto
  ultimately have "watchers_ok L" using w unfolding watchers_ok_def L(4,5,10) by (simp add: sg q)
  moreover have "closing_stopped L" using c unfolding closing_stopped_def q sg by (simp add: L(11))
  moreover have "counts_ok L ?bs"
  proof -
    have "set (closing_handles L) = {x \<in> set (handle_queue L). flag_on (flags_of L x) UV_CLOSING \<and> messages_for x ?bs = 0}"
      using k dist unfolding q L(2) by (auto simp: L(11) counts_ok_def set_remove1_distinct)
    moreover have "distinct (handle_queue L)" "distinct (closing_handles L)" using dist by (simp_all add: L(1,2))
    moreover have "\<forall>m \<in> set (chunks ?bs). msg_signum m \<noteq> 0 \<and> msg_handle m \<in> set (handle_queue L)"
      using k none unfolding q by (simp add: counts_ok_def)
    moreover have "\<forall>x \<in> set (handle_queue L). 0 < x \<and> x < 2 ^ 64 \<and> sig_loop (sigs L x) = loop_addr L \<and>
        h_type (handles L x) = UV_SIGNAL \<and> \<not> flag_on (flags_of L x) UV_CLOSED \<and>
        sig_caught (sigs L x) = sig_dispatched (sigs L x) + of_nat (messages_for x ?bs)"
      using k unfolding q by (simp add: counts_ok_def L(3,6,9,11))
    ultimately show ?thesis using k unfolding counts_ok_def by (simp add: L(6,7))
  qed
  ultimately show ?thesis using assms(1) by (simp add: sig_inv_def own_bytes_def L)
qed

lemma step_inv: "sig_step U S S' \<Longrightarrow> sig_inv S \<Longrightarrow> sig_inv S'"
  by (induction rule: sig_step.induct)
    (blast intro: init_inv start_inv stop_inv close_inv arrive_inv receive_inv call_inv counted_inv finish_inv)+

lemma signal_reach_inv: "sig_reach U S \<Longrightarrow> sig_inv S"
proof (induction rule: sig_reach.induct)
  case (start S)
  then have "signal_order.sorted_tree (sig_key (ss_loop S)) (signal_tree (ss_loop S))"
    using signal_order.sorted_tree_empty by simp
  with start show ?case
    by (simp add: sig_inv_def watchers_ok_def signal_tree_ok_def closing_stopped_def counts_ok_def)
qed (rule step_inv)

text \<open>
  C16. In every state that the loop, user code and arriving signals reach: the messages in the pipe and
  in the buffer that name a handle are exactly as many as the handle has caught and not yet
  dispatched; every message names a handle of the loop, so none is delivered to a freed handle; the
  closing handles that are ready to be finished are exactly those without a message on its way, each of them
  once, so none is closed too early and none is forgotten; a signal has the library's handler
  exactly while a watcher is started for it; and delivering the next message does not fail the assertion.
\<close>

theorem signal_messages_counted:
  assumes "sig_reach U S"
  shows "(\<forall>h \<in> set (handle_queue (ss_loop S)).
      sig_caught (sigs (ss_loop S) h) = sig_dispatched (sigs (ss_loop S) h) +
        of_nat (messages_for h (ss_buf S @ own_bytes (ss_loop S)))) \<and>
    (\<forall>m \<in> set (chunks (ss_buf S @ own_bytes (ss_loop S))). msg_handle m \<in> set (handle_queue (ss_loop S))) \<and>
    distinct (closing_handles (ss_loop S)) \<and>
    set (closing_handles (ss_loop S)) = {h \<in> set (handle_queue (ss_loop S)). flag_on (flags_of (ss_loop S) h) UV_CLOSING \<and>
      messages_for h (ss_buf S @ own_bytes (ss_loop S)) = 0} \<and>
    (\<forall>s. signal_actions (ss_loop S) s \<longleftrightarrow> s \<noteq> 0 \<and> (\<exists>h \<in> set (handle_queue (ss_loop S)). signum_of (ss_loop S) h = s)) \<and>
    (ss_buf S = [] \<or> signal_call (\<lambda>_ _ _. Ret) (take signal_msg_size (ss_buf S)) (ss_loop S) =
       Ret (ss_loop S))"
proof -
  have inv: "sig_inv S" using signal_reach_inv [OF assms(1)] .
  then have "watchers_ok (ss_loop S)" "counts_ok (ss_loop S) (ss_buf S @ own_bytes (ss_loop S))"
    by (simp_all add: sig_inv_def)
  then show ?thesis
    using call_no_abort [OF inv] by (simp add: watchers_ok_def counts_ok_def) blast
qed

text \<open>A watcher of SIGTERM is closed while one message is in the pipe.\<close>

definition signal_demo :: "unit sig_sys" where
  "signal_demo = \<lparr>ss_loop = (blank_core 0 ())\<lparr>osys := blank_os\<lparr>script :=
     [Val 1, Val 0, Val 1, Val 1, Val 16, Val 1, Val 1, Val 0, Val 1]\<rparr>\<rparr>, ss_buf = [], ss_cur = None\<rparr>"

lemma blank_core_signal:
  "handle_queue (blank_core t m) = []" "closing_handles (blank_core t m) = []" "signal_tree (blank_core t m) = RB_NULL"
  "signal_actions (blank_core t m) = (\<lambda>_. False)" "loop_addr (blank_core t m) = 1"
  "signal_pipefd (blank_core t m) = (\<lambda>_. (12, 13))" "signal_lock_pipefd (blank_core t m) = (10, 11)"
  "signal_bytes (blank_core t m) = (\<lambda>_. [])" "handles (blank_core t m) = (\<lambda>_. null_handle)"
  "active_handles (blank_core t m) = 0"
  by (simp_all add: blank_core_def)

lemmas signal_ops =
  uv_signal_init_def uv__signal_loop_once_init_def uv__handle_init_def uv_signal_start_def signal_start_locked_def
  uv__signal_block_and_lock_def uv__signal_lock_def uv__signal_unlock_and_unblock_def uv__signal_unlock_def
  uv__signal_first_handle_def uv__signal_register_handler_def uv__signal_handler_def on_os_def sys_def sys_retry_def
  Let_def

lemma signal_demo_tree: "rb_remove (20 :: nat) (RB_NODE RB_NULL 20 RB_BLACK RB_NULL) = Some RB_NULL"
  by code_simp

lemma signal_demo_run:
  "\<exists>r1 L1 r2 L2 L3 L4. uv_signal_init (ss_loop signal_demo) 20 = Ret (r1, L1) \<and> uv_signal_start L1 20 0 15 = Ret (r2, L2) \<and>
     Err 0 \<notin> set (script (osys L1)) \<and>
     handle_queue L1 = [20] \<and> handle_queue L2 = [20] \<and>
     uv__signal_handler L2 15 = Some (Ret L3) \<and> own_bytes L3 = signal_msg 20 15 \<and> handle_queue L3 = [20] \<and>
     uv_close L3 20 None = Ret L4 \<and> own_bytes L4 = signal_msg 20 15 \<and> handle_queue L4 = [20] \<and> closing_handles L4 = []"
  by (simp add: signal_demo_def blank_core_signal signal_ops signum_of_def blank_os_def upd_sig_def flags_of_def
    flag_simps rb_insert_def rb_nfind_def signal_send_all.simps signal_send_def own_bytes_def
    uv_close_def close_begin_def close_by_type_def uv__signal_close_def uv__signal_stop_def rb_next_def
    uv__handle_start_def set_flags_def uv__active_handle_add_def uv__is_active_def uv__has_ref_def sig_key_def
    uv__signal_compare_def signal_demo_tree uv_ok_err_def uv__signal_unregister_handler_def uv__handle_stop_def uv__active_handle_rm_def)

lemma signal_demo_reach:
  fixes U :: "(unit core_loop_scheme) callbacks"
  shows "\<exists>L. sig_reach U \<lparr>ss_loop = L, ss_buf = [], ss_cur = None\<rparr> \<and>
    own_bytes L = signal_msg 20 15 \<and> handle_queue L = [20] \<and> closing_handles L = []"
proof -
  obtain r1 L1 r2 L2 L3 L4 where run: "uv_signal_init (ss_loop signal_demo) 20 = Ret (r1, L1)"
      "uv_signal_start L1 20 0 15 = Ret (r2, L2)" "Err 0 \<notin> set (script (osys L1))"
      "handle_queue L1 = [20]" "handle_queue L2 = [20]"
      "uv__signal_handler L2 15 = Some (Ret L3)" "own_bytes L3 = signal_msg 20 15" "handle_queue L3 = [20]"
      "uv_close L3 20 None = Ret L4" "own_bytes L4 = signal_msg 20 15" "handle_queue L4 = [20]" "closing_handles L4 = []"
    using signal_demo_run by blast
  let ?S = "\<lambda>L. \<lparr>ss_loop = L, ss_buf = [], ss_cur = None\<rparr> :: unit sig_sys"
  have "sig_reach U signal_demo"
    by (rule sig_reach.start) (simp_all add: signal_demo_def blank_core_signal own_bytes_def)
  then have "sig_reach U (signal_demo\<lparr>ss_loop := L1\<rparr>)"
    by (rule sig_reach.step) (rule sig_step.init [where h = 20 and r = r1], use run in \<open>simp_all add: signal_demo_def blank_core_signal\<close>)
  then have "sig_reach U (?S L1)" by (simp add: signal_demo_def)
  then have "sig_reach U ((?S L1)\<lparr>ss_loop := L2\<rparr>)"
    by (rule sig_reach.step) (rule sig_step.start [where h = 20 and s = 15 and cb = 0 and r = r2], use run in simp_all)
  then have "sig_reach U (((?S L1)\<lparr>ss_loop := L2\<rparr>)\<lparr>ss_loop := L3\<rparr>)"
    by (rule sig_reach.step) (rule sig_step.arrive [where s = 15], use run in simp_all)
  then have "sig_reach U ((((?S L1)\<lparr>ss_loop := L2\<rparr>)\<lparr>ss_loop := L3\<rparr>)\<lparr>ss_loop := L4\<rparr>)"
    by (rule sig_reach.step) (rule sig_step.close [where h = 20 and cb = None], use run in simp_all)
  with run show ?thesis by auto
qed

lemma signal_messages_counted_witness:
  "\<forall>U :: (unit core_loop_scheme) callbacks. \<exists>S. sig_reach U S \<and> messages_for 20 (ss_buf S @ own_bytes (ss_loop S)) = 1 \<and>
     sig_caught (sigs (ss_loop S) 20) = sig_dispatched (sigs (ss_loop S) 20) + 1 \<and> closing_handles (ss_loop S) = []"
proof
  fix U :: "(unit core_loop_scheme) callbacks"
  obtain L where L: "sig_reach U \<lparr>ss_loop = L, ss_buf = [], ss_cur = None\<rparr>" "own_bytes L = signal_msg 20 15"
      "handle_queue L = [20]" "closing_handles L = []"
    using signal_demo_reach by blast
  have one: "messages_for 20 (signal_msg 20 15) = 1"
    using messages_for_msg [of "signal_msg 20 15" 20 "[]"] by (simp add: msg_handle_signal_msg messages_for_def)
  from signal_messages_counted [OF L(1)] L one
  have "sig_caught (sigs L 20) = sig_dispatched (sigs L 20) + 1" by simp
  with L one show "\<exists>S. sig_reach U S \<and> messages_for 20 (ss_buf S @ own_bytes (ss_loop S)) = 1 \<and>
     sig_caught (sigs (ss_loop S) 20) = sig_dispatched (sigs (ss_loop S) 20) + 1 \<and> closing_handles (ss_loop S) = []"
    by (intro exI [of _ "\<lparr>ss_loop = L, ss_buf = [], ss_cur = None\<rparr>"]) simp
qed

end
