(* ===== verification/Process_Props.thy ===== *)
theory Process_Props
  imports Process
begin

text \<open>
  What a child finds in its descriptors: the calls of \<open>uv__process_child_init\<close> on a table of
  descriptors. The standard streams get what the pipes say when no source is the target of an
  earlier stream; descriptors that are inherited crosswise are lost.
\<close>

section \<open>A table of descriptors\<close>

text \<open>An open descriptor has a file and the close-on-exec flag; the file 0 is \<open>/dev/null\<close>.\<close>

type_synonym fd_table = "int \<Rightarrow> (nat \<times> bool) option"

definition fd_effect :: "sysc \<times> answer \<Rightarrow> fd_table \<Rightarrow> fd_table" where
  "fd_effect x T =
     (case fst x of
        Sys_dup2 a b \<Rightarrow> if failed (snd x) then T else T(b := map_option (\<lambda>(f, c). (f, False)) (T a))
      | Sys_close a \<Rightarrow> T(a := None)
      | Sys_open p fl \<Rightarrow> (case snd x of Val n \<Rightarrow> T(n := Some (0, False)) | _ \<Rightarrow> T)
      | Sys_fioclex fd on \<Rightarrow> if failed (snd x) then T else T(fd := map_option (\<lambda>(f, c). (f, on)) (T fd))
      | _ \<Rightarrow> T)"

text \<open>The answers that a kernel with this table can give: a call on a closed descriptor fails, one on an
  open descriptor does not, and a new descriptor was closed before.\<close>

definition fd_legal :: "sysc \<times> answer \<Rightarrow> fd_table \<Rightarrow> bool" where
  "fd_legal x T \<longleftrightarrow>
     (case fst x of
        Sys_dup2 a b \<Rightarrow> failed (snd x) \<longleftrightarrow> T a = None
      | Sys_open p fl \<Rightarrow> (case snd x of Val n \<Rightarrow> 0 \<le> n \<and> T n = None | _ \<Rightarrow> True)
      | Sys_fioclex fd on \<Rightarrow> snd x = Err EINTR \<or> (failed (snd x) \<longleftrightarrow> T fd = None)
      | _ \<Rightarrow> True)"

primrec fd_run :: "(sysc \<times> answer) list \<Rightarrow> fd_table \<Rightarrow> fd_table option" where
  "fd_run [] T = Some T"
| "fd_run (x # xs) T = (if fd_legal x T then fd_run xs (fd_effect x T) else None)"

lemma fd_run_append: "fd_run (xs @ ys) T = Some T' \<longleftrightarrow> (\<exists>U. fd_run xs T = Some U \<and> fd_run ys U = Some T')"
  by (induction xs arbitrary: T) auto

text \<open>Retried flag calls: \<open>uv__nonblock\<close> changes nothing, \<open>uv__cloexec\<close> the flag.\<close>

lemma fd_run_replicate: "(\<And>T. fd_effect x T = T) \<Longrightarrow> fd_run (replicate n x) T = Some T' \<Longrightarrow> T' = T"
  by (induction n) (auto split: if_splits)

lemma nonblock_run:
  assumes "uv__nonblock fd on s = Ret (r, s')"
  shows "\<exists>tr. calls s' = calls s @ tr \<and> (\<forall>T T'. fd_run tr T = Some T' \<longrightarrow> T' = T)"
proof -
  from sys_retry_calls assms obtain n where tr: "calls s' = calls s @ replicate n (Sys_fionbio fd on, Err EINTR) @ [(Sys_fionbio fd on, r)]"
    unfolding uv__nonblock_def by blast
  have eff: "fd_effect (Sys_fionbio fd on, r) T = T" for r T by (simp add: fd_effect_def)
  have "T' = T" if "fd_run (replicate n (Sys_fionbio fd on, Err EINTR) @ [(Sys_fionbio fd on, r)]) T = Some T'" for T T'
    using that fd_run_replicate [OF eff] by (auto simp: fd_run_append eff split: if_splits)
  with tr show ?thesis by blast
qed

lemma sys_retry_final: "sys_retry c s = Ret (r, s') \<Longrightarrow> r \<noteq> Err EINTR"
proof -
  have "sys_retry_on c rs s = Ret (r, s') \<Longrightarrow> r \<noteq> Err EINTR" for rs
    by (induction rs arbitrary: s) (auto simp: Let_def split: if_splits)
  then show "sys_retry c s = Ret (r, s') \<Longrightarrow> r \<noteq> Err EINTR" by (simp add: sys_retry_def)
qed

lemma cloexec_run:
  assumes "uv__cloexec fd on s = Ret (r, s')"
  shows "\<exists>tr. calls s' = calls s @ tr \<and>
    (\<forall>T T' f c. fd_run tr T = Some T' \<longrightarrow> T fd = Some (f, c) \<longrightarrow> T' = T(fd := Some (f, on)))"
proof -
  let ?c = "Sys_fioclex fd on"
  from sys_retry_calls assms obtain n where tr: "calls s' = calls s @ replicate n (?c, Err EINTR) @ [(?c, r)]"
    unfolding uv__cloexec_def by blast
  have r: "r \<noteq> Err EINTR" using assms sys_retry_final unfolding uv__cloexec_def by blast
  have eff: "fd_effect (?c, Err EINTR) T = T" for T by (simp add: fd_effect_def)
  have "T' = T(fd := Some (f, on))" if "fd_run (replicate n (?c, Err EINTR) @ [(?c, r)]) T = Some T'" "T fd = Some (f, c)" for T T' f c
    using that r fd_run_replicate [OF eff] by (fastforce simp: fd_run_append fd_effect_def fd_legal_def split: if_splits)
  with tr show ?thesis by blast
qed

text \<open>Putting the open descriptor \<open>u\<close> at \<open>fd\<close>.\<close>

lemma child_dup_run:
  assumes "child_dup fd u s = Ret s'"
  shows "\<exists>tr. calls s' = calls s @ tr \<and> (\<forall>T T' f c. fd_run tr T = Some T' \<longrightarrow> T u = Some (f, c) \<longrightarrow>
    T' = (if fd = u then T(fd := Some (f, False)) else T(fd := Some (f, False), u := None)))"
proof -
  from assms obtain s1 where 1: "(if fd = u then obind (uv__cloexec u False s) (\<lambda>(_, s). Ret s)
            else obind (sys (Sys_dup2 u fd) s) (\<lambda>(_, s). obind (sys (Sys_close u) s) (\<lambda>(_, s). Ret s))) = Ret s1"
    and 2: "(if fd \<le> 2 then obind (uv__nonblock fd False s1) (\<lambda>(_, s). Ret s) else Ret s1) = Ret s'"
    unfolding child_dup_def obind_eq_Ret by blast
  have "\<exists>tr. calls s1 = calls s @ tr \<and> (\<forall>T T' f c. fd_run tr T = Some T' \<longrightarrow> T u = Some (f, c) \<longrightarrow>
      T' = (if fd = u then T(fd := Some (f, False)) else T(fd := Some (f, False), u := None)))"
  proof (cases "fd = u")
    case True
    with 1 show ?thesis by (auto simp: obind_eq_Ret dest!: cloexec_run)
  next
    case False
    with 1 obtain r2 r3 where "calls s1 = calls s @ [(Sys_dup2 u fd, r2), (Sys_close u, r3)]"
      by (auto simp: obind_eq_Ret dest!: sys_calls)
    with False show ?thesis
      by (intro exI [of _ "[(Sys_dup2 u fd, r2), (Sys_close u, r3)]"]) (auto simp: fd_effect_def fd_legal_def split: if_splits)
  qed
  moreover have "\<exists>tr. calls s' = calls s1 @ tr \<and> (\<forall>T T'. fd_run tr T = Some T' \<longrightarrow> T' = T)"
  proof (cases "fd \<le> 2")
    case True
    with 2 show ?thesis by (auto simp: obind_eq_Ret dest!: nonblock_run)
  next
    case False
    with 2 show ?thesis by (intro exI [of _ "[]"]) auto
  qed
  ultimately obtain tr1 tr2 where tr: "calls s1 = calls s @ tr1" "calls s' = calls s1 @ tr2"
    and run1: "\<forall>T T' f c. fd_run tr1 T = Some T' \<longrightarrow> T u = Some (f, c) \<longrightarrow>
      T' = (if fd = u then T(fd := Some (f, False)) else T(fd := Some (f, False), u := None))"
    and run2: "\<forall>T T'. fd_run tr2 T = Some T' \<longrightarrow> T' = T" by blast
  show ?thesis
    by (rule exI [of _ "tr1 @ tr2"]) (use tr run1 run2 in \<open>auto simp: fd_run_append\<close>)
qed

section \<open>The standard streams of the child\<close>












definition child_os :: os where
  "child_os = \<lparr>script = [Val 0, Val 0, Val 0, Val 0, Err EBADF, Err EINTR, Val 0, Val 0, Val 3, Val 2, Val 0, Val 0],
     calls = [], no_accept4 = False, no_cloexec = False, no_pipe2 = False\<rparr>"


text \<open>The three descriptors of the child, one call after the other.\<close>

lemma cross_turns:
  assumes "child_stdio e 0 [(0, - 1), (- 1, 2), (- 1, 1)] s = Ret (Inr (), s')"
  shows "\<exists>p fl n tr0 r1 tr1 r2 tr2. calls s' = calls s @ ((Sys_open p fl, Val n) # tr0) @ ((Sys_close (- 1), r1) # tr1) @
      ((Sys_close (- 1), r2) # tr2) \<and>
    (\<forall>T T' f c. fd_run tr0 T = Some T' \<longrightarrow> T n = Some (f, c) \<longrightarrow>
      T' = (if 0 = n then T(0 := Some (f, False)) else T(0 := Some (f, False), n := None))) \<and>
    (\<forall>T T' f c. fd_run tr1 T = Some T' \<longrightarrow> T 2 = Some (f, c) \<longrightarrow> T' = T(1 := Some (f, False), 2 := None)) \<and>
    (\<forall>T T' f c. fd_run tr2 T = Some T' \<longrightarrow> T 1 = Some (f, c) \<longrightarrow> T' = T(2 := Some (f, False), 1 := None))"
proof -
  let ?o = "Sys_open ''/dev/null'' O_RDONLY"
  from assms obtain r s0 where 0: "sys ?o s = Ret (r, s0)"
    and more: "(case r of Val n \<Rightarrow> obind (child_dup 0 n s0) (child_stdio e (0 + 1) [(- 1, 2), (- 1, 1)])
      | _ \<Rightarrow> obind (child_fail e (answer_errno r) s0) (\<lambda>(x, s). Ret (Inl x, s))) = Ret (Inr (), s')"
    by (auto simp: obind_eq_Ret simp del: answer.case)
  then obtain n s1 where r: "r = Val n" and 1: "child_dup 0 n s0 = Ret s1"
    and rest: "child_stdio e 1 [(- 1, 2), (- 1, 1)] s1 = Ret (Inr (), s')"
    by (cases r) (auto simp: obind_eq_Ret)
  from rest obtain r1 t1 s2 where 2: "sys (Sys_close (- 1)) s1 = Ret (r1, t1)" "child_dup 1 2 t1 = Ret s2"
    and rest2: "child_stdio e 2 [(- 1, 1)] s2 = Ret (Inr (), s')" by (auto simp: obind_eq_Ret)
  from rest2 obtain r2 t2 where 3: "sys (Sys_close (- 1)) s2 = Ret (r2, t2)" "child_dup 2 1 t2 = Ret s'"
    by (auto simp: obind_eq_Ret)
  from child_dup_run [OF 1] obtain tr0 where tr0: "calls s1 = calls s0 @ tr0"
    "\<forall>T T' f c. fd_run tr0 T = Some T' \<longrightarrow> T n = Some (f, c) \<longrightarrow>
      T' = (if 0 = n then T(0 := Some (f, False)) else T(0 := Some (f, False), n := None))" by blast
  from child_dup_run [OF 2(2)] obtain tr1 where tr1: "calls s2 = calls t1 @ tr1"
    "\<forall>T T' f c. fd_run tr1 T = Some T' \<longrightarrow> T 2 = Some (f, c) \<longrightarrow> T' = T(1 := Some (f, False), 2 := None)" by auto
  from child_dup_run [OF 3(2)] obtain tr2 where tr2: "calls s' = calls t2 @ tr2"
    "\<forall>T T' f c. fd_run tr2 T = Some T' \<longrightarrow> T 1 = Some (f, c) \<longrightarrow> T' = T(2 := Some (f, False), 1 := None)" by auto
  have "calls s' = calls s @ ((?o, Val n) # tr0) @ ((Sys_close (- 1), r1) # tr1) @ ((Sys_close (- 1), r2) # tr2)"
    using sys_calls [OF 0] sys_calls [OF 2(1)] sys_calls [OF 3(1)] tr0(1) tr1(1) tr2(1) r by simp
  with tr0(2) tr1(2) tr2(2) show ?thesis by blast
qed

text \<open>A container that lets the child inherit the descriptor \<open>fd\<close>.\<close>

definition inherit_fd :: "int \<Rightarrow> uv_stdio_container" where
  "inherit_fd fd = \<lparr>c_flags = UV_INHERIT_FD, c_stream = None, c_fd = fd\<rparr>"

lemma spawn_inherit:
  "spawn_stdio [inherit_fd 0, inherit_fd 2, inherit_fd 1] 0 (replicate 3 (- 1, - 1)) L =
    Ret (0, [(- 1, 0), (- 1, 2), (- 1, 1)], L)"
  by (simp add: inherit_fd_def uv__process_init_stdio_def Let_def numeral_3_eq_3 flag_simps)

text \<open>
  C38. Inherited descriptors do not reach the child: when standard input is inherited and standard
  output and error are inherited crosswise, as \<open>UV_INHERIT_FD\<close> allows, the child that \<open>uv_spawn\<close> starts
  has \<open>/dev/null\<close> as its input, since the pair of the input was swapped, its output is closed and its
  error stream is the parent's.
\<close>

theorem spawn_inherit_cross_lost:
  assumes "spawn_stdio [inherit_fd 0, inherit_fd 2, inherit_fd 1] 0 (replicate 3 (- 1, - 1)) L = Ret (e, pipes, L')"
    and "child_stdio error_fd 0 ((snd (hd pipes), fst (hd pipes)) # tl pipes) s = Ret (Inr (), s')"
    and "calls s' = calls s @ tr" and "fd_run tr T = Some T'"
    and "T 0 = Some (f0, False)" and "T 1 = Some (f1, False)" and "T 2 = Some (f2, False)"
  shows "T' 0 = Some (0, False) \<and> T' 1 = None \<and> T' 2 = Some (f2, False)"
proof -
  have "pipes = [(- 1, 0), (- 1, 2), (- 1, 1)]" using assms(1) unfolding spawn_inherit by simp
  with assms(2) have "child_stdio error_fd 0 [(0, - 1), (- 1, 2), (- 1, 1)] s = Ret (Inr (), s')" by simp
  from cross_turns [OF this] assms(3) obtain p fl n tr0 r1 tr1 r2 tr2 where
    tr: "tr = ((Sys_open p fl, Val n) # tr0) @ ((Sys_close (- 1), r1) # tr1) @ ((Sys_close (- 1), r2) # tr2)" and
    d0: "\<forall>T T' f c. fd_run tr0 T = Some T' \<longrightarrow> T n = Some (f, c) \<longrightarrow>
      T' = (if 0 = n then T(0 := Some (f, False)) else T(0 := Some (f, False), n := None))" and
    d1: "\<forall>T T' f c. fd_run tr1 T = Some T' \<longrightarrow> T 2 = Some (f, c) \<longrightarrow> T' = T(1 := Some (f, False), 2 := None)" and
    d2: "\<forall>T T' f c. fd_run tr2 T = Some T' \<longrightarrow> T 1 = Some (f, c) \<longrightarrow> T' = T(2 := Some (f, False), 1 := None)"
    by auto
  let ?T0 = "T(n := Some (0, False))"
  obtain T1 T2 where n: "T n = None" and 1: "fd_run tr0 ?T0 = Some T1"
    and 2: "fd_run tr1 (T1(- 1 := None)) = Some T2" and 3: "fd_run tr2 (T2(- 1 := None)) = Some T'"
    using assms(4) unfolding tr fd_run_append by (auto simp: fd_effect_def fd_legal_def split: if_splits)
  have "n \<noteq> 0 \<and> n \<noteq> 1 \<and> n \<noteq> 2" using n assms(5-7) by auto
  moreover from this d0 1 have T1: "T1 = ?T0(0 := Some (0, False), n := None)" by (metis fun_upd_same)
  ultimately have "(T1(- 1 := None)) 2 = Some (f2, False)" using assms(7) by simp
  with d1 2 have T2: "T2 = (T1(- 1 := None))(1 := Some (f2, False), 2 := None)" by blast
  then have "(T2(- 1 := None)) 1 = Some (f2, False)" by simp
  with d2 3 have "T' = (T2(- 1 := None))(2 := Some (f2, False), 1 := None)" by blast
  then show ?thesis using T1 T2 \<open>n \<noteq> 0 \<and> n \<noteq> 1 \<and> n \<noteq> 2\<close> by simp
qed

definition cross_os :: os where
  "cross_os = child_os\<lparr>script := [Val 3, Val 0, Val 0, Val 0, Err EBADF, Val 1, Val 0, Val 0, Err EBADF, Val 2, Val 0, Val 0]\<rparr>"

definition std_table :: fd_table where
  "std_table = [0 \<mapsto> (10, False), 1 \<mapsto> (11, False), 2 \<mapsto> (12, False)]"

lemma spawn_inherit_cross_lost_witness:
  "\<forall>L :: unit process_loop_scheme. \<exists>pipes s' T'.
     spawn_stdio [inherit_fd 0, inherit_fd 2, inherit_fd 1] 0 (replicate 3 (- 1, - 1)) L = Ret (0, pipes, L) \<and>
     child_stdio 7 0 ((snd (hd pipes), fst (hd pipes)) # tl pipes) cross_os = Ret (Inr (), s') \<and>
     fd_run (calls s') std_table = Some T' \<and> T' 0 = Some (0, False) \<and> T' 1 = None \<and> T' 2 = Some (12, False)"
proof
  fix L :: "unit process_loop_scheme"
  let ?pipes = "[(- 1, 0), (- 1, 2), (- 1, 1)] :: (int \<times> int) list"
  obtain s' where run: "child_stdio 7 0 ((snd (hd ?pipes), fst (hd ?pipes)) # tl ?pipes) cross_os = Ret (Inr (), s')"
    and legal: "\<exists>T'. fd_run (calls s') std_table = Some T'"
    by (simp add: cross_os_def child_os_def std_table_def sys_def child_dup_def uv__nonblock_def
      sys_retry_def fd_legal_def fd_effect_def)
  then obtain T' where T': "fd_run (calls s') std_table = Some T'" by blast
  have tr: "calls s' = calls cross_os @ calls s'" by (simp add: cross_os_def child_os_def)
  have "T' 0 = Some (0, False) \<and> T' 1 = None \<and> T' 2 = Some (12, False)"
    by (rule spawn_inherit_cross_lost [OF spawn_inherit run tr T']) (simp_all add: std_table_def)
  with spawn_inherit run T' show "\<exists>pipes s' T'.
     spawn_stdio [inherit_fd 0, inherit_fd 2, inherit_fd 1] 0 (replicate 3 (- 1, - 1)) L = Ret (0, pipes, L) \<and>
     child_stdio 7 0 ((snd (hd pipes), fst (hd pipes)) # tl pipes) cross_os = Ret (Inr (), s') \<and>
     fd_run (calls s') std_table = Some T' \<and> T' 0 = Some (0, False) \<and> T' 1 = None \<and> T' 2 = Some (12, False)"
    by blast
qed

end
