(* ===== verification/Fs_Props.thy ===== *)
theory Fs_Props
  imports Fs
begin


definition written_by :: "int \<Rightarrow> sysc \<times> answer \<Rightarrow> byte list" where
  "written_by fd x =
     (case fst x of
        Sys_write f bs \<Rightarrow> if f = fd then (case snd x of Val n \<Rightarrow> take (nat n) bs | _ \<Rightarrow> []) else []
      | _ \<Rightarrow> [])"



lemma written_failed [simp]: "written_by fd (c, Err e) = []"
  by (simp add: written_by_def split: sysc.split)


























end
