(* ===== verification/Core_Props.thy ===== *)
theory Core_Props
  imports Core
begin

section \<open>The client's part of the state\<close>

text \<open>
  The theorem on a pass over the timers lets callbacks change what lies beyond the timers in the
  record of the loop; \<open>core_lift\<close> turns a change of the client's part into such a change.
\<close>

type_synonym 'm core_rest = "'m core_loop_ext fs_poll_loop_ext fs_loop_ext fs_event_loop_ext process_loop_ext
    signal_loop_ext udp_loop_ext stream_loop_ext async_loop_ext lw_loop_ext net_loop_ext io_loop_ext"

definition core_lift :: "('m \<Rightarrow> 'm) \<Rightarrow> 'm core_rest \<Rightarrow> 'm core_rest" where
  "core_lift f m = timer_loop.more (core_loop.more_update f (timer_loop.extend (empty_timers 0 ()) m))"

lemma core_more_update:
  fixes L :: "'m core_loop_scheme"
  shows "core_loop.more_update f L = timer_loop.more_update (core_lift f) L"
  by (cases L) (simp add: core_lift_def timer_loop.defs empty_timers_def)

lemma core_lift_comp: "core_lift f (core_lift g m) = core_lift (\<lambda>x. f (g x)) m"
proof -
  obtain L :: "'a core_loop_scheme" where m: "m = timer_loop.more L"
    by (metis timer_loop.select_convs(3) timer_loop.surjective)
  show ?thesis unfolding m
    by (cases L) (simp add: core_lift_def timer_loop.defs empty_timers_def)
qed

lemma core_lift_id: "core_lift (\<lambda>x. x) m = m"
proof -
  obtain L :: "'a core_loop_scheme" where m: "m = timer_loop.more L"
    by (metis timer_loop.select_convs(3) timer_loop.surjective)
  show ?thesis unfolding m
    by (cases L) (simp add: core_lift_def timer_loop.defs empty_timers_def)
qed

lemma fold_core_lift: "fold (\<lambda>h. core_lift (g h)) hs m = core_lift (fold g hs) m"
  by (induction hs arbitrary: m) (simp_all add: core_lift_id core_lift_comp comp_def id_def)

lemma core_lift_fields:
  fixes L L' :: "'m core_loop_scheme"
  assumes "timer_loop.more L' = core_lift f (timer_loop.more L)"
  shows "core_loop.more L' = f (core_loop.more L)" "nfds L' = nfds L" "watcher_queue L' = watcher_queue L"
    "pending_queue L' = pending_queue L" "lw_queues L' = lw_queues L"
  using assms by (cases L; cases L'; simp add: core_lift_def timer_loop.defs empty_timers_def)+

section \<open>Loops with timers only\<close>

text \<open>
  A loop in which nothing but timers is alive: no request, no handle that closes, no idle,
  prepare or check handle, no watcher with news for the poll. Other handles may be there,
  unreferenced or inactive, as the library's own are. The timers fire once, and their callbacks are
  the user's.
\<close>

definition timers_only :: "('m) core_loop_scheme \<Rightarrow> bool" where
  "timers_only L \<longleftrightarrow> timer_inv L \<and> live_handles L = active_timers L \<and> length (handle_queue L) < 2 ^ 32 \<and>
     active_reqs L = [] \<and> closing_handles L = [] \<and> pending_queue L = [] \<and>
     watcher_queue L = [] \<and> nfds L \<noteq> 0 \<and>
     ngx_queue_empty (Head IDLE) (lw_queues L) \<and> ngx_queue_empty (Head PREPARE) (lw_queues L) \<and>
     ngx_queue_empty (Head CHECK) (lw_queues L) \<and>
     (\<forall>h \<in> active_timers L. timer_repeat (timers L h) = 0 \<and> timer_cb (timers L h) \<noteq> None \<and>
        timer_cb (timers L h) \<noteq> Some CB_FS_POLL_TIMER)"

text \<open>
  The kernel has no events, and a wait of \<open>t\<close> milliseconds lasts at least \<open>t\<close> and at most \<open>t + slack\<close>, as
  long as the clock stays below \<open>2^63\<close>.
\<close>

definition quiet_kernel :: "int \<Rightarrow> 'k epoll_kernel \<Rightarrow> bool" where
  "quiet_kernel slack K \<longleftrightarrow> (\<forall>k t. 0 \<le> t \<longrightarrow> uint (hrtime_ms K k) + t + slack < 2 ^ 63 \<longrightarrow>
     (\<exists>k'. epoll_wait K k t = (Inr [], k') \<and> uint (hrtime_ms K k) + t \<le> uint (hrtime_ms K k') \<and>
        uint (hrtime_ms K k') \<le> uint (hrtime_ms K k) + t + slack))"

definition due_order :: "('m) timer_loop_scheme \<Rightarrow> nat \<Rightarrow> nat \<Rightarrow> bool" where
  "due_order L a b \<longleftrightarrow> due_time L a < due_time L b \<or> due_time L a = due_time L b \<and> a < b"

lemma run_name_empty: "ngx_queue_empty (Head k) (lw_queues L) \<Longrightarrow> uv__run_name cb k L = Some (Ret L)"
  unfolding uv__run_name_def ngx_foreach_do_def by (subst ngx_walk.simps) simp

lemma run_pending_empty: "pending_queue L = [] \<Longrightarrow> uv__run_pending cb L = Some (Ret L)"
  by (subst uv__run_pending.simps) simp

lemma timers_only_alive: "timers_only L \<Longrightarrow> uv__loop_alive L \<longleftrightarrow> active_timers L \<noteq> {}"
  using has_active_handles_iff [of L]
  by (simp add: timers_only_def timer_inv_def uv__loop_alive_def uv__has_active_reqs_def)

lemma io_poll_quiet:
  assumes "nfds L \<noteq> 0" and "watcher_queue L = []" and "0 \<le> t" and "epoll_wait K k t = (Inr [], k')"
  shows "uv__io_poll K cb t (k, L) = Some (Ret (k', L))"
proof -
  have "io_wait K cb b n t (k, L) = Some (Ret (k', L))" for b n
    using assms(3,4) by (subst io_wait.simps) (simp add: io_round_def)
  with assms(1-3) show ?thesis by (simp add: uv__io_poll_def)
qed

text \<open>What the user's timer callback does to the client's part.\<close>

definition timers_report :: "(nat \<Rightarrow> nat \<Rightarrow> 'm \<Rightarrow> 'm) \<Rightarrow> ('m core_loop_scheme) callbacks \<Rightarrow> bool" where
  "timers_report g U \<longleftrightarrow> (\<forall>c h L. on_timer U c h L = Ret (core_loop.more_update (g c h) L))"

lemma timers_pass:
  fixes L :: "'m core_loop_scheme"
  assumes "timers_only L" and "0 \<le> sint (loop_time L)" and "timers_report g U"
  shows "\<exists>L' hs. uv__run_timers (timer_dispatch_cb U) L = Some (Ret L') \<and> timers_only L' \<and>
    loop_time L' = loop_time L \<and>
    set hs = {h \<in> active_timers L. due_time L h \<le> loop_time L} \<and> sorted_wrt (due_order L) hs \<and>
    core_loop.more L' = fold (\<lambda>h. g (the (timer_cb (timers L h))) h) hs (core_loop.more L) \<and>
    active_timers L' = active_timers L - set hs \<and>
    (\<forall>h \<in> active_timers L'. due_time L' h = due_time L h) \<and>
    (\<forall>h. timer_cb (timers L' h) = timer_cb (timers L h))"
proof -
  define hs where "hs = filter (timer_due L) (rb_inorder (timer_handles L))"
  have inv: "timer_inv L" and one: "\<forall>h \<in> active_timers L. timer_repeat (timers L h) = 0"
    and cbs: "\<forall>h \<in> active_timers L. timer_cb (timers L h) \<noteq> None \<and> timer_cb (timers L h) \<noteq> Some CB_FS_POLL_TIMER"
    using assms(1) by (simp_all add: timers_only_def)
  have sane: "timers_sane L" using assms(2) one cbs by (simp add: timers_sane_def)
  have user: "\<forall>h \<in> active_timers L. \<forall>M. timer_dispatch_cb U (the (timer_cb (timers L h))) h M =
      Ret (timer_loop.more_update (core_lift (g (the (timer_cb (timers L h))) h)) M)"
    using cbs assms(3) by (auto simp: timer_dispatch_cb_def timers_report_def core_more_update)
  from run_timers_order [OF inv sane, of "timer_dispatch_cb U" "\<lambda>c h. core_lift (g c h)"] user obtain L' where
    run: "uv__run_timers (timer_dispatch_cb U) L = Some (Ret L')" and inv': "timer_inv L'"
    and time: "loop_time L' = loop_time L"
    and more: "timer_loop.more L' = fold (\<lambda>h. core_lift (g (the (timer_cb (timers L h))) h)) hs (timer_loop.more L)"
    and act: "active_timers L' = {h \<in> active_timers L. timer_due L h \<longrightarrow> timer_repeat (timers L h) \<noteq> 0}"
    and due: "\<forall>h \<in> active_timers L'. due_time L' h =
       (if timer_due L h then loop_time L + timer_repeat (timers L h) else due_time L h)"
    and frame: "run_frame L L'"
    unfolding hs_def [symmetric] by blast
  have set: "set hs = {h \<in> active_timers L. due_time L h \<le> loop_time L}"
    using inv by (auto simp: hs_def timer_inv_def timer_due_def)
  have sorted: "sorted_wrt (due_order L) hs"
    unfolding hs_def due_order_def uv__timer_cmp_less [symmetric]
    using inv by (intro sorted_wrt_filter) (simp add: timer_inv_def timer_order.sorted_tree_def)
  have act': "active_timers L' = active_timers L - set hs"
    unfolding act set using one by (auto simp: timer_due_def)
  have lift: "timer_loop.more L' =
      core_lift (fold (\<lambda>h. g (the (timer_cb (timers L h))) h) hs) (timer_loop.more L)"
    by (simp add: more fold_core_lift)
  note fields = core_lift_fields [OF lift]
  have "live_handles L' = active_timers L'"
  proof (rule set_eqI)
    fix h
    have eq: "is_timer L' h \<longleftrightarrow> is_timer L h" "uv__has_ref L' h = uv__has_ref L h" "handle_queue L' = handle_queue L"
      using frame by (simp_all add: run_frame_def is_timer_def)
    show "h \<in> live_handles L' \<longleftrightarrow> h \<in> active_timers L'"
    proof (cases "is_timer L h")
      case True
      then have "uv__has_ref L h" if "h \<in> active_timers L'"
        using assms(1) that act by (auto simp: timers_only_def live_handles_def)
      with True eq show ?thesis by (auto simp: live_handles_def active_timers_def is_timer_def)
    next
      case False
      then have "uv__is_active L' h = uv__is_active L h" using frame by (simp add: run_frame_def)
      with False eq assms(1) show ?thesis
        by (auto simp: timers_only_def live_handles_def active_timers_def is_timer_def)
    qed
  qed
  then have "timers_only L'"
    using assms(1) inv' frame fields act by (auto simp: timers_only_def run_frame_def)
  moreover have "\<forall>h \<in> active_timers L'. due_time L' h = due_time L h"
    using due act one by auto
  moreover have "\<forall>h. timer_cb (timers L' h) = timer_cb (timers L h)"
    using frame by (simp add: run_frame_def)
  ultimately show ?thesis
    using run time set sorted act' fields(1) by blast
qed

lemma time_update_timers [simp]:
  "active_timers (L\<lparr>loop_time := t\<rparr>) = active_timers L"
  "live_handles (L\<lparr>loop_time := t\<rparr>) = live_handles L"
  "due_time (L\<lparr>loop_time := t\<rparr>) = due_time L"
  "due_order (L\<lparr>loop_time := t\<rparr>) = due_order L"
  by (simp_all add: active_timers_def is_timer_def live_handles_def uv__is_active_def uv__has_ref_def
      flags_of_def due_time_def due_order_def fun_eq_iff)

lemma timers_only_time [simp]: "timers_only (L\<lparr>loop_time := t\<rparr>) = timers_only L"
  by (simp add: timers_only_def timer_inv_def handle_inv_def)

text \<open>The timeout of the poll after the pass, and the poll itself.\<close>

lemma backend_timeout_timers:
  assumes "timers_only L" and "\<forall>h \<in> active_timers L. loop_time L < due_time L h"
    and "\<forall>h \<in> active_timers L. uint (due_time L h) - uint (loop_time L) < 2 ^ 31"
  shows "0 \<le> uv_backend_timeout L"
    and "active_timers L \<noteq> {} \<Longrightarrow>
      \<exists>h \<in> active_timers L. uv_backend_timeout L = uint (due_time L h) - uint (loop_time L)"
proof -
  have inv: "timer_inv L" using assms(1) by (simp add: timers_only_def)
  have alive: "uv__has_active_handles L \<longleftrightarrow> active_timers L \<noteq> {}"
    using timers_only_alive [OF assms(1)] assms(1)
    by (simp add: timers_only_def uv__loop_alive_def uv__has_active_reqs_def)
  show some: "\<exists>h \<in> active_timers L. uv_backend_timeout L = uint (due_time L h) - uint (loop_time L)"
    if ne: "active_timers L \<noteq> {}"
  proof -
    obtain h where h: "rb_min (timer_handles L) = Some h" "due_time L h = Min (due_time L ` active_timers L)"
      using min_timer [OF inv ne] by blast
    have "finite (active_timers L)" using inv by (metis timer_inv_def List.finite_set)
    then have "due_time L h \<in> due_time L ` active_timers L" using h(2) ne by simp
    then obtain k where k: "k \<in> active_timers L" "due_time L k = due_time L h" by auto
    have "uv__next_timeout L = max 0 (uint (due_time L h) - uint (loop_time L))"
      using next_timeout_value [OF inv assms(3)] ne h(2) by simp
    moreover have "loop_time L < due_time L k" using assms(2) k(1) by blast
    ultimately have "uv__next_timeout L = uint (due_time L k) - uint (loop_time L)"
      using k(2) by (simp add: word_less_def)
    with k(1) alive ne assms(1) show ?thesis
      by (auto simp: uv_backend_timeout_def timers_only_def)
  qed
  show "0 \<le> uv_backend_timeout L"
  proof (cases "active_timers L = {}")
    case True
    with alive assms(1) show ?thesis
      by (simp add: uv_backend_timeout_def timers_only_def uv__has_active_reqs_def)
  next
    case False
    from some [OF this] assms(2) show ?thesis by (auto simp: word_less_def)
  qed
qed

lemma timers_turn:
  fixes L :: "'m core_loop_scheme"
  assumes "timers_only L" and "quiet_kernel slack K" and "timers_report g U" and "0 \<le> slack"
    and clock: "uint (hrtime_ms K k) + 2 ^ 31 + slack < 2 ^ 63"
    and near: "\<forall>h \<in> active_timers L. uint (due_time L h) - uint (hrtime_ms K k) < 2 ^ 31"
  shows "\<exists>k' L' hs. run_turn K PK U UV_RUN_DEFAULT (k, L) = Some (Ret (k', L')) \<and> timers_only L' \<and>
    set hs = {h \<in> active_timers L. due_time L h \<le> hrtime_ms K k} \<and> sorted_wrt (due_order L) hs \<and>
    core_loop.more L' = fold (\<lambda>h. g (the (timer_cb (timers L h))) h) hs (core_loop.more L) \<and>
    active_timers L' = active_timers L - set hs \<and>
    (\<forall>h \<in> active_timers L'. due_time L' h = due_time L h) \<and>
    (\<forall>h. timer_cb (timers L' h) = timer_cb (timers L h)) \<and>
    uint (hrtime_ms K k) \<le> uint (hrtime_ms K k') \<and>
    (active_timers L' \<noteq> {} \<longrightarrow> (\<exists>h \<in> active_timers L'. due_time L' h \<le> hrtime_ms K k' \<and>
       uint (hrtime_ms K k') \<le> uint (due_time L' h) + slack))"
proof -
  let ?L = "uv_update_time K k L"
  have L: "timers_only ?L" "0 \<le> sint (loop_time ?L)"
    using assms(1,4) clock by (simp_all add: uv_update_time_def sint_nonneg_iff)
  obtain L' hs where pass: "uv__run_timers (timer_dispatch_cb U) ?L = Some (Ret L')" "timers_only L'"
      "loop_time L' = hrtime_ms K k" "set hs = {h \<in> active_timers L. due_time L h \<le> hrtime_ms K k}"
      "sorted_wrt (due_order L) hs"
      "core_loop.more L' = fold (\<lambda>h. g (the (timer_cb (timers L h))) h) hs (core_loop.more L)"
      "active_timers L' = active_timers L - set hs"
      "\<forall>h \<in> active_timers L'. due_time L' h = due_time L h"
      "\<forall>h. timer_cb (timers L' h) = timer_cb (timers L h)"
    using timers_pass [OF L assms(3)] by (auto simp: uv_update_time_def)
  have later: "\<forall>h \<in> active_timers L'. loop_time L' < due_time L' h"
    using pass(3,4,7,8) by auto
  have "\<forall>h \<in> active_timers L'. uint (due_time L' h) - uint (loop_time L') < 2 ^ 31"
    using near pass(3,7,8) by auto
  note timeout = backend_timeout_timers [OF pass(2) later this]
  let ?t = "uv_backend_timeout L'"
  have "?t < 2 ^ 31"
  proof (cases "active_timers L' = {}")
    case True
    with pass(2) timers_only_alive [OF pass(2)] show ?thesis
      by (simp add: uv_backend_timeout_def timers_only_def uv__loop_alive_def uv__has_active_reqs_def)
  next
    case False
    with timeout(2) near pass(3,7,8) show ?thesis by fastforce
  qed
  with clock assms(4) timeout(1) obtain k' where k': "epoll_wait K k ?t = (Inr [], k')"
      "uint (hrtime_ms K k) + ?t \<le> uint (hrtime_ms K k')"
      "uint (hrtime_ms K k') \<le> uint (hrtime_ms K k) + ?t + slack"
    using assms(2) [unfolded quiet_kernel_def, rule_format, of ?t k] by auto
  have "\<exists>h \<in> active_timers L'. due_time L' h \<le> hrtime_ms K k' \<and>
      uint (hrtime_ms K k') \<le> uint (due_time L' h) + slack" if ne: "active_timers L' \<noteq> {}"
  proof -
    obtain h where "h \<in> active_timers L'" "?t = uint (due_time L' h) - uint (loop_time L')"
      using timeout(2) [OF ne] by blast
    with k'(2,3) pass(3) show ?thesis by (auto simp: word_le_def)
  qed
  moreover have "uint (hrtime_ms K k) \<le> uint (hrtime_ms K k')" using k'(2) timeout(1) by linarith
  moreover have "uv__io_poll K (io_dispatch_cb PK U) ?t (k, L') = Some (Ret (k', L'))"
    using pass(2) timeout(1) k'(1) by (intro io_poll_quiet) (simp_all add: timers_only_def)
  then have "run_turn K PK U UV_RUN_DEFAULT (k, L) = Some (Ret (k', L'))"
    using pass(1,2)
    by (simp add: run_turn_def run_name_empty run_pending_empty timers_only_def
        uv__run_closing_handles_def)
  ultimately show ?thesis using pass by blast
qed

lemma run_loop_ends:
  fixes L :: "'m core_loop_scheme"
  assumes "quiet_kernel slack K" and "timers_report g U" and "0 \<le> slack"
    and "timers_only L" and "\<forall>h \<in> active_timers L. uint (due_time L h) - uint (hrtime_ms K k) < 2 ^ 31"
    and "\<forall>h \<in> active_timers L. uint (due_time L h) \<le> B" and "uint (hrtime_ms K k) \<le> B + slack"
    and "B + 2 ^ 31 + 2 * slack < 2 ^ 63"
  shows "\<exists>k' L' hs. run_loop K PK U UV_RUN_DEFAULT (k, L) = Some (Ret (False, k', L')) \<and>
    set hs = active_timers L \<and> sorted_wrt (due_order L) hs \<and>
    core_loop.more L' = fold (\<lambda>h. g (the (timer_cb (timers L h))) h) hs (core_loop.more L) \<and>
    active_timers L' = {}"
  using assms(4-7)
proof (induction "if \<exists>h \<in> active_timers L. due_time L h \<le> hrtime_ms K k then 2 * card (active_timers L)
    else Suc (2 * card (active_timers L))" arbitrary: k L rule: less_induct)
  case less
  have "uint (hrtime_ms K k) + 2 ^ 31 + slack < 2 ^ 63" using less.prems(4) assms(8) by linarith
  note turn' = timers_turn [OF less.prems(1) assms(1,2,3) this less.prems(2), where PK = PK]
  obtain k' L' hs where turn: "run_turn K PK U UV_RUN_DEFAULT (k, L) = Some (Ret (k', L'))" "timers_only L'"
    and hs: "set hs = {h \<in> active_timers L. due_time L h \<le> hrtime_ms K k}" "sorted_wrt (due_order L) hs"
    and more: "core_loop.more L' = fold (\<lambda>h. g (the (timer_cb (timers L h))) h) hs (core_loop.more L)"
    and act: "active_timers L' = active_timers L - set hs"
    and due: "\<forall>h \<in> active_timers L'. due_time L' h = due_time L h"
    and cb: "\<forall>h. timer_cb (timers L' h) = timer_cb (timers L h)"
    and clock: "uint (hrtime_ms K k) \<le> uint (hrtime_ms K k')"
    and some: "active_timers L' \<noteq> {} \<longrightarrow> (\<exists>h \<in> active_timers L'. due_time L' h \<le> hrtime_ms K k' \<and>
       uint (hrtime_ms K k') \<le> uint (due_time L' h) + slack)"
    using turn' by blast
  have step: "run_loop K PK U UV_RUN_DEFAULT (k, L) =
      (if active_timers L' \<noteq> {} then run_loop K PK U UV_RUN_DEFAULT (k', L')
       else Some (Ret (False, k', L')))"
    by (subst run_loop.simps) (simp add: turn(1) timers_only_alive [OF turn(2)])
  show ?case
  proof (cases "active_timers L' = {}")
    case True
    then have "set hs = active_timers L" using act hs(1) by auto
    with True step hs(2) more show ?thesis by (intro exI [of _ k'] exI [of _ L'] exI [of _ hs]) simp
  next
    case False
    have fin: "finite (active_timers L)"
      using less.prems(1) by (metis timers_only_def timer_inv_def List.finite_set)
    have le: "card (active_timers L') \<le> card (active_timers L)"
      unfolding act by (rule card_mono [OF fin]) auto
    have lt: "card (active_timers L') < card (active_timers L)"
      if "\<exists>h \<in> active_timers L. due_time L h \<le> hrtime_ms K k"
      unfolding act using that hs(1) by (intro psubset_card_mono [OF fin]) auto
    from some False have due': "\<exists>h \<in> active_timers L'. due_time L' h \<le> hrtime_ms K k'"
      and late: "\<exists>h \<in> active_timers L'. uint (hrtime_ms K k') \<le> uint (due_time L' h) + slack" by blast+
    have smaller: "(if \<exists>h \<in> active_timers L'. due_time L' h \<le> hrtime_ms K k'
          then 2 * card (active_timers L') else Suc (2 * card (active_timers L')))
        < (if \<exists>h \<in> active_timers L. due_time L h \<le> hrtime_ms K k
          then 2 * card (active_timers L) else Suc (2 * card (active_timers L)))"
      (is "_ < (if ?P then ?a else ?b)")
    proof (cases ?P)
      case True
      with lt show ?thesis unfolding if_P [OF due'] if_P [OF True] by simp
    next
      case False
      with le show ?thesis unfolding if_P [OF due'] if_not_P [OF False] by simp
    qed
    have near: "\<forall>h \<in> active_timers L'. uint (due_time L' h) - uint (hrtime_ms K k') < 2 ^ 31"
      using less.prems(2) due act clock by fastforce
    have bound: "\<forall>h \<in> active_timers L'. uint (due_time L' h) \<le> B"
      using less.prems(3) due act by simp
    with late have "uint (hrtime_ms K k') \<le> B + slack" by fastforce
    from less.hyps [OF smaller turn(2) near bound this] obtain k2 L2 hs2 where
      rest: "run_loop K PK U UV_RUN_DEFAULT (k', L') = Some (Ret (False, k2, L2))"
      and hs2: "set hs2 = active_timers L'" "sorted_wrt (due_order L') hs2"
      and more2: "core_loop.more L2 = fold (\<lambda>h. g (the (timer_cb (timers L' h))) h) hs2 (core_loop.more L')"
      and done2: "active_timers L2 = {}" by blast
    have "sorted_wrt (due_order L) hs2"
      by (rule sorted_wrt_mono_rel [OF _ hs2(2)]) (use hs2(1) due in \<open>simp add: due_order_def\<close>)
    moreover have "\<forall>a \<in> set hs. \<forall>b \<in> set hs2. due_order L a b"
      using hs(1) hs2(1) act by (auto simp: due_order_def not_le intro: le_less_trans)
    ultimately have "sorted_wrt (due_order L) (hs @ hs2)" using hs(2) by (simp add: sorted_wrt_append)
    moreover have "set (hs @ hs2) = active_timers L" using hs(1) hs2(1) act by auto
    moreover have "core_loop.more L2 = fold (\<lambda>h. g (the (timer_cb (timers L h))) h) (hs @ hs2) (core_loop.more L)"
      by (simp add: more2 more cb)
    ultimately show ?thesis
      using step rest False done2 by (intro exI [of _ k2] exI [of _ L2] exI [of _ "hs @ hs2"]) simp
  qed
qed

text \<open>
  C15. The loop as a whole, with timers: in a loop where only one-shot timers are alive, due less
  than \<open>2^31\<close> milliseconds ahead, \<open>uv_run\<close> returns, for every kernel that keeps the contract of the
  wait. It has called the callback of every active timer exactly once, in the order of due times
  and of addresses where these are equal; no timer is active any more, and the result says
  that the loop is not alive. The callbacks \<open>g\<close> work on the client's part of the state.
\<close>

theorem uv_run_timers_complete:
  fixes L :: "'m core_loop_scheme"
  assumes "quiet_kernel slack K" and "timers_report g U" and "timers_only L"
    and "0 \<le> slack" and "uint (hrtime_ms K k) + 2 ^ 32 + 2 * slack < 2 ^ 63"
    and "\<forall>h \<in> active_timers L. uint (due_time L h) < uint (hrtime_ms K k) + 2 ^ 31"
  shows "\<exists>k' L' hs. uv_run K PK U (k, L) = Some (Ret (False, k', L')) \<and>
    set hs = active_timers L \<and> sorted_wrt (due_order L) hs \<and>
    core_loop.more L' = fold (\<lambda>h. g (the (timer_cb (timers L h))) h) hs (core_loop.more L) \<and>
    active_timers L' = {}"
proof (cases "uv__loop_alive L")
  case True
  let ?B = "uint (hrtime_ms K k) + 2 ^ 31"
  have near: "\<forall>h \<in> active_timers L. uint (due_time L h) - uint (hrtime_ms K k) < 2 ^ 31"
    and bound: "\<forall>h \<in> active_timers L. uint (due_time L h) \<le> ?B"
    using assms(6) by fastforce+
  have "uint (hrtime_ms K k) \<le> ?B + slack" "?B + 2 ^ 31 + 2 * slack < 2 ^ 63" using assms(4,5) by simp_all
  from run_loop_ends [OF assms(1,2,4,3) near bound this, where PK = PK] True show ?thesis
    by (simp add: uv_run_def uv_run2_def)
next
  case False
  with timers_only_alive [OF assms(3)] show ?thesis
    by (simp add: uv_run_def uv_run2_def)
qed

text \<open>A clock that jumps by the timeout, and a loop with one timer.\<close>

definition jump_kernel :: "uint64 epoll_kernel" where
  "jump_kernel = \<lparr>epoll_ctl = (\<lambda>k _ _ _. (0, k)), epoll_wait = (\<lambda>k t. (Inr [], k + word_of_int t)), hrtime_ms = (\<lambda>k. k)\<rparr>"

definition no_pipe :: "uint64 pipe_kernel" where
  "no_pipe = \<lparr>pipe_read = (\<lambda>k _ _. (Err EAGAIN, k)), pipe_write = (\<lambda>k _. (Val 1, k))\<rparr>"

definition log_timers :: "((nat \<times> nat) list core_loop_scheme) callbacks" where
  "log_timers = \<lparr>on_stream = (\<lambda>_. Ret), on_udp = (\<lambda>_. Ret), on_alloc = (\<lambda>_ _ L. (0, L)),
     on_timer = (\<lambda>c h L. Ret (core_loop.more_update (\<lambda>l. l @ [(c, h)]) L)), on_watcher = (\<lambda>_ _. Ret),
     on_async = (\<lambda>_ _. Ret), on_signal = (\<lambda>_ _ _. Ret), on_exit = (\<lambda>_ _ _ _. Ret),
     on_fs_event = (\<lambda>_ _ _ _. Ret), on_fs = (\<lambda>_ _. Ret), on_fs_poll = (\<lambda>_ _ _ _ _. Ret),
     on_work = (\<lambda>_ _ _. Ret), on_getaddrinfo = (\<lambda>_ _. Ret), on_close = (\<lambda>_ _. Ret)\<rparr>"

lemma jump_quiet: "quiet_kernel 0 jump_kernel"
  unfolding quiet_kernel_def
proof (intro allI impI)
  fix k :: uint64 and t :: int
  assume t: "0 \<le> t" and lt: "uint (hrtime_ms jump_kernel k) + t + 0 < 2 ^ 63"
  have "uint (k + word_of_int t) = (uint k + t) mod 2 ^ 64"
    by (simp add: uint_word_ariths uint_word_of_int mod_simps)
  also have "\<dots> = uint k + t" using t lt by (simp add: jump_kernel_def)
  finally show "\<exists>k'. epoll_wait jump_kernel k t = (Inr [], k') \<and>
      uint (hrtime_ms jump_kernel k) + t \<le> uint (hrtime_ms jump_kernel k') \<and>
      uint (hrtime_ms jump_kernel k') \<le> uint (hrtime_ms jump_kernel k) + t + 0"
    by (simp add: jump_kernel_def)
qed

definition sample_loop :: "(nat \<times> nat) list core_loop_scheme" where
  "sample_loop = snd (uv_timer_init (blank_core 100 []) 5)"

lemma blank_core_timers: "blank_core now m = empty_timers now (timer_loop.more (blank_core now m))"
  by (simp add: blank_core_def empty_timers_def null_handle_def)

theorem uv_run_timers_complete_witness:
  "\<exists>L k' L'. uv_timer_start sample_loop 5 (Some 7) 50 0 = Ret (0, L) \<and>
     uv_run jump_kernel no_pipe log_timers (100, L) = Some (Ret (False, k', L')) \<and>
     core_loop.more L' = [(7, 5)]"
proof -
  have init: "timer_inv sample_loop" "is_timer sample_loop 5" "active_timers sample_loop = {}"
      "loop_time sample_loop = 100"
    using one_timer_inv [of 100 "timer_loop.more (blank_core 100 ([] :: (nat \<times> nat) list))"]
    unfolding sample_loop_def by (simp_all flip: blank_core_timers)
  obtain L where L: "uv_timer_start sample_loop 5 (Some 7) 50 0 = Ret (0, L)" "timer_inv L"
      "timer_frame 5 sample_loop L" "uv__is_active L 5"
      "timers L 5 = \<lparr>timer_cb = Some 7, timer_timeout = 150, timer_repeat = 0\<rparr>"
    using start_ok [OF init(1,2), of 50 0 "Some 7"] by (auto simp: init sint_small)
  have act: "active_timers L = {5}"
    using timer_frame_active [OF L(3)] L(4) by (simp add: init)
  have queue: "handle_queue L = [5]"
    using L(3) by (simp add: timer_frame_def sample_loop_def uv_timer_init_def blank_core_def Let_def)
  have ref: "uv__has_ref L 5"
    using L(3) by (simp add: timer_frame_def sample_loop_def uv_timer_init_def Let_def set_timer_def
        uv__handle_init_def uv__has_ref_def flags_of_def flag_on_def)
  have more: "timer_loop.more L = timer_loop.more (blank_core 100 ([] :: (nat \<times> nat) list))"
    using L(3) by (simp add: timer_frame_def sample_loop_def uv_timer_init_def Let_def set_timer_def
        uv__handle_init_def)
  have "live_handles L = {5}" using queue ref L(4) by (auto simp: live_handles_def)
  moreover have "closing_handles L = []" "active_reqs L = []"
    using L(3) by (simp_all add: timer_frame_def sample_loop_def uv_timer_init_def blank_core_def Let_def)
  moreover have "core_loop.more L = []" "nfds L = 1" "watcher_queue L = []" "pending_queue L = []"
      "lw_queues L = lw_queues (blank_core 100 ([] :: (nat \<times> nat) list))"
    using core_lift_fields [of L "\<lambda>x. x" "blank_core 100 []"] more
    by (simp_all add: core_lift_id blank_core_def)
  ultimately have only: "timers_only L"
    using L(2,5) act queue
    by (simp add: timers_only_def blank_core_def ngx_queue_empty_def ngx_queue_init_def set_next_def set_prev_def)
  have log: "timers_report (\<lambda>c h l. l @ [(c, h)]) log_timers"
    by (simp add: timers_report_def log_timers_def)
  have due: "due_time L 5 = 150" by (simp add: due_time_def L(5))
  obtain k' L' hs where "uv_run jump_kernel no_pipe log_timers (100, L) = Some (Ret (False, k', L'))"
      "set hs = {5}" "sorted_wrt (due_order L) hs"
      "core_loop.more L' = fold (\<lambda>h. (\<lambda>l. l @ [(the (timer_cb (timers L h)), h)])) hs (core_loop.more L)"
    using uv_run_timers_complete [OF jump_quiet log only, of 100 no_pipe] act due
    by (auto simp: jump_kernel_def)
  moreover from this have "hs = [5]"
  proof (cases hs)
    case (Cons h rest)
    with calculation(2,3) show ?thesis by (cases rest) (auto simp: due_order_def)
  qed simp
  ultimately show ?thesis using L(1,5) \<open>core_loop.more L = []\<close> by auto
qed

end
