(* ===== verification/Barrier.thy ===== *)
theory Barrier
  imports Prelude
begin

text \<open>
  The barrier that \<open>unix/thread.c\<close> (on Apple systems) and \<open>win/thread.c\<close> build from a mutex and two
  semaphores. The threads are the numbers below \<open>b_n\<close>; a thread's position is the next statement of
  its call of \<open>uv_barrier_wait\<close>, and a schedule says which thread tries to go on next. A thread
  that waits for the mutex or for a semaphore tries in vain.
\<close>

section \<open>The barrier\<close>

datatype bpc = Outside | Lock_in | Wait2_last | Post1_last | Unlock_in | Wait1 | Post1 |
  Lock_out | Wait1_last | Post2_last | Unlock_out | Wait2 | Post2

record uv_barrier =
  b_n :: nat
  b_count :: nat
  b_mutex :: "nat option"
  turnstile1 :: nat
  turnstile2 :: nat
  b_pc :: "nat \<Rightarrow> bpc"
  b_arrived :: "nat \<Rightarrow> nat"
  b_returned :: "nat \<Rightarrow> nat"

text \<open>
  \<open>uv_barrier_init\<close>; the answers are those of the initialisation of the mutex and of the two
  semaphores, and what was initialised is destroyed when a later one fails. The counters
  \<open>b_arrived\<close> and \<open>b_returned\<close> only record how often a thread has come and gone.
\<close>

definition uv_barrier_init :: "nat \<Rightarrow> bool \<Rightarrow> bool \<Rightarrow> bool \<Rightarrow> int \<times> uv_barrier option \<times> string list" where
  "uv_barrier_init n mutex_ok sem1_ok sem2_ok =
     (if \<not> mutex_ok then (- 1, None, [])
      else if \<not> sem1_ok then (- 1, None, [''mutex''])
      else if \<not> sem2_ok then (- 1, None, [''turnstile1'', ''mutex''])
      else (0, Some \<lparr>b_n = n, b_count = 0, b_mutex = None, turnstile1 = 0, turnstile2 = 1,
        b_pc = (\<lambda>i. Outside), b_arrived = (\<lambda>i. 0), b_returned = (\<lambda>i. 0)\<rparr>, []))"

definition uv_barrier_destroy :: "uv_barrier \<Rightarrow> string list" where
  "uv_barrier_destroy b = [''turnstile2'', ''turnstile1'', ''mutex'']"

definition at_pc :: "nat \<Rightarrow> bpc \<Rightarrow> uv_barrier \<Rightarrow> uv_barrier" where
  "at_pc i p b = b\<lparr>b_pc := (b_pc b)(i := p)\<rparr>"

text \<open>One step of the thread \<open>i\<close> in \<open>uv_barrier_wait\<close>; \<open>None\<close>: it waits.\<close>

definition uv_barrier_wait_step :: "uv_barrier \<Rightarrow> nat \<Rightarrow> uv_barrier option" where
  "uv_barrier_wait_step b i =
     (case b_pc b i of
        Outside \<Rightarrow> Some (at_pc i Lock_in b)
      | Lock_in \<Rightarrow>
          if b_mutex b \<noteq> None then None
          else let b = b\<lparr>b_mutex := Some i, b_count := Suc (b_count b), b_arrived := (b_arrived b)(i := Suc (b_arrived b i))\<rparr>
               in Some (at_pc i (if b_count b = b_n b then Wait2_last else Unlock_in) b)
      | Wait2_last \<Rightarrow>
          if turnstile2 b = 0 then None else Some (at_pc i Post1_last (b\<lparr>turnstile2 := turnstile2 b - 1\<rparr>))
      | Post1_last \<Rightarrow> Some (at_pc i Unlock_in (b\<lparr>turnstile1 := turnstile1 b + 1\<rparr>))
      | Unlock_in \<Rightarrow> Some (at_pc i Wait1 (b\<lparr>b_mutex := None\<rparr>))
      | Wait1 \<Rightarrow>
          if turnstile1 b = 0 then None else Some (at_pc i Post1 (b\<lparr>turnstile1 := turnstile1 b - 1\<rparr>))
      | Post1 \<Rightarrow> Some (at_pc i Lock_out (b\<lparr>turnstile1 := turnstile1 b + 1\<rparr>))
      | Lock_out \<Rightarrow>
          if b_mutex b \<noteq> None then None
          else let b = b\<lparr>b_mutex := Some i, b_count := b_count b - 1\<rparr>
               in Some (at_pc i (if b_count b = 0 then Wait1_last else Unlock_out) b)
      | Wait1_last \<Rightarrow>
          if turnstile1 b = 0 then None else Some (at_pc i Post2_last (b\<lparr>turnstile1 := turnstile1 b - 1\<rparr>))
      | Post2_last \<Rightarrow> Some (at_pc i Unlock_out (b\<lparr>turnstile2 := turnstile2 b + 1\<rparr>))
      | Unlock_out \<Rightarrow> Some (at_pc i Wait2 (b\<lparr>b_mutex := None\<rparr>))
      | Wait2 \<Rightarrow>
          if turnstile2 b = 0 then None else Some (at_pc i Post2 (b\<lparr>turnstile2 := turnstile2 b - 1\<rparr>))
      | Post2 \<Rightarrow>
          Some (at_pc i Outside (b\<lparr>turnstile2 := turnstile2 b + 1, b_returned := (b_returned b)(i := Suc (b_returned b i))\<rparr>)))"

primrec barrier_run :: "nat list \<Rightarrow> uv_barrier \<Rightarrow> uv_barrier" where
  "barrier_run [] b = b"
| "barrier_run (i # is) b =
     barrier_run is (case uv_barrier_wait_step b i of None \<Rightarrow> b | Some b' \<Rightarrow> b')"

section \<open>Counting threads\<close>

definition num :: "nat \<Rightarrow> (nat \<Rightarrow> bpc) \<Rightarrow> bpc \<Rightarrow> nat" where
  "num n pc p = (\<Sum>i<n. of_bool (pc i = p))"

lemma num_upd:
  assumes "i < n"
  shows "num n (pc(i := q)) p = (if p = q then Suc (num n pc p - of_bool (pc i = p)) else num n pc p - of_bool (pc i = p))"
    and "of_bool (pc i = p) \<le> num n pc p"
proof -
  have split: "num n f p = of_bool (f i = p) + (\<Sum>j\<in>{..<n} - {i}. of_bool (f j = p))" for f
    unfolding num_def using assms by (intro sum.remove) auto
  have "(\<Sum>j\<in>{..<n} - {i}. of_bool ((pc(i := q)) j = p)) = (\<Sum>j\<in>{..<n} - {i}. of_bool (pc j = p) :: nat)"
    by (intro sum.cong) auto
  with split [of "pc(i := q)"] split [of pc]
  show "num n (pc(i := q)) p = (if p = q then Suc (num n pc p - of_bool (pc i = p)) else num n pc p - of_bool (pc i = p))"
    and "of_bool (pc i = p) \<le> num n pc p" by (auto split: if_splits)
qed

lemma num_zero: "num n pc p = 0 \<Longrightarrow> i < n \<Longrightarrow> pc i \<noteq> p"
  by (auto simp: num_def)

lemma num_pos: "0 < num n pc p \<Longrightarrow> \<exists>i<n. pc i = p"
  by (rule ccontr) (auto simp: num_def card_gt_0_iff)

lemma num_move:
  assumes "i < n"
  shows "pc i \<noteq> q \<Longrightarrow> num n (pc(i := q)) p = (if p = q then Suc (num n pc p) else if p = pc i then num n pc p - 1 else num n pc p)"
    and "1 \<le> num n pc (pc i)"
  using num_upd(1) [OF assms, of pc q p] num_upd(2) [OF assms, of pc "pc i"] by auto

section \<open>The invariant\<close>

text \<open>
  The barrier is gathering threads, or releasing them; \<open>Last1\<close> to \<open>Last4\<close> are the moments when the last
  thread to come, or to go, turns the turnstiles while it holds the mutex.
\<close>

datatype phase = Gather | Last1 | Last2 | Release | Last3 | Last4

fun phase_ok :: "phase \<Rightarrow> uv_barrier \<Rightarrow> bool" where
  "phase_ok ph b =
     (let n = b_n b; c = num n (b_pc b); t1 = turnstile1 b; t2 = turnstile2 b; cnt = b_count b
      in case ph of
           Gather \<Rightarrow> c Wait2_last = 0 \<and> c Post1_last = 0 \<and> c Post1 = 0 \<and> c Lock_out = 0 \<and> c Wait1_last = 0 \<and>
             c Post2_last = 0 \<and> t1 = 0 \<and> t2 + c Post2 = 1 \<and> cnt = c Unlock_in + c Wait1 \<and> cnt < n
         | Last1 \<Rightarrow> c Wait2_last = 1 \<and> cnt = n \<and> c Wait1 + 1 = n \<and> t1 = 0 \<and> t2 = 1
         | Last2 \<Rightarrow> c Post1_last = 1 \<and> cnt = n \<and> c Wait1 + 1 = n \<and> t1 = 0 \<and> t2 = 0
         | Release \<Rightarrow> t2 = 0 \<and> t1 + c Post1 = 1 \<and> cnt = c Unlock_in + c Wait1 + c Post1 + c Lock_out \<and> 0 < cnt \<and>
             cnt + c Unlock_out + c Wait2 = n
         | Last3 \<Rightarrow> c Wait1_last = 1 \<and> cnt = 0 \<and> c Wait2 + 1 = n \<and> t1 = 1 \<and> t2 = 0
         | Last4 \<Rightarrow> c Post2_last = 1 \<and> cnt = 0 \<and> c Wait2 + 1 = n \<and> t1 = 0 \<and> t2 = 0)"

definition holders :: "uv_barrier \<Rightarrow> nat" where
  "holders b = (let c = num (b_n b) (b_pc b)
     in c Wait2_last + c Post1_last + c Unlock_in + c Wait1_last + c Post2_last + c Unlock_out)"

definition next_phase :: "phase \<Rightarrow> uv_barrier \<Rightarrow> bpc \<Rightarrow> phase" where
  "next_phase ph b p =
     (case (ph, p) of
        (Gather, Lock_in) \<Rightarrow> if Suc (b_count b) = b_n b then Last1 else Gather
      | (Last1, Wait2_last) \<Rightarrow> Last2
      | (Last2, Post1_last) \<Rightarrow> Release
      | (Release, Lock_out) \<Rightarrow> if b_count b = 1 then Last3 else Release
      | (Last3, Wait1_last) \<Rightarrow> Last4
      | (Last4, Post2_last) \<Rightarrow> Gather
      | _ \<Rightarrow> ph)"

definition bcounts :: "phase \<Rightarrow> uv_barrier \<Rightarrow> bool" where
  "bcounts ph b \<longleftrightarrow> phase_ok ph b \<and> holders b = (if b_mutex b = None then 0 else 1) \<and>
     (let c = num (b_n b) (b_pc b) in c Outside + c Lock_in + c Wait2_last + c Post1_last + c Unlock_in + c Wait1 + c Post1 +
        c Lock_out + c Wait1_last + c Post2_last + c Unlock_out + c Wait2 + c Post2 = b_n b)"

lemmas bcounts_defs = bcounts_def holders_def uv_barrier_wait_step_def at_pc_def next_phase_def Let_def

text \<open>Where the threads can be in each phase.\<close>

definition pcs_of :: "phase \<Rightarrow> bpc set" where
  "pcs_of ph = (case ph of
       Gather \<Rightarrow> {Outside, Lock_in, Unlock_in, Wait1, Unlock_out, Wait2, Post2}
     | Last1 \<Rightarrow> {Wait2_last, Wait1}
     | Last2 \<Rightarrow> {Post1_last, Wait1}
     | Release \<Rightarrow> {Unlock_in, Wait1, Post1, Lock_out, Unlock_out, Wait2}
     | Last3 \<Rightarrow> {Wait1_last, Wait2}
     | Last4 \<Rightarrow> {Post2_last, Wait2})"

lemma pc_in_phase:
  assumes "bcounts ph b" and "j < b_n b"
  shows "b_pc b j \<in> pcs_of ph"
proof -
  let ?c = "num (b_n b) (b_pc b)"
  have one: "1 \<le> ?c (b_pc b j)" by (rule num_move(2) [OF assms(2)])
  show ?thesis
  proof (cases ph)
    case Gather
    with assms(1) have "?c Wait2_last + ?c Post1_last + ?c Post1 + ?c Lock_out + ?c Wait1_last + ?c Post2_last = 0"
      by (simp add: bcounts_def Let_def)
    with one show ?thesis by (cases "b_pc b j") (simp_all add: pcs_of_def Gather)
  next
    case Last1
    with assms(1) have "?c Outside + ?c Lock_in + ?c Post1_last + ?c Unlock_in + ?c Post1 + ?c Lock_out + ?c Wait1_last + ?c Post2_last + ?c Unlock_out + ?c Wait2 + ?c Post2 = 0"
      by (simp add: bcounts_def Let_def)
    with one show ?thesis by (cases "b_pc b j") (simp_all add: pcs_of_def Last1)
  next
    case Last2
    with assms(1) have "?c Outside + ?c Lock_in + ?c Wait2_last + ?c Unlock_in + ?c Post1 + ?c Lock_out + ?c Wait1_last + ?c Post2_last + ?c Unlock_out + ?c Wait2 + ?c Post2 = 0"
      by (simp add: bcounts_def Let_def)
    with one show ?thesis by (cases "b_pc b j") (simp_all add: pcs_of_def Last2)
  next
    case Release
    with assms(1) have "?c Outside + ?c Lock_in + ?c Wait2_last + ?c Post1_last + ?c Wait1_last + ?c Post2_last + ?c Post2 = 0"
      by (simp add: bcounts_def Let_def)
    with one show ?thesis by (cases "b_pc b j") (simp_all add: pcs_of_def Release)
  next
    case Last3
    with assms(1) have "?c Outside + ?c Lock_in + ?c Wait2_last + ?c Post1_last + ?c Unlock_in + ?c Wait1 + ?c Post1 + ?c Lock_out + ?c Post2_last + ?c Unlock_out + ?c Post2 = 0"
      by (simp add: bcounts_def Let_def)
    with one show ?thesis by (cases "b_pc b j") (simp_all add: pcs_of_def Last3)
  next
    case Last4
    with assms(1) have "?c Outside + ?c Lock_in + ?c Wait2_last + ?c Post1_last + ?c Unlock_in + ?c Wait1 + ?c Post1 + ?c Lock_out + ?c Wait1_last + ?c Unlock_out + ?c Post2 = 0"
      by (simp add: bcounts_def Let_def)
    with one show ?thesis by (cases "b_pc b j") (simp_all add: pcs_of_def Last4)
  qed
qed

lemma bcounts_step:
  assumes "bcounts ph b" and "i < b_n b" and "uv_barrier_wait_step b i = Some b'"
  shows "bcounts (next_phase ph b (b_pc b i)) b'"
proof -
  note mv = num_move(1) [OF assms(2)]
  have one: "1 \<le> num (b_n b) (b_pc b) (b_pc b i)" by (rule num_move(2) [OF assms(2)])
  have pc: "b_pc b i \<in> pcs_of ph" by (rule pc_in_phase [OF assms(1,2)])
  have z: "b_mutex b = None \<Longrightarrow> num (b_n b) (b_pc b) Unlock_in = 0 \<and> num (b_n b) (b_pc b) Unlock_out = 0"
    using assms(1) by (simp add: bcounts_def holders_def Let_def)
  show ?thesis
  proof (cases ph)
    case Gather
    with pc have "b_pc b i \<in> {Outside, Lock_in, Unlock_in, Wait1, Unlock_out, Wait2, Post2}" by (simp add: pcs_of_def)
    then show ?thesis using assms(1,3) one unfolding Gather
      by (elim insertE emptyE; clarsimp simp: bcounts_defs mv z split: if_splits)
  next
    case Last1
    with pc have "b_pc b i \<in> {Wait2_last, Wait1}" by (simp add: pcs_of_def)
    then show ?thesis using assms(1,3) one unfolding Last1
      by (elim insertE emptyE; clarsimp simp: bcounts_defs mv z split: if_splits)
  next
    case Last2
    with pc have "b_pc b i \<in> {Post1_last, Wait1}" by (simp add: pcs_of_def)
    then show ?thesis using assms(1,3) one unfolding Last2
      by (elim insertE emptyE; clarsimp simp: bcounts_defs mv z split: if_splits)
  next
    case Release
    with pc have "b_pc b i \<in> {Unlock_in, Wait1, Post1, Lock_out, Unlock_out, Wait2}" by (simp add: pcs_of_def)
    then show ?thesis using assms(1,3) one unfolding Release
      by (elim insertE emptyE; clarsimp simp: bcounts_defs mv z split: if_splits)
  next
    case Last3
    with pc have "b_pc b i \<in> {Wait1_last, Wait2}" by (simp add: pcs_of_def)
    then show ?thesis using assms(1,3) one unfolding Last3
      by (elim insertE emptyE; clarsimp simp: bcounts_defs mv z split: if_splits)
  next
    case Last4
    with pc have "b_pc b i \<in> {Post2_last, Wait2}" by (simp add: pcs_of_def)
    then show ?thesis using assms(1,3) one unfolding Last4
      by (elim insertE emptyE; clarsimp simp: bcounts_defs mv z split: if_splits)
  qed
qed

text \<open>
  \<open>r\<close> is the number of rounds that are over: a thread has come \<open>r\<close> times, or once more in the present
  round, and has returned \<open>r\<close> times, or not yet from the last round.
\<close>

definition came :: "phase \<Rightarrow> bpc \<Rightarrow> nat" where
  "came ph p = (if ph = Gather \<and> p \<in> {Outside, Lock_in, Unlock_out, Wait2, Post2} then 0 else 1)"

definition behind :: "phase \<Rightarrow> bpc \<Rightarrow> nat" where
  "behind ph p = (if ph = Gather \<and> p \<in> {Unlock_out, Wait2, Post2} then 1 else 0)"

definition barrier_inv :: "nat \<Rightarrow> phase \<Rightarrow> uv_barrier \<Rightarrow> bool" where
  "barrier_inv r ph b \<longleftrightarrow> bcounts ph b \<and>
     (\<forall>j < b_n b. b_arrived b j = r + came ph (b_pc b j) \<and> b_returned b j + behind ph (b_pc b j) = r)"

lemma step_frame:
  assumes "uv_barrier_wait_step b i = Some b'"
  shows "b_n b' = b_n b" and "j \<noteq> i \<Longrightarrow> b_pc b' j = b_pc b j"
    and "b_arrived b' j = b_arrived b j + of_bool (j = i \<and> b_pc b i = Lock_in)"
    and "b_returned b' j = b_returned b j + of_bool (j = i \<and> b_pc b i = Post2)"
  using assms by (auto simp: uv_barrier_wait_step_def at_pc_def Let_def split: bpc.splits if_splits)

lemma next_phase_cases:
  "(ph = Gather \<longleftrightarrow> next_phase ph b p = Gather) \<or> (ph = Gather \<and> next_phase ph b p = Last1) \<or>
   (ph = Last4 \<and> next_phase ph b p = Gather)"
  by (cases ph; cases p) (simp_all add: next_phase_def)

lemma barrier_inv_step:
  assumes inv: "barrier_inv r ph b" and i: "i < b_n b" and step: "uv_barrier_wait_step b i = Some b'"
  shows "\<exists>r' ph'. barrier_inv r' ph' b'"
proof -
  let ?ph = "next_phase ph b (b_pc b i)"
  let ?r = "if ph = Last4 \<and> ?ph = Gather then Suc r else r"
  have c: "bcounts ph b" using inv by (simp add: barrier_inv_def)
  have c': "bcounts ?ph b'" by (rule bcounts_step [OF c i step])
  have one: "1 \<le> num (b_n b) (b_pc b) (b_pc b i)" by (rule num_move(2) [OF i])
  note fr = step_frame [OF step]
  have "b_arrived b' j = ?r + came ?ph (b_pc b' j) \<and> b_returned b' j + behind ?ph (b_pc b' j) = ?r" if j: "j < b_n b'" for j
  proof -
    have g: "b_arrived b j = r + came ph (b_pc b j)" "b_returned b j + behind ph (b_pc b j) = r"
      using inv j fr(1) by (simp_all add: barrier_inv_def)
    show ?thesis
    proof (cases "j = i")
      case False
      have "b_pc b j \<in> {Wait2_last, Wait1}" if "?ph = Last1" using pc_in_phase [OF c' j] fr(2) [OF False] that by (simp add: pcs_of_def)
      moreover have "b_pc b j \<in> {Post2_last, Wait2}" if "ph = Last4" using pc_in_phase [OF c, of j] j fr(1) that by (simp add: pcs_of_def)
      moreover have "b_pc b j \<noteq> Post2_last" if "?ph = Gather"
        using c' that num_zero [of "b_n b'" "b_pc b'" Post2_last j] j fr(2) [OF False] by (simp add: bcounts_def Let_def)
      moreover have "b_arrived b' j = b_arrived b j" "b_returned b' j = b_returned b j" "b_pc b' j = b_pc b j"
        using fr False by simp_all
      ultimately show ?thesis using g next_phase_cases [of ph b "b_pc b i"] unfolding came_def behind_def by auto
    next
      case True
      show ?thesis
        using g c one step unfolding True came_def behind_def
        by (cases "b_pc b i"; cases ph;
          clarsimp simp: bcounts_def next_phase_def uv_barrier_wait_step_def at_pc_def Let_def split: if_splits)
    qed
  qed
  with c' show ?thesis unfolding barrier_inv_def by blast
qed

lemma barrier_progress:
  assumes c: "bcounts ph b" and stuck: "\<And>i. i < b_n b \<Longrightarrow> b_pc b i \<noteq> Outside \<Longrightarrow> uv_barrier_wait_step b i = None"
  shows "(\<forall>i < b_n b. b_pc b i \<in> {Outside, Wait1}) \<and> (\<exists>i < b_n b. b_pc b i = Outside)"
proof -
  let ?c = "num (b_n b) (b_pc b)"
  have none: "?c p = 0" if "p \<noteq> Outside" and "\<And>i. b_pc b i = p \<Longrightarrow> uv_barrier_wait_step b i \<noteq> None" for p
    using num_pos [of "b_n b" "b_pc b" p] stuck that by (metis gr0I)
  have go: "?c Post1_last = 0" "?c Unlock_in = 0" "?c Post1 = 0" "?c Post2_last = 0" "?c Unlock_out = 0" "?c Post2 = 0"
    by (rule none; simp add: uv_barrier_wait_step_def)+
  have w2: "?c Wait2_last = 0" "?c Wait2 = 0" if "0 < turnstile2 b"
    by (rule none; use that in \<open>simp add: uv_barrier_wait_step_def\<close>)+
  have w1: "?c Wait1_last = 0" "?c Wait1 = 0" if "0 < turnstile1 b"
    by (rule none; use that in \<open>simp add: uv_barrier_wait_step_def\<close>)+
  have lk: "?c Lock_in = 0" "?c Lock_out = 0" if "b_mutex b = None"
    by (rule none; use that in \<open>simp add: uv_barrier_wait_step_def Let_def\<close>)+
  have free: "b_mutex b = None" if "?c Wait2_last = 0" "?c Wait1_last = 0"
    using c go that by (auto simp: bcounts_def holders_def Let_def split: if_splits)
  have ph: "ph = Gather"
  proof (cases ph)
    case Release
    have "0 < turnstile1 b" using c go Release by (simp add: bcounts_def Let_def)
    moreover have "?c Wait2_last = 0" using c Release by (simp add: bcounts_def Let_def)
    ultimately show ?thesis using c Release go w1 lk free by (auto simp: bcounts_def Let_def)
  qed (use c go w1 w2 in \<open>auto simp: bcounts_def Let_def\<close>)
  have t2: "0 < turnstile2 b" using c go ph by (simp add: bcounts_def Let_def)
  moreover have w: "?c Wait1_last = 0" using c ph by (simp add: bcounts_def Let_def)
  ultimately have l: "?c Lock_in = 0" "?c Lock_out = 0" using lk free w2 by simp_all
  have "b_pc b i \<in> {Outside, Wait1}" if "i < b_n b" for i
    using num_move(2) [OF that, of "b_pc b"] go w2 [OF t2] w l by (cases "b_pc b i") simp_all
  moreover have "0 < ?c Outside" using c ph go w2 [OF t2] w l by (simp add: bcounts_def Let_def)
  ultimately show ?thesis using num_pos by blast
qed

lemma barrier_run_inv:
  assumes "barrier_inv r ph b" and "set is \<subseteq> {..< b_n b}"
  shows "b_n (barrier_run is b) = b_n b \<and> (\<exists>r ph. barrier_inv r ph (barrier_run is b))"
  using assms
proof (induction "is" arbitrary: b r ph)
  case (Cons i "is")
  show ?case
  proof (cases "uv_barrier_wait_step b i")
    case None
    with Cons.IH [OF Cons.prems(1)] Cons.prems(2) show ?thesis by simp
  next
    case (Some b')
    obtain r' ph' where "barrier_inv r' ph' b'" using barrier_inv_step [OF Cons.prems(1) _ Some] Cons.prems(2) by auto
    from Cons.IH [OF this] Cons.prems(2) step_frame(1) [OF Some] show ?thesis by (simp add: Some)
  qed
qed auto

text \<open>
  C39. A barrier for \<open>n\<close> threads holds in every interleaving of their calls of \<open>uv_barrier_wait\<close>, however often
  they call it: no thread returns from its \<open>k\<close>-th call before every thread has come to its
  \<open>k\<close>-th call; and the threads never block each other: when no thread inside can go on, all
  of them wait for a thread that has not come yet.
\<close>

theorem uv_barrier_holds:
  assumes "0 < n" and "set is \<subseteq> {..<n}" and "uv_barrier_init n True True True = (0, Some b0, freed)"
    and "b = barrier_run is b0"
  shows "(\<forall>i<n. \<forall>j<n. b_returned b i \<le> b_arrived b j) \<and>
    ((\<exists>i<n. b_pc b i \<noteq> Outside \<and> uv_barrier_wait_step b i \<noteq> None) \<or>
     (\<forall>i<n. b_pc b i \<in> {Outside, Wait1}) \<and> (\<exists>i<n. b_pc b i = Outside))"
proof -
  have b0: "b_n b0 = n" "barrier_inv 0 Gather b0"
    using assms(1,3) by (auto simp: uv_barrier_init_def barrier_inv_def bcounts_def holders_def Let_def num_def came_def behind_def)
  with assms(2,4) barrier_run_inv [of 0 Gather b0 "is"] obtain r ph where b: "b_n b = n" "barrier_inv r ph b" by auto
  have "b_returned b i \<le> b_arrived b j" if "i < n" "j < n" for i j
  proof -
    have "b_returned b i + behind ph (b_pc b i) = r" "b_arrived b j = r + came ph (b_pc b j)"
      using b that by (simp_all add: barrier_inv_def)
    then show ?thesis by simp
  qed
  moreover have "bcounts ph b" using b(2) by (simp add: barrier_inv_def)
  ultimately show ?thesis using barrier_progress [of ph b] unfolding b(1) by blast
qed

lemma uv_barrier_holds_witness:
  "\<exists>b0. uv_barrier_init 2 True True True = (0, Some b0, []) \<and>
     (let b = barrier_run [0, 0, 0, 0, 1, 1, 1, 1, 1, 0, 0, 1] b0
      in (\<forall>i<2. \<forall>j<2. b_returned b i \<le> b_arrived b j) \<and> b_arrived b 0 = 1 \<and> b_arrived b 1 = 1)"
proof -
  let ?b0 = "the (fst (snd (uv_barrier_init 2 True True True)))" and ?is = "[0, 0, 0, 0, 1, 1, 1, 1, 1, 0, 0, 1]"
  have b0: "uv_barrier_init 2 True True True = (0, Some ?b0, [])" by (simp add: uv_barrier_init_def)
  have "b_arrived (barrier_run ?is ?b0) 0 = 1 \<and> b_arrived (barrier_run ?is ?b0) 1 = 1" by code_simp
  moreover have "\<forall>i<2. \<forall>j<2. b_returned (barrier_run ?is ?b0) i \<le> b_arrived (barrier_run ?is ?b0) j"
    using uv_barrier_holds [OF _ _ b0 refl, of ?is] by simp
  ultimately show ?thesis using b0 by (intro exI [of _ ?b0]) (simp only: Let_def simp_thms)
qed

end
