(* ===== verification/Threads.thy ===== *)
theory Threads
  imports Barrier
begin

text \<open>
  \<open>unix/thread.c\<close> as it is built outside Apple systems, over the answers of the pthread functions, and
  the read-write lock, the condition variable and the once guard that \<open>win/thread.c\<close> makes when the
  system has none.
\<close>

section \<open>Calls of the pthread library\<close>

text \<open>
  The answers are a script, one for each call; an answer is the value returned, and for \<open>sem_wait\<close> and
  \<open>sem_trywait\<close> the error number or 0.
\<close>

datatype pobject = O_mutexattr | O_mutex | O_rwlock | O_condattr | O_cond | O_barrier | O_sem

datatype (plugins only: code) pcall = P_join | P_init pobject | P_destroy pobject | P_errorcheck | P_monotonic | P_lock | P_trylock | P_unlock |
  P_rdlock | P_tryrdlock | P_wrlock | P_trywrlock | P_rwunlock | P_once | P_post | P_wait | P_trywait |
  P_signal | P_broadcast | P_cond_wait | P_cond_timedwait int int | P_barrier_wait

record pthreads =
  pt_answers :: "int list"
  pt_calls :: "(pcall \<times> int) list"

definition pt_call :: "pcall \<Rightarrow> pthreads \<Rightarrow> (int \<times> pthreads) outcome" where
  "pt_call c s =
     (case pt_answers s of
        [] \<Rightarrow> Starve
      | r # rs \<Rightarrow> Ret (r, \<lparr>pt_answers = rs, pt_calls = pt_calls s @ [(c, r)]\<rparr>))"

definition pt_or_abort :: "pcall \<Rightarrow> pthreads \<Rightarrow> pthreads outcome" where
  "pt_or_abort c s = obind (pt_call c s) (\<lambda>(r, s). if r \<noteq> 0 then Abort else Ret s)"

definition pt_or_minus :: "pcall \<Rightarrow> pthreads \<Rightarrow> (int \<times> pthreads) outcome" where
  "pt_or_minus c s = obind (pt_call c s) (\<lambda>(r, s). Ret (if r \<noteq> 0 then - 1 else 0, s))"

text \<open>A lock that may be busy.\<close>

definition pt_try :: "pcall \<Rightarrow> pthreads \<Rightarrow> (int \<times> pthreads) outcome" where
  "pt_try c s = obind (pt_call c s) (\<lambda>(r, s).
     if r \<noteq> 0 \<and> r \<noteq> EBUSY \<and> r \<noteq> EAGAIN then Abort else Ret (if r \<noteq> 0 then - 1 else 0, s))"

section \<open>Threads, mutexes, read-write locks\<close>

definition uv_thread_join :: "pthreads \<Rightarrow> (int \<times> pthreads) outcome" where
  "uv_thread_join s = pt_or_minus P_join s"

definition uv_mutex_init :: "bool \<Rightarrow> pthreads \<Rightarrow> (int \<times> pthreads) outcome" where
  "uv_mutex_init ndebug s =
     (if ndebug then pt_or_minus (P_init O_mutex) s
      else obind (pt_or_abort (P_init O_mutexattr) s) (\<lambda>s.
           obind (pt_or_abort P_errorcheck s) (\<lambda>s.
           obind (pt_call (P_init O_mutex) s) (\<lambda>(r, s).
           obind (pt_or_abort (P_destroy O_mutexattr) s) (\<lambda>s.
             Ret (if r \<noteq> 0 then - 1 else 0, s))))))"

definition uv_mutex_destroy :: "pthreads \<Rightarrow> pthreads outcome" where
  "uv_mutex_destroy s = pt_or_abort (P_destroy O_mutex) s"

definition uv_mutex_lock :: "pthreads \<Rightarrow> pthreads outcome" where
  "uv_mutex_lock s = pt_or_abort P_lock s"

definition uv_mutex_trylock :: "pthreads \<Rightarrow> (int \<times> pthreads) outcome" where
  "uv_mutex_trylock s = pt_try P_trylock s"

definition uv_mutex_unlock :: "pthreads \<Rightarrow> pthreads outcome" where
  "uv_mutex_unlock s = pt_or_abort P_unlock s"

definition uv_rwlock_init :: "pthreads \<Rightarrow> (int \<times> pthreads) outcome" where
  "uv_rwlock_init s = pt_or_minus (P_init O_rwlock) s"

definition uv_rwlock_destroy :: "pthreads \<Rightarrow> pthreads outcome" where
  "uv_rwlock_destroy s = pt_or_abort (P_destroy O_rwlock) s"

definition uv_rwlock_rdlock :: "pthreads \<Rightarrow> pthreads outcome" where
  "uv_rwlock_rdlock s = pt_or_abort P_rdlock s"

definition uv_rwlock_tryrdlock :: "pthreads \<Rightarrow> (int \<times> pthreads) outcome" where
  "uv_rwlock_tryrdlock s = pt_try P_tryrdlock s"

definition uv_rwlock_rdunlock :: "pthreads \<Rightarrow> pthreads outcome" where
  "uv_rwlock_rdunlock s = pt_or_abort P_rwunlock s"

definition uv_rwlock_wrlock :: "pthreads \<Rightarrow> pthreads outcome" where
  "uv_rwlock_wrlock s = pt_or_abort P_wrlock s"

definition uv_rwlock_trywrlock :: "pthreads \<Rightarrow> (int \<times> pthreads) outcome" where
  "uv_rwlock_trywrlock s = pt_try P_trywrlock s"

definition uv_rwlock_wrunlock :: "pthreads \<Rightarrow> pthreads outcome" where
  "uv_rwlock_wrunlock s = pt_or_abort P_rwunlock s"

definition uv_once :: "pthreads \<Rightarrow> pthreads outcome" where
  "uv_once s = pt_or_abort P_once s"

section \<open>Semaphores\<close>

definition uv_sem_init :: "pthreads \<Rightarrow> (int \<times> pthreads) outcome" where
  "uv_sem_init s = pt_call (P_init O_sem) s"

definition uv_sem_destroy :: "pthreads \<Rightarrow> pthreads outcome" where
  "uv_sem_destroy s = pt_or_abort (P_destroy O_sem) s"

definition uv_sem_post :: "pthreads \<Rightarrow> pthreads outcome" where
  "uv_sem_post s = pt_or_abort P_post s"

text \<open>The loops that call again after \<open>EINTR\<close>, on the answers to come.\<close>

primrec pt_retry_on :: "pcall \<Rightarrow> int list \<Rightarrow> (pcall \<times> int) list \<Rightarrow> (int \<times> pthreads) outcome" where
  "pt_retry_on c [] cs = Starve"
| "pt_retry_on c (e # es) cs =
     (if e = EINTR then pt_retry_on c es (cs @ [(c, e)])
      else Ret (e, \<lparr>pt_answers = es, pt_calls = cs @ [(c, e)]\<rparr>))"

definition uv_sem_wait :: "pthreads \<Rightarrow> pthreads outcome" where
  "uv_sem_wait s = obind (pt_retry_on P_wait (pt_answers s) (pt_calls s)) (\<lambda>(e, s). if e \<noteq> 0 then Abort else Ret s)"

definition uv_sem_trywait :: "pthreads \<Rightarrow> (int \<times> pthreads) outcome" where
  "uv_sem_trywait s = obind (pt_retry_on P_trywait (pt_answers s) (pt_calls s)) (\<lambda>(e, s).
     if e \<noteq> 0 \<and> e \<noteq> EAGAIN then Abort else Ret (if e \<noteq> 0 then - 1 else 0, s))"

section \<open>Condition variables\<close>

text \<open>The two error exits share the second half.\<close>

definition cond_error2 :: "pthreads \<Rightarrow> (int \<times> pthreads) outcome" where
  "cond_error2 s = obind (pt_call (P_destroy O_condattr) s) (\<lambda>(r, s). Ret (- 1, s))"

definition uv_cond_init :: "pthreads \<Rightarrow> (int \<times> pthreads) outcome" where
  "uv_cond_init s =
     obind (pt_call (P_init O_condattr) s) (\<lambda>(r, s).
       if r \<noteq> 0 then Ret (- 1, s)
       else obind (pt_call P_monotonic s) (\<lambda>(r, s).
         if r \<noteq> 0 then cond_error2 s
         else obind (pt_call (P_init O_cond) s) (\<lambda>(r, s).
           if r \<noteq> 0 then cond_error2 s
           else obind (pt_call (P_destroy O_condattr) s) (\<lambda>(r, s).
             if r \<noteq> 0 then obind (pt_call (P_destroy O_cond) s) (\<lambda>(r, s). cond_error2 s)
             else Ret (0, s)))))"

definition uv_cond_destroy :: "pthreads \<Rightarrow> pthreads outcome" where
  "uv_cond_destroy s = pt_or_abort (P_destroy O_cond) s"

definition uv_cond_signal :: "pthreads \<Rightarrow> pthreads outcome" where
  "uv_cond_signal s = pt_or_abort P_signal s"

definition uv_cond_broadcast :: "pthreads \<Rightarrow> pthreads outcome" where
  "uv_cond_broadcast s = pt_or_abort P_broadcast s"

definition uv_cond_wait :: "pthreads \<Rightarrow> pthreads outcome" where
  "uv_cond_wait s = pt_or_abort P_cond_wait s"

text \<open>\<open>hrtime\<close> is the clock; the deadline is computed with 64 bits.\<close>

abbreviation (input) NANOSEC :: uint64 where "NANOSEC \<equiv> 1000000000"

definition cond_deadline :: "uint64 \<Rightarrow> uint64 \<Rightarrow> int \<times> int" where
  "cond_deadline hrtime timeout = (let abstime = hrtime + timeout in (sint (abstime div NANOSEC), sint (abstime mod NANOSEC)))"

definition uv_cond_timedwait :: "uint64 \<Rightarrow> uint64 \<Rightarrow> pthreads \<Rightarrow> (int \<times> pthreads) outcome" where
  "uv_cond_timedwait hrtime timeout s =
     (let (sec, nsec) = cond_deadline hrtime timeout
      in obind (pt_call (P_cond_timedwait sec nsec) s) (\<lambda>(r, s).
           if r = 0 then Ret (0, s) else if r = ETIMEDOUT then Ret (- 1, s) else Abort))"

section \<open>Barriers of the pthread library\<close>

definition pt_barrier_init :: "pthreads \<Rightarrow> (int \<times> pthreads) outcome" where
  "pt_barrier_init s = pt_or_minus (P_init O_barrier) s"

definition pt_barrier_destroy :: "pthreads \<Rightarrow> pthreads outcome" where
  "pt_barrier_destroy s = pt_or_abort (P_destroy O_barrier) s"

definition pt_barrier_wait :: "pthreads \<Rightarrow> pthreads outcome" where
  "pt_barrier_wait s = obind (pt_call P_barrier_wait s) (\<lambda>(r, s). if r \<noteq> 0 \<and> r \<noteq> - 1 then Abort else Ret s)"

section \<open>What is initialised afterwards\<close>

text \<open>The objects that are initialised and not destroyed, after a trace of calls.\<close>

fun live_after :: "(pcall \<times> int) list \<Rightarrow> pobject list \<Rightarrow> pobject list" where
  "live_after [] os = os"
| "live_after ((P_init ob, r) # tr) os = live_after tr (if r = 0 then ob # os else os)"
| "live_after ((P_destroy ob, r) # tr) os = live_after tr (if r = 0 then remove1 ob os else os)"
| "live_after (x # tr) os = live_after tr os"

lemma pt_call_Ret:
  "pt_call c s = Ret (r, s') \<longleftrightarrow> (\<exists>rs. pt_answers s = r # rs \<and> s' = \<lparr>pt_answers = rs, pt_calls = pt_calls s @ [(c, r)]\<rparr>)"
  by (auto simp: pt_call_def split: list.split)

lemmas pt_defs = pt_call_Ret pt_or_abort_def pt_or_minus_def obind_eq_Ret

lemma uv_mutex_init_does_not_leak:
  assumes "uv_mutex_init ndebug s = Ret (r, s')"
  shows "\<exists>tr. pt_calls s' = pt_calls s @ tr \<and> live_after tr [] = (if r = 0 then [O_mutex] else []) \<and> r \<in> {0, - 1}"
  using assms by (auto simp: uv_mutex_init_def pt_defs split: if_splits)

text \<open>
  \<open>uv_cond_init\<close> leaves the condition variable and nothing else, or nothing; when the destruction of the
  attributes fails once, they are destroyed a second time.
\<close>

lemma uv_cond_init_does_not_leak:
  assumes "uv_cond_init s = Ret (r, s')"
  shows "\<exists>tr. pt_calls s' = pt_calls s @ tr \<and> r \<in> {0, - 1} \<and> (r = 0 \<longrightarrow> live_after tr [] = [O_cond]) \<and>
    (r = - 1 \<longrightarrow> ((\<forall>ob. (P_destroy ob, 0) \<in> set tr \<or> (\<forall>e. (P_destroy ob, e) \<notin> set tr)) \<longrightarrow> live_after tr [] = []))"
  using assms
  by (auto simp: uv_cond_init_def cond_error2_def pt_defs split: if_splits) blast+

lemma cond_deadline_exact:
  assumes "uint hrtime + uint timeout < 2 ^ 63"
  shows "fst (cond_deadline hrtime timeout) * 1000000000 + snd (cond_deadline hrtime timeout) = uint hrtime + uint timeout \<and>
    0 \<le> snd (cond_deadline hrtime timeout) \<and> snd (cond_deadline hrtime timeout) < 1000000000"
proof -
  have sum: "uint (hrtime + timeout) = uint hrtime + uint timeout"
    using assms by (simp add: uint_word_ariths(1) mod_pos_pos_trivial)
  let ?t = "uint hrtime + uint timeout"
  have d: "uint ((hrtime + timeout) div NANOSEC) = ?t div 1000000000" "uint ((hrtime + timeout) mod NANOSEC) = ?t mod 1000000000"
    by (simp_all add: uint_div_distrib uint_mod_distrib sum)
  have "?t div 1000000000 \<le> ?t" using zdiv_mono2 [of ?t 1 1000000000] by simp
  then have "?t div 1000000000 < 2 ^ 63" using assms by linarith
  moreover have "0 \<le> ?t mod 1000000000" "?t mod 1000000000 < 1000000000" by simp_all
  moreover from this have "?t mod 1000000000 < 2 ^ 63" by simp
  moreover have "0 \<le> ?t" by simp
  ultimately show ?thesis using d
    by (simp add: cond_deadline_def Let_def sint_small)
qed

section \<open>The read-write lock of Windows without \<open>SRWLOCK\<close>\<close>

text \<open>
  A critical section belongs to the thread that entered it, which may enter it again; another thread
  waits (\<open>None\<close>). Leaving one that belongs to another thread is an error that the system does
  not report: \<open>Abort\<close> here.
\<close>

record critsec =
  cs_owner :: "nat option"
  cs_depth :: nat

definition cs_free :: critsec where
  "cs_free = \<lparr>cs_owner = None, cs_depth = 0\<rparr>"

definition EnterCriticalSection :: "nat \<Rightarrow> critsec \<Rightarrow> critsec option" where
  "EnterCriticalSection t c =
     (if cs_owner c = None \<or> cs_owner c = Some t then Some \<lparr>cs_owner = Some t, cs_depth = Suc (cs_depth c)\<rparr> else None)"

definition LeaveCriticalSection :: "nat \<Rightarrow> critsec \<Rightarrow> critsec outcome" where
  "LeaveCriticalSection t c =
     (if cs_owner c \<noteq> Some t then Abort
      else Ret (if cs_depth c = 1 then cs_free else c\<lparr>cs_depth := cs_depth c - 1\<rparr>))"

record rwlock_fallback =
  read_mutex :: critsec
  write_mutex :: critsec
  num_readers :: nat

definition uv__rwlock_fallback_init :: "int \<times> rwlock_fallback" where
  "uv__rwlock_fallback_init = (0, \<lparr>read_mutex = cs_free, write_mutex = cs_free, num_readers = 0\<rparr>)"

text \<open>
  The calls of a thread \<open>t\<close>: \<open>None\<close> while it has to wait for \<open>read_mutex_\<close>. Inside it may have to wait for
  \<open>write_mutex_\<close>; then it keeps \<open>read_mutex_\<close>, and the rest of the call is \<open>rdlock_rest\<close>.
\<close>

definition rdlock_rest :: "nat \<Rightarrow> rwlock_fallback \<Rightarrow> rwlock_fallback outcome option" where
  "rdlock_rest t l =
     (case (if num_readers l = 1 then EnterCriticalSection t (write_mutex l) else Some (write_mutex l)) of
        None \<Rightarrow> None
      | Some w \<Rightarrow> Some (obind (LeaveCriticalSection t (read_mutex l)) (\<lambda>r. Ret (l\<lparr>write_mutex := w, read_mutex := r\<rparr>))))"

definition rdlock_enter :: "nat \<Rightarrow> rwlock_fallback \<Rightarrow> rwlock_fallback option" where
  "rdlock_enter t l =
     (case EnterCriticalSection t (read_mutex l) of
        None \<Rightarrow> None
      | Some r \<Rightarrow> Some (l\<lparr>read_mutex := r, num_readers := Suc (num_readers l)\<rparr>))"

definition uv__rwlock_fallback_rdlock :: "nat \<Rightarrow> rwlock_fallback \<Rightarrow> rwlock_fallback outcome option" where
  "uv__rwlock_fallback_rdlock t l = Option.bind (rdlock_enter t l) (rdlock_rest t)"

definition uv__rwlock_fallback_tryrdlock :: "nat \<Rightarrow> rwlock_fallback \<Rightarrow> (int \<times> rwlock_fallback) outcome" where
  "uv__rwlock_fallback_tryrdlock t l =
     (case EnterCriticalSection t (read_mutex l) of
        None \<Rightarrow> Ret (- 1, l)
      | Some r \<Rightarrow>
          let l = l\<lparr>read_mutex := r\<rparr>;
              (ret, l) = (if num_readers l = 0
                          then (case EnterCriticalSection t (write_mutex l) of
                                  None \<Rightarrow> (- 1, l)
                                | Some w \<Rightarrow> (0, l\<lparr>write_mutex := w\<rparr>))
                          else (0, l));
              l = (if ret = 0 then l\<lparr>num_readers := Suc (num_readers l)\<rparr> else l)
          in obind (LeaveCriticalSection t (read_mutex l)) (\<lambda>r. Ret (ret, l\<lparr>read_mutex := r\<rparr>)))"

definition uv__rwlock_fallback_rdunlock :: "nat \<Rightarrow> rwlock_fallback \<Rightarrow> rwlock_fallback outcome option" where
  "uv__rwlock_fallback_rdunlock t l =
     map_option (\<lambda>r. let l = l\<lparr>read_mutex := r, num_readers := num_readers l - 1\<rparr>
       in obind (if num_readers l = 0 then LeaveCriticalSection t (write_mutex l) else Ret (write_mutex l)) (\<lambda>w.
          obind (LeaveCriticalSection t (read_mutex l)) (\<lambda>r. Ret (l\<lparr>write_mutex := w, read_mutex := r\<rparr>))))
     (EnterCriticalSection t (read_mutex l))"

definition uv__rwlock_fallback_wrlock :: "nat \<Rightarrow> rwlock_fallback \<Rightarrow> rwlock_fallback option" where
  "uv__rwlock_fallback_wrlock t l = map_option (\<lambda>w. l\<lparr>write_mutex := w\<rparr>) (EnterCriticalSection t (write_mutex l))"

definition uv__rwlock_fallback_trywrlock :: "nat \<Rightarrow> rwlock_fallback \<Rightarrow> int \<times> rwlock_fallback" where
  "uv__rwlock_fallback_trywrlock t l =
     (case uv__rwlock_fallback_wrlock t l of None \<Rightarrow> (- 1, l) | Some l \<Rightarrow> (0, l))"

definition uv__rwlock_fallback_wrunlock :: "nat \<Rightarrow> rwlock_fallback \<Rightarrow> rwlock_fallback outcome" where
  "uv__rwlock_fallback_wrunlock t l = obind (LeaveCriticalSection t (write_mutex l)) (\<lambda>w. Ret (l\<lparr>write_mutex := w\<rparr>))"

text \<open>
  While the first reader is inside, no other thread gets the lock for writing; but the reader that leaves
  last must be the one that came first: another one leaves a critical section that is not its own.
\<close>

definition read_locked :: "nat \<Rightarrow> nat \<Rightarrow> rwlock_fallback \<Rightarrow> bool" where
  "read_locked t n l \<longleftrightarrow> read_mutex l = cs_free \<and> write_mutex l = \<lparr>cs_owner = Some t, cs_depth = 1\<rparr> \<and> num_readers l = n"

lemma cs_free_simps [simp]: "cs_owner cs_free = None" "cs_depth cs_free = 0"
  by (simp_all add: cs_free_def)

lemma rdlock_first:
  assumes "read_mutex l = cs_free" and "write_mutex l = cs_free" and "num_readers l = 0"
  shows "\<exists>l'. uv__rwlock_fallback_rdlock t l = Some (Ret l') \<and> read_locked t 1 l'"
  using assms
  by (simp add: uv__rwlock_fallback_rdlock_def rdlock_enter_def rdlock_rest_def EnterCriticalSection_def
    LeaveCriticalSection_def read_locked_def)

lemma rdlock_more:
  assumes "read_locked t n l" and "0 < n"
  shows "\<exists>l'. uv__rwlock_fallback_rdlock u l = Some (Ret l') \<and> read_locked t (Suc n) l'"
  using assms
  by (auto simp: uv__rwlock_fallback_rdlock_def rdlock_enter_def rdlock_rest_def EnterCriticalSection_def
    LeaveCriticalSection_def read_locked_def)

lemma rdunlock_more:
  assumes "read_locked t (Suc n) l" and "0 < n"
  shows "\<exists>l'. uv__rwlock_fallback_rdunlock u l = Some (Ret l') \<and> read_locked t n l'"
  using assms
  by (auto simp: uv__rwlock_fallback_rdunlock_def EnterCriticalSection_def LeaveCriticalSection_def read_locked_def Let_def)

lemma rdunlock_last:
  assumes "read_locked t 1 l"
  shows "u = t \<Longrightarrow> \<exists>l'. uv__rwlock_fallback_rdunlock u l = Some (Ret l') \<and> write_mutex l' = cs_free \<and> num_readers l' = 0"
    and "u \<noteq> t \<Longrightarrow> uv__rwlock_fallback_rdunlock u l = Some Abort"
  using assms
  by (auto simp: uv__rwlock_fallback_rdunlock_def EnterCriticalSection_def LeaveCriticalSection_def read_locked_def Let_def)

lemma wrlock_excluded:
  assumes "read_locked t n l"
  shows "uv__rwlock_fallback_wrlock u l = None \<longleftrightarrow> u \<noteq> t"
  using assms by (auto simp: uv__rwlock_fallback_wrlock_def EnterCriticalSection_def read_locked_def)

text \<open>Two readers that leave in the order in which they came.\<close>

lemma rwlock_foreign_release:
  assumes "t \<noteq> u"
  shows "\<exists>l1 l2 l3. uv__rwlock_fallback_rdlock t (snd uv__rwlock_fallback_init) = Some (Ret l1) \<and>
    uv__rwlock_fallback_rdlock u l1 = Some (Ret l2) \<and> uv__rwlock_fallback_rdunlock t l2 = Some (Ret l3) \<and>
    uv__rwlock_fallback_rdunlock u l3 = Some Abort"
proof -
  obtain l1 where 1: "uv__rwlock_fallback_rdlock t (snd uv__rwlock_fallback_init) = Some (Ret l1)" "read_locked t 1 l1"
    using rdlock_first [of "snd uv__rwlock_fallback_init" t] by (auto simp: uv__rwlock_fallback_init_def)
  obtain l2 where 2: "uv__rwlock_fallback_rdlock u l1 = Some (Ret l2)" "read_locked t (Suc 1) l2"
    using rdlock_more [OF 1(2)] by auto
  obtain l3 where 3: "uv__rwlock_fallback_rdunlock t l2 = Some (Ret l3)" "read_locked t 1 l3"
    using rdunlock_more [OF 2(2)] by auto
  with 1 2 rdunlock_last(2) [OF 3(2)] assms show ?thesis by auto
qed

section \<open>The once guard of Windows\<close>

text \<open>
  \<open>uv_once\<close> as interleaved steps of the threads: create an event, exchange it for \<open>NULL\<close>, and either run the
  callback and set the event, or wait for the event of the thread that was first.
\<close>

datatype once_pc = O_idle | O_created | O_call | O_set | O_ran | O_waiting | O_returned

record once_guard =
  once_event :: "nat option"
  once_signaled :: bool
  once_ran :: bool
  once_pcs :: "nat \<Rightarrow> once_pc"
  once_calls :: "nat list"

definition once_goto :: "nat \<Rightarrow> once_pc \<Rightarrow> once_guard \<Rightarrow> once_guard" where
  "once_goto t p g = g\<lparr>once_pcs := (once_pcs g)(t := p)\<rparr>"

text \<open>An event is named by the thread that created it; \<open>None\<close> is waiting or having returned.\<close>

definition once_step :: "once_guard \<Rightarrow> nat \<Rightarrow> once_guard option" where
  "once_step g t =
     (case once_pcs g t of
        O_idle \<Rightarrow> Some (if once_ran g then once_goto t O_returned g else once_goto t O_created g)
      | O_created \<Rightarrow>
          Some (case once_event g of
                  None \<Rightarrow> once_goto t O_call (g\<lparr>once_event := Some t\<rparr>)
                | Some e \<Rightarrow> once_goto t O_waiting g)
      | O_call \<Rightarrow> Some (once_goto t O_set (g\<lparr>once_calls := once_calls g @ [t]\<rparr>))
      | O_set \<Rightarrow> Some (once_goto t O_ran (g\<lparr>once_signaled := True\<rparr>))
      | O_ran \<Rightarrow> Some (once_goto t O_returned (g\<lparr>once_ran := True\<rparr>))
      | O_waiting \<Rightarrow> if once_signaled g then Some (once_goto t O_returned g) else None
      | O_returned \<Rightarrow> None)"

definition once_start :: once_guard where
  "once_start = \<lparr>once_event = None, once_signaled = False, once_ran = False, once_pcs = (\<lambda>t. O_idle), once_calls = []\<rparr>"

primrec once_run :: "nat list \<Rightarrow> once_guard \<Rightarrow> once_guard" where
  "once_run [] g = g"
| "once_run (t # ts) g = once_run ts (case once_step g t of None \<Rightarrow> g | Some g \<Rightarrow> g)"

definition once_inv :: "once_guard \<Rightarrow> bool" where
  "once_inv g \<longleftrightarrow>
     (once_ran g \<longrightarrow> once_signaled g) \<and> (once_signaled g \<longrightarrow> once_calls g \<noteq> []) \<and>
     (once_calls g \<noteq> [] \<longrightarrow> (\<exists>e. once_event g = Some e \<and> once_calls g = [e])) \<and>
     (\<forall>t. case once_pcs g t of
        O_idle \<Rightarrow> once_event g \<noteq> Some t
      | O_created \<Rightarrow> once_event g \<noteq> Some t
      | O_call \<Rightarrow> once_event g = Some t \<and> once_calls g = []
      | O_set \<Rightarrow> once_event g = Some t \<and> once_calls g \<noteq> []
      | O_ran \<Rightarrow> once_event g = Some t \<and> once_signaled g
      | O_waiting \<Rightarrow> True
      | O_returned \<Rightarrow> once_signaled g)"

lemma once_inv_pc: "once_inv g \<Longrightarrow> (case once_pcs g t of
        O_idle \<Rightarrow> once_event g \<noteq> Some t
      | O_created \<Rightarrow> once_event g \<noteq> Some t
      | O_call \<Rightarrow> once_event g = Some t \<and> once_calls g = []
      | O_set \<Rightarrow> once_event g = Some t \<and> once_calls g \<noteq> []
      | O_ran \<Rightarrow> once_event g = Some t \<and> once_signaled g
      | O_waiting \<Rightarrow> True
      | O_returned \<Rightarrow> once_signaled g)"
  by (simp add: once_inv_def)

lemma once_inv_step:
  assumes inv: "once_inv g" and step: "once_step g t = Some g'"
  shows "once_inv g'"
proof -
  have rest: "once_ran g \<longrightarrow> once_signaled g" "once_signaled g \<longrightarrow> once_calls g \<noteq> []"
      "once_calls g \<noteq> [] \<longrightarrow> (\<exists>e. once_event g = Some e \<and> once_calls g = [e])"
    using inv by (simp_all add: once_inv_def)
  note pc = once_inv_pc [OF inv]
  have "(once_ran g' \<longrightarrow> once_signaled g') \<and> (once_signaled g' \<longrightarrow> once_calls g' \<noteq> []) \<and>
      (once_calls g' \<noteq> [] \<longrightarrow> (\<exists>e. once_event g' = Some e \<and> once_calls g' = [e]))"
    using rest pc [of t] step
    by (cases "once_pcs g t") (auto simp: once_step_def once_goto_def split: if_splits option.splits)
  moreover have "case once_pcs g' u of
        O_idle \<Rightarrow> once_event g' \<noteq> Some u
      | O_created \<Rightarrow> once_event g' \<noteq> Some u
      | O_call \<Rightarrow> once_event g' = Some u \<and> once_calls g' = []
      | O_set \<Rightarrow> once_event g' = Some u \<and> once_calls g' \<noteq> []
      | O_ran \<Rightarrow> once_event g' = Some u \<and> once_signaled g'
      | O_waiting \<Rightarrow> True
      | O_returned \<Rightarrow> once_signaled g'" for u
  proof (cases "u = t")
    case True
    then show ?thesis using rest pc [of t] step
      by (cases "once_pcs g t") (auto simp: once_step_def once_goto_def split: if_splits option.splits)
  next
    case False
    then have same: "once_pcs g' u = once_pcs g u"
      and gr: "once_event g \<noteq> None \<longrightarrow> once_event g' = once_event g" "once_signaled g \<longrightarrow> once_signaled g'"
        "once_event g = None \<longrightarrow> once_event g' \<noteq> Some u" "once_event g = Some u \<longrightarrow> once_calls g' = once_calls g"
      using pc [of t] step by (auto simp: once_step_def once_goto_def split: if_splits option.splits once_pc.splits)
    show ?thesis unfolding same using pc [of u] gr by (cases "once_pcs g u") auto
  qed
  ultimately show ?thesis unfolding once_inv_def by blast
qed

lemma once_inv_run: "once_inv g \<Longrightarrow> once_inv (once_run ts g)"
  by (induction ts arbitrary: g) (auto split: option.split dest: once_inv_step)

text \<open>In every interleaving the callback is called at most once, and a thread returns only after it was called.\<close>

lemma uv_once_calls_once:
  assumes "g = once_run ts once_start"
  shows "length (once_calls g) \<le> 1 \<and> (once_pcs g t = O_returned \<longrightarrow> length (once_calls g) = 1)"
proof -
  have "once_inv once_start" by (simp add: once_inv_def once_start_def)
  then have inv: "once_inv g" unfolding assms by (rule once_inv_run)
  have "once_pcs g t = O_returned \<Longrightarrow> once_signaled g" using once_inv_pc [OF inv, of t] by simp
  moreover have "once_signaled g \<longrightarrow> once_calls g \<noteq> []" "once_calls g \<noteq> [] \<longrightarrow> (\<exists>e. once_calls g = [e])"
    using inv by (auto simp: once_inv_def)
  ultimately show ?thesis by (cases "once_calls g = []") auto
qed

end
