(* ===== verification/Stacklet.thy ===== *)
theory Stacklet
  imports Prelude
begin

text \<open>
  \<open>stacklet/stacklet.c\<close> with the switch of \<open>stacklet/switch_x86_64_gcc.h\<close>. The C stack is a memory of
  bytes that grows to lower addresses; the heap maps the address of a \<open>struct stacklet_s\<close> to it and
  to the bytes that follow it (\<open>g + 1\<close>), as many as \<open>malloc\<close> was asked for. Address 0 is \<open>NULL\<close>. An
  access to a freed or foreign block and a copy beyond the end of a block are \<open>Abort\<close>, as a
  failed \<open>assert\<close>. What is suspended is what lies in memory and in the registers: the stack of the
  code that called \<open>slp_switch\<close> holds its return addresses too.
\<close>

type_synonym stack_byte = "8 word"
type_synonym addr = nat

record stacklet_s =
  stack_start :: addr
  stack_stop :: addr
  stack_saved :: int
  stack_prev :: addr
  stack_copy :: "stack_byte list"

record stacklet_thread_s =
  g_stack_chain_head :: addr
  g_current_stack_stop :: addr
  g_current_stack_marker :: addr
  g_source :: addr
  g_target :: addr

text \<open>
  The machine: the C stack, the allocated stacklets, the stack pointer and the registers that the
  switch pushes, in the order of the pushes (rbp, rbx, r12, r13, r14, r15).
\<close>

record machine = stacklet_thread_s +
  mem :: "addr \<Rightarrow> stack_byte"
  slps :: "addr \<Rightarrow> stacklet_s option"
  rsp :: addr
  regs :: "64 word list"

definition EMPTY_HANDLE :: addr where
  "EMPTY_HANDLE = 2 ^ 64 - 1"

text \<open>An answer of \<open>malloc\<close>: the address and what the block holds before it is written.\<close>

type_synonym block = "addr \<times> (nat \<Rightarrow> stack_byte)"

section \<open>Bytes in memory\<close>

definition fetch :: "(addr \<Rightarrow> stack_byte) \<Rightarrow> addr \<Rightarrow> nat \<Rightarrow> stack_byte list" where
  "fetch m a n = map m [a ..< a + n]"

definition store :: "addr \<Rightarrow> stack_byte list \<Rightarrow> (addr \<Rightarrow> stack_byte) \<Rightarrow> addr \<Rightarrow> stack_byte" where
  "store a bs m = (\<lambda>x. if a \<le> x \<and> x < a + length bs then bs ! (x - a) else m x)"

definition le64 :: "64 word \<Rightarrow> stack_byte list" where
  "le64 w = map (\<lambda>i. ucast (drop_bit (8 * i) w)) [0 ..< 8]"

definition of_le64 :: "stack_byte list \<Rightarrow> 64 word" where
  "of_le64 bs = foldr (\<lambda>b w. push_bit 8 w OR ucast b) bs 0"

section \<open>Saving a stack\<close>

definition set_slp :: "addr \<Rightarrow> stacklet_s \<Rightarrow> machine \<Rightarrow> machine" where
  "set_slp g s M = M\<lparr>slps := (slps M)(g \<mapsto> s)\<rparr>"

text \<open>\<open>memcpy(c + sz1, start + sz1, sz2 - sz1)\<close> within the block.\<close>

definition save_bytes :: "nat \<Rightarrow> nat \<Rightarrow> (addr \<Rightarrow> stack_byte) \<Rightarrow> stacklet_s \<Rightarrow> stack_byte list" where
  "save_bytes sz1 sz2 m s =
     take sz1 (stack_copy s) @ fetch m (stack_start s + sz1) (sz2 - sz1) @ drop sz2 (stack_copy s)"

definition g_save :: "addr \<Rightarrow> addr \<Rightarrow> machine \<Rightarrow> machine outcome" where
  "g_save g stop M =
     obind (ptr_ok (slps M g)) (\<lambda>s.
       let sz1 = stack_saved s; sz2 = int stop - int (stack_start s)
       in assert_that (stop \<le> stack_stop s)
            (if sz1 < sz2
             then assert_that (sz2 \<le> int (length (stack_copy s)))
                    (Ret (set_slp g (s\<lparr>stack_copy := save_bytes (nat sz1) (nat sz2) (mem M) s, stack_saved := sz2\<rparr>) M))
             else Ret M))"

definition g_allocate_source_stacklet :: "block \<Rightarrow> addr \<Rightarrow> machine \<Rightarrow> int \<times> machine" where
  "g_allocate_source_stacklet b old_stack_pointer M =
     (let stack_size = int (g_current_stack_stop M) - int old_stack_pointer;
          M = M\<lparr>g_source := fst b\<rparr>
      in if fst b = 0 then (- 1, M)
         else (0, (set_slp (fst b)
                \<lparr>stack_start = old_stack_pointer, stack_stop = g_current_stack_stop M, stack_saved = 0,
                 stack_prev = g_stack_chain_head M, stack_copy = map (snd b) [0 ..< nat stack_size]\<rparr> M)
                \<lparr>g_stack_chain_head := fst b\<rparr>))"

text \<open>
  The loop of \<open>g_clear_stack\<close> saves and unlinks the stacklets below \<open>target_stop\<close>; it ends at \<open>NULL\<close> or
  at the first stacklet that reaches above.
\<close>

partial_function (option) clear_loop :: "addr \<Rightarrow> addr \<Rightarrow> addr \<Rightarrow> machine \<Rightarrow> (addr \<times> machine) run" where
  "clear_loop target target_stop current M =
     (if current = 0 then Some (Ret (0, M))
      else rbind (Some (ptr_ok (slps M current))) (\<lambda>s.
        if stack_stop s \<le> target_stop
        then let M = set_slp current (s\<lparr>stack_prev := 0\<rparr>) M
             in rbind (Some (if current \<noteq> target then g_save current (stack_stop s) M else Ret M)) (\<lambda>M.
                  clear_loop target target_stop (stack_prev s) M)
        else Some (Ret (current, M))))"

definition g_clear_stack :: "addr \<Rightarrow> machine \<Rightarrow> machine run" where
  "g_clear_stack target M =
     rbind (Some (ptr_ok (slps M target))) (\<lambda>t.
     rbind (clear_loop target (stack_stop t) (g_stack_chain_head M) M) (\<lambda>(current, M).
       if current = 0 then Some (Ret (M\<lparr>g_stack_chain_head := 0\<rparr>))
       else rbind (Some (ptr_ok (slps M current))) (\<lambda>s.
         rbind (Some (if stack_start s < stack_stop t then g_save current (stack_stop t) M else Ret M)) (\<lambda>M.
           Some (Ret (M\<lparr>g_stack_chain_head := current\<rparr>))))))"

section \<open>What the switch calls before and after\<close>

definition target_start :: "machine \<Rightarrow> (addr \<times> machine) run" where
  "target_start M = Some (obind (ptr_ok (slps M (g_target M))) (\<lambda>t. Ret (stack_start t, M)))"

definition g_save_state :: "block \<Rightarrow> addr \<Rightarrow> machine \<Rightarrow> (addr \<times> machine) run" where
  "g_save_state b old_stack_pointer M =
     (let (r, M) = g_allocate_source_stacklet b old_stack_pointer M
      in if r < 0 then Some (Ret (0, M))
         else rbind (g_clear_stack (g_target M) M) target_start)"

definition g_initial_save_state :: "block \<Rightarrow> addr \<Rightarrow> machine \<Rightarrow> (addr \<times> machine) run" where
  "g_initial_save_state b old_stack_pointer M =
     (let (r, M) = g_allocate_source_stacklet b old_stack_pointer M
      in if r = 0 then rbind (Some (g_save (g_source M) (g_current_stack_marker M) M)) (\<lambda>M. Some (Ret (0, M)))
         else Some (Ret (0, M)))"

definition g_destroy_state :: "addr \<Rightarrow> machine \<Rightarrow> (addr \<times> machine) run" where
  "g_destroy_state old_stack_pointer M =
     rbind (g_clear_stack (g_target M) (M\<lparr>g_source := EMPTY_HANDLE\<rparr>)) target_start"

definition g_restore_state :: "addr \<Rightarrow> machine \<Rightarrow> (addr \<times> machine) outcome" where
  "g_restore_state new_stack_pointer M =
     obind (ptr_ok (slps M (g_target M))) (\<lambda>g.
       assert_that (new_stack_pointer = stack_start g \<and> nat (stack_saved g) \<le> length (stack_copy g))
         (Ret (EMPTY_HANDLE, M\<lparr>mem := store (stack_start g) (take (nat (stack_saved g)) (stack_copy g)) (mem M),
                 g_current_stack_stop := stack_stop g, slps := (slps M)(g_target M := None)\<rparr>)))"

section \<open>The switch\<close>

definition push :: "64 word \<Rightarrow> machine \<Rightarrow> machine" where
  "push w M = M\<lparr>rsp := rsp M - 8, mem := store (rsp M - 8) (le64 w) (mem M)\<rparr>"

definition pop :: "machine \<Rightarrow> 64 word \<times> machine" where
  "pop M = (of_le64 (fetch (mem M) (rsp M) 8), M\<lparr>rsp := rsp M + 8\<rparr>)"

primrec pop_regs :: "nat \<Rightarrow> 64 word list \<Rightarrow> machine \<Rightarrow> machine" where
  "pop_regs 0 ws M = M\<lparr>regs := ws\<rparr>"
| "pop_regs (Suc n) ws M = (let (w, M) = pop M in pop_regs n (w # ws) M)"

text \<open>The value is \<open>rax\<close>; with a value other than 0 the return is into the stack of the target.\<close>

definition slp_switch :: "(addr \<Rightarrow> machine \<Rightarrow> (addr \<times> machine) run) \<Rightarrow>
    (addr \<Rightarrow> machine \<Rightarrow> (addr \<times> machine) outcome) \<Rightarrow> machine \<Rightarrow> (addr \<times> machine) run" where
  "slp_switch save_state restore_state M =
     (let M = fold push (regs M) M
      in rbind (save_state (rsp M) M) (\<lambda>(rax, M).
           if rax = 0 then Some (Ret (0, pop_regs 6 [] M))
           else rbind (Some (restore_state rax (M\<lparr>rsp := rax\<rparr>))) (\<lambda>(rax, M). Some (Ret (rax, pop_regs 6 [] M)))))"

section \<open>The interface\<close>

text \<open>\<open>memset\<close> makes every field of the thread \<open>NULL\<close>; \<open>ok\<close> is whether \<open>malloc\<close> found memory.\<close>

definition stacklet_newthread :: "bool \<Rightarrow> machine \<Rightarrow> machine option" where
  "stacklet_newthread ok M =
     (if ok then Some (M\<lparr>g_stack_chain_head := 0, g_current_stack_stop := 0, g_current_stack_marker := 0,
                         g_source := 0, g_target := 0\<rparr>)
      else None)"

text \<open>\<open>free(thrd)\<close> leaves a machine without the fields of the thread; its suspended stacks stay allocated.\<close>

definition stacklet_deletethread :: "machine \<Rightarrow>
    (addr \<Rightarrow> stack_byte) \<times> (addr \<Rightarrow> stacklet_s option) \<times> addr \<times> 64 word list" where
  "stacklet_deletethread M = (mem M, slps M, rsp M, regs M)"

definition stop_above :: "addr \<Rightarrow> machine \<Rightarrow> machine" where
  "stop_above stackmarker M =
     (if g_current_stack_stop M \<le> stackmarker then M\<lparr>g_current_stack_stop := stackmarker + 1\<rparr> else M)"

text \<open>
  \<open>stacklet_new\<close> with \<open>g_initialstub\<close>, up to the point where \<open>run\<close> is called or, when there is no
  memory, where \<open>stacklet_new\<close> returns; the result says whether \<open>run\<close> is called. When \<open>run\<close> has
  returned \<open>result\<close>, \<open>g_initialstub_end\<close> follows, which never returns to its caller.
\<close>

definition g_initialstub :: "block \<Rightarrow> machine \<Rightarrow> (bool \<times> machine) run" where
  "g_initialstub b M =
     rbind (slp_switch (g_initial_save_state b) g_restore_state M) (\<lambda>(result, M).
       if result = 0 \<and> g_source M \<noteq> 0
       then Some (Ret (True, M\<lparr>g_current_stack_stop := g_current_stack_marker M\<rparr>))
       else Some (Ret (False, M)))"

definition g_initialstub_end :: "addr \<Rightarrow> machine \<Rightarrow> machine run" where
  "g_initialstub_end result M =
     rbind (slp_switch g_destroy_state g_restore_state (M\<lparr>g_target := result\<rparr>)) (\<lambda>(r, M).
       if r = 0 then Some Abort else Some (Ret M))"

definition stacklet_new :: "addr \<Rightarrow> block \<Rightarrow> machine \<Rightarrow> (bool \<times> machine) run" where
  "stacklet_new stackmarker b M =
     (if stackmarker = 0 then Some Abort
      else g_initialstub b ((stop_above stackmarker M)\<lparr>g_current_stack_marker := stackmarker\<rparr>))"

text \<open>The stack that runs afterwards finds in \<open>g_source\<close> the value that its own call returns.\<close>

definition stacklet_switch :: "addr \<Rightarrow> block \<Rightarrow> addr \<Rightarrow> machine \<Rightarrow> (addr \<times> machine) run" where
  "stacklet_switch stackmarker b target M =
     rbind (slp_switch (g_save_state b) g_restore_state ((stop_above stackmarker M)\<lparr>g_target := target\<rparr>)) (\<lambda>(r, M).
       Some (Ret (g_source M, M)))"

text \<open>The loop of \<open>stacklet_destroy\<close>; \<open>None\<close> for \<open>pp\<close> is the head of the chain itself.\<close>

partial_function (option) unlink_loop :: "addr \<Rightarrow> addr option \<Rightarrow> addr \<Rightarrow> machine \<Rightarrow> machine run" where
  "unlink_loop target pp current M =
     (if current = 0 then Some (Ret M)
      else rbind (Some (ptr_ok (slps M current))) (\<lambda>s.
        if current = target
        then (case pp of
                None \<Rightarrow> Some (Ret (M\<lparr>g_stack_chain_head := stack_prev s\<rparr>))
              | Some p \<Rightarrow> rbind (Some (ptr_ok (slps M p))) (\<lambda>sp. Some (Ret (set_slp p (sp\<lparr>stack_prev := stack_prev s\<rparr>) M))))
        else unlink_loop target (Some current) (stack_prev s) M))"

definition stacklet_destroy :: "addr \<Rightarrow> machine \<Rightarrow> machine run" where
  "stacklet_destroy target M =
     rbind (unlink_loop target None (g_stack_chain_head M) M) (\<lambda>M.
       Some (if target = 0 then Ret M else if slps M target = None then Abort else Ret (M\<lparr>slps := (slps M)(target := None)\<rparr>)))"

text \<open>Where the byte at \<open>p\<close> of a suspended stack is now: in the copy at an offset, or in place.\<close>

datatype location = In_copy nat | In_place addr

definition stacklet_translate_pointer :: "addr \<Rightarrow> addr \<Rightarrow> machine \<Rightarrow> location outcome" where
  "stacklet_translate_pointer context p M =
     (if context = 0 then Ret (In_place p)
      else obind (ptr_ok (slps M context)) (\<lambda>s.
        let delta = int p - int (stack_start s)
        in if 0 \<le> delta \<and> delta < stack_saved s then Ret (In_copy (nat delta))
           else if 0 \<le> delta \<and> delta < int (stack_stop s) - int (stack_start s) then Ret (In_place p)
           else assert_that (0 \<le> delta \<and> odd (stack_stop s)) (Ret (In_place p))))"

end
