(* ===== verification/Stacklet_Props.thy ===== *)
theory Stacklet_Props
  imports Stacklet
begin

text \<open>
  What a suspended stack holds, the invariant of the chain of stacklets that are partly in place, and
  that switching away and back changes neither the stack nor the registers.
\<close>

section \<open>Bytes\<close>

lemma length_fetch [simp]: "length (fetch m a n) = n"
  by (simp add: fetch_def)

lemma nth_fetch [simp]: "i < n \<Longrightarrow> fetch m a n ! i = m (a + i)"
  by (simp add: fetch_def)

lemma fetch_cong: "(\<And>x. a \<le> x \<Longrightarrow> x < a + n \<Longrightarrow> m x = m' x) \<Longrightarrow> fetch m a n = fetch m' a n"
  by (simp add: fetch_def)

lemma fetch_append: "fetch m a n @ fetch m (a + n) k = fetch m a (n + k)"
  by (simp add: list_eq_iff_nth_eq nth_append)

lemma store_outside: "x < a \<or> a + length bs \<le> x \<Longrightarrow> store a bs m x = m x"
  by (auto simp: store_def)

lemma fetch_store: "fetch (store a bs m) a (length bs) = bs"
  by (simp add: list_eq_iff_nth_eq store_def)

lemma length_le64 [simp]: "length (le64 w) = 8"
  by (simp add: le64_def)

lemma foldr_bytes:
  fixes w :: "64 word"
  shows "foldr (\<lambda>b w. push_bit 8 w OR ucast (b :: stack_byte)) (map (\<lambda>i. ucast (drop_bit (8 * i) w)) [0 ..< n]) 0 =
    take_bit (8 * n) w"
proof (induction n arbitrary: w)
  case (Suc n)
  have bytes: "map (\<lambda>i. ucast (drop_bit (8 * i) w)) [0 ..< Suc n] =
      ucast w # map (\<lambda>i. ucast (drop_bit (8 * i) (drop_bit 8 w))) [0 ..< n]"
    by (simp add: map_upt_Suc drop_bit_drop_bit add.commute del: upt_Suc)
  have "push_bit 8 (take_bit (8 * n) (drop_bit 8 w)) OR ucast (ucast w :: stack_byte) = take_bit (8 * Suc n) w"
    by (rule bit_word_eqI) (auto simp: bit_simps)
  then show ?case by (simp only: bytes Suc.IH foldr.simps comp_apply)
qed simp

lemma of_le64_le64 [simp]: "of_le64 (le64 w) = w"
  using foldr_bytes [of w 8] by (simp add: of_le64_def le64_def take_bit_word_eq_self)

section \<open>Registers\<close>

lemma pushes:
  "8 * length ws \<le> rsp M \<Longrightarrow> fold push ws M = M\<lparr>rsp := rsp M - 8 * length ws,
     mem := mem (fold push ws M)\<rparr> \<and>
     fetch (mem (fold push ws M)) (rsp M - 8 * length ws) (8 * length ws) = concat (map le64 (rev ws)) \<and>
     (\<forall>a. a < rsp M - 8 * length ws \<or> rsp M \<le> a \<longrightarrow> mem (fold push ws M) a = mem M a)"
proof (induction ws arbitrary: M)
  case (Cons w ws)
  let ?M = "push w M" and ?n = "8 * length ws"
  have "?n \<le> rsp ?M" using Cons.prems by (simp add: push_def)
  note IH = Cons.IH [OF this]
  have r: "rsp ?M = rsp M - 8" by (simp add: push_def)
  let ?m = "mem (fold push ws ?M)" and ?b = "rsp M - 8 * length (w # ws)"
  have b: "rsp ?M - ?n = ?b" "rsp M = ?b + ?n + 8" using Cons.prems r by simp_all
  have low: "fetch ?m ?b ?n = concat (map le64 (rev ws))" using IH b by simp
  have "fetch ?m (?b + ?n) 8 = fetch (mem ?M) (?b + ?n) 8"
    by (rule fetch_cong) (use IH b r in auto)
  also have "\<dots> = le64 w"
    using b fetch_store [of "rsp M - 8" "le64 w" "mem M"] by (simp add: push_def)
  finally have "fetch ?m ?b (8 * length (w # ws)) = concat (map le64 (rev (w # ws)))"
    using fetch_append [of ?m ?b ?n 8] low by (simp add: add.commute)
  moreover have "mem (fold push ws ?M) a = mem M a" if "a < ?b \<or> rsp M \<le> a" for a
  proof -
    have "mem (fold push ws ?M) a = mem ?M a" using IH that b r by auto
    with that b show ?thesis by (auto simp: push_def store_def)
  qed
  moreover have "fold push ws ?M = M\<lparr>rsp := ?b, mem := mem (fold push ws ?M)\<rparr>"
  proof -
    have "fold push ws ?M = ?M\<lparr>rsp := rsp ?M - ?n, mem := mem (fold push ws ?M)\<rparr>" using IH by blast
    also have "\<dots> = M\<lparr>rsp := ?b, mem := mem (fold push ws ?M)\<rparr>" unfolding b(1) by (simp add: push_def [of w M])
    finally show ?thesis .
  qed
  ultimately show ?case by simp
qed (simp add: fetch_def)

lemma pops:
  "fetch (mem M) (rsp M) (8 * length ws) = concat (map le64 ws) \<Longrightarrow>
    pop_regs (length ws) vs M = M\<lparr>rsp := rsp M + 8 * length ws, regs := rev ws @ vs\<rparr>"
proof (induction ws arbitrary: M vs)
  case (Cons w ws)
  have "fetch (mem M) (rsp M) 8 @ fetch (mem M) (rsp M + 8) (8 * length ws) = le64 w @ concat (map le64 ws)"
    using Cons.prems by (simp add: fetch_append)
  then have w: "fetch (mem M) (rsp M) 8 = le64 w" and ws: "fetch (mem M) (rsp M + 8) (8 * length ws) = concat (map le64 ws)"
    by simp_all
  have "pop_regs (length (w # ws)) vs M = pop_regs (length ws) (w # vs) (M\<lparr>rsp := rsp M + 8\<rparr>)"
    by (simp add: pop_def w)
  with Cons.IH [of "M\<lparr>rsp := rsp M + 8\<rparr>" "w # vs"] ws show ?case by (simp add: add.commute add.left_commute)
qed simp

section \<open>What a suspended stack holds\<close>

text \<open>
  The older bytes of a suspended stack, above its \<open>floor\<close>, are still in place; the newer ones are in
  the copy. \<open>view\<close> is what a resumption of the stack will find.
\<close>

definition floor_of :: "stacklet_s \<Rightarrow> addr" where
  "floor_of s = stack_start s + nat (stack_saved s)"

definition stack_of :: "(addr \<Rightarrow> stack_byte) \<Rightarrow> stacklet_s \<Rightarrow> stack_byte list" where
  "stack_of m s = take (nat (stack_saved s)) (stack_copy s) @ fetch m (floor_of s) (stack_stop s - floor_of s)"

definition view :: "(addr \<Rightarrow> stack_byte) \<Rightarrow> stacklet_s \<Rightarrow> addr \<times> addr \<times> stack_byte list" where
  "view m s = (stack_start s, stack_stop s, stack_of m s)"

definition slp_ok :: "stacklet_s \<Rightarrow> bool" where
  "slp_ok s \<longleftrightarrow> 0 < stack_start s \<and> 0 \<le> stack_saved s \<and> floor_of s \<le> stack_stop s \<and>
     stack_start s + 48 \<le> stack_stop s \<and> length (stack_copy s) = stack_stop s - stack_start s"

definition saved_to :: "addr \<Rightarrow> (addr \<Rightarrow> stack_byte) \<Rightarrow> stacklet_s \<Rightarrow> stacklet_s" where
  "saved_to stop m s =
     (if stack_saved s < int stop - int (stack_start s)
      then s\<lparr>stack_copy := save_bytes (nat (stack_saved s)) (stop - stack_start s) m s,
             stack_saved := int stop - int (stack_start s)\<rparr>
      else s)"

lemma saved_to_simps [simp]:
  "stack_start (saved_to stop m s) = stack_start s" "stack_stop (saved_to stop m s) = stack_stop s"
  "stack_prev (saved_to stop m s) = stack_prev s"
  by (simp_all add: saved_to_def)

lemma set_slp_same: "slps M g = Some s \<Longrightarrow> set_slp g s M = M"
  by (cases M) (simp add: set_slp_def fun_upd_idem)

lemma g_save_saved_to:
  assumes "slps M g = Some s" and "slp_ok s" and "stop \<le> stack_stop s"
  shows "g_save g stop M = Ret (set_slp g (saved_to stop (mem M) s) M)"
proof -
  have "nat (int stop - int (stack_start s)) = stop - stack_start s" by simp
  then show ?thesis using assms
    by (auto simp: g_save_def saved_to_def slp_ok_def Let_def assert_that_def set_slp_same)
qed

lemma saved_to_floor:
  assumes "slp_ok s" shows "floor_of (saved_to stop m s) = max (floor_of s) stop"
  using assms by (auto simp: saved_to_def floor_of_def slp_ok_def)

lemma saved_to_ok:
  assumes "slp_ok s" and "stop \<le> stack_stop s"
  shows "slp_ok (saved_to stop m s)"
  using assms saved_to_floor [OF assms(1), of stop m]
  by (auto simp: slp_ok_def) (auto simp: saved_to_def save_bytes_def floor_of_def)

lemma saved_to_view:
  assumes ok: "slp_ok s" and "stop \<le> stack_stop s"
  shows "view m (saved_to stop m s) = view m s"
proof (cases "stack_saved s < int stop - int (stack_start s)")
  case True
  let ?n = "nat (stack_saved s)" and ?k = "stop - stack_start s"
  have n: "?n < ?k" "stack_start s + ?k = stop" "?k \<le> length (stack_copy s)" using True ok assms(2) by (auto simp: slp_ok_def)
  have "take ?k (save_bytes ?n ?k m s) = take ?n (stack_copy s) @ fetch m (floor_of s) (?k - ?n)"
    using n by (simp add: save_bytes_def floor_of_def min_def)
  moreover have "fetch m (floor_of s) (?k - ?n) @ fetch m stop (stack_stop s - stop) =
      fetch m (floor_of s) (stack_stop s - floor_of s)"
    using fetch_append [of m "floor_of s" "?k - ?n" "stack_stop s - stop"] n assms(2)
    by (simp add: floor_of_def)
  moreover have "nat (int stop - int (stack_start s)) = ?k" by simp
  moreover have "floor_of (saved_to stop m s) = stop" "stack_saved (saved_to stop m s) = int stop - int (stack_start s)"
      "stack_copy (saved_to stop m s) = save_bytes ?n ?k m s"
    using True n by (simp_all add: saved_to_def floor_of_def)
  ultimately show ?thesis by (simp add: view_def stack_of_def)
qed (simp add: saved_to_def)

lemma view_frame:
  "(\<And>x. floor_of s \<le> x \<Longrightarrow> x < stack_stop s \<Longrightarrow> m' x = m x) \<Longrightarrow> view m' s = view m s"
  unfolding view_def stack_of_def by (auto intro!: fetch_cong)

lemma view_unlink [simp]:
  "view m (s\<lparr>stack_prev := p\<rparr>) = view m s" "slp_ok (s\<lparr>stack_prev := p\<rparr>) = slp_ok s"
  "floor_of (s\<lparr>stack_prev := p\<rparr>) = floor_of s"
  by (simp_all add: view_def stack_of_def floor_of_def slp_ok_def)

section \<open>The chain\<close>

primrec chained :: "(addr \<Rightarrow> stacklet_s option) \<Rightarrow> addr \<Rightarrow> addr list \<Rightarrow> bool" where
  "chained S h [] \<longleftrightarrow> h = 0"
| "chained S h (g # gs) \<longleftrightarrow> h = g \<and> g \<noteq> 0 \<and> (\<exists>s. S g = Some s \<and> chained S (stack_prev s) gs)"

text \<open>The parts in place lie above each other, and above \<open>lo\<close>.\<close>

primrec above :: "(addr \<Rightarrow> stacklet_s option) \<Rightarrow> addr \<Rightarrow> addr list \<Rightarrow> bool" where
  "above S lo [] \<longleftrightarrow> True"
| "above S lo (g # gs) \<longleftrightarrow> (\<exists>s. S g = Some s \<and> lo \<le> floor_of s \<and> above S (stack_stop s) gs)"

lemma chained_cong: "(\<And>g. g \<in> set gs \<Longrightarrow> S' g = S g) \<Longrightarrow> chained S' h gs = chained S h gs"
  by (induction gs arbitrary: h) auto

lemma above_cong: "(\<And>g. g \<in> set gs \<Longrightarrow> S' g = S g) \<Longrightarrow> above S' lo gs = above S lo gs"
  by (induction gs arbitrary: lo) auto

lemma chain_upd [simp]:
  "t \<notin> set gs \<Longrightarrow> chained (S(t := x)) h gs = chained S h gs"
  "t \<notin> set gs \<Longrightarrow> above (S(t := x)) lo gs = above S lo gs"
  by (rule chained_cong, fastforce) (rule above_cong, fastforce)

lemma chained_Some: "chained S h gs \<Longrightarrow> g \<in> set gs \<Longrightarrow> \<exists>s. S g = Some s"
  by (induction gs arbitrary: h) auto

lemma chained_nonzero: "chained S h gs \<Longrightarrow> g \<in> set gs \<Longrightarrow> g \<noteq> 0"
  by (induction gs arbitrary: h) auto

lemma above_lower: "above S lo gs \<Longrightarrow> lo' \<le> lo \<Longrightarrow> above S lo' gs"
  by (cases gs) auto

lemma above_floor:
  assumes "above S lo gs" and "\<And>g s. g \<in> set gs \<Longrightarrow> S g = Some s \<Longrightarrow> slp_ok s"
    and "g \<in> set gs" and "S g = Some s"
  shows "lo \<le> floor_of s"
  using assms
proof (induction gs arbitrary: lo)
  case (Cons h hs)
  from Cons.prems(1) obtain sh where h: "S h = Some sh" "lo \<le> floor_of sh" "above S (stack_stop sh) hs" by auto
  show ?case
  proof (cases "g = h")
    case False
    then have "stack_stop sh \<le> floor_of s"
      using Cons.IH [OF h(3) _ _ Cons.prems(4)] Cons.prems(2,3) by (metis list.set_intros(2) set_ConsD)
    moreover have "floor_of sh \<le> stack_stop sh" using Cons.prems(2) [of h sh] h(1) by (simp add: slp_ok_def)
    ultimately show ?thesis using h(2) by simp
  qed (use h Cons.prems(4) in simp)
qed simp

section \<open>Clearing the way for a target\<close>

text \<open>What happens to a stacklet that lies wholly below the stop of the target.\<close>

definition cleared :: "addr \<Rightarrow> (addr \<Rightarrow> stack_byte) \<Rightarrow> addr \<Rightarrow> stacklet_s \<Rightarrow> stacklet_s" where
  "cleared t m g s = (if g = t then s\<lparr>stack_prev := 0\<rparr> else (saved_to (stack_stop s) m s)\<lparr>stack_prev := 0\<rparr>)"

definition below :: "(addr \<Rightarrow> stacklet_s option) \<Rightarrow> addr \<Rightarrow> addr \<Rightarrow> bool" where
  "below S ts g \<longleftrightarrow> (case S g of None \<Rightarrow> False | Some s \<Rightarrow> stack_stop s \<le> ts)"

definition clear_map :: "addr \<Rightarrow> (addr \<Rightarrow> stack_byte) \<Rightarrow> addr set \<Rightarrow> (addr \<Rightarrow> stacklet_s option) \<Rightarrow> addr \<Rightarrow> stacklet_s option" where
  "clear_map t m G S = (\<lambda>g. if g \<in> G then map_option (cleared t m g) (S g) else S g)"

definition first_of :: "addr list \<Rightarrow> addr" where
  "first_of gs = (case gs of [] \<Rightarrow> 0 | g # _ \<Rightarrow> g)"

lemma clear_loop_clears:
  assumes "chained (slps M) c gs" and "distinct gs" and "\<And>g s. g \<in> set gs \<Longrightarrow> slps M g = Some s \<Longrightarrow> slp_ok s"
  shows "clear_loop t ts c M = Some (Ret (first_of (dropWhile (below (slps M) ts) gs),
    M\<lparr>slps := clear_map t (mem M) (set (takeWhile (below (slps M) ts) gs)) (slps M)\<rparr>))"
  using assms
proof (induction gs arbitrary: c M)
  case Nil
  then show ?case by (subst clear_loop.simps) (simp add: first_of_def clear_map_def)
next
  case (Cons g gs)
  from Cons.prems(1) obtain s where c: "c = g" "g \<noteq> 0" and s: "slps M g = Some s" "chained (slps M) (stack_prev s) gs" by auto
  have ok: "slp_ok s" using Cons.prems(3) [of g s] s(1) by simp
  show ?case
  proof (cases "stack_stop s \<le> ts")
    case False
    with c s show ?thesis by (subst clear_loop.simps) (simp add: first_of_def clear_map_def below_def)
  next
    case True
    let ?s = "cleared t (mem M) g s"
    define M1 where "M1 = set_slp g ?s M"
    have m1: "mem M1 = mem M" "slps M1 = (slps M)(g \<mapsto> ?s)" by (simp_all add: M1_def set_slp_def)
    have other: "slps M1 h = slps M h" if "h \<in> set gs" for h using that Cons.prems(2) by (auto simp: m1)
    have "saved_to (stack_stop s) (mem M) (s\<lparr>stack_prev := 0\<rparr>) = (saved_to (stack_stop s) (mem M) s)\<lparr>stack_prev := 0\<rparr>"
      by (simp add: saved_to_def save_bytes_def)
    then have save: "(if g \<noteq> t then g_save g (stack_stop s) (set_slp g (s\<lparr>stack_prev := 0\<rparr>) M)
        else Ret (set_slp g (s\<lparr>stack_prev := 0\<rparr>) M)) = Ret M1"
      using ok by (simp add: M1_def cleared_def g_save_saved_to [of _ _ "s\<lparr>stack_prev := 0\<rparr>"] set_slp_def)
    have below: "takeWhile (below (slps M1) ts) gs = takeWhile (below (slps M) ts) gs"
        "dropWhile (below (slps M1) ts) gs = dropWhile (below (slps M) ts) gs"
      by (auto intro: takeWhile_cong dropWhile_cong simp: below_def other)
    have "chained (slps M1) (stack_prev s) gs" using s(2) chained_cong [of gs "slps M1" "slps M"] other by blast
    moreover have "\<And>h s. h \<in> set gs \<Longrightarrow> slps M1 h = Some s \<Longrightarrow> slp_ok s"
      using Cons.prems(3) other by (metis list.set_intros(2))
    ultimately have
      IH: "clear_loop t ts (stack_prev s) M1 = Some (Ret (first_of (dropWhile (below (slps M) ts) gs),
        M1\<lparr>slps := clear_map t (mem M) (set (takeWhile (below (slps M) ts) gs)) (slps M1)\<rparr>))"
      using Cons.IH [of M1 "stack_prev s"] Cons.prems(2) by (simp add: below m1(1))
    have "g \<notin> set (takeWhile (below (slps M) ts) gs)" using Cons.prems(2) by (auto dest: set_takeWhileD)
    then have "clear_map t (mem M) (set (takeWhile (below (slps M) ts) gs)) (slps M1) =
        clear_map t (mem M) (set (takeWhile (below (slps M) ts) (g # gs))) (slps M)"
      using s(1) True by (auto simp: clear_map_def m1 below_def)
    moreover have "M1\<lparr>slps := S\<rparr> = M\<lparr>slps := S\<rparr>" for S by (simp add: M1_def set_slp_def)
    moreover have "clear_loop t ts c M = clear_loop t ts (stack_prev s) M1"
      using c s(1) True save by (subst clear_loop.simps) (cases "g = t"; simp add: Let_def)
    moreover have "below (slps M) ts g" using s(1) True by (simp add: below_def)
    ultimately show ?thesis using IH by simp
  qed
qed

text \<open>
  \<open>g_clear_stack\<close> keeps every view, and leaves a chain that lies above the stop of the target; what is
  not in the chain, the target apart, is saved completely.
\<close>

definition clears :: "machine \<Rightarrow> addr list \<Rightarrow> addr \<Rightarrow> addr \<Rightarrow> machine \<Rightarrow> addr list \<Rightarrow> bool" where
  "clears M gs t ts M' gs' \<longleftrightarrow>
     M' = M\<lparr>slps := slps M', g_stack_chain_head := g_stack_chain_head M'\<rparr> \<and>
     chained (slps M') (g_stack_chain_head M') gs' \<and> distinct gs' \<and> set gs' \<subseteq> set gs - {t} \<and> above (slps M') ts gs' \<and>
     (\<forall>g. slps M g = None \<longrightarrow> slps M' g = None) \<and>
     (\<forall>g s. slps M g = Some s \<longrightarrow> (\<exists>s'. slps M' g = Some s' \<and> slp_ok s' \<and> view (mem M) s' = view (mem M) s \<and>
        floor_of s \<le> floor_of s' \<and> (g \<notin> set gs' \<and> g \<noteq> t \<longrightarrow> floor_of s' = stack_stop s')))"

lemma cleared_ok:
  assumes "slp_ok s"
  shows "slp_ok (cleared t m g s)" "view m (cleared t m g s) = view m s" "floor_of s \<le> floor_of (cleared t m g s)"
    "g \<noteq> t \<Longrightarrow> floor_of (cleared t m g s) = stack_stop (cleared t m g s)"
  using assms saved_to_ok [OF assms, of "stack_stop s" m] saved_to_view [OF assms, of "stack_stop s" m]
    saved_to_floor [OF assms, of "stack_stop s" m]
  by (auto simp: cleared_def slp_ok_def)

lemma above_dropWhile: "above S lo gs \<Longrightarrow> \<exists>lo'. above S lo' (dropWhile P gs)"
proof (induction gs arbitrary: lo)
  case (Cons g gs)
  then show ?case by (cases "P g") (auto simp del: above.simps(2), auto)
qed simp

lemma chained_dropWhile:
  "chained S h gs \<Longrightarrow> chained S (first_of (dropWhile P gs)) (dropWhile P gs)"
  by (induction gs arbitrary: h) (auto simp: first_of_def)

lemma g_clear_stack_clears:
  assumes chain: "chained (slps M) (g_stack_chain_head M) gs" "distinct gs" "above (slps M) lo gs"
    and ok: "\<And>g s. slps M g = Some s \<Longrightarrow> slp_ok s \<and> (g \<notin> set gs \<longrightarrow> floor_of s = stack_stop s)"
    and t: "slps M t = Some st"
  shows "\<exists>M' gs'. g_clear_stack t M = Some (Ret M') \<and> clears M gs t (stack_stop st) M' gs'"
proof -
  let ?ts = "stack_stop st" and ?m = "mem M"
  let ?P = "below (slps M) ?ts"
  let ?gs' = "dropWhile ?P gs" and ?G = "set (takeWhile ?P gs)"
  let ?S = "clear_map t ?m ?G (slps M)"
  have disj: "g \<notin> ?G" if "g \<in> set ?gs'" for g
    using that chain(2) by (metis disjoint_iff distinct_append takeWhile_dropWhile_id)
  then have same: "?S g = slps M g" if "g \<in> set ?gs'" for g using that by (simp add: clear_map_def)
  have loop: "clear_loop t ?ts (g_stack_chain_head M) M = Some (Ret (first_of ?gs', M\<lparr>slps := ?S\<rparr>))"
    by (rule clear_loop_clears [OF chain(1,2)]) (use ok in blast)
  have views: "\<exists>s'. ?S g = Some s' \<and> slp_ok s' \<and> view ?m s' = view ?m s \<and> floor_of s \<le> floor_of s' \<and>
      (g \<notin> set ?gs' \<and> g \<noteq> t \<longrightarrow> floor_of s' = stack_stop s')" if "slps M g = Some s" for g s
  proof (cases "g \<in> ?G")
    case True
    then show ?thesis using that cleared_ok [where s = s and t = t and m = ?m and g = g] ok [OF that] by (simp add: clear_map_def)
  next
    case False
    have "g \<notin> set ?gs' \<Longrightarrow> g \<notin> set gs" using False by (metis Un_iff set_append takeWhile_dropWhile_id)
    with False that ok [OF that] show ?thesis by (simp add: clear_map_def)
  qed
  show ?thesis
  proof (cases ?gs')
    case Nil
    let ?M = "M\<lparr>slps := ?S, g_stack_chain_head := 0\<rparr>"
    have "g_clear_stack t M = Some (Ret ?M)" using loop by (simp add: g_clear_stack_def t Nil first_of_def)
    moreover have "clears M gs t ?ts ?M []"
      using views Nil by (simp add: clears_def) (simp add: clear_map_def)
    ultimately show ?thesis by blast
  next
    case (Cons c cs)
    then have "c \<in> set ?gs'" and cgs: "c \<in> set gs" by (simp, metis list.set_intros(1) set_dropWhileD)
    obtain s where s: "slps M c = Some s" using chained_Some [OF chain(1) cgs] by blast
    have reach: "?ts < stack_stop s" using hd_dropWhile [of ?P gs] s by (auto simp: Cons below_def)
    let ?c = "saved_to ?ts ?m s"
    let ?M = "M\<lparr>slps := ?S(c \<mapsto> ?c), g_stack_chain_head := c\<rparr>"
    have Sc: "?S c = Some s" using same [of c] s by (simp add: Cons)
    have c: "slp_ok s" "slp_ok ?c" "view ?m ?c = view ?m s" "floor_of ?c = max (floor_of s) ?ts"
      using ok [OF s] saved_to_ok saved_to_view saved_to_floor reach by simp_all
    have "stack_start s < ?ts \<or> ?c = s" using c(1) by (auto simp: saved_to_def slp_ok_def)
    moreover have "g_save c ?ts (M\<lparr>slps := ?S\<rparr>) = Ret (M\<lparr>slps := ?S(c \<mapsto> ?c)\<rparr>)"
      using g_save_saved_to [of "M\<lparr>slps := ?S\<rparr>" c s ?ts] Sc c(1) reach by (simp add: set_slp_def)
    ultimately have "g_clear_stack t M = Some (Ret ?M)"
      using loop Sc chain(1) cgs chained_nonzero [OF chain(1) cgs]
      by (auto simp: g_clear_stack_def t Cons first_of_def fun_upd_idem)
    moreover have "clears M gs t ?ts ?M ?gs'"
      unfolding clears_def
    proof (intro conjI)
      have other: "(slps ?M) g = slps M g" if "g \<in> set cs" for g
        using same [of g] that chain(2) Cons distinct_dropWhile [OF chain(2), of ?P] by auto
      have "chained (slps M) c ?gs'" using chained_dropWhile [OF chain(1), of ?P] by (simp add: Cons first_of_def)
      then show "chained (slps ?M) (g_stack_chain_head ?M) ?gs'"
        using chained_cong [of cs "slps ?M" "slps M"] other s by (simp add: Cons)
      obtain lo' where up: "above (slps M) lo' ?gs'" using above_dropWhile [OF chain(3)] by blast
      then have cs: "above (slps M) (stack_stop s) cs" using s by (simp add: Cons)
      then show "above (slps ?M) ?ts ?gs'"
        using above_cong [of cs "slps ?M" "slps M"] other c by (simp add: Cons)
      have "t \<noteq> c" using reach t s by auto
      moreover have "t \<notin> set cs"
      proof
        assume "t \<in> set cs"
        with above_floor [OF cs _ _ t] ok have "stack_stop s \<le> floor_of st" by blast
        with reach ok [OF t] show False by (simp add: slp_ok_def)
      qed
      ultimately show "set ?gs' \<subseteq> set gs - {t}" using set_dropWhileD [of _ ?P gs] Cons by force
      show "\<forall>g s. slps M g = Some s \<longrightarrow> (\<exists>s'. slps ?M g = Some s' \<and> slp_ok s' \<and> view ?m s' = view ?m s \<and>
        floor_of s \<le> floor_of s' \<and> (g \<notin> set ?gs' \<and> g \<noteq> t \<longrightarrow> floor_of s' = stack_stop s'))"
      proof (intro allI impI)
        fix g s' assume "slps M g = Some s'"
        then show "\<exists>s''. slps ?M g = Some s'' \<and> slp_ok s'' \<and> view ?m s'' = view ?m s' \<and>
          floor_of s' \<le> floor_of s'' \<and> (g \<notin> set ?gs' \<and> g \<noteq> t \<longrightarrow> floor_of s'' = stack_stop s'')"
          using views [of g s'] c s Cons by (cases "g = c") auto
      qed
      show "\<forall>g. slps M g = None \<longrightarrow> slps ?M g = None" using s by (auto simp: clear_map_def)
    qed (use distinct_dropWhile [OF chain(2)] in simp_all)
    ultimately show ?thesis by blast
  qed
qed

section \<open>The invariant, and a jump\<close>

definition chain_ok :: "machine \<Rightarrow> addr list \<Rightarrow> bool" where
  "chain_ok M gs \<longleftrightarrow> chained (slps M) (g_stack_chain_head M) gs \<and> distinct gs \<and>
     above (slps M) (g_current_stack_stop M) gs \<and> slps M 0 = None \<and>
     (\<forall>g s. slps M g = Some s \<longrightarrow> slp_ok s \<and> (g \<notin> set gs \<longrightarrow> floor_of s = stack_stop s))"

definition slp_wf :: "machine \<Rightarrow> bool" where
  "slp_wf M \<longleftrightarrow> (\<exists>gs. chain_ok M gs) \<and> length (regs M) = 6"

text \<open>The suspended stacks outside \<open>X\<close> are still there, with the same view.\<close>

definition kept :: "machine \<Rightarrow> addr set \<Rightarrow> machine \<Rightarrow> bool" where
  "kept M X M' \<longleftrightarrow> (\<forall>g s. g \<notin> X \<longrightarrow> slps M g = Some s \<longrightarrow>
     (\<exists>s'. slps M' g = Some s' \<and> view (mem M') s' = view (mem M) s))"

lemma kept_trans: "kept M X M1 \<Longrightarrow> kept M1 X M2 \<Longrightarrow> kept M X M2"
  unfolding kept_def by metis

lemma kept_mono: "kept M X M1 \<Longrightarrow> X \<subseteq> Y \<Longrightarrow> kept M Y M1"
  unfolding kept_def by blast

definition resumed :: "machine \<Rightarrow> stacklet_s \<Rightarrow> machine \<Rightarrow> bool" where
  "resumed M st M' \<longleftrightarrow> rsp M' = stack_start st \<and> regs M' = regs M \<and> g_source M' = g_source M \<and>
     g_current_stack_stop M' = stack_stop st \<and>
     fetch (mem M') (stack_start st) (stack_stop st - stack_start st) = stack_of (mem M) st"

text \<open>A memory that changes below all floors changes no view.\<close>

lemma chain_frame:
  assumes "above S lo gs" and "\<And>g s. S g = Some s \<Longrightarrow> slp_ok s \<and> (g \<notin> set gs \<longrightarrow> floor_of s = stack_stop s)"
    and "\<And>a. lo \<le> a \<Longrightarrow> m' a = m a" and "S g = Some s"
  shows "view m' s = view m s"
proof (rule view_frame)
  fix x assume x: "floor_of s \<le> x" "x < stack_stop s"
  show "m' x = m x"
  proof (cases "g \<in> set gs")
    case True
    with above_floor [OF assms(1) _ _ assms(4)] assms(2) have "lo \<le> floor_of s" by blast
    with x assms(3) show ?thesis by simp
  qed (use x assms(2) [OF assms(4)] in simp)
qed

lemma jump:
  assumes chain: "chained (slps M) (g_stack_chain_head M) gs" "distinct gs" "above (slps M) lo gs" "slps M 0 = None"
    and ok: "\<And>g s. slps M g = Some s \<Longrightarrow> slp_ok s \<and> (g \<notin> set gs \<longrightarrow> floor_of s = stack_stop s)"
    and t: "g_target M = t" "slps M t = Some st"
  shows "\<exists>M1 M2 gs'. rbind (g_clear_stack t M) target_start = Some (Ret (stack_start st, M1)) \<and>
    g_restore_state (stack_start st) (M1\<lparr>rsp := stack_start st\<rparr>) = Ret (EMPTY_HANDLE, M2) \<and>
    resumed M st M2 \<and> kept M {t} M2 \<and> chain_ok M2 gs'"
proof -
  let ?ts = "stack_stop st"
  obtain M1 gs' where M1: "g_clear_stack t M = Some (Ret M1)" and "clears M gs t ?ts M1 gs'"
    using g_clear_stack_clears [OF chain(1-3) ok t(2)] by blast
  then have eq: "M1 = M\<lparr>slps := slps M1, g_stack_chain_head := g_stack_chain_head M1\<rparr>"
    and c1: "chained (slps M1) (g_stack_chain_head M1) gs'" "distinct gs'" "t \<notin> set gs'" "above (slps M1) ?ts gs'"
    and gone: "\<forall>g. slps M g = None \<longrightarrow> slps M1 g = None"
    and views: "\<And>g s. slps M g = Some s \<Longrightarrow> \<exists>s'. slps M1 g = Some s' \<and> slp_ok s' \<and> view (mem M) s' = view (mem M) s \<and>
        (g \<notin> set gs' \<and> g \<noteq> t \<longrightarrow> floor_of s' = stack_stop s')"
    unfolding clears_def by blast+
  have m1: "mem M1 = mem M" "g_target M1 = t" "rsp M1 = rsp M" "regs M1 = regs M" "g_source M1 = g_source M"
    by (subst eq, simp add: t)+
  obtain t1 where t1: "slps M1 t = Some t1" "slp_ok t1" "view (mem M) t1 = view (mem M) st" using views [OF t(2)] by blast
  then have se: "stack_start t1 = stack_start st" "stack_stop t1 = ?ts" "stack_of (mem M) t1 = stack_of (mem M) st"
    by (simp_all add: view_def)
  let ?bs = "take (nat (stack_saved t1)) (stack_copy t1)"
  let ?m = "store (stack_start st) ?bs (mem M)"
  define M2 where "M2 = M1\<lparr>rsp := stack_start st, mem := ?m, g_current_stack_stop := ?ts, slps := (slps M1)(t := None)\<rparr>"
  have len: "length ?bs = nat (stack_saved t1)" "nat (stack_saved t1) \<le> length (stack_copy t1)"
    using t1(2) by (auto simp: slp_ok_def floor_of_def)
  then have "g_restore_state (stack_start st) (M1\<lparr>rsp := stack_start st\<rparr>) = Ret (EMPTY_HANDLE, M2)"
    using t1(1) se m1 by (simp add: g_restore_state_def M2_def)
  moreover have "rbind (g_clear_stack t M) target_start = Some (Ret (stack_start st, M1))"
    using M1 m1 t1(1) se by (simp add: target_start_def)
  moreover have "resumed M st M2"
  proof -
    have "stack_of (mem M) t1 = ?bs @ fetch ?m (floor_of t1) (?ts - floor_of t1)"
      unfolding stack_of_def se(2) by (auto intro!: fetch_cong simp: store_outside floor_of_def se len)
    also have "\<dots> = fetch ?m (stack_start st) (?ts - stack_start st)"
      using fetch_append [of ?m "stack_start st" "nat (stack_saved t1)" "?ts - floor_of t1"] t1(2)
        fetch_store [of "stack_start st" ?bs "mem M"] len
      by (simp add: floor_of_def slp_ok_def se)
    finally show ?thesis using se(3) m1 by (simp add: resumed_def M2_def)
  qed
  moreover have up: "above (slps M2) ?ts gs'"
    using c1(3,4) by (simp add: M2_def)
  have ok2: "slp_ok s \<and> (g \<notin> set gs' \<longrightarrow> floor_of s = stack_stop s)" if "slps M2 g = Some s" for g s
  proof -
    from that have g: "g \<noteq> t" "slps M1 g = Some s" by (auto simp: M2_def split: if_splits)
    with gone obtain s0 where "slps M g = Some s0" by (cases "slps M g") auto
    from views [OF this] g show ?thesis by auto
  qed
  moreover have "kept M {t} M2"
    unfolding kept_def
  proof (intro allI impI)
    fix g s assume g: "g \<notin> {t}" "slps M g = Some s"
    then obtain s' where s': "slps M1 g = Some s'" "view (mem M) s' = view (mem M) s" using views by blast
    have "view ?m s' = view (mem M) s'"
      by (rule chain_frame [OF up ok2]) (use s' g(1) len t1(2) se in \<open>auto simp: M2_def store_outside floor_of_def slp_ok_def\<close>)
    with s' g show "\<exists>s'. slps M2 g = Some s' \<and> view (mem M2) s' = view (mem M) s" by (auto simp: M2_def)
  qed
  moreover have "chain_ok M2 gs'"
    unfolding chain_ok_def
  proof (intro conjI)
    show "chained (slps M2) (g_stack_chain_head M2) gs'"
      using c1(1,3) by (simp add: M2_def)
    show "above (slps M2) (g_current_stack_stop M2) gs'" using up by (simp add: M2_def)
  qed (use c1(2) chain(4) gone ok2 in \<open>auto simp: M2_def\<close>)
  ultimately show ?thesis by blast
qed

end
