(* ===== verification/Stacklet_Run.thy ===== *)
theory Stacklet_Run
  imports Stacklet_Props
begin

text \<open>
  Runs of a thread: the code that runs changes its own stack, creates and resumes stacklets, ends or
  destroys one. Every step returns, and a stack that is resumed is as it was when it was suspended.
\<close>

section \<open>Steps\<close>

text \<open>
  \<open>Code\<close> is what the running stack does between two calls. \<open>New\<close> ends in the new stack, \<open>Switch\<close> and
  \<open>Finish\<close> (the end of a \<open>run\<close> function) in the target.
\<close>

datatype slp_op =
    Code "addr \<Rightarrow> stack_byte" addr "64 word list"
  | New addr block
  | Switch addr block addr
  | Finish addr
  | Destroy addr

fun slp_step :: "machine \<Rightarrow> slp_op \<Rightarrow> machine run" where
  "slp_step M (Code m r ws) = Some (Ret (M\<lparr>mem := m, rsp := r, regs := ws\<rparr>))"
| "slp_step M (New k b) = rbind (stacklet_new k b M) (\<lambda>(called, M). Some (Ret M))"
| "slp_step M (Switch k b t) = rbind (stacklet_switch k b t M) (\<lambda>(source, M). Some (Ret M))"
| "slp_step M (Finish t) = g_initialstub_end t M"
| "slp_step M (Destroy t) = stacklet_destroy t M"

text \<open>
  What the code may do: write below \<open>g_current_stack_stop\<close> (anywhere while no stacklet is partly in
  place), pass handles of suspended stacks, call with its own frame, which holds the marker, and
  with room for the registers. \<open>malloc\<close> answers \<open>NULL\<close> or a free address.
\<close>

definition on_stack :: "machine \<Rightarrow> addr \<Rightarrow> bool" where
  "on_stack M a \<longleftrightarrow> g_stack_chain_head M = 0 \<or> a < g_current_stack_stop M"

definition at_call :: "machine \<Rightarrow> addr \<Rightarrow> bool" where
  "at_call M k \<longleftrightarrow> 48 < rsp M \<and> rsp M \<le> k \<and> on_stack M k"

fun slp_legal :: "machine \<Rightarrow> slp_op \<Rightarrow> bool" where
  "slp_legal M (Code m r ws) \<longleftrightarrow> length ws = 6 \<and> (\<forall>a. \<not> on_stack M a \<longrightarrow> m a = mem M a)"
| "slp_legal M (New k b) \<longleftrightarrow> at_call M k \<and> slps M (fst b) = None"
| "slp_legal M (Switch k b t) \<longleftrightarrow> at_call M k \<and> slps M (fst b) = None \<and> slps M t \<noteq> None"
| "slp_legal M (Finish t) \<longleftrightarrow> 48 < rsp M \<and> on_stack M (rsp M - 1) \<and> slps M t \<noteq> None"
| "slp_legal M (Destroy t) \<longleftrightarrow> slps M t \<noteq> None"

section \<open>Parts of a switch\<close>

lemma stop_above_simps [simp]:
  "slps (stop_above k M) = slps M" "mem (stop_above k M) = mem M" "rsp (stop_above k M) = rsp M"
  "regs (stop_above k M) = regs M" "g_source (stop_above k M) = g_source M" "g_target (stop_above k M) = g_target M"
  "g_stack_chain_head (stop_above k M) = g_stack_chain_head M"
  by (simp_all add: stop_above_def)

lemma push_simps [simp]:
  "slps (push w M) = slps M" "regs (push w M) = regs M" "rsp (push w M) = rsp M - 8"
  "g_source (push w M) = g_source M" "g_target (push w M) = g_target M"
  "g_stack_chain_head (push w M) = g_stack_chain_head M" "g_current_stack_stop (push w M) = g_current_stack_stop M"
  "g_current_stack_marker (push w M) = g_current_stack_marker M"
  by (simp_all add: push_def)

lemma pushes_simps [simp]:
  "slps (fold push ws M) = slps M" "regs (fold push ws M) = regs M" "rsp (fold push ws M) = rsp M - 8 * length ws"
  "g_source (fold push ws M) = g_source M" "g_target (fold push ws M) = g_target M"
  "g_stack_chain_head (fold push ws M) = g_stack_chain_head M"
  "g_current_stack_stop (fold push ws M) = g_current_stack_stop M"
  "g_current_stack_marker (fold push ws M) = g_current_stack_marker M"
  by (induction ws arbitrary: M) simp_all

lemma chain_ok_pushes [simp]: "chain_ok (fold push ws M) gs = chain_ok M gs"
  by (simp add: chain_ok_def)

lemma chain_ok_simps [simp]:
  "chain_ok (M\<lparr>rsp := r\<rparr>) gs = chain_ok M gs" "chain_ok (M\<lparr>regs := ws\<rparr>) gs = chain_ok M gs"
  "chain_ok (M\<lparr>mem := m\<rparr>) gs = chain_ok M gs" "chain_ok (M\<lparr>g_source := a\<rparr>) gs = chain_ok M gs"
  "chain_ok (M\<lparr>g_target := a\<rparr>) gs = chain_ok M gs" "chain_ok (M\<lparr>g_current_stack_marker := a\<rparr>) gs = chain_ok M gs"
  by (simp_all add: chain_ok_def)

lemma kept_same: "slps M' = slps M \<Longrightarrow> mem M' = mem M \<Longrightarrow> kept M X M'"
  by (simp add: kept_def)

lemma chain_ok_nil: "chain_ok M gs \<Longrightarrow> g_stack_chain_head M = 0 \<longleftrightarrow> gs = []"
  by (cases gs) (auto simp: chain_ok_def)

lemma pop_regs_frame: "\<exists>ws. length ws = n \<and> pop_regs n vs M = M\<lparr>rsp := rsp M + 8 * n, regs := ws @ vs\<rparr>"
proof (induction n arbitrary: vs M)
  case (Suc n)
  let ?w = "of_le64 (fetch (mem M) (rsp M) 8)"
  obtain ws where "length ws = n" and
    "pop_regs n (?w # vs) (M\<lparr>rsp := rsp M + 8\<rparr>) = M\<lparr>rsp := rsp M + 8 + 8 * n, regs := ws @ ?w # vs\<rparr>"
    using Suc.IH [of "?w # vs" "M\<lparr>rsp := rsp M + 8\<rparr>"] by auto
  then show ?case by (intro exI [of _ "ws @ [?w]"]) (simp add: pop_def add.commute add.left_commute)
qed simp

text \<open>The code of a legal operation changes no suspended stack.\<close>

lemma code_keeps:
  assumes "chain_ok M gs" and "\<And>a. \<not> on_stack M a \<Longrightarrow> m a = mem M a" and "slps M' = slps M" and "mem M' = m"
  shows "kept M X M'"
proof -
  have "view m s = view (mem M) s" if "slps M g = Some s" for g s
  proof (cases "gs = []")
    case True
    then have "floor_of s = stack_stop s" using assms(1) that by (simp add: chain_ok_def)
    then show ?thesis by (auto intro: view_frame)
  next
    case False
    then have "g_stack_chain_head M \<noteq> 0" using chain_ok_nil [OF assms(1)] by simp
    then have high: "m a = mem M a" if "g_current_stack_stop M \<le> a" for a
      using assms(2) [of a] that by (simp add: on_stack_def)
    show ?thesis
      by (rule chain_frame [of "slps M" "g_current_stack_stop M" gs]) (use assms(1) that high in \<open>auto simp: chain_ok_def\<close>)
  qed
  then show ?thesis using assms(3,4) by (auto simp: kept_def)
qed

lemma pushed:
  assumes "chain_ok M gs" and "length (regs M) = 6" and "48 < rsp M" and "on_stack M (rsp M - 1)"
  shows "kept M X (fold push (regs M) M)"
    and "fetch (mem (fold push (regs M) M)) (rsp M - 48) 48 = concat (map le64 (rev (regs M)))"
    and "\<And>a. a < rsp M - 48 \<or> rsp M \<le> a \<Longrightarrow> mem (fold push (regs M) M) a = mem M a"
proof -
  let ?P = "fold push (regs M) M"
  have P: "fetch (mem ?P) (rsp M - 48) 48 = concat (map le64 (rev (regs M)))"
    "\<forall>a. a < rsp M - 48 \<or> rsp M \<le> a \<longrightarrow> mem ?P a = mem M a"
    using pushes [of "regs M" M] assms(2,3) by simp_all
  show "fetch (mem ?P) (rsp M - 48) 48 = concat (map le64 (rev (regs M)))" by (rule P(1))
  show "mem ?P a = mem M a" if "a < rsp M - 48 \<or> rsp M \<le> a" for a using P(2) that by blast
  show "kept M X ?P"
    by (rule code_keeps [OF assms(1) _ _ refl]) (use P(2) assms(3,4) in \<open>auto simp: on_stack_def\<close>)
qed

lemma stop_above:
  assumes "chain_ok M gs" and "on_stack M k"
  shows "chain_ok (stop_above k M) gs" and "k < g_current_stack_stop (stop_above k M)"
proof -
  show "chain_ok (stop_above k M) gs"
    using assms chain_ok_nil [OF assms(1)] by (auto simp: stop_above_def on_stack_def chain_ok_def)
qed (simp_all add: stop_above_def)

lemma allocated:
  assumes "chain_ok M gs" and "slps M a = None" and "a \<noteq> 0" and "0 < p" and "p + 48 \<le> g_current_stack_stop M"
  obtains M' s where "g_allocate_source_stacklet (a, j) p M = (0, M')"
    and "M' = M\<lparr>g_source := a, slps := (slps M)(a \<mapsto> s), g_stack_chain_head := a\<rparr>"
    and "view (mem M) s = (p, g_current_stack_stop M, fetch (mem M) p (g_current_stack_stop M - p))"
    and "stack_saved s = 0" and "slp_ok s" and "chained (slps M') a (a # gs)" and "distinct (a # gs)"
    and "above (slps M') p (a # gs)" and "slps M' 0 = None"
    and "\<And>g s. slps M' g = Some s \<Longrightarrow> slp_ok s \<and> (g \<notin> set (a # gs) \<longrightarrow> floor_of s = stack_stop s)"
proof -
  let ?s = "\<lparr>stack_start = p, stack_stop = g_current_stack_stop M, stack_saved = 0, stack_prev = g_stack_chain_head M,
    stack_copy = map j [0 ..< nat (int (g_current_stack_stop M) - int p)]\<rparr>"
  let ?M = "M\<lparr>g_source := a, slps := (slps M)(a \<mapsto> ?s), g_stack_chain_head := a\<rparr>"
  have a: "a \<notin> set gs" using assms(1,2) chained_Some by (fastforce simp: chain_ok_def)
  have s: "slp_ok ?s" using assms(4,5) by (auto simp: slp_ok_def floor_of_def)
  show thesis
  proof (rule that [of ?M ?s])
    show "g_allocate_source_stacklet (a, j) p M = (0, ?M)"
      using assms(3) by (simp add: g_allocate_source_stacklet_def set_slp_def)
    show "chained (slps ?M) a (a # gs)" "above (slps ?M) p (a # gs)" "distinct (a # gs)" "slps ?M 0 = None"
      using assms(1,3) a by (simp_all add: chain_ok_def floor_of_def)
    show "slp_ok s' \<and> (g \<notin> set (a # gs) \<longrightarrow> floor_of s' = stack_stop s')" if "slps ?M g = Some s'" for g s'
      using that s assms(1) by (auto simp: chain_ok_def split: if_splits)
  qed (use s in \<open>simp_all add: view_def stack_of_def floor_of_def\<close>)
qed

text \<open>What a stack that is suspended with its marker at \<open>k\<close> will be resumed with.\<close>

definition frozen :: "addr \<Rightarrow> machine \<Rightarrow> addr \<times> addr \<times> stack_byte list" where
  "frozen k M = (let stop = g_current_stack_stop (stop_above k M)
     in (rsp M - 48, stop, fetch (mem (fold push (regs M) M)) (rsp M - 48) (stop - (rsp M - 48))))"

definition resumed_as :: "machine \<Rightarrow> addr \<times> addr \<times> stack_byte list \<Rightarrow> addr \<Rightarrow> bool" where
  "resumed_as M v source \<longleftrightarrow> (\<exists>M'. M = pop_regs 6 [] M' \<and> g_source M = source \<and> rsp M' = fst v \<and>
     g_current_stack_stop M = fst (snd v) \<and> fetch (mem M) (fst v) (fst (snd v) - fst v) = snd (snd v))"

lemma push_cong: "mem M = mem M' \<Longrightarrow> rsp M = rsp M' \<Longrightarrow> mem (fold push ws M) = mem (fold push ws M')"
proof (induction ws arbitrary: M M')
  case (Cons w ws)
  show ?case using Cons.IH [of "push w M" "push w M'"] Cons.prems by (simp add: push_def [of w])
qed simp

lemma pop_regs_keeps:
  "chain_ok (pop_regs n vs M) gs = chain_ok M gs" "length (regs (pop_regs n vs M)) = n + length vs"
  "mem (pop_regs n vs M) = mem M" "slps (pop_regs n vs M) = slps M" "g_source (pop_regs n vs M) = g_source M"
  "g_current_stack_stop (pop_regs n vs M) = g_current_stack_stop M"
  using pop_regs_frame [of n vs M] by auto

text \<open>A jump to \<open>t\<close> as the last part of \<open>slp_switch\<close>.\<close>

lemma jump_pops:
  assumes "chained (slps M) (g_stack_chain_head M) gs" "distinct gs" "above (slps M) lo gs" "slps M 0 = None"
    and "\<And>g s. slps M g = Some s \<Longrightarrow> slp_ok s \<and> (g \<notin> set gs \<longrightarrow> floor_of s = stack_stop s)"
    and "g_target M = t" "slps M t = Some st"
  shows "\<exists>M'. rbind (rbind (g_clear_stack t M) target_start) (\<lambda>(rax, M).
         if rax = 0 then Some (Ret (0, pop_regs 6 [] M))
         else rbind (Some (g_restore_state rax (M\<lparr>rsp := rax\<rparr>))) (\<lambda>(rax, M). Some (Ret (rax, pop_regs 6 [] M)))) =
       Some (Ret (EMPTY_HANDLE, M')) \<and>
     resumed_as M' (view (mem M) st) (g_source M) \<and> kept M {t} M' \<and> slp_wf M'"
proof -
  obtain M1 M2 gs' where j: "rbind (g_clear_stack t M) target_start = Some (Ret (stack_start st, M1))"
      "g_restore_state (stack_start st) (M1\<lparr>rsp := stack_start st\<rparr>) = Ret (EMPTY_HANDLE, M2)"
      "resumed M st M2" "kept M {t} M2" "chain_ok M2 gs'"
    using jump [OF assms] by blast
  let ?M = "pop_regs 6 [] M2"
  have "stack_start st \<noteq> 0" using assms(5) [OF assms(7)] by (simp add: slp_ok_def)
  moreover have "resumed_as ?M (view (mem M) st) (g_source M)"
    using j(3) unfolding resumed_as_def by (intro exI [of _ M2]) (simp add: resumed_def view_def pop_regs_keeps)
  moreover have "kept M {t} ?M" using j(4) by (simp add: kept_def pop_regs_keeps)
  moreover have "slp_wf ?M" using j(5) by (auto simp: slp_wf_def pop_regs_keeps)
  ultimately show ?thesis using j(1,2) by (intro exI [of _ ?M]) simp
qed

text \<open>A switch for which there is no memory changes no registers.\<close>

lemma pop_pushed:
  assumes "length (regs M) = 6" and "48 < rsp M" and "mem M' = mem (fold push (regs M) M)" and "rsp M' = rsp M - 48"
  shows "pop_regs 6 [] M' = M'\<lparr>rsp := rsp M, regs := regs M\<rparr>"
  using pops [of M' "rev (regs M)" "[]"] pushes [of "regs M" M] assms by simp

section \<open>The operations\<close>

lemma fresh_mem: "kept M {} M' \<Longrightarrow> slps M g = Some s \<Longrightarrow> slps M' = slps M \<Longrightarrow> view (mem M') s = view (mem M) s"
  by (fastforce simp: kept_def)

text \<open>The state in which \<open>save_state\<close> is called, with the marker of the caller at \<open>k\<close>.\<close>

lemma before_save:
  assumes "chain_ok M gs" and "length (regs M) = 6" and "at_call M k"
    and M0: "M0 = (stop_above k M)\<lparr>g_target := t, g_current_stack_marker := c\<rparr>"
  shows "chain_ok (fold push (regs M) M0) gs" and "kept M X (fold push (regs M) M0)"
    and "k < g_current_stack_stop M0"
    and "frozen k M = (rsp M - 48, g_current_stack_stop M0, fetch (mem (fold push (regs M) M0)) (rsp M - 48) (g_current_stack_stop M0 - (rsp M - 48)))"
proof -
  have k: "48 < rsp M" "rsp M \<le> k" "on_stack M k" using assms(3) by (simp_all add: at_call_def)
  show stop: "k < g_current_stack_stop M0" using stop_above(2) [OF assms(1) k(3)] by (simp add: M0)
  have ok: "chain_ok M0 gs" using stop_above(1) [OF assms(1) k(3)] by (simp add: M0)
  then show "chain_ok (fold push (regs M) M0) gs" by simp
  have "48 < rsp M0" "on_stack M0 (rsp M0 - 1)" "length (regs M0) = 6"
    using k stop assms(2) by (auto simp: on_stack_def M0)
  note P = pushed(1) [OF ok this(3,1,2)]
  have "kept M X M0" by (rule kept_same) (simp_all add: M0)
  moreover have "regs M0 = regs M" by (simp add: M0)
  ultimately show "kept M X (fold push (regs M) M0)" using P [of X] by (metis kept_trans)
  show "frozen k M = (rsp M - 48, g_current_stack_stop M0, fetch (mem (fold push (regs M) M0)) (rsp M - 48) (g_current_stack_stop M0 - (rsp M - 48)))"
    using push_cong [of M M0 "regs M"] by (simp add: frozen_def Let_def M0)
qed

lemma switch_step:
  assumes wf: "slp_wf M" and legal: "slp_legal M (Switch k b t)" and t: "slps M t = Some st"
  shows "\<exists>M'. slp_step M (Switch k b t) = Some (Ret M') \<and> slp_wf M' \<and> kept M {t} M' \<and>
    (if fst b = 0 then rsp M' = rsp M \<and> regs M' = regs M \<and> g_source M' = 0 \<and> slps M' = slps M
     else resumed_as M' (view (mem M) st) (fst b) \<and> (\<exists>s. slps M' (fst b) = Some s \<and> view (mem M') s = frozen k M))"
proof -
  obtain gs where ok: "chain_ok M gs" and r: "length (regs M) = 6" using wf by (auto simp: slp_wf_def)
  define M0 where "M0 = (stop_above k M)\<lparr>g_target := t\<rparr>"
  define P where "P = fold push (regs M) M0"
  have M0: "M0 = (stop_above k M)\<lparr>g_target := t, g_current_stack_marker := g_current_stack_marker M0\<rparr>" by (simp add: M0_def)
  have call: "at_call M k" using legal by simp
  note P = before_save [OF ok r call M0, folded P_def]
  have k: "48 < rsp M" "rsp M \<le> k" using call by (simp_all add: at_call_def)
  obtain a j where b: "b = (a, j)" by (cases b)
  have fresh: "slps P a = None" "slps P t = Some st" "g_target P = t" "a \<noteq> t" "rsp P = rsp M - 48" "regs P = regs M"
      "g_current_stack_stop P = g_current_stack_stop M0" "slps P = slps M"
    using legal t b r by (auto simp: P_def M0_def)
  have step: "rbind (stacklet_switch k b t M) (\<lambda>(source, M). Some (Ret M)) = rbind (slp_switch (g_save_state b) g_restore_state M0) (\<lambda>(r, M). Some (Ret M))"
    by (simp add: stacklet_switch_def M0_def rbind_def split: option.split outcome.split)
  have sw: "slp_switch (g_save_state b) g_restore_state M0 = rbind (g_save_state b (rsp P) P) (\<lambda>(rax, M).
           if rax = 0 then Some (Ret (0, pop_regs 6 [] M))
           else rbind (Some (g_restore_state rax (M\<lparr>rsp := rax\<rparr>))) (\<lambda>(rax, M). Some (Ret (rax, pop_regs 6 [] M))))"
    by (simp add: slp_switch_def Let_def P_def M0_def)
  show ?thesis
  proof (cases "a = 0")
    case True
    let ?M = "P\<lparr>g_source := 0, rsp := rsp M, regs := regs M\<rparr>"
    have "g_save_state b (rsp P) P = Some (Ret (0, P\<lparr>g_source := 0\<rparr>))"
      by (simp add: g_save_state_def g_allocate_source_stacklet_def b True)
    moreover have "pop_regs 6 [] (P\<lparr>g_source := 0\<rparr>) = ?M"
      using pop_pushed [of M0 "P\<lparr>g_source := 0\<rparr>"] r k fresh(5) by (simp add: M0_def P_def)
    ultimately have "slp_step M (Switch k b t) = Some (Ret ?M)" by (simp add: step sw)
    moreover have "slp_wf ?M" using P(1) r by (auto simp: slp_wf_def)
    moreover have "kept M {t} ?M" using P(2) [of "{t}"] by (simp add: kept_def)
    ultimately show ?thesis using True b fresh(8) by (intro exI [of _ ?M]) simp
  next
    case False
    have room: "0 < rsp M - 48" "rsp M - 48 + 48 \<le> g_current_stack_stop P" using k P(3) fresh(7) by simp_all
    obtain M1 s where M1: "g_allocate_source_stacklet (a, j) (rsp M - 48) P = (0, M1)"
      and eq: "M1 = P\<lparr>g_source := a, slps := (slps P)(a \<mapsto> s), g_stack_chain_head := a\<rparr>"
      and s: "view (mem P) s = (rsp M - 48, g_current_stack_stop P, fetch (mem P) (rsp M - 48) (g_current_stack_stop P - (rsp M - 48)))"
      and c: "chained (slps M1) a (a # gs)" "distinct (a # gs)" "above (slps M1) (rsp M - 48) (a # gs)" "slps M1 0 = None"
      and oks: "\<And>g s. slps M1 g = Some s \<Longrightarrow> slp_ok s \<and> (g \<notin> set (a # gs) \<longrightarrow> floor_of s = stack_stop s)"
      using allocated [OF P(1) fresh(1) False room] by metis
    have m1: "g_stack_chain_head M1 = a" "g_target M1 = t" "slps M1 t = Some st" "mem M1 = mem P" "g_source M1 = a"
        "slps M1 a = Some s"
      using fresh by (simp_all add: eq)
    obtain M2 where jp: "rbind (rbind (g_clear_stack t M1) target_start) (\<lambda>(rax, M).
         if rax = 0 then Some (Ret (0, pop_regs 6 [] M))
         else rbind (Some (g_restore_state rax (M\<lparr>rsp := rax\<rparr>))) (\<lambda>(rax, M). Some (Ret (rax, pop_regs 6 [] M)))) =
       Some (Ret (EMPTY_HANDLE, M2))" "resumed_as M2 (view (mem M1) st) (g_source M1)" "kept M1 {t} M2" "slp_wf M2"
      using jump_pops [OF _ c(2-4) oks m1(2,3)] c(1) m1(1) by metis
    have "slp_step M (Switch k b t) = Some (Ret M2)"
      unfolding slp_step.simps step sw using jp(1) by (simp add: g_save_state_def b fresh(3,5) M1 m1(2))
    moreover have "kept M {t} M2"
    proof (rule kept_trans [OF _ jp(3)])
      show "kept M {t} M1" using P(2) [of "{t}"] legal b by (auto simp: kept_def eq fresh(8))
    qed
    moreover have "resumed_as M2 (view (mem M) st) a"
      using jp(2) m1(4,5) fresh_mem [OF P(2) t fresh(8)] by simp
    moreover have "\<exists>s. slps M2 a = Some s \<and> view (mem M2) s = frozen k M"
      using jp(3) m1(4,6) s fresh(4,7) P(4) by (fastforce simp: kept_def)
    ultimately show ?thesis using False b jp(4) by (intro exI [of _ M2]) simp
  qed
qed

lemma new_step:
  assumes wf: "slp_wf M" and legal: "slp_legal M (New k b)"
  shows "\<exists>M'. slp_step M (New k b) = Some (Ret M') \<and> slp_wf M' \<and> kept M {} M' \<and> rsp M' = rsp M \<and> regs M' = regs M \<and>
    (if fst b = 0 then g_source M' = 0 \<and> slps M' = slps M
     else g_source M' = fst b \<and> g_current_stack_stop M' = k \<and> g_stack_chain_head M' = fst b \<and>
       (\<exists>s. slps M' (fst b) = Some s \<and> view (mem M') s = frozen k M))"
proof -
  obtain gs where ok: "chain_ok M gs" and r: "length (regs M) = 6" using wf by (auto simp: slp_wf_def)
  define M0 where "M0 = (stop_above k M)\<lparr>g_current_stack_marker := k\<rparr>"
  define P where "P = fold push (regs M) M0"
  have M0: "M0 = (stop_above k M)\<lparr>g_target := g_target M0, g_current_stack_marker := k\<rparr>" by (simp add: M0_def)
  have call: "at_call M k" using legal by simp
  note P = before_save [OF ok r call M0, folded P_def]
  have k: "48 < rsp M" "rsp M \<le> k" using call by (simp_all add: at_call_def)
  obtain a j where b: "b = (a, j)" by (cases b)
  have fresh: "slps P a = None" "g_current_stack_marker P = k" "rsp P = rsp M - 48" "regs P = regs M"
      "g_current_stack_stop P = g_current_stack_stop M0" "slps P = slps M"
    using legal b r by (auto simp: P_def M0_def)
  have sw: "rbind (stacklet_new k b M) (\<lambda>(called, M). Some (Ret M)) =
      Some (Ret (if g_source M2 \<noteq> 0 then (pop_regs 6 [] M2)\<lparr>g_current_stack_stop := g_current_stack_marker (pop_regs 6 [] M2)\<rparr>
                 else pop_regs 6 [] M2))" if "g_initial_save_state b (rsp P) P = Some (Ret (0, M2))" for M2
  proof -
    have "slp_switch (g_initial_save_state b) g_restore_state M0 = Some (Ret (0, pop_regs 6 [] M2))"
      using that by (simp add: slp_switch_def Let_def P_def M0_def)
    moreover have "stacklet_new k b M = g_initialstub b M0" using k by (simp add: stacklet_new_def M0_def)
    ultimately show ?thesis by (simp add: g_initialstub_def pop_regs_keeps)
  qed
  show ?thesis
  proof (cases "a = 0")
    case True
    let ?M = "P\<lparr>g_source := 0, rsp := rsp M, regs := regs M\<rparr>"
    have "g_initial_save_state b (rsp P) P = Some (Ret (0, P\<lparr>g_source := 0\<rparr>))"
      by (simp add: g_initial_save_state_def g_allocate_source_stacklet_def b True)
    moreover have "pop_regs 6 [] (P\<lparr>g_source := 0\<rparr>) = ?M"
      using pop_pushed [of M0 "P\<lparr>g_source := 0\<rparr>"] r k fresh(3) by (simp add: M0_def P_def)
    ultimately have "slp_step M (New k b) = Some (Ret ?M)" by (simp add: sw)
    moreover have "slp_wf ?M" using P(1) r by (auto simp: slp_wf_def)
    moreover have "kept M {} ?M" using P(2) [of "{}"] by (simp add: kept_def)
    ultimately show ?thesis using True b fresh(6) by (intro exI [of _ ?M]) simp
  next
    case False
    have room: "0 < rsp M - 48" "rsp M - 48 + 48 \<le> g_current_stack_stop P" using k P(3) fresh(5) by simp_all
    obtain M1 s where M1: "g_allocate_source_stacklet (a, j) (rsp M - 48) P = (0, M1)"
      and eq: "M1 = P\<lparr>g_source := a, slps := (slps P)(a \<mapsto> s), g_stack_chain_head := a\<rparr>"
      and s: "view (mem P) s = (rsp M - 48, g_current_stack_stop P, fetch (mem P) (rsp M - 48) (g_current_stack_stop P - (rsp M - 48)))"
      and sok: "slp_ok s" "stack_saved s = 0"
      and c: "chained (slps M1) a (a # gs)" "distinct (a # gs)" "above (slps M1) (rsp M - 48) (a # gs)" "slps M1 0 = None"
      and oks: "\<And>g s. slps M1 g = Some s \<Longrightarrow> slp_ok s \<and> (g \<notin> set (a # gs) \<longrightarrow> floor_of s = stack_stop s)"
      using allocated [OF P(1) fresh(1) False room] by metis
    let ?s = "saved_to k (mem P) s"
    let ?M = "P\<lparr>g_source := a, slps := (slps P)(a \<mapsto> ?s), g_stack_chain_head := a, rsp := rsp M, regs := regs M,
      g_current_stack_stop := k\<rparr>"
    have stop: "stack_start s = rsp M - 48" "stack_stop s = g_current_stack_stop P" using s by (simp_all add: view_def)
    then have low: "k \<le> stack_stop s" using P(3) fresh(5) by simp
    have fl: "floor_of ?s = k" using saved_to_floor [OF sok(1), of k "mem P"] sok(2) stop(1) k by (simp add: floor_of_def)
    have "g_save a k M1 = Ret (set_slp a ?s M1)"
      using g_save_saved_to [of M1 a s k] sok(1) low by (simp add: eq)
    then have "g_initial_save_state b (rsp P) P = Some (Ret (0, set_slp a ?s M1))"
      using fresh by (simp add: g_initial_save_state_def b M1) (simp add: eq fresh(2))
    moreover have "pop_regs 6 [] (set_slp a ?s M1) = (set_slp a ?s M1)\<lparr>rsp := rsp M, regs := regs M\<rparr>"
      using pop_pushed [of M0 "set_slp a ?s M1"] r k fresh(3) by (simp add: M0_def P_def eq set_slp_def)
    ultimately have "slp_step M (New k b) = Some (Ret ?M)"
      using False fresh(2) by (simp add: sw) (simp add: eq set_slp_def)
    moreover have "chain_ok ?M (a # gs)"
      using c P(1) saved_to_ok [OF sok(1) low, of "mem P"] False fl by (auto simp: chain_ok_def eq split: if_splits)
    moreover have "kept M {} ?M" using P(2) [of "{}"] legal b by (auto simp: kept_def fresh(6))
    moreover have "view (mem P) ?s = frozen k M"
      using s saved_to_view [OF sok(1) low, of "mem P"] P(4) fresh(5) by simp
    ultimately show ?thesis using False b r by (intro exI [of _ ?M]) (auto simp: slp_wf_def)
  qed
qed

lemma finish_step:
  assumes wf: "slp_wf M" and legal: "slp_legal M (Finish t)" and t: "slps M t = Some st"
  shows "\<exists>M'. slp_step M (Finish t) = Some (Ret M') \<and> slp_wf M' \<and> kept M {t} M' \<and>
    resumed_as M' (view (mem M) st) EMPTY_HANDLE"
proof -
  obtain gs where ok: "chain_ok M gs" and r: "length (regs M) = 6" using wf by (auto simp: slp_wf_def)
  define M0 where "M0 = M\<lparr>g_target := t\<rparr>"
  define P where "P = (fold push (regs M) M0)\<lparr>g_source := EMPTY_HANDLE\<rparr>"
  have M0: "chain_ok M0 gs" "length (regs M0) = 6" "48 < rsp M0" "on_stack M0 (rsp M0 - 1)" "regs M0 = regs M"
    using ok r legal by (simp_all add: M0_def on_stack_def)
  have P: "chain_ok P gs" "slps P = slps M" "g_target P = t" "g_source P = EMPTY_HANDLE" using M0 by (simp_all add: P_def M0_def)
  have keep: "kept M X P" for X
    using pushed(1) [OF M0(1-4), of X] by (simp add: kept_def P_def M0_def)
  obtain M2 where jp: "rbind (rbind (g_clear_stack t P) target_start) (\<lambda>(rax, M).
         if rax = 0 then Some (Ret (0, pop_regs 6 [] M))
         else rbind (Some (g_restore_state rax (M\<lparr>rsp := rax\<rparr>))) (\<lambda>(rax, M). Some (Ret (rax, pop_regs 6 [] M)))) =
       Some (Ret (EMPTY_HANDLE, M2))" "resumed_as M2 (view (mem P) st) (g_source P)" "kept P {t} M2" "slp_wf M2"
    using jump_pops [of P gs "g_current_stack_stop P" t st] P t by (auto simp: chain_ok_def)
  have "slp_switch g_destroy_state g_restore_state M0 = Some (Ret (EMPTY_HANDLE, M2))"
    using jp(1) P(3) unfolding slp_switch_def Let_def g_destroy_state_def M0(5)
    by (simp add: P_def M0_def)
  then have "slp_step M (Finish t) = Some (Ret M2)" by (simp add: g_initialstub_end_def M0_def EMPTY_HANDLE_def)
  moreover have "view (mem P) st = view (mem M) st" by (rule fresh_mem [OF keep t P(2)])
  ultimately show ?thesis using jp(2-4) P(4) kept_trans [OF keep jp(3)] by (intro exI [of _ M2]) simp
qed

text \<open>\<open>stacklet_destroy\<close> relinks the chain; only \<open>stack_prev\<close> changes.\<close>

definition prev_only :: "(addr \<Rightarrow> stacklet_s option) \<Rightarrow> (addr \<Rightarrow> stacklet_s option) \<Rightarrow> bool" where
  "prev_only S S' \<longleftrightarrow> (\<forall>g. S' g = S g \<or> (\<exists>s q. S g = Some s \<and> S' g = Some (s\<lparr>stack_prev := q\<rparr>)))"

lemma prev_only_Some:
  assumes "prev_only S S'"
  shows "S g = Some s \<Longrightarrow> \<exists>q. S' g = Some (s\<lparr>stack_prev := q\<rparr>)"
    and "S' g = Some s' \<Longrightarrow> \<exists>s. S g = Some s \<and> s' = s\<lparr>stack_prev := stack_prev s'\<rparr>"
proof -
  have same: "s\<lparr>stack_prev := stack_prev s\<rparr> = s" for s :: stacklet_s by (cases s) simp
  show "S g = Some s \<Longrightarrow> \<exists>q. S' g = Some (s\<lparr>stack_prev := q\<rparr>)"
    using assms same [of s] unfolding prev_only_def by (metis option.inject)
  show "S' g = Some s' \<Longrightarrow> \<exists>s. S g = Some s \<and> s' = s\<lparr>stack_prev := stack_prev s'\<rparr>"
    using assms same [of s'] unfolding prev_only_def by (fastforce dest: spec [of _ g])
qed

lemma above_prev: "prev_only S S' \<Longrightarrow> above S lo gs \<Longrightarrow> above S' lo gs"
proof (induction gs arbitrary: lo)
  case (Cons g gs)
  from Cons.prems(2) obtain s where s: "S g = Some s" "lo \<le> floor_of s" "above S (stack_stop s) gs" by auto
  obtain q where "S' g = Some (s\<lparr>stack_prev := q\<rparr>)" using prev_only_Some(1) [OF Cons.prems(1) s(1)] by blast
  with s Cons.IH [OF Cons.prems(1) s(3)] show ?case by simp
qed simp

lemma above_remove1:
  assumes "above S lo gs" and "\<And>g s. S g = Some s \<Longrightarrow> slp_ok s"
  shows "above S lo (remove1 t gs)"
  using assms(1)
proof (induction gs arbitrary: lo)
  case (Cons g gs)
  then obtain s where s: "S g = Some s" "lo \<le> floor_of s" "above S (stack_stop s) gs" by auto
  moreover have "lo \<le> stack_stop s" using s(2) assms(2) [OF s(1)] by (simp add: slp_ok_def)
  ultimately show ?case using Cons.IH [OF s(3)] above_lower by auto
qed simp

lemma unlink_after:
  assumes "slps M p = Some sp" and "chained (slps M) (stack_prev sp) gs" and "distinct (p # gs)" and "p \<noteq> t" and "p \<noteq> 0"
  shows "\<exists>S'. unlink_loop t (Some p) (stack_prev sp) M = Some (Ret (M\<lparr>slps := S'\<rparr>)) \<and>
    chained S' p (p # remove1 t gs) \<and> prev_only (slps M) S' \<and> (\<forall>g. g \<notin> set (p # gs) \<longrightarrow> S' g = slps M g)"
  using assms
proof (induction gs arbitrary: p sp)
  case Nil
  have "unlink_loop t (Some p) (stack_prev sp) M = Some (Ret M)" using Nil.prems(2) by (subst unlink_loop.simps) simp
  with Nil.prems show ?case by (intro exI [of _ "slps M"]) (simp add: prev_only_def)
next
  case (Cons c cs)
  then obtain sc where c: "stack_prev sp = c" "c \<noteq> 0" "slps M c = Some sc" "chained (slps M) (stack_prev sc) cs" by auto
  show ?case
  proof (cases "c = t")
    case True
    define S where "S = (slps M)(p \<mapsto> sp\<lparr>stack_prev := stack_prev sc\<rparr>)"
    have "unlink_loop t (Some p) (stack_prev sp) M = Some (Ret (M\<lparr>slps := S\<rparr>))"
      using c True Cons.prems(1) by (subst unlink_loop.simps) (simp add: set_slp_def S_def)
    moreover have "prev_only (slps M) S" using Cons.prems(1) by (auto simp: prev_only_def S_def)
    moreover have "chained S p (p # remove1 t (c # cs))" using c True Cons.prems(3,5) by (simp add: S_def)
    moreover have "\<forall>g. g \<notin> set (p # c # cs) \<longrightarrow> S g = slps M g" by (simp add: S_def)
    ultimately show ?thesis by blast
  next
    case False
    obtain S' where S': "unlink_loop t (Some c) (stack_prev sc) M = Some (Ret (M\<lparr>slps := S'\<rparr>))"
        "chained S' c (c # remove1 t cs)" "prev_only (slps M) S'" "\<forall>g. g \<notin> set (c # cs) \<longrightarrow> S' g = slps M g"
      using Cons.IH [OF c(3,4) _ False c(2)] Cons.prems(3) by auto
    have "unlink_loop t (Some p) (stack_prev sp) M = unlink_loop t (Some c) (stack_prev sc) M"
      using c False by (subst unlink_loop.simps) simp
    moreover have "S' p = Some sp" using S'(4) Cons.prems(1,3) by simp
    ultimately show ?thesis using S' c(1) False Cons.prems(5) by (intro exI [of _ S']) auto
  qed
qed

lemma unlink_chain:
  assumes "chained (slps M) (g_stack_chain_head M) gs" and "distinct gs"
  shows "\<exists>S' h'. unlink_loop t None (g_stack_chain_head M) M = Some (Ret (M\<lparr>slps := S', g_stack_chain_head := h'\<rparr>)) \<and>
    chained S' h' (remove1 t gs) \<and> prev_only (slps M) S'"
proof (cases gs)
  case Nil
  then have "unlink_loop t None (g_stack_chain_head M) M = Some (Ret M)" using assms by (subst unlink_loop.simps) simp
  with Nil show ?thesis by (intro exI [of _ "slps M"] exI [of _ 0]) (use assms in \<open>simp add: prev_only_def\<close>)
next
  case (Cons g gs')
  then obtain s where g: "g_stack_chain_head M = g" "g \<noteq> 0" "slps M g = Some s" "chained (slps M) (stack_prev s) gs'"
    using assms(1) by auto
  show ?thesis
  proof (cases "g = t")
    case True
    have "unlink_loop t None (g_stack_chain_head M) M = Some (Ret (M\<lparr>g_stack_chain_head := stack_prev s\<rparr>))"
      using g True by (subst unlink_loop.simps) simp
    with g True Cons show ?thesis
      by (intro exI [of _ "slps M"] exI [of _ "stack_prev s"]) (simp add: prev_only_def)
  next
    case False
    obtain S' where S': "unlink_loop t (Some g) (stack_prev s) M = Some (Ret (M\<lparr>slps := S'\<rparr>))"
        "chained S' g (g # remove1 t gs')" "prev_only (slps M) S'"
      using unlink_after [OF g(3,4) _ False g(2)] assms(2) Cons by auto
    have "unlink_loop t None (g_stack_chain_head M) M = unlink_loop t (Some g) (stack_prev s) M"
      using g False by (subst unlink_loop.simps) simp
    with S' g False Cons show ?thesis by (intro exI [of _ S'] exI [of _ g]) simp
  qed
qed

lemma destroy_step:
  assumes wf: "slp_wf M" and legal: "slp_legal M (Destroy t)"
  shows "\<exists>M'. slp_step M (Destroy t) = Some (Ret M') \<and> slp_wf M' \<and> kept M {t} M'"
proof -
  obtain gs where c: "chained (slps M) (g_stack_chain_head M) gs" "distinct gs" "above (slps M) (g_current_stack_stop M) gs"
      "slps M 0 = None" and r: "length (regs M) = 6"
    and ok: "\<And>g s. slps M g = Some s \<Longrightarrow> slp_ok s \<and> (g \<notin> set gs \<longrightarrow> floor_of s = stack_stop s)"
    using wf by (auto simp: slp_wf_def chain_ok_def)
  obtain S' h' where S': "unlink_loop t None (g_stack_chain_head M) M = Some (Ret (M\<lparr>slps := S', g_stack_chain_head := h'\<rparr>))"
      "chained S' h' (remove1 t gs)" "prev_only (slps M) S'"
    using unlink_chain [OF c(1,2)] by blast
  let ?M = "M\<lparr>slps := S'(t := None), g_stack_chain_head := h'\<rparr>"
  note was = prev_only_Some(2) [OF S'(3)]
  have "t \<noteq> 0" using legal c(4) by (cases "t = 0") auto
  moreover have "S' t \<noteq> None" using legal prev_only_Some(1) [OF S'(3), of t] by auto
  ultimately have t: "t \<noteq> 0" "S' t \<noteq> None" by blast+
  have "slp_step M (Destroy t) = Some (Ret ?M)" using t by (simp add: stacklet_destroy_def S'(1))
  moreover have "chain_ok ?M (remove1 t gs)"
    unfolding chain_ok_def
  proof (intro conjI allI impI)
    have "t \<notin> set (remove1 t gs)" using c(2) by simp
    moreover have "above S' (g_current_stack_stop M) (remove1 t gs)"
      using above_prev [OF S'(3) above_remove1 [OF c(3)]] ok by blast
    ultimately show "chained (slps ?M) (g_stack_chain_head ?M) (remove1 t gs)"
        "above (slps ?M) (g_current_stack_stop ?M) (remove1 t gs)" using S'(2) by simp_all
    show "slps ?M 0 = None" using was [of 0] c(4) by (cases "S' 0") auto
    fix g s assume "slps ?M g = Some s"
    then have g: "g \<noteq> t" "S' g = Some s" by (auto split: if_splits)
    from was [OF g(2)] obtain s0 where s0: "slps M g = Some s0" "s = s0\<lparr>stack_prev := stack_prev s\<rparr>" by blast
    from ok [OF s0(1)] have o: "slp_ok s0" "g \<notin> set gs \<longrightarrow> floor_of s0 = stack_stop s0" by simp_all
    from o(1) show "slp_ok s" by (subst s0(2)) simp
    assume "g \<notin> set (remove1 t gs)"
    with o(2) g(1) show "floor_of s = stack_stop s" by (subst (1 2) s0(2)) simp
  qed (use c(2) in simp)
  moreover have "kept M {t} ?M"
    unfolding kept_def
  proof (intro allI impI)
    fix g s assume g: "g \<notin> {t}" "slps M g = Some s"
    obtain q where "S' g = Some (s\<lparr>stack_prev := q\<rparr>)" using prev_only_Some(1) [OF S'(3) g(2)] by blast
    with g(1) show "\<exists>s'. slps ?M g = Some s' \<and> view (mem ?M) s' = view (mem M) s" by simp
  qed
  ultimately show ?thesis using r by (intro exI [of _ ?M]) (auto simp: slp_wf_def)
qed

section \<open>Runs\<close>

definition freed :: "slp_op \<Rightarrow> addr set" where
  "freed op = (case op of Switch k b t \<Rightarrow> {t} | Finish t \<Rightarrow> {t} | Destroy t \<Rightarrow> {t} | _ \<Rightarrow> {})"

lemma step_ok:
  assumes wf: "slp_wf M" and legal: "slp_legal M op"
  shows "\<exists>M'. slp_step M op = Some (Ret M') \<and> slp_wf M' \<and> kept M (freed op) M'"
proof (cases op)
  case (Code m r ws)
  obtain gs where ok: "chain_ok M gs" using wf by (auto simp: slp_wf_def)
  let ?M = "M\<lparr>mem := m, rsp := r, regs := ws\<rparr>"
  have "kept M {} ?M" by (rule code_keeps [OF ok]) (use legal Code in auto)
  moreover have "slp_wf ?M" using ok legal Code by (auto simp: slp_wf_def)
  ultimately show ?thesis by (simp add: Code freed_def)
next
  case (New k b)
  then show ?thesis using new_step [OF wf, of k b] legal by (auto simp: freed_def)
next
  case (Switch k b t)
  with legal obtain st where "slps M t = Some st" by auto
  then show ?thesis using switch_step [OF wf, of k b t] legal unfolding Switch freed_def by (auto simp del: slp_step.simps)
next
  case (Finish t)
  with legal obtain st where "slps M t = Some st" by auto
  then show ?thesis using finish_step [OF wf, of t] legal unfolding Finish freed_def by (auto simp del: slp_step.simps)
next
  case (Destroy t)
  then show ?thesis using destroy_step [OF wf, of t] legal by (auto simp: freed_def)
qed

text \<open>A new thread, on any stack and with any registers, and what can follow.\<close>

inductive slp_runs :: "machine \<Rightarrow> slp_op list \<Rightarrow> machine \<Rightarrow> bool" where
  slp_stay: "slp_runs M [] M"
| slp_go: "slp_legal M op \<Longrightarrow> slp_step M op = Some (Ret M1) \<Longrightarrow> slp_runs M1 ops M2 \<Longrightarrow> slp_runs M (op # ops) M2"

definition slp_start :: "machine \<Rightarrow> bool" where
  "slp_start M \<longleftrightarrow> (\<exists>M0. stacklet_newthread True M0 = Some M \<and> slps M0 = (\<lambda>a. None) \<and> length (regs M0) = 6)"

definition slp_reachable :: "machine \<Rightarrow> bool" where
  "slp_reachable M \<longleftrightarrow> (\<exists>M0 ops. slp_start M0 \<and> slp_runs M0 ops M)"

lemma slp_start_wf: "slp_start M \<Longrightarrow> slp_wf M"
  by (auto simp: slp_start_def stacklet_newthread_def slp_wf_def chain_ok_def intro!: exI [of _ "[]"])

lemma slp_runs_wf: "slp_runs M ops M' \<Longrightarrow> slp_wf M \<Longrightarrow> slp_wf M'"
proof (induction rule: slp_runs.induct)
  case (slp_go M op M1 ops M2)
  from step_ok [OF slp_go.prems slp_go.hyps(1)] slp_go.hyps(2) have "slp_wf M1" by auto
  then show ?case by (rule slp_go.IH)
qed

lemma slp_reachable_wf: "slp_reachable M \<Longrightarrow> slp_wf M"
  using slp_runs_wf slp_start_wf by (auto simp: slp_reachable_def)

lemma slp_runs_kept: "slp_runs M ops M' \<Longrightarrow> slp_wf M \<Longrightarrow> kept M (\<Union>op \<in> set ops. freed op) M'"
proof (induction rule: slp_runs.induct)
  case (slp_go M op M1 ops M2)
  from step_ok [OF slp_go.prems slp_go.hyps(1)] slp_go.hyps(2) have M1: "slp_wf M1" "kept M (freed op) M1" by auto
  show ?case
    by (rule kept_trans [OF kept_mono [OF M1(2)] kept_mono [OF slp_go.IH [OF M1(1)]]]) auto
qed (simp add: kept_def)

section \<open>Properties\<close>

text \<open>
  C10. Stack switching does not go wrong: in every state that a thread can reach, each legal operation
  returns; no \<open>assert\<close> of \<open>stacklet.c\<close> fails, no loop over the chain runs on, no copy leaves its block
  and no freed stacklet is used, and every suspended stack that the operation does not end
  keeps its bounds and its bytes, wherever they are now.
\<close>

theorem stacklet_operations_return:
  assumes "slp_reachable M" and "slp_legal M op"
  shows "\<exists>M'. slp_step M op = Some (Ret M') \<and> slp_reachable M' \<and> kept M (freed op) M'"
proof -
  obtain M0 ops where M0: "slp_start M0" "slp_runs M0 ops M" using assms(1) by (auto simp: slp_reachable_def)
  obtain M' where M': "slp_step M op = Some (Ret M')" "kept M (freed op) M'"
    using step_ok [OF slp_reachable_wf [OF assms(1)] assms(2)] by blast
  have "slp_runs M0 (ops @ [op]) M'" using M0(2) assms(2) M'(1)
    by (induction rule: slp_runs.induct) (auto intro: slp_runs.intros)
  with M0(1) M' show ?thesis by (auto simp: slp_reachable_def)
qed

text \<open>Which operations suspend the running stack (with which marker, under which handle) and resume another.\<close>

fun suspends :: "slp_op \<Rightarrow> (addr \<times> addr) option" where
  "suspends (New k b) = (if fst b = 0 then None else Some (k, fst b))"
| "suspends (Switch k b t) = (if fst b = 0 then None else Some (k, fst b))"
| "suspends op = None"

fun resumes :: "slp_op \<Rightarrow> (addr \<times> addr) option" where
  "resumes (Switch k b t) = (if fst b = 0 then None else Some (t, fst b))"
| "resumes (Finish t) = Some (t, EMPTY_HANDLE)"
| "resumes op = None"

lemma suspends_frozen:
  assumes "slp_wf M" and "slp_legal M op" and "suspends op = Some (k, h)" and "slp_step M op = Some (Ret M1)"
  shows "slp_wf M1" and "at_call M k" and "\<exists>s. slps M1 h = Some s \<and> view (mem M1) s = frozen k M"
proof -
  show "slp_wf M1" using step_ok [OF assms(1,2)] assms(4) by auto
  show "at_call M k" using assms(2,3) by (cases op) (auto split: if_splits)
  show "\<exists>s. slps M1 h = Some s \<and> view (mem M1) s = frozen k M"
  proof (cases op)
    case (New k' b)
    then show ?thesis using new_step [OF assms(1), of k' b] assms(2-4) by (auto simp del: slp_step.simps split: if_splits)
  next
    case (Switch k' b t)
    with assms(2) obtain st where "slps M t = Some st" by auto
    then show ?thesis using Switch switch_step [OF assms(1), of k' b t] assms(2-4)
      by (auto simp del: slp_step.simps split: if_splits)
  qed (use assms(3) in auto)
qed

lemma resumes_view:
  assumes "slp_wf M" and "slp_legal M op" and "resumes op = Some (h, src)" and "slp_step M op = Some (Ret M')"
    and "slps M h = Some s"
  shows "resumed_as M' (view (mem M) s) src"
proof (cases op)
  case (Switch k b t)
  then show ?thesis using switch_step [OF assms(1), of k b t s] assms(2-5)
    by (auto simp del: slp_step.simps split: if_splits)
next
  case (Finish t)
  then show ?thesis using finish_step [OF assms(1), of t s] assms(2-5) by (auto simp del: slp_step.simps)
qed (use assms(3) in auto)

lemma frozen_resumed:
  assumes "slp_wf M" and "at_call M k" and "resumed_as M' (frozen k M) src"
  shows "rsp M' = rsp M \<and> regs M' = regs M \<and> g_source M' = src \<and>
    g_current_stack_stop M' = g_current_stack_stop (stop_above k M) \<and>
    (\<forall>a. rsp M \<le> a \<and> a < g_current_stack_stop M' \<longrightarrow> mem M' a = mem M a)"
proof -
  let ?stop = "g_current_stack_stop (stop_above k M)" and ?P = "fold push (regs M) M" and ?b = "rsp M - 48"
  obtain gs where ok: "chain_ok M gs" and r: "length (regs M) = 6" using assms(1) by (auto simp: slp_wf_def)
  have k: "48 < rsp M" "rsp M \<le> k" "k < ?stop"
    using assms(2) stop_above(2) [OF ok] by (auto simp: at_call_def)
  note P = pushes [of "regs M" M, unfolded r]
  obtain M1 where M1: "M' = pop_regs 6 [] M1" "rsp M1 = ?b" and src: "g_source M' = src" "g_current_stack_stop M' = ?stop"
    and bytes: "fetch (mem M') ?b (?stop - ?b) = fetch (mem ?P) ?b (?stop - ?b)"
    using assms(3) by (auto simp: resumed_as_def frozen_def Let_def)
  have same: "mem M' a = mem ?P a" if "?b \<le> a" "a < ?stop" for a
    using arg_cong [where f = "\<lambda>xs. xs ! (a - ?b)", OF bytes] that by simp
  have m1: "mem M1 = mem M'" by (simp add: M1(1) pop_regs_keeps)
  have "fetch (mem M1) ?b 48 = fetch (mem ?P) ?b 48" by (rule fetch_cong) (use same k m1 in auto)
  then have "fetch (mem M1) (rsp M1) (8 * length (rev (regs M))) = concat (map le64 (rev (regs M)))"
    using P k M1(2) r by simp
  from pops [OF this, of "[]"] have "M' = M1\<lparr>rsp := rsp M, regs := regs M\<rparr>" using M1 r k by simp
  then have "rsp M' = rsp M" "regs M' = regs M" by simp_all
  moreover have "mem M' a = mem M a" if "rsp M \<le> a" "a < ?stop" for a using same [of a] that P k by simp
  ultimately show ?thesis using src by simp
qed

text \<open>
  C3. Switching away and back is the identity on the stack: when a stack is suspended in a call of \<open>stacklet_new\<close> or
  \<open>stacklet_switch\<close> (with its local variable at \<open>k\<close>), other stacks run, switch and end in any order, and
  then one of them resumes it, the call returns with the stack pointer, the callee-saved
  registers and every byte of the stack, up to its far end, as they were; and \<open>g_source\<close> is the
  handle of the stack that switched, or the empty handle when it has ended.
\<close>

theorem stacklet_roundtrip:
  assumes "slp_reachable M" and "suspends op = Some (k, h)" and "slp_runs M (op # ops) M2"
    and "h \<notin> (\<Union>op \<in> set ops. freed op)" and "resumes waker = Some (h, src)" and "slp_runs M2 [waker] M3"
  shows "rsp M3 = rsp M \<and> regs M3 = regs M \<and> g_source M3 = src \<and>
    g_current_stack_stop M3 = g_current_stack_stop (stop_above k M) \<and>
    (\<forall>a. rsp M \<le> a \<and> a < g_current_stack_stop M3 \<longrightarrow> mem M3 a = mem M a)"
proof -
  from assms(3) obtain M1 where M1: "slp_legal M op" "slp_step M op = Some (Ret M1)" "slp_runs M1 ops M2"
    by (auto elim: slp_runs.cases)
  from assms(6) have waker: "slp_legal M2 waker" "slp_step M2 waker = Some (Ret M3)"
    by (auto elim!: slp_runs.cases [of M2 "[waker]"] elim: slp_runs.cases)
  note s = suspends_frozen [OF slp_reachable_wf [OF assms(1)] M1(1) assms(2) M1(2)]
  obtain s2 where "slps M2 h = Some s2" "view (mem M2) s2 = frozen k M"
    using slp_runs_kept [OF M1(3) s(1)] s(3) assms(4) unfolding kept_def by metis
  with resumes_view [OF slp_runs_wf [OF M1(3) s(1)] waker(1) assms(5) waker(2)]
  have "resumed_as M3 (frozen k M) src" by simp
  then show ?thesis by (rule frozen_resumed [OF slp_reachable_wf [OF assms(1)] s(2)])
qed

text \<open>A thread whose main stack starts a stacklet, which writes over the marker of the main stack and ends.\<close>

definition main_stack :: machine where
  "main_stack = \<lparr>g_stack_chain_head = 0, g_current_stack_stop = 0, g_current_stack_marker = 0, g_source = 0, g_target = 0,
     mem = (\<lambda>a. if a < 1000 then 0 else 1), slps = (\<lambda>a. None), rsp = 1000, regs = [1, 2, 3, 4, 5, 6]\<rparr>"

lemma main_stack_reachable: "slp_reachable main_stack"
proof -
  have "slp_start main_stack"
    by (auto simp: slp_start_def stacklet_newthread_def main_stack_def intro!: exI [of _ main_stack])
  then show ?thesis unfolding slp_reachable_def by (blast intro: slp_stay)
qed

lemma stacklet_roundtrip_witness:
  "\<exists>m M2 M3. m 1000 = 7 \<and>
     slp_runs main_stack [New 1016 (50000, \<lambda>i. 0), Code m 900 [0, 0, 0, 0, 0, 0]] M2 \<and> slp_runs M2 [Finish 50000] M3 \<and>
     rsp M3 = 1000 \<and> regs M3 = [1, 2, 3, 4, 5, 6] \<and> g_source M3 = EMPTY_HANDLE \<and>
     (\<forall>a. 1000 \<le> a \<and> a < 1017 \<longrightarrow> mem M3 a = 1)"
proof -
  let ?new = "New 1016 (50000, \<lambda>i. 0)"
  have l0: "slp_legal main_stack ?new" by (simp add: at_call_def on_stack_def main_stack_def)
  obtain M1 s where M1: "slp_step main_stack ?new = Some (Ret M1)" "slp_wf M1" "g_current_stack_stop M1 = 1016"
      "slps M1 50000 = Some s"
    using new_step [OF slp_reachable_wf [OF main_stack_reachable] l0] by auto
  define m where "m = (\<lambda>a. if a < 1016 then 7 else mem M1 a)"
  let ?code = "Code m 900 [0, 0, 0, 0, 0, 0]"
  define M2 where "M2 = M1\<lparr>mem := m, rsp := 900, regs := [0, 0, 0, 0, 0, 0]\<rparr>"
  have l1: "slp_legal M1 ?code" using M1(3) by (simp add: on_stack_def m_def)
  have step: "slp_step M1 ?code = Some (Ret M2)" by (simp add: M2_def)
  have r: "slp_runs main_stack [?new, ?code] M2" by (intro slp_go [OF l0 M1(1)] slp_go [OF l1 step] slp_stay)
  have l2: "slp_legal M2 (Finish 50000)" using M1(3,4) by (simp add: on_stack_def M2_def)
  obtain M3 where "slp_step M2 (Finish 50000) = Some (Ret M3)"
    using step_ok [OF slp_runs_wf [OF r slp_reachable_wf [OF main_stack_reachable]] l2] by blast
  then have w: "slp_runs M2 [Finish 50000] M3" using l2 by (blast intro: slp_runs.intros)
  have "suspends ?new = Some (1016, 50000)" "50000 \<notin> (\<Union>op \<in> set [?code]. freed op)"
      "resumes (Finish 50000) = Some (50000, EMPTY_HANDLE)" by (simp_all add: freed_def)
  note back_again = stacklet_roundtrip [OF main_stack_reachable this(1) r this(2,3) w]
  have "rsp main_stack = 1000" "regs main_stack = [1, 2, 3, 4, 5, 6]" "g_current_stack_stop (stop_above 1016 main_stack) = 1017"
      "\<And>a. 1000 \<le> a \<Longrightarrow> mem main_stack a = 1" by (simp_all add: main_stack_def stop_above_def)
  with back_again r w show ?thesis by (intro exI [of _ m] exI [of _ M2] exI [of _ M3]) (simp add: m_def)
qed

lemma stacklet_operations_return_witness:
  "\<exists>M'. slp_step main_stack (New 1016 (50000, \<lambda>i. 0)) = Some (Ret M') \<and> slp_reachable M'"
proof -
  have "slp_legal main_stack (New 1016 (50000, \<lambda>i. 0))" by (simp add: at_call_def on_stack_def main_stack_def)
  from stacklet_operations_return [OF main_stack_reachable this] show ?thesis by blast
qed

section \<open>Pointers into a suspended stack\<close>

text \<open>\<open>_stacklet_translate_pointer\<close> finds the byte of the suspended stack at \<open>p\<close>, in the copy or in place.\<close>

definition byte_at :: "machine \<Rightarrow> stacklet_s \<Rightarrow> location \<Rightarrow> stack_byte" where
  "byte_at M s l = (case l of In_copy i \<Rightarrow> stack_copy s ! i | In_place a \<Rightarrow> mem M a)"

lemma translate_pointer_finds:
  assumes "slp_reachable M" and "slps M h = Some s" and "stack_start s \<le> p" and "p < stack_stop s"
  shows "\<exists>l. stacklet_translate_pointer h p M = Ret l \<and> byte_at M s l = stack_of (mem M) s ! (p - stack_start s)"
proof -
  obtain gs where "chain_ok M gs" using slp_reachable_wf [OF assms(1)] by (auto simp: slp_wf_def)
  then have ok: "slp_ok s" "h \<noteq> 0" using assms(2) by (auto simp: chain_ok_def intro: ccontr)
  let ?n = "nat (stack_saved s)"
  show ?thesis
  proof (cases "p - stack_start s < ?n")
    case True
    moreover have "?n \<le> length (stack_copy s)" using ok(1) by (auto simp: slp_ok_def floor_of_def)
    ultimately show ?thesis using ok assms
      by (auto simp: stacklet_translate_pointer_def Let_def byte_at_def stack_of_def nth_append slp_ok_def nat_diff_distrib)
  next
    case False
    moreover have "?n \<le> length (stack_copy s)" using ok(1) by (auto simp: slp_ok_def floor_of_def)
    ultimately show ?thesis using ok assms
      by (auto simp: stacklet_translate_pointer_def Let_def byte_at_def stack_of_def nth_append slp_ok_def floor_of_def)
  qed
qed

end
