(* ===== verification/Spec2Isabelle.thy ===== *)
theory Spec2Isabelle
  imports Prelude NgxQueue RBTree Splay UvError Handle Timer Gevent Gevent_Inv Gevent_Props Gevent_Sem Io Io_Props Sys Walk Loop_Watcher Async Stream Stream_Props Tcp_Pipe Threadpool Inet Udp_Poll Signal Signal_Props Signal_Run Process Process_Props Fs_Event Fs Fs_Props Fs_Poll Core Core_Props Barrier Threads Stacklet Stacklet_Props Stacklet_Run
begin

text \<open>
  A model of libgevent and of the parts of libuv that it runs on, with the theorems that make
  them correct. Paths are relative to the repository; \<open>unix/\<close> is \<open>libuv/src/unix/\<close>.

  The program. \<open>gevent.c\<close> gives C programs cothreads, channels and semaphores. A cothread that
  must wait puts itself into a queue, or asks libuv for a timer or a name resolution, and gives
  the processor to the next ready cothread or to the hub, the cothread that runs the event loop.
  libuv is an event loop: user code starts handles (timers, sockets, pipes, signals, children)
  and requests (writes, connects, work for the thread pool); \<open>uv_run\<close> polls the kernel, calls the
  callbacks and ends when no referenced handle is active, no request is open and no handle is
  closing. Queues are the intrusive lists of \<open>ngx-queue.h\<close>; timers and signal watchers live in
  red-black trees made by the macros of \<open>tree.h\<close>.

  Theories and sources.

  \<^item> \<open>Prelude\<close>: 32-bit flags, and the type \<open>outcome\<close> of a computation: it returns, an \<open>assert\<close> or
    \<open>abort()\<close> ends it (\<open>Abort\<close>), or it still waits for an answer of the kernel (\<open>Starve\<close>).
  \<^item> \<open>NgxQueue\<close>: every macro of \<open>libuv/include/uv-private/ngx-queue.h\<close>, as assignments to \<open>next\<close>
    and \<open>prev\<close> in a heap; \<open>qrep\<close> relates a heap to the list it stands for. Insertion and draining
    are first in, first out; split and add are inverse; inserting twice loses nodes.
  \<^item> \<open>RBTree\<close>: the RB macros of \<open>tree.h\<close>. A tree is a value and a parent pointer is the path to the
    root (a zipper). Order, colours, black heights and contents of insertion and removal, and the
    height of every reachable tree; the locale \<open>rb_order\<close> has what a comparison must satisfy, and
    the timers and signals interpret it.
  \<^item> \<open>UvError\<close>: \<open>unix/error.c\<close> and the code tables of \<open>uv.h\<close>. \<open>Handle\<close>: the inline functions of
    \<open>uv-common.h\<close>, the flags and counts that decide whether the loop is alive.
  \<^item> \<open>Timer\<close>: \<open>unix/timer.c\<close>. Starting, stopping, repeating; \<open>uv__run_timers\<close> fires the due timers
    in order; the poll timeout and where its 32 bits are too few.
  \<^item> \<open>Gevent\<close>, \<open>Gevent_Inv\<close>, \<open>Gevent_Props\<close>, \<open>Gevent_Sem\<close>: \<open>gevent.c\<close>. A suspended stack is the list
    of library calls open in it; a run is a sequence of user operations and loop events. No
    assertion fails, states and queues agree, a cothread wakes up for its own reason only,
    channels deliver what was sent, semaphores bound the holders, and three runs in which the
    main cothread or a waiting one is not served as the header file promises.
  \<^item> \<open>Io\<close>, \<open>Io_Props\<close>: the watcher table of \<open>unix/core.c\<close> and \<open>uv__io_poll\<close> of
    \<open>unix/linux/linux-core.c\<close>; epoll is a parameter. The table, its size and the kernel's
    interest list agree.
  \<^item> \<open>Sys\<close>: the wrappers of \<open>unix/core.c\<close> and \<open>unix/process.c\<close> around system calls; the answers of
    the kernel are a script, one for each call, and every call is recorded. No descriptor leaks.
  \<^item> \<open>Walk\<close>, \<open>Loop_Watcher\<close>: a walk over a queue that its body changes, and \<open>unix/loop-watcher.c\<close>.
  \<^item> \<open>Async\<close>: \<open>unix/async.c\<close>, with senders in other threads as interleaved steps: no wakeup is lost.
  \<^item> \<open>Stream\<close>, \<open>Stream_Props\<close>, \<open>Tcp_Pipe\<close>: \<open>unix/stream.c\<close>, \<open>tcp.c\<close>, \<open>pipe.c\<close>. The bytes given to the
    kernel are the bytes submitted, in order; every request of a closed stream is answered.
  \<^item> \<open>Threadpool\<close>: \<open>unix/threadpool.c\<close> and \<open>getaddrinfo.c\<close>, workers as interleaved steps: each
    request is answered once, and cancelled ones are not run.
  \<^item> \<open>Inet\<close>: \<open>libuv/src/inet.c\<close>, text and bytes of addresses, inverse to each other, within their
    buffers; the string functions of \<open>uv-common.c\<close>.
  \<^item> \<open>Udp_Poll\<close>: \<open>unix/udp.c\<close>, \<open>unix/poll.c\<close> and the checked calls of \<open>uv-common.c\<close>.
  \<^item> \<open>Signal\<close>, \<open>Signal_Props\<close>, \<open>Signal_Run\<close>: \<open>unix/signal.c\<close>. Signals come between any two steps; the
    messages in the pipe and the two counters of a watcher agree in every run, so a watcher is
    not closed while messages still name it.
  \<^item> \<open>Process\<close>, \<open>Process_Props\<close>: \<open>unix/process.c\<close>, parent and child of \<open>fork\<close>. Which files the child
    has as its standard streams, and which inherited ones it loses.
  \<^item> \<open>Fs_Event\<close>: \<open>unix/linux/inotify.c\<close> and \<open>unix/tty.c\<close>.
  \<^item> \<open>Fs\<close>, \<open>Fs_Props\<close>: \<open>unix/fs.c\<close>, every request, synchronous or on the pool; copying by hand
    when the kernel has no \<open>sendfile\<close> copies the right bytes. \<open>Fs_Poll\<close>: \<open>libuv/src/fs-poll.c\<close>.
  \<^item> \<open>Core\<close>, \<open>Core_Props\<close>: \<open>uv_close\<close>, \<open>uv_run\<close> and \<open>unix/loop.c\<close>, which put all of the above together: the
    call backs of a poll go to the functions of each handle type. A loop that has only timers
    runs to its end.
  \<^item> \<open>Stacklet\<close>, \<open>Stacklet_Props\<close>, \<open>Stacklet_Run\<close>: \<open>stacklet/stacklet.c\<close> and the switch for x86-64, on a memory of
    bytes with the registers that the switch pushes. The chain of the stacks that are partly in
    place is ordered; switching away and back is the identity on stack and registers, which is
    what \<open>Gevent\<close> assumes of its primitive; no copy leaves its block.
  \<^item> \<open>Barrier\<close>, \<open>Threads\<close>: the barrier of \<open>unix/thread.c\<close> and \<open>win/thread.c\<close>, threads as interleaved steps: it holds
    and blocks nobody for ever; the pthread wrappers; the read-write lock and once guard of Windows.
  \<^item> \<open>Splay\<close>: the SPLAY macros of \<open>tree.h\<close>, top-down splaying with the two spines as lists. It meets the same
    contract as \<open>RBTree\<close> and agrees with it operation by operation.

  State. The record \<open>uv_loop\<close> has the fields of \<open>uv_loop_t\<close> that every handle uses; each theory of a
  handle type extends it by its own (\<open>timer_loop\<close>, \<open>io_loop\<close>, \<open>net_loop\<close>, \<open>lw_loop\<close>, \<open>async_loop\<close>,
  \<open>stream_loop\<close>, \<open>udp_loop\<close>,
  \<open>signal_loop\<close>, \<open>process_loop\<close>, \<open>fs_event_loop\<close>, \<open>fs_loop\<close>, \<open>fs_poll_loop\<close>, \<open>core_loop\<close>). Handles and requests are named by their
  addresses, natural numbers; a callback is the number the user gave, and user code is a function
  from the event it is told of to a new state, an argument of the definitions that call back.

  Loops and bounds. A loop over system calls follows the script and is structural on it. A loop
  that user code can keep alive for ever (\<open>uv__run_timers\<close>, the pending queues, \<open>uv_run2\<close>) is a
  \<open>partial_function\<close> into \<open>option\<close>: \<open>None\<close> is not returning, and the theorems that it returns are
  stated as such. The fixed bounds of the code (48 polls, 32 reads, 32 messages) are in the
  model as they are. Time, flags and counters have their width: \<open>uint64\<close> and \<open>uint32\<close> wrap.

  Not modelled. The Windows port and the kernels other than Linux: other implementations of the
  same interface. \<open>dl.c\<close> and \<open>syscalls.c\<close>: each function passes its
  arguments to one system or library call. The switches of
  \<open>stacklet\<close> for other processors.
  The Python bindings, tests and benchmarks. 
  Allocation succeeds unless a definition says otherwise; addresses handed out are fresh.
\<close>

end
